(* ===== verification/Sdk_Prelude.thy ===== *)
theory Sdk_Prelude
  imports Complex_Main "HOL-Library.AList"
begin

text \<open>
  The prelude of the development: the JavaScript values the modelled code computes with
  (numbers, insertion-ordered maps and sets, slices of arrays and strings), the lemmas about
  them that several components share, the collections the component proofs draw on, and the
  interface \<open>invariant_machine\<close> that every component with state discharges.

  A JavaScript \<open>Map\<close> is an association list in insertion order: \<^term>\<open>AList.update\<close> is
  \<open>map.set\<close> (in place for a key that is present, at the end otherwise), \<^term>\<open>AList.delete\<close>
  is \<open>map.delete\<close>, \<^term>\<open>map_of\<close> is \<open>map.get\<close>.
\<close>

named_theorems js_simps \<comment> \<open>unfoldings of the JavaScript helpers\<close>
named_theorems inv_intros \<comment> \<open>one lemma per operation: it keeps its component's invariant\<close>

section \<open>Numbers\<close>

text \<open>
  A JavaScript number: \<open>NaN\<close>, an infinity (with its sign, \<open>True\<close> for \<open>-Infinity\<close>) or a finite
  value. Finite values are exact rationals: the rounding of binary64 arithmetic is not modelled.
\<close>

datatype js_number = NaN | Infinity bool | Num rat

definition max_safe_integer :: int where
  "max_safe_integer = 9007199254740991"

text \<open>\<open>Number.isFinite\<close> and \<open>Number.isSafeInteger\<close>.\<close>

fun is_finite_number :: "js_number \<Rightarrow> bool" where
  "is_finite_number (Num r) = True"
| "is_finite_number _ = False"

fun is_safe_integer :: "js_number \<Rightarrow> bool" where
  "is_safe_integer (Num r) = (of_int \<lfloor>r\<rfloor> = r \<and> \<bar>\<lfloor>r\<rfloor>\<bar> \<le> max_safe_integer)"
| "is_safe_integer _ = False"

text \<open>Every comparison with \<open>NaN\<close> is false.\<close>

fun js_less :: "js_number \<Rightarrow> js_number \<Rightarrow> bool" where
  "js_less NaN _ = False"
| "js_less _ NaN = False"
| "js_less (Infinity a) (Infinity b) = (a \<and> \<not> b)"
| "js_less (Infinity a) (Num _) = a"
| "js_less (Num _) (Infinity b) = (\<not> b)"
| "js_less (Num x) (Num y) = (x < y)"

fun number_value :: "js_number \<Rightarrow> rat" where
  "number_value (Num r) = r"
| "number_value _ = 0"

definition number_to_nat :: "js_number \<Rightarrow> nat" where
  "number_to_nat n = nat \<lfloor>number_value n\<rfloor>"

lemma pred_option_code [code]: "pred_option P None = True" "pred_option P (Some x) = P x"
  by simp_all

section \<open>Arrays\<close>

text \<open>\<open>findIndex\<close> followed by \<open>splice(index, 1)\<close>: the first match and the rest of the array.\<close>

fun take_first :: "('a \<Rightarrow> bool) \<Rightarrow> 'a list \<Rightarrow> ('a \<times> 'a list) option" where
  "take_first p [] = None"
| "take_first p (x # xs) =
     (if p x then Some (x, xs)
      else map_option (\<lambda>(y, ys). (y, x # ys)) (take_first p xs))"

lemma take_first_None_iff: "take_first p xs = None \<longleftrightarrow> (\<forall>x \<in> set xs. \<not> p x)"
  by (induction xs) auto

lemma take_first_SomeE:
  assumes "take_first p xs = Some (x, ys)"
  obtains us vs where "xs = us @ x # vs" "ys = us @ vs" "p x" "\<forall>u \<in> set us. \<not> p u"
  using assms
proof (induction xs arbitrary: ys thesis)
  case Nil
  then show ?case by simp
next
  case (Cons a xs)
  show ?case
  proof (cases "p a")
    case True
    with Cons.prems(2) show ?thesis
      by (intro Cons.prems(1)[of "[]" xs]) auto
  next
    case False
    with Cons.prems(2) obtain zs where zs: "take_first p xs = Some (x, zs)" "ys = a # zs"
      by auto
    obtain us vs where "xs = us @ x # vs" "zs = us @ vs" "p x" "\<forall>u \<in> set us. \<not> p u"
      using Cons.IH[OF _ zs(1)] by blast
    with False zs(2) show ?thesis
      by (intro Cons.prems(1)[of "a # us" vs]) auto
  qed
qed

lemma take_first_length: "take_first p xs = Some (x, ys) \<Longrightarrow> length xs = Suc (length ys)"
  by (auto elim!: take_first_SomeE)

lemma take_first_set: "take_first p xs = Some (x, ys) \<Longrightarrow> set xs = insert x (set ys)"
  by (auto elim!: take_first_SomeE)

text \<open>\<open>items.length > limit ? items.slice(items.length - limit) : items\<close>.\<close>

definition keep_last :: "'a list \<Rightarrow> nat \<Rightarrow> 'a list" where
  "keep_last items limit =
     (if length items > limit then drop (length items - limit) items else items)"

lemma length_keep_last [simp]: "length (keep_last xs n) = min (length xs) n"
  by (simp add: keep_last_def)

lemma set_keep_last: "set (keep_last xs n) \<subseteq> set xs"
  by (auto simp: keep_last_def dest: in_set_dropD)

lemma keep_last_short [simp]: "length xs \<le> n \<Longrightarrow> keep_last xs n = xs"
  by (simp add: keep_last_def)

lemma keep_last_eq_drop: "keep_last xs n = drop (length xs - n) xs"
  by (simp add: keep_last_def)

text \<open>\<open>for (i = 0; i < xs.length; i += n) out.push(xs.slice(i, i + n))\<close>, for \<open>n\<close> not zero.\<close>

function chunks_of :: "nat \<Rightarrow> 'a list \<Rightarrow> 'a list list" where
  "chunks_of n xs = (if xs = [] \<or> n = 0 then [] else take n xs # chunks_of n (drop n xs))"
  by pat_completeness auto
termination
  by (relation "measure (\<lambda>(n, xs). length xs)") auto

declare chunks_of.simps [simp del]

lemma concat_chunks_of: "0 < n \<Longrightarrow> concat (chunks_of n xs) = xs"
proof (induction n xs rule: chunks_of.induct)
  case (1 n xs)
  then show ?case by (subst chunks_of.simps) auto
qed

lemma chunks_of_bounds: "c \<in> set (chunks_of n xs) \<Longrightarrow> c \<noteq> [] \<and> length c \<le> n"
proof (induction n xs rule: chunks_of.induct)
  case (1 n xs)
  then show ?case by (subst (asm) (2) chunks_of.simps) (auto split: if_splits)
qed

lemma sorted_wrt_chunks_of: "sorted_wrt P xs \<Longrightarrow> c \<in> set (chunks_of n xs) \<Longrightarrow> sorted_wrt P c"
proof (induction n xs rule: chunks_of.induct)
  case (1 n xs)
  then show ?case
    by (subst (asm) (2) chunks_of.simps) (auto simp: sorted_wrt_take sorted_wrt_drop split: if_splits)
qed

lemma set_chunks_of: "c \<in> set (chunks_of n xs) \<Longrightarrow> set c \<subseteq> set xs"
proof (induction n xs rule: chunks_of.induct)
  case (1 n xs)
  then show ?case
    by (subst (asm) (2) chunks_of.simps) (auto split: if_splits dest: in_set_takeD in_set_dropD)
qed

section \<open>Maps and sets in insertion order\<close>

lemma keys_update: "fst ` set (AList.update k v m) = insert k (fst ` set m)"
  by (induction m) auto

lemma keys_delete: "fst ` set (AList.delete k m) = fst ` set m - {k}"
  by (auto simp: AList.delete_eq)

lemma update_new: "k \<notin> fst ` set m \<Longrightarrow> AList.update k v m = m @ [(k, v)]"
  by (induction m) auto

lemma map_of_update: "map_of (AList.update k v m) j = (if j = k then Some v else map_of m j)"
  by (simp add: update_conv')

lemma distinct_update: "distinct (map fst m) \<Longrightarrow> distinct (map fst (AList.update k v m))"
  by (rule distinct_update)

lemma distinct_delete: "distinct (map fst m) \<Longrightarrow> distinct (map fst (AList.delete k m))"
  by (rule distinct_delete)

lemma set_delete_subset: "set (AList.delete k m) \<subseteq> set m"
  by (auto simp: AList.delete_eq)

lemma delete_absent: "k \<notin> fst ` set m \<Longrightarrow> AList.delete k m = m"
  by (induction m) (auto simp: AList.delete_eq)

lemma update_split:
  "k \<notin> fst ` set us \<Longrightarrow> AList.update k v (us @ (k, w) # vs) = us @ (k, v) # vs"
  by (induction us) auto

lemma delete_split:
  "k \<notin> fst ` set us \<Longrightarrow> k \<notin> fst ` set vs \<Longrightarrow> AList.delete k (us @ (k, w) # vs) = us @ vs"
  by (induction us) (auto simp: delete_absent)

lemma map_of_splitE:
  assumes "distinct (map fst m)" "map_of m k = Some v"
  obtains us vs where "m = us @ (k, v) # vs" "AList.delete k m = us @ vs"
    "k \<notin> fst ` set us" "k \<notin> fst ` set vs"
proof -
  obtain us vs where m: "m = us @ (k, v) # vs"
    using map_of_SomeD[OF assms(2)] by (meson split_list)
  then have "k \<notin> fst ` set us" "k \<notin> fst ` set vs"
    using assms(1) by auto
  then show ?thesis
    using m delete_split by (intro that[of us vs]) auto
qed

lemma length_delete:
  "distinct (map fst m) \<Longrightarrow> k \<in> fst ` set m \<Longrightarrow> Suc (length (AList.delete k m)) = length m"
proof (induction m)
  case Nil
  then show ?case by simp
next
  case (Cons p m)
  then show ?case
    by (cases p; cases "fst p = k") (auto simp: delete_absent)
qed

text \<open>\<open>set.add\<close> on an insertion-ordered set.\<close>

definition set_add :: "'a \<Rightarrow> 'a list \<Rightarrow> 'a list" where
  "set_add x xs = (if x \<in> set xs then xs else xs @ [x])"

lemma set_set_add [simp]: "set (set_add x xs) = insert x (set xs)"
  by (auto simp: set_add_def)

lemma distinct_set_add [simp]: "distinct (set_add x xs) \<longleftrightarrow> distinct xs"
  by (auto simp: set_add_def)

section \<open>Strings\<close>

text \<open>\<open>s.startsWith(p)\<close> and \<open>s.endsWith(p)\<close>.\<close>

fun starts_with :: "string \<Rightarrow> string \<Rightarrow> bool" where
  "starts_with s [] = True"
| "starts_with [] (p # ps) = False"
| "starts_with (c # s) (p # ps) = (c = p \<and> starts_with s ps)"

lemma starts_with_iff: "starts_with s p \<longleftrightarrow> (\<exists>r. s = p @ r)"
  by (induction s p rule: starts_with.induct) auto

definition ends_with :: "string \<Rightarrow> string \<Rightarrow> bool" where
  "ends_with s p = starts_with (rev s) (rev p)"

lemma ends_with_iff: "ends_with s p \<longleftrightarrow> (\<exists>r. s = r @ p)"
  by (auto simp: ends_with_def starts_with_iff rev_eq_append_conv)
     (metis append_Nil2 rev_append rev_rev_ident)

text \<open>The white space of the ASCII range that \<open>\s\<close> and \<open>trim\<close> recognise.\<close>

definition is_space :: "char \<Rightarrow> bool" where
  "is_space c \<longleftrightarrow> c \<in> {CHR '' '', CHR 0x09, CHR 0x0A, CHR 0x0B, CHR 0x0C, CHR 0x0D}"

definition is_digit :: "char \<Rightarrow> bool" where
  "is_digit c \<longleftrightarrow> c \<in> set ''0123456789''"

definition trim :: "string \<Rightarrow> string" where
  "trim s = rev (dropWhile is_space (rev (dropWhile is_space s)))"

lemma trim_Nil [simp]: "trim [] = []"
  by (simp add: trim_def)

lemma trim_split:
  obtains us vs where "s = us @ trim s @ vs" "list_all is_space us" "list_all is_space vs"
proof -
  let ?d = "dropWhile is_space s"
  have "?d = rev (dropWhile is_space (rev ?d)) @ rev (takeWhile is_space (rev ?d))"
    by (metis rev_append rev_rev_ident takeWhile_dropWhile_id)
  then have "s = takeWhile is_space s @ trim s @ rev (takeWhile is_space (rev ?d))"
    unfolding trim_def by (metis takeWhile_dropWhile_id)
  moreover have "list_all is_space (takeWhile is_space s)"
    "list_all is_space (rev (takeWhile is_space (rev ?d)))"
    by (auto simp: list_all_iff dest: set_takeWhileD)
  ultimately show ?thesis by (rule that)
qed

lemma dropWhile_spaces: "list_all is_space us \<Longrightarrow> dropWhile is_space (us @ s) = dropWhile is_space s"
  by (induction us) auto

lemma trim_pad:
  assumes "list_all is_space us" "list_all is_space vs"
  shows "trim (us @ s @ vs) = trim s"
proof (cases "list_all is_space s")
  case True
  then have "dropWhile is_space (us @ s @ vs) = []" "dropWhile is_space s = []"
    using assms by (simp_all only: dropWhile_eq_Nil_conv list_all_iff set_append Un_iff) blast+
  then show ?thesis by (simp only: trim_def rev.simps dropWhile.simps)
next
  case False
  then have "dropWhile is_space (s @ vs) = dropWhile is_space s @ vs"
    by (auto simp: list_all_iff dropWhile_append1)
  moreover have "dropWhile is_space (rev vs @ rev t) = dropWhile is_space (rev t)" for t
    using assms(2) by (intro dropWhile_spaces) (simp add: list_all_iff)
  ultimately show ?thesis
    by (simp add: trim_def dropWhile_spaces[OF assms(1)])
qed

lemma trim_idem [simp]: "trim (trim s) = trim s"
proof -
  obtain us vs where s: "s = us @ trim s @ vs" "list_all is_space us" "list_all is_space vs"
    by (rule trim_split)
  have "trim (us @ trim s @ vs) = trim (trim s)"
    by (rule trim_pad[OF s(2,3)])
  with s(1) show ?thesis by simp
qed

text \<open>\<open>text.replace(/\s+/g, ' ').trim()\<close>.\<close>

fun squeeze_spaces :: "string \<Rightarrow> string" where
  "squeeze_spaces [] = []"
| "squeeze_spaces (c # s) =
     (if is_space c
      then (case s of [] \<Rightarrow> [CHR '' ''] | d # _ \<Rightarrow> if is_space d then squeeze_spaces s
              else CHR '' '' # squeeze_spaces s)
      else c # squeeze_spaces s)"

definition collapse_whitespace :: "string \<Rightarrow> string" where
  "collapse_whitespace text = trim (squeeze_spaces text)"

text \<open>\<open>parts.join(sep)\<close>.\<close>

fun join_strings :: "string \<Rightarrow> string list \<Rightarrow> string" where
  "join_strings sep [] = []"
| "join_strings sep [x] = x"
| "join_strings sep (x # xs) = x @ sep @ join_strings sep xs"

text \<open>Characters the code quotes, those outside ASCII as their UTF-8 bytes.\<close>

definition ellipsis :: string where "ellipsis = [CHR 0xE2, CHR 0x80, CHR 0xA6]"
definition em_dash :: string where "em_dash = [CHR 0xE2, CHR 0x80, CHR 0x94]"
definition times_sign :: string where "times_sign = [CHR 0xC3, CHR 0x97]"
definition single_quote :: char where "single_quote = CHR 0x27"
definition quote_mark :: string where "quote_mark = [CHR 0x22]"
definition back_quote :: string where "back_quote = [CHR 0x60]"

text \<open>\<open>x ?? d\<close>.\<close>

definition value_or :: "'a option \<Rightarrow> 'a \<Rightarrow> 'a" where
  "value_or x d = (case x of None \<Rightarrow> d | Some y \<Rightarrow> y)"

definition opt_bind :: "'a option \<Rightarrow> ('a \<Rightarrow> 'b option) \<Rightarrow> 'b option" where
  "opt_bind x f = (case x of None \<Rightarrow> None | Some y \<Rightarrow> f y)"

definition or_else :: "'a option \<Rightarrow> 'a option \<Rightarrow> 'a option" where
  "or_else x y = (case x of None \<Rightarrow> y | Some _ \<Rightarrow> x)"

text \<open>A decimal rendering of a natural number.\<close>

definition digit_char :: "nat \<Rightarrow> char" where
  "digit_char d = char_of (48 + d mod 10)"

fun nat_to_string :: "nat \<Rightarrow> string" where
  "nat_to_string n = (if n < 10 then [digit_char n] else nat_to_string (n div 10) @ [digit_char n])"

declare nat_to_string.simps [simp del]

section \<open>Machines with an invariant\<close>

text \<open>
  A component with state is used through a sequence of operations (calls, settled promises,
  fired signals), each run to completion by the event loop. The interface names the start state,
  the step of one operation and the invariant; its client lemmas lift the one-step law to every
  sequence of operations.
\<close>

locale invariant_machine =
  fixes start :: 's
    and step :: "'s \<Rightarrow> 'e \<Rightarrow> 's"
    and inv :: "'s \<Rightarrow> bool"
  assumes inv_start: "inv start"
    and inv_step: "inv s \<Longrightarrow> inv (step s e)"
begin

lemma inv_run: "inv s \<Longrightarrow> inv (foldl step s es)"
  by (induction es arbitrary: s) (auto intro: inv_step)

lemma inv_reachable: "inv (foldl step start es)"
  by (rule inv_run[OF inv_start])

lemma reachable_elim:
  assumes "\<And>s. inv s \<Longrightarrow> P s"
  shows "P (foldl step start es)"
  by (rule assms[OF inv_reachable])

end

text \<open>A machine whose steps also keep a relation between successive states (a history that only
  grows, a flag that never returns): runs keep it as well.\<close>

locale monotone_machine = invariant_machine +
  fixes le :: "'s \<Rightarrow> 's \<Rightarrow> bool"
  assumes le_refl: "le s s"
    and le_trans: "le s t \<Longrightarrow> le t u \<Longrightarrow> le s u"
    and step_le: "inv s \<Longrightarrow> le s (step s e)"
begin

lemma run_le: "inv s \<Longrightarrow> le s (foldl step s es)"
proof (induction es arbitrary: s)
  case Nil
  show ?case by (simp add: le_refl)
next
  case (Cons e es)
  have "le (step s e) (foldl step (step s e) es)"
    using Cons.prems by (intro Cons.IH inv_step)
  with step_le[OF Cons.prems] show ?case
    by (auto intro: le_trans)
qed

lemma prefix_le: "le (foldl step start es) (foldl step start (es @ fs))"
  using run_le[OF inv_reachable] by simp

end

end
