(* ===== verification/Work_Queue.thy ===== *)
theory Work_Queue
  imports Sdk_Prelude "HOL-Library.Multiset"
begin

text \<open>
  \<open>packages/sdk/src/host/sessionWorkQueue.ts\<close>: admission and single-writer ownership of host
  work. A state is the queue object together with what its promises and listeners have done: the
  jobs whose promise is settled, and the abort listeners that are registered, in registration
  order. A step is one synchronous run of the event loop: a call of \<open>submit\<close> or \<open>shutdown\<close>, an
  abort signal that fires, and the two continuations of \<open>execute\<close> (after the deferral, and when
  the work has settled).
\<close>

datatype wq_error_code = Closed | Queue_full | Cancelled

datatype 'v wq_failure = Work_queue_error wq_error_code | Session_id_type_error | Work_failed 'v

datatype 'v wq_outcome = Resolved 'v | Rejected "'v wq_failure"

text \<open>A job: its identity, session, the submitter's signal, and its controller's abort flag.\<close>

record wq_job =
  job_id :: nat
  job_session :: string
  job_signal :: "nat option"
  job_aborted :: bool

text \<open>An active job is \<open>Deferred\<close> until the continuation of \<open>await Promise.resolve()\<close> runs.\<close>

datatype job_phase = Deferred | Running

record 'v work_queue =
  wq_max_active :: nat
  wq_max_queued :: nat
  wq_max_per_session :: nat
  wq_active :: "(string \<times> (wq_job \<times> job_phase)) list"
  wq_queued :: "wq_job list"
  wq_closed :: bool
  wq_shutdown_done :: bool
  wq_next_id :: nat
  wq_listeners :: "(nat \<times> nat) list"
  wq_fired :: "nat list"
  wq_settled :: "(nat \<times> 'v wq_outcome) list"

section \<open>Operations\<close>

datatype range_error = Range_error string

definition wq_fresh :: "nat \<Rightarrow> nat \<Rightarrow> nat \<Rightarrow> 'v work_queue" where
  "wq_fresh max_active max_queued max_per_session =
     \<lparr>wq_max_active = max_active, wq_max_queued = max_queued,
      wq_max_per_session = max_per_session,
      wq_active = [], wq_queued = [], wq_closed = False, wq_shutdown_done = False,
      wq_next_id = 0, wq_listeners = [], wq_fired = [], wq_settled = []\<rparr>"

definition wq_new :: "js_number \<Rightarrow> js_number \<Rightarrow> js_number \<Rightarrow> range_error + 'v work_queue" where
  "wq_new max_active max_queued max_per_session =
     (if \<not> is_safe_integer max_active \<or> js_less max_active (Num 1)
      then Inl (Range_error ''maxActiveSessions must be a safe integer >= 1'')
      else if \<not> is_safe_integer max_queued \<or> js_less max_queued (Num 0)
      then Inl (Range_error ''maxQueued must be a safe integer >= 0'')
      else if \<not> is_safe_integer max_per_session \<or> js_less max_per_session (Num 0)
      then Inl (Range_error ''maxQueuedPerSession must be a safe integer >= 0'')
      else Inr (wq_fresh (number_to_nat max_active) (number_to_nat max_queued)
        (number_to_nat max_per_session)))"

definition wq_snapshot :: "'v work_queue \<Rightarrow> nat \<times> nat \<times> bool" where
  "wq_snapshot q = (length (wq_active q), length (wq_queued q), wq_closed q)"

abbreviation active_sessions :: "(string \<times> (wq_job \<times> job_phase)) list \<Rightarrow> string set" where
  "active_sessions act \<equiv> fst ` set act"

definition queued_of :: "string \<Rightarrow> wq_job list \<Rightarrow> wq_job list" where
  "queued_of s js = filter (\<lambda>j. job_session j = s) js"

definition wq_start :: "wq_job \<Rightarrow> 'v work_queue \<Rightarrow> 'v work_queue" where
  "wq_start job q = q\<lparr>wq_active := AList.update (job_session job) (job, Deferred) (wq_active q)\<rparr>"

definition wq_cleanup :: "nat \<Rightarrow> 'v work_queue \<Rightarrow> 'v work_queue" where
  "wq_cleanup i q = q\<lparr>wq_listeners := filter (\<lambda>(sig, k). k \<noteq> i) (wq_listeners q)\<rparr>"

definition wq_settle_promise :: "nat \<Rightarrow> 'v wq_outcome \<Rightarrow> 'v work_queue \<Rightarrow> 'v work_queue" where
  "wq_settle_promise i r q = q\<lparr>wq_settled := wq_settled q @ [(i, r)]\<rparr>"

definition mark_aborted :: "nat \<Rightarrow> wq_job \<Rightarrow> wq_job" where
  "mark_aborted i j = (if job_id j = i then j\<lparr>job_aborted := True\<rparr> else j)"

text \<open>\<open>controller.abort()\<close> of the job with this identity, wherever the job is.\<close>

definition wq_abort_controller :: "nat \<Rightarrow> 'v work_queue \<Rightarrow> 'v work_queue" where
  "wq_abort_controller i q =
     q\<lparr>wq_active := map (\<lambda>(s, j, p). (s, mark_aborted i j, p)) (wq_active q),
       wq_queued := map (mark_aborted i) (wq_queued q)\<rparr>"

text \<open>\<open>drain\<close>: start the first queued job of an idle session while there is capacity.\<close>

function drain_loop ::
  "nat \<Rightarrow> (string \<times> (wq_job \<times> job_phase)) list \<Rightarrow> wq_job list
   \<Rightarrow> (string \<times> (wq_job \<times> job_phase)) list \<times> wq_job list" where
  "drain_loop m act qd =
     (if length act < m
      then case take_first (\<lambda>j. job_session j \<notin> active_sessions act) qd of
          None \<Rightarrow> (act, qd)
        | Some (job, rest) \<Rightarrow>
            drain_loop m (AList.update (job_session job) (job, Deferred) act) rest
      else (act, qd))"
  by pat_completeness auto
termination
  by (relation "measure (\<lambda>(m, act, qd). length qd)") (auto dest: take_first_length)

declare drain_loop.simps [simp del]

definition wq_drain :: "'v work_queue \<Rightarrow> 'v work_queue" where
  "wq_drain q =
     (if wq_closed q then q
      else let (act, qd) = drain_loop (wq_max_active q) (wq_active q) (wq_queued q)
           in q\<lparr>wq_active := act, wq_queued := qd\<rparr>)"

definition wq_check_shutdown :: "'v work_queue \<Rightarrow> 'v work_queue" where
  "wq_check_shutdown q =
     (if wq_closed q \<and> wq_active q = [] then q\<lparr>wq_shutdown_done := True\<rparr> else q)"

text \<open>
  \<open>submit\<close>: the rejections come back as a failure, an admitted job as its identity. The
  \<open>signal\<close> is the submitter's abort signal, if it passed one.
\<close>

definition wq_submit ::
  "string \<Rightarrow> nat option \<Rightarrow> 'v work_queue \<Rightarrow> 'v work_queue \<times> ('v wq_failure + nat)" where
  "wq_submit session_id signal q =
     (if wq_closed q then (q, Inl (Work_queue_error Closed))
      else if (case signal of None \<Rightarrow> False | Some sig \<Rightarrow> sig \<in> set (wq_fired q))
      then (q, Inl (Work_queue_error Cancelled))
      else if session_id = [] then (q, Inl Session_id_type_error)
      else
        let can_start = (session_id \<notin> active_sessions (wq_active q)
              \<and> length (wq_active q) < wq_max_active q) in
        if \<not> can_start \<and>
           (length (wq_queued q) \<ge> wq_max_queued q
            \<or> length (queued_of session_id (wq_queued q)) \<ge> wq_max_per_session q)
        then (q, Inl (Work_queue_error Queue_full))
        else
          let job = \<lparr>job_id = wq_next_id q, job_session = session_id,
                     job_signal = signal, job_aborted = False\<rparr>;
              q1 = q\<lparr>wq_next_id := Suc (wq_next_id q),
                     wq_listeners := wq_listeners q
                       @ (case signal of None \<Rightarrow> [] | Some sig \<Rightarrow> [(sig, wq_next_id q)])\<rparr>;
              q2 = (if can_start then wq_start job q1
                    else q1\<lparr>wq_queued := wq_queued q1 @ [job]\<rparr>)
          in (q2, Inr (wq_next_id q)))"

text \<open>The abort listener of one job. A queued job leaves the queue and is rejected.\<close>

definition wq_abort_job :: "nat \<Rightarrow> 'v work_queue \<Rightarrow> 'v work_queue" where
  "wq_abort_job i q =
     (let q1 = wq_abort_controller i q in
      case take_first (\<lambda>j. job_id j = i) (wq_queued q1) of
        None \<Rightarrow> q1
      | Some (job, rest) \<Rightarrow>
          wq_drain (wq_settle_promise i (Rejected (Work_queue_error Cancelled))
            (wq_cleanup i (q1\<lparr>wq_queued := rest\<rparr>))))"

text \<open>A signal fires once; its listeners run in registration order, each at most once.\<close>

definition wq_fire :: "nat \<Rightarrow> 'v work_queue \<Rightarrow> 'v work_queue" where
  "wq_fire sig q =
     (if sig \<in> set (wq_fired q) then q
      else let ids = map snd (filter (\<lambda>(s, i). s = sig) (wq_listeners q));
               q1 = q\<lparr>wq_fired := sig # wq_fired q,
                      wq_listeners := filter (\<lambda>(s, i). s \<noteq> sig) (wq_listeners q)\<rparr>
           in fold wq_abort_job ids q1)"

definition wq_reject_queued :: "'v work_queue \<Rightarrow> 'v work_queue" where
  "wq_reject_queued q =
     fold (\<lambda>job r. wq_settle_promise (job_id job) (Rejected (Work_queue_error Closed))
             (wq_cleanup (job_id job) r))
       (wq_queued q) (q\<lparr>wq_queued := []\<rparr>)"

definition wq_abort_active :: "'v work_queue \<Rightarrow> 'v work_queue" where
  "wq_abort_active q =
     q\<lparr>wq_active := map (\<lambda>(s, j, p). (s, j\<lparr>job_aborted := True\<rparr>, p)) (wq_active q)\<rparr>"

definition wq_shutdown :: "bool \<Rightarrow> 'v work_queue \<Rightarrow> 'v work_queue" where
  "wq_shutdown cancel_running q =
     (let q1 = (if wq_closed q then q else wq_reject_queued (q\<lparr>wq_closed := True\<rparr>));
          q2 = (if cancel_running then wq_abort_active q1 else q1)
      in wq_check_shutdown q2)"

text \<open>The end of \<open>execute\<close>: settle the promise, free the session, admit the next job.\<close>

definition wq_finish :: "wq_job \<Rightarrow> 'v wq_outcome \<Rightarrow> 'v work_queue \<Rightarrow> 'v work_queue" where
  "wq_finish job r q =
     (let q1 = wq_cleanup (job_id job) q;
          q2 = q1\<lparr>wq_active := AList.delete (job_session job) (wq_active q1)\<rparr>;
          q3 = wq_settle_promise (job_id job) r q2
      in wq_check_shutdown (wq_drain q3))"

definition active_job :: "nat \<Rightarrow> job_phase \<Rightarrow> 'v work_queue \<Rightarrow> wq_job option" where
  "active_job i p q =
     map_option (fst \<circ> snd) (find (\<lambda>(s, j, p'). job_id j = i \<and> p' = p) (wq_active q))"

text \<open>The continuation of the deferral: a job that is aborted by now never starts its work.\<close>

definition wq_begin :: "nat \<Rightarrow> 'v work_queue \<Rightarrow> 'v work_queue" where
  "wq_begin i q =
     (case active_job i Deferred q of
        None \<Rightarrow> q
      | Some job \<Rightarrow>
          (if job_aborted job then wq_finish job (Rejected (Work_queue_error Cancelled)) q
           else q\<lparr>wq_active := AList.update (job_session job) (job, Running) (wq_active q)\<rparr>))"

text \<open>The work of a running job settles, with an error (\<open>Inl\<close>) or a value (\<open>Inr\<close>).\<close>

definition wq_settle :: "nat \<Rightarrow> 'v + 'v \<Rightarrow> 'v work_queue \<Rightarrow> 'v work_queue" where
  "wq_settle i r q =
     (case active_job i Running q of
        None \<Rightarrow> q
      | Some job \<Rightarrow>
          wq_finish job
            (case r of
               Inl e \<Rightarrow> Rejected (Work_failed e)
             | Inr v \<Rightarrow> (if job_aborted job then Rejected (Work_queue_error Cancelled)
                         else Resolved v)) q)"

datatype 'v wq_event =
    Submit string "nat option"
  | Fire nat
  | Begin nat
  | Settle nat "'v + 'v"
  | Shutdown bool

fun wq_step :: "'v work_queue \<Rightarrow> 'v wq_event \<Rightarrow> 'v work_queue" where
  "wq_step q (Submit s sig) = fst (wq_submit s sig q)"
| "wq_step q (Fire sig) = wq_fire sig q"
| "wq_step q (Begin i) = wq_begin i q"
| "wq_step q (Settle i r) = wq_settle i r q"
| "wq_step q (Shutdown c) = wq_shutdown c q"

section \<open>The scheduling invariant\<close>

definition entry_id :: "string \<times> (wq_job \<times> job_phase) \<Rightarrow> nat" where
  "entry_id e = job_id (fst (snd e))"

text \<open>What the active map and the queue keep between them, for every capacity \<open>m\<close>.\<close>

definition sched_ok ::
  "nat \<Rightarrow> (string \<times> (wq_job \<times> job_phase)) list \<Rightarrow> wq_job list \<Rightarrow> bool" where
  "sched_ok m act qd \<longleftrightarrow>
     distinct (map fst act)
     \<and> (\<forall>e \<in> set act. job_session (fst (snd e)) = fst e)
     \<and> length act \<le> m
     \<and> sorted_wrt (<) (map job_id qd)
     \<and> (\<forall>e \<in> set act. \<forall>k \<in> set qd. job_session k = fst e \<longrightarrow> entry_id e < job_id k)"

definition no_idle_capacity ::
  "nat \<Rightarrow> (string \<times> (wq_job \<times> job_phase)) list \<Rightarrow> wq_job list \<Rightarrow> bool" where
  "no_idle_capacity m act qd \<longleftrightarrow>
     (length act < m \<longrightarrow> (\<forall>j \<in> set qd. job_session j \<in> active_sessions act))"

definition wq_ids :: "'v work_queue \<Rightarrow> nat list" where
  "wq_ids q = map entry_id (wq_active q) @ map job_id (wq_queued q) @ map fst (wq_settled q)"

definition wq_inv :: "'v work_queue \<Rightarrow> bool" where
  "wq_inv q \<longleftrightarrow>
     sched_ok (wq_max_active q) (wq_active q) (wq_queued q)
     \<and> length (wq_queued q) \<le> wq_max_queued q
     \<and> (\<forall>s. length (queued_of s (wq_queued q)) \<le> wq_max_per_session q)
     \<and> mset (wq_ids q) = mset [0..<wq_next_id q]
     \<and> (if wq_closed q then wq_queued q = []
        else no_idle_capacity (wq_max_active q) (wq_active q) (wq_queued q))
     \<and> (wq_shutdown_done q \<longleftrightarrow> wq_closed q \<and> wq_active q = [])"

lemma sched_ok_start:
  assumes ok: "sched_ok m act qd"
    and qd: "qd = us @ job # vs"
    and us: "\<forall>u \<in> set us. job_session u \<in> active_sessions act"
    and idle: "job_session job \<notin> active_sessions act"
    and cap: "length act < m"
  shows "sched_ok m (act @ [(job_session job, job, Deferred)]) (us @ vs)"
proof -
  have "\<forall>u \<in> set us. job_session u \<noteq> job_session job"
    using us idle by metis
  then have "\<forall>k \<in> set (us @ vs). job_session k = job_session job \<longrightarrow> job_id job < job_id k"
    using ok qd by (auto simp: sched_ok_def sorted_wrt_append)
  with assms show ?thesis
    by (auto simp: sched_ok_def sorted_wrt_append entry_id_def)
qed

text \<open>One pass of \<open>drain\<close>: all it does, proved by induction on its recursion.\<close>

lemma drain_loop_spec:
  assumes "sched_ok m act qd" "drain_loop m act qd = (act', qd')"
  shows "sched_ok m act' qd' \<and> no_idle_capacity m act' qd'
    \<and> mset (map entry_id act' @ map job_id qd') = mset (map entry_id act @ map job_id qd)
    \<and> length qd' \<le> length qd \<and> (\<forall>s. length (queued_of s qd') \<le> length (queued_of s qd))
    \<and> set act \<subseteq> set act'"
  using assms
proof (induction m act qd arbitrary: act' qd' rule: drain_loop.induct)
  case (1 m act qd)
  show ?case
  proof (cases "length act < m")
    case False
    with 1 show ?thesis
      by (auto simp: drain_loop.simps[of m act qd] no_idle_capacity_def)
  next
    case cap: True
    show ?thesis
    proof (cases "take_first (\<lambda>j. job_session j \<notin> active_sessions act) qd")
      case None
      with 1 cap show ?thesis
        by (auto simp: drain_loop.simps[of m act qd] no_idle_capacity_def take_first_None_iff)
    next
      case (Some jr)
      obtain job rest where jr: "jr = (job, rest)" by (cases jr)
      from Some obtain us vs where split: "qd = us @ job # vs" "rest = us @ vs"
        "job_session job \<notin> active_sessions act"
        "\<forall>u \<in> set us. job_session u \<in> active_sessions act"
        unfolding jr by (auto elim!: take_first_SomeE)
      let ?act = "act @ [(job_session job, job, Deferred)]"
      have upd: "AList.update (job_session job) (job, Deferred) act = ?act"
        using split(3) by (rule update_new)
      have ok: "sched_ok m ?act rest"
        using sched_ok_start[OF 1(2) split(1,4,3) cap] split(2) by simp
      have run: "drain_loop m ?act rest = (act', qd')"
        using 1(3) cap Some jr upd by (simp add: drain_loop.simps[of m act qd])
      note IH = 1(1)[OF cap Some jr[symmetric], unfolded upd, OF ok run]
      have shrink: "length rest \<le> length qd" "\<forall>s. length (queued_of s rest) \<le> length (queued_of s qd)"
        using split(1,2) by (auto simp: queued_of_def)
      have "mset (map entry_id ?act @ map job_id rest) = mset (map entry_id act @ map job_id qd)"
        using split(1,2) by (simp add: entry_id_def)
      with IH shrink show ?thesis
        by (auto intro: le_trans)
    qed
  qed
qed

lemma wq_drain_simps [simp]:
  "wq_max_active (wq_drain q) = wq_max_active q" "wq_max_queued (wq_drain q) = wq_max_queued q"
  "wq_max_per_session (wq_drain q) = wq_max_per_session q" "wq_closed (wq_drain q) = wq_closed q"
  "wq_shutdown_done (wq_drain q) = wq_shutdown_done q" "wq_next_id (wq_drain q) = wq_next_id q"
  "wq_settled (wq_drain q) = wq_settled q" "wq_fired (wq_drain q) = wq_fired q"
  "wq_listeners (wq_drain q) = wq_listeners q"
  by (simp_all add: wq_drain_def Let_def split: prod.split)

lemma wq_cleanup_simps [simp]:
  "wq_max_active (wq_cleanup i q) = wq_max_active q" "wq_max_queued (wq_cleanup i q) = wq_max_queued q"
  "wq_max_per_session (wq_cleanup i q) = wq_max_per_session q" "wq_closed (wq_cleanup i q) = wq_closed q"
  "wq_shutdown_done (wq_cleanup i q) = wq_shutdown_done q" "wq_next_id (wq_cleanup i q) = wq_next_id q"
  "wq_settled (wq_cleanup i q) = wq_settled q" "wq_active (wq_cleanup i q) = wq_active q"
  "wq_queued (wq_cleanup i q) = wq_queued q" "wq_fired (wq_cleanup i q) = wq_fired q"
  by (simp_all add: wq_cleanup_def)

lemma wq_settle_promise_simps [simp]:
  "wq_max_active (wq_settle_promise i r q) = wq_max_active q"
  "wq_max_queued (wq_settle_promise i r q) = wq_max_queued q"
  "wq_max_per_session (wq_settle_promise i r q) = wq_max_per_session q"
  "wq_closed (wq_settle_promise i r q) = wq_closed q"
  "wq_shutdown_done (wq_settle_promise i r q) = wq_shutdown_done q"
  "wq_next_id (wq_settle_promise i r q) = wq_next_id q"
  "wq_settled (wq_settle_promise i r q) = wq_settled q @ [(i, r)]"
  "wq_active (wq_settle_promise i r q) = wq_active q"
  "wq_queued (wq_settle_promise i r q) = wq_queued q"
  "wq_fired (wq_settle_promise i r q) = wq_fired q"
  by (simp_all add: wq_settle_promise_def)

text \<open>The part of the invariant a drain may rely on, and that it completes to the whole.\<close>

definition wq_pre_inv :: "'v work_queue \<Rightarrow> bool" where
  "wq_pre_inv q \<longleftrightarrow>
     sched_ok (wq_max_active q) (wq_active q) (wq_queued q)
     \<and> length (wq_queued q) \<le> wq_max_queued q
     \<and> (\<forall>s. length (queued_of s (wq_queued q)) \<le> wq_max_per_session q)
     \<and> mset (wq_ids q) = mset [0..<wq_next_id q]
     \<and> (wq_closed q \<longrightarrow> wq_queued q = [])
     \<and> (wq_shutdown_done q \<longrightarrow> wq_closed q \<and> wq_active q = [])"

lemma wq_inv_pre: "wq_inv q \<Longrightarrow> wq_pre_inv q"
  by (auto simp: wq_inv_def wq_pre_inv_def)

lemma wq_drain_pre_inv:
  assumes "wq_pre_inv q"
  shows "wq_pre_inv (wq_drain q)"
    and "\<not> wq_closed q \<Longrightarrow>
      no_idle_capacity (wq_max_active q) (wq_active (wq_drain q)) (wq_queued (wq_drain q))"
proof -
  obtain act qd where d: "drain_loop (wq_max_active q) (wq_active q) (wq_queued q) = (act, qd)"
    by fastforce
  have ok: "sched_ok (wq_max_active q) (wq_active q) (wq_queued q)"
    using assms by (simp add: wq_pre_inv_def)
  note spec = drain_loop_spec[OF ok d]
  show "wq_pre_inv (wq_drain q)"
    using assms spec d
    by (auto simp: wq_pre_inv_def wq_drain_def wq_ids_def add.assoc[symmetric]
        simp del: add.assoc intro: le_trans)
  show "\<not> wq_closed q \<Longrightarrow>
      no_idle_capacity (wq_max_active q) (wq_active (wq_drain q)) (wq_queued (wq_drain q))"
    using spec d by (simp add: wq_drain_def)
qed

lemma wq_check_shutdown_drain_inv:
  assumes "wq_pre_inv q"
  shows "wq_inv (wq_check_shutdown (wq_drain q))"
  using wq_drain_pre_inv[OF assms]
  by (auto simp: wq_inv_def wq_pre_inv_def wq_check_shutdown_def wq_ids_def)

section \<open>Every operation keeps the invariant\<close>

lemma wq_ids_bound: "wq_pre_inv q \<Longrightarrow> i \<in> set (wq_ids q) \<Longrightarrow> i < wq_next_id q"
  by (metis atLeastLessThan_iff mset_eq_setD set_upt wq_pre_inv_def)

lemma wq_ids_distinct: "wq_pre_inv q \<Longrightarrow> distinct (wq_ids q)"
  by (metis distinct_upt mset_eq_imp_distinct_iff wq_pre_inv_def)

lemma mark_aborted_simps [simp]:
  "job_id (mark_aborted i j) = job_id j" "job_session (mark_aborted i j) = job_session j"
  by (simp_all add: mark_aborted_def)

lemma sched_ok_map:
  assumes "\<And>j. job_id (f j) = job_id j" "\<And>j. job_session (f j) = job_session j"
    and "\<And>j. job_id (g j) = job_id j" "\<And>j. job_session (g j) = job_session j"
  shows "sched_ok m (map (\<lambda>(s, j, p). (s, f j, p)) act) (map g qd) = sched_ok m act qd"
  using assms by (simp add: sched_ok_def entry_id_def case_prod_beta comp_def)

lemma active_sessions_map:
  "active_sessions (map (\<lambda>(s, j, p). (s, f j, p)) act) = active_sessions act"
  by force

lemma queued_of_map:
  "(\<And>j. job_session (g j) = job_session j) \<Longrightarrow> length (queued_of s (map g qd)) = length (queued_of s qd)"
  by (simp add: queued_of_def filter_map comp_def)

lemma entry_ids_map:
  "(\<And>j. job_id (f j) = job_id j) \<Longrightarrow>
   map entry_id (map (\<lambda>(s, j, p). (s, f j, p)) act) = map entry_id act"
  by (simp add: entry_id_def case_prod_beta)

lemma wq_abort_controller_simps [simp]:
  "wq_max_active (wq_abort_controller i q) = wq_max_active q"
  "wq_max_queued (wq_abort_controller i q) = wq_max_queued q"
  "wq_max_per_session (wq_abort_controller i q) = wq_max_per_session q"
  "wq_closed (wq_abort_controller i q) = wq_closed q"
  "wq_shutdown_done (wq_abort_controller i q) = wq_shutdown_done q"
  "wq_next_id (wq_abort_controller i q) = wq_next_id q"
  "wq_settled (wq_abort_controller i q) = wq_settled q"
  "wq_fired (wq_abort_controller i q) = wq_fired q"
  by (simp_all add: wq_abort_controller_def)

lemma no_idle_capacity_map:
  "(\<And>j. job_session (g j) = job_session j) \<Longrightarrow>
   no_idle_capacity m (map (\<lambda>(s, j, p). (s, f j, p)) act) (map g qd) = no_idle_capacity m act qd"
  unfolding no_idle_capacity_def active_sessions_map by simp

lemma wq_abort_controller_ids: "wq_ids (wq_abort_controller i q) = wq_ids q"
  by (simp add: wq_ids_def wq_abort_controller_def entry_id_def case_prod_beta comp_def)

lemma wq_abort_controller_inv: "wq_inv q \<Longrightarrow> wq_inv (wq_abort_controller i q)"
  unfolding wq_inv_def wq_abort_controller_ids
  by (simp add: wq_abort_controller_def sched_ok_map queued_of_map no_idle_capacity_map)

lemma sched_ok_remove:
  assumes "sched_ok m act qd" "qd = us @ job # vs"
  shows "sched_ok m act (us @ vs)"
  using assms by (auto simp: sched_ok_def sorted_wrt_append)

text \<open>A queued job leaves the queue and its promise is settled.\<close>

lemma wq_unqueue_pre_inv:
  assumes "wq_pre_inv q" "take_first (\<lambda>j. job_id j = i) (wq_queued q) = Some (job, rest)"
  shows "wq_pre_inv (wq_settle_promise i r (wq_cleanup i (q\<lparr>wq_queued := rest\<rparr>)))"
proof -
  obtain us vs where split: "wq_queued q = us @ job # vs" "rest = us @ vs" "job_id job = i"
    using assms(2) by (auto elim!: take_first_SomeE)
  have "sched_ok (wq_max_active q) (wq_active q) rest"
    using assms(1) split sched_ok_remove by (auto simp: wq_pre_inv_def)
  moreover have "length (queued_of s rest) \<le> length (queued_of s (wq_queued q))" for s
    using split by (simp add: queued_of_def)
  ultimately show ?thesis
    using assms(1) split
    by (auto simp: wq_pre_inv_def wq_ids_def intro: le_trans)
qed

lemma wq_inv_drain:
  assumes "wq_pre_inv q" "wq_shutdown_done q \<longleftrightarrow> wq_closed q \<and> wq_active q = []"
  shows "wq_inv (wq_drain q)"
  using wq_drain_pre_inv[OF assms(1)] assms
  by (auto simp: wq_inv_def wq_pre_inv_def) (auto simp: wq_drain_def)

lemma wq_abort_job_inv [inv_intros]: "wq_inv q \<Longrightarrow> wq_inv (wq_abort_job i q)"
proof -
  assume "wq_inv q"
  then have inv: "wq_inv (wq_abort_controller i q)" by (rule wq_abort_controller_inv)
  show ?thesis
  proof (cases "take_first (\<lambda>j. job_id j = i) (wq_queued (wq_abort_controller i q))")
    case None
    with inv show ?thesis by (simp add: wq_abort_job_def Let_def)
  next
    case (Some jr)
    obtain job rest where jr: "jr = (job, rest)" by (cases jr)
    note pre = wq_unqueue_pre_inv[OF wq_inv_pre[OF inv] Some[unfolded jr],
        of "Rejected (Work_queue_error Cancelled)"]
    have "wq_shutdown_done (wq_abort_controller i q) \<longleftrightarrow>
        wq_closed (wq_abort_controller i q) \<and> wq_active (wq_abort_controller i q) = []"
      using inv unfolding wq_inv_def by blast
    then show ?thesis
      using Some jr wq_inv_drain[OF pre]
      by (simp add: wq_abort_job_def Let_def)
  qed
qed

lemma wq_listeners_inv: "wq_inv q \<Longrightarrow> wq_inv (q\<lparr>wq_fired := f, wq_listeners := l\<rparr>)"
  by (simp add: wq_inv_def wq_ids_def)

lemma wq_fire_inv [inv_intros]: "wq_inv q \<Longrightarrow> wq_inv (wq_fire sig q)"
proof -
  have "wq_inv r \<Longrightarrow> wq_inv (fold wq_abort_job ids r)" for ids and r :: "'a work_queue"
    by (induction ids arbitrary: r) (auto intro: wq_abort_job_inv)
  then show "wq_inv q \<Longrightarrow> wq_inv (wq_fire sig q)"
    by (simp add: wq_fire_def Let_def wq_listeners_inv)
qed

lemma wq_start_admit_inv:
  assumes inv: "wq_inv q" and open_q: "\<not> wq_closed q"
    and idle: "job_session job \<notin> active_sessions (wq_active q)"
    and cap: "length (wq_active q) < wq_max_active q" and fresh: "job_id job = wq_next_id q"
  shows "wq_inv (wq_start job (q\<lparr>wq_next_id := Suc (wq_next_id q), wq_listeners := l\<rparr>))"
proof -
  let ?act = "wq_active q @ [(job_session job, job, Deferred)]"
  have all: "\<forall>k \<in> set (wq_queued q). job_session k \<in> active_sessions (wq_active q)"
    using inv open_q cap by (auto simp: wq_inv_def no_idle_capacity_def)
  then have other: "\<forall>k \<in> set (wq_queued q). job_session k \<noteq> job_session job"
    using idle by metis
  have ok: "sched_ok (wq_max_active q) (wq_active q) (wq_queued q)"
    using inv by (simp add: wq_inv_def)
  have "sched_ok (wq_max_active q) ?act (wq_queued q)"
    using ok idle cap other by (auto simp: sched_ok_def)
  moreover have "no_idle_capacity (wq_max_active q) ?act (wq_queued q)"
    using all by (auto simp: no_idle_capacity_def)
  moreover have "mset (map entry_id ?act @ map job_id (wq_queued q) @ map fst (wq_settled q))
      = mset [0..<Suc (wq_next_id q)]"
    using inv fresh by (simp add: wq_inv_def wq_ids_def entry_id_def)
  ultimately show ?thesis
    using inv open_q idle by (simp add: wq_inv_def wq_start_def update_new wq_ids_def)
qed

lemma wq_enqueue_admit_inv:
  assumes inv: "wq_inv q" and open_q: "\<not> wq_closed q"
    and room: "length (wq_queued q) < wq_max_queued q"
      "length (queued_of (job_session job) (wq_queued q)) < wq_max_per_session q"
    and fresh: "job_id job = wq_next_id q"
    and busy: "job_session job \<in> active_sessions (wq_active q) \<or> wq_max_active q \<le> length (wq_active q)"
  shows "wq_inv (q\<lparr>wq_next_id := Suc (wq_next_id q), wq_listeners := l,
    wq_queued := wq_queued q @ [job]\<rparr>)"
proof -
  have bound: "entry_id e < wq_next_id q" if "e \<in> set (wq_active q)" for e
    using wq_ids_bound[OF wq_inv_pre[OF inv]] that by (auto simp: wq_ids_def)
  have bound': "job_id k < wq_next_id q" if "k \<in> set (wq_queued q)" for k
    using wq_ids_bound[OF wq_inv_pre[OF inv]] that by (auto simp: wq_ids_def)
  have ok: "sched_ok (wq_max_active q) (wq_active q) (wq_queued q)"
    and idle: "no_idle_capacity (wq_max_active q) (wq_active q) (wq_queued q)"
    using inv open_q by (simp_all add: wq_inv_def)
  have "sched_ok (wq_max_active q) (wq_active q) (wq_queued q @ [job])"
    using ok bound bound' fresh by (auto simp: sched_ok_def sorted_wrt_append)
  moreover have "no_idle_capacity (wq_max_active q) (wq_active q) (wq_queued q @ [job])"
    using idle busy by (auto simp: no_idle_capacity_def)
  moreover have "length (queued_of s (wq_queued q @ [job])) \<le> wq_max_per_session q" for s
    using inv room by (auto simp: wq_inv_def queued_of_def)
  moreover have "mset (map entry_id (wq_active q) @ map job_id (wq_queued q @ [job])
      @ map fst (wq_settled q)) = mset [0..<Suc (wq_next_id q)]"
    using inv fresh by (simp add: wq_inv_def wq_ids_def)
  ultimately show ?thesis
    using inv open_q room by (simp add: wq_inv_def wq_ids_def)
qed

lemma wq_submit_inv [inv_intros]:
  assumes inv: "wq_inv q"
  shows "wq_inv (fst (wq_submit s sig q))"
proof -
  let ?job = "\<lparr>job_id = wq_next_id q, job_session = s, job_signal = sig, job_aborted = False\<rparr>"
  let ?can = "s \<notin> active_sessions (wq_active q) \<and> length (wq_active q) < wq_max_active q"
  let ?full = "wq_max_queued q \<le> length (wq_queued q)
    \<or> wq_max_per_session q \<le> length (queued_of s (wq_queued q))"
  define l where "l = wq_listeners q
    @ (case sig of None \<Rightarrow> [] | Some x \<Rightarrow> [(x, wq_next_id q)])"
  have start: "\<not> wq_closed q \<Longrightarrow> ?can \<Longrightarrow>
      wq_inv (wq_start ?job (q\<lparr>wq_next_id := Suc (wq_next_id q), wq_listeners := l\<rparr>))"
    using inv by (intro wq_start_admit_inv) simp_all
  have enq: "\<not> wq_closed q \<Longrightarrow> \<not> ?can \<Longrightarrow> \<not> ?full \<Longrightarrow>
      wq_inv (q\<lparr>wq_next_id := Suc (wq_next_id q), wq_listeners := l,
        wq_queued := wq_queued q @ [?job]\<rparr>)"
    using inv by (intro wq_enqueue_admit_inv) (simp_all add: not_less not_le)
  show ?thesis
    using inv start enq
    unfolding wq_submit_def Let_def l_def[symmetric]
    by (cases "?can"; cases "?full") simp_all
qed

lemma wq_reject_fold:
  fixes q :: "'v work_queue"
  defines "f \<equiv> \<lambda>job (r::'v work_queue). wq_settle_promise (job_id job)
      (Rejected (Work_queue_error Closed)) (wq_cleanup (job_id job) r)"
  shows "wq_active (fold f js q) = wq_active q" "wq_queued (fold f js q) = wq_queued q"
    "wq_max_active (fold f js q) = wq_max_active q" "wq_max_queued (fold f js q) = wq_max_queued q"
    "wq_max_per_session (fold f js q) = wq_max_per_session q"
    "wq_next_id (fold f js q) = wq_next_id q" "wq_closed (fold f js q) = wq_closed q"
    "wq_shutdown_done (fold f js q) = wq_shutdown_done q" "wq_fired (fold f js q) = wq_fired q"
    "wq_settled (fold f js q)
      = wq_settled q @ map (\<lambda>j. (job_id j, Rejected (Work_queue_error Closed))) js"
  unfolding f_def by (induction js arbitrary: q) simp_all

lemma wq_shutdown_inv [inv_intros]: "wq_inv q \<Longrightarrow> wq_inv (wq_shutdown c q)"
proof -
  assume inv: "wq_inv q"
  have pre: "wq_pre_inv (if wq_closed q then q else wq_reject_queued (q\<lparr>wq_closed := True\<rparr>))"
    using inv
    by (auto simp: wq_inv_def wq_pre_inv_def wq_reject_queued_def wq_reject_fold wq_ids_def
        queued_of_def sched_ok_def comp_def multiset.map_comp ac_simps)
  have closed: "wq_closed (if wq_closed q then q else wq_reject_queued (q\<lparr>wq_closed := True\<rparr>))"
    by (simp add: wq_reject_queued_def wq_reject_fold)
  have abort: "wq_pre_inv (wq_abort_active r)" if "wq_pre_inv r" for r :: "'a work_queue"
  proof -
    have "wq_ids (wq_abort_active r) = wq_ids r"
      by (simp add: wq_ids_def wq_abort_active_def entry_id_def case_prod_beta comp_def)
    moreover have "sched_ok m (map (\<lambda>(s, j, p). (s, j\<lparr>job_aborted := True\<rparr>, p)) act) qd
        = sched_ok m act qd" for m act qd
      using sched_ok_map[of "\<lambda>j. j\<lparr>job_aborted := True\<rparr>" "\<lambda>j. j" m act qd] by simp
    ultimately show ?thesis
      using that unfolding wq_pre_inv_def by (simp add: wq_abort_active_def)
  qed
  have check: "wq_inv (wq_check_shutdown r)" if "wq_pre_inv r" "wq_closed r" for r :: "'a work_queue"
    using that by (auto simp: wq_inv_def wq_pre_inv_def wq_check_shutdown_def wq_ids_def)
  show ?thesis
    using check[OF pre closed] check[OF abort[OF pre]] closed
    by (simp add: wq_shutdown_def Let_def wq_abort_active_def)
qed

lemma active_job_SomeE:
  assumes "active_job i p q = Some job"
  obtains us vs s where "wq_active q = us @ (s, job, p) # vs" "job_id job = i"
  using assms by (auto simp: active_job_def find_Some_iff in_set_conv_nth)
    (metis id_take_nth_drop)

lemma wq_finish_inv:
  assumes inv: "wq_inv q" and act: "wq_active q = us @ (s, job, p) # vs"
  shows "wq_inv (wq_finish job r q)"
proof -
  have ok: "sched_ok (wq_max_active q) (wq_active q) (wq_queued q)"
    using inv by (simp add: wq_inv_def)
  then have s: "job_session job = s" and d: "distinct (map fst (wq_active q))"
    using act by (auto simp: sched_ok_def)
  have del: "AList.delete s (wq_active q) = us @ vs"
    using d act by (auto intro!: delete_split simp: image_iff)
  have "sched_ok (wq_max_active q) (us @ vs) (wq_queued q)"
    using ok act by (auto simp: sched_ok_def)
  moreover have "\<not> wq_shutdown_done q"
    using inv act by (auto simp: wq_inv_def)
  moreover have "mset (map entry_id (us @ vs) @ map job_id (wq_queued q) @ map fst (wq_settled q))
      + {#job_id job#} = mset [0..<wq_next_id q]"
    using inv act by (simp add: wq_inv_def wq_ids_def entry_id_def)
  ultimately have "wq_pre_inv (wq_settle_promise (job_id job) r
      ((wq_cleanup (job_id job) q)\<lparr>wq_active := us @ vs\<rparr>))"
    using inv by (auto simp: wq_pre_inv_def wq_inv_def wq_ids_def)
  then show ?thesis
    by (simp add: wq_finish_def Let_def s del wq_check_shutdown_drain_inv)
qed

lemma wq_inv_replace:
  assumes inv: "wq_inv q" and act: "wq_active q = us @ (s, job, p) # vs"
  shows "wq_inv (q\<lparr>wq_active := us @ (s, job, p') # vs\<rparr>)"
proof -
  have "sched_ok m (us @ (s, job, p') # vs) qd = sched_ok m (us @ (s, job, p) # vs) qd" for m qd
    by (simp add: sched_ok_def entry_id_def)
  moreover have "wq_ids (q\<lparr>wq_active := us @ (s, job, p') # vs\<rparr>) = wq_ids q"
    using act by (simp add: wq_ids_def entry_id_def)
  moreover have "no_idle_capacity m (us @ (s, job, p') # vs) qd
      = no_idle_capacity m (us @ (s, job, p) # vs) qd" for m qd
    by (simp add: no_idle_capacity_def)
  ultimately show ?thesis
    using inv unfolding wq_inv_def by (cases "wq_closed q") (auto simp: act)
qed

lemma wq_begin_inv [inv_intros]: "wq_inv q \<Longrightarrow> wq_inv (wq_begin i q)"
proof (cases "active_job i Deferred q")
  case None
  then show "wq_inv q \<Longrightarrow> ?thesis" by (simp add: wq_begin_def)
next
  case (Some job)
  assume inv: "wq_inv q"
  obtain us vs s where act: "wq_active q = us @ (s, job, Deferred) # vs"
    using Some by (rule active_job_SomeE)
  have s: "job_session job = s" and d: "distinct (map fst (wq_active q))"
    using inv act by (auto simp: wq_inv_def sched_ok_def)
  have "AList.update s (job, Running) (wq_active q) = us @ (s, job, Running) # vs"
    using d act by (auto intro!: update_split simp: image_iff)
  then show ?thesis
    using s Some wq_finish_inv[OF inv act] wq_inv_replace[OF inv act]
    by (simp add: wq_begin_def)
qed

lemma wq_settle_inv [inv_intros]: "wq_inv q \<Longrightarrow> wq_inv (wq_settle i r q)"
  by (auto simp: wq_settle_def split: option.split elim!: active_job_SomeE intro: wq_finish_inv)

lemma wq_step_inv: "wq_inv q \<Longrightarrow> wq_inv (wq_step q e)"
  by (cases e) (auto intro: inv_intros)

section \<open>What no step takes back\<close>

definition wq_le :: "'v work_queue \<Rightarrow> 'v work_queue \<Rightarrow> bool" where
  "wq_le q r \<longleftrightarrow>
     (\<exists>xs. wq_settled r = wq_settled q @ xs)
     \<and> (wq_closed q \<longrightarrow> wq_closed r) \<and> (wq_shutdown_done q \<longrightarrow> wq_shutdown_done r)
     \<and> wq_max_active r = wq_max_active q \<and> wq_max_queued r = wq_max_queued q
     \<and> wq_max_per_session r = wq_max_per_session q"

lemma wq_le_refl [simp]: "wq_le q q"
  by (simp add: wq_le_def)

lemma wq_le_trans: "wq_le q r \<Longrightarrow> wq_le r s \<Longrightarrow> wq_le q s"
  by (force simp: wq_le_def)

lemma wq_abort_job_le: "wq_le q (wq_abort_job i q)"
  by (auto simp: wq_le_def wq_abort_job_def Let_def split: option.split)

lemma wq_fold_abort_le: "wq_le q (fold wq_abort_job ids q)"
proof (induction ids arbitrary: q)
  case (Cons i ids)
  show ?case
    using wq_le_trans[OF wq_abort_job_le[of q i] Cons.IH] by simp
qed simp

lemma wq_fire_le: "wq_le q (wq_fire sig q)"
proof -
  have "wq_le q (q\<lparr>wq_fired := f, wq_listeners := l\<rparr>)" for f l
    by (simp add: wq_le_def)
  then show ?thesis
    by (auto simp: wq_fire_def Let_def intro: wq_le_trans[OF _ wq_fold_abort_le])
qed

lemma wq_finish_le: "wq_le q (wq_finish job r q)"
  by (simp add: wq_le_def wq_finish_def Let_def wq_check_shutdown_def)

lemma wq_submit_le: "wq_le q (fst (wq_submit s sig q))"
  by (simp add: wq_le_def wq_submit_def Let_def wq_start_def)

lemma wq_shutdown_le: "wq_le q (wq_shutdown c q)"
  by (auto simp: wq_le_def wq_shutdown_def Let_def wq_check_shutdown_def wq_abort_active_def
      wq_reject_queued_def wq_reject_fold)

lemma wq_step_le: "wq_le q (wq_step q e)"
  by (cases e)
    (auto simp: wq_submit_le wq_fire_le wq_shutdown_le wq_begin_def wq_settle_def
      wq_finish_le split: option.split, simp_all add: wq_le_def)

lemma wq_fresh_inv: "wq_inv (wq_fresh ma mq mp)"
  by (simp add: wq_inv_def wq_fresh_def sched_ok_def no_idle_capacity_def wq_ids_def queued_of_def)

interpretation wq: monotone_machine "wq_fresh ma mq mp" wq_step wq_inv wq_le for ma mq mp
  by unfold_locales (auto intro: wq_fresh_inv wq_step_inv wq_le_trans wq_step_le)

section \<open>Joining the started work\<close>

lemma wq_finish_closed:
  "wq_closed q \<Longrightarrow> wq_active (wq_finish job r q) = AList.delete (job_session job) (wq_active q)
    \<and> wq_closed (wq_finish job r q)"
  by (simp add: wq_finish_def Let_def wq_check_shutdown_def wq_drain_def)

lemma active_job_head:
  "wq_active q = (s, job, p) # vs \<Longrightarrow> active_job (job_id job) p q = Some job"
  by (simp add: active_job_def)

lemma active_ids_head:
  assumes "wq_inv q" "wq_active q = (s, job, p) # vs" "e \<in> set vs"
  shows "entry_id e \<noteq> job_id job"
proof -
  have "distinct (map entry_id (wq_active q))"
    using wq_ids_distinct[OF wq_inv_pre[OF assms(1)]] by (simp add: wq_ids_def)
  moreover have "entry_id (s, job, p) = job_id job"
    by (simp add: entry_id_def)
  ultimately show ?thesis
    using assms(2,3) by (metis distinct.simps(2) image_eqI list.simps(9) set_map)
qed

lemma active_job_other:
  assumes "wq_inv q" "wq_active q = (s, job, p) # vs" "p \<noteq> p'"
  shows "active_job (job_id job) p' q = None"
  using active_ids_head[OF assms(1,2)] assms(2,3)
  by (auto simp: active_job_def find_None_iff entry_id_def)

text \<open>Run to its end, the first active job of a closed queue leaves it.\<close>

lemma wq_join_one:
  assumes inv: "wq_inv q" and closed: "wq_closed q" and act: "wq_active q = (s, job, p) # vs"
  shows "wq_active (wq_settle (job_id job) r (wq_begin (job_id job) q)) = vs
    \<and> wq_closed (wq_settle (job_id job) r (wq_begin (job_id job) q))"
proof -
  have s: "job_session job = s" and d: "s \<notin> fst ` set vs"
    using inv act by (auto simp: wq_inv_def sched_ok_def)
  have del: "AList.delete s ((s, job, p') # vs) = vs" for p'
    using delete_split[of s "[]" vs "(job, p')"] d by simp
  have upd: "AList.update s (job, Running) (wq_active q) = (s, job, Running) # vs"
    by (simp add: act)
  have after: "active_job (job_id job) Running (wq_finish job x q) = None" for x
  proof -
    have "wq_active (wq_finish job x q) = vs"
      using wq_finish_closed[OF closed] del act s by simp
    then show ?thesis
      using active_ids_head[OF inv act] by (auto simp: active_job_def find_None_iff entry_id_def)
  qed
  let ?q = "q\<lparr>wq_active := (s, job, Running) # vs\<rparr>"
  have run: "wq_active (wq_settle (job_id job) r r') = vs \<and> wq_closed (wq_settle (job_id job) r r')"
    if "wq_active r' = (s, job, Running) # vs" "wq_closed r'" for r'
    using that wq_finish_closed[OF that(2)] del s active_job_head[OF that(1)]
    by (simp add: wq_settle_def)
  show ?thesis
  proof (cases p)
    case Running
    then have "wq_begin (job_id job) q = q"
      using active_job_other[OF inv act, of Deferred] by (simp add: wq_begin_def)
    then show ?thesis using run[of q] act closed Running by simp
  next
    case Deferred
    then have head: "active_job (job_id job) Deferred q = Some job"
      using act by (simp add: active_job_head)
    show ?thesis
    proof (cases "job_aborted job")
      case True
      then show ?thesis
        using head after wq_finish_closed[OF closed] del act s
        by (simp add: wq_begin_def wq_settle_def)
    next
      case False
      then show ?thesis
        using head run[of ?q] closed s upd by (simp add: wq_begin_def)
    qed
  qed
qed

lemma wq_join_all:
  assumes "wq_inv q" "wq_closed q"
  shows "wq_active (foldl wq_step q
      (concat (map (\<lambda>i. [Begin i, Settle i (r i)]) (map entry_id (wq_active q))))) = []"
  using assms
proof (induction "wq_active q" arbitrary: q)
  case Nil
  from Nil(1)[symmetric] show ?case by simp
next
  case (Cons e vs)
  obtain s job p where e: "e = (s, job, p)" by (cases e)
  have act: "wq_active q = (s, job, p) # vs" using Cons(2) e by simp
  let ?q = "wq_settle (job_id job) (r (job_id job)) (wq_begin (job_id job) q)"
  note one = wq_join_one[OF Cons(3,4) act, of "r (job_id job)"]
  have "wq_inv ?q" using Cons(3) by (intro wq_settle_inv wq_begin_inv)
  then show ?case
    using Cons(1)[of ?q] one act by (simp add: entry_id_def comp_def)
qed

section \<open>Properties\<close>

text \<open>C9: In every state a queue with valid options can reach by any sequence of submissions, fired
  signals, continuations and shutdowns, no session has two active jobs, the capacities of the
  active map, the queue and each session's share of the queue are respected, every admitted job is
  exactly one of active, queued or settled (none is lost and no promise is settled twice), and as
  long as the queue is open there is no idle capacity: a job waits only if its session is busy or
  every slot is taken.\<close>
theorem work_queue_invariant:
  assumes "wq_new ma mq mp = Inr q0" and "q = foldl wq_step q0 es"
  shows "distinct (map fst (wq_active q))
    \<and> length (wq_active q) \<le> number_to_nat ma
    \<and> length (wq_queued q) \<le> number_to_nat mq
    \<and> (\<forall>s. length (queued_of s (wq_queued q)) \<le> number_to_nat mp)
    \<and> mset (wq_ids q) = mset [0..<wq_next_id q]
    \<and> (wq_closed q \<or> length (wq_active q) = number_to_nat ma
        \<or> job_session ` set (wq_queued q) \<subseteq> active_sessions (wq_active q))"
proof -
  have q0: "q0 = wq_fresh (number_to_nat ma) (number_to_nat mq) (number_to_nat mp)"
    using assms(1) by (auto simp: wq_new_def split: if_splits)
  have inv: "wq_inv q"
    unfolding assms(2) q0 by (rule wq.inv_reachable)
  have caps: "wq_max_active q = number_to_nat ma" "wq_max_queued q = number_to_nat mq"
    "wq_max_per_session q = number_to_nat mp"
    using wq.run_le[OF wq_fresh_inv, of "number_to_nat ma" "number_to_nat mq" "number_to_nat mp" es]
    unfolding assms(2) q0 by (simp_all add: wq_le_def wq_fresh_def)
  show ?thesis
    using inv unfolding wq_inv_def sched_ok_def no_idle_capacity_def caps
    by (cases "wq_closed q") auto
qed

theorem work_queue_invariant_witness:
  "wq_new (Num 1) (Num 2) (Num 1) = Inr (wq_fresh 1 2 1 :: nat work_queue)
   \<and> length (wq_active (foldl wq_step (wq_fresh 1 2 1 :: nat work_queue)
        [Submit ''a'' None, Submit ''a'' (Some 7), Submit ''b'' None, Begin 0, Fire 7])) \<le> 1"
proof -
  have h: "wq_new (Num 1) (Num 2) (Num 1) = Inr (wq_fresh 1 2 1 :: nat work_queue)"
    by (simp add: wq_new_def max_safe_integer_def number_to_nat_def)
  note run = work_queue_invariant[OF h refl, of
      "[Submit ''a'' None, Submit ''a'' (Some 7), Submit ''b'' None, Begin 0, Fire 7]"]
  show ?thesis
    using h run by (auto simp: number_to_nat_def simp del: foldl_Cons)
qed

text \<open>Work of one session starts in the order it was submitted. In every reachable state the queue
  is in submission order, an active job was submitted before every queued job of its session, and
  any later state keeps every settled promise as it was.\<close>
theorem work_queue_fifo:
  "let q = foldl wq_step (wq_fresh ma mq mp :: 'v work_queue) es; r = foldl wq_step q fs
   in sorted_wrt (<) (map job_id (wq_queued q))
      \<and> (\<nexists>e k. e \<in> set (wq_active q) \<and> k \<in> set (wq_queued q)
          \<and> job_session k = fst e \<and> job_id k \<le> entry_id e)
      \<and> (\<exists>xs. wq_settled r = wq_settled q @ xs)"
proof -
  have "wq_inv (foldl wq_step (wq_fresh ma mq mp :: 'v work_queue) es)"
    by (rule wq.inv_reachable)
  moreover have "wq_le (foldl wq_step (wq_fresh ma mq mp :: 'v work_queue) es)
      (foldl wq_step (foldl wq_step (wq_fresh ma mq mp) es) fs)"
    using wq.run_le[OF calculation] .
  ultimately show ?thesis
    by (auto simp: Let_def wq_inv_def sched_ok_def wq_le_def not_le)
qed

text \<open>Shutdown joins all started work. After \<open>shutdown\<close> nothing is queued and nothing starts any
  more; the shutdown promise is pending exactly while work is active; and once the work of every
  active job settles, in whatever way, the promise is resolved.\<close>
theorem work_queue_shutdown_joins:
  "let q = wq_shutdown c (foldl wq_step (wq_fresh ma mq mp :: 'v work_queue) es);
       r = foldl wq_step q (concat (map (\<lambda>i. [Begin i, Settle i (result i)])
             (map entry_id (wq_active q))))
   in wq_closed q \<and> wq_queued q = [] \<and> (wq_shutdown_done q \<longleftrightarrow> wq_active q = [])
      \<and> wq_active r = [] \<and> wq_shutdown_done r"
proof -
  let ?q = "wq_shutdown c (foldl wq_step (wq_fresh ma mq mp :: 'v work_queue) es)"
  let ?r = "foldl wq_step ?q (concat (map (\<lambda>i. [Begin i, Settle i (result i)])
      (map entry_id (wq_active ?q))))"
  have inv: "wq_inv ?q"
    by (intro wq_shutdown_inv wq.inv_reachable)
  have closed: "wq_closed ?q"
    by (simp add: wq_shutdown_def Let_def wq_check_shutdown_def wq_abort_active_def
        wq_reject_queued_def wq_reject_fold)
  have "wq_inv ?r" "wq_le ?q ?r"
    using wq.inv_run[OF inv] wq.run_le[OF inv] by blast+
  moreover have "wq_active ?r = []"
    by (rule wq_join_all[OF inv closed])
  ultimately show ?thesis
    using inv closed unfolding Let_def by (auto simp: wq_inv_def wq_le_def)
qed

end
