(* ===== verification/Lock_Interface.thy ===== *)
theory Lock_Interface
  imports Sdk_Prelude
begin

text \<open>
  The contract shared by the SDK's in-process locks (\<open>Semaphore\<close> and \<open>PathLockManager\<close> under
  \<open>packages/sdk/src/runtime\<close>): \<open>acquire\<close> returns a promise of a release function, a queued
  waiter whose abort signal fires is rejected without taking a slot, and a release function takes
  effect once. Every call of \<open>acquire\<close> that is not rejected at once is named by a handle, its
  number in the order of calls; \<open>held\<close> are the handles whose release function is live and
  \<open>waiting\<close> the queued ones.
\<close>

datatype 'k lock_event = Acquire 'k "nat option" | Release nat | Fire_signal nat

fun lock_step ::
  "('k \<Rightarrow> nat option \<Rightarrow> 's \<Rightarrow> 's) \<Rightarrow> (nat \<Rightarrow> 's \<Rightarrow> 's) \<Rightarrow> (nat \<Rightarrow> 's \<Rightarrow> 's)
   \<Rightarrow> 's \<Rightarrow> 'k lock_event \<Rightarrow> 's" where
  "lock_step acquire release fire s (Acquire k sig) = acquire k sig s"
| "lock_step acquire release fire s (Release t) = release t s"
| "lock_step acquire release fire s (Fire_signal sig) = fire sig s"

locale abortable_lock =
  fixes inv :: "'s \<Rightarrow> bool"
    and acquire :: "'k \<Rightarrow> nat option \<Rightarrow> 's \<Rightarrow> 's"
    and release :: "nat \<Rightarrow> 's \<Rightarrow> 's"
    and fire :: "nat \<Rightarrow> 's \<Rightarrow> 's"
    and held :: "'s \<Rightarrow> nat list"
    and waiting :: "'s \<Rightarrow> nat list"
    and issued :: "'s \<Rightarrow> nat"
  assumes acquire_inv: "inv s \<Longrightarrow> inv (acquire k sig s)"
    and release_inv: "inv s \<Longrightarrow> inv (release t s)"
    and fire_inv: "inv s \<Longrightarrow> inv (fire sg s)"
    and handles: "inv s \<Longrightarrow> distinct (held s @ waiting s) \<and> set (held s @ waiting s) \<subseteq> {..<issued s}"
    and acquire_effect: "inv s \<Longrightarrow>
      acquire k sig s = s
      \<or> held (acquire k sig s) = held s @ [issued s] \<and> waiting (acquire k sig s) = waiting s
        \<and> issued (acquire k sig s) = Suc (issued s)
      \<or> held (acquire k sig s) = held s \<and> waiting (acquire k sig s) = waiting s @ [issued s]
        \<and> issued (acquire k sig s) = Suc (issued s)"
    and release_dead: "t \<notin> set (held s) \<Longrightarrow> release t s = s"
    and release_effect: "inv s \<Longrightarrow> t \<in> set (held s) \<Longrightarrow>
      set (held (release t s) @ waiting (release t s)) = set (held s @ waiting s) - {t}
      \<and> set (waiting (release t s)) \<subseteq> set (waiting s) \<and> issued (release t s) = issued s"
    and fire_effect: "inv s \<Longrightarrow>
      held (fire sg s) = held s \<and> set (waiting (fire sg s)) \<subseteq> set (waiting s)
      \<and> issued (fire sg s) = issued s"
begin

abbreviation live :: "'s \<Rightarrow> nat set" where
  "live s \<equiv> set (held s) \<union> set (waiting s)"

text \<open>A second call of the same release function does nothing.\<close>

lemma release_idempotent: "inv s \<Longrightarrow> release t (release t s) = release t s"
proof (cases "t \<in> set (held s)")
  case True
  assume inv: "inv s"
  have "t \<notin> set (held (release t s))"
    using release_effect[OF inv True] by auto
  then show ?thesis by (rule release_dead)
next
  case False
  then show ?thesis by (simp add: release_dead)
qed

lemma release_gone: "inv s \<Longrightarrow> t \<in> set (held s) \<Longrightarrow> t \<notin> live (release t s)"
  using release_effect by (metis DiffE insertI1 set_append)

lemma step_inv: "inv s \<Longrightarrow> inv (lock_step acquire release fire s e)"
  by (cases e) (simp_all add: acquire_inv release_inv fire_inv)

lemma run_inv: "inv s \<Longrightarrow> inv (foldl (lock_step acquire release fire) s es)"
  by (induction es arbitrary: s) (auto intro: step_inv)

lemma step_live:
  assumes "inv s"
  shows "live (lock_step acquire release fire s e)
      \<subseteq> live s \<union> {issued s..<issued (lock_step acquire release fire s e)}
    \<and> issued s \<le> issued (lock_step acquire release fire s e)"
proof (cases e)
  case (Acquire k sig)
  then show ?thesis
    using acquire_effect[OF assms, of k sig] by auto
next
  case (Release t)
  show ?thesis
  proof (cases "t \<in> set (held s)")
    case True
    then show ?thesis
      using release_effect[OF assms True] Release by auto
  next
    case False
    then show ?thesis using Release by (simp add: release_dead)
  qed
next
  case (Fire_signal sig)
  then show ?thesis
    using fire_effect[OF assms, of sig] by auto
qed

text \<open>A handle that is neither held nor waiting (released, or rejected by its signal) never comes
  back, whatever happens next.\<close>

lemma dead_forever:
  assumes "inv s" "t < issued s" "t \<notin> live s"
  shows "t \<notin> live (foldl (lock_step acquire release fire) s es)"
  using assms
proof (induction es arbitrary: s)
  case Nil
  then show ?case by simp
next
  case (Cons e es)
  let ?s = "lock_step acquire release fire s e"
  have "t \<notin> live ?s" "t < issued ?s"
    using step_live[OF Cons.prems(1), of e] Cons.prems(2,3) by auto
  with Cons.IH[OF step_inv[OF Cons.prems(1)]] show ?case by simp
qed

end

end
