(* ===== verification/Semaphores.thy ===== *)
theory Semaphores
  imports Lock_Interface
begin

text \<open>
  \<open>packages/sdk/src/runtime/semaphore.ts\<close> and \<open>laneSemaphores.ts\<close>: the counting semaphore with
  an abort-aware FIFO queue, and the pair of optional semaphores that caps the lanes. The promise
  of \<open>acquire\<close> call \<open>n\<close> is resolved when \<open>n\<close> is in \<open>sem_held\<close> or was released, and
  rejected when it is in \<open>sem_rejected\<close>. The capacity is the constructor's argument, which the
  code does not check: a capacity of 0 or less never grants.
\<close>

record semaphore =
  sem_available :: int
  sem_waiters :: "(nat \<times> nat option) list"
  sem_held :: "nat list"
  sem_issued :: nat
  sem_listeners :: "(nat \<times> nat) list"
  sem_fired :: "nat list"
  sem_rejected :: "nat list"

definition sem_new :: "int \<Rightarrow> semaphore" where
  "sem_new cap = \<lparr>sem_available = cap, sem_waiters = [], sem_held = [], sem_issued = 0,
     sem_listeners = [], sem_fired = [], sem_rejected = []\<rparr>"

definition sem_waiting :: "semaphore \<Rightarrow> nat list" where
  "sem_waiting s = map fst (sem_waiters s)"

definition sem_acquire :: "unit \<Rightarrow> nat option \<Rightarrow> semaphore \<Rightarrow> semaphore" where
  "sem_acquire u signal s =
     (if (case signal of None \<Rightarrow> False | Some sig \<Rightarrow> sig \<in> set (sem_fired s)) then s
      else if sem_available s > 0
      then s\<lparr>sem_available := sem_available s - 1, sem_held := sem_held s @ [sem_issued s],
             sem_issued := Suc (sem_issued s)\<rparr>
      else s\<lparr>sem_waiters := sem_waiters s @ [(sem_issued s, signal)],
             sem_issued := Suc (sem_issued s),
             sem_listeners := sem_listeners s
               @ (case signal of None \<Rightarrow> [] | Some sig \<Rightarrow> [(sig, sem_issued s)])\<rparr>)"

text \<open>The release function of handle \<open>t\<close>: idempotent, it hands the slot to the first waiter.\<close>

definition sem_release :: "nat \<Rightarrow> semaphore \<Rightarrow> semaphore" where
  "sem_release t s =
     (if t \<notin> set (sem_held s) then s
      else
        let s1 = s\<lparr>sem_held := remove1 t (sem_held s)\<rparr> in
        case sem_waiters s1 of
          [] \<Rightarrow> s1\<lparr>sem_available := sem_available s1 + 1\<rparr>
        | (w, sig) # ws \<Rightarrow>
            s1\<lparr>sem_waiters := ws,
               sem_listeners := filter (\<lambda>(g, i). i \<noteq> w) (sem_listeners s1),
               sem_held := sem_held s1 @ [w]\<rparr>)"

definition sem_abort_waiter :: "nat \<Rightarrow> semaphore \<Rightarrow> semaphore" where
  "sem_abort_waiter w s =
     (case take_first (\<lambda>(i, sig). i = w) (sem_waiters s) of
        None \<Rightarrow> s
      | Some (_, rest) \<Rightarrow> s\<lparr>sem_waiters := rest, sem_rejected := sem_rejected s @ [w]\<rparr>)"

definition sem_fire :: "nat \<Rightarrow> semaphore \<Rightarrow> semaphore" where
  "sem_fire sig s =
     (if sig \<in> set (sem_fired s) then s
      else fold sem_abort_waiter (map snd (filter (\<lambda>(g, i). g = sig) (sem_listeners s)))
             (s\<lparr>sem_fired := sig # sem_fired s,
                sem_listeners := filter (\<lambda>(g, i). g \<noteq> sig) (sem_listeners s)\<rparr>))"

section \<open>Lanes\<close>

datatype lane_name = Local_lane | Frontier_lane

record lane_semaphores =
  local_sem :: "semaphore option"
  frontier_sem :: "semaphore option"

definition lanes_new :: "int option \<Rightarrow> int option \<Rightarrow> lane_semaphores" where
  "lanes_new local frontier =
     \<lparr>local_sem = map_option sem_new local, frontier_sem = map_option sem_new frontier\<rparr>"

text \<open>A grant of a lane: a no-op release for a lane without a cap, or the handle (\<open>None\<close> when the
  promise is pending or rejected is told apart by the semaphore's state).\<close>

datatype lane_grant = No_op_release | Semaphore_handle nat | Aborted_at_once

definition lanes_acquire ::
  "lane_name \<Rightarrow> nat option \<Rightarrow> lane_semaphores \<Rightarrow> lane_semaphores \<times> lane_grant" where
  "lanes_acquire lane signal ls =
     (case (if lane = Local_lane then local_sem ls else frontier_sem ls) of
        None \<Rightarrow> (ls, No_op_release)
      | Some s \<Rightarrow>
          let s' = sem_acquire () signal s;
              grant = (if sem_issued s' = sem_issued s then Aborted_at_once
                       else Semaphore_handle (sem_issued s))
          in (if lane = Local_lane then ls\<lparr>local_sem := Some s'\<rparr> else ls\<lparr>frontier_sem := Some s'\<rparr>,
              grant))"

section \<open>The semaphore satisfies the lock contract\<close>

definition sem_inv :: "int \<Rightarrow> semaphore \<Rightarrow> bool" where
  "sem_inv cap s \<longleftrightarrow>
     sem_available s + int (length (sem_held s)) = cap
     \<and> (sem_available s > 0 \<longrightarrow> sem_waiting s = [])
     \<and> (sem_available s \<ge> 0 \<or> sem_held s = [])
     \<and> distinct (sem_held s @ sem_waiting s)
     \<and> set (sem_held s @ sem_waiting s) \<subseteq> {..<sem_issued s}
     \<and> sorted_wrt (<) (sem_waiting s)"

lemma sem_new_inv: "sem_inv cap (sem_new cap)"
  by (simp add: sem_inv_def sem_new_def sem_waiting_def)

lemma sem_acquire_inv: "sem_inv cap s \<Longrightarrow> sem_inv cap (sem_acquire u sig s)"
  by (auto simp: sem_inv_def sem_acquire_def sem_waiting_def sorted_wrt_append less_Suc_eq subset_iff)

lemma sem_release_effect:
  assumes "t \<in> set (sem_held s)"
  shows "sem_held (sem_release t s) = remove1 t (sem_held s) @ take 1 (sem_waiting s)"
    and "sem_waiting (sem_release t s) = tl (sem_waiting s)"
    and "sem_available (sem_release t s) = sem_available s + (if sem_waiting s = [] then 1 else 0)"
    and "sem_issued (sem_release t s) = sem_issued s"
  using assms by (auto simp: sem_release_def sem_waiting_def Let_def split: list.split)

lemma sem_release_inv: "sem_inv cap s \<Longrightarrow> sem_inv cap (sem_release t s)"
proof (cases "t \<in> set (sem_held s)")
  case True
  assume inv: "sem_inv cap s"
  have len: "Suc (length (remove1 t (sem_held s))) = length (sem_held s)"
    using length_pos_if_in_set[OF True] True by (simp add: length_remove1)
  have sub: "set (remove1 t (sem_held s)) \<subseteq> set (sem_held s)"
    by (rule set_remove1_subset)
  show ?thesis
  proof (cases "sem_waiting s")
    case Nil
    with inv len sub show ?thesis
      by (auto simp: sem_inv_def sem_release_effect[OF True])
  next
    case (Cons w ws)
    with inv len sub show ?thesis
      by (auto simp: sem_inv_def sem_release_effect[OF True])
  qed
qed (simp add: sem_release_def)

lemma sem_abort_waiter_spec:
  assumes "sem_inv cap s"
  shows "sem_inv cap (sem_abort_waiter w s) \<and> sem_held (sem_abort_waiter w s) = sem_held s
    \<and> set (sem_waiting (sem_abort_waiter w s)) \<subseteq> set (sem_waiting s)
    \<and> sem_issued (sem_abort_waiter w s) = sem_issued s"
proof (cases "take_first (\<lambda>(i, sig). i = w) (sem_waiters s)")
  case None
  with assms show ?thesis by (simp add: sem_abort_waiter_def)
next
  case (Some p)
  obtain x rest where p: "p = (x, rest)" by (cases p)
  obtain us vs where split: "sem_waiters s = us @ x # vs" "rest = us @ vs"
    using Some unfolding p by (auto elim!: take_first_SomeE)
  have w: "sem_waiting s = map fst us @ fst x # map fst vs"
    "sem_waiting (sem_abort_waiter w s) = map fst us @ map fst vs"
    using Some p split by (simp_all add: sem_waiting_def sem_abort_waiter_def)
  have "sem_held (sem_abort_waiter w s) = sem_held s"
    "sem_available (sem_abort_waiter w s) = sem_available s"
    "sem_issued (sem_abort_waiter w s) = sem_issued s"
    using Some p by (simp_all add: sem_abort_waiter_def)
  with assms show ?thesis
    by (simp add: sem_inv_def w sorted_wrt_append) blast
qed

lemma sem_fire_spec:
  assumes "sem_inv cap s"
  shows "sem_inv cap (sem_fire sig s) \<and> sem_held (sem_fire sig s) = sem_held s
    \<and> set (sem_waiting (sem_fire sig s)) \<subseteq> set (sem_waiting s)
    \<and> sem_issued (sem_fire sig s) = sem_issued s"
proof -
  have fold: "sem_inv cap r \<Longrightarrow>
      sem_inv cap (fold sem_abort_waiter ws r) \<and> sem_held (fold sem_abort_waiter ws r) = sem_held r
      \<and> set (sem_waiting (fold sem_abort_waiter ws r)) \<subseteq> set (sem_waiting r)
      \<and> sem_issued (fold sem_abort_waiter ws r) = sem_issued r" for ws r
  proof (induction ws arbitrary: r)
    case (Cons w ws)
    then show ?case
      using sem_abort_waiter_spec[OF Cons.prems, of w] Cons.IH[of "sem_abort_waiter w r"] by auto
  qed simp
  have "sem_inv cap (s\<lparr>sem_fired := f, sem_listeners := l\<rparr>)" for f l
    using assms by (simp add: sem_inv_def sem_waiting_def)
  from fold[OF this] assms show ?thesis
    by (simp add: sem_fire_def sem_waiting_def)
qed

interpretation sem: abortable_lock "sem_inv cap" sem_acquire sem_release sem_fire
  sem_held sem_waiting sem_issued for cap
proof unfold_locales
  fix s t
  assume inv: "sem_inv cap s" and t: "t \<in> set (sem_held s)"
  show "set (sem_held (sem_release t s) @ sem_waiting (sem_release t s))
      = set (sem_held s @ sem_waiting s) - {t}
    \<and> set (sem_waiting (sem_release t s)) \<subseteq> set (sem_waiting s)
    \<and> sem_issued (sem_release t s) = sem_issued s"
    using inv t
    by (cases "sem_waiting s") (auto simp: sem_inv_def sem_release_effect[OF t] set_remove1_eq)
next
  fix s k sig
  assume "sem_inv cap s"
  show "sem_acquire k sig s = s
      \<or> sem_held (sem_acquire k sig s) = sem_held s @ [sem_issued s]
        \<and> sem_waiting (sem_acquire k sig s) = sem_waiting s
        \<and> sem_issued (sem_acquire k sig s) = Suc (sem_issued s)
      \<or> sem_held (sem_acquire k sig s) = sem_held s
        \<and> sem_waiting (sem_acquire k sig s) = sem_waiting s @ [sem_issued s]
        \<and> sem_issued (sem_acquire k sig s) = Suc (sem_issued s)"
    by (simp add: sem_acquire_def sem_waiting_def)
qed (simp_all add: sem_acquire_inv sem_release_inv sem_fire_spec,
     auto simp: sem_inv_def sem_release_def)

interpretation sem_run: invariant_machine "sem_new cap"
  "lock_step sem_acquire sem_release sem_fire" "sem_inv cap" for cap
  by unfold_locales (auto intro: sem_new_inv sem.step_inv)

section \<open>Properties\<close>

text \<open>A semaphore never has more holders than its capacity, whatever the sequence of acquisitions,
  releases (repeated releases of one handle included) and aborts: free slots and holders always add
  up to the capacity, a caller waits only while every slot is taken, and the waiters stand in the
  order in which they arrived.\<close>
theorem semaphore_bounded:
  "let s = foldl (lock_step sem_acquire sem_release sem_fire) (sem_new cap) es
   in int (length (sem_held s)) \<le> max 0 cap
      \<and> sem_available s + int (length (sem_held s)) = cap
      \<and> (sem_waiting s = [] \<or> int (length (sem_held s)) = max 0 cap)
      \<and> sorted_wrt (<) (sem_waiting s) \<and> distinct (sem_held s @ sem_waiting s)"
proof -
  have "sem_inv cap (foldl (lock_step sem_acquire sem_release sem_fire) (sem_new cap) es)"
    by (rule sem_run.inv_reachable)
  then show ?thesis
    unfolding Let_def sem_inv_def by auto
qed

text \<open>A sequence of calls of release functions that are live when they are called.\<close>

fun live_releases :: "semaphore \<Rightarrow> nat list \<Rightarrow> bool" where
  "live_releases s [] = True"
| "live_releases s (t # ts) = (t \<in> set (sem_held s) \<and> live_releases (sem_release t s) ts)"

text \<open>No waiter starves: a waiter with \<open>n\<close> waiters before it holds a slot after \<open>n + 1\<close> further
  releases, whoever releases.\<close>
theorem semaphore_no_starvation:
  assumes "sem_waiting s = us @ w # vs" "live_releases s ts" "length ts = Suc (length us)"
  shows "w \<in> set (sem_held (foldl (\<lambda>s t. sem_release t s) s ts))"
  using assms
proof (induction us arbitrary: s ts)
  case Nil
  then obtain t where "ts = [t]" "t \<in> set (sem_held s)"
    by (auto simp: length_Suc_conv)
  with Nil show ?case by (simp add: sem_release_effect)
next
  case (Cons u us)
  then obtain t rest where ts: "ts = t # rest" "t \<in> set (sem_held s)"
    "live_releases (sem_release t s) rest" "length rest = Suc (length us)"
    by (auto simp: length_Suc_conv)
  with Cons.prems(1) have "sem_waiting (sem_release t s) = us @ w # vs"
    by (simp add: sem_release_effect)
  from Cons.IH[OF this ts(3,4)] ts(1) show ?case by simp
qed

theorem semaphore_no_starvation_witness:
  "let s = foldl (lock_step sem_acquire sem_release sem_fire) (sem_new 1)
        [Acquire () None, Acquire () (Some 3), Acquire () None]
   in sem_waiting s = [1, 2] \<and> 2 \<in> set (sem_held (foldl (\<lambda>s t. sem_release t s) s [0, 1]))"
proof -
  let ?s = "foldl (lock_step sem_acquire sem_release sem_fire) (sem_new 1)
      [Acquire () None, Acquire () (Some 3), Acquire () None]"
  have w: "sem_waiting ?s = [1] @ 2 # []"
    by (simp add: sem_new_def sem_acquire_def sem_waiting_def)
  have l: "live_releases ?s [0, 1]"
    by (simp add: sem_new_def sem_acquire_def sem_release_def)
  show ?thesis
    using semaphore_no_starvation[OF w l] w unfolding Let_def by simp
qed

end
