(* ===== verification/Posix_Paths.thy ===== *)
theory Posix_Paths
  imports Sdk_Prelude
begin

text \<open>
  Path strings: Node's \<open>posix.normalize\<close>, \<open>join\<close>, \<open>resolve\<close>, \<open>relative\<close> and \<open>basename\<close> as their
  documentation and source describe them (segments, \<open>.\<close> and \<open>..\<close>, the trailing slash), and
  \<open>packages/sdk/src/tools/pathUtils.ts\<close>. The lemmas describe the segments of a resolved path.
\<close>

section \<open>Segments\<close>

text \<open>The segments of a path, as \<open>split('/')\<close> gives them.\<close>

fun split_slash :: "string \<Rightarrow> string list" where
  "split_slash [] = [[]]"
| "split_slash (c # cs) =
     (if c = CHR ''/'' then [] # split_slash cs
      else case split_slash cs of [] \<Rightarrow> [[c]] | s # ss \<Rightarrow> (c # s) # ss)"

text \<open>\<open>normalizeString\<close>: \<open>out\<close> holds the segments kept so far, last first.\<close>

fun normalize_segments :: "bool \<Rightarrow> string list \<Rightarrow> string list \<Rightarrow> string list" where
  "normalize_segments above_root out [] = rev out"
| "normalize_segments above_root out (s # ss) =
     (if s = [] \<or> s = ''.'' then normalize_segments above_root out ss
      else if s = ''..'' then
        (case out of
           [] \<Rightarrow> normalize_segments above_root (if above_root then [s] else []) ss
         | p # ps \<Rightarrow> normalize_segments above_root (if p = ''..'' then s # out else ps) ss)
      else normalize_segments above_root (s # out) ss)"

definition posix_normalize :: "string \<Rightarrow> string" where
  "posix_normalize p =
     (if p = [] then ''.''
      else
        let absolute = (hd p = CHR ''/'');
            trailing = (last p = CHR ''/'');
            body = join_strings ''/'' (normalize_segments (\<not> absolute) [] (split_slash p))
        in if body = [] then (if absolute then ''/'' else if trailing then ''./'' else ''.'')
           else (if absolute then ''/'' else []) @ body @ (if trailing then ''/'' else []))"

definition to_lower_char :: "char \<Rightarrow> char" where
  "to_lower_char c = (let n = of_char c :: nat in if 65 \<le> n \<and> n \<le> 90 then char_of (n + 32) else c)"

definition strip_trailing_slashes :: "string \<Rightarrow> string" where
  "strip_trailing_slashes p = rev (dropWhile (\<lambda>c. c = CHR ''/'') (rev p))"

section \<open>Tool paths\<close>

definition join_paths :: "string \<Rightarrow> string \<Rightarrow> string" where
  "join_paths a b = posix_normalize (join_strings ''/'' (filter (\<lambda>s. s \<noteq> []) [a, b]))"

definition expand_home_path :: "string \<Rightarrow> string \<Rightarrow> string" where
  "expand_home_path home p =
     (if p = ''~'' then home
      else if starts_with p ''~/'' then join_paths home (drop 2 p) else p)"

definition is_absolute :: "string \<Rightarrow> bool" where
  "is_absolute p \<longleftrightarrow> p \<noteq> [] \<and> hd p = CHR ''/''"

text \<open>\<open>path.resolve(cwd, p)\<close> for a relative \<open>p\<close> and an absolute \<open>cwd\<close>.\<close>

definition node_resolve :: "string \<Rightarrow> string \<Rightarrow> string" where
  "node_resolve cwd p =
     ''/'' @ join_strings ''/'' (normalize_segments False [] (split_slash (cwd @ ''/'' @ p)))"

definition resolve_tool_path :: "string \<Rightarrow> string \<Rightarrow> string \<Rightarrow> string" where
  "resolve_tool_path home cwd p =
     (let expanded = expand_home_path home p
      in if is_absolute expanded then expanded else node_resolve cwd expanded)"

section \<open>Relative paths and base names\<close>

text \<open>\<open>path.basename(p)\<close>: the last segment, trailing slashes aside.\<close>

definition posix_basename :: "string \<Rightarrow> string" where
  "posix_basename p = rev (takeWhile (\<lambda>c. c \<noteq> CHR ''/'') (rev (strip_trailing_slashes p)))"

definition path_segments :: "string \<Rightarrow> string list" where
  "path_segments p = normalize_segments False [] (split_slash p)"

fun drop_common :: "'a list \<Rightarrow> 'a list \<Rightarrow> 'a list \<times> 'a list" where
  "drop_common (x # xs) (y # ys) = (if x = y then drop_common xs ys else (x # xs, y # ys))"
| "drop_common xs ys = (xs, ys)"

text \<open>\<open>path.relative(from, to)\<close> for absolute paths.\<close>

definition node_relative :: "string \<Rightarrow> string \<Rightarrow> string" where
  "node_relative from_path to_path =
     (let (ups, downs) = drop_common (path_segments from_path) (path_segments to_path)
      in join_strings ''/'' (map (\<lambda>_. ''..'') ups @ downs))"

section \<open>Clean segments\<close>

definition clean_segment :: "string \<Rightarrow> bool" where
  "clean_segment s \<longleftrightarrow> s \<noteq> [] \<and> s \<noteq> ''.'' \<and> s \<noteq> ''..'' \<and> CHR ''/'' \<notin> set s"

lemma split_slash_no_slash: "s \<in> set (split_slash p) \<Longrightarrow> CHR ''/'' \<notin> set s"
proof (induction p arbitrary: s)
  case Nil
  then show ?case by simp
next
  case (Cons c p)
  then show ?case
    by (cases "split_slash p") (auto split: if_splits)
qed

lemma split_slash_plain: "CHR ''/'' \<notin> set s \<Longrightarrow> split_slash s = [s]"
  by (induction s) auto

lemma split_slash_append: "CHR ''/'' \<notin> set s \<Longrightarrow> split_slash (s @ CHR ''/'' # p) = s # split_slash p"
  by (induction s) auto

lemma split_slash_join:
  assumes "segs \<noteq> []" "\<forall>s \<in> set segs. CHR ''/'' \<notin> set s"
  shows "split_slash (join_strings ''/'' segs) = segs"
  using assms
proof (induction "''/''" segs rule: join_strings.induct)
  case 1
  then show ?case by simp
next
  case (2 x)
  then show ?case by (simp add: split_slash_plain)
next
  case (3 x y xs)
  then show ?case by (simp add: split_slash_append)
qed

lemma join_split_slash: "join_strings ''/'' (split_slash p) = p"
proof (induction p)
  case Nil
  then show ?case by simp
next
  case (Cons c p)
  have "split_slash p \<noteq> []" by (induction p) (auto split: list.splits)
  with Cons show ?case
    by (cases "split_slash p" rule: list.exhaust; cases "tl (split_slash p)") auto
qed

lemma normalize_segments_clean:
  assumes "list_all clean_segment out" "\<forall>s \<in> set ss. CHR ''/'' \<notin> set s"
  shows "list_all clean_segment (normalize_segments False out ss)"
  using assms
proof (induction "False" out ss rule: normalize_segments.induct)
  case (1 out)
  then show ?case by (simp add: list_all_iff)
next
  case (2 out s ss)
  then show ?case by (cases out) (auto simp: clean_segment_def)
qed

lemma path_segments_clean: "list_all clean_segment (path_segments p)"
  unfolding path_segments_def by (rule normalize_segments_clean) (auto dest: split_slash_no_slash)

lemma normalize_clean_segments:
  "list_all clean_segment ss \<Longrightarrow> normalize_segments up out ss = rev out @ ss"
  by (induction ss arbitrary: out) (auto simp: clean_segment_def)

lemma drop_common_snd: "drop_common xs ys = (us, vs) \<Longrightarrow> \<exists>zs. ys = zs @ vs"
proof (induction xs ys rule: drop_common.induct)
  case (1 x xs y ys)
  then show ?case by (cases "x = y") (auto intro: exI[of _ "[]"])
qed auto

text \<open>A relative path that does not climb is made of clean segments.\<close>

lemma node_relative_clean:
  assumes "node_relative from_path to_path = rel" "\<not> starts_with rel ''..''" "rel \<noteq> []"
  shows "\<exists>segs. segs \<noteq> [] \<and> list_all clean_segment segs \<and> rel = join_strings ''/'' segs"
proof -
  obtain ups downs where d: "drop_common (path_segments from_path) (path_segments to_path) = (ups, downs)"
    by fastforce
  have rel: "rel = join_strings ''/'' (map (\<lambda>_. ''..'') ups @ downs)"
    using assms(1) d by (simp add: node_relative_def)
  have "ups = []"
  proof (rule ccontr)
    assume "ups \<noteq> []"
    then obtain u us where "ups = u # us" by (cases ups) auto
    then have "rel = join_strings ''/'' (''..'' # map (\<lambda>_. ''..'') us @ downs)"
      by (simp add: rel)
    then have "starts_with rel ''..''"
      by (cases "map (\<lambda>_. ''..'') us @ downs") simp_all
    with assms(2) show False by simp
  qed
  moreover have "list_all clean_segment downs"
    using path_segments_clean[of to_path] drop_common_snd[OF d] by auto
  ultimately show ?thesis
    using rel assms(3) by (intro exI[of _ downs]) auto
qed

text \<open>Cutting a path at a slash cuts its segments; slashes at the end add empty ones.\<close>

lemma split_slash_not_Nil [simp]: "split_slash p \<noteq> []"
  by (induction p) (auto split: list.splits)

lemma split_slash_at: "split_slash (a @ CHR ''/'' # b) = split_slash a @ split_slash b"
proof (induction a)
  case Nil
  then show ?case by simp
next
  case (Cons c a)
  then show ?case by (cases "split_slash a") (simp_all add: split_slash_not_Nil[of a, THEN notE])
qed

lemma split_slash_slashes: "split_slash (replicate n (CHR ''/'')) = replicate (Suc n) []"
  by (induction n) auto

lemma split_slash_trailing:
  "split_slash (a @ replicate n (CHR ''/'')) = split_slash a @ replicate n []"
proof (cases n)
  case (Suc m)
  then show ?thesis
    using split_slash_at[of a "replicate m (CHR ''/'')"] split_slash_slashes[of m] by simp
qed simp

lemma normalize_trailing:
  "list_all clean_segment ss \<Longrightarrow> normalize_segments up out (ss @ replicate n []) = rev out @ ss"
proof (induction ss arbitrary: out)
  case Nil
  show ?case by (induction n) simp_all
next
  case (Cons s ss)
  then show ?case by (auto simp: clean_segment_def)
qed

lemma join_clean_ends:
  assumes "ss \<noteq> []" "list_all clean_segment ss"
  shows "join_strings ''/'' ss \<noteq> [] \<and> hd (join_strings ''/'' ss) \<noteq> CHR ''/''
    \<and> last (join_strings ''/'' ss) \<noteq> CHR ''/'' \<and> join_strings ''/'' ss \<noteq> ''.''"
  using assms
proof (induction "''/''" ss rule: join_strings.induct)
  case 1
  then show ?case by simp
next
  case (2 x)
  then have "x \<noteq> []" "CHR ''/'' \<notin> set x" "x \<noteq> ''.''"
    by (simp_all add: clean_segment_def)
  then show ?case
    using hd_in_set[of x] last_in_set[of x] by (metis join_strings.simps(2))
next
  case (3 x y ys)
  then have "x \<noteq> []" "CHR ''/'' \<notin> set x"
    by (simp_all add: clean_segment_def)
  then have "hd x \<noteq> CHR ''/''" using hd_in_set[of x] by metis
  with \<open>x \<noteq> []\<close> 3 show ?case
    by (auto simp: hd_append append_eq_Cons_conv)
qed

lemma strip_trailing_split:
  obtains n where "p = strip_trailing_slashes p @ replicate n (CHR ''/'')"
proof -
  let ?t = "takeWhile (\<lambda>c. c = CHR ''/'') (rev p)"
  have "rev p = ?t @ dropWhile (\<lambda>c. c = CHR ''/'') (rev p)"
    by simp
  then have "p = strip_trailing_slashes p @ rev ?t"
    unfolding strip_trailing_slashes_def by (metis rev_append rev_rev_ident)
  moreover have "rev ?t = replicate (length ?t) (CHR ''/'')"
    by (rule replicate_eqI[symmetric, THEN sym]) (auto dest: set_takeWhileD)
  ultimately show ?thesis using that by metis
qed

lemma strip_trailing_keep:
  assumes "d \<noteq> []" "last d \<noteq> CHR ''/''"
  shows "strip_trailing_slashes (d @ replicate n (CHR ''/'')) = d"
proof -
  have "dropWhile (\<lambda>c. c = CHR ''/'') (replicate n (CHR ''/'') @ rev d) = rev d"
  proof (induction n)
    case 0
    then show ?case using assms by (cases d rule: rev_cases) simp_all
  qed simp
  then show ?thesis by (simp add: strip_trailing_slashes_def)
qed

text \<open>A clean path with slashes at its end is normalised to itself.\<close>

lemma normalize_clean_path:
  assumes "ss \<noteq> []" "list_all clean_segment ss"
  shows "strip_trailing_slashes (posix_normalize (join_strings ''/'' ss @ replicate n (CHR ''/'')))
    = join_strings ''/'' ss"
proof -
  let ?d = "join_strings ''/'' ss" and ?g = "join_strings ''/'' ss @ replicate n (CHR ''/'')"
  have d: "?d \<noteq> []" "hd ?d \<noteq> CHR ''/''" "last ?d \<noteq> CHR ''/''"
    using join_clean_ends[OF assms] by simp_all
  have "split_slash ?d = ss"
    using assms by (intro split_slash_join) (auto simp: clean_segment_def list_all_iff)
  then have "normalize_segments True [] (split_slash ?g) = ss"
    using normalize_trailing[OF assms(2), of True "[]" n] by (simp add: split_slash_trailing)
  then have "posix_normalize ?g = ?d \<or> posix_normalize ?g = ?d @ ''/''"
    using d by (simp add: posix_normalize_def Let_def)
  then show ?thesis
    using strip_trailing_keep[OF d(1,3), of 0] strip_trailing_keep[OF d(1,3), of 1] by auto
qed

end
