(* ===== verification/Path_Lock.thy ===== *)
theory Path_Lock
  imports Lock_Interface Posix_Paths
begin

text \<open>
  \<open>packages/sdk/src/runtime/pathLock.ts\<close>: write scopes, the conservative overlap test on the
  directories that bound their globs, and the lock manager that grants non-overlapping scopes
  concurrently. A held scope is listed with the handle whose release function removes it.
\<close>

datatype path_scope = Scope_all | Scope_globs "string list"

section \<open>Globs and their bounding directories\<close>

definition is_glob_char :: "char \<Rightarrow> bool" where
  "is_glob_char c \<longleftrightarrow> c \<in> set ''*?[]{}''"

definition is_unboundable_glob :: "string \<Rightarrow> bool" where
  "is_unboundable_glob glob \<longleftrightarrow>
     (case dropWhile is_space glob of [] \<Rightarrow> False | c # _ \<Rightarrow> c = CHR ''!'')
     \<or> CHR ''('' \<in> set glob \<or> CHR ''|'' \<in> set glob"

definition normalize_prefix :: "string \<Rightarrow> string" where
  "normalize_prefix p =
     (if p = [] then []
      else let norm = strip_trailing_slashes (posix_normalize p);
               canon = (if norm = ''.'' then [] else norm)
           in map to_lower_char canon)"

text \<open>\<open>beforeWildcard.slice(0, lastIndexOf('/'))\<close>, \<open>None\<close> for \<open>lastIndexOf\<close> being \<open>-1\<close>.\<close>

definition before_last_slash :: "string \<Rightarrow> string option" where
  "before_last_slash p =
     (if CHR ''/'' \<in> set p then Some (rev (tl (dropWhile (\<lambda>c. c \<noteq> CHR ''/'') (rev p)))) else None)"

definition glob_prefix :: "string \<Rightarrow> string" where
  "glob_prefix glob =
     (if is_unboundable_glob glob then []
      else if \<not> (\<exists>c \<in> set glob. is_glob_char c) then normalize_prefix glob
      else normalize_prefix
        (case before_last_slash (takeWhile (\<lambda>c. \<not> is_glob_char c) glob) of
           None \<Rightarrow> [] | Some d \<Rightarrow> d))"

definition prefixes_touch :: "string \<Rightarrow> string \<Rightarrow> bool" where
  "prefixes_touch a b \<longleftrightarrow>
     a = [] \<or> b = [] \<or> a = b \<or> starts_with b (a @ ''/'') \<or> starts_with a (b @ ''/'')"

fun scopes_overlap :: "path_scope \<Rightarrow> path_scope \<Rightarrow> bool" where
  "scopes_overlap (Scope_globs a) (Scope_globs b) =
     (\<exists>x \<in> set (map glob_prefix a). \<exists>y \<in> set (map glob_prefix b). prefixes_touch x y)"
| "scopes_overlap _ _ = True"

section \<open>The lock manager\<close>

record path_waiter =
  pw_handle :: nat
  pw_scope :: path_scope
  pw_signal :: "nat option"

record path_lock =
  pl_held :: "(nat \<times> path_scope) list"
  pl_waiters :: "path_waiter list"
  pl_issued :: nat
  pl_listeners :: "(nat \<times> nat) list"
  pl_fired :: "nat list"
  pl_rejected :: "nat list"

definition pl_new :: path_lock where
  "pl_new = \<lparr>pl_held = [], pl_waiters = [], pl_issued = 0, pl_listeners = [], pl_fired = [],
     pl_rejected = []\<rparr>"

definition overlaps_held :: "(nat \<times> path_scope) list \<Rightarrow> path_scope \<Rightarrow> bool" where
  "overlaps_held held scope \<longleftrightarrow> (\<exists>h \<in> set held. scopes_overlap (snd h) scope)"

definition pl_acquire :: "path_scope \<Rightarrow> nat option \<Rightarrow> path_lock \<Rightarrow> path_lock" where
  "pl_acquire scope signal s =
     (if (case signal of None \<Rightarrow> False | Some sig \<Rightarrow> sig \<in> set (pl_fired s)) then s
      else if \<not> overlaps_held (pl_held s) scope
      then s\<lparr>pl_held := pl_held s @ [(pl_issued s, scope)], pl_issued := Suc (pl_issued s)\<rparr>
      else s\<lparr>pl_waiters := pl_waiters s
               @ [\<lparr>pw_handle = pl_issued s, pw_scope = scope, pw_signal = signal\<rparr>],
             pl_issued := Suc (pl_issued s),
             pl_listeners := pl_listeners s
               @ (case signal of None \<Rightarrow> [] | Some sig \<Rightarrow> [(sig, pl_issued s)])\<rparr>)"

text \<open>
  \<open>drainQueue\<close>: one pass over the waiters in arrival order. \<open>held\<close> grows as waiters are granted;
  the result is the new held list, the waiters that stay, and the granted handles.
\<close>

fun drain_queue ::
  "(nat \<times> path_scope) list \<Rightarrow> path_waiter list
   \<Rightarrow> (nat \<times> path_scope) list \<times> path_waiter list \<times> nat list" where
  "drain_queue held [] = (held, [], [])"
| "drain_queue held (w # ws) =
     (if overlaps_held held (pw_scope w)
      then let (h, rest, granted) = drain_queue held ws in (h, w # rest, granted)
      else let (h, rest, granted) = drain_queue (held @ [(pw_handle w, pw_scope w)]) ws
           in (h, rest, pw_handle w # granted))"

definition pl_release :: "nat \<Rightarrow> path_lock \<Rightarrow> path_lock" where
  "pl_release t s =
     (if t \<notin> fst ` set (pl_held s) then s
      else
        let (h, rest, granted) =
              drain_queue (filter (\<lambda>(i, sc). i \<noteq> t) (pl_held s)) (pl_waiters s)
        in s\<lparr>pl_held := h, pl_waiters := rest,
             pl_listeners := filter (\<lambda>(g, i). i \<notin> set granted) (pl_listeners s)\<rparr>)"

text \<open>The abort handler of a waiter. A waiter that was granted has left the queue.\<close>

definition pl_abort_waiter :: "nat \<Rightarrow> path_lock \<Rightarrow> path_lock" where
  "pl_abort_waiter t s =
     (if t \<notin> pw_handle ` set (pl_waiters s) then s
      else s\<lparr>pl_waiters := filter (\<lambda>w. pw_handle w \<noteq> t) (pl_waiters s),
             pl_rejected := pl_rejected s @ [t]\<rparr>)"

definition pl_fire :: "nat \<Rightarrow> path_lock \<Rightarrow> path_lock" where
  "pl_fire sig s =
     (if sig \<in> set (pl_fired s) then s
      else fold pl_abort_waiter (map snd (filter (\<lambda>(g, i). g = sig) (pl_listeners s)))
             (s\<lparr>pl_fired := sig # pl_fired s,
                pl_listeners := filter (\<lambda>(g, i). g \<noteq> sig) (pl_listeners s)\<rparr>))"

definition held_count :: "path_lock \<Rightarrow> nat" where
  "held_count s = length (pl_held s)"

definition pl_held_handles :: "path_lock \<Rightarrow> nat list" where
  "pl_held_handles s = map fst (pl_held s)"

definition pl_waiting :: "path_lock \<Rightarrow> nat list" where
  "pl_waiting s = map pw_handle (pl_waiters s)"

section \<open>Overlap is symmetric and sound\<close>

lemma prefixes_touch_sym: "prefixes_touch a b = prefixes_touch b a"
  by (auto simp: prefixes_touch_def)

lemma scopes_overlap_sym: "scopes_overlap a b = scopes_overlap b a"
  by (cases a; cases b) (simp_all, metis prefixes_touch_sym)

lemma scopes_overlap_all [simp]: "scopes_overlap Scope_all sc" "scopes_overlap sc Scope_all"
  by (cases sc; simp)+

text \<open>\<open>p\<close> is the directory \<open>d\<close> or lies under it; the empty directory is the whole tree.\<close>

definition under :: "string \<Rightarrow> string \<Rightarrow> bool" where
  "under p d \<longleftrightarrow> d = [] \<or> p = d \<or> starts_with p (d @ ''/'')"

lemma under_common:
  assumes "under p a" "under p b"
  shows "prefixes_touch a b"
proof -
  have split: "d = [] \<or> (\<exists>r. p = d @ r \<and> (r = [] \<or> hd r = CHR ''/''))" if "under p d" for d
    using that by (force simp: under_def starts_with_iff)
  consider "a = []" | "b = []" | r t where "p = a @ r" "p = b @ t"
      "r = [] \<or> hd r = CHR ''/''" "t = [] \<or> hd t = CHR ''/''"
    using split[OF assms(1)] split[OF assms(2)] by blast
  then show ?thesis
  proof cases
    case (3 r t)
    then have "a @ r = b @ t" by simp
    then obtain us where "a = b @ us \<and> us @ r = t \<or> a @ us = b \<and> r = us @ t"
      by (auto simp: append_eq_append_conv2)
    then show ?thesis
      using 3(3,4) by (cases us) (auto simp: prefixes_touch_def starts_with_iff)
  qed (auto simp: prefixes_touch_def)
qed

lemma overlap_covers:
  assumes "g \<in> set a" "h \<in> set b" "under p (glob_prefix g)" "under p (glob_prefix h)"
  shows "scopes_overlap (Scope_globs a) (Scope_globs b)"
  using assms under_common by fastforce

section \<open>The lock contract\<close>

definition disjoint_held :: "(nat \<times> path_scope) list \<Rightarrow> bool" where
  "disjoint_held held \<longleftrightarrow> sorted_wrt (\<lambda>h k. \<not> scopes_overlap (snd h) (snd k)) held"

definition pl_inv :: "path_lock \<Rightarrow> bool" where
  "pl_inv s \<longleftrightarrow>
     disjoint_held (pl_held s)
     \<and> (\<forall>w \<in> set (pl_waiters s). overlaps_held (pl_held s) (pw_scope w))
     \<and> distinct (pl_held_handles s @ pl_waiting s)
     \<and> set (pl_held_handles s @ pl_waiting s) \<subseteq> {..<pl_issued s}
     \<and> sorted_wrt (<) (pl_waiting s)"

lemma disjoint_held_append:
  "disjoint_held (held @ [(i, sc)]) \<longleftrightarrow> disjoint_held held \<and> \<not> overlaps_held held sc"
  by (auto simp: disjoint_held_def overlaps_held_def sorted_wrt_append)

lemma disjoint_held_filter: "disjoint_held held \<Longrightarrow> disjoint_held (filter P held)"
  by (simp add: disjoint_held_def sorted_wrt_filter)

lemma overlaps_held_mono: "overlaps_held held sc \<Longrightarrow> set held \<subseteq> set held' \<Longrightarrow> overlaps_held held' sc"
  by (auto simp: overlaps_held_def)

text \<open>What one pass over the waiters does: the waiters split into the granted and the rest, both in
  arrival order; granted scopes keep the held list disjoint; whoever stays overlaps a holder.\<close>

lemma drain_queue_spec:
  assumes "drain_queue held ws = (h, rest, granted)" "disjoint_held held"
  shows "\<exists>gs. h = held @ map (\<lambda>w. (pw_handle w, pw_scope w)) gs \<and> granted = map pw_handle gs
      \<and> set ws = set gs \<union> set rest
      \<and> (distinct (map pw_handle ws) \<longrightarrow> distinct (map pw_handle (gs @ rest)))
      \<and> (sorted_wrt (<) (map pw_handle ws) \<longrightarrow> sorted_wrt (<) (map pw_handle rest))
      \<and> disjoint_held h \<and> (\<forall>w \<in> set rest. overlaps_held h (pw_scope w))"
  using assms
proof (induction held ws arbitrary: h rest granted rule: drain_queue.induct)
  case (1 held)
  then show ?case by simp
next
  case (2 held w ws)
  show ?case
  proof (cases "overlaps_held held (pw_scope w)")
    case True
    then obtain rest' where d: "drain_queue held ws = (h, rest', granted)" "rest = w # rest'"
      using 2(3) by (auto split: prod.splits)
    obtain gs where gs: "h = held @ map (\<lambda>w. (pw_handle w, pw_scope w)) gs"
      "granted = map pw_handle gs" "set ws = set gs \<union> set rest'"
      "distinct (map pw_handle ws) \<longrightarrow> distinct (map pw_handle (gs @ rest'))"
      "sorted_wrt (<) (map pw_handle ws) \<longrightarrow> sorted_wrt (<) (map pw_handle rest')"
      "disjoint_held h" "\<forall>w \<in> set rest'. overlaps_held h (pw_scope w)"
      using 2(1)[OF True d(1) 2(4)] by blast
    have "overlaps_held h (pw_scope w)"
      using True gs(1) by (auto intro: overlaps_held_mono)
    then show ?thesis
      using gs d(2) by (intro exI[of _ gs]) auto
  next
    case False
    let ?held = "held @ [(pw_handle w, pw_scope w)]"
    obtain granted' where d: "drain_queue ?held ws = (h, rest, granted')"
      "granted = pw_handle w # granted'"
      using False 2(3) by (auto split: prod.splits)
    have "disjoint_held ?held"
      using 2(4) False by (simp add: disjoint_held_append)
    from 2(2)[OF False d(1) this]
    obtain gs where gs: "h = ?held @ map (\<lambda>w. (pw_handle w, pw_scope w)) gs"
      "granted' = map pw_handle gs" "set ws = set gs \<union> set rest"
      "distinct (map pw_handle ws) \<longrightarrow> distinct (map pw_handle (gs @ rest))"
      "sorted_wrt (<) (map pw_handle ws) \<longrightarrow> sorted_wrt (<) (map pw_handle rest)"
      "disjoint_held h" "\<forall>w \<in> set rest. overlaps_held h (pw_scope w)"
      by blast
    have "pw_handle ` set (gs @ rest) = pw_handle ` set ws"
      using gs(3) by auto
    then show ?thesis
      using gs d(2) by (intro exI[of _ "w # gs"]) auto
  qed
qed

lemma pl_new_inv: "pl_inv pl_new"
  by (simp add: pl_inv_def pl_new_def disjoint_held_def pl_held_handles_def pl_waiting_def)

lemma pl_acquire_inv:
  assumes inv: "pl_inv s"
  shows "pl_inv (pl_acquire sc sig s)"
proof -
  have lt: "i \<noteq> pl_issued s" if "i \<in> set (pl_held_handles s @ pl_waiting s)" for i
    using inv that unfolding pl_inv_def by (metis lessThan_iff less_irrefl subsetD)
  have "pl_issued s \<notin> set (pl_held_handles s @ pl_waiting s)"
    using lt by blast
  moreover have "set (pl_held_handles s @ pl_waiting s) \<subseteq> {..<Suc (pl_issued s)}"
    using inv unfolding pl_inv_def by (meson lessThan_subset_iff order_trans le_SucI order_refl)
  moreover have "\<forall>w \<in> set (pl_waiters s). overlaps_held (pl_held s @ [(pl_issued s, sc)]) (pw_scope w)"
    using inv by (auto simp: pl_inv_def intro: overlaps_held_mono)
  moreover have "sorted_wrt (<) (pl_waiting s @ [pl_issued s])"
    using inv by (auto simp: pl_inv_def sorted_wrt_append)
  ultimately show ?thesis
    using inv
    by (auto simp: pl_inv_def pl_acquire_def disjoint_held_append pl_held_handles_def pl_waiting_def)
qed

lemma map_fst_filter: "map fst (filter (\<lambda>(i, sc). i \<noteq> t) xs) = filter (\<lambda>i. i \<noteq> t) (map fst xs)"
  by (induction xs) auto

lemma pl_release_effect:
  assumes inv: "pl_inv s" and t: "t \<in> set (pl_held_handles s)"
  shows "pl_inv (pl_release t s)
    \<and> set (pl_held_handles (pl_release t s) @ pl_waiting (pl_release t s))
      = set (pl_held_handles s @ pl_waiting s) - {t}
    \<and> set (pl_waiting (pl_release t s)) \<subseteq> set (pl_waiting s)
    \<and> pl_issued (pl_release t s) = pl_issued s"
proof -
  let ?keep = "filter (\<lambda>(i, sc). i \<noteq> t) (pl_held s)"
  obtain h rest granted where d: "drain_queue ?keep (pl_waiters s) = (h, rest, granted)"
    by (metis prod_cases3)
  have "disjoint_held ?keep"
    using inv by (simp add: pl_inv_def disjoint_held_filter)
  from drain_queue_spec[OF d this]
  obtain gs where gs: "h = ?keep @ map (\<lambda>w. (pw_handle w, pw_scope w)) gs"
    "set (pl_waiters s) = set gs \<union> set rest"
    "distinct (pl_waiting s) \<longrightarrow> distinct (map pw_handle (gs @ rest))"
    "sorted_wrt (<) (pl_waiting s) \<longrightarrow> sorted_wrt (<) (map pw_handle rest)"
    "disjoint_held h" "\<forall>w \<in> set rest. overlaps_held h (pw_scope w)"
    unfolding pl_waiting_def by blast
  have eqs: "pl_held (pl_release t s) = h" "pl_waiters (pl_release t s) = rest"
    "pl_issued (pl_release t s) = pl_issued s"
    using t d by (simp_all add: pl_release_def pl_held_handles_def)
  have keep: "map fst ?keep = filter (\<lambda>i. i \<noteq> t) (pl_held_handles s)"
    unfolding pl_held_handles_def by (rule map_fst_filter)
  have hh: "pl_held_handles (pl_release t s)
      = filter (\<lambda>i. i \<noteq> t) (pl_held_handles s) @ map pw_handle gs"
    using eqs(1) gs(1) keep by (simp add: pl_held_handles_def comp_def)
  have waiting: "set (pl_waiting s) = pw_handle ` set gs \<union> pw_handle ` set rest"
    using gs(2) by (auto simp: pl_waiting_def)
  have t': "t \<notin> set (pl_waiting s)"
    using inv t by (auto simp: pl_inv_def)
  have "distinct (pl_held_handles (pl_release t s) @ pl_waiting (pl_release t s))"
    using inv gs(3) waiting unfolding hh by (auto simp: pl_inv_def pl_waiting_def eqs)
  moreover have live: "set (pl_held_handles (pl_release t s) @ pl_waiting (pl_release t s))
      = set (pl_held_handles s @ pl_waiting s) - {t}"
    using waiting t' unfolding hh by (auto simp: pl_waiting_def eqs)
  ultimately have "pl_inv (pl_release t s)"
    using inv gs(4-6) unfolding pl_inv_def live eqs by (auto simp: pl_waiting_def eqs)
  then show ?thesis
    using live waiting eqs by (auto simp: pl_waiting_def)
qed

lemma pl_release_inv: "pl_inv s \<Longrightarrow> pl_inv (pl_release t s)"
  using pl_release_effect[of s t] by (cases "t \<in> set (pl_held_handles s)")
    (auto simp: pl_release_def pl_held_handles_def)

lemma pl_abort_waiter_spec:
  assumes "pl_inv s"
  shows "pl_inv (pl_abort_waiter t s) \<and> pl_held (pl_abort_waiter t s) = pl_held s
    \<and> set (pl_waiting (pl_abort_waiter t s)) \<subseteq> set (pl_waiting s)
    \<and> pl_issued (pl_abort_waiter t s) = pl_issued s"
proof -
  have "sorted_wrt (<) (map pw_handle (filter P (pl_waiters s)))"
    "distinct (map pw_handle (filter P (pl_waiters s)))" for P
    using assms
    by (auto simp: pl_inv_def pl_waiting_def sorted_wrt_map sorted_wrt_filter distinct_map_filter)
  with assms show ?thesis
    by (auto simp: pl_inv_def pl_abort_waiter_def pl_waiting_def pl_held_handles_def)
qed

lemma pl_fire_spec:
  assumes "pl_inv s"
  shows "pl_inv (pl_fire sig s) \<and> pl_held (pl_fire sig s) = pl_held s
    \<and> set (pl_waiting (pl_fire sig s)) \<subseteq> set (pl_waiting s)
    \<and> pl_issued (pl_fire sig s) = pl_issued s"
proof -
  have fold: "pl_inv r \<Longrightarrow>
      pl_inv (fold pl_abort_waiter ws r) \<and> pl_held (fold pl_abort_waiter ws r) = pl_held r
      \<and> set (pl_waiting (fold pl_abort_waiter ws r)) \<subseteq> set (pl_waiting r)
      \<and> pl_issued (fold pl_abort_waiter ws r) = pl_issued r" for ws r
  proof (induction ws arbitrary: r)
    case (Cons w ws)
    then show ?case
      using pl_abort_waiter_spec[OF Cons.prems, of w] Cons.IH[of "pl_abort_waiter w r"] by auto
  qed simp
  have "pl_inv (s\<lparr>pl_fired := f, pl_listeners := l\<rparr>)" for f l
    using assms by (simp add: pl_inv_def pl_waiting_def pl_held_handles_def)
  from fold[OF this] assms show ?thesis
    by (simp add: pl_fire_def pl_waiting_def)
qed

interpretation pl: abortable_lock pl_inv pl_acquire pl_release pl_fire
  pl_held_handles pl_waiting pl_issued
proof unfold_locales
  fix s :: path_lock and k sig t
  show "pl_acquire k sig s = s
      \<or> pl_held_handles (pl_acquire k sig s) = pl_held_handles s @ [pl_issued s]
        \<and> pl_waiting (pl_acquire k sig s) = pl_waiting s
        \<and> pl_issued (pl_acquire k sig s) = Suc (pl_issued s)
      \<or> pl_held_handles (pl_acquire k sig s) = pl_held_handles s
        \<and> pl_waiting (pl_acquire k sig s) = pl_waiting s @ [pl_issued s]
        \<and> pl_issued (pl_acquire k sig s) = Suc (pl_issued s)"
    by (simp add: pl_acquire_def pl_waiting_def pl_held_handles_def)
  show "t \<notin> set (pl_held_handles s) \<Longrightarrow> pl_release t s = s"
    by (simp add: pl_release_def pl_held_handles_def)
next
  fix s sg
  assume "pl_inv s"
  then show "pl_held_handles (pl_fire sg s) = pl_held_handles s
      \<and> set (pl_waiting (pl_fire sg s)) \<subseteq> set (pl_waiting s) \<and> pl_issued (pl_fire sg s) = pl_issued s"
    using pl_fire_spec by (simp add: pl_held_handles_def)
next
  fix s t
  assume "pl_inv s" "t \<in> set (pl_held_handles s)"
  then show "set (pl_held_handles (pl_release t s) @ pl_waiting (pl_release t s))
      = set (pl_held_handles s @ pl_waiting s) - {t}
      \<and> set (pl_waiting (pl_release t s)) \<subseteq> set (pl_waiting s)
      \<and> pl_issued (pl_release t s) = pl_issued s"
    using pl_release_effect by simp
next
  fix s
  assume "pl_inv s"
  then show "distinct (pl_held_handles s @ pl_waiting s)
      \<and> set (pl_held_handles s @ pl_waiting s) \<subseteq> {..<pl_issued s}"
    by (simp add: pl_inv_def)
qed (simp_all add: pl_acquire_inv pl_release_inv pl_fire_spec)

interpretation pl_run: invariant_machine pl_new "lock_step pl_acquire pl_release pl_fire" pl_inv
  by unfold_locales (auto intro: pl_new_inv pl.step_inv)

section \<open>Properties\<close>

text \<open>Whatever the sequence of acquisitions, releases and aborts, the scopes held at the same time
  are pairwise non-overlapping, a scope without declared paths is held alone, every waiter
  overlaps a scope that is held (nobody waits for nothing), and waiters stand in arrival order.\<close>
theorem path_lock_held_disjoint:
  "let s = foldl (lock_step pl_acquire pl_release pl_fire) pl_new es
   in disjoint_held (pl_held s)
      \<and> (Scope_all \<notin> snd ` set (pl_held s) \<or> held_count s = 1)
      \<and> set (pl_waiters s) \<subseteq> {w. overlaps_held (pl_held s) (pw_scope w)}
      \<and> sorted_wrt (<) (pl_waiting s)"
proof -
  let ?s = "foldl (lock_step pl_acquire pl_release pl_fire) pl_new es"
  have inv: "pl_inv ?s"
    by (rule pl_run.inv_reachable)
  have "held_count ?s = 1" if all: "Scope_all \<in> snd ` set (pl_held ?s)"
  proof -
    obtain i where "(i, Scope_all) \<in> set (pl_held ?s)" using all by auto
    then obtain us vs where split: "pl_held ?s = us @ (i, Scope_all) # vs"
      by (meson split_list)
    then have "\<forall>e \<in> set us. \<not> scopes_overlap (snd e) Scope_all"
      "\<forall>e \<in> set vs. \<not> scopes_overlap Scope_all (snd e)"
      using inv by (auto simp: pl_inv_def disjoint_held_def sorted_wrt_append)
    then have "\<forall>e \<in> set us. False" "\<forall>e \<in> set vs. False"
      by (simp_all only: scopes_overlap_all not_True_eq_False)
    then have "us = []" "vs = []"
      by (metis ex_in_conv set_empty)+
    then show ?thesis using split by (simp add: held_count_def)
  qed
  with inv show ?thesis
    unfolding Let_def pl_inv_def by auto
qed

theorem path_lock_held_disjoint_witness:
  "let s = foldl (lock_step pl_acquire pl_release pl_fire) pl_new
        [Acquire Scope_all None, Acquire (Scope_globs [''a.ts'']) None]
   in Scope_all \<in> snd ` set (pl_held s) \<and> held_count s = 1
      \<and> set (pl_waiters s) \<subseteq> {w. overlaps_held (pl_held s) (pw_scope w)}"
proof -
  let ?es = "[Acquire Scope_all None, Acquire (Scope_globs [''a.ts'']) None]"
  have "Scope_all \<in> snd ` set (pl_held (foldl (lock_step pl_acquire pl_release pl_fire) pl_new ?es))"
    by (simp add: pl_new_def pl_acquire_def overlaps_held_def)
  then show ?thesis
    using path_lock_held_disjoint[of ?es] unfolding Let_def by blast
qed

text \<open>Two writers whose declared scopes are held at the same time never may touch the same path.
  The glob matcher is the embedder's; of it, only the documented bound is used, that a matched
  (canonical) path is the directory that bounds the glob or lies under it.\<close>
theorem path_lock_exclusive_paths:
  assumes bound: "\<And>g p. admits g p \<Longrightarrow> under p (glob_prefix g)"
    and held: "pl_held (foldl (lock_step pl_acquire pl_release pl_fire) pl_new es)
      = us @ (i, Scope_globs a) # vs @ (j, Scope_globs b) # ws"
    and globs: "g \<in> set a" "h \<in> set b"
  shows "\<not> (admits g p \<and> admits h p)"
proof
  assume "admits g p \<and> admits h p"
  then have "scopes_overlap (Scope_globs a) (Scope_globs b)"
    using globs by (intro overlap_covers[of g a h b p]) (auto intro: bound)
  moreover have "pl_inv (foldl (lock_step pl_acquire pl_release pl_fire) pl_new es)"
    by (rule pl_run.inv_reachable)
  ultimately show False
    by (simp add: pl_inv_def disjoint_held_def held sorted_wrt_append)
qed

theorem path_lock_exclusive_paths_witness:
  "let s = foldl (lock_step pl_acquire pl_release pl_fire) pl_new
        [Acquire (Scope_globs [''./src/a/**'']) None, Acquire (Scope_globs [''src/B/x.ts'']) None]
   in map fst (pl_held s) = [0, 1]
      \<and> \<not> (''src/b/x.ts'' = glob_prefix ''./src/a/**'' \<and> ''src/b/x.ts'' = glob_prefix ''src/B/x.ts'')"
proof -
  let ?es = "[Acquire (Scope_globs [''./src/a/**'']) None, Acquire (Scope_globs [''src/B/x.ts'']) None]"
  have p: "glob_prefix ''./src/a/**'' = ''src/a''" "glob_prefix ''src/B/x.ts'' = ''src/b/x.ts''"
    by code_simp+
  have held: "pl_held (foldl (lock_step pl_acquire pl_release pl_fire) pl_new ?es)
      = [] @ (0, Scope_globs [''./src/a/**'']) # [] @ (1, Scope_globs [''src/B/x.ts'']) # []"
    by (simp add: pl_new_def pl_acquire_def overlaps_held_def p prefixes_touch_def)
  have b: "\<And>g p. p = glob_prefix g \<Longrightarrow> under p (glob_prefix g)"
    by (simp add: under_def)
  show ?thesis
    using held path_lock_exclusive_paths[where admits = "\<lambda>g p. p = glob_prefix g",
        OF b held, of "''./src/a/**''" "''src/B/x.ts''" "''src/b/x.ts''"]
    unfolding Let_def by simp
qed

text \<open>A release function takes effect once: a handle that was released, or whose wait was aborted,
  is never held and never waits again, whatever calls follow (its own release included).\<close>
theorem path_lock_handle_dead:
  assumes "s = foldl (lock_step pl_acquire pl_release pl_fire) pl_new es"
    and "t < pl_issued s" "t \<notin> set (pl_held_handles s)" "t \<notin> set (pl_waiting s)"
  shows "t \<notin> set (pl_held_handles (foldl (lock_step pl_acquire pl_release pl_fire) s fs))
    \<and> pl_release t s = s"
proof -
  have "pl_inv s"
    unfolding assms(1) by (rule pl_run.inv_reachable)
  from pl.dead_forever[OF this assms(2), of fs] pl.release_dead[OF assms(3)] assms(3,4)
  show ?thesis by simp
qed

theorem path_lock_handle_dead_witness:
  "let s = foldl (lock_step pl_acquire pl_release pl_fire) pl_new
        [Acquire Scope_all None, Acquire Scope_all (Some 5), Fire_signal 5]
   in pl_held_handles s = [0] \<and> 1 \<notin> set (pl_held_handles
        (foldl (lock_step pl_acquire pl_release pl_fire) s [Release 0, Release 1]))"
proof -
  let ?s = "foldl (lock_step pl_acquire pl_release pl_fire) pl_new
      [Acquire Scope_all None, Acquire Scope_all (Some 5), Fire_signal 5]"
  have s: "pl_held_handles ?s = [0]" "pl_waiting ?s = []" "pl_issued ?s = 2"
    by (simp_all add: pl_new_def pl_acquire_def pl_fire_def pl_abort_waiter_def overlaps_held_def
        pl_held_handles_def pl_waiting_def)
  have "1 \<notin> set (pl_held_handles (foldl (lock_step pl_acquire pl_release pl_fire) ?s
      [Release 0, Release 1])) \<and> pl_release 1 ?s = ?s"
    by (rule path_lock_handle_dead[OF refl]) (simp_all only: s, simp_all)
  then show ?thesis
    using s(1) unfolding Let_def by blast
qed

end
