(* ===== verification/Messages.thy ===== *)
theory Messages
  imports Sdk_Prelude
begin

text \<open>
  \<open>packages/sdk/src/core/types.ts\<close>: the message and stream-event types every other component
  computes with, and \<open>core/tokenEstimate.ts\<close>, the cheap token estimate.

  JavaScript values of type \<open>unknown\<close> are \<open>json\<close> values; a number is its canonical decimal
  rendering (what \<open>String(n)\<close> prints), so that equality and printing need no arithmetic. The body
  of a tool result is typed \<open>string\<close> but can be any JSON value, or missing, at run time (a replayed
  transcript), which the code handles: \<open>Result_wire\<close>.
\<close>

section \<open>JSON values and their printing\<close>

datatype json =
    JNull
  | JBool bool
  | JNumber string
  | JString string
  | JArray "json list"
  | JObject "(string \<times> json) list"

definition hex_char :: "nat \<Rightarrow> char" where
  "hex_char n = (if n < 10 then char_of (48 + n) else char_of (87 + n))"

definition json_escape :: "char \<Rightarrow> string" where
  "json_escape c =
     (let n = of_char c :: nat in
      if c = CHR 0x22 then [CHR 0x5C, CHR 0x22]
      else if c = CHR 0x5C then [CHR 0x5C, CHR 0x5C]
      else if n = 8 then [CHR 0x5C, CHR ''b''] else if n = 9 then [CHR 0x5C, CHR ''t'']
      else if n = 10 then [CHR 0x5C, CHR ''n''] else if n = 12 then [CHR 0x5C, CHR ''f'']
      else if n = 13 then [CHR 0x5C, CHR ''r'']
      else if n < 32 then CHR 0x5C # ''u00'' @ [hex_char (n div 16), hex_char (n mod 16)]
      else [c])"

definition json_quote :: "string \<Rightarrow> string" where
  "json_quote s = CHR 0x22 # concat (map json_escape s) @ [CHR 0x22]"

text \<open>\<open>JSON.stringify(value)\<close>.\<close>

fun json_stringify :: "json \<Rightarrow> string" where
  "json_stringify JNull = ''null''"
| "json_stringify (JBool b) = (if b then ''true'' else ''false'')"
| "json_stringify (JNumber n) = n"
| "json_stringify (JString s) = json_quote s"
| "json_stringify (JArray xs) = ''['' @ join_strings '','' (map json_stringify xs) @ '']''"
| "json_stringify (JObject kvs) =
     ''{'' @ join_strings '','' (map (\<lambda>(k, v). json_quote k @ '':'' @ json_stringify v) kvs) @ ''}''"

text \<open>A property of a value that is not \<open>null\<close>, where the code reads one of an object.\<close>

fun json_field :: "json \<Rightarrow> string \<Rightarrow> json option" where
  "json_field (JObject kvs) k = map_of kvs k"
| "json_field _ k = None"

section \<open>Messages\<close>

datatype role = User | Assistant

datatype result_content = Result_string string | Result_wire "json option"

record encrypted_reasoning =
  enc_content :: string
  enc_route :: "string option"
  enc_item :: "json option"

datatype content_block =
    Text_block string
  | Thinking_block string "string option"
  | Redacted_thinking string
  | Encrypted_reasoning encrypted_reasoning
  | Tool_use string string json                  \<comment> \<open>id, name, input\<close>
  | Tool_result string result_content bool       \<comment> \<open>tool use id, content, is-error flag\<close>
  | Image_block string string                    \<comment> \<open>media type, base64 data\<close>

record message =
  msg_role :: role
  msg_content :: "content_block list"
  msg_runtime_origin :: bool
  msg_id :: "string option"

definition user_message :: "content_block list \<Rightarrow> message" where
  "user_message bs = \<lparr>msg_role = User, msg_content = bs, msg_runtime_origin = False, msg_id = None\<rparr>"

definition assistant_message :: "content_block list \<Rightarrow> message" where
  "assistant_message bs =
     \<lparr>msg_role = Assistant, msg_content = bs, msg_runtime_origin = False, msg_id = None\<rparr>"

fun is_tool_use :: "content_block \<Rightarrow> bool" where
  "is_tool_use (Tool_use _ _ _) = True"
| "is_tool_use _ = False"

fun is_tool_result :: "content_block \<Rightarrow> bool" where
  "is_tool_result (Tool_result _ _ _) = True"
| "is_tool_result _ = False"

fun is_text :: "content_block \<Rightarrow> bool" where
  "is_text (Text_block _) = True"
| "is_text _ = False"

text \<open>The \<open>id\<close> of a tool use, the \<open>tool_use_id\<close> of a tool result.\<close>

fun block_id :: "content_block \<Rightarrow> string" where
  "block_id (Tool_use i _ _) = i"
| "block_id (Tool_result i _ _) = i"
| "block_id _ = []"

definition use_ids :: "content_block list \<Rightarrow> string list" where
  "use_ids bs = map block_id (filter is_tool_use bs)"

definition answer_ids :: "content_block list \<Rightarrow> string list" where
  "answer_ids bs = map block_id (filter is_tool_result bs)"

lemma use_ids_simps [simp]:
  "use_ids [] = []" "use_ids (b # bs) = (if is_tool_use b then block_id b # use_ids bs else use_ids bs)"
  "use_ids (bs @ bs') = use_ids bs @ use_ids bs'"
  by (simp_all add: use_ids_def)

lemma answer_ids_simps [simp]:
  "answer_ids [] = []"
  "answer_ids (b # bs) = (if is_tool_result b then block_id b # answer_ids bs else answer_ids bs)"
  "answer_ids (bs @ bs') = answer_ids bs @ answer_ids bs'"
  by (simp_all add: answer_ids_def)

section \<open>Usage and stream events\<close>

datatype usage_field =
  Input_tokens | Output_tokens | Cache_creation_input_tokens | Cache_read_input_tokens | Reasoning_tokens

type_synonym token_usage = "usage_field \<Rightarrow> js_number option"

definition usage_fields :: "usage_field list" where
  "usage_fields = [Input_tokens, Output_tokens, Cache_creation_input_tokens,
     Cache_read_input_tokens, Reasoning_tokens]"

lemma set_usage_fields [simp]: "f \<in> set usage_fields"
  by (cases f) (simp_all add: usage_fields_def)

text \<open>The fields are finitely many, so that usage records can be compared by evaluation.\<close>

instantiation usage_field :: enum
begin

definition enum_usage_field :: "usage_field list" where
  "enum_usage_field = usage_fields"

definition enum_all_usage_field :: "(usage_field \<Rightarrow> bool) \<Rightarrow> bool" where
  "enum_all_usage_field P = list_all P usage_fields"

definition enum_ex_usage_field :: "(usage_field \<Rightarrow> bool) \<Rightarrow> bool" where
  "enum_ex_usage_field P = list_ex P usage_fields"

instance
proof
  show "(UNIV :: usage_field set) = set enum_class.enum"
    by (auto simp: enum_usage_field_def)
  show "distinct (enum_class.enum :: usage_field list)"
    by (simp add: enum_usage_field_def usage_fields_def)
  show "enum_class.enum_all P \<longleftrightarrow> Ball (UNIV :: usage_field set) P" for P
    by (auto simp: enum_all_usage_field_def list_all_iff)
  show "enum_class.enum_ex P \<longleftrightarrow> Bex (UNIV :: usage_field set) P" for P
    by (auto simp: enum_ex_usage_field_def list_ex_iff)
qed

end

datatype stop_reason = End_turn | Stop_tool_use | Stop_max_tokens | Stop_sequence | Stop_error

datatype stream_event =
    Message_start
  | Text_delta string
  | Thinking_delta string
  | Tool_use_delta string json
  | Usage_delta token_usage
  | Message_stop stop_reason
  | Assistant_message message
  | Microcompact_event nat nat nat
  | Context_management_event "token_usage option"
  | Loop_detected_event string
  | Route_decision_event string

section \<open>Token estimates\<close>

abbreviation chars_per_token :: nat where "chars_per_token \<equiv> 4"
abbreviation block_overhead_tokens :: nat where "block_overhead_tokens \<equiv> 8"
abbreviation message_overhead_tokens :: nat where "message_overhead_tokens \<equiv> 12"
abbreviation system_segment_overhead_tokens :: nat where "system_segment_overhead_tokens \<equiv> 12"

text \<open>\<open>Math.max(1, Math.ceil(length / 4))\<close>, and 0 for the empty text.\<close>

definition estimate_text_tokens :: "string \<Rightarrow> nat" where
  "estimate_text_tokens text =
     (if text = [] then 0 else max 1 ((length text + (chars_per_token - 1)) div chars_per_token))"

fun estimate_json_tokens :: "json option \<Rightarrow> nat" where
  "estimate_json_tokens None = 0"
| "estimate_json_tokens (Some JNull) = 0"
| "estimate_json_tokens (Some (JString s)) = estimate_text_tokens s"
| "estimate_json_tokens (Some v) = estimate_text_tokens (json_stringify v)"

fun estimate_block_tokens :: "content_block \<Rightarrow> nat" where
  "estimate_block_tokens (Text_block t) = block_overhead_tokens + estimate_text_tokens t"
| "estimate_block_tokens (Thinking_block t _) = block_overhead_tokens + estimate_text_tokens t"
| "estimate_block_tokens (Tool_use i n inp) =
     block_overhead_tokens + estimate_text_tokens i + estimate_text_tokens n
       + estimate_json_tokens (Some inp)"
| "estimate_block_tokens (Tool_result i c _) =
     block_overhead_tokens + estimate_text_tokens i
       + (case c of Result_string s \<Rightarrow> estimate_text_tokens s | Result_wire v \<Rightarrow> estimate_json_tokens v)"
| "estimate_block_tokens (Redacted_thinking d) = block_overhead_tokens + estimate_text_tokens d"
| "estimate_block_tokens (Encrypted_reasoning e) =
     block_overhead_tokens
       + (case enc_item e of Some v \<Rightarrow> estimate_json_tokens (Some v)
          | None \<Rightarrow> estimate_text_tokens (enc_content e))"
| "estimate_block_tokens (Image_block m d) =
     block_overhead_tokens + estimate_text_tokens m + estimate_text_tokens d"

fun role_string :: "role \<Rightarrow> string" where
  "role_string User = ''user''"
| "role_string Assistant = ''assistant''"

definition estimate_message_tokens :: "message \<Rightarrow> nat" where
  "estimate_message_tokens m =
     message_overhead_tokens + estimate_text_tokens (role_string (msg_role m))
       + sum_list (map estimate_block_tokens (msg_content m))"

definition estimate_messages_tokens :: "message list \<Rightarrow> nat" where
  "estimate_messages_tokens ms = sum_list (map estimate_message_tokens ms)"

record system_segment =
  seg_text :: string
  seg_cacheable :: bool

definition estimate_system_prompt_tokens :: "system_segment list \<Rightarrow> nat" where
  "estimate_system_prompt_tokens segs =
     sum_list (map (\<lambda>s. system_segment_overhead_tokens + estimate_text_tokens (seg_text s)
       + estimate_text_tokens (if seg_cacheable s then ''cacheable'' else ''uncached'')) segs)"

lemma estimate_text_le: "estimate_text_tokens s \<le> length s"
  by (cases s) (auto simp: estimate_text_tokens_def)

lemma estimate_text_ge: "length s \<le> chars_per_token * estimate_text_tokens s"
  by (auto simp: estimate_text_tokens_def)

lemma estimate_block_pos: "0 < estimate_block_tokens b"
  by (cases b) simp_all

lemma estimate_messages_zero [simp]: "estimate_messages_tokens ms = 0 \<longleftrightarrow> ms = []"
  by (cases ms) (simp_all add: estimate_messages_tokens_def estimate_message_tokens_def)

end
