(* ===== verification/Usage_Accounting.thy ===== *)
theory Usage_Accounting
  imports Messages
begin

text \<open>
  Token usage and its price: \<open>core/usageAccumulator.ts\<close> (the usage of one run over several
  provider calls) and \<open>providers/pricing.ts\<close> (the cost estimate of a usage). Amounts are exact
  rationals; that a product of valid rates and safe integers could overflow binary64 is not
  modelled, so \<open>Number.isFinite(amount)\<close> holds whenever the amount is computed.
\<close>

section \<open>The usage accumulator\<close>

record usage_accumulator =
  acc_totals :: token_usage
  acc_call :: token_usage
  acc_saw_usage :: bool

definition create_usage_accumulator :: usage_accumulator where
  "create_usage_accumulator = \<lparr>acc_totals = (\<lambda>_. None), acc_call = (\<lambda>_. None), acc_saw_usage = False\<rparr>"

fun js_add :: "js_number \<Rightarrow> js_number \<Rightarrow> js_number" where
  "js_add (Num a) (Num b) = Num (a + b)"
| "js_add (Infinity a) (Num _) = Infinity a"
| "js_add (Num _) (Infinity b) = Infinity b"
| "js_add (Infinity a) (Infinity b) = (if a = b then Infinity a else NaN)"
| "js_add NaN _ = NaN"
| "js_add _ NaN = NaN"

definition add_usage :: "token_usage \<Rightarrow> token_usage \<Rightarrow> token_usage" where
  "add_usage totals u =
     (\<lambda>f. case u f of
        None \<Rightarrow> totals f
      | Some v \<Rightarrow> Some (js_add (case totals f of None \<Rightarrow> Num 0 | Some t \<Rightarrow> t) v))"

definition flush_call :: "usage_accumulator \<Rightarrow> usage_accumulator" where
  "flush_call acc =
     \<lparr>acc_totals = add_usage (acc_totals acc) (acc_call acc), acc_call = (\<lambda>_. None),
      acc_saw_usage = acc_saw_usage acc\<rparr>"

definition overwrite_usage :: "token_usage \<Rightarrow> token_usage \<Rightarrow> token_usage" where
  "overwrite_usage call u = (\<lambda>f. case u f of None \<Rightarrow> call f | Some v \<Rightarrow> Some v)"

fun accumulate_usage :: "usage_accumulator \<Rightarrow> stream_event \<Rightarrow> usage_accumulator" where
  "accumulate_usage acc Message_start = flush_call acc"
| "accumulate_usage acc (Message_stop _) = flush_call acc"
| "accumulate_usage acc (Context_management_event (Some u)) =
     \<lparr>acc_totals = add_usage (acc_totals acc) u, acc_call = acc_call acc, acc_saw_usage = True\<rparr>"
| "accumulate_usage acc (Usage_delta u) =
     \<lparr>acc_totals = acc_totals acc, acc_call = overwrite_usage (acc_call acc) u, acc_saw_usage = True\<rparr>"
| "accumulate_usage acc _ = acc"

definition finalize_usage :: "usage_accumulator \<Rightarrow> token_usage option" where
  "finalize_usage acc =
     (let flushed = flush_call acc
      in if \<not> acc_saw_usage flushed then None else Some (acc_totals flushed))"

section \<open>Prices\<close>

record token_prices =
  price_input :: js_number
  price_output :: js_number
  price_cache_creation :: "js_number option"
  price_cache_read :: "js_number option"

definition prices_of ::
  "rat \<Rightarrow> rat \<Rightarrow> rat option \<Rightarrow> rat option \<Rightarrow> token_prices" where
  "prices_of i out cc cr =
     \<lparr>price_input = Num i, price_output = Num out, price_cache_creation = map_option Num cc,
      price_cache_read = map_option Num cr\<rparr>"

definition pricing_version :: nat where
  "pricing_version = 1"

definition price_table :: "(string \<times> token_prices) list" where
  "price_table =
    [(''anthropic:claude-sonnet-4-6'', prices_of 3 15 (Some (375 / 100)) (Some (3 / 10))),
     (''anthropic:claude-opus-4-7'', prices_of 15 75 (Some (1875 / 100)) (Some (15 / 10))),
     (''anthropic:claude-haiku-4-5-20251001'', prices_of 1 5 (Some (125 / 100)) (Some (1 / 10))),
     (''anthropic:claude-3-5-haiku-latest'', prices_of (8 / 10) 4 (Some 1) (Some (8 / 100))),
     (''anthropic:claude-3-5-haiku-20241022'', prices_of (8 / 10) 4 (Some 1) (Some (8 / 100))),
     (''openrouter:anthropic/claude-3.5-haiku'', prices_of (8 / 10) 4 None None),
     (''openrouter:anthropic/claude-haiku-4.5'', prices_of 1 5 None None),
     (''openrouter:z-ai/glm-5.2'', prices_of (629 / 1000) (1976 / 1000) None (Some (117 / 1000))),
     (''openrouter:moonshotai/kimi-k2.5'', prices_of (57 / 100) (285 / 100) None (Some (95 / 1000))),
     (''openai:gpt-4o-mini'', prices_of (15 / 100) (6 / 10) None (Some (75 / 1000))),
     (''openai:gpt-4o'', prices_of (25 / 10) 10 None (Some (125 / 100))),
     (''ollama:qwen2.5:3b'', prices_of 0 0 None None)]"

datatype pricing_state = Paid | Free | Subscription | Unknown_price

record pricing_snapshot =
  snap_state :: pricing_state
  snap_source :: string
  snap_version :: "nat option"
  snap_fetched_at :: "string option"
  snap_rates :: "token_prices option"
  snap_provider :: "string option"
  snap_model :: "string option"

text \<open>The pricing of a discovered model record, and the parts of the record that are read.\<close>

record model_pricing =
  mp_input :: "js_number option"
  mp_output :: "js_number option"
  mp_cache_read :: "js_number option"
  mp_cache_write :: "js_number option"
  mp_state :: "pricing_state option"
  mp_source :: "string option"
  mp_fetched_at :: "string option"

record model_record =
  mr_provider :: string
  mr_id :: string
  mr_subscription_auth :: bool
  mr_pricing :: "model_pricing option"
  mr_metadata_source :: string
  mr_metadata_fetched_at :: "string option"

text \<open>An absent or empty string is falsy.\<close>

definition truthy_string :: "string option \<Rightarrow> string option" where
  "truthy_string x = (case x of Some (c # cs) \<Rightarrow> Some (c # cs) | _ \<Rightarrow> None)"

definition pricing_snapshot_for_model :: "model_record \<Rightarrow> pricing_snapshot" where
  "pricing_snapshot_for_model r =
     (let pr = mr_pricing r;
          rates = (case (opt_bind pr mp_input, opt_bind pr mp_output) of
              (Some i, Some out) \<Rightarrow>
                Some \<lparr>price_input = i, price_output = out,
                      price_cache_creation = opt_bind pr mp_cache_write,
                      price_cache_read = opt_bind pr mp_cache_read\<rparr>
            | _ \<Rightarrow> None);
          fetched = or_else (opt_bind pr mp_fetched_at) (mr_metadata_fetched_at r)
      in \<lparr>snap_state =
            (if mr_subscription_auth r then Subscription
             else case opt_bind pr mp_state of
                 Some st \<Rightarrow> st
               | None \<Rightarrow> (if rates = None then Unknown_price else Paid)),
          snap_source = (case opt_bind pr mp_source of Some src \<Rightarrow> src | None \<Rightarrow> mr_metadata_source r),
          snap_version = None, snap_fetched_at = truthy_string fetched,
          snap_rates = rates, snap_provider = Some (mr_provider r), snap_model = Some (mr_id r)\<rparr>)"

record cost_estimate =
  cost_provider :: string
  cost_model :: string
  cost_state :: pricing_state
  cost_complete :: bool
  cost_source :: string
  cost_version :: nat
  cost_priced_at :: string
  cost_amount_usd :: "rat option"
  cost_rates :: "token_prices option"

definition price_values :: "token_prices \<Rightarrow> js_number list" where
  "price_values p = [price_input p, price_output p]
     @ (case price_cache_creation p of None \<Rightarrow> [] | Some x \<Rightarrow> [x])
     @ (case price_cache_read p of None \<Rightarrow> [] | Some x \<Rightarrow> [x])"

definition valid_rate :: "js_number \<Rightarrow> bool" where
  "valid_rate r \<longleftrightarrow> is_finite_number r \<and> \<not> js_less r (Num 0)"

definition valid_token_count :: "js_number \<Rightarrow> bool" where
  "valid_token_count n \<longleftrightarrow> is_safe_integer n \<and> \<not> js_less n (Num 0)"

definition usage_valid :: "token_usage \<Rightarrow> bool" where
  "usage_valid u \<longleftrightarrow>
     list_all (\<lambda>f. case u f of None \<Rightarrow> True | Some v \<Rightarrow> valid_token_count v) usage_fields"

definition usage_count :: "token_usage \<Rightarrow> usage_field \<Rightarrow> rat" where
  "usage_count u f = (case u f of None \<Rightarrow> 0 | Some v \<Rightarrow> number_value v)"

definition price_usage :: "token_prices \<Rightarrow> token_usage \<Rightarrow> rat" where
  "price_usage p u =
     usage_count u Input_tokens * number_value (price_input p) / 1000000
     + usage_count u Output_tokens * number_value (price_output p) / 1000000
     + usage_count u Cache_creation_input_tokens
        * number_value (case price_cache_creation p of Some x \<Rightarrow> x | None \<Rightarrow> price_input p) / 1000000
     + usage_count u Cache_read_input_tokens
        * number_value (case price_cache_read p of Some x \<Rightarrow> x | None \<Rightarrow> price_input p) / 1000000"

text \<open>A token count that is absent, zero or \<open>NaN\<close> is falsy.\<close>

definition falsy_count :: "js_number option \<Rightarrow> bool" where
  "falsy_count x \<longleftrightarrow> (case x of None \<Rightarrow> True | Some n \<Rightarrow> n = NaN \<or> n = Num 0)"

definition identity_mismatch :: "string \<Rightarrow> string \<Rightarrow> pricing_snapshot \<Rightarrow> bool" where
  "identity_mismatch provider model s \<longleftrightarrow>
     (case truthy_string (snap_provider s) of None \<Rightarrow> False | Some p \<Rightarrow> p \<noteq> provider)
     \<or> (case truthy_string (snap_model s) of None \<Rightarrow> False | Some m \<Rightarrow> m \<noteq> model)"

definition mismatch_snapshot :: pricing_snapshot where
  "mismatch_snapshot = \<lparr>snap_state = Unknown_price, snap_source = ''identity-mismatch'',
     snap_version = None, snap_fetched_at = None, snap_rates = None, snap_provider = None,
     snap_model = None\<rparr>"

text \<open>\<open>estimateUsageCost\<close>; \<open>now\<close> is the current time as an ISO string.\<close>

definition estimate_usage_cost ::
  "string \<Rightarrow> string \<Rightarrow> string \<Rightarrow> token_usage \<Rightarrow> pricing_snapshot option \<Rightarrow> cost_estimate" where
  "estimate_usage_cost now provider model u supplied =
     (let snapshot = map_option
              (\<lambda>s. if identity_mismatch provider model s then mismatch_snapshot else s) supplied;
          prices = (case snapshot of Some s \<Rightarrow> snap_rates s
                    | None \<Rightarrow> map_of price_table (provider @ '':'' @ model));
          valid = (case prices of None \<Rightarrow> False | Some p \<Rightarrow> list_all valid_rate (price_values p));
          state = (case snapshot of Some s \<Rightarrow> snap_state s
                   | None \<Rightarrow> (if valid
                       then (case prices of Some p \<Rightarrow>
                               (if price_input p = Num 0 \<and> price_output p = Num 0 then Free else Paid)
                             | None \<Rightarrow> Unknown_price)
                       else Unknown_price));
          cache_known = (snapshot = None
            \<or> (falsy_count (u Cache_read_input_tokens)
                \<or> (case prices of None \<Rightarrow> False | Some p \<Rightarrow> price_cache_read p \<noteq> None))
              \<and> (falsy_count (u Cache_creation_input_tokens)
                \<or> (case prices of None \<Rightarrow> False | Some p \<Rightarrow> price_cache_creation p \<noteq> None)));
          amount = (if valid \<and> usage_valid u then map_option (\<lambda>p. price_usage p u) prices else None);
          complete = (valid \<and> usage_valid u \<and> cache_known \<and> state \<noteq> Subscription
            \<and> state \<noteq> Unknown_price)
      in \<lparr>cost_provider = provider, cost_model = model,
          cost_state = (if complete
             then (case prices of Some p \<Rightarrow>
                     (if list_all (\<lambda>r. r = Num 0) (price_values p) then Free else Paid)
                   | None \<Rightarrow> Unknown_price)
             else if state = Subscription then Subscription else Unknown_price),
          cost_complete = complete,
          cost_source = (case snapshot of Some s \<Rightarrow> snap_source s
             | None \<Rightarrow> (if prices = None then ''unknown'' else ''sdk-price-table'')),
          cost_version = (case opt_bind snapshot snap_version of Some v \<Rightarrow> v | None \<Rightarrow> pricing_version),
          cost_priced_at = (case opt_bind snapshot snap_fetched_at of Some t \<Rightarrow> t | None \<Rightarrow> now),
          cost_amount_usd = (if complete then amount else None),
          cost_rates = (if complete then prices else None)\<rparr>)"

definition estimate_cost_usd :: "string \<Rightarrow> string \<Rightarrow> string \<Rightarrow> token_usage \<Rightarrow> rat option" where
  "estimate_cost_usd now provider model u =
     cost_amount_usd (estimate_usage_cost now provider model u None)"

section \<open>Properties\<close>

lemma add_usage_empty [simp]: "add_usage t (\<lambda>_. None) = t"
  by (simp add: add_usage_def)

text \<open>A provider call as its stream reports it: whether it opens with \<open>message_start\<close>, its
  cumulative \<open>usage_delta\<close> events, and whether it closes with \<open>message_stop\<close>.\<close>

type_synonym provider_call = "bool \<times> token_usage list \<times> bool"

definition call_events :: "provider_call \<Rightarrow> stream_event list" where
  "call_events c = (case c of (opens, deltas, closes) \<Rightarrow>
     (if opens then [Message_start] else []) @ map Usage_delta deltas
       @ (if closes then [Message_stop End_turn] else []))"

definition call_final :: "provider_call \<Rightarrow> token_usage" where
  "call_final c = foldl overwrite_usage (\<lambda>_. None) (fst (snd c))"

text \<open>Between two calls at least one boundary event appears.\<close>

fun separated :: "provider_call list \<Rightarrow> bool" where
  "separated (c # d # cs) = ((snd (snd c) \<or> fst d) \<and> separated (d # cs))"
| "separated _ = True"

lemma accumulate_deltas:
  "foldl accumulate_usage acc (map Usage_delta ds) =
     \<lparr>acc_totals = acc_totals acc, acc_call = foldl overwrite_usage (acc_call acc) ds,
      acc_saw_usage = (acc_saw_usage acc \<or> ds \<noteq> [])\<rparr>"
  by (induction ds arbitrary: acc) simp_all

lemma accumulate_call:
  assumes "acc_call acc = (\<lambda>_. None) \<or> fst c"
  shows "add_usage (acc_totals (foldl accumulate_usage acc (call_events c)))
        (acc_call (foldl accumulate_usage acc (call_events c)))
      = add_usage (add_usage (acc_totals acc) (acc_call acc)) (call_final c)"
    and "snd (snd c) \<Longrightarrow> acc_call (foldl accumulate_usage acc (call_events c)) = (\<lambda>_. None)"
    and "acc_saw_usage (foldl accumulate_usage acc (call_events c))
      \<longleftrightarrow> acc_saw_usage acc \<or> fst (snd c) \<noteq> []"
  using assms
  by (auto simp: call_events_def call_final_def accumulate_deltas flush_call_def split: prod.split)

lemma accumulate_run:
  assumes "separated cs" "cs = [] \<or> acc_call acc = (\<lambda>_. None) \<or> fst (hd cs)"
  shows "finalize_usage (foldl accumulate_usage acc (concat (map call_events cs))) =
    (if acc_saw_usage acc \<or> (\<exists>c \<in> set cs. fst (snd c) \<noteq> [])
     then Some (foldl add_usage (add_usage (acc_totals acc) (acc_call acc)) (map call_final cs))
     else None)"
  using assms
proof (induction cs arbitrary: acc)
  case Nil
  then show ?case by (simp add: finalize_usage_def flush_call_def)
next
  case (Cons c cs)
  let ?acc = "foldl accumulate_usage acc (call_events c)"
  have c: "acc_call acc = (\<lambda>_. None) \<or> fst c" using Cons.prems(2) by simp
  have "cs = [] \<or> acc_call ?acc = (\<lambda>_. None) \<or> fst (hd cs)"
    using Cons.prems(1) accumulate_call(2)[OF c] by (cases cs) auto
  moreover have "separated cs" using Cons.prems(1) by (cases cs) auto
  ultimately have "finalize_usage (foldl accumulate_usage ?acc (concat (map call_events cs))) =
      (if acc_saw_usage ?acc \<or> (\<exists>c \<in> set cs. fst (snd c) \<noteq> [])
       then Some (foldl add_usage (add_usage (acc_totals ?acc) (acc_call ?acc)) (map call_final cs))
       else None)"
    by (intro Cons.IH)
  then show ?case
    by (simp add: accumulate_call(1,3)[OF c])
qed

text \<open>The usage of a run is the sum over its provider calls of the last value each call reported
  per field, whether a provider marks its calls by \<open>message_start\<close>, by \<open>message_stop\<close> or by both
  (nothing is counted twice), a field no call reported stays absent, and a run without any usage
  event has no usage at all.\<close>
theorem usage_total_correct:
  assumes "separated calls"
  shows "finalize_usage (foldl accumulate_usage create_usage_accumulator
      (concat (map call_events calls))) =
    (if \<exists>c \<in> set calls. fst (snd c) \<noteq> []
     then Some (foldl add_usage (\<lambda>_. None) (map call_final calls)) else None)"
proof -
  have e: "add_usage (\<lambda>_. None) (\<lambda>_. None) = (\<lambda>_. None)" by simp
  show ?thesis
    using accumulate_run[OF assms, of create_usage_accumulator]
    by (simp add: create_usage_accumulator_def e)
qed

theorem usage_total_correct_witness:
  "let u = (\<lambda>n. (\<lambda>f. if f = Output_tokens then Some (Num n) else None));
       calls = [(True, [u 3, u 10], True), (False, [u 7], True)]
   in map_option (\<lambda>t. t Output_tokens) (finalize_usage (foldl accumulate_usage
        create_usage_accumulator (concat (map call_events calls)))) = Some (Some (Num 17))"
proof -
  let ?u = "\<lambda>n. (\<lambda>f. if f = Output_tokens then Some (Num n) else None)"
  have sep: "separated [(True, [?u 3, ?u 10], True), (False, [?u 7], True)]" by simp
  show ?thesis
    unfolding Let_def usage_total_correct[OF sep]
    by (simp add: call_final_def overwrite_usage_def add_usage_def)
qed

lemma usage_count_nonneg:
  assumes "usage_valid u"
  shows "0 \<le> usage_count u f"
proof (cases "u f")
  case (Some v)
  then have "valid_token_count v"
    using assms unfolding usage_valid_def list_all_iff by (metis option.simps(5) set_usage_fields)
  then show ?thesis
    using Some by (cases v) (auto simp: usage_count_def valid_token_count_def)
qed (simp add: usage_count_def)

lemma price_usage_nonneg:
  assumes "list_all valid_rate (price_values p)" "usage_valid u"
  shows "0 \<le> price_usage p u"
proof -
  have rate: "0 \<le> number_value r" if "valid_rate r" for r
    using that by (cases r) (auto simp: valid_rate_def)
  note count = usage_count_nonneg[OF assms(2)]
  have cc: "0 \<le> number_value (case price_cache_creation p of Some x \<Rightarrow> x | None \<Rightarrow> price_input p)"
    "0 \<le> number_value (case price_cache_read p of Some x \<Rightarrow> x | None \<Rightarrow> price_input p)"
    "0 \<le> number_value (price_input p)" "0 \<le> number_value (price_output p)"
    using assms(1) rate by (auto simp: price_values_def split: option.splits)
  show ?thesis
    unfolding price_usage_def
    by (intro add_nonneg_nonneg divide_nonneg_nonneg mult_nonneg_nonneg count cc) simp_all
qed

text \<open>A cost estimate states an amount exactly when it is complete, and then the amount is the
  priced usage and not negative: an unknown price, an invalid rate or count, a missing cache rate
  of a snapshot and a subscription never yield a number, in particular never a fabricated zero.
  Reasoning tokens, a subset of the output tokens, do not change the amount.\<close>
theorem cost_estimate_amount:
  "let e = estimate_usage_cost now provider model u snap in
   (cost_amount_usd e \<noteq> None) = cost_complete e
   \<and> (cost_state e \<in> {Paid, Free}) = cost_complete e
   \<and> pred_option (\<lambda>a. 0 \<le> a
        \<and> a = price_usage (the (cost_rates e)) (u(Reasoning_tokens := any))) (cost_amount_usd e)"
proof -
  have indep: "price_usage p (u(Reasoning_tokens := any)) = price_usage p u" for p
    by (simp add: price_usage_def usage_count_def)
  show ?thesis
    unfolding Let_def indep
    by (auto simp: estimate_usage_cost_def Let_def price_usage_nonneg split: option.splits if_splits)
qed

end
