(* ===== verification/Tree_Budget.thy ===== *)
theory Tree_Budget
  imports Usage_Accounting
begin

text \<open>
  \<open>packages/sdk/src/runtime/treeBudget.ts\<close>: the budget one agent tree shares. Reservations are
  made before a child starts or a provider is called, and settled afterwards through the function
  the reservation returned; a handle names that function, and \<open>tb_children\<close> and \<open>tb_requests\<close> list
  the handles that are not released or settled yet, with what the reservation captured.
  \<open>budgetProvider\<close> wraps one provider call between a reservation and its settlement.
\<close>

datatype tb_error = Invalid_limit string | Invalid_depth | Invalid_estimate | Exceeded string

record tree_budget_limits =
  max_depth :: "js_number option"
  max_total_children :: "js_number option"
  max_concurrent_children :: "js_number option"
  max_total_tokens :: "js_number option"
  max_estimated_cost_usd :: "js_number option"

record tree_budget =
  tb_limits :: tree_budget_limits
  tb_total_children :: nat
  tb_active_children :: int
  tb_tokens :: rat
  tb_cost :: rat
  tb_unknown_requests :: nat
  tb_tokens_complete :: bool
  tb_cost_complete :: bool
  tb_exhausted :: bool
  tb_next :: nat
  tb_children :: "nat list"
  tb_requests :: "(nat \<times> (rat \<times> rat option)) list"

definition valid_limit :: "bool \<Rightarrow> js_number option \<Rightarrow> bool" where
  "valid_limit integral x \<longleftrightarrow>
     (case x of None \<Rightarrow> True
      | Some v \<Rightarrow> is_finite_number v \<and> \<not> js_less v (Num 0) \<and> (integral \<longrightarrow> is_safe_integer v))"

definition tb_fresh :: "tree_budget_limits \<Rightarrow> tree_budget" where
  "tb_fresh l = \<lparr>tb_limits = l, tb_total_children = 0, tb_active_children = 0, tb_tokens = 0,
     tb_cost = 0, tb_unknown_requests = 0, tb_tokens_complete = True, tb_cost_complete = True,
     tb_exhausted = False, tb_next = 0, tb_children = [], tb_requests = []\<rparr>"

definition tb_new :: "tree_budget_limits \<Rightarrow> tb_error + tree_budget" where
  "tb_new l =
     (if \<not> valid_limit True (max_depth l) then Inl (Invalid_limit ''maxDepth'')
      else if \<not> valid_limit True (max_total_children l) then Inl (Invalid_limit ''maxTotalChildren'')
      else if \<not> valid_limit True (max_concurrent_children l)
        then Inl (Invalid_limit ''maxConcurrentChildren'')
      else if \<not> valid_limit True (max_total_tokens l) then Inl (Invalid_limit ''maxTotalTokens'')
      else if \<not> valid_limit False (max_estimated_cost_usd l)
        then Inl (Invalid_limit ''maxEstimatedCostUsd'')
      else Inr (tb_fresh l))"

text \<open>\<open>check\<close>: true when it throws.\<close>

definition over_limit :: "tree_budget \<Rightarrow> rat \<Rightarrow> js_number option \<Rightarrow> bool" where
  "over_limit b next_value limit \<longleftrightarrow>
     tb_exhausted b \<or> (case limit of None \<Rightarrow> False | Some m \<Rightarrow> js_less m (Num next_value))"

fun is_integer_number :: "js_number \<Rightarrow> bool" where
  "is_integer_number (Num r) = (of_int \<lfloor>r\<rfloor> = r)"
| "is_integer_number _ = False"

definition reserve_child :: "js_number \<Rightarrow> tree_budget \<Rightarrow> tree_budget \<times> (tb_error + nat)" where
  "reserve_child depth b =
     (if \<not> is_integer_number depth \<or> js_less depth (Num 1) then (b, Inl Invalid_depth)
      else if over_limit b (number_value depth) (max_depth (tb_limits b))
        then (b, Inl (Exceeded ''depth''))
      else if over_limit b (of_nat (tb_total_children b) + 1) (max_total_children (tb_limits b))
        then (b, Inl (Exceeded ''total children''))
      else if over_limit b (of_int (tb_active_children b) + 1) (max_concurrent_children (tb_limits b))
        then (b, Inl (Exceeded ''active children''))
      else (b\<lparr>tb_total_children := tb_total_children b + 1,
              tb_active_children := tb_active_children b + 1,
              tb_next := Suc (tb_next b), tb_children := tb_next b # tb_children b\<rparr>,
            Inr (tb_next b)))"

definition release_child :: "nat \<Rightarrow> tree_budget \<Rightarrow> tree_budget" where
  "release_child h b =
     (if h \<notin> set (tb_children b) then b
      else b\<lparr>tb_active_children := tb_active_children b - 1,
             tb_children := remove1 h (tb_children b)\<rparr>)"

definition reserve_request ::
  "js_number \<Rightarrow> js_number option \<Rightarrow> tree_budget \<Rightarrow> tree_budget \<times> (tb_error + nat)" where
  "reserve_request tokens cost b =
     (if \<not> valid_token_count tokens
         \<or> (case cost of None \<Rightarrow> False | Some c \<Rightarrow> \<not> valid_rate c)
      then (b, Inl Invalid_estimate)
      else if max_estimated_cost_usd (tb_limits b) \<noteq> None \<and> cost = None
        then (b, Inl (Exceeded ''cost ceiling requires a request cost upper bound''))
      else
        let t = number_value tokens;
            c = (case cost of None \<Rightarrow> 0 | Some c \<Rightarrow> number_value c) in
        if over_limit b (tb_tokens b + t) (max_total_tokens (tb_limits b))
          then (b, Inl (Exceeded ''tokens''))
        else if over_limit b (tb_cost b + c) (max_estimated_cost_usd (tb_limits b))
          then (b, Inl (Exceeded ''estimated cost''))
        else (b\<lparr>tb_tokens := tb_tokens b + t, tb_cost := tb_cost b + c,
                tb_next := Suc (tb_next b),
                tb_requests := (tb_next b, t, map_option number_value cost) # tb_requests b\<rparr>,
              Inr (tb_next b)))"

definition observed_tokens :: "token_usage option \<Rightarrow> rat" where
  "observed_tokens u =
     (case u of None \<Rightarrow> 0
      | Some u \<Rightarrow> usage_count u Input_tokens + usage_count u Output_tokens
          + usage_count u Cache_creation_input_tokens + usage_count u Cache_read_input_tokens)"

definition known_tokens :: "token_usage option \<Rightarrow> bool \<Rightarrow> bool" where
  "known_tokens u is_complete \<longleftrightarrow>
     is_complete \<and> (case u of None \<Rightarrow> False
       | Some u \<Rightarrow> u Input_tokens \<noteq> None \<and> u Output_tokens \<noteq> None)"

definition known_cost :: "js_number option \<Rightarrow> bool" where
  "known_cost c \<longleftrightarrow> (case c of None \<Rightarrow> False | Some c \<Rightarrow> valid_rate c)"

definition settle_request ::
  "nat \<Rightarrow> token_usage option \<Rightarrow> js_number option \<Rightarrow> bool \<Rightarrow> tree_budget \<Rightarrow> tree_budget" where
  "settle_request h u cost is_complete b =
     (case map_of (tb_requests b) h of
        None \<Rightarrow> b
      | Some (reserved, cost_reserved) \<Rightarrow>
          let b1 = b\<lparr>tb_requests := AList.delete h (tb_requests b)\<rparr> in
          if (case u of None \<Rightarrow> False | Some u \<Rightarrow> \<not> usage_valid u)
          then b1\<lparr>tb_unknown_requests := tb_unknown_requests b1 + 1, tb_tokens_complete := False,
                  tb_cost_complete := False, tb_exhausted := True\<rparr>
          else
            let kt = known_tokens u is_complete;
                kc = known_cost cost;
                observed = observed_tokens u;
                tokens = (if kt then observed else max reserved observed);
                c = (case cost of None \<Rightarrow> 0 | Some c \<Rightarrow> number_value c);
                res_c = (case cost_reserved of None \<Rightarrow> 0 | Some r \<Rightarrow> r)
            in b1\<lparr>tb_unknown_requests := tb_unknown_requests b1 + (if kt \<and> kc then 0 else 1),
                  tb_tokens_complete := tb_tokens_complete b1 \<and> kt,
                  tb_cost_complete := tb_cost_complete b1 \<and> kc,
                  tb_tokens := tb_tokens b1 + (tokens - reserved),
                  tb_cost := tb_cost b1 + ((if kc then c else res_c) - res_c),
                  tb_exhausted := tb_exhausted b1 \<or> tokens > reserved
                    \<or> (kc \<and> cost_reserved \<noteq> None \<and> c > res_c)\<rparr>)"

datatype tb_event =
    Reserve_child js_number
  | Release_child nat
  | Reserve_request js_number "js_number option"
  | Settle_request nat "token_usage option" "js_number option" bool

fun tb_step :: "tree_budget \<Rightarrow> tb_event \<Rightarrow> tree_budget" where
  "tb_step b (Reserve_child d) = fst (reserve_child d b)"
| "tb_step b (Release_child h) = release_child h b"
| "tb_step b (Reserve_request t c) = fst (reserve_request t c b)"
| "tb_step b (Settle_request h u c is_complete) = settle_request h u c is_complete b"

section \<open>The provider wrapper\<close>

text \<open>The tariff is captured before the provider is called.\<close>

definition call_pricing_snapshot ::
  "string \<Rightarrow> string \<Rightarrow> string \<Rightarrow> model_record option \<Rightarrow> pricing_snapshot" where
  "call_pricing_snapshot now provider model metadata =
     (let zero = (\<lambda>f. if f = Input_tokens \<or> f = Output_tokens then Some (Num 0) else None);
          initial = estimate_usage_cost now provider model zero
            (map_option pricing_snapshot_for_model metadata)
      in \<lparr>snap_state = cost_state initial, snap_source = cost_source initial,
          snap_version = Some (cost_version initial), snap_fetched_at = Some (cost_priced_at initial),
          snap_rates = map_option (\<lambda>r.
             if metadata = None
             then r\<lparr>price_cache_creation := Some (case price_cache_creation r of Some x \<Rightarrow> x
                       | None \<Rightarrow> price_input r),
                    price_cache_read := Some (case price_cache_read r of Some x \<Rightarrow> x
                       | None \<Rightarrow> price_input r)\<rparr>
             else r) (cost_rates initial),
          snap_provider = Some provider, snap_model = Some model\<rparr>)"

text \<open>How the consumption of the provider's stream ended: it was done, it threw, or the consumer
  returned early.\<close>

datatype stream_end = Stream_done | Stream_threw | Consumer_returned

record stream_run =
  sr_events :: "stream_event list"
  sr_end :: stream_end
  sr_cleanup_ok :: bool
  sr_aborted :: bool

definition is_message_stop :: "stream_event \<Rightarrow> bool" where
  "is_message_stop ev \<longleftrightarrow> (case ev of Message_stop _ \<Rightarrow> True | _ \<Rightarrow> False)"

definition is_assistant_event :: "stream_event \<Rightarrow> bool" where
  "is_assistant_event ev \<longleftrightarrow> (case ev of Assistant_message _ \<Rightarrow> True | _ \<Rightarrow> False)"

definition run_usage :: "stream_run \<Rightarrow> token_usage option" where
  "run_usage r = finalize_usage (foldl accumulate_usage create_usage_accumulator (sr_events r))"

definition run_usage_complete :: "stream_run \<Rightarrow> bool" where
  "run_usage_complete r \<longleftrightarrow>
     list_ex is_message_stop (sr_events r)
     \<and> (sr_end r = Stream_done \<or> list_ex is_assistant_event (sr_events r))
     \<and> sr_end r \<noteq> Stream_threw \<and> sr_cleanup_ok r \<and> \<not> sr_aborted r"

definition run_cost :: "string \<Rightarrow> string \<Rightarrow> string \<Rightarrow> pricing_snapshot \<Rightarrow> stream_run \<Rightarrow> js_number option" where
  "run_cost now provider model snap r =
     (case run_usage r of
        None \<Rightarrow> None
      | Some u \<Rightarrow>
          let e = estimate_usage_cost now provider model u (Some snap) in
          if run_usage_complete r \<and> u Input_tokens \<noteq> None \<and> u Output_tokens \<noteq> None \<and> cost_complete e
          then map_option Num (cost_amount_usd e) else None)"

text \<open>
  \<open>budgetProvider(...).stream\<close>: \<open>bound\<close> is the host's estimate for the request, \<open>max_tokens\<close> the
  request's limit. An error means that the provider was not called.
\<close>

definition budget_provider ::
  "string \<Rightarrow> string \<Rightarrow> string \<Rightarrow> model_record option \<Rightarrow> js_number \<times> js_number option \<Rightarrow> js_number
   \<Rightarrow> stream_run \<Rightarrow> tree_budget \<Rightarrow> tree_budget \<times> (tb_error + unit)" where
  "budget_provider now provider model metadata bound max_tokens r b =
     (let snap = call_pricing_snapshot now provider model metadata in
      if js_less (fst bound) max_tokens
      then (b, Inl (Exceeded ''request token upper bound is smaller than maxTokens''))
      else case reserve_request (fst bound) (snd bound) b of
        (b1, Inl e) \<Rightarrow> (b1, Inl e)
      | (b1, Inr h) \<Rightarrow>
          (settle_request h (run_usage r) (run_cost now provider model snap r)
             (run_usage_complete r) b1, Inr ()))"

section \<open>The invariant\<close>

definition reserved_tokens :: "tree_budget \<Rightarrow> rat" where
  "reserved_tokens b = sum_list (map (fst \<circ> snd) (tb_requests b))"

definition fits :: "rat \<Rightarrow> js_number option \<Rightarrow> bool" where
  "fits x limit \<longleftrightarrow> (case limit of None \<Rightarrow> True | Some m \<Rightarrow> \<not> js_less m (Num x))"

definition request_ok :: "tree_budget_limits \<Rightarrow> nat \<Rightarrow> nat \<times> (rat \<times> rat option) \<Rightarrow> bool" where
  "request_ok l n r \<longleftrightarrow>
     fst r < n \<and> 0 \<le> fst (snd r)
     \<and> (case snd (snd r) of None \<Rightarrow> max_estimated_cost_usd l = None | Some c \<Rightarrow> 0 \<le> c)"

definition tb_inv :: "tree_budget \<Rightarrow> bool" where
  "tb_inv b \<longleftrightarrow>
     tb_active_children b = int (length (tb_children b))
     \<and> length (tb_children b) \<le> tb_total_children b
     \<and> distinct (tb_children b) \<and> (\<forall>h \<in> set (tb_children b). h < tb_next b)
     \<and> distinct (map fst (tb_requests b))
     \<and> (\<forall>r \<in> set (tb_requests b). request_ok (tb_limits b) (tb_next b) r)
     \<and> reserved_tokens b \<le> tb_tokens b
     \<and> (tb_total_children b = 0
        \<or> fits (of_nat (tb_total_children b)) (max_total_children (tb_limits b)))
     \<and> (tb_children b = []
        \<or> fits (of_nat (length (tb_children b))) (max_concurrent_children (tb_limits b)))
     \<and> (tb_exhausted b \<or> tb_tokens b \<le> 0 \<or> fits (tb_tokens b) (max_total_tokens (tb_limits b)))
     \<and> (tb_exhausted b \<or> tb_cost b \<le> 0
        \<or> fits (tb_cost b) (max_estimated_cost_usd (tb_limits b)))"

lemma fits_antimono: "fits x l \<Longrightarrow> y \<le> x \<Longrightarrow> fits y l"
  unfolding fits_def by (auto split: option.splits elim!: js_less.elims)

lemma over_limit_iff: "over_limit b x l \<longleftrightarrow> tb_exhausted b \<or> \<not> fits x l"
  by (auto simp: over_limit_def fits_def split: option.splits)

lemma tb_fresh_inv: "tb_inv (tb_fresh l)"
  by (simp add: tb_inv_def tb_fresh_def reserved_tokens_def)

lemma reserve_child_cases:
  obtains "fst (reserve_child d b) = b"
  | "\<not> tb_exhausted b" "fits (of_nat (tb_total_children b) + 1) (max_total_children (tb_limits b))"
    "fits (of_int (tb_active_children b) + 1) (max_concurrent_children (tb_limits b))"
    "fst (reserve_child d b) = b\<lparr>tb_total_children := tb_total_children b + 1,
        tb_active_children := tb_active_children b + 1,
        tb_next := Suc (tb_next b), tb_children := tb_next b # tb_children b\<rparr>"
proof (cases "\<exists>h. snd (reserve_child d b) = Inr h")
  case False
  then have "fst (reserve_child d b) = b"
    by (auto simp: reserve_child_def split: if_splits)
  then show ?thesis by (rule that(1))
next
  case True
  then show ?thesis
    by (intro that(2)) (auto simp: reserve_child_def over_limit_iff split: if_splits)
qed

lemma request_ok_mono: "request_ok l n r \<Longrightarrow> n \<le> m \<Longrightarrow> request_ok l m r"
  by (auto simp: request_ok_def)

lemma reserve_child_inv: "tb_inv b \<Longrightarrow> tb_inv (fst (reserve_child d b))"
proof (cases rule: reserve_child_cases[of d b])
  case 1
  then show "tb_inv b \<Longrightarrow> ?thesis" by simp
next
  case 2
  assume inv: "tb_inv b"
  have act: "tb_active_children b = int (length (tb_children b))"
    using inv by (simp add: tb_inv_def)
  have fit: "fits (of_nat (Suc (length (tb_children b)))) (max_concurrent_children (tb_limits b))"
    "fits (of_nat (Suc (tb_total_children b))) (max_total_children (tb_limits b))"
    using 2(2,3) by (simp_all add: act add.commute)
  have fresh: "tb_next b \<notin> set (tb_children b)" "\<forall>h \<in> set (tb_children b). h < Suc (tb_next b)"
    using inv by (auto simp: tb_inv_def)
  have ok: "\<forall>r \<in> set (tb_requests b). request_ok (tb_limits b) (Suc (tb_next b)) r"
    using inv by (auto simp: tb_inv_def intro: request_ok_mono)
  show ?thesis
    using inv fit fresh ok unfolding 2(4) tb_inv_def reserved_tokens_def by simp
qed

lemma release_child_inv: "tb_inv b \<Longrightarrow> tb_inv (release_child h b)"
proof (cases "h \<in> set (tb_children b)")
  case True
  assume inv: "tb_inv b"
  have len: "Suc (length (remove1 h (tb_children b))) = length (tb_children b)"
    using length_pos_if_in_set[OF True] True by (simp add: length_remove1)
  then have "fits (of_nat (length (remove1 h (tb_children b)))) (max_concurrent_children (tb_limits b))"
    using inv True by (auto simp: tb_inv_def intro: fits_antimono)
  with len inv True show ?thesis
    by (auto simp: tb_inv_def release_child_def reserved_tokens_def dest: in_set_remove1)
qed (simp add: release_child_def)

lemma reserve_request_cases:
  obtains "fst (reserve_request t c b) = b"
  | "\<not> tb_exhausted b" "valid_token_count t" "pred_option valid_rate c"
    "max_estimated_cost_usd (tb_limits b) = None \<or> c \<noteq> None"
    "fits (tb_tokens b + number_value t) (max_total_tokens (tb_limits b))"
    "fits (tb_cost b + (case c of None \<Rightarrow> 0 | Some c \<Rightarrow> number_value c))
      (max_estimated_cost_usd (tb_limits b))"
    "fst (reserve_request t c b) = b\<lparr>tb_tokens := tb_tokens b + number_value t,
        tb_cost := tb_cost b + (case c of None \<Rightarrow> 0 | Some c \<Rightarrow> number_value c),
        tb_next := Suc (tb_next b),
        tb_requests := (tb_next b, number_value t, map_option number_value c) # tb_requests b\<rparr>"
proof (cases "\<exists>h. snd (reserve_request t c b) = Inr h")
  case False
  then have "fst (reserve_request t c b) = b"
    by (auto simp: reserve_request_def Let_def split: if_splits)
  then show ?thesis by (rule that(1))
next
  case True
  then show ?thesis
    by (intro that(2))
      (auto simp: reserve_request_def Let_def over_limit_iff split: if_splits option.splits)
qed

lemma valid_rate_value: "valid_rate r \<Longrightarrow> 0 \<le> number_value r"
  by (cases r) (auto simp: valid_rate_def)

lemma valid_token_value: "valid_token_count r \<Longrightarrow> 0 \<le> number_value r"
  by (cases r) (auto simp: valid_token_count_def)

lemma reserve_request_inv: "tb_inv b \<Longrightarrow> tb_inv (fst (reserve_request t c b))"
proof (cases rule: reserve_request_cases[of t c b])
  case 1
  then show "tb_inv b \<Longrightarrow> ?thesis" by simp
next
  case 2
  assume inv: "tb_inv b"
  have ok: "\<forall>r \<in> set (tb_requests b). request_ok (tb_limits b) (Suc (tb_next b)) r"
    using inv by (auto simp: tb_inv_def intro: request_ok_mono)
  have new: "request_ok (tb_limits b) (Suc (tb_next b))
      (tb_next b, number_value t, map_option number_value c)"
    using 2(2-4) valid_token_value valid_rate_value
    by (cases c) (auto simp: request_ok_def)
  have fresh: "tb_next b \<notin> fst ` set (tb_requests b)"
    using inv by (auto simp: tb_inv_def request_ok_def)
  have lt: "\<forall>h \<in> set (tb_children b). h < Suc (tb_next b)"
    using inv by (auto simp: tb_inv_def)
  show ?thesis
    using inv 2(5,6) ok new fresh lt unfolding 2(7) tb_inv_def reserved_tokens_def by simp
qed

text \<open>What a settlement does to a reservation that is still open.\<close>

lemma observed_nonneg: "pred_option usage_valid u \<Longrightarrow> 0 \<le> observed_tokens u"
  by (cases u) (simp_all add: observed_tokens_def usage_count_nonneg)

definition settled_tokens :: "token_usage option \<Rightarrow> bool \<Rightarrow> rat \<Rightarrow> rat" where
  "settled_tokens u is_complete reserved =
     (if known_tokens u is_complete then observed_tokens u else max reserved (observed_tokens u))"

lemma settle_request_cases:
  assumes "map_of (tb_requests b) h = Some (res, cr)"
  obtains "\<not> pred_option usage_valid u" "tb_exhausted (settle_request h u c k b)"
    "tb_tokens (settle_request h u c k b) = tb_tokens b"
    "tb_cost (settle_request h u c k b) = tb_cost b"
  | "pred_option usage_valid u"
    "tb_exhausted (settle_request h u c k b) \<longleftrightarrow> tb_exhausted b \<or> settled_tokens u k res > res
      \<or> known_cost c \<and> cr \<noteq> None \<and> number_value (the c) > the cr"
    "tb_tokens (settle_request h u c k b) = tb_tokens b + (settled_tokens u k res - res)"
    "tb_cost (settle_request h u c k b) = tb_cost b
      + (if known_cost c then number_value (the c) - (case cr of None \<Rightarrow> 0 | Some r \<Rightarrow> r) else 0)"
proof (cases "pred_option usage_valid u")
  case False
  then show ?thesis
    using assms by (intro that(1)) (cases u; simp add: settle_request_def Let_def)+
next
  case True
  then have u: "\<not> (case u of None \<Rightarrow> False | Some u \<Rightarrow> \<not> usage_valid u)" by (cases u) simp_all
  show ?thesis
    using assms u True
    by (intro that(2))
      (auto simp: settle_request_def Let_def settled_tokens_def known_cost_def split: option.splits)
qed

lemma settle_request_frame:
  "tb_limits (settle_request h u c k b) = tb_limits b"
  "tb_children (settle_request h u c k b) = tb_children b"
  "tb_active_children (settle_request h u c k b) = tb_active_children b"
  "tb_total_children (settle_request h u c k b) = tb_total_children b"
  "tb_next (settle_request h u c k b) = tb_next b"
  "tb_requests (settle_request h u c k b)
    = (if map_of (tb_requests b) h = None then tb_requests b else AList.delete h (tb_requests b))"
  by (simp_all add: settle_request_def Let_def split: option.split prod.split)

lemma settled_nonneg:
  "pred_option usage_valid u \<Longrightarrow> 0 \<le> res \<Longrightarrow> 0 \<le> settled_tokens u k res"
  using observed_nonneg[of u] by (simp add: settled_tokens_def le_max_iff_disj)

lemma settle_request_inv: "tb_inv b \<Longrightarrow> tb_inv (settle_request h u c k b)"
proof (cases "map_of (tb_requests b) h")
  case None
  then show "tb_inv b \<Longrightarrow> ?thesis" by (simp add: settle_request_def)
next
  case (Some rc)
  assume inv: "tb_inv b"
  obtain res cr where rc: "rc = (res, cr)" by (cases rc)
  have m: "map_of (tb_requests b) h = Some (res, cr)" using Some rc by simp
  have d: "distinct (map fst (tb_requests b))" using inv by (simp add: tb_inv_def)
  obtain us vs where split: "tb_requests b = us @ (h, res, cr) # vs"
    "AList.delete h (tb_requests b) = us @ vs" "h \<notin> fst ` set us" "h \<notin> fst ` set vs"
    by (rule map_of_splitE[OF d m])
  have ok: "request_ok (tb_limits b) (tb_next b) (h, res, cr)"
    using inv split(1) by (simp add: tb_inv_def)
  then have res: "0 \<le> res" by (simp add: request_ok_def)
  let ?b = "settle_request h u c k b"
  have sum: "reserved_tokens ?b = reserved_tokens b - res"
    using split by (simp add: reserved_tokens_def settle_request_frame(6) m)
  have reqs: "distinct (map fst (us @ vs))"
    "\<forall>r \<in> set (us @ vs). request_ok (tb_limits b) (tb_next b) r"
    using inv split(1) by (auto simp: tb_inv_def)
  have money: "reserved_tokens ?b \<le> tb_tokens ?b
      \<and> (tb_exhausted ?b \<or> tb_tokens ?b \<le> 0 \<or> fits (tb_tokens ?b) (max_total_tokens (tb_limits b)))
      \<and> (tb_exhausted ?b \<or> tb_cost ?b \<le> 0
        \<or> fits (tb_cost ?b) (max_estimated_cost_usd (tb_limits b)))"
  proof (cases rule: settle_request_cases[OF m, of u c k])
    case 1
    then show ?thesis
      using inv res sum by (auto simp: tb_inv_def)
  next
    case 2
    have tok: "tb_exhausted ?b \<or> tb_tokens ?b \<le> tb_tokens b"
      using 2(2,3) by auto
    have cost: "tb_exhausted ?b \<or> tb_cost ?b \<le> tb_cost b
        \<or> max_estimated_cost_usd (tb_limits b) = None"
      using 2(2,4) ok by (cases cr) (auto simp: request_ok_def)
    have "reserved_tokens ?b \<le> tb_tokens ?b"
      using settled_nonneg[OF 2(1) res, of k] inv sum 2(3) by (auto simp: tb_inv_def)
    moreover have "tb_exhausted ?b \<or> tb_tokens ?b \<le> 0
        \<or> fits (tb_tokens ?b) (max_total_tokens (tb_limits b))"
      using inv tok 2(2) fits_antimono by (auto simp: tb_inv_def)
    moreover have "tb_exhausted ?b \<or> tb_cost ?b \<le> 0
        \<or> fits (tb_cost ?b) (max_estimated_cost_usd (tb_limits b))"
      using inv cost 2(2) fits_antimono by (auto simp: tb_inv_def fits_def)
    ultimately show ?thesis by blast
  qed
  show ?thesis
    using inv money reqs m
    unfolding tb_inv_def settle_request_frame split(2) by simp
qed

lemma tb_step_inv: "tb_inv b \<Longrightarrow> tb_inv (tb_step b e)"
  by (cases e)
    (simp_all add: reserve_child_inv release_child_inv reserve_request_inv settle_request_inv)

text \<open>What no step takes back: the limits, and exhaustion with everything it stops.\<close>

definition tb_le :: "tree_budget \<Rightarrow> tree_budget \<Rightarrow> bool" where
  "tb_le b b' \<longleftrightarrow> tb_limits b' = tb_limits b
     \<and> (tb_exhausted b \<longrightarrow> tb_exhausted b' \<and> tb_next b' = tb_next b
         \<and> tb_total_children b' = tb_total_children b)"

lemma tb_step_le: "tb_le b (tb_step b e)"
proof (cases e)
  case (Reserve_child d)
  show ?thesis
    by (cases rule: reserve_child_cases[of d b]) (simp_all add: Reserve_child tb_le_def)
next
  case (Reserve_request t c)
  show ?thesis
    by (cases rule: reserve_request_cases[of t c b]) (simp_all add: Reserve_request tb_le_def)
next
  case (Release_child h)
  then show ?thesis by (simp add: tb_le_def release_child_def)
next
  case (Settle_request h u c k)
  then show ?thesis
    by (simp add: tb_le_def settle_request_def Let_def split: option.split prod.split)
qed

interpretation tb: monotone_machine "tb_fresh l" tb_step tb_inv tb_le for l
proof unfold_locales
  show "tb_le s t \<Longrightarrow> tb_le t u \<Longrightarrow> tb_le s u" for s t u
    by (auto simp: tb_le_def)
qed (simp_all add: tb_fresh_inv tb_step_inv tb_step_le, simp add: tb_le_def)

section \<open>Properties\<close>

lemma tb_new_fresh: "tb_new l = Inr b \<Longrightarrow> b = tb_fresh l"
  by (auto simp: tb_new_def split: if_splits)

text \<open>C8: However the tree reserves, releases and settles, the active children are the live child
  handles and never exceed the concurrency limit, the children started never exceed the total
  limit, the tokens of every open reservation stay accounted, and, unless an overrun exhausted the
  budget, the accounted tokens and cost stay within their ceilings.\<close>
theorem tree_budget_within_limits:
  assumes "tb_new l = Inr b0" and "b = foldl tb_step b0 es"
  shows "tb_active_children b = int (length (tb_children b))
    \<and> (tb_children b = [] \<or> fits (of_nat (length (tb_children b))) (max_concurrent_children l))
    \<and> (tb_total_children b = 0 \<or> fits (of_nat (tb_total_children b)) (max_total_children l))
    \<and> reserved_tokens b \<le> tb_tokens b
    \<and> (tb_exhausted b \<or> tb_tokens b \<le> 0 \<or> fits (tb_tokens b) (max_total_tokens l))
    \<and> (tb_exhausted b \<or> tb_cost b \<le> 0 \<or> fits (tb_cost b) (max_estimated_cost_usd l))"
proof -
  have b: "b = foldl tb_step (tb_fresh l) es"
    using assms tb_new_fresh by simp
  have "tb_inv b" unfolding b by (rule tb.inv_reachable)
  moreover have "tb_limits b = l"
    using tb.run_le[OF tb_fresh_inv, of l es] unfolding b by (simp add: tb_le_def tb_fresh_def)
  ultimately show ?thesis unfolding tb_inv_def by simp
qed

definition two_child_limits :: tree_budget_limits where
  "two_child_limits = \<lparr>max_depth = Some (Num 3), max_total_children = None,
     max_concurrent_children = Some (Num 1), max_total_tokens = Some (Num 100),
     max_estimated_cost_usd = None\<rparr>"

theorem tree_budget_within_limits_witness:
  "tb_new two_child_limits = Inr (tb_fresh two_child_limits)
   \<and> reserved_tokens (foldl tb_step (tb_fresh two_child_limits)
        [Reserve_child (Num 1), Reserve_child (Num 1), Reserve_request (Num 60) None,
         Reserve_request (Num 60) None, Settle_request 1 None None False])
     \<le> tb_tokens (foldl tb_step (tb_fresh two_child_limits)
        [Reserve_child (Num 1), Reserve_child (Num 1), Reserve_request (Num 60) None,
         Reserve_request (Num 60) None, Settle_request 1 None None False])"
proof -
  have h: "tb_new two_child_limits = Inr (tb_fresh two_child_limits)"
    by (simp add: tb_new_def two_child_limits_def valid_limit_def max_safe_integer_def)
  show ?thesis
    using h tree_budget_within_limits[OF h refl] by blast
qed

text \<open>An exhausted budget is final: whatever is tried afterwards, no child is started and no
  request is reserved any more.\<close>
theorem tree_budget_exhausted_final:
  assumes "tb_exhausted b"
  shows "tb_exhausted (foldl tb_step b es) \<and> tb_next (foldl tb_step b es) = tb_next b
    \<and> tb_total_children (foldl tb_step b es) = tb_total_children b"
  using assms
proof (induction es arbitrary: b)
  case (Cons e es)
  then have "tb_le b (tb_step b e)" by (intro tb_step_le)
  with Cons show ?case by (simp add: tb_le_def)
qed simp

theorem tree_budget_exhausted_final_witness:
  "let b = foldl tb_step (tb_fresh two_child_limits)
        [Reserve_request (Num 10) None,
         Settle_request 0 (Some (\<lambda>f. if f = Output_tokens then Some (Num 11) else None)) None True]
   in tb_exhausted b \<and> tb_next (tb_step b (Reserve_child (Num 1))) = tb_next b"
proof -
  let ?b = "foldl tb_step (tb_fresh two_child_limits)
      [Reserve_request (Num 10) None,
       Settle_request 0 (Some (\<lambda>f. if f = Output_tokens then Some (Num 11) else None)) None True]"
  have x: "tb_exhausted ?b"
    by (simp add: tb_fresh_def two_child_limits_def reserve_request_def valid_token_count_def
        max_safe_integer_def over_limit_def settle_request_def usage_valid_def usage_fields_def
        known_tokens_def known_cost_def observed_tokens_def usage_count_def Let_def)
  show ?thesis
    using x tree_budget_exhausted_final[OF x, of "[Reserve_child (Num 1)]"]
    unfolding Let_def by simp
qed

text \<open>A provider call is accounted at no less than it provably used. When \<open>budgetProvider\<close> calls
  the provider, and the reported usage is well formed, the accounted tokens grow by at least the
  tokens the stream reported, by at least the reserved bound if the accounting of the stream is
  incomplete (it was aborted, threw, was abandoned or lacks a counter), and an overrun of the
  bound exhausts the budget.\<close>
theorem budget_provider_accounts:
  assumes inv: "tb_inv b"
    and call: "budget_provider now provider model metadata bound max_tokens r b = (b', Inr ())"
    and valid: "pred_option usage_valid (run_usage r)"
  shows "tb_tokens b' \<ge> tb_tokens b + observed_tokens (run_usage r)
    \<and> (known_tokens (run_usage r) (run_usage_complete r)
        \<or> tb_tokens b' \<ge> tb_tokens b + number_value (fst bound))
    \<and> (observed_tokens (run_usage r) \<le> number_value (fst bound) \<or> tb_exhausted b')
    \<and> tb_requests b' = tb_requests b"
proof -
  obtain b1 h where res: "reserve_request (fst bound) (snd bound) b = (b1, Inr h)"
    and b': "b' = settle_request h (run_usage r)
        (run_cost now provider model (call_pricing_snapshot now provider model metadata) r)
        (run_usage_complete r) b1"
    using call by (auto simp: budget_provider_def Let_def split: if_splits sum.splits prod.splits)
  have b1: "tb_tokens b1 = tb_tokens b + number_value (fst bound)"
    "tb_requests b1 = (h, number_value (fst bound), map_option number_value (snd bound)) # tb_requests b"
    "h = tb_next b"
    using res by (auto simp: reserve_request_def Let_def split: if_splits)
  have fresh: "h \<notin> set (map fst (tb_requests b))"
    using inv b1(3) by (auto simp: tb_inv_def request_ok_def)
  have m: "map_of (tb_requests b1) h = Some (number_value (fst bound), map_option number_value (snd bound))"
    by (simp add: b1)
  show ?thesis
  proof (cases rule: settle_request_cases[OF m, of "run_usage r"
        "run_cost now provider model (call_pricing_snapshot now provider model metadata) r"
        "run_usage_complete r"])
    case 1
    with valid show ?thesis by simp
  next
    case 2
    have "tb_requests b' = tb_requests b"
      using fresh by (simp add: b' settle_request_frame m b1(2) delete_absent)
    then show ?thesis
      using 2(2,3) unfolding b'[symmetric] b1(1) settled_tokens_def by auto
  qed
qed

definition aborted_run :: stream_run where
  "aborted_run = \<lparr>sr_events = [Message_stop Stop_error], sr_end = Consumer_returned,
     sr_cleanup_ok = True, sr_aborted = True\<rparr>"

theorem budget_provider_accounts_witness:
  "tb_tokens (fst (budget_provider [] ''p'' ''m'' None (Num 60, None) (Num 50) aborted_run
       (tb_fresh two_child_limits))) \<ge> 60"
proof -
  let ?b = "tb_fresh two_child_limits"
  have u: "run_usage aborted_run = None"
    by code_simp
  have call: "budget_provider [] ''p'' ''m'' None (Num 60, None) (Num 50) aborted_run ?b
      = (fst (budget_provider [] ''p'' ''m'' None (Num 60, None) (Num 50) aborted_run ?b), Inr ())"
    by (simp add: budget_provider_def reserve_request_def Let_def valid_token_count_def
        max_safe_integer_def over_limit_def tb_fresh_def two_child_limits_def)
  have "\<not> known_tokens (run_usage aborted_run) (run_usage_complete aborted_run)"
    by (simp add: u known_tokens_def)
  then show ?thesis
    using budget_provider_accounts[OF tb_fresh_inv call] u by (simp add: tb_fresh_def)
qed

end
