(* ===== verification/Loop_Guard.thy ===== *)
theory Loop_Guard
  imports Messages "HOL-Library.Char_ord" "HOL-Library.List_Lexorder" "HOL-Library.Sublist"
    "HOL-Library.Multiset"
begin

text \<open>
  \<open>packages/sdk/src/loop/detector.ts\<close> and \<open>loop/options.ts\<close>: the loop guard of one session. It is
  consulted before a turn's tool calls are dispatched (\<open>addAndCheck\<close>) and fed with their results
  afterwards (\<open>observeResults\<close>). The SHA-256 of the runtime is the parameter \<open>sha256\<close> of every
  operation; the characters outside ASCII the reasons quote are written as their UTF-8 bytes.
\<close>

section \<open>Options\<close>

datatype loop_mode = Enforce | Warn | Loop_off

record loop_options =
  lo_mode :: "loop_mode option"
  lo_consecutive_identical_threshold :: "js_number option"
  lo_no_progress_window :: "js_number option"
  lo_content_chunk_size :: "js_number option"
  lo_content_repeat_threshold :: "js_number option"
  lo_content_window_multiplier :: "js_number option"
  lo_side_effect_tools :: "string list option"
  lo_max_strikes :: "js_number option"

definition no_loop_options :: loop_options where
  "no_loop_options = \<lparr>lo_mode = None, lo_consecutive_identical_threshold = None,
     lo_no_progress_window = None, lo_content_chunk_size = None, lo_content_repeat_threshold = None,
     lo_content_window_multiplier = None, lo_side_effect_tools = None, lo_max_strikes = None\<rparr>"

text \<open>\<open>buildLoopOptions\<close>: a block without a defined key is as good as none.\<close>

definition build_loop_options :: "loop_options option \<Rightarrow> loop_options option" where
  "build_loop_options raw =
     (case raw of None \<Rightarrow> None | Some out \<Rightarrow> if out = no_loop_options then None else Some out)"

record resolved_options =
  ro_mode :: loop_mode
  ro_identical :: nat
  ro_window :: nat
  ro_chunk :: nat
  ro_repeat :: nat
  ro_multiplier :: rat
  ro_side_effects :: "string list"
  ro_strikes :: nat

definition default_loop_options :: resolved_options where
  "default_loop_options = \<lparr>ro_mode = Enforce, ro_identical = 4, ro_window = 8, ro_chunk = 200,
     ro_repeat = 8, ro_multiplier = 3 / 2, ro_side_effects = [], ro_strikes = 2\<rparr>"

definition positive_int :: "js_number option \<Rightarrow> nat \<Rightarrow> nat" where
  "positive_int value fallback =
     (case value of None \<Rightarrow> fallback
      | Some v \<Rightarrow> if \<not> is_finite_number v \<or> js_less v (Num 1) then fallback else number_to_nat v)"

definition at_least_one :: "js_number option \<Rightarrow> rat \<Rightarrow> rat" where
  "at_least_one value fallback =
     (case value of None \<Rightarrow> fallback
      | Some v \<Rightarrow> if \<not> is_finite_number v \<or> js_less v (Num 1) then fallback else number_value v)"

definition resolve_options :: "loop_options \<Rightarrow> resolved_options" where
  "resolve_options o' = \<lparr>
     ro_mode = value_or (lo_mode o') (ro_mode default_loop_options),
     ro_identical = positive_int (lo_consecutive_identical_threshold o') (ro_identical default_loop_options),
     ro_window = positive_int (lo_no_progress_window o') (ro_window default_loop_options),
     ro_chunk = positive_int (lo_content_chunk_size o') (ro_chunk default_loop_options),
     ro_repeat = positive_int (lo_content_repeat_threshold o') (ro_repeat default_loop_options),
     ro_multiplier = at_least_one (lo_content_window_multiplier o') (ro_multiplier default_loop_options),
     ro_side_effects = value_or (lo_side_effect_tools o') (ro_side_effects default_loop_options),
     ro_strikes = positive_int (lo_max_strikes o') (ro_strikes default_loop_options)\<rparr>"

section \<open>Hashed units\<close>

abbreviation result_text_limit :: nat where "result_text_limit \<equiv> 65536"
abbreviation seen_results_limit :: nat where "seen_results_limit \<equiv> 2000"
abbreviation reason_preview_chars :: nat where "reason_preview_chars \<equiv> 80"

fun canonicalize :: "json \<Rightarrow> json" where
  "canonicalize (JString s) = JString (collapse_whitespace s)"
| "canonicalize (JArray xs) = JArray (map canonicalize xs)"
| "canonicalize (JObject kvs) = JObject (sort_key fst (map (\<lambda>(k, v). (k, canonicalize v)) kvs))"
| "canonicalize v = v"

definition canonical_json :: "json option \<Rightarrow> string" where
  "canonical_json v =
     (case v of None \<Rightarrow> ''undefined'' | Some v \<Rightarrow> json_stringify (canonicalize v))"

definition preview :: "string \<Rightarrow> string" where
  "preview text = (if length text > reason_preview_chars
     then take reason_preview_chars text @ ellipsis else text)"

record turn_tool_call =
  tc_name :: string
  tc_input :: "json option"

record turn_snapshot =
  ts_tool_calls :: "turn_tool_call list"
  ts_text :: string

record observed_result =
  or_name :: string
  or_input :: "json option"
  or_text :: string
  or_error :: bool

record tool_call_record =
  tr_hash :: string
  tr_name :: string
  tr_preview :: string

record content_chunk =
  cc_hash :: string
  cc_preview :: string

record observed_call =
  oc_name :: string
  oc_input_hash :: string
  oc_preview :: string
  oc_error_preview :: "string option"
  oc_productive :: bool

record call_group =
  cg_label :: string
  cg_count :: nat
  cg_errors :: nat
  cg_error_preview :: "string option"

definition call_hash :: "(string \<Rightarrow> string) \<Rightarrow> string \<Rightarrow> json option \<Rightarrow> string" where
  "call_hash sha256 name input = sha256 (name @ '':'' @ canonical_json input)"

definition to_tool_call_record :: "(string \<Rightarrow> string) \<Rightarrow> turn_tool_call \<Rightarrow> tool_call_record" where
  "to_tool_call_record sha256 c = \<lparr>tr_hash = call_hash sha256 (tc_name c) (tc_input c),
     tr_name = tc_name c, tr_preview = preview (canonical_json (tc_input c))\<rparr>"

definition to_content_chunk :: "(string \<Rightarrow> string) \<Rightarrow> string \<Rightarrow> content_chunk" where
  "to_content_chunk sha256 text =
     \<lparr>cc_hash = sha256 text, cc_preview = preview (collapse_whitespace text)\<rparr>"

definition hash_result :: "(string \<Rightarrow> string) \<Rightarrow> observed_result \<Rightarrow> string" where
  "hash_result sha256 r =
     sha256 ((if or_error r then ''error'' else ''ok'') @ '':'' @ take result_text_limit (or_text r))"

text \<open>The loop of \<open>chunkText\<close> as written, which never ends for a chunk size of zero; for the others
  it computes \<^term>\<open>chunks_of\<close> (lemma \<open>chunk_loop_text\<close>), which the detector below uses.\<close>

partial_function (option) chunk_loop :: "nat \<Rightarrow> string \<Rightarrow> nat \<Rightarrow> string list \<Rightarrow> string list option" where
  "chunk_loop n text i chunks =
     (if i < length text
      then chunk_loop n text (i + n) (chunks @ [take n (drop i text)])
      else Some chunks)"

section \<open>The detector\<close>

datatype detector_name = Consecutive_identical | No_progress | Content_loop

record loop_detection =
  det_name :: detector_name
  det_hash :: string
  det_count :: nat
  det_reason :: string
  det_window :: "(nat \<times> nat) option"   \<comment> \<open>size, unproductive\<close>

record loop_detector =
  ld_opts :: resolved_options
  ld_content_window :: nat
  ld_tool_calls :: "tool_call_record list"
  ld_content_chunks :: "content_chunk list"
  ld_recent_calls :: "observed_call list"
  ld_seen_results :: "string list"
  ld_last_progress :: bool

definition ld_new :: "loop_options \<Rightarrow> loop_detector" where
  "ld_new o' = (let r = resolve_options o' in
     \<lparr>ld_opts = r, ld_content_window = nat \<lceil>of_nat (ro_repeat r) * ro_multiplier r\<rceil>,
      ld_tool_calls = [], ld_content_chunks = [], ld_recent_calls = [], ld_seen_results = [],
      ld_last_progress = False\<rparr>)"

text \<open>\<open>kill\<close>: the environment switches the guard off (read at every call).\<close>

definition ld_disabled :: "bool \<Rightarrow> loop_detector \<Rightarrow> bool" where
  "ld_disabled kill d \<longleftrightarrow> ro_mode (ld_opts d) = Loop_off \<or> kill"

definition ingest :: "(string \<Rightarrow> string) \<Rightarrow> turn_snapshot \<Rightarrow> loop_detector \<Rightarrow> loop_detector" where
  "ingest sha256 turn d =
     (let d1 = (if ts_tool_calls turn \<noteq> []
                then d\<lparr>ld_tool_calls := keep_last
                       (ld_tool_calls d @ map (to_tool_call_record sha256) (ts_tool_calls turn))
                       (ro_identical (ld_opts d))\<rparr>
                else d)
      in if ts_text turn \<noteq> []
         then d1\<lparr>ld_content_chunks := keep_last
                (ld_content_chunks d1
                 @ map (to_content_chunk sha256) (chunks_of (ro_chunk (ld_opts d1)) (ts_text turn)))
                (ld_content_window d1)\<rparr>
         else d1)"

fun evict_oldest :: "nat \<Rightarrow> 'a list \<Rightarrow> 'a list" where
  "evict_oldest limit [] = []"
| "evict_oldest limit (x # xs) =
     (if length (x # xs) > limit then evict_oldest limit xs else x # xs)"

definition remember_result :: "string \<Rightarrow> string list \<Rightarrow> string list" where
  "remember_result h seen = evict_oldest seen_results_limit (set_add h (removeAll h seen))"

definition side_effect_success :: "resolved_options \<Rightarrow> observed_result \<Rightarrow> bool" where
  "side_effect_success opts r \<longleftrightarrow> or_name r \<in> set (ro_side_effects opts) \<and> \<not> or_error r"

definition observe_one ::
  "(string \<Rightarrow> string) \<Rightarrow> resolved_options \<Rightarrow> observed_result \<Rightarrow> string list
   \<Rightarrow> observed_call \<times> string list" where
  "observe_one sha256 opts r seen =
     (let h = hash_result sha256 r;
          already_seen = (h \<in> set seen)
      in (\<lparr>oc_name = or_name r, oc_input_hash = call_hash sha256 (or_name r) (or_input r),
           oc_preview = preview (canonical_json (or_input r)),
           oc_error_preview = (if or_error r then Some (preview (collapse_whitespace (or_text r)))
             else None),
           oc_productive = (trim (or_text r) \<noteq> [] \<and> \<not> already_seen
             \<or> side_effect_success opts r)\<rparr>,
          remember_result h seen))"

fun observe_all ::
  "(string \<Rightarrow> string) \<Rightarrow> resolved_options \<Rightarrow> observed_result list \<Rightarrow> string list
   \<Rightarrow> observed_call list \<times> string list" where
  "observe_all sha256 opts [] seen = ([], seen)"
| "observe_all sha256 opts (r # rs) seen =
     (let (c, seen1) = observe_one sha256 opts r seen;
          (cs, seen2) = observe_all sha256 opts rs seen1
      in (c # cs, seen2))"

definition observe_results ::
  "(string \<Rightarrow> string) \<Rightarrow> bool \<Rightarrow> observed_result list \<Rightarrow> loop_detector \<Rightarrow> loop_detector" where
  "observe_results sha256 kill results d =
     (if ld_disabled kill d \<or> results = [] then d
      else
        let (observed, seen) = observe_all sha256 (ld_opts d) results (ld_seen_results d);
            progress = list_ex oc_productive observed;
            d1 = d\<lparr>ld_seen_results := seen, ld_last_progress := progress\<rparr>;
            d2 = (if progress then d1\<lparr>ld_tool_calls := [], ld_content_chunks := []\<rparr> else d1)
        in d2\<lparr>ld_recent_calls := keep_last (ld_recent_calls d2 @ observed) (ro_window (ld_opts d2))\<rparr>)"

text \<open>The run of equal values at the end, counted from the end.\<close>

definition trailing_run :: "string list \<Rightarrow> (string \<times> nat) option" where
  "trailing_run values =
     (if values = [] then None
      else Some (last values, length (takeWhile (\<lambda>v. v = last values) (rev values))))"

definition bump_count :: "(string \<times> nat) list \<Rightarrow> string \<Rightarrow> (string \<times> nat) list" where
  "bump_count counts v = AList.update v (value_or (map_of counts v) 0 + 1) counts"

definition count_most_frequent :: "string list \<Rightarrow> string \<times> nat" where
  "count_most_frequent values =
     foldl (\<lambda>best p. if snd p > snd best then p else best) ([], 0) (foldl bump_count [] values)"

definition describe_identical :: "tool_call_record option \<Rightarrow> nat \<Rightarrow> string" where
  "describe_identical call n =
     ''Your last '' @ nat_to_string n @ '' tool calls were the same call repeated '' @ em_dash @ '' ''
     @ (case call of None \<Rightarrow> ''the same tool call''
        | Some c \<Rightarrow> back_quote @ tr_name c @ '' '' @ tr_preview c @ back_quote) @ ''.''"

definition group_call :: "(string \<times> call_group) list \<Rightarrow> observed_call \<Rightarrow> (string \<times> call_group) list" where
  "group_call groups c =
     (let label = oc_name c @ '' '' @ oc_preview c;
          is_err = (if oc_error_preview c \<noteq> None then 1 else 0)
      in case map_of groups label of
           None \<Rightarrow> AList.update label \<lparr>cg_label = label, cg_count = 1, cg_errors = is_err,
                     cg_error_preview = oc_error_preview c\<rparr> groups
         | Some g \<Rightarrow> AList.update label \<lparr>cg_label = label, cg_count = cg_count g + 1,
                     cg_errors = cg_errors g + is_err,
                     cg_error_preview = (case cg_error_preview g of Some e \<Rightarrow> Some e
                       | None \<Rightarrow> oc_error_preview c)\<rparr> groups)"

definition group_calls :: "observed_call list \<Rightarrow> call_group list" where
  "group_calls calls = map snd (foldl group_call [] calls)"

definition render_group :: "call_group \<Rightarrow> string" where
  "render_group g =
     (case cg_error_preview g of
        Some e \<Rightarrow>
          if cg_errors g = cg_count g
          then back_quote @ cg_label g @ back_quote @ '' (same error '' @ nat_to_string (cg_count g)
            @ times_sign @ '': '' @ quote_mark @ e @ quote_mark @ '')''
          else back_quote @ cg_label g @ back_quote @ '' (result already seen, ''
            @ nat_to_string (cg_count g) @ times_sign @ '')''
      | None \<Rightarrow> back_quote @ cg_label g @ back_quote @ '' (result already seen, ''
            @ nat_to_string (cg_count g) @ times_sign @ '')'')"

definition describe_no_progress :: "observed_call list \<Rightarrow> nat \<Rightarrow> string" where
  "describe_no_progress calls n =
     ''Your last '' @ nat_to_string n @ '' tool calls returned nothing new '' @ em_dash @ '' ''
     @ join_strings '', '' (map render_group (group_calls calls)) @ ''.''"

definition describe_content_loop :: "content_chunk option \<Rightarrow> nat \<Rightarrow> string" where
  "describe_content_loop chunk n =
     ''The same block of your reply appeared '' @ nat_to_string n @ times_sign
     @ '' in your recent output''
     @ (case chunk of None \<Rightarrow> []
        | Some c \<Rightarrow> '' '' @ em_dash @ '' '' @ quote_mark @ cc_preview c @ quote_mark) @ ''.''"

type_synonym loop_check = "loop_detector \<times> loop_detection option"

definition check_identical :: "loop_detector \<Rightarrow> loop_check" where
  "check_identical d =
     (case trailing_run (map tr_hash (ld_tool_calls d)) of
        None \<Rightarrow> (d, None)
      | Some (v, n) \<Rightarrow>
          if n < ro_identical (ld_opts d) then (d, None)
          else (d\<lparr>ld_tool_calls := []\<rparr>,
                Some \<lparr>det_name = Consecutive_identical, det_hash = v, det_count = n,
                  det_reason = describe_identical
                    (if ld_tool_calls d = [] then None else Some (last (ld_tool_calls d))) n,
                  det_window = None\<rparr>))"

definition check_no_progress :: "(string \<Rightarrow> string) \<Rightarrow> loop_detector \<Rightarrow> loop_check" where
  "check_no_progress sha256 d =
     (let window = ro_window (ld_opts d);
          calls = ld_recent_calls d
      in if length calls < window \<or> list_ex oc_productive calls then (d, None)
         else (d\<lparr>ld_recent_calls := []\<rparr>,
               Some \<lparr>det_name = No_progress,
                 det_hash = sha256 (join_strings ''|'' (map oc_input_hash calls)),
                 det_count = window, det_reason = describe_no_progress calls window,
                 det_window = Some (window, window)\<rparr>))"

definition check_content_loop :: "loop_detector \<Rightarrow> loop_check" where
  "check_content_loop d =
     (let (v, n) = count_most_frequent (map cc_hash (ld_content_chunks d))
      in if n < ro_repeat (ld_opts d) then (d, None)
         else (d\<lparr>ld_content_chunks := []\<rparr>,
               Some \<lparr>det_name = Content_loop, det_hash = v, det_count = n,
                 det_reason = describe_content_loop (find (\<lambda>c. cc_hash c = v) (ld_content_chunks d)) n,
                 det_window = None\<rparr>))"

text \<open>\<open>first ?? second\<close>: the second check runs only when the first is silent.\<close>

definition or_else_check :: "loop_check \<Rightarrow> (loop_detector \<Rightarrow> loop_check) \<Rightarrow> loop_check" where
  "or_else_check r f = (case snd r of Some _ \<Rightarrow> r | None \<Rightarrow> f (fst r))"

definition add_and_check ::
  "(string \<Rightarrow> string) \<Rightarrow> bool \<Rightarrow> turn_snapshot \<Rightarrow> loop_detector \<Rightarrow> loop_check" where
  "add_and_check sha256 kill turn d =
     (if ld_disabled kill d then (d, None)
      else or_else_check
             (or_else_check (check_identical (ingest sha256 turn d)) (check_no_progress sha256))
             check_content_loop)"

datatype ld_event = Ld_check bool turn_snapshot | Ld_observe bool "observed_result list"

fun ld_step :: "(string \<Rightarrow> string) \<Rightarrow> loop_detector \<Rightarrow> ld_event \<Rightarrow> loop_detector" where
  "ld_step sha256 d (Ld_check kill turn) = fst (add_and_check sha256 kill turn d)"
| "ld_step sha256 d (Ld_observe kill results) = observe_results sha256 kill results d"

section \<open>The helpers\<close>

lemma chunk_loop_text:
  "0 < n \<Longrightarrow> chunk_loop n text i chunks = Some (chunks @ chunks_of n (drop i text))"
proof (induction "length text - i" arbitrary: i chunks rule: less_induct)
  case less
  show ?case
  proof (cases "i < length text")
    case True
    have "chunk_loop n text (i + n) (chunks @ [take n (drop i text)])
        = Some ((chunks @ [take n (drop i text)]) @ chunks_of n (drop (i + n) text))"
      using True less.prems by (intro less.hyps) auto
    then show ?thesis
      using True less.prems
      by (subst chunk_loop.simps, subst chunks_of.simps) (simp add: add.commute)
  next
    case False
    then show ?thesis
      by (subst chunk_loop.simps) (simp add: chunks_of.simps)
  qed
qed

lemma positive_int_pos: "0 < d \<Longrightarrow> 0 < positive_int v d"
  by (auto simp: positive_int_def number_to_nat_def le_floor_iff split: option.split js_number.splits
      elim!: is_finite_number.elims)

lemma at_least_one_ge: "1 \<le> d \<Longrightarrow> 1 \<le> at_least_one v d"
  by (auto simp: at_least_one_def split: option.split elim!: is_finite_number.elims)

lemma resolve_options_pos:
  "0 < ro_identical (resolve_options o')" "0 < ro_window (resolve_options o')"
  "0 < ro_chunk (resolve_options o')" "0 < ro_repeat (resolve_options o')"
  "0 < ro_strikes (resolve_options o')" "1 \<le> ro_multiplier (resolve_options o')"
  by (simp_all add: resolve_options_def default_loop_options_def positive_int_pos at_least_one_ge)

lemma evict_oldest_eq: "evict_oldest n xs = keep_last xs n"
  by (induction xs) (auto simp: keep_last_def Suc_diff_le)

lemma remember_result_props:
  "distinct seen \<Longrightarrow> distinct (remember_result h seen)"
  "length (remember_result h seen) \<le> seen_results_limit"
  "set (remember_result h seen) \<subseteq> insert h (set seen)"
  using set_keep_last[of "set_add h (removeAll h seen)" seen_results_limit]
  by (auto simp: remember_result_def evict_oldest_eq keep_last_eq_drop distinct_removeAll)

lemma remember_result_head: "h \<in> set (remember_result h seen)"
  by (simp add: remember_result_def evict_oldest_eq keep_last_eq_drop set_add_def)

lemma suffix_keep_last: "suffix (keep_last xs n) xs"
  by (simp add: keep_last_eq_drop suffix_drop)

section \<open>The invariant\<close>

definition ld_inv :: "loop_detector \<Rightarrow> bool" where
  "ld_inv d \<longleftrightarrow>
     length (ld_tool_calls d) \<le> ro_identical (ld_opts d)
     \<and> length (ld_content_chunks d) \<le> ld_content_window d
     \<and> length (ld_recent_calls d) \<le> ro_window (ld_opts d)
     \<and> distinct (ld_seen_results d) \<and> length (ld_seen_results d) \<le> seen_results_limit
     \<and> 0 < ro_identical (ld_opts d) \<and> 0 < ro_window (ld_opts d) \<and> 0 < ro_chunk (ld_opts d)
     \<and> ro_repeat (ld_opts d) \<le> ld_content_window d"

definition ld_le :: "loop_detector \<Rightarrow> loop_detector \<Rightarrow> bool" where
  "ld_le d d' \<longleftrightarrow> ld_opts d' = ld_opts d \<and> ld_content_window d' = ld_content_window d"

lemma ld_new_inv: "ld_inv (ld_new o')"
proof -
  let ?r = "resolve_options o'"
  have "of_nat (ro_repeat ?r) * 1 \<le> of_nat (ro_repeat ?r) * ro_multiplier ?r"
    using resolve_options_pos(6) by (intro mult_left_mono) simp_all
  then have "ro_repeat ?r \<le> nat \<lceil>of_nat (ro_repeat ?r) * ro_multiplier ?r\<rceil>"
    by (simp add: le_nat_iff le_ceiling_iff less_le_trans)
  then show ?thesis
    using resolve_options_pos by (simp add: ld_inv_def ld_new_def Let_def)
qed

lemma ingest_fields:
  "ld_opts (ingest sha256 t d) = ld_opts d" "ld_content_window (ingest sha256 t d) = ld_content_window d"
  "ld_recent_calls (ingest sha256 t d) = ld_recent_calls d"
  "ld_seen_results (ingest sha256 t d) = ld_seen_results d"
  "ts_tool_calls t \<noteq> [] \<Longrightarrow> ld_tool_calls (ingest sha256 t d) = keep_last
     (ld_tool_calls d @ map (to_tool_call_record sha256) (ts_tool_calls t)) (ro_identical (ld_opts d))"
  "ts_tool_calls t = [] \<Longrightarrow> ld_tool_calls (ingest sha256 t d) = ld_tool_calls d"
  by (simp_all add: ingest_def Let_def)

lemma ingest_inv: "ld_inv d \<Longrightarrow> ld_inv (ingest sha256 t d)"
  by (simp add: ingest_def Let_def ld_inv_def)

text \<open>A check clears the history of the detector that fired and touches nothing else.\<close>

lemma check_identical_cases:
  obtains "check_identical d = (d, None)"
    "\<And>v n. trailing_run (map tr_hash (ld_tool_calls d)) = Some (v, n) \<Longrightarrow> n < ro_identical (ld_opts d)"
  | det v n where "check_identical d = (d\<lparr>ld_tool_calls := []\<rparr>, Some det)"
    "det_name det = Consecutive_identical" "det_hash det = v" "det_count det = n"
    "trailing_run (map tr_hash (ld_tool_calls d)) = Some (v, n)" "ro_identical (ld_opts d) \<le> n"
proof (cases "trailing_run (map tr_hash (ld_tool_calls d))")
  case None
  then show ?thesis by (intro that(1)) (simp_all add: check_identical_def)
next
  case (Some p)
  obtain v n where p: "p = (v, n)" by (cases p)
  show ?thesis
  proof (cases "n < ro_identical (ld_opts d)")
    case True
    with Some p show ?thesis by (intro that(1)) (simp_all add: check_identical_def)
  next
    case False
    with Some p show ?thesis
      by (intro that(2)[of _ v n], simp add: check_identical_def) (simp_all add: not_less)
  qed
qed

lemma check_no_progress_cases:
  obtains "check_no_progress sha256 d = (d, None)"
  | det where "check_no_progress sha256 d = (d\<lparr>ld_recent_calls := []\<rparr>, Some det)"
    "det_name det = No_progress" "det_count det = ro_window (ld_opts d)"
    "ro_window (ld_opts d) \<le> length (ld_recent_calls d)"
    "\<forall>c \<in> set (ld_recent_calls d). \<not> oc_productive c"
proof (cases "length (ld_recent_calls d) < ro_window (ld_opts d)
    \<or> list_ex oc_productive (ld_recent_calls d)")
  case True
  then show ?thesis by (intro that(1)) (simp add: check_no_progress_def)
next
  case False
  then show ?thesis
    by (intro that(2)) (auto simp: check_no_progress_def Let_def list_ex_iff)
qed

lemma check_content_loop_cases:
  obtains "check_content_loop d = (d, None)"
  | det where "check_content_loop d = (d\<lparr>ld_content_chunks := []\<rparr>, Some det)"
    "det_name det = Content_loop"
    "count_most_frequent (map cc_hash (ld_content_chunks d)) = (det_hash det, det_count det)"
    "ro_repeat (ld_opts d) \<le> det_count det"
proof (cases "count_most_frequent (map cc_hash (ld_content_chunks d))")
  case (Pair v n)
  then show ?thesis
    by (cases "n < ro_repeat (ld_opts d)") (auto simp: check_content_loop_def intro: that)
qed

lemma or_else_check_cases:
  obtains "or_else_check r f = r" "snd r \<noteq> None" | "or_else_check r f = f (fst r)" "snd r = None"
  by (cases "snd r") (simp_all add: or_else_check_def)

text \<open>What a check does to the state after the ingestion.\<close>

lemma add_and_check_cases:
  assumes "\<not> ld_disabled kill d"
  obtains (silent) "add_and_check sha256 kill t d = (ingest sha256 t d, None)"
    "check_identical (ingest sha256 t d) = (ingest sha256 t d, None)"
  | (identical) det where
    "add_and_check sha256 kill t d = ((ingest sha256 t d)\<lparr>ld_tool_calls := []\<rparr>, Some det)"
    "check_identical (ingest sha256 t d) = ((ingest sha256 t d)\<lparr>ld_tool_calls := []\<rparr>, Some det)"
    "det_name det = Consecutive_identical"
  | (no_progress) det where
    "add_and_check sha256 kill t d = ((ingest sha256 t d)\<lparr>ld_recent_calls := []\<rparr>, Some det)"
    "check_no_progress sha256 (ingest sha256 t d)
      = ((ingest sha256 t d)\<lparr>ld_recent_calls := []\<rparr>, Some det)"
    "det_name det = No_progress"
  | (content) det where
    "add_and_check sha256 kill t d = ((ingest sha256 t d)\<lparr>ld_content_chunks := []\<rparr>, Some det)"
    "check_content_loop (ingest sha256 t d)
      = ((ingest sha256 t d)\<lparr>ld_content_chunks := []\<rparr>, Some det)"
    "det_name det = Content_loop"
proof -
  let ?i = "ingest sha256 t d"
  have eq: "add_and_check sha256 kill t d = or_else_check
      (or_else_check (check_identical ?i) (check_no_progress sha256)) check_content_loop"
    using assms by (simp add: add_and_check_def)
  show ?thesis
  proof (cases rule: check_identical_cases[of ?i])
    case 2
    then show ?thesis using eq by (intro identical) (simp_all add: or_else_check_def)
  next
    case 1
    show ?thesis
    proof (cases rule: check_no_progress_cases[of sha256 ?i])
      case 2
      then show ?thesis using eq 1(1) by (intro no_progress) (simp_all add: or_else_check_def)
    next
      case np: 1
      show ?thesis
      proof (cases rule: check_content_loop_cases[of ?i])
        case c: 1
        then show ?thesis using eq 1(1) np by (intro silent) (simp_all add: or_else_check_def)
      next
        case 2
        then show ?thesis using eq 1(1) np by (intro content) (simp_all add: or_else_check_def)
      qed
    qed
  qed
qed

lemma add_and_check_disabled: "ld_disabled kill d \<Longrightarrow> add_and_check sha256 kill t d = (d, None)"
  by (simp add: add_and_check_def)

lemma clear_inv:
  "ld_inv d \<Longrightarrow> ld_inv (d\<lparr>ld_tool_calls := []\<rparr>)" "ld_inv d \<Longrightarrow> ld_inv (d\<lparr>ld_recent_calls := []\<rparr>)"
  "ld_inv d \<Longrightarrow> ld_inv (d\<lparr>ld_content_chunks := []\<rparr>)"
  by (simp_all add: ld_inv_def)

lemma add_and_check_inv: "ld_inv d \<Longrightarrow> ld_inv (fst (add_and_check sha256 kill t d))"
proof (cases "ld_disabled kill d")
  case True
  then show "ld_inv d \<Longrightarrow> ?thesis" by (simp add: add_and_check_disabled)
next
  case False
  assume "ld_inv d"
  then have "ld_inv (ingest sha256 t d)" by (rule ingest_inv)
  then show ?thesis
    by (cases rule: add_and_check_cases[OF False, of sha256 t]) (simp_all add: clear_inv)
qed

lemma observe_all_seen:
  assumes "distinct seen" "length seen \<le> seen_results_limit"
  shows "distinct (snd (observe_all sha256 o' rs seen))
    \<and> length (snd (observe_all sha256 o' rs seen)) \<le> seen_results_limit"
  using assms
proof (induction rs arbitrary: seen)
  case (Cons r rs)
  let ?s = "snd (observe_one sha256 o' r seen)"
  have "distinct ?s" "length ?s \<le> seen_results_limit"
    using Cons.prems remember_result_props
    by (simp_all add: observe_one_def Let_def)
  from Cons.IH[OF this] show ?case
    by (simp add: case_prod_beta Let_def)
qed simp

lemma observe_results_inv: "ld_inv d \<Longrightarrow> ld_inv (observe_results sha256 kill rs d)"
  using observe_all_seen[of "ld_seen_results d" sha256 "ld_opts d" rs]
  by (simp add: ld_inv_def observe_results_def case_prod_beta Let_def)

lemma ld_step_inv: "ld_inv d \<Longrightarrow> ld_inv (ld_step sha256 d e)"
  by (cases e) (simp_all add: add_and_check_inv observe_results_inv)

lemma add_and_check_le: "ld_le d (fst (add_and_check sha256 kill t d))"
proof (cases "ld_disabled kill d")
  case True
  then show ?thesis by (simp add: add_and_check_disabled ld_le_def)
next
  case False
  show ?thesis
    by (cases rule: add_and_check_cases[OF False, of sha256 t]) (simp_all add: ld_le_def ingest_fields)
qed

lemma ld_step_le: "ld_le d (ld_step sha256 d e)"
proof (cases e)
  case (Ld_observe k rs)
  then show ?thesis by (simp add: ld_le_def observe_results_def case_prod_beta Let_def)
qed (simp add: add_and_check_le)

interpretation ld: monotone_machine "ld_new o'" "ld_step sha256" ld_inv ld_le for o' sha256
  by unfold_locales (simp_all add: ld_new_inv ld_step_inv ld_step_le, simp_all add: ld_le_def)

section \<open>The calls a session observed\<close>

text \<open>The results the guard took in, in order, and the calls it judged them to be.\<close>

fun ld_results :: "bool \<Rightarrow> ld_event list \<Rightarrow> observed_result list" where
  "ld_results off [] = []"
| "ld_results off (Ld_check kill turn # es) = ld_results off es"
| "ld_results off (Ld_observe kill rs # es) = (if off \<or> kill then [] else rs) @ ld_results off es"

lemma ld_results_append: "ld_results off (es @ fs) = ld_results off es @ ld_results off fs"
  by (induction off es rule: ld_results.induct) simp_all

lemma observe_all_append:
  "observe_all sha256 o' (rs @ rs') seen =
     (let (cs, seen1) = observe_all sha256 o' rs seen;
          (cs', seen2) = observe_all sha256 o' rs' seen1
      in (cs @ cs', seen2))"
  by (induction rs arbitrary: seen) (simp_all add: case_prod_beta Let_def)

lemma length_observe_all [simp]: "length (fst (observe_all sha256 o' rs seen)) = length rs"
  by (induction rs arbitrary: seen) (simp_all add: case_prod_beta Let_def)

abbreviation ld_mode_off :: "loop_detector \<Rightarrow> bool" where
  "ld_mode_off d \<equiv> ro_mode (ld_opts d) = Loop_off"

definition ld_history :: "(string \<Rightarrow> string) \<Rightarrow> observed_result list \<Rightarrow> loop_detector \<Rightarrow> bool" where
  "ld_history sha256 rs d \<longleftrightarrow>
     ld_seen_results d = snd (observe_all sha256 (ld_opts d) rs [])
     \<and> suffix (ld_recent_calls d) (fst (observe_all sha256 (ld_opts d) rs []))"

lemma add_and_check_history:
  "ld_history sha256 rs d \<Longrightarrow> ld_history sha256 rs (fst (add_and_check sha256 kill t d))"
proof (cases "ld_disabled kill d")
  case False
  assume "ld_history sha256 rs d"
  then show ?thesis
    by (cases rule: add_and_check_cases[OF False, of sha256 t])
      (simp_all add: ld_history_def ingest_fields)
qed (simp add: add_and_check_disabled)

lemma observe_results_history:
  assumes "ld_history sha256 rs d"
  shows "ld_history sha256 (rs @ (if ld_mode_off d \<or> kill then [] else rs'))
    (observe_results sha256 kill rs' d)"
proof (cases "ld_disabled kill d \<or> rs' = []")
  case True
  then show ?thesis using assms by (auto simp: observe_results_def ld_disabled_def)
next
  case False
  let ?cs = "fst (observe_all sha256 (ld_opts d) rs' (ld_seen_results d))"
  have recent: "ld_recent_calls (observe_results sha256 kill rs' d)
      = keep_last (ld_recent_calls d @ ?cs) (ro_window (ld_opts d))"
    and seen: "ld_seen_results (observe_results sha256 kill rs' d)
      = snd (observe_all sha256 (ld_opts d) rs' (ld_seen_results d))"
    and opts: "ld_opts (observe_results sha256 kill rs' d) = ld_opts d"
    using False by (simp_all add: observe_results_def case_prod_beta Let_def)
  have "suffix (ld_recent_calls d @ ?cs) (fst (observe_all sha256 (ld_opts d) rs []) @ ?cs)"
    using assms by (auto simp: ld_history_def suffix_def)
  then have "suffix (keep_last (ld_recent_calls d @ ?cs) (ro_window (ld_opts d)))
      (fst (observe_all sha256 (ld_opts d) rs []) @ ?cs)"
    using suffix_keep_last suffix_order.trans by blast
  moreover have "(if ld_mode_off d \<or> kill then [] else rs') = rs'"
    using False by (simp add: ld_disabled_def)
  moreover have "ld_seen_results d = snd (observe_all sha256 (ld_opts d) rs [])"
    using assms by (simp add: ld_history_def)
  ultimately show ?thesis
    unfolding ld_history_def recent seen opts observe_all_append case_prod_beta Let_def by simp
qed

lemma ld_history_run:
  "ld_history sha256 (ld_results (ro_mode (resolve_options o') = Loop_off) es)
     (foldl (ld_step sha256) (ld_new o') es)"
proof (induction es rule: rev_induct)
  case Nil
  show ?case by (simp add: ld_history_def ld_new_def Let_def)
next
  case (snoc e es)
  let ?d = "foldl (ld_step sha256) (ld_new o') es"
  have "ld_le (ld_new o') ?d" by (rule ld.run_le[OF ld_new_inv])
  then have opts: "ld_opts ?d = resolve_options o'" by (simp add: ld_le_def ld_new_def Let_def)
  show ?case
  proof (cases e)
    case (Ld_check k t)
    then show ?thesis using add_and_check_history[OF snoc] by (simp add: ld_results_append)
  next
    case (Ld_observe k rs)
    then show ?thesis
      using observe_results_history[OF snoc, of k rs] opts by (simp add: ld_results_append)
  qed
qed

text \<open>A call is judged unproductive only for a reason.\<close>

lemma unproductive_call:
  assumes "i < length rs" "\<not> oc_productive (fst (observe_all sha256 o' rs seen) ! i)"
  shows "\<not> side_effect_success o' (rs ! i)
    \<and> (trim (or_text (rs ! i)) = [] \<or> hash_result sha256 (rs ! i) \<in> set seen
       \<or> (\<exists>j<i. hash_result sha256 (rs ! j) = hash_result sha256 (rs ! i)))"
  using assms
proof (induction rs arbitrary: seen i)
  case (Cons r rs)
  show ?case
  proof (cases i)
    case 0
    then show ?thesis
      using Cons.prems by (simp add: observe_one_def Let_def case_prod_beta)
  next
    case (Suc k)
    let ?seen = "remember_result (hash_result sha256 r) seen"
    have "k < length rs" "\<not> oc_productive (fst (observe_all sha256 o' rs ?seen) ! k)"
      using Cons.prems Suc by (simp_all add: observe_one_def Let_def case_prod_beta)
    from Cons.IH[OF this] have ih: "\<not> side_effect_success o' (rs ! k)"
      "trim (or_text (rs ! k)) = [] \<or> hash_result sha256 (rs ! k) \<in> set ?seen
        \<or> (\<exists>j<k. hash_result sha256 (rs ! j) = hash_result sha256 (rs ! k))"
      by blast+
    have "hash_result sha256 (rs ! k) \<in> set ?seen
        \<Longrightarrow> hash_result sha256 r = hash_result sha256 (rs ! k) \<or> hash_result sha256 (rs ! k) \<in> set seen"
      using remember_result_props(3)[of "hash_result sha256 r" seen] by auto
    then consider "trim (or_text (rs ! k)) = []" | "hash_result sha256 (rs ! k) \<in> set seen"
      | "hash_result sha256 ((r # rs) ! 0) = hash_result sha256 (rs ! k)"
      | j where "j < k" "hash_result sha256 (rs ! j) = hash_result sha256 (rs ! k)"
      using ih(2) by auto
    then show ?thesis
    proof cases
      case 1
      then show ?thesis using ih(1) unfolding Suc nth_Cons_Suc by blast
    next
      case 2
      then show ?thesis using ih(1) unfolding Suc nth_Cons_Suc by blast
    next
      case 3
      then show ?thesis using ih(1) unfolding Suc nth_Cons_Suc
        by (intro conjI disjI2 exI[of _ 0]) simp_all
    next
      case (4 j)
      then show ?thesis using ih(1) unfolding Suc nth_Cons_Suc
        by (intro conjI disjI2 exI[of _ "Suc j"]) simp_all
    qed
  qed
qed simp

lemma takeWhile_replicate_append:
  "takeWhile (\<lambda>v. v = h) (replicate m h @ ys) = replicate m h @ takeWhile (\<lambda>v. v = h) ys"
  by (induction m) simp_all

lemma trailing_run_replicate:
  assumes "suffix (replicate m h) xs" "trailing_run xs = Some (v, n)" "0 < m"
  shows "m \<le> n \<and> v = h"
proof -
  obtain ys where xs: "xs = ys @ replicate m h" using assms(1) by (auto simp: suffix_def)
  have ne: "xs \<noteq> []" using xs assms(3) by auto
  have l: "last xs = h" using xs assms(3) by (cases m) (simp_all add: last_append)
  have "v = h" "n = length (takeWhile (\<lambda>v. v = h) (rev xs))"
    using assms(2) ne l unfolding trailing_run_def by auto
  moreover have "takeWhile (\<lambda>v. v = h) (rev xs) = replicate m h @ takeWhile (\<lambda>v. v = h) (rev ys)"
    unfolding xs rev_append rev_replicate by (rule takeWhile_replicate_append)
  ultimately show ?thesis by simp
qed

lemma suffix_replicate_keep_last:
  assumes "suffix (replicate m h) xs" "m \<le> n"
  shows "suffix (replicate m h) (keep_last xs n)"
  using assms by (auto simp: keep_last_eq_drop suffix_def)

section \<open>Counting\<close>

lemma distinct_bump_counts: "distinct (map fst (foldl bump_count [] vs))"
  by (induction vs rule: rev_induct) (simp_all add: bump_count_def distinct_update)

lemma bump_counts:
  "map_of (foldl bump_count [] vs) v = (if v \<in> set vs then Some (count_list vs v) else None)"
proof (induction vs arbitrary: v rule: rev_induct)
  case (snoc w vs)
  have "map_of (foldl bump_count [] (vs @ [w])) v = ((map_of (foldl bump_count [] vs))
      (w \<mapsto> value_or (map_of (foldl bump_count [] vs) w) 0 + 1)) v"
    by (simp add: bump_count_def update_conv)
  then show ?case
    by (simp add: snoc value_or_def count_notin)
qed simp

lemma best_of:
  fixes ps :: "(string \<times> nat) list"
  shows "foldl (\<lambda>best p. if snd p > snd best then p else best) b ps = p
   \<Longrightarrow> p \<in> insert b (set ps) \<and> snd b \<le> snd p \<and> (\<forall>q \<in> set ps. snd q \<le> snd p)"
proof (induction ps arbitrary: b)
  case (Cons a ps)
  show ?case
  proof (cases "snd a > snd b")
    case True
    then show ?thesis using Cons.IH[of a] Cons.prems by auto
  next
    case False
    then show ?thesis using Cons.IH[of b] Cons.prems by auto
  qed
qed simp

lemma count_most_frequent_correct:
  assumes "count_most_frequent vs = (v, n)"
  shows "(vs = [] \<and> n = 0 \<or> n = count_list vs v \<and> v \<in> set vs) \<and> (\<forall>w. count_list vs w \<le> n)"
proof -
  let ?m = "foldl bump_count [] vs"
  have d: "distinct (map fst ?m)" by (rule distinct_bump_counts)
  have b: "(v, n) \<in> insert ([], 0) (set ?m)" "\<forall>q \<in> set ?m. snd q \<le> n"
    using best_of[OF assms[unfolded count_most_frequent_def]] by auto
  have mem: "(w, k) \<in> set ?m \<longleftrightarrow> w \<in> set vs \<and> k = count_list vs w" for w k
    using bump_counts[of vs w] by (auto simp flip: map_of_eq_Some_iff[OF d])
  have max: "count_list vs w \<le> n" for w
    using b(2) mem[of w "count_list vs w"] by (cases "w \<in> set vs") (auto simp: count_notin)
  show ?thesis
  proof (cases "(v, n) \<in> set ?m")
    case True
    then show ?thesis using mem max by auto
  next
    case False
    then have "n = 0" using b(1) by auto
    then have "vs = []" using max[of "hd vs"] by (cases vs) auto
    then show ?thesis using \<open>n = 0\<close> by simp
  qed
qed

section \<open>Properties\<close>

lemma suffix_eq_drop: "suffix xs ys \<Longrightarrow> xs = drop (length ys - length xs) ys"
  by (auto simp: suffix_def)

text \<open>A no-progress verdict is sound. When \<open>addAndCheck\<close> reports no progress, the session has
  observed at least \<open>noProgressWindow\<close> results, and each of the last that many was not a successful
  side effect, and was blank or had the hash of a result the session had observed before it.\<close>
theorem loop_no_progress_sound:
  assumes d: "d = foldl (ld_step sha256) (ld_new o') es"
    and det: "snd (add_and_check sha256 kill turn d) = Some det" "det_name det = No_progress"
    and rs: "rs = ld_results (ld_mode_off d) es"
    and i: "length rs - det_count det \<le> i" "i < length rs"
  shows "det_count det = ro_window (resolve_options o') \<and> det_count det \<le> length rs
    \<and> \<not> side_effect_success (resolve_options o') (rs ! i)
    \<and> (trim (or_text (rs ! i)) = []
       \<or> (\<exists>j<i. hash_result sha256 (rs ! j) = hash_result sha256 (rs ! i)))"
proof -
  have "ld_le (ld_new o') d" unfolding d by (rule ld.run_le[OF ld_new_inv])
  then have opts: "ld_opts d = resolve_options o'" by (simp add: ld_le_def ld_new_def Let_def)
  have hist: "ld_history sha256 rs d"
    using ld_history_run[of sha256 o' es]
    unfolding rs opts unfolding d by simp
  have inv: "ld_inv (ingest sha256 turn d)"
    unfolding d by (intro ingest_inv ld.inv_reachable)
  have en: "\<not> ld_disabled kill d"
    using det(1) by (auto simp: add_and_check_def)
  let ?cs = "fst (observe_all sha256 (resolve_options o') rs [])"
  obtain calls where calls: "calls = ld_recent_calls (ingest sha256 turn d)"
    "det_count det = ro_window (resolve_options o')"
    "ro_window (resolve_options o') \<le> length calls" "\<forall>c \<in> set calls. \<not> oc_productive c"
  proof (cases rule: add_and_check_cases[OF en, of sha256 turn])
    case (3 det')
    with det have "check_no_progress sha256 (ingest sha256 turn d)
        = ((ingest sha256 turn d)\<lparr>ld_recent_calls := []\<rparr>, Some det)" by simp
    then show ?thesis
      by (cases rule: check_no_progress_cases[of sha256 "ingest sha256 turn d"])
        (auto simp: ingest_fields opts intro: that)
  qed (use det in auto)
  have len: "length calls = det_count det"
    using inv calls(1-3) by (simp add: ld_inv_def ingest_fields opts)
  have suf: "suffix calls ?cs"
    using hist calls(1) by (simp add: ld_history_def opts ingest_fields)
  then have eq: "calls = drop (length rs - det_count det) ?cs" "det_count det \<le> length rs"
    using suffix_eq_drop[OF suf] suffix_length_le[OF suf] len by simp_all
  have "?cs ! i = calls ! (i - (length rs - det_count det))"
    "i - (length rs - det_count det) < length calls"
    unfolding eq(1) using i eq(2) by simp_all
  then have "\<not> oc_productive (?cs ! i)" using calls(4) by simp
  from unproductive_call[OF i(2) this] show ?thesis
    using calls(2) eq(2) by simp
qed

definition constant_result :: observed_result where
  "constant_result = \<lparr>or_name = ''Read'', or_input = None, or_text = ''same'', or_error = False\<rparr>"

definition window_one :: loop_options where
  "window_one = no_loop_options\<lparr>lo_no_progress_window := Some (Num 1)\<rparr>"

theorem loop_no_progress_sound_witness:
  "let d = foldl (ld_step (\<lambda>s. s)) (ld_new window_one)
        [Ld_observe False [constant_result], Ld_observe False [constant_result]];
     r = snd (add_and_check (\<lambda>s. s) False \<lparr>ts_tool_calls = [], ts_text = []\<rparr> d)
   in \<exists>det. r = Some det \<and> det_count det = 1
      \<and> (\<exists>j<1. hash_result (\<lambda>s. s) ([constant_result, constant_result] ! j)
            = hash_result (\<lambda>s. s) constant_result)"
proof -
  define d where "d = foldl (ld_step (\<lambda>s. s)) (ld_new window_one)
        [Ld_observe False [constant_result], Ld_observe False [constant_result]]"
  define turn where "turn = \<lparr>ts_tool_calls = [], ts_text = []\<rparr>"
  define r where "r = snd (add_and_check (\<lambda>s. s) False turn d)"
  have "map_option det_name r = Some No_progress \<and> map_option det_count r = Some 1
      \<and> \<not> ld_mode_off d"
    by (simp add: r_def turn_def d_def window_one_def no_loop_options_def ld_new_def Let_def
        resolve_options_def default_loop_options_def value_or_def positive_int_def at_least_one_def
        number_to_nat_def observe_results_def ld_disabled_def observe_one_def hash_result_def
        constant_result_def side_effect_success_def trim_def is_space_def remember_result_def
        set_add_def keep_last_def add_and_check_def ingest_def or_else_check_def
        check_identical_def trailing_run_def check_no_progress_def)
  then obtain det where det: "snd (add_and_check (\<lambda>s. s) False turn d) = Some det"
    "det_name det = No_progress" "det_count det = 1" "\<not> ld_mode_off d"
    by (auto simp: r_def)
  have rs: "[constant_result, constant_result] = ld_results (ld_mode_off d)
      [Ld_observe False [constant_result], Ld_observe False [constant_result]]"
    using det(4) by simp
  have two: "[constant_result, constant_result] ! 1 = constant_result" by simp
  have i: "length [constant_result, constant_result] - det_count det \<le> 1"
    "1 < length [constant_result, constant_result]" by (simp_all add: det(3))
  have "trim (or_text constant_result) \<noteq> []" by code_simp
  then have "\<exists>j<1. hash_result (\<lambda>s. s) ([constant_result, constant_result] ! j)
      = hash_result (\<lambda>s. s) constant_result"
    using loop_no_progress_sound[OF d_def det(1,2) rs i] unfolding two by (elim conjE disjE) simp_all
  then show ?thesis
    using det(1,3) unfolding Let_def turn_def d_def by blast
qed

text \<open>A model that makes the same call every turn: a round is the turn's check, with the text it wrote,
  and the observation of what came back. The rounds yield the detections and whether any of
  them made progress.\<close>

fun same_call_rounds ::
  "(string \<Rightarrow> string) \<Rightarrow> turn_tool_call \<Rightarrow> loop_detector \<Rightarrow> (string \<times> observed_result list) list
   \<Rightarrow> loop_detection list \<times> bool" where
  "same_call_rounds sha256 c d [] = ([], False)"
| "same_call_rounds sha256 c d ((reply, rs) # rounds) =
     (let (d1, det) = add_and_check sha256 False \<lparr>ts_tool_calls = [c], ts_text = reply\<rparr> d;
          d2 = observe_results sha256 False rs d1;
          (dets, progressed) = same_call_rounds sha256 c d2 rounds
      in (case det of None \<Rightarrow> dets | Some x \<Rightarrow> x # dets,
          (rs \<noteq> [] \<and> ld_last_progress d2) \<or> progressed))"

lemma same_call_rounds_bound:
  assumes "ld_inv d" "\<not> ld_mode_off d"
    and "suffix (replicate m (call_hash sha256 (tc_name c) (tc_input c))) (map tr_hash (ld_tool_calls d))"
    and "m < ro_identical (ld_opts d)"
    and "same_call_rounds sha256 c d rounds = ([], False)"
  shows "m + length rounds < ro_identical (ld_opts d)"
  using assms
proof (induction rounds arbitrary: d m)
  case (Cons round rounds)
  obtain reply rs where round: "round = (reply, rs)" by (cases round)
  let ?h = "call_hash sha256 (tc_name c) (tc_input c)"
  let ?t = "\<lparr>ts_tool_calls = [c], ts_text = reply\<rparr>"
  let ?i = "ingest sha256 ?t d"
  let ?d1 = "fst (add_and_check sha256 False ?t d)"
  let ?d2 = "observe_results sha256 False rs ?d1"
  have en: "\<not> ld_disabled False d" using Cons.prems(2) by (simp add: ld_disabled_def)
  have none: "snd (add_and_check sha256 False ?t d) = None"
    and rest: "same_call_rounds sha256 c ?d2 rounds = ([], False)"
    and quiet: "rs = [] \<or> \<not> ld_last_progress ?d2"
    using Cons.prems(5) unfolding round
    by (auto simp: case_prod_beta Let_def prod_eq_iff split: option.splits)
  have d1: "?d1 = ?i" "check_identical ?i = (?i, None)"
    by (cases rule: add_and_check_cases[OF en, of sha256 ?t]; use none in simp)+
  have "map tr_hash (ld_tool_calls ?i)
      = keep_last (map tr_hash (ld_tool_calls d) @ [?h]) (ro_identical (ld_opts d))"
    by (simp add: ingest_fields(5) keep_last_eq_drop to_tool_call_record_def flip: drop_map)
  moreover have "suffix (replicate (Suc m) ?h) (map tr_hash (ld_tool_calls d) @ [?h])"
    using Cons.prems(3) by (simp flip: replicate_append_same)
  ultimately have suf: "suffix (replicate (Suc m) ?h) (map tr_hash (ld_tool_calls ?i))"
    using suffix_replicate_keep_last Cons.prems(4) by (metis Suc_leI)
  have lt: "Suc m < ro_identical (ld_opts d)"
  proof (cases "trailing_run (map tr_hash (ld_tool_calls ?i))")
    case None
    then have "ld_tool_calls ?i = []" by (simp add: trailing_run_def split: if_splits)
    then show ?thesis using suf by (auto simp: suffix_def)
  next
    case (Some p)
    obtain v n where p: "p = (v, n)" by (cases p)
    have "n < ro_identical (ld_opts d)"
      using d1(2) Some p
      by (cases rule: check_identical_cases[of ?i]) (auto simp: ingest_fields)
    then show ?thesis
      using trailing_run_replicate[OF suf Some[unfolded p]] by simp
  qed
  have calls: "ld_tool_calls ?d2 = ld_tool_calls ?i"
    using quiet unfolding d1(1)
    by (auto simp: observe_results_def case_prod_beta Let_def split: if_splits)
  have opts: "ld_opts ?d2 = ld_opts d"
    unfolding d1(1) by (simp add: observe_results_def case_prod_beta Let_def ingest_fields)
  have "Suc m + length rounds < ro_identical (ld_opts ?d2)"
    by (rule Cons.IH)
      (use Cons.prems(1,2) suf lt rest in
        \<open>simp_all only: calls opts observe_results_inv add_and_check_inv not_False_eq_True\<close>)
  then show ?case by (simp add: opts)
qed simp

text \<open>Repetition is caught in time. A model that sends the same tool call every turn gets a
  detection within \<open>consecutiveIdenticalThreshold\<close> turns, from any state the guard can be in,
  unless the guard is off or one of the calls made progress.\<close>
theorem loop_repetition_detected:
  assumes "d = foldl (ld_step sha256) (ld_new o') es" "\<not> ld_mode_off d"
    and "ro_identical (ld_opts d) \<le> length rounds"
  shows "fst (same_call_rounds sha256 c d rounds) \<noteq> [] \<or> snd (same_call_rounds sha256 c d rounds)"
proof (rule ccontr)
  assume "\<not> ?thesis"
  then have quiet: "same_call_rounds sha256 c d rounds = ([], False)"
    by (simp add: prod_eq_iff)
  have inv: "ld_inv d" unfolding assms(1) by (rule ld.inv_reachable)
  then have "0 + length rounds < ro_identical (ld_opts d)"
    by (intro same_call_rounds_bound[OF inv assms(2) _ _ quiet]) (simp_all add: ld_inv_def)
  with assms(3) show False by simp
qed

theorem loop_repetition_detected_witness:
  "let rounds = replicate 4 (''again'', [])
   in fst (same_call_rounds (\<lambda>s. s) \<lparr>tc_name = ''Bash'', tc_input = None\<rparr> (ld_new no_loop_options) rounds)
        \<noteq> []
      \<or> snd (same_call_rounds (\<lambda>s. s) \<lparr>tc_name = ''Bash'', tc_input = None\<rparr>
          (ld_new no_loop_options) rounds)"
proof -
  have d: "ld_new no_loop_options = foldl (ld_step (\<lambda>s. s)) (ld_new no_loop_options) []" by simp
  have o': "\<not> ld_mode_off (ld_new no_loop_options)" "ro_identical (ld_opts (ld_new no_loop_options)) = 4"
    by code_simp+
  show ?thesis
    unfolding Let_def by (rule loop_repetition_detected[OF d o'(1)]) (simp add: o'(2))
qed

text \<open>A content-loop verdict names the most frequent chunk of the window: the reported hash
  occurs in it exactly as often as reported, at least \<open>contentRepeatThreshold\<close> times, and no
  chunk occurs more often.\<close>
theorem loop_content_sound:
  assumes "check_content_loop d = (d', Some det)"
  shows "det_count det = count_list (map cc_hash (ld_content_chunks d)) (det_hash det)
    \<and> ro_repeat (ld_opts d) \<le> det_count det
    \<and> (\<nexists>w. count_list (map cc_hash (ld_content_chunks d)) w > det_count det)"
proof -
  have "count_most_frequent (map cc_hash (ld_content_chunks d)) = (det_hash det, det_count det)"
    "ro_repeat (ld_opts d) \<le> det_count det"
    using assms by (cases rule: check_content_loop_cases[of d]; simp)+
  then show ?thesis
    using count_most_frequent_correct[of "map cc_hash (ld_content_chunks d)"]
    by (auto simp: not_less)
qed

theorem loop_content_sound_witness:
  "let d = (ld_new (no_loop_options\<lparr>lo_content_repeat_threshold := Some (Num 2)\<rparr>))
        \<lparr>ld_content_chunks := map (\<lambda>h. \<lparr>cc_hash = h, cc_preview = h\<rparr>) [''b'', ''a'', ''a'']\<rparr>
   in \<exists>det. snd (check_content_loop d) = Some det \<and> det_hash det = ''a'' \<and>
      det_count det = count_list [''b'', ''a'', ''a''] (det_hash det)"
proof -
  define d where "d = (ld_new (no_loop_options\<lparr>lo_content_repeat_threshold := Some (Num 2)\<rparr>))
        \<lparr>ld_content_chunks := map (\<lambda>h. \<lparr>cc_hash = h, cc_preview = h\<rparr>) [''b'', ''a'', ''a'']\<rparr>"
  have "map_option det_hash (snd (check_content_loop d)) = Some ''a''"
    by (unfold d_def) code_simp
  then obtain det where det: "snd (check_content_loop d) = Some det" "det_hash det = ''a''" by auto
  then have eq: "check_content_loop d = (fst (check_content_loop d), Some det)"
    by (simp add: prod_eq_iff)
  have "map cc_hash (ld_content_chunks d) = [''b'', ''a'', ''a'']" by (simp add: d_def)
  then have "det_count det = count_list [''b'', ''a'', ''a''] (det_hash det)"
    using loop_content_sound[OF eq] by simp
  with det show ?thesis unfolding Let_def d_def by blast
qed

text \<open>The hashed form of a tool input does not depend on the order of the object keys: two
  objects with the same entries have the same canonical JSON.\<close>
theorem canonical_json_key_order:
  assumes "distinct (map fst kvs)" "mset kvs = mset kvs'"
  shows "canonical_json (Some (JObject kvs)) = canonical_json (Some (JObject kvs'))"
proof -
  let ?c = "map (\<lambda>(k, v). (k, canonicalize v))"
  have fst_c: "map fst (?c xs) = map fst xs" for xs by (induction xs) auto
  have "mset (?c kvs) = mset (?c kvs')" unfolding mset_map assms(2) ..
  moreover have inj: "inj_on fst (set (?c kvs))"
    using assms(1) unfolding fst_c[of kvs, symmetric] distinct_map by (rule conjunct2)
  ultimately have "sort_key fst (?c kvs) = sort_key fst (?c kvs')"
    using assms(1) by (intro sort_key_inj_key_eq inj) simp_all
  then show ?thesis by (simp add: canonical_json_def)
qed

theorem canonical_json_key_order_witness:
  "canonical_json (Some (JObject [(''a'', JNull), (''b'', JBool True)]))
   = canonical_json (Some (JObject [(''b'', JBool True), (''a'', JNull)]))"
  by (rule canonical_json_key_order) simp_all

end
