(* ===== verification/Transcript_Repair.thy ===== *)
theory Transcript_Repair
  imports Messages
begin

text \<open>
  \<open>packages/sdk/src/core/transcriptRepair.ts\<close>: before a stored transcript is sent to a provider,
  every tool call it leaves unanswered gets a result, the persisted receipt of the call where
  one is unambiguous and a synthetic error otherwise.
\<close>

section \<open>The repair\<close>

datatype execution_state = Exec_started | Exec_completed | Exec_interrupted | Exec_unknown

record tool_execution =
  te_message_id :: nat
  te_use_id :: string
  te_state :: execution_state
  te_result :: "content_block option"
  te_new_messages :: "message list option"

definition result_ids :: "message \<Rightarrow> string list" where
  "result_ids m = answer_ids (msg_content m)"

definition tool_uses :: "message \<Rightarrow> content_block list" where
  "tool_uses m = filter is_tool_use (msg_content m)"

text \<open>The one receipt of a call; \<open>ids\<close> are the persisted row ids of the messages, \<open>i\<close> the index of
  the assistant message.\<close>

definition receipt_candidates ::
  "tool_execution list option \<Rightarrow> nat list option \<Rightarrow> nat \<Rightarrow> string \<Rightarrow> tool_execution list" where
  "receipt_candidates execs ids i use_id =
     (case execs of None \<Rightarrow> []
      | Some es \<Rightarrow> filter (\<lambda>e. te_use_id e = use_id
          \<and> (case ids of None \<Rightarrow> True | Some ns \<Rightarrow> i < length ns \<and> te_message_id e = ns ! i)) es)"

definition receipt_for ::
  "tool_execution list option \<Rightarrow> nat list option \<Rightarrow> nat \<Rightarrow> string \<Rightarrow> tool_execution option" where
  "receipt_for execs ids i use_id =
     (case receipt_candidates execs ids i use_id of [e] \<Rightarrow> Some e | _ \<Rightarrow> None)"

definition use_name :: "content_block \<Rightarrow> string" where
  "use_name b = (case b of Tool_use _ n _ \<Rightarrow> n | _ \<Rightarrow> [])"

definition synthetic_tool_result :: "content_block \<Rightarrow> execution_state \<Rightarrow> content_block" where
  "synthetic_tool_result b st = Tool_result (block_id b) (Result_string
     (if st = Exec_unknown
      then ''tool call '' @ use_name b @ '' did not have a persisted result; outcome unknown. The action may already have happened. Do not repeat a non-idempotent action without verifying its effect first; synthesized during transcript repair''
      else ''tool call '' @ use_name b @ '' interrupted before execution; did not have a persisted result; synthesized during transcript repair''))
     True"

definition repaired_result :: "tool_execution option \<Rightarrow> content_block \<Rightarrow> content_block" where
  "repaired_result receipt use =
     (case receipt of
        None \<Rightarrow> synthetic_tool_result use Exec_unknown
      | Some r \<Rightarrow>
          (case te_result r of
             Some res \<Rightarrow>
               if te_state r = Exec_completed \<or> te_state r = Exec_interrupted then res
               else synthetic_tool_result use Exec_unknown
           | None \<Rightarrow> synthetic_tool_result use
               (if te_state r = Exec_interrupted then Exec_interrupted else Exec_unknown)))"

definition appended_blocks :: "tool_execution option \<Rightarrow> content_block list" where
  "appended_blocks receipt =
     (case receipt of None \<Rightarrow> []
      | Some r \<Rightarrow> (case te_new_messages r of None \<Rightarrow> [] | Some ms \<Rightarrow> concat (map msg_content ms)))"

definition missing_uses :: "message \<Rightarrow> message option \<Rightarrow> content_block list" where
  "missing_uses m next_message =
     (let answered = (case next_message of None \<Rightarrow> []
            | Some n \<Rightarrow> if msg_role n = User then result_ids n else [])
      in filter (\<lambda>b. block_id b \<notin> set answered) (tool_uses m))"

text \<open>The user message that follows: one result per call, in the order of the calls, then what the
  receipts append and the message's other blocks. \<open>None\<close> where the code would store \<open>undefined\<close>
  for a call none of the results answers.\<close>

definition merged_answer ::
  "content_block list \<Rightarrow> content_block list \<Rightarrow> content_block list \<Rightarrow> message \<Rightarrow> message option" where
  "merged_answer uses synthetic appended n =
     (let existing = filter is_tool_result (msg_content n);
          others = filter (\<lambda>b. \<not> is_tool_result b) (msg_content n)
      in map_option (\<lambda>results. user_message (results @ appended @ others))
           (those (map (\<lambda>use. find (\<lambda>r. block_id r = block_id use) (existing @ synthetic)) uses)))"

record repair_result =
  rr_messages :: "message list"
  rr_inserted :: nat
  rr_repaired :: nat

definition repair_cons :: "message list \<Rightarrow> nat \<Rightarrow> nat \<Rightarrow> repair_result option \<Rightarrow> repair_result option" where
  "repair_cons ms ins rep = map_option (\<lambda>r. \<lparr>rr_messages = ms @ rr_messages r,
     rr_inserted = ins + rr_inserted r, rr_repaired = rep + rr_repaired r\<rparr>)"

fun repair_from ::
  "tool_execution list option \<Rightarrow> nat list option \<Rightarrow> nat \<Rightarrow> message list \<Rightarrow> repair_result option" where
  "repair_from execs ids i [] = Some \<lparr>rr_messages = [], rr_inserted = 0, rr_repaired = 0\<rparr>"
| "repair_from execs ids i (m # rest) =
     (if msg_role m \<noteq> Assistant then repair_cons [m] 0 0 (repair_from execs ids (Suc i) rest)
      else
        let uses = tool_uses m;
            next_message = (case rest of [] \<Rightarrow> None | n # _ \<Rightarrow> Some n);
            missing = missing_uses m next_message
        in if uses = [] \<or> missing = []
           then repair_cons [m] 0 0 (repair_from execs ids (Suc i) rest)
           else
             let receipt = (\<lambda>use. receipt_for execs ids i (block_id use));
                 synthetic = map (\<lambda>use. repaired_result (receipt use) use) missing;
                 appended = concat (map (\<lambda>use. appended_blocks (receipt use)) missing)
             in case rest of
                  [] \<Rightarrow> repair_cons [m, user_message (synthetic @ appended)] (length synthetic) 1
                         (repair_from execs ids (Suc i) [])
                | n # rest' \<Rightarrow>
                    if msg_role n = User
                    then (case merged_answer uses synthetic appended n of
                            None \<Rightarrow> None
                          | Some a \<Rightarrow> repair_cons [m, a] (length synthetic) 1
                              (repair_from execs ids (Suc (Suc i)) rest'))
                    else repair_cons [m, user_message (synthetic @ appended)] (length synthetic) 1
                           (repair_from execs ids (Suc i) (n # rest')))"

declare repair_from.simps(2) [simp del]

definition repair_missing_tool_results ::
  "message list \<Rightarrow> tool_execution list option \<Rightarrow> nat list option \<Rightarrow> repair_result option" where
  "repair_missing_tool_results messages execs ids = repair_from execs ids 0 messages"

section \<open>What a provider accepts\<close>

text \<open>Every tool call is answered by the user message right after it.\<close>

fun calls_answered :: "message list \<Rightarrow> bool" where
  "calls_answered [] = True"
| "calls_answered (m # rest) =
     ((msg_role m = Assistant \<and> tool_uses m \<noteq> [] \<longrightarrow>
        (case rest of [] \<Rightarrow> False
         | n # _ \<Rightarrow> msg_role n = User \<and> block_id ` set (tool_uses m) \<subseteq> set (result_ids n)))
      \<and> calls_answered rest)"

fun roles_alternate :: "message list \<Rightarrow> bool" where
  "roles_alternate (m # n # rest) = (msg_role m \<noteq> msg_role n \<and> roles_alternate (n # rest))"
| "roles_alternate _ = True"

definition receipts_match :: "tool_execution list option \<Rightarrow> bool" where
  "receipts_match execs \<longleftrightarrow>
     (case execs of None \<Rightarrow> True
      | Some es \<Rightarrow> list_all (\<lambda>e. case te_result e of None \<Rightarrow> True
          | Some r \<Rightarrow> is_tool_result r \<and> block_id r = te_use_id e) es)"

lemma receipt_for_member:
  assumes "receipt_for execs ids i u = Some e"
  shows "te_use_id e = u \<and> (\<exists>es. execs = Some es \<and> e \<in> set es)"
proof -
  have "receipt_candidates execs ids i u = [e]"
    using assms by (simp add: receipt_for_def split: list.splits)
  then have "e \<in> set (receipt_candidates execs ids i u)" by simp
  then show ?thesis by (auto simp: receipt_candidates_def split: option.splits)
qed

lemma repaired_result_answers:
  assumes "receipts_match execs"
  shows "is_tool_result (repaired_result (receipt_for execs ids i (block_id use)) use)
    \<and> block_id (repaired_result (receipt_for execs ids i (block_id use)) use) = block_id use"
proof (cases "receipt_for execs ids i (block_id use)")
  case None
  then show ?thesis by (simp add: repaired_result_def synthetic_tool_result_def)
next
  case (Some e)
  then obtain es where "execs = Some es" "e \<in> set es" "te_use_id e = block_id use"
    using receipt_for_member by blast
  then have "\<And>r. te_result e = Some r \<Longrightarrow> is_tool_result r \<and> block_id r = block_id use"
    using assms by (auto simp: receipts_match_def list_all_iff)
  then show ?thesis
    using Some by (auto simp: repaired_result_def synthetic_tool_result_def split: option.split)
qed

lemma tool_uses_ids: "b \<in> set (missing_uses m n) \<Longrightarrow> b \<in> set (tool_uses m)"
  by (auto simp: missing_uses_def Let_def)

lemma those_map_find:
  assumes "those (map (\<lambda>u. find (P u) rs) us) = Some xs"
  shows "set xs \<subseteq> set rs \<and> length xs = length us \<and> (\<forall>i<length us. P (us ! i) (xs ! i))"
  using assms
proof (induction us arbitrary: xs)
  case (Cons u us)
  obtain y ys where y: "find (P u) rs = Some y" "those (map (\<lambda>u. find (P u) rs) us) = Some ys"
    "xs = y # ys"
    using Cons.prems by (auto split: option.splits)
  then show ?case
    using Cons.IH[OF y(2)] by (auto simp: find_Some_iff nth_Cons split: nat.split)
qed simp

lemma those_map_find_ex:
  "\<forall>u \<in> set us. \<exists>r \<in> set rs. P u r \<Longrightarrow> \<exists>xs. those (map (\<lambda>u. find (P u) rs) us) = Some xs"
proof (induction us)
  case (Cons u us)
  moreover obtain y where "find (P u) rs = Some y"
    using Cons.prems by (cases "find (P u) rs") (auto simp: find_None_iff)
  ultimately show ?case by auto
qed simp

section \<open>One round of the repair\<close>

lemma user_message_simps [simp]:
  "msg_role (user_message bs) = User" "msg_content (user_message bs) = bs"
  by (simp_all add: user_message_def)

text \<open>The three ways an iteration of the loop goes on: the message stays, a user message is added
  after it, or the user message after it is replaced.\<close>

lemma repair_from_cases:
  assumes match: "receipts_match execs"
  obtains (keep) "repair_from execs ids i (m # rest)
      = repair_cons [m] 0 0 (repair_from execs ids (Suc i) rest)"
    "msg_role m = User \<or> tool_uses m = []
      \<or> (\<exists>n rest'. rest = n # rest' \<and> msg_role n = User
          \<and> block_id ` set (tool_uses m) \<subseteq> set (result_ids n))"
  | (add) bs k where "repair_from execs ids i (m # rest)
      = repair_cons [m, user_message bs] k 1 (repair_from execs ids (Suc i) rest)"
    "msg_role m = Assistant" "rest = [] \<or> msg_role (hd rest) = Assistant" "tool_uses m \<noteq> []"
    "block_id ` set (tool_uses m) \<subseteq> set (result_ids (user_message bs))"
    "execs = None \<Longrightarrow> filter (\<lambda>b. \<not> is_tool_result b) bs = []"
  | (merge) n rest' bs k where "rest = n # rest'" "msg_role n = User" "msg_role m = Assistant"
    "repair_from execs ids i (m # rest)
      = repair_cons [m, user_message bs] k 1 (repair_from execs ids (Suc (Suc i)) rest')"
    "block_id ` set (tool_uses m) \<subseteq> set (result_ids (user_message bs))"
    "\<not> block_id ` set (tool_uses m) \<subseteq> set (result_ids n)"
    "execs = None \<Longrightarrow> filter (\<lambda>b. \<not> is_tool_result b) bs
      = filter (\<lambda>b. \<not> is_tool_result b) (msg_content n)"
proof -
  define next_message where "next_message = (case rest of [] \<Rightarrow> None | n # _ \<Rightarrow> Some n)"
  define uses where "uses = tool_uses m"
  define missing where "missing = missing_uses m next_message"
  define receipt where "receipt = (\<lambda>use. receipt_for execs ids i (block_id use))"
  define synthetic where "synthetic = map (\<lambda>use. repaired_result (receipt use) use) missing"
  define appended where "appended = concat (map (\<lambda>use. appended_blocks (receipt use)) missing)"
  have unfold: "repair_from execs ids i (m # rest) =
     (if msg_role m \<noteq> Assistant then repair_cons [m] 0 0 (repair_from execs ids (Suc i) rest)
      else if uses = [] \<or> missing = []
      then repair_cons [m] 0 0 (repair_from execs ids (Suc i) rest)
      else case rest of
          [] \<Rightarrow> repair_cons [m, user_message (synthetic @ appended)] (length synthetic) 1
                 (repair_from execs ids (Suc i) [])
        | n # rest' \<Rightarrow>
            if msg_role n = User
            then (case merged_answer uses synthetic appended n of
                    None \<Rightarrow> None
                  | Some a \<Rightarrow> repair_cons [m, a] (length synthetic) 1
                      (repair_from execs ids (Suc (Suc i)) rest'))
            else repair_cons [m, user_message (synthetic @ appended)] (length synthetic) 1
                   (repair_from execs ids (Suc i) (n # rest')))"
    by (subst repair_from.simps(2), unfold Let_def synthetic_def appended_def receipt_def missing_def
        uses_def next_message_def, rule refl)
  have syn: "is_tool_result r \<and> block_id r \<in> block_id ` set missing" if "r \<in> set synthetic" for r
    using that repaired_result_answers[OF match] by (auto simp: synthetic_def receipt_def)
  have syn_ids: "block_id ` set missing \<subseteq> block_id ` set synthetic"
    using repaired_result_answers[OF match] by (auto simp: synthetic_def receipt_def image_iff)
  have app: "appended = []" if "execs = None"
    using that by (simp add: appended_def receipt_def receipt_for_def receipt_candidates_def
        appended_blocks_def)
  have no_others: "filter (\<lambda>b. \<not> is_tool_result b) synthetic = []"
    using syn by (simp add: filter_empty_conv)
  have all: "missing = uses" if "rest = [] \<or> msg_role (hd rest) = Assistant"
    using that by (auto simp: missing_def missing_uses_def uses_def next_message_def
        split: list.splits)
  have ids_add: "block_id ` set missing \<subseteq> set (result_ids (user_message (synthetic @ appended)))"
    using syn syn_ids by (auto simp: result_ids_def answer_ids_def image_iff)
  consider "msg_role m = User" | "msg_role m = Assistant" "uses = []"
    | "msg_role m = Assistant" "uses \<noteq> []" "missing = []"
    | "msg_role m = Assistant" "uses \<noteq> []" "missing \<noteq> []" "rest = [] \<or> msg_role (hd rest) = Assistant"
    | n rest' where "msg_role m = Assistant" "uses \<noteq> []" "missing \<noteq> []" "rest = n # rest'"
        "msg_role n = User"
    by (cases "msg_role m"; cases rest; metis list.sel(1) role.exhaust)
  then show ?thesis
  proof cases
    case 1
    then show ?thesis by (intro keep) (simp_all add: unfold)
  next
    case 2
    then show ?thesis by (intro keep) (simp_all add: unfold uses_def)
  next
    case 3
    then obtain n rest' where rest: "rest = n # rest'" "msg_role n = User"
      using all by (cases rest; cases "msg_role (hd rest)") auto
    then have "block_id ` set (tool_uses m) \<subseteq> set (result_ids n)"
      using 3(3) by (auto simp: missing_def missing_uses_def next_message_def filter_empty_conv)
    moreover have "repair_from execs ids i (m # rest)
        = repair_cons [m] 0 0 (repair_from execs ids (Suc i) rest)"
      using 3 by (simp add: unfold)
    ultimately show ?thesis
      using rest by (intro keep) simp_all
  next
    case 4
    then show ?thesis
      using ids_add all[OF 4(4)] app no_others
      by (intro add[of "synthetic @ appended" "length synthetic"])
        (auto simp: unfold uses_def split: list.split)
  next
    case (5 n rest')
    let ?rs = "filter is_tool_result (msg_content n) @ synthetic"
    have cover: "\<forall>u \<in> set uses. \<exists>r \<in> set ?rs. block_id r = block_id u"
    proof
      fix u assume u: "u \<in> set uses"
      show "\<exists>r \<in> set ?rs. block_id r = block_id u"
      proof (cases "u \<in> set missing")
        case True
        then obtain r where "r \<in> set synthetic" "block_id u = block_id r"
          using syn_ids by blast
        then show ?thesis by (intro bexI[of _ r]) simp_all
      next
        case False
        then have "block_id u \<in> set (result_ids n)"
          using u 5 by (auto simp: missing_def missing_uses_def uses_def next_message_def)
        then show ?thesis by (auto simp: result_ids_def answer_ids_def)
      qed
    qed
    obtain xs where xs: "those (map (\<lambda>use. find (\<lambda>r. block_id r = block_id use) ?rs) uses) = Some xs"
      using those_map_find_ex[OF cover] by blast
    note found = those_map_find[OF xs]
    have results: "\<forall>x \<in> set xs. is_tool_result x"
      using found syn by auto
    have ids: "block_id ` set uses \<subseteq> block_id ` set xs"
    proof
      fix k assume "k \<in> block_id ` set uses"
      then obtain j where "j < length uses" "k = block_id (uses ! j)"
        by (auto simp: in_set_conv_nth)
      then have "j < length xs" "k = block_id (xs ! j)" using found by auto
      then show "k \<in> block_id ` set xs" by auto
    qed
    let ?bs = "xs @ appended @ filter (\<lambda>b. \<not> is_tool_result b) (msg_content n)"
    have answer: "merged_answer uses synthetic appended n = Some (user_message ?bs)"
      by (simp add: merged_answer_def xs)
    have sub: "block_id ` set (tool_uses m) \<subseteq> set (result_ids (user_message ?bs))"
      using ids results by (auto simp: result_ids_def answer_ids_def uses_def)
    have not_sub: "\<not> block_id ` set (tool_uses m) \<subseteq> set (result_ids n)"
      using 5 by (auto simp: missing_def missing_uses_def next_message_def filter_empty_conv uses_def)
    have others: "filter (\<lambda>b. \<not> is_tool_result b) ?bs = filter (\<lambda>b. \<not> is_tool_result b) (msg_content n)"
      if "execs = None"
      using app[OF that] results by (simp add: filter_empty_conv)
    have "repair_from execs ids i (m # rest)
        = repair_cons [m, user_message ?bs] (length synthetic) 1
            (repair_from execs ids (Suc (Suc i)) rest')"
      using 5 by (subst unfold) (simp add: answer)
    then show ?thesis
      using 5 sub not_sub others by (intro merge[of n rest' ?bs "length synthetic"]) simp_all
  qed
qed

lemma repair_cons_Some [simp]:
  "repair_cons ms a b (Some r) = Some \<lparr>rr_messages = ms @ rr_messages r,
     rr_inserted = a + rr_inserted r, rr_repaired = b + rr_repaired r\<rparr>"
  by (simp add: repair_cons_def)

lemma repair_cons_None [simp]: "repair_cons ms a b None = None"
  by (simp add: repair_cons_def)

lemma repair_total:
  assumes "receipts_match execs"
  shows "\<exists>r. repair_from execs ids i ms = Some r \<and> (rr_messages r = [] \<longleftrightarrow> ms = [])
    \<and> (ms \<noteq> [] \<longrightarrow> hd (rr_messages r) = hd ms)"
proof (induction ms arbitrary: i rule: length_induct)
  case (1 ms)
  show ?case
  proof (cases ms)
    case (Cons m rest)
    have ih: "length xs < length ms \<Longrightarrow> \<exists>r. repair_from execs ids j xs = Some r" for xs j
      using 1 by blast
    show ?thesis
    proof (cases rule: repair_from_cases[OF assms, of ids i m rest])
      case 1
      obtain r where "repair_from execs ids (Suc i) rest = Some r" using ih[of rest] Cons by auto
      then show ?thesis using 1 Cons by simp
    next
      case (2 bs k)
      obtain r where "repair_from execs ids (Suc i) rest = Some r" using ih[of rest] Cons by auto
      then show ?thesis using 2 Cons by simp
    next
      case (3 n rest' bs k)
      obtain r where "repair_from execs ids (Suc (Suc i)) rest' = Some r"
        using ih[of rest'] Cons 3(1) by auto
      then show ?thesis using 3 Cons by simp
    qed
  qed simp
qed

lemma role_not_user [simp]: "r \<noteq> User \<longleftrightarrow> r = Assistant" "r \<noteq> Assistant \<longleftrightarrow> r = User"
  by (cases r; simp)+

lemma calls_answered_ConsI:
  assumes "calls_answered rest"
    and "msg_role m = User \<or> tool_uses m = []
      \<or> (\<exists>n rest'. rest = n # rest' \<and> msg_role n = User
          \<and> block_id ` set (tool_uses m) \<subseteq> set (result_ids n))"
  shows "calls_answered (m # rest)"
  using assms by auto

lemma roles_alternate_ConsI:
  "roles_alternate rest \<Longrightarrow> rest = [] \<or> msg_role (hd rest) \<noteq> msg_role m \<Longrightarrow> roles_alternate (m # rest)"
  by (cases rest) auto

lemma roles_alternate_ConsD:
  "roles_alternate (m # rest) \<Longrightarrow> roles_alternate rest \<and> (rest = [] \<or> msg_role (hd rest) \<noteq> msg_role m)"
  by (cases rest) auto

declare calls_answered.simps(2) [simp del]

lemma repair_answers:
  assumes "receipts_match execs"
  shows "repair_from execs ids i ms = Some r \<Longrightarrow>
    calls_answered (rr_messages r) \<and> (roles_alternate ms \<longrightarrow> roles_alternate (rr_messages r))"
proof (induction ms arbitrary: i r rule: length_induct)
  case (1 ms)
  show ?case
  proof (cases ms)
    case (Cons m rest)
    note ih = 1(1)[rule_format]
    show ?thesis
    proof (cases rule: repair_from_cases[OF assms, of ids i m rest])
      case keep: 1
      obtain q where q: "repair_from execs ids (Suc i) rest = Some q"
        "rr_messages q = [] \<longleftrightarrow> rest = []" "rest \<noteq> [] \<longrightarrow> hd (rr_messages q) = hd rest"
        using repair_total[OF assms, of ids "Suc i" rest] by blast
      have r: "rr_messages r = m # rr_messages q" using 1(2) q(1) keep(1) Cons by auto
      have tail: "calls_answered (rr_messages q)"
        "roles_alternate rest \<longrightarrow> roles_alternate (rr_messages q)"
        using ih[OF _ q(1)] Cons by auto
      have "\<exists>n rest'. rr_messages q = n # rest' \<and> msg_role n = User
          \<and> block_id ` set (tool_uses m) \<subseteq> set (result_ids n)"
        if "\<exists>n rest'. rest = n # rest' \<and> msg_role n = User
          \<and> block_id ` set (tool_uses m) \<subseteq> set (result_ids n)"
        using that q(2,3) by (cases "rr_messages q") auto
      then have "calls_answered (rr_messages r)"
        unfolding r using keep(2) tail(1) by (intro calls_answered_ConsI) blast+
      moreover have "roles_alternate (rr_messages r)" if "roles_alternate ms"
        unfolding r using roles_alternate_ConsD[of m rest] that Cons tail(2) q(2,3)
        by (intro roles_alternate_ConsI) auto
      ultimately show ?thesis by blast
    next
      case add: (2 bs k)
      obtain q where q: "repair_from execs ids (Suc i) rest = Some q"
        "rr_messages q = [] \<longleftrightarrow> rest = []" "rest \<noteq> [] \<longrightarrow> hd (rr_messages q) = hd rest"
        using repair_total[OF assms, of ids "Suc i" rest] by blast
      have r: "rr_messages r = m # user_message bs # rr_messages q"
        using 1(2) q(1) add(1) Cons by auto
      have tail: "calls_answered (rr_messages q)"
        "roles_alternate rest \<longrightarrow> roles_alternate (rr_messages q)"
        using ih[OF _ q(1)] Cons by auto
      have "calls_answered (rr_messages r)"
        unfolding r using add(5) tail(1) by (intro calls_answered_ConsI) auto
      moreover have "roles_alternate (rr_messages r)" if "roles_alternate ms"
        unfolding r using roles_alternate_ConsD[of m rest] that Cons tail(2) q(2,3) add(2,3)
        by (intro roles_alternate_ConsI) auto
      ultimately show ?thesis by blast
    next
      case merge: (3 n rest' bs k)
      obtain q where q: "repair_from execs ids (Suc (Suc i)) rest' = Some q"
        "rr_messages q = [] \<longleftrightarrow> rest' = []" "rest' \<noteq> [] \<longrightarrow> hd (rr_messages q) = hd rest'"
        using repair_total[OF assms, of ids "Suc (Suc i)" rest'] by blast
      have r: "rr_messages r = m # user_message bs # rr_messages q"
        using 1(2) q(1) merge(4) Cons by auto
      have tail: "calls_answered (rr_messages q)"
        "roles_alternate rest' \<longrightarrow> roles_alternate (rr_messages q)"
        using ih[OF _ q(1)] Cons merge(1) by auto
      have "calls_answered (rr_messages r)"
        unfolding r using merge(5) tail(1) by (intro calls_answered_ConsI) auto
      moreover have "roles_alternate (rr_messages r)" if "roles_alternate ms"
        unfolding r
        using roles_alternate_ConsD[of n rest'] that Cons merge(1-3) tail(2) q(2,3)
        by (intro roles_alternate_ConsI) auto
      ultimately show ?thesis by blast
    qed
  qed (use 1 in auto)
qed

lemma answered_unchanged:
  assumes "receipts_match execs"
  shows "calls_answered ms \<Longrightarrow> repair_from execs ids i ms
    = Some \<lparr>rr_messages = ms, rr_inserted = 0, rr_repaired = 0\<rparr>"
proof (induction ms arbitrary: i)
  case (Cons m rest)
  show ?case
  proof (cases rule: repair_from_cases[OF assms, of ids i m rest])
    case 1
    then show ?thesis using Cons by (simp add: calls_answered.simps)
  next
    case 2
    then show ?thesis using Cons.prems by (cases rest) (auto simp: calls_answered.simps)
  next
    case 3
    then have "tool_uses m \<noteq> []" by auto
    then show ?thesis using Cons.prems 3(1-3,6) by (simp add: calls_answered.simps)
  qed
qed simp

section \<open>Properties\<close>

text \<open>C38: A repaired transcript is one a provider accepts. Given receipts that each hold a tool result for
  the call they were written for (as the dispatcher writes them), or no receipts, the repair gives a
  transcript, in it every tool call is answered by the user message right after it, and roles that
  alternated still do.\<close>
theorem repair_gives_valid_transcript:
  assumes "receipts_match execs"
  shows "\<exists>r. repair_missing_tool_results messages execs ids = Some r
    \<and> calls_answered (rr_messages r)
    \<and> (roles_alternate messages \<longrightarrow> roles_alternate (rr_messages r))"
proof -
  obtain r where "repair_from execs ids 0 messages = Some r"
    using repair_total[OF assms, of ids 0 messages] by blast
  with repair_answers[OF assms this] show ?thesis
    by (simp add: repair_missing_tool_results_def)
qed

definition crashed_transcript :: "message list" where
  "crashed_transcript = [user_message [Text_block ''go''],
     assistant_message [Tool_use ''t1'' ''Bash'' JNull, Tool_use ''t2'' ''Read'' JNull],
     user_message [Tool_result ''t1'' (Result_string ''ok'') False, Text_block ''still there?'']]"

definition crash_receipts :: "tool_execution list" where
  "crash_receipts = [
     \<lparr>te_message_id = 12, te_use_id = ''t2'', te_state = Exec_completed,
      te_result = Some (Tool_result ''t2'' (Result_string ''file text'') False), te_new_messages = None\<rparr>,
     \<lparr>te_message_id = 12, te_use_id = ''t1'', te_state = Exec_started, te_result = None, te_new_messages = None\<rparr>]"

theorem repair_gives_valid_transcript_witness:
  "\<exists>r. repair_missing_tool_results crashed_transcript (Some crash_receipts) (Some [11, 12, 13]) = Some r
    \<and> calls_answered (rr_messages r) \<and> roles_alternate (rr_messages r)
    \<and> Tool_result ''t2'' (Result_string ''file text'') False \<in> set (msg_content (rr_messages r ! 2))"
proof -
  have h: "receipts_match (Some crash_receipts)" "roles_alternate crashed_transcript"
    by (simp_all add: receipts_match_def crash_receipts_def crashed_transcript_def user_message_def assistant_message_def)
  have "(case repair_missing_tool_results crashed_transcript (Some crash_receipts) (Some [11, 12, 13]) of
      None \<Rightarrow> False
    | Some r \<Rightarrow> Tool_result ''t2'' (Result_string ''file text'') False \<in> set (msg_content (rr_messages r ! 2)))"
    by code_simp
  with repair_gives_valid_transcript[OF h(1), of crashed_transcript "Some [11, 12, 13]"] h(2) show ?thesis
    by (auto split: option.splits)
qed

text \<open>The repair changes nothing that is answered already, so it is idempotent: repairing a
  repaired transcript, with whatever receipts, leaves it as it is and counts no repair.\<close>
theorem repair_idempotent:
  assumes "receipts_match execs" "receipts_match execs'"
    and "repair_missing_tool_results messages execs ids = Some r"
  shows "repair_missing_tool_results (rr_messages r) execs' ids'
    = Some \<lparr>rr_messages = rr_messages r, rr_inserted = 0, rr_repaired = 0\<rparr>"
proof -
  have "calls_answered (rr_messages r)"
    using repair_answers[OF assms(1)] assms(3) unfolding repair_missing_tool_results_def by blast
  from answered_unchanged[OF assms(2) this] show ?thesis
    by (simp add: repair_missing_tool_results_def)
qed

theorem repair_idempotent_witness:
  "\<exists>r. repair_missing_tool_results crashed_transcript None None = Some r
    \<and> repair_missing_tool_results (rr_messages r) None None
      = Some \<lparr>rr_messages = rr_messages r, rr_inserted = 0, rr_repaired = 0\<rparr>"
proof -
  have m: "receipts_match None" by (simp add: receipts_match_def)
  obtain r where "repair_missing_tool_results crashed_transcript None None = Some r"
    using repair_total[OF m, of None 0 crashed_transcript]
    by (auto simp: repair_missing_tool_results_def)
  with repair_idempotent[OF m m this] show ?thesis by blast
qed

text \<open>Without receipts the repair only adds and reorders tool results: every other block of the
  transcript is still there, in its order.\<close>
theorem repair_preserves_content:
  assumes "repair_missing_tool_results messages None ids = Some r"
  shows "filter (\<lambda>b. \<not> is_tool_result b) (concat (map msg_content (rr_messages r)))
    = filter (\<lambda>b. \<not> is_tool_result b) (concat (map msg_content messages))"
proof -
  have m: "receipts_match None" by (simp add: receipts_match_def)
  have "repair_from None ids i ms = Some r \<Longrightarrow>
      filter (\<lambda>b. \<not> is_tool_result b) (concat (map msg_content (rr_messages r)))
      = filter (\<lambda>b. \<not> is_tool_result b) (concat (map msg_content ms))" for i ms r
  proof (induction ms arbitrary: i r rule: length_induct)
    case (1 ms)
    note ih = 1(1)[rule_format]
    show ?case
    proof (cases ms)
      case (Cons m rest)
      show ?thesis
      proof (cases rule: repair_from_cases[OF m, of ids i m rest])
        case keep: 1
        then show ?thesis
          using 1(2) Cons ih[of rest "Suc i"] by (auto simp: repair_cons_def)
      next
        case add: (2 bs k)
        then show ?thesis
          using 1(2) Cons ih[of rest "Suc i"] by (auto simp: repair_cons_def)
      next
        case merge: (3 n rest' bs k)
        then show ?thesis
          using 1(2) Cons ih[of rest' "Suc (Suc i)"] by (auto simp: repair_cons_def)
      qed
    qed (use 1 in auto)
  qed
  then show ?thesis using assms unfolding repair_missing_tool_results_def by blast
qed

theorem repair_preserves_content_witness:
  "\<exists>r. repair_missing_tool_results crashed_transcript None None = Some r
    \<and> filter (\<lambda>b. \<not> is_tool_result b) (concat (map msg_content (rr_messages r)))
      = filter (\<lambda>b. \<not> is_tool_result b) (concat (map msg_content crashed_transcript))"
proof -
  obtain r where r: "repair_missing_tool_results crashed_transcript None None = Some r"
    using repair_total[of None None 0 crashed_transcript]
    by (auto simp: repair_missing_tool_results_def receipts_match_def)
  then show ?thesis using repair_preserves_content[OF r] by blast
qed

end
