(* ===== verification/Microcompact.thy ===== *)
theory Microcompact
  imports Messages
begin

text \<open>
  \<open>packages/sdk/src/compact/microcompact.ts\<close>: stale tool results are replaced by a placeholder, the
  most recent ones and those of the current turn stay. A loop over the messages or the blocks is
  a recursion with the loop's index.
\<close>

record microcompact_config =
  mc_enabled :: bool
  mc_keep_recent :: nat
  mc_trigger_pct :: rat
  mc_compactable :: "string list"

definition default_microcompact_config :: microcompact_config where
  "default_microcompact_config = \<lparr>mc_enabled = True, mc_keep_recent = 5, mc_trigger_pct = 40,
     mc_compactable = [''Bash'', ''Read'', ''FileRead'', ''Write'', ''FileWrite'', ''Edit'', ''FileEdit'',
       ''Grep'', ''Glob'']\<rparr>"

definition build_microcompact_config ::
  "(bool option \<times> nat option \<times> rat option) option \<Rightarrow> microcompact_config" where
  "build_microcompact_config settings =
     (case settings of None \<Rightarrow> default_microcompact_config
      | Some (e, k, t) \<Rightarrow> default_microcompact_config\<lparr>
          mc_enabled := value_or e (mc_enabled default_microcompact_config),
          mc_keep_recent := value_or k (mc_keep_recent default_microcompact_config),
          mc_trigger_pct := value_or t (mc_trigger_pct default_microcompact_config)\<rparr>)"

type_synonym tool_names = "(string \<times> string) list"

definition name_blocks :: "content_block list \<Rightarrow> tool_names \<Rightarrow> tool_names" where
  "name_blocks bs names = foldl (\<lambda>m b. case b of Tool_use i n _ \<Rightarrow> AList.update i n m | _ \<Rightarrow> m) names bs"

definition build_tool_name_map :: "message list \<Rightarrow> tool_names" where
  "build_tool_name_map messages =
     foldl (\<lambda>m msg. if msg_role msg = Assistant then name_blocks (msg_content msg) m else m) [] messages"

definition has_text :: "message \<Rightarrow> bool" where
  "has_text msg \<longleftrightarrow> msg_role msg = User \<and> list_ex is_text (msg_content msg)"

text \<open>The start of the current user-prompt burst, found from the end.\<close>

definition find_current_turn_boundary :: "message list \<Rightarrow> nat" where
  "find_current_turn_boundary messages =
     (case find (\<lambda>i. has_text (messages ! i)) (rev [0..<length messages]) of
        Some i \<Rightarrow> i | None \<Rightarrow> length messages)"

record tool_result_ref =
  ref_message :: nat
  ref_block :: nat
  ref_tool :: string
  ref_tokens :: nat

definition cleared_prefix :: string where "cleared_prefix = ''[Tool result cleared''"

definition ref_of :: "tool_names \<Rightarrow> string list \<Rightarrow> nat \<Rightarrow> nat \<Rightarrow> content_block \<Rightarrow> tool_result_ref option" where
  "ref_of names tools mi bi b =
     (case b of
        Tool_result i c e \<Rightarrow>
          if e then None
          else (case map_of names i of
                  None \<Rightarrow> None
                | Some n \<Rightarrow>
                    if n = [] \<or> n \<notin> set tools then None
                    else (case c of
                            Result_wire _ \<Rightarrow> None
                          | Result_string s \<Rightarrow>
                              if starts_with s cleared_prefix then None
                              else Some \<lparr>ref_message = mi, ref_block = bi, ref_tool = n,
                                     ref_tokens = estimate_block_tokens b\<rparr>))
      | _ \<Rightarrow> None)"

fun block_refs :: "tool_names \<Rightarrow> string list \<Rightarrow> nat \<Rightarrow> nat \<Rightarrow> content_block list \<Rightarrow> tool_result_ref list" where
  "block_refs names tools mi bi [] = []"
| "block_refs names tools mi bi (b # bs) =
     (case ref_of names tools mi bi b of None \<Rightarrow> [] | Some r \<Rightarrow> [r])
       @ block_refs names tools mi (Suc bi) bs"

fun message_refs :: "tool_names \<Rightarrow> string list \<Rightarrow> nat \<Rightarrow> nat \<Rightarrow> message list \<Rightarrow> tool_result_ref list" where
  "message_refs names tools boundary mi [] = []"
| "message_refs names tools boundary mi (m # ms) =
     (if mi \<ge> boundary \<or> msg_role m \<noteq> User then [] else block_refs names tools mi 0 (msg_content m))
       @ message_refs names tools boundary (Suc mi) ms"

definition collect_compactable_refs ::
  "message list \<Rightarrow> tool_names \<Rightarrow> string list \<Rightarrow> tool_result_ref list" where
  "collect_compactable_refs messages names tools =
     message_refs names tools (find_current_turn_boundary messages) 0 messages"

definition placeholder_for :: "string \<Rightarrow> string" where
  "placeholder_for tool = cleared_prefix @ '' '' @ em_dash @ '' '' @ tool @ '']''"

text \<open>A block and the tokens its clearing saved (only a positive difference counts, which is what
  the subtraction of natural numbers gives).\<close>

definition clear_block :: "tool_result_ref list \<Rightarrow> nat \<Rightarrow> content_block \<Rightarrow> content_block \<times> nat" where
  "clear_block clearable bi b =
     (case find (\<lambda>r. ref_block r = bi) clearable of
        None \<Rightarrow> (b, 0)
      | Some r \<Rightarrow>
          (case b of
             Tool_result i (Result_string s) e \<Rightarrow>
               let b' = Tool_result i (Result_string (placeholder_for (ref_tool r))) e
               in (b', ref_tokens r - estimate_block_tokens b')
           | _ \<Rightarrow> (b, 0)))"

fun clear_blocks ::
  "tool_result_ref list \<Rightarrow> nat \<Rightarrow> content_block list \<Rightarrow> content_block list \<times> nat" where
  "clear_blocks clearable bi [] = ([], 0)"
| "clear_blocks clearable bi (b # bs) =
     (let (b', s) = clear_block clearable bi b;
          (bs', t) = clear_blocks clearable (Suc bi) bs
      in (b' # bs', s + t))"

fun clear_messages :: "tool_result_ref list \<Rightarrow> nat \<Rightarrow> message list \<Rightarrow> message list \<times> nat" where
  "clear_messages to_clear mi [] = ([], 0)"
| "clear_messages to_clear mi (m # ms) =
     (let clearable = filter (\<lambda>r. ref_message r = mi) to_clear;
          (m', s) = (if clearable = [] then (m, 0)
            else let (bs, s) = clear_blocks clearable 0 (msg_content m) in (m\<lparr>msg_content := bs\<rparr>, s));
          (ms', t) = clear_messages to_clear (Suc mi) ms
      in (m' # ms', s + t))"

record microcompact_result =
  mr_cleared :: nat
  mr_tokens_saved :: nat
  mr_kept_recent :: nat

definition microcompact ::
  "message list \<Rightarrow> tool_names \<Rightarrow> microcompact_config \<Rightarrow> message list \<times> microcompact_result" where
  "microcompact messages names config =
     (let refs = collect_compactable_refs messages names (mc_compactable config) in
      if length refs \<le> mc_keep_recent config
      then (messages, \<lparr>mr_cleared = 0, mr_tokens_saved = 0, mr_kept_recent = length refs\<rparr>)
      else
        let to_clear = take (length refs - mc_keep_recent config) refs;
            (out, saved) = clear_messages to_clear 0 messages
        in (out, \<lparr>mr_cleared = length to_clear, mr_tokens_saved = saved,
                  mr_kept_recent = mc_keep_recent config\<rparr>))"

definition compactable_tokens :: "tool_names \<Rightarrow> string list \<Rightarrow> content_block \<Rightarrow> nat" where
  "compactable_tokens names tools b =
     (case b of
        Tool_result i c e \<Rightarrow>
          if e then 0
          else (case map_of names i of None \<Rightarrow> 0
                | Some n \<Rightarrow> if n \<noteq> [] \<and> n \<in> set tools then estimate_block_tokens b else 0)
      | _ \<Rightarrow> 0)"

definition should_microcompact :: "message list \<Rightarrow> microcompact_config \<Rightarrow> tool_names \<Rightarrow> bool" where
  "should_microcompact messages config names \<longleftrightarrow>
     mc_enabled config \<and> estimate_messages_tokens messages \<noteq> 0
     \<and> rat_of_nat (sum_list (map (\<lambda>m. if msg_role m = User
            then sum_list (map (compactable_tokens names (mc_compactable config)) (msg_content m))
            else 0) messages))
         / rat_of_nat (estimate_messages_tokens messages) * 100 > mc_trigger_pct config"

section \<open>References\<close>

lemma block_refs_bounds:
  "r \<in> set (block_refs names tools mi bi bs) \<Longrightarrow> ref_message r = mi \<and> bi \<le> ref_block r"
proof (induction bs arbitrary: bi)
  case (Cons b bs)
  have one: "ref_of names tools mi bi b = Some q \<Longrightarrow> ref_message q = mi \<and> ref_block q = bi" for q
    by (auto simp: ref_of_def split: content_block.splits if_splits option.splits result_content.splits)
  show ?case
    using Cons.prems Cons.IH[of "Suc bi"] one
    by (auto split: option.splits)
qed simp

lemma distinct_block_refs: "distinct (map ref_block (block_refs names tools mi bi bs))"
proof (induction bs arbitrary: bi)
  case (Cons b bs)
  have one: "ref_of names tools mi bi b = Some q \<Longrightarrow> ref_block q = bi" for q
    by (auto simp: ref_of_def split: content_block.splits if_splits option.splits result_content.splits)
  have "bi \<notin> set (map ref_block (block_refs names tools mi (Suc bi) bs))"
  proof
    assume "bi \<in> set (map ref_block (block_refs names tools mi (Suc bi) bs))"
    then obtain r where "r \<in> set (block_refs names tools mi (Suc bi) bs)" "ref_block r = bi" by auto
    then show False using block_refs_bounds[of r names tools mi "Suc bi" bs] by simp
  qed
  then show ?case
    using Cons.IH[of "Suc bi"] one by (cases "ref_of names tools mi bi b") simp_all
qed simp

lemma message_refs_bounds:
  "r \<in> set (message_refs names tools k mi ms) \<Longrightarrow> mi \<le> ref_message r \<and> ref_message r < k"
proof (induction ms arbitrary: mi)
  case (Cons m ms)
  have "r \<in> set (message_refs names tools k (Suc mi) ms) \<Longrightarrow> mi \<le> ref_message r \<and> ref_message r < k"
    using Cons.IH[of "Suc mi"] by simp
  then show ?case
    using Cons.prems block_refs_bounds[of r names tools mi 0 "msg_content m"]
    by (auto split: if_splits)
qed simp

abbreviation ref_key :: "tool_result_ref \<Rightarrow> nat \<times> nat" where
  "ref_key r \<equiv> (ref_message r, ref_block r)"

lemma distinct_message_refs: "distinct (map ref_key (message_refs names tools k mi ms))"
proof (induction ms arbitrary: mi)
  case (Cons m ms)
  let ?b = "block_refs names tools mi 0 (msg_content m)"
  let ?r = "message_refs names tools k (Suc mi) ms"
  have "map ref_key ?b = map (\<lambda>r. (mi, ref_block r)) ?b"
    using block_refs_bounds[of _ names tools mi 0 "msg_content m"] by simp
  moreover have "distinct (map (\<lambda>r. (mi, ref_block r)) ?b)"
    using distinct_block_refs[of names tools mi 0 "msg_content m"]
    by (simp add: distinct_map inj_on_def)
  ultimately have "distinct (map ref_key ?b)" by metis
  moreover have "set (map ref_key ?b) \<inter> set (map ref_key ?r) = {}"
  proof -
    have "fst q = mi" if "q \<in> set (map ref_key ?b)" for q
      using that block_refs_bounds[of _ names tools mi 0 "msg_content m"] by auto
    moreover have "mi < fst q" if "q \<in> set (map ref_key ?r)" for q
      using that message_refs_bounds[of _ names tools k "Suc mi" ms] by fastforce
    ultimately show ?thesis by fastforce
  qed
  ultimately show ?case
    using Cons.IH[of "Suc mi"] by simp
qed simp

text \<open>What stays the same in a cleared block: everything but the text of a string result.\<close>

fun block_shape :: "content_block \<Rightarrow> content_block" where
  "block_shape (Tool_result i (Result_string s) e) = Tool_result i (Result_string []) e"
| "block_shape b = b"

definition message_shape :: "message \<Rightarrow> message" where
  "message_shape m = m\<lparr>msg_content := map block_shape (msg_content m)\<rparr>"

lemma clear_block_cases:
  obtains "fst (clear_block c bi b) = b"
    "find (\<lambda>r. ref_block r = bi) c = None \<or> (\<forall>i s e. b \<noteq> Tool_result i (Result_string s) e)"
  | i s e r where "b = Tool_result i (Result_string s) e"
    "fst (clear_block c bi b) = Tool_result i (Result_string (placeholder_for (ref_tool r))) e"
    "find (\<lambda>r. ref_block r = bi) c = Some r"
proof (cases "find (\<lambda>r. ref_block r = bi) c")
  case None
  then show ?thesis by (intro that(1)) (simp_all add: clear_block_def)
next
  case (Some r)
  show ?thesis
  proof (cases "\<exists>i s e. b = Tool_result i (Result_string s) e")
    case True
    then obtain i s e where "b = Tool_result i (Result_string s) e" by blast
    with Some show ?thesis by (intro that(2)) (simp_all add: clear_block_def Let_def)
  next
    case False
    with Some show ?thesis
      by (intro that(1))
        (auto simp: clear_block_def split: content_block.splits result_content.splits)
  qed
qed

lemma block_shape_clear: "block_shape (fst (clear_block c bi b)) = block_shape b"
  by (cases rule: clear_block_cases[of c bi b]) simp_all

lemma fst_clear_blocks_Cons:
  "fst (clear_blocks c bi (b # bs)) = fst (clear_block c bi b) # fst (clear_blocks c (Suc bi) bs)"
  by (simp add: case_prod_beta Let_def)

lemma shape_clear_blocks: "map block_shape (fst (clear_blocks c bi bs)) = map block_shape bs"
  by (induction bs arbitrary: bi) (simp_all add: fst_clear_blocks_Cons block_shape_clear del: clear_blocks.simps(2))

lemma clear_blocks_nil: "clear_blocks [] bi bs = (bs, 0)"
  by (induction bs arbitrary: bi) (simp_all add: clear_block_def)

lemma fst_clear_messages_Cons:
  "fst (clear_messages to_clear mi (m # ms)) =
     m\<lparr>msg_content := fst (clear_blocks (filter (\<lambda>r. ref_message r = mi) to_clear) 0 (msg_content m))\<rparr>
       # fst (clear_messages to_clear (Suc mi) ms)"
  by (simp add: case_prod_beta Let_def clear_blocks_nil)

lemma shape_clear_messages: "map message_shape (fst (clear_messages t mi ms)) = map message_shape ms"
  by (induction ms arbitrary: mi)
    (simp_all add: fst_clear_messages_Cons message_shape_def shape_clear_blocks
      del: clear_messages.simps(2))

lemma is_text_shape [simp]: "is_text (block_shape b) = is_text b"
  by (cases b rule: block_shape.cases) simp_all

lemma has_text_shape: "has_text (message_shape m) = has_text m"
  by (simp add: has_text_def message_shape_def list_ex_iff)

lemma boundary_shape:
  assumes "map message_shape ms = map message_shape ms'"
  shows "find_current_turn_boundary ms = find_current_turn_boundary ms'"
proof -
  have len: "length ms = length ms'" using assms by (rule map_eq_imp_length_eq)
  have "has_text (ms ! i) = has_text (ms' ! i)" if "i < length ms" for i
    using assms that len by (metis has_text_shape nth_map)
  then have "find (\<lambda>i. has_text (ms ! i)) (rev [0..<length ms])
      = find (\<lambda>i. has_text (ms' ! i)) (rev [0..<length ms'])"
    unfolding len[symmetric] by (intro find_cong) auto
  with len show ?thesis by (simp add: find_current_turn_boundary_def split: option.split)
qed

text \<open>Clearing removes exactly the references it was given.\<close>

lemma cleared_starts: "starts_with (placeholder_for t) cleared_prefix"
  by (auto simp: starts_with_iff placeholder_for_def)

lemma block_refs_clear:
  "block_refs names tools mi bi (fst (clear_blocks c bi bs))
   = filter (\<lambda>r. ref_block r \<notin> ref_block ` set c) (block_refs names tools mi bi bs)"
proof (induction bs arbitrary: bi)
  case (Cons b bs)
  have one: "ref_of names tools mi bi b = Some q \<Longrightarrow> ref_block q = bi" for q
    by (auto simp: ref_of_def split: content_block.splits if_splits option.splits result_content.splits)
  have "(case ref_of names tools mi bi (fst (clear_block c bi b)) of None \<Rightarrow> [] | Some r \<Rightarrow> [r])
      = filter (\<lambda>r. ref_block r \<notin> ref_block ` set c)
          (case ref_of names tools mi bi b of None \<Rightarrow> [] | Some r \<Rightarrow> [r])"
  proof (cases rule: clear_block_cases[of c bi b])
    case 1
    show ?thesis
    proof (cases "ref_of names tools mi bi b")
      case (Some q)
      then have "\<exists>i s e. b = Tool_result i (Result_string s) e"
        by (auto simp: ref_of_def split: content_block.splits if_splits option.splits
            result_content.splits)
      then have "find (\<lambda>r. ref_block r = bi) c = None" using 1(2) by blast
      then have "bi \<notin> ref_block ` set c" by (auto simp: find_None_iff)
      then show ?thesis using Some one[OF Some] 1(1) by simp
    qed (simp add: 1(1))
  next
    case (2 i s e r)
    have "bi \<in> ref_block ` set c"
      using 2(3) by (auto simp: find_Some_iff)
    moreover have "ref_of names tools mi bi (fst (clear_block c bi b)) = None"
      using cleared_starts by (auto simp: 2(2) ref_of_def split: option.split)
    ultimately show ?thesis
      using one by (auto split: option.split)
  qed
  then show ?case
    by (simp add: fst_clear_blocks_Cons Cons.IH del: clear_blocks.simps(2))
qed simp

lemma message_refs_clear:
  "message_refs names tools k mi (fst (clear_messages t mi ms))
   = filter (\<lambda>r. ref_key r \<notin> ref_key ` set t) (message_refs names tools k mi ms)"
proof (induction ms arbitrary: mi)
  case (Cons m ms)
  let ?b = "block_refs names tools mi 0 (msg_content m)"
  have "filter (\<lambda>r. ref_block r \<notin> ref_block ` set (filter (\<lambda>r. ref_message r = mi) t)) ?b
      = filter (\<lambda>r. ref_key r \<notin> ref_key ` set t) ?b"
    using block_refs_bounds[of _ names tools mi 0 "msg_content m"]
    by (intro filter_cong refl) force
  then show ?case
    by (simp add: fst_clear_messages_Cons block_refs_clear Cons.IH del: clear_messages.simps(2))
qed simp

lemma filter_not_taken:
  "distinct (map f xs) \<Longrightarrow> filter (\<lambda>x. f x \<notin> f ` set (take n xs)) xs = drop n xs"
proof (induction xs arbitrary: n)
  case (Cons x xs)
  show ?case
  proof (cases n)
    case (Suc k)
    have "f y \<noteq> f x" if "y \<in> set xs" for y
      using that Cons.prems by (metis distinct.simps(2) image_eqI list.set_map list.simps(9))
    then have "filter (\<lambda>y. f y \<notin> f ` set (take n (x # xs))) xs = filter (\<lambda>y. f y \<notin> f ` set (take k xs)) xs"
      using Suc by (intro filter_cong refl) simp
    then show ?thesis using Cons Suc by simp
  qed simp
qed simp

section \<open>Properties\<close>

lemma microcompact_messages:
  "fst (microcompact messages names config) =
     fst (clear_messages (take (length (collect_compactable_refs messages names (mc_compactable config))
         - mc_keep_recent config) (collect_compactable_refs messages names (mc_compactable config)))
       0 messages)"
proof -
  have "fst (clear_messages [] mi ms) = ms" for mi ms
    by (induction ms arbitrary: mi)
      (simp_all add: fst_clear_messages_Cons clear_blocks_nil del: clear_messages.simps(2))
  then show ?thesis by (simp add: microcompact_def Let_def case_prod_beta)
qed

text \<open>Microcompaction keeps exactly the most recent results: of the results that could be
  cleared, the last \<open>keepRecent\<close> are the ones that still can be afterwards, so that a second
  compaction changes nothing; the count it reports is the number of results it cleared.\<close>
theorem microcompact_keeps_recent:
  "collect_compactable_refs (fst (microcompact messages names config)) names (mc_compactable config)
     = keep_last (collect_compactable_refs messages names (mc_compactable config)) (mc_keep_recent config)
   \<and> fst (microcompact (fst (microcompact messages names config)) names config)
     = fst (microcompact messages names config)
   \<and> mr_cleared (snd (microcompact messages names config))
     = length (collect_compactable_refs messages names (mc_compactable config)) - mc_keep_recent config"
proof -
  let ?out = "fst (microcompact messages names config)"
  let ?refs = "collect_compactable_refs messages names (mc_compactable config)"
  let ?t = "take (length ?refs - mc_keep_recent config) ?refs"
  have "find_current_turn_boundary ?out = find_current_turn_boundary messages"
    by (rule boundary_shape) (simp add: microcompact_messages shape_clear_messages)
  then have "collect_compactable_refs ?out names (mc_compactable config)
      = filter (\<lambda>r. ref_key r \<notin> ref_key ` set ?t) ?refs"
    by (simp add: collect_compactable_refs_def microcompact_messages message_refs_clear)
  also have "\<dots> = drop (length ?refs - mc_keep_recent config) ?refs"
    by (rule filter_not_taken) (simp add: collect_compactable_refs_def distinct_message_refs)
  finally have kept: "collect_compactable_refs ?out names (mc_compactable config)
      = keep_last ?refs (mc_keep_recent config)"
    by (simp add: keep_last_eq_drop)
  moreover have "fst (microcompact ?out names config) = ?out"
    by (simp add: microcompact_def[of ?out] Let_def kept)
  moreover have "mr_cleared (snd (microcompact messages names config))
      = length ?refs - mc_keep_recent config"
    by (simp add: microcompact_def Let_def case_prod_beta)
  ultimately show ?thesis by blast
qed

lemma clear_messages_beyond:
  "\<forall>r \<in> set t. ref_message r < k \<Longrightarrow> drop (k - mi) (fst (clear_messages t mi ms)) = drop (k - mi) ms"
proof (induction ms arbitrary: mi)
  case (Cons m ms)
  show ?case
  proof (cases "k - mi")
    case 0
    then have none: "filter (\<lambda>r. ref_message r = mi) t = []" using Cons.prems by (auto simp: filter_empty_conv)
    have "fst (clear_messages t (Suc mi) ms) = ms"
      using Cons.IH[OF Cons.prems, of "Suc mi"] 0 by simp
    then show ?thesis
      using 0 none by (simp add: fst_clear_messages_Cons clear_blocks_nil del: clear_messages.simps(2))
  next
    case (Suc j)
    then have "k - Suc mi = j" by simp
    then show ?thesis
      using Cons.IH[OF Cons.prems, of "Suc mi"] Suc
      by (simp add: fst_clear_messages_Cons del: clear_messages.simps(2))
  qed
qed simp

text \<open>Microcompaction touches nothing but the text of old tool results: the messages keep their
  number, roles, blocks and ids, so every call stays answered, and from the latest real user
  prompt on the transcript is unchanged.\<close>
theorem microcompact_preserves:
  "map message_shape (fst (microcompact messages names config)) = map message_shape messages
   \<and> drop (find_current_turn_boundary messages) (fst (microcompact messages names config))
     = drop (find_current_turn_boundary messages) messages"
proof
  let ?refs = "collect_compactable_refs messages names (mc_compactable config)"
  show "map message_shape (fst (microcompact messages names config)) = map message_shape messages"
    by (simp add: microcompact_messages shape_clear_messages)
  have "\<forall>r \<in> set (take (length ?refs - mc_keep_recent config) ?refs).
      ref_message r < find_current_turn_boundary messages"
    by (auto simp: collect_compactable_refs_def dest!: in_set_takeD message_refs_bounds)
  from clear_messages_beyond[OF this, of 0 messages]
  show "drop (find_current_turn_boundary messages) (fst (microcompact messages names config))
      = drop (find_current_turn_boundary messages) messages"
    by (simp add: microcompact_messages)
qed

end
