(* ===== verification/Context_Management.thy ===== *)
theory Context_Management
  imports Messages
begin

text \<open>
  \<open>packages/sdk/src/compact/contextManagement.ts\<close>: the host reduces the context, the SDK validates
  what it returns before it replaces the history. The port of the host is what one call of
  \<open>reduce\<close> did (\<open>port_outcome\<close>); \<open>encode\<close> is the JSON text of one message.
\<close>

section \<open>Limits and requests\<close>

record context_limits =
  cl_max_history_bytes :: js_number
  cl_context_window_tokens :: "js_number option"
  cl_max_overflow_retries :: "js_number option"

datatype context_reason = Reason_budget | Reason_overflow

record context_reduction =
  red_messages :: "message list"
  red_usage :: "token_usage option"
  red_cost :: "js_number option"

datatype port_outcome = Port_threw string | Port_returned "context_reduction option"

record context_info =
  ci_applied :: bool
  ci_reason :: context_reason
  ci_before_bytes :: nat
  ci_after_bytes :: nat
  ci_usage :: "token_usage option"
  ci_cost :: "js_number option"

datatype context_failure =
    Context_error string "context_info option"
  | Context_aborted
  | Context_port_error string

definition positive_safe :: "js_number \<Rightarrow> bool" where
  "positive_safe n \<longleftrightarrow> is_safe_integer n \<and> \<not> js_less n (Num 1)"

definition valid_context_limits :: "context_limits \<Rightarrow> bool" where
  "valid_context_limits l \<longleftrightarrow>
     positive_safe (cl_max_history_bytes l)
     \<and> (case cl_context_window_tokens l of None \<Rightarrow> True | Some n \<Rightarrow> positive_safe n)
     \<and> (case cl_max_overflow_retries l of None \<Rightarrow> True | Some n \<Rightarrow> n = Num 0 \<or> n = Num 1)"

section \<open>Validation of a history\<close>

record validation =
  vs_expected :: "string list"
  vs_pending :: "string list"
  vs_seen :: "string list"
  vs_content :: bool
  vs_text :: bool

definition not_blank :: "string \<Rightarrow> bool" where
  "not_blank s \<longleftrightarrow> trim s \<noteq> []"

fun validate_block :: "role \<Rightarrow> validation \<Rightarrow> content_block \<Rightarrow> string + validation" where
  "validate_block r v (Text_block t) =
     Inr (v\<lparr>vs_content := vs_content v \<or> not_blank t, vs_text := vs_text v \<or> not_blank t\<rparr>)"
| "validate_block r v (Tool_use i n inp) =
     (if r \<noteq> Assistant \<or> i = [] \<or> n = [] \<or> i \<in> set (vs_seen v) then Inl ''invalid context tool call''
      else Inr (v\<lparr>vs_content := True, vs_seen := set_add i (vs_seen v),
             vs_pending := set_add i (vs_pending v)\<rparr>))"
| "validate_block r v (Tool_result i c e) =
     (if r \<noteq> User \<or> (case c of Result_string _ \<Rightarrow> False | Result_wire _ \<Rightarrow> True)
         \<or> i \<notin> set (vs_expected v) then Inl ''orphan context tool result''
      else Inr (v\<lparr>vs_content := True, vs_expected := removeAll i (vs_expected v)\<rparr>))"
| "validate_block r v (Thinking_block t sig) = Inr (v\<lparr>vs_content := vs_content v \<or> not_blank t\<rparr>)"
| "validate_block r v (Redacted_thinking d) = Inr (v\<lparr>vs_content := vs_content v \<or> not_blank d\<rparr>)"
| "validate_block r v (Encrypted_reasoning e) =
     (if r \<noteq> Assistant \<or> enc_content e = [] then Inl ''invalid encrypted reasoning''
      else Inr (v\<lparr>vs_content := True\<rparr>))"
| "validate_block r v (Image_block m d) = Inr (v\<lparr>vs_content := vs_content v \<or> d \<noteq> []\<rparr>)"

fun validate_blocks :: "role \<Rightarrow> validation \<Rightarrow> content_block list \<Rightarrow> string + validation" where
  "validate_blocks r v [] = Inr v"
| "validate_blocks r v (b # bs) =
     (case validate_block r v b of Inl e \<Rightarrow> Inl e | Inr v' \<Rightarrow> validate_blocks r v' bs)"

fun validate_messages :: "string list \<Rightarrow> string list \<Rightarrow> bool \<Rightarrow> message list \<Rightarrow> string + unit" where
  "validate_messages pending seen text' [] =
     (if pending \<noteq> [] then Inl ''context ends with unresolved tool calls''
      else if \<not> text' then Inl ''replacement context has no text'' else Inr ())"
| "validate_messages pending seen text' (m # ms) =
     (if msg_content m = [] then Inl ''invalid context message''
      else case validate_blocks (msg_role m)
             \<lparr>vs_expected = pending, vs_pending = [], vs_seen = seen, vs_content = False,
              vs_text = text'\<rparr> (msg_content m) of
        Inl e \<Rightarrow> Inl e
      | Inr v \<Rightarrow>
          if \<not> vs_content v then Inl ''empty context message''
          else if vs_expected v \<noteq> [] then Inl ''context tool adjacency is broken''
          else validate_messages (vs_pending v) (vs_seen v) (vs_text v) ms)"

definition validate_history :: "message list \<Rightarrow> string + unit" where
  "validate_history messages =
     (if messages = [] then Inl ''replacement context is empty''
      else validate_messages [] [] False messages)"

section \<open>The reduction\<close>

definition history_text :: "(message \<Rightarrow> string) \<Rightarrow> message list \<Rightarrow> string" where
  "history_text encode ms = ''['' @ join_strings '','' (map encode ms) @ '']''"

definition history_bytes :: "(message \<Rightarrow> string) \<Rightarrow> message list \<Rightarrow> nat" where
  "history_bytes encode ms = length (history_text encode ms)"

definition valid_amount :: "js_number \<Rightarrow> bool" where
  "valid_amount n \<longleftrightarrow> is_finite_number n \<and> \<not> js_less n (Num 0)"

definition last_text :: "(message \<Rightarrow> string) \<Rightarrow> message list \<Rightarrow> string option" where
  "last_text encode ms = (if ms = [] then None else Some (encode (last ms)))"

text \<open>
  \<open>aborted\<close>: whether the signal is aborted when the reduction starts; \<open>abort_message\<close>: what the
  signal throws, if it is aborted when the port has returned.
\<close>

definition check_replacement ::
  "(message \<Rightarrow> string) \<Rightarrow> context_limits \<Rightarrow> context_reason \<Rightarrow> string option \<Rightarrow> message list
   \<Rightarrow> message list \<Rightarrow> string + nat" where
  "check_replacement encode limits reason abort_message before after =
     (case abort_message of
        Some e \<Rightarrow> Inl e
      | None \<Rightarrow>
          (case validate_history after of
             Inl e \<Rightarrow> Inl e
           | Inr _ \<Rightarrow>
               if history_bytes encode after \<ge> history_bytes encode before
                 \<or> (reason = Reason_budget
                    \<and> js_less (cl_max_history_bytes limits) (Num (of_nat (history_bytes encode after))))
               then Inl ''replacement context did not fit or shrink''
               else if last_text encode after \<noteq> last_text encode before
               then Inl ''replacement changed the latest message''
               else Inr (history_bytes encode after)))"

definition reduce_context ::
  "(message \<Rightarrow> string) \<Rightarrow> context_limits \<Rightarrow> context_reason \<Rightarrow> bool \<Rightarrow> port_outcome \<Rightarrow> string option
   \<Rightarrow> message list \<Rightarrow> context_failure + message list \<times> context_info" where
  "reduce_context encode limits reason aborted outcome abort_message messages =
     (if \<not> valid_context_limits limits then Inl (Context_error ''invalid context limits'' None)
      else if aborted then Inl Context_aborted
      else case outcome of
        Port_threw e \<Rightarrow> Inl (Context_port_error e)
      | Port_returned None \<Rightarrow> Inl (Context_error ''invalid reduction result'' None)
      | Port_returned (Some res) \<Rightarrow>
          if (case red_usage res of None \<Rightarrow> False
              | Some u \<Rightarrow> list_ex (\<lambda>f. \<not> pred_option valid_amount (u f)) usage_fields)
          then Inl (Context_error ''invalid reduction usage'' None)
          else if \<not> pred_option valid_amount (red_cost res)
          then Inl (Context_error ''invalid reduction cost'' None)
          else
            let before_bytes = history_bytes encode messages;
                info = \<lparr>ci_applied = False, ci_reason = reason, ci_before_bytes = before_bytes,
                  ci_after_bytes = before_bytes, ci_usage = red_usage res, ci_cost = red_cost res\<rparr>
            in case check_replacement encode limits reason abort_message messages (red_messages res) of
                 Inl e \<Rightarrow> Inl (Context_error e (Some info))
               | Inr after_bytes \<Rightarrow>
                   Inr (red_messages res, info\<lparr>ci_applied := True, ci_after_bytes := after_bytes\<rparr>))"

section \<open>What a valid history is\<close>

text \<open>The contract in one place, apart from the order in which the code looks at it.\<close>

fun well_formed_block :: "role \<Rightarrow> content_block \<Rightarrow> bool" where
  "well_formed_block r (Tool_use i n _) = (r = Assistant \<and> i \<noteq> [] \<and> n \<noteq> [])"
| "well_formed_block r (Tool_result i c _) = (r = User \<and> (\<exists>s. c = Result_string s))"
| "well_formed_block r (Encrypted_reasoning e) = (r = Assistant \<and> enc_content e \<noteq> [])"
| "well_formed_block r _ = True"

fun meaningful_block :: "content_block \<Rightarrow> bool" where
  "meaningful_block (Text_block t) = not_blank t"
| "meaningful_block (Thinking_block t _) = not_blank t"
| "meaningful_block (Redacted_thinking d) = not_blank d"
| "meaningful_block (Image_block _ d) = (d \<noteq> [])"
| "meaningful_block _ = True"

fun text_block :: "content_block \<Rightarrow> bool" where
  "text_block (Text_block t) = not_blank t"
| "text_block _ = False"

definition valid_message :: "message \<Rightarrow> bool" where
  "valid_message m \<longleftrightarrow>
     list_all (well_formed_block (msg_role m)) (msg_content m)
     \<and> list_ex meaningful_block (msg_content m)"

text \<open>The calls of a message are answered, each once, by exactly the next message.\<close>

fun calls_paired :: "string list \<Rightarrow> message list \<Rightarrow> bool" where
  "calls_paired calls [] \<longleftrightarrow> calls = []"
| "calls_paired calls (m # ms) \<longleftrightarrow>
     distinct (answer_ids (msg_content m)) \<and> set (answer_ids (msg_content m)) = set calls
     \<and> calls_paired (use_ids (msg_content m)) ms"

definition all_use_ids :: "message list \<Rightarrow> string list" where
  "all_use_ids ms = concat (map (\<lambda>m. use_ids (msg_content m)) ms)"

definition valid_history :: "message list \<Rightarrow> bool" where
  "valid_history ms \<longleftrightarrow>
     ms \<noteq> [] \<and> list_all valid_message ms \<and> distinct (all_use_ids ms) \<and> calls_paired [] ms
     \<and> list_ex (\<lambda>m. list_ex text_block (msg_content m)) ms"

definition blocks_ok :: "role \<Rightarrow> validation \<Rightarrow> content_block list \<Rightarrow> bool" where
  "blocks_ok r v bs \<longleftrightarrow>
     list_all (well_formed_block r) bs
     \<and> distinct (use_ids bs) \<and> set (use_ids bs) \<inter> set (vs_seen v) = {}
     \<and> distinct (answer_ids bs) \<and> set (answer_ids bs) \<subseteq> set (vs_expected v)"

definition validated :: "validation \<Rightarrow> content_block list \<Rightarrow> validation" where
  "validated v bs = \<lparr>vs_expected = filter (\<lambda>i. i \<notin> set (answer_ids bs)) (vs_expected v),
     vs_pending = vs_pending v @ use_ids bs, vs_seen = vs_seen v @ use_ids bs,
     vs_content = (vs_content v \<or> list_ex meaningful_block bs),
     vs_text = (vs_text v \<or> list_ex text_block bs)\<rparr>"

lemma filter_removeAll: "filter P (removeAll x xs) = filter (\<lambda>i. i \<noteq> x \<and> P i) xs"
  by (induction xs) auto

lemma validate_blocks_correct:
  assumes "set (vs_pending v) \<subseteq> set (vs_seen v)"
  shows "case validate_blocks r v bs of Inl _ \<Rightarrow> \<not> blocks_ok r v bs
    | Inr v' \<Rightarrow> blocks_ok r v bs \<and> v' = validated v bs"
  using assms
proof (induction bs arbitrary: v)
  case Nil
  show ?case by (simp add: blocks_ok_def validated_def)
next
  case (Cons b bs)
  show ?case
  proof (cases "validate_block r v b")
    case (Inl e)
    then have "\<not> blocks_ok r v (b # bs)"
      by (cases b) (auto simp: blocks_ok_def split: if_splits
          result_content.splits)
    then show ?thesis using Inl by simp
  next
    case (Inr v')
    have sub: "set (vs_pending v') \<subseteq> set (vs_seen v')"
      using Inr Cons.prems by (cases b) (auto split: if_splits)
    have ok: "blocks_ok r v (b # bs) \<longleftrightarrow> blocks_ok r v' bs"
      using Inr by (cases b) (auto simp: blocks_ok_def split: if_splits
          result_content.splits)
    have upd: "validated v (b # bs) = validated v' bs"
      using Inr Cons.prems
      by (cases b) (auto simp: validated_def set_add_def filter_removeAll split: if_splits)
    show ?thesis
      using Cons.IH[OF sub] unfolding ok upd validate_blocks.simps Inr by simp
  qed
qed

lemma validate_messages_correct:
  assumes "set pending \<subseteq> set seen"
  shows "validate_messages pending seen t ms = Inr () \<longleftrightarrow>
    list_all valid_message ms \<and> distinct (all_use_ids ms) \<and> set (all_use_ids ms) \<inter> set seen = {}
    \<and> calls_paired pending ms
    \<and> (t \<or> list_ex (\<lambda>m. list_ex text_block (msg_content m)) ms)"
  using assms
proof (induction ms arbitrary: pending seen t)
  case Nil
  show ?case by (auto simp: all_use_ids_def)
next
  case (Cons m ms)
  let ?bs = "msg_content m"
  let ?v = "\<lparr>vs_expected = pending, vs_pending = [], vs_seen = seen, vs_content = False, vs_text = t\<rparr>"
  have blocks: "case validate_blocks (msg_role m) ?v ?bs of Inl _ \<Rightarrow> \<not> blocks_ok (msg_role m) ?v ?bs
    | Inr v' \<Rightarrow> blocks_ok (msg_role m) ?v ?bs \<and> v' = validated ?v ?bs"
    by (rule validate_blocks_correct) simp
  have uses: "all_use_ids (m # ms) = use_ids ?bs @ all_use_ids ms"
    by (simp add: all_use_ids_def)
  show ?case
  proof (cases "validate_blocks (msg_role m) ?v ?bs")
    case (Inl e)
    then have "\<not> blocks_ok (msg_role m) ?v ?bs" using blocks by simp
    then have "\<not> (list_all valid_message (m # ms) \<and> distinct (all_use_ids (m # ms))
        \<and> set (all_use_ids (m # ms)) \<inter> set seen = {} \<and> calls_paired pending (m # ms))"
      unfolding uses by (auto simp: blocks_ok_def valid_message_def)
    then show ?thesis using Inl by auto
  next
    case (Inr v')
    then have ok: "blocks_ok (msg_role m) ?v ?bs" and v': "v' = validated ?v ?bs"
      using blocks by simp_all
    have sub: "set (use_ids ?bs) \<subseteq> set (seen @ use_ids ?bs)" by simp
    have msg: "valid_message m \<longleftrightarrow> list_ex meaningful_block ?bs"
      using ok by (simp add: valid_message_def blocks_ok_def)
    have adj: "vs_expected v' = [] \<longleftrightarrow> set (answer_ids ?bs) = set pending"
      using ok by (auto simp: v' validated_def blocks_ok_def filter_empty_conv)
    have ne: "list_ex meaningful_block ?bs \<Longrightarrow> ?bs \<noteq> []" by auto
    show ?thesis
    proof (cases "list_ex meaningful_block ?bs \<and> vs_expected v' = []")
      case False
      then show ?thesis using Inr msg adj v' by (auto simp: validated_def)
    next
      case True
      then have "validate_messages pending seen t (m # ms)
          = validate_messages (use_ids ?bs) (seen @ use_ids ?bs) (t \<or> list_ex text_block ?bs) ms"
        using Inr ne v' by (simp add: validated_def)
      then show ?thesis
        using Cons.IH[OF sub, of "t \<or> list_ex text_block ?bs"] True msg adj ok
        unfolding uses by (auto simp: blocks_ok_def)
    qed
  qed
qed

section \<open>Properties\<close>

lemma validate_history_iff: "(validate_history ms = Inr ()) = valid_history ms"
  using validate_messages_correct[of "[]" "[]" False ms]
  by (auto simp: validate_history_def valid_history_def)

text \<open>The validation of a replacement decides its contract: it accepts exactly the histories whose
  messages are well formed and not empty, whose call ids are never reused, whose calls are all
  answered once, by exactly the next message, and that contain some text.\<close>
theorem validate_history_correct: "(validate_history ms = Inr ()) = valid_history ms"
  by (rule validate_history_iff)

text \<open>C10: A context reduction cannot damage the history. When \<open>reduceContext\<close> returns messages, the
  run was not aborted, they form a valid history that is smaller than the one before and within the
  budget when the budget asked for it, they end in the same message, and a bill is well formed.\<close>
theorem reduce_context_safe:
  assumes "reduce_context encode limits reason aborted outcome abort_message messages = Inr (after, info)"
  shows "valid_history after
    \<and> history_bytes encode after < history_bytes encode messages
    \<and> (reason = Reason_overflow
       \<or> rat_of_nat (history_bytes encode after) \<le> number_value (cl_max_history_bytes limits))
    \<and> last_text encode after = last_text encode messages
    \<and> \<not> aborted \<and> abort_message = None
    \<and> pred_option valid_amount (ci_cost info)
    \<and> ci_applied info \<and> ci_after_bytes info = history_bytes encode after"
proof -
  have lim: "valid_context_limits limits" and ab: "\<not> aborted"
    using assms by (auto simp: reduce_context_def split: if_splits)
  obtain res where res: "outcome = Port_returned (Some res)" "pred_option valid_amount (red_cost res)"
    using assms lim ab
    by (auto simp: reduce_context_def split: port_outcome.splits option.splits if_splits)
  obtain k where k: "check_replacement encode limits reason abort_message messages (red_messages res) = Inr k"
    "after = red_messages res" "ci_applied info" "ci_after_bytes info = k" "ci_cost info = red_cost res"
    using assms lim ab res
    by (auto simp: reduce_context_def Let_def split: if_splits sum.splits)
  obtain r where n: "cl_max_history_bytes limits = Num r"
    using lim by (cases "cl_max_history_bytes limits") (auto simp: valid_context_limits_def positive_safe_def)
  have c: "abort_message = None" "validate_history after = Inr ()"
    "history_bytes encode after < history_bytes encode messages"
    "reason = Reason_overflow \<or> rat_of_nat (history_bytes encode after) \<le> number_value (cl_max_history_bytes limits)"
    "last_text encode after = last_text encode messages" "k = history_bytes encode after"
    using k(1) unfolding k(2)[symmetric]
    by (auto simp: check_replacement_def n not_less split: option.splits sum.splits if_splits
        intro: context_reason.exhaust[of reason])
  show ?thesis
    using c k(3-5) ab res(2) validate_history_iff by simp
qed

definition plain_text :: "message \<Rightarrow> string" where
  "plain_text m = concat (map (\<lambda>b. case b of Text_block t \<Rightarrow> t | _ \<Rightarrow> []) (msg_content m))"

definition small_limits :: context_limits where
  "small_limits = \<lparr>cl_max_history_bytes = Num 8, cl_context_window_tokens = None,
     cl_max_overflow_retries = Some (Num 1)\<rparr>"

definition long_history :: "message list" where
  "long_history = [user_message [Text_block ''aaaa''], assistant_message [Text_block ''bb''],
     user_message [Text_block ''c'']]"

definition summary_reduction :: context_reduction where
  "summary_reduction = \<lparr>red_messages = [user_message [Text_block ''c'']], red_usage = None,
     red_cost = Some (Num 1)\<rparr>"

theorem reduce_context_safe_witness:
  "\<exists>after info. reduce_context plain_text small_limits Reason_budget False
       (Port_returned (Some summary_reduction)) None long_history = Inr (after, info)
     \<and> valid_history after \<and> history_bytes plain_text after < history_bytes plain_text long_history"
proof -
  let ?r = "reduce_context plain_text small_limits Reason_budget False
       (Port_returned (Some summary_reduction)) None long_history"
  have valid: "validate_history [user_message [Text_block ''c'']] = Inr ()"
    by code_simp
  have bytes: "history_bytes plain_text [user_message [Text_block ''c'']] = 3"
    "history_bytes plain_text long_history = 11"
    by (simp_all add: history_bytes_def history_text_def plain_text_def long_history_def
        user_message_def assistant_message_def)
  have "\<exists>after info. ?r = Inr (after, info)"
    by (simp add: reduce_context_def Let_def summary_reduction_def small_limits_def check_replacement_def
        valid bytes last_text_def long_history_def valid_context_limits_def positive_safe_def
        max_safe_integer_def valid_amount_def)
      (simp add: bytes flip: long_history_def)
  then obtain after info where r: "?r = Inr (after, info)" by blast
  show ?thesis using r reduce_context_safe[OF r] by blast
qed

end
