(* ===== verification/Tool_Dispatch.thy ===== *)
theory Tool_Dispatch
  imports Transcript_Repair
begin

text \<open>
  \<open>packages/sdk/src/core/orchestrator.ts\<close>, the dispatch of one tool call (\<open>executeOne\<close>,
  \<open>executeOneUnchecked\<close>, \<open>formatToolResult\<close>, the \<open>persist\<close> and \<open>dispatch\<close> closures of
  \<open>runTools\<close>).

  Whatever the host supplies (permission callback, hooks, skill floor, tracer, observer, receipt
  store, abort signal, the tools themselves) is a function of the log of everything that happened
  before it is asked, and may throw. A dispatch is a function on the state that goes on with a
  value, returns a result early, or throws; the log it leaves is the sequence of its effects.
\<close>

section \<open>Tools and hosts\<close>

datatype 'a outcome = Threw string | Returned 'a

datatype observation_status = Obs_success | Obs_warning | Obs_error

record tool_observation =
  obs_status :: observation_status
  obs_summary :: string
  obs_next_actions :: "string list option"
  obs_artifacts :: "string list option"

datatype learn_status = Learn_success | Learn_error | Learn_denied | Learn_cancelled

text \<open>The effects, each with what it answered where later gates depend on it.\<close>

datatype effect =
    Did_observe learn_status
  | Did_trace string
  | Did_permission json bool        \<comment> \<open>input asked about, allowed\<close>
  | Did_pre_hook json bool          \<comment> \<open>input, blocked\<close>
  | Did_post_hook json
  | Did_floor json bool             \<comment> \<open>input, allowed\<close>
  | Did_validate json bool          \<comment> \<open>input, valid\<close>
  | Did_persist execution_state bool \<comment> \<open>receipt, stored\<close>
  | Did_call json
  | Did_fail                        \<comment> \<open>a callback threw\<close>

type_synonym run_log = "(string \<times> effect) list"

record tool_return =
  ret_data :: "json option"
  ret_observation :: "tool_observation option"
  ret_new_messages :: "message list option"

text \<open>\<open>rendered_content\<close> is \<open>None\<close> when the renderer returned something that is no string.\<close>

record rendered =
  rendered_content :: "string option"
  rendered_error :: bool

record tool =
  tool_name :: string
  tool_json_schema :: bool
  tool_parse :: "json \<Rightarrow> (string + json) outcome"
  tool_validate_input :: "(run_log \<Rightarrow> json \<Rightarrow> string option outcome) option"
  tool_call :: "run_log \<Rightarrow> json \<Rightarrow> tool_return outcome"
  tool_render :: "(json option \<Rightarrow> rendered outcome) option"
  tool_concurrency_safe :: "json \<Rightarrow> bool outcome"
  tool_read_only :: "json \<Rightarrow> bool outcome"
  tool_affected_paths :: "(json \<Rightarrow> string list outcome) option"

record permission =
  perm_allow :: bool
  perm_updated :: "json option"
  perm_reason :: "string option"

record hook_result =
  hook_block :: bool
  hook_reason :: "string option"
  hook_updated :: "json option"
  hook_context :: "string option"

record hook_runner =
  hook_pre :: "run_log \<Rightarrow> string \<Rightarrow> json \<Rightarrow> hook_result outcome"
  hook_post :: "run_log \<Rightarrow> string \<Rightarrow> json \<Rightarrow> json option \<Rightarrow> bool \<Rightarrow> hook_result outcome"

record host =
  host_can_use :: "(run_log \<Rightarrow> string \<Rightarrow> json \<Rightarrow> permission outcome) option"
  host_hooks :: "hook_runner option"
  host_floor :: "(run_log \<Rightarrow> string \<Rightarrow> json \<Rightarrow> permission outcome) option"
  host_aborted :: "run_log \<Rightarrow> bool"
  host_observe :: "(run_log \<Rightarrow> learn_status \<Rightarrow> unit outcome) option"
  host_trace :: "run_log \<Rightarrow> string \<Rightarrow> unit outcome"
  host_persist :: "(run_log \<Rightarrow> string \<Rightarrow> execution_state \<Rightarrow> unit outcome) option"
  host_hints :: "(string \<Rightarrow> json \<Rightarrow> string \<Rightarrow> string outcome) option"

section \<open>Dispatch steps\<close>

type_synonym dispatch_result = "content_block \<times> message list option"

record run_state =
  rs_log :: run_log
  rs_failure :: "string option"
  rs_started :: "string list"
  rs_completed :: "dispatch_result option"

datatype 'a step = Next 'a | Done dispatch_result | Thrown string

type_synonym 'a dispatch = "run_state \<Rightarrow> 'a step \<times> run_state"

definition return_next :: "'a \<Rightarrow> 'a dispatch" where
  "return_next x s = (Next x, s)"

definition finish :: "dispatch_result \<Rightarrow> 'a dispatch" where
  "finish r s = (Done r, s)"

definition throw :: "string \<Rightarrow> 'a dispatch" where
  "throw m s = (Thrown m, s)"

definition and_then :: "'a dispatch \<Rightarrow> ('a \<Rightarrow> 'b dispatch) \<Rightarrow> 'b dispatch" where
  "and_then m f s = (case m s of
     (Next x, s') \<Rightarrow> f x s' | (Done r, s') \<Rightarrow> (Done r, s') | (Thrown e, s') \<Rightarrow> (Thrown e, s'))"

definition record_effect :: "string \<Rightarrow> effect \<Rightarrow> run_state \<Rightarrow> run_state" where
  "record_effect i e s = s\<lparr>rs_log := rs_log s @ [(i, e)]\<rparr>"

text \<open>A callback of the host: it sees the log, its effect is recorded with what it answered.\<close>

definition ask :: "string \<Rightarrow> (run_log \<Rightarrow> 'a outcome) \<Rightarrow> ('a \<Rightarrow> effect) \<Rightarrow> 'a dispatch" where
  "ask i f eff s = (case f (rs_log s) of
     Threw m \<Rightarrow> (Thrown m, record_effect i Did_fail s)
   | Returned x \<Rightarrow> (Next x, record_effect i (eff x) s))"

definition error_result :: "string \<Rightarrow> string \<Rightarrow> content_block" where
  "error_result i text' = Tool_result i (Result_string text') True"

definition observe_learning :: "host \<Rightarrow> string \<Rightarrow> learn_status \<Rightarrow> unit dispatch" where
  "observe_learning h i st = (case host_observe h of
     None \<Rightarrow> return_next () | Some f \<Rightarrow> ask i (\<lambda>l. f l st) (\<lambda>_. Did_observe st))"

text \<open>An early return: the observer is told, the result is an error.\<close>

definition reject :: "host \<Rightarrow> string \<Rightarrow> learn_status \<Rightarrow> string \<Rightarrow> 'a dispatch" where
  "reject h i st text' =
     and_then (observe_learning h i st) (\<lambda>_. finish (error_result i text', None))"

definition trace :: "host \<Rightarrow> string \<Rightarrow> string \<Rightarrow> unit dispatch" where
  "trace h i ev = ask i (\<lambda>l. host_trace h l ev) (\<lambda>_. Did_trace ev)"

definition storage_failed_text :: string where
  "storage_failed_text = ''tool receipt storage failed; verify unknown effects before retrying''"

text \<open>The \<open>persist\<close> closure: a failed receipt is remembered, and stops a call that has not started.\<close>

definition persist :: "host \<Rightarrow> string \<Rightarrow> execution_state \<Rightarrow> unit dispatch" where
  "persist h i st s = (case host_persist h of
     None \<Rightarrow> (Next (), s)
   | Some f \<Rightarrow>
       (case f (rs_log s) i st of
          Returned _ \<Rightarrow>
            (Next (), let s' = record_effect i (Did_persist st True) s in
               if st = Exec_started then s'\<lparr>rs_started := i # rs_started s'\<rparr> else s')
        | Threw _ \<Rightarrow>
            (let s' = (record_effect i (Did_persist st False) s)
                 \<lparr>rs_failure := Some (value_or (rs_failure s) storage_failed_text)\<rparr>
             in if st = Exec_started then (Thrown storage_failed_text, s') else (Next (), s'))))"

definition truthy_text :: "string option \<Rightarrow> bool" where
  "truthy_text r \<longleftrightarrow> r \<noteq> None \<and> r \<noteq> Some []"

section \<open>The gates\<close>

text \<open>\<open>tool.inputJSONSchema ? input : safeParse(input)\<close>; \<open>bad\<close> is the text of the rejection.\<close>

definition parse_with :: "host \<Rightarrow> tool \<Rightarrow> string \<Rightarrow> (string \<Rightarrow> string) \<Rightarrow> json \<Rightarrow> json dispatch" where
  "parse_with h t i bad input =
     (if tool_json_schema t then return_next input
      else case tool_parse t input of
        Threw m \<Rightarrow> throw m
      | Returned (Inl issues) \<Rightarrow> reject h i Learn_error (bad issues)
      | Returned (Inr data) \<Rightarrow> return_next data)"

definition permission_gate :: "host \<Rightarrow> tool \<Rightarrow> string \<Rightarrow> json \<Rightarrow> json dispatch" where
  "permission_gate h t i input = (case host_can_use h of
     None \<Rightarrow> return_next input
   | Some f \<Rightarrow>
       and_then (ask i (\<lambda>l. f l (tool_name t) input) (\<lambda>p. Did_permission input (perm_allow p))) (\<lambda>p.
       and_then (trace h i ''permission_check'') (\<lambda>_.
         if \<not> perm_allow p
         then reject h i Learn_denied
           (if truthy_text (perm_reason p) then ''permission denied: '' @ the (perm_reason p)
            else ''permission denied'')
         else case perm_updated p of
           None \<Rightarrow> return_next input
         | Some u \<Rightarrow> parse_with h t i (\<lambda>e. ''permission-updated input validation failed: '' @ e) u)))"

text \<open>The input to go on with, and whether the hook rewrote it.\<close>

definition hook_gate :: "host \<Rightarrow> tool \<Rightarrow> string \<Rightarrow> json \<Rightarrow> (json \<times> bool) dispatch" where
  "hook_gate h t i input = (case host_hooks h of
     None \<Rightarrow> return_next (input, False)
   | Some hooks \<Rightarrow>
       and_then (ask i (\<lambda>l. hook_pre hooks l (tool_name t) input)
         (\<lambda>r. Did_pre_hook input (hook_block r))) (\<lambda>r.
         if hook_block r
         then reject h i Learn_denied
           (if truthy_text (hook_reason r) then ''hook denied: '' @ the (hook_reason r) else ''hook denied'')
         else case hook_updated r of
           None \<Rightarrow> return_next (input, False)
         | Some u \<Rightarrow> and_then (parse_with h t i (\<lambda>e. ''hook-updated input validation failed: '' @ e) u)
             (\<lambda>data. return_next (data, True))))"

text \<open>Under an active skill a hook's rewrite is put to the host again.\<close>

definition rewrite_gate :: "host \<Rightarrow> tool \<Rightarrow> string \<Rightarrow> json \<times> bool \<Rightarrow> json dispatch" where
  "rewrite_gate h t i = (\<lambda>(input, rewritten).
     case host_can_use h of
       None \<Rightarrow> return_next input
     | Some f \<Rightarrow>
         if host_floor h = None \<or> \<not> rewritten then return_next input
         else
           and_then (ask i (\<lambda>l. f l (tool_name t) input) (\<lambda>p. Did_permission input (perm_allow p))) (\<lambda>p.
           and_then (trace h i ''permission_check'') (\<lambda>_.
             if \<not> perm_allow p
             then reject h i Learn_denied
               (''permission denied: '' @ value_or (perm_reason p) ''hook rewrite denied by host'')
             else case perm_updated p of
               None \<Rightarrow> return_next input
             | Some u \<Rightarrow>
                 if tool_json_schema t then return_next u
                 else case tool_parse t u of
                   Threw m \<Rightarrow> throw m
                 | Returned (Inl _) \<Rightarrow> finish (error_result i
                     ''permission-updated input validation failed after hook rewrite'', None)
                 | Returned (Inr data) \<Rightarrow> return_next data)))"

definition floor_gate :: "host \<Rightarrow> tool \<Rightarrow> string \<Rightarrow> json \<Rightarrow> json dispatch" where
  "floor_gate h t i input = (case host_floor h of
     None \<Rightarrow> return_next input
   | Some f \<Rightarrow>
       and_then (ask i (\<lambda>l. f l (tool_name t) input) (\<lambda>p. Did_floor input (perm_allow p))) (\<lambda>p.
         if perm_allow p then return_next input
         else finish (error_result i
           (''permission denied: '' @ value_or (perm_reason p) ''outside skill scope''), None)))"

definition validate_gate :: "host \<Rightarrow> tool \<Rightarrow> string \<Rightarrow> json \<Rightarrow> json dispatch" where
  "validate_gate h t i input = (case tool_validate_input t of
     None \<Rightarrow> return_next input
   | Some f \<Rightarrow>
       and_then (ask i (\<lambda>l. f l input) (\<lambda>r. Did_validate input (r = None))) (\<lambda>r.
         case r of None \<Rightarrow> return_next input
         | Some reason \<Rightarrow> reject h i Learn_error (''input validation failed: '' @ reason)))"

definition abort_gate :: "host \<Rightarrow> string \<Rightarrow> 'a \<Rightarrow> 'a dispatch" where
  "abort_gate h i x s =
     (if host_aborted h (rs_log s)
      then reject h i Learn_cancelled ''tool dispatch cancelled before execution'' s
      else (Next x, s))"

definition start_gate :: "host \<Rightarrow> string \<Rightarrow> json \<Rightarrow> json dispatch" where
  "start_gate h i input =
     and_then (trace h i ''tool_start'') (\<lambda>_.
     and_then (abort_gate h i input) (\<lambda>input.
     and_then (persist h i Exec_started) (\<lambda>_. return_next input)))"

definition all_gates :: "host \<Rightarrow> tool \<Rightarrow> string \<Rightarrow> json \<Rightarrow> json dispatch" where
  "all_gates h t i input =
     and_then (abort_gate h i input) (\<lambda>input.
     and_then (parse_with h t i (\<lambda>e. ''input validation failed: '' @ e) input) (\<lambda>input.
     and_then (permission_gate h t i input) (\<lambda>input.
     and_then (hook_gate h t i input) (\<lambda>input.
     and_then (rewrite_gate h t i input) (\<lambda>input.
     and_then (floor_gate h t i input) (\<lambda>input.
     and_then (validate_gate h t i input) (\<lambda>input.
       start_gate h i input)))))))"

section \<open>The call and its result\<close>

text \<open>\<open>JSON.stringify(value, null, 2)\<close> at an indentation.\<close>

definition newline :: string where "newline = [CHR 0x0A]"

definition indent :: "nat \<Rightarrow> string" where "indent n = replicate (2 * n) CHR '' ''"

fun json_pretty :: "nat \<Rightarrow> json \<Rightarrow> string" where
  "json_pretty d (JArray xs) =
     (if xs = [] then ''[]''
      else ''['' @ newline @ join_strings ('','' @ newline)
             (map (\<lambda>x. indent (Suc d) @ json_pretty (Suc d) x) xs) @ newline @ indent d @ '']'')"
| "json_pretty d (JObject kvs) =
     (if kvs = [] then ''{}''
      else ''{'' @ newline @ join_strings ('','' @ newline)
             (map (\<lambda>(k, v). indent (Suc d) @ json_quote k @ '': '' @ json_pretty (Suc d) v) kvs)
             @ newline @ indent d @ ''}'')"
| "json_pretty d v = json_stringify v"

definition data_text :: "json option \<Rightarrow> string option" where
  "data_text data = (case data of None \<Rightarrow> None | Some (JString s) \<Rightarrow> Some s
     | Some v \<Rightarrow> Some (json_pretty 0 v))"

fun status_text :: "observation_status \<Rightarrow> string" where
  "status_text Obs_success = ''success''"
| "status_text Obs_warning = ''warning''"
| "status_text Obs_error = ''error''"

definition listed :: "string \<Rightarrow> string list option \<Rightarrow> string list" where
  "listed heading items = (case items of
     None \<Rightarrow> [] | Some xs \<Rightarrow> if xs = [] then [] else heading # map (\<lambda>x. ''  - '' @ x) xs)"

definition render_observation_header :: "tool_observation \<Rightarrow> string" where
  "render_observation_header o' = join_strings newline
     ([''status: '' @ status_text (obs_status o'), ''summary: '' @ obs_summary o']
      @ listed ''next_actions:'' (obs_next_actions o') @ listed ''artifacts:'' (obs_artifacts o'))"

definition observation_failed :: "tool_observation option \<Rightarrow> bool" where
  "observation_failed o' \<longleftrightarrow> (case o' of None \<Rightarrow> False | Some x \<Rightarrow> obs_status x = Obs_error)"

text \<open>\<open>formatToolResult\<close>; the exception's text is what the renderer threw.\<close>

definition format_tool_result ::
  "tool \<Rightarrow> string \<Rightarrow> json option \<Rightarrow> tool_observation option \<Rightarrow> content_block outcome" where
  "format_tool_result t i data o' =
     (case (case tool_render t of
              Some f \<Rightarrow> f data
            | None \<Rightarrow> Returned \<lparr>rendered_content = data_text data, rendered_error = False\<rparr>) of
        Threw m \<Rightarrow> Threw m
      | Returned r \<Rightarrow>
          (case rendered_content r of
             None \<Rightarrow> Threw ''tool renderer must return string content''
           | Some text' \<Rightarrow> Returned (Tool_result i
               (Result_string (case o' of None \<Rightarrow> text'
                  | Some x \<Rightarrow> render_observation_header x @ newline @ newline @ text'))
               (rendered_error r \<or> observation_failed o'))))"

definition user_new_messages :: "message list option \<Rightarrow> string \<Rightarrow> message list option outcome" where
  "user_new_messages nm name = (case nm of
     None \<Rightarrow> Returned None
   | Some ms \<Rightarrow>
       if ms = [] then Returned None
       else if list_all (\<lambda>m. msg_role m = User) ms then Returned (Some ms)
       else Threw (''ToolResult.newMessages currently supports role:'' @ [CHR 0x27] @ ''user''
         @ [CHR 0x27] @ '' only; got role:'' @ [CHR 0x27] @ ''assistant'' @ [CHR 0x27]
         @ '' from tool '' @ [CHR 0x27] @ name @ [CHR 0x27]))"

text \<open>\<open>onResult\<close>: the receipt of a completed effect, kept for the dispatch wrapper and persisted.\<close>

definition on_result :: "host \<Rightarrow> string \<Rightarrow> content_block \<Rightarrow> message list option \<Rightarrow> unit dispatch" where
  "on_result h i b nm s = persist h i Exec_completed (s\<lparr>rs_completed := Some (b, nm)\<rparr>)"

definition call_tool :: "tool \<Rightarrow> string \<Rightarrow> json \<Rightarrow> (tool_return \<times> string option) dispatch" where
  "call_tool t i input s =
     (let s' = record_effect i (Did_call input) s in
      case tool_call t (rs_log s) input of
        Returned r \<Rightarrow> (Next (r, None), s')
      | Threw m \<Rightarrow> (Next (\<lparr>ret_data = Some (JString (''tool threw: '' @ m)), ret_observation = None,
          ret_new_messages = None\<rparr>, Some m), s'))"

definition format_result ::
  "host \<Rightarrow> tool \<Rightarrow> string \<Rightarrow> tool_return \<Rightarrow> string option \<Rightarrow> (content_block \<times> message list option) dispatch" where
  "format_result h t i r err =
     (case (if err \<noteq> None then Returned (error_result i (value_or (data_text (ret_data r)) []))
            else format_tool_result t i (ret_data r) (ret_observation r)) of
        Threw m \<Rightarrow>
          (let fallback = Tool_result i (Result_string (value_or (data_text (ret_data r))
             ''[tool completed; output could not be rendered]'')) False
           in case user_new_messages (ret_new_messages r) (tool_name t) of
                Threw m' \<Rightarrow> and_then (on_result h i fallback None) (\<lambda>_. throw m')
              | Returned nm \<Rightarrow> and_then (on_result h i fallback nm) (\<lambda>_. throw m))
      | Returned formatted \<Rightarrow>
          (case user_new_messages (ret_new_messages r) (tool_name t) of
             Threw m \<Rightarrow> and_then (on_result h i formatted None) (\<lambda>_. throw m)
           | Returned nm \<Rightarrow> and_then (on_result h i formatted nm) (\<lambda>_. return_next (formatted, nm))))"

definition result_text :: "content_block \<Rightarrow> string" where
  "result_text b = (case b of Tool_result _ (Result_string s) _ \<Rightarrow> s | _ \<Rightarrow> [])"

definition result_error :: "content_block \<Rightarrow> bool" where
  "result_error b = (case b of Tool_result _ _ e \<Rightarrow> e | _ \<Rightarrow> False)"

definition post_hook :: "host \<Rightarrow> tool \<Rightarrow> string \<Rightarrow> json \<Rightarrow> tool_return \<Rightarrow> content_block \<Rightarrow> content_block dispatch" where
  "post_hook h t i input r b = (case host_hooks h of
     None \<Rightarrow> return_next b
   | Some hooks \<Rightarrow>
       and_then (ask i (\<lambda>l. hook_post hooks l (tool_name t) input (ret_data r) (result_error b))
         (\<lambda>_. Did_post_hook input)) (\<lambda>p.
         return_next (if truthy_text (hook_context p)
           then Tool_result i (Result_string (result_text b @ newline @ newline @ ''---'' @ newline
             @ the (hook_context p))) (result_error b)
           else b)))"

definition observe_outcome :: "host \<Rightarrow> string \<Rightarrow> tool_return \<Rightarrow> string option \<Rightarrow> unit dispatch" where
  "observe_outcome h i r err s =
     observe_learning h i
       (if err \<noteq> None then (if host_aborted h (rs_log s) then Learn_cancelled else Learn_error)
        else if observation_failed (ret_observation r) then Learn_error else Learn_success) s"

definition append_hints :: "host \<Rightarrow> tool \<Rightarrow> string \<Rightarrow> json \<Rightarrow> content_block \<Rightarrow> content_block dispatch" where
  "append_hints h t i input b = (case host_hints h of
     None \<Rightarrow> return_next b
   | Some f \<Rightarrow>
       if result_error b then return_next b
       else case f (tool_name t) input (result_text b) of
         Threw m \<Rightarrow> throw m
       | Returned text' \<Rightarrow> return_next (Tool_result i (Result_string text') (result_error b)))"

definition run_call :: "host \<Rightarrow> tool \<Rightarrow> string \<Rightarrow> json \<Rightarrow> dispatch_result dispatch" where
  "run_call h t i input =
     and_then (call_tool t i input) (\<lambda>(r, err).
     and_then (format_result h t i r err) (\<lambda>(formatted, nm).
     and_then (trace h i (if err \<noteq> None then ''tool_error'' else ''tool_end'')) (\<lambda>_.
     and_then (post_hook h t i input r formatted) (\<lambda>final.
     and_then (on_result h i final nm) (\<lambda>_.
     and_then (observe_outcome h i r err) (\<lambda>_.
     and_then (append_hints h t i input final) (\<lambda>b. return_next (b, nm))))))))"

definition execute_one_unchecked ::
  "host \<Rightarrow> (string \<Rightarrow> tool option) \<Rightarrow> string \<Rightarrow> string \<Rightarrow> json \<Rightarrow> dispatch_result dispatch" where
  "execute_one_unchecked h tools i name input =
     (case tools name of
        None \<Rightarrow> reject h i Learn_error (''unknown tool: '' @ name)
      | Some t \<Rightarrow> and_then (all_gates h t i input) (run_call h t i))"

definition execute_one ::
  "host \<Rightarrow> (string \<Rightarrow> tool option) \<Rightarrow> string \<Rightarrow> string \<Rightarrow> json \<Rightarrow> run_state \<Rightarrow> dispatch_result \<times> run_state" where
  "execute_one h tools i name input s =
     (case execute_one_unchecked h tools i name input (s\<lparr>rs_completed := None\<rparr>) of
        (Next r, s') \<Rightarrow> (r, s')
      | (Done r, s') \<Rightarrow> (r, s')
      | (Thrown m, s') \<Rightarrow>
          (let receipt = (case rs_completed s' of None \<Rightarrow> []
                 | Some (b, _) \<Rightarrow> result_text b @ newline @ newline)
           in ((error_result i (receipt @ ''tool dispatch failed: '' @ m),
                case rs_completed s' of None \<Rightarrow> None | Some (_, nm) \<Rightarrow> nm), s')))"

text \<open>The \<open>dispatch\<close> closure of \<open>runTools\<close>.\<close>

definition dispatch_block ::
  "host \<Rightarrow> (string \<Rightarrow> tool option) \<Rightarrow> string \<Rightarrow> string \<Rightarrow> json \<Rightarrow> run_state \<Rightarrow> dispatch_result \<times> run_state" where
  "dispatch_block h tools i name input s =
     (if rs_failure s \<noteq> None then ((error_result i ''tool was not started: storage failed'', None), s)
      else
        let (r, s') = execute_one h tools i name input s
        in (r, snd (persist h i
              (if rs_failure s' \<noteq> None \<and> i \<notin> set (rs_started s') then Exec_interrupted
               else Exec_completed) s')))"

section \<open>Reasoning about dispatch steps\<close>

text \<open>From states satisfying \<open>P\<close>, going on satisfies \<open>Q\<close>, an early result \<open>R\<close>, an exception \<open>E\<close>.\<close>

fun meets ::
  "('a \<Rightarrow> run_state \<Rightarrow> bool) \<Rightarrow> (dispatch_result \<Rightarrow> run_state \<Rightarrow> bool) \<Rightarrow> (run_state \<Rightarrow> bool)
   \<Rightarrow> 'a step \<times> run_state \<Rightarrow> bool" where
  "meets Q R E (Next x, s) = Q x s"
| "meets Q R E (Done r, s) = R r s"
| "meets Q R E (Thrown e, s) = E s"

definition dspec ::
  "(run_state \<Rightarrow> bool) \<Rightarrow> 'a dispatch \<Rightarrow> ('a \<Rightarrow> run_state \<Rightarrow> bool)
   \<Rightarrow> (dispatch_result \<Rightarrow> run_state \<Rightarrow> bool) \<Rightarrow> (run_state \<Rightarrow> bool) \<Rightarrow> bool" where
  "dspec P m Q R E \<longleftrightarrow> (\<forall>s. P s \<longrightarrow> meets Q R E (m s))"

lemma meets_mono:
  "meets Q R E r \<Longrightarrow> (\<And>x s. Q x s \<Longrightarrow> Q' x s) \<Longrightarrow> (\<And>x s. R x s \<Longrightarrow> R' x s) \<Longrightarrow> (\<And>s. E s \<Longrightarrow> E' s)
   \<Longrightarrow> meets Q' R' E' r"
  by (cases "(Q, R, E, r)" rule: meets.cases) auto

lemma dspec_and_then:
  assumes "dspec P m Q R E" "\<And>x. dspec (Q x) (f x) Q' R E"
  shows "dspec P (and_then m f) Q' R E"
  unfolding dspec_def
proof (intro allI impI)
  fix s assume "P s"
  with assms(1) have m: "meets Q R E (m s)" by (simp add: dspec_def)
  obtain st s' where ms: "m s = (st, s')" by (cases "m s")
  show "meets Q' R E (and_then m f s)"
  proof (cases st)
    case (Next x)
    then have "Q x s'" using m ms by simp
    then show ?thesis using assms(2)[of x] Next ms by (simp add: and_then_def dspec_def)
  qed (use m ms in \<open>simp_all add: and_then_def\<close>)
qed

lemma dspec_pre: "(\<And>s. P s \<Longrightarrow> P' s) \<Longrightarrow> dspec P' m Q R E \<Longrightarrow> dspec P m Q R E"
  by (auto simp: dspec_def)

lemma dspec_weaken:
  assumes "dspec P m Q R E" "\<And>x s. Q x s \<Longrightarrow> Q' x s" "\<And>x s. R x s \<Longrightarrow> R' x s" "\<And>s. E s \<Longrightarrow> E' s"
  shows "dspec P m Q' R' E'"
  unfolding dspec_def
proof (intro allI impI)
  fix s assume "P s"
  with assms(1) have "meets Q R E (m s)" by (simp add: dspec_def)
  then show "meets Q' R' E' (m s)" by (rule meets_mono) (use assms(2-4) in simp_all)
qed

lemma dspec_post:
  "dspec P m Q R E \<Longrightarrow> (\<And>x s. Q x s \<Longrightarrow> Q' x s) \<Longrightarrow> dspec P m Q' R E"
  by (rule dspec_weaken)

lemma dspec_return: "(\<And>s. P s \<Longrightarrow> Q x s) \<Longrightarrow> dspec P (return_next x) Q R E"
  by (simp add: dspec_def return_next_def)

lemma dspec_finish: "(\<And>s. P s \<Longrightarrow> R r s) \<Longrightarrow> dspec P (finish r) Q R E"
  by (simp add: dspec_def finish_def)

lemma dspec_throw: "(\<And>s. P s \<Longrightarrow> E s) \<Longrightarrow> dspec P (throw m) Q R E"
  by (simp add: dspec_def throw_def)

fun is_call :: "effect \<Rightarrow> bool" where
  "is_call (Did_call _) = True"
| "is_call _ = False"

text \<open>The answers that must stop a call.\<close>

fun is_denial :: "effect \<Rightarrow> bool" where
  "is_denial (Did_permission _ ok) = (\<not> ok)"
| "is_denial (Did_pre_hook _ blocked) = blocked"
| "is_denial (Did_floor _ ok) = (\<not> ok)"
| "is_denial (Did_validate _ ok) = (\<not> ok)"
| "is_denial (Did_persist st ok) = (st = Exec_started \<and> \<not> ok)"
| "is_denial _ = False"

definition no_call :: "run_log \<Rightarrow> bool" where
  "no_call l \<longleftrightarrow> list_all (\<lambda>x. \<not> is_call (snd x)) l"

definition all_clear :: "run_log \<Rightarrow> bool" where
  "all_clear l \<longleftrightarrow> list_all (\<lambda>x. \<not> is_call (snd x) \<and> \<not> is_denial (snd x)) l"

lemma no_call_simps [simp]:
  "no_call []" "no_call (l @ l') \<longleftrightarrow> no_call l \<and> no_call l'"
  "no_call (x # l) \<longleftrightarrow> \<not> is_call (snd x) \<and> no_call l"
  by (auto simp: no_call_def)

lemma all_clear_simps [simp]:
  "all_clear []" "all_clear (l @ l') \<longleftrightarrow> all_clear l \<and> all_clear l'"
  "all_clear (x # l) \<longleftrightarrow> \<not> is_call (snd x) \<and> \<not> is_denial (snd x) \<and> all_clear l"
  by (auto simp: all_clear_def)

lemma all_clear_no_call: "all_clear l \<Longrightarrow> no_call l"
  by (auto simp: all_clear_def no_call_def list_all_iff)

text \<open>\<open>grown L P\<close>: the log is \<open>L\<close> and then a part that satisfies \<open>P\<close>.\<close>

definition grown :: "run_log \<Rightarrow> (run_log \<Rightarrow> bool) \<Rightarrow> run_state \<Rightarrow> bool" where
  "grown L P s \<longleftrightarrow> (\<exists>l. rs_log s = L @ l \<and> P l)"

definition result_block :: "string \<Rightarrow> content_block \<Rightarrow> bool" where
  "result_block i b \<longleftrightarrow> (\<exists>t e. b = Tool_result i (Result_string t) e)"

definition rejected :: "run_log \<Rightarrow> string \<Rightarrow> dispatch_result \<Rightarrow> run_state \<Rightarrow> bool" where
  "rejected L i r s \<longleftrightarrow> (\<exists>t. r = (error_result i t, None)) \<and> grown L no_call s"

abbreviation gate_spec ::
  "run_log \<Rightarrow> string \<Rightarrow> (run_log \<Rightarrow> bool) \<Rightarrow> 'a dispatch \<Rightarrow> ('a \<Rightarrow> run_log \<Rightarrow> bool) \<Rightarrow> bool" where
  "gate_spec L i P m Q \<equiv> dspec (grown L (\<lambda>l. all_clear l \<and> P l)) m
     (\<lambda>x. grown L (\<lambda>l. all_clear l \<and> Q x l)) (rejected L i) (grown L no_call)"

abbreviation stops :: "run_log \<Rightarrow> string \<Rightarrow> 'a dispatch \<Rightarrow> bool" where
  "stops L i m \<equiv> dspec (grown L no_call) m (\<lambda>_ _. False) (rejected L i) (grown L no_call)"

lemma grown_record: "grown L P s \<Longrightarrow> (\<And>l. P l \<Longrightarrow> Q (l @ [(i, e)])) \<Longrightarrow> grown L Q (record_effect i e s)"
  by (auto simp: grown_def record_effect_def)

lemma dspec_ask:
  assumes "\<And>s x. P s \<Longrightarrow> Q x (record_effect i (eff x) s)"
    and "\<And>s. P s \<Longrightarrow> E (record_effect i Did_fail s)"
  shows "dspec P (ask i f eff) Q R E"
  using assms by (auto simp: dspec_def ask_def split: outcome.split)

lemma stops_reject: "stops L i (reject h i st t)"
proof -
  have "dspec (grown L no_call) (observe_learning h i st) (\<lambda>_. grown L no_call) (rejected L i)
      (grown L no_call)"
    unfolding observe_learning_def
    by (cases "host_observe h")
      (auto intro!: dspec_return dspec_ask elim!: grown_record)
  then show ?thesis
    unfolding reject_def
    by (rule dspec_and_then) (auto intro!: dspec_finish simp: rejected_def)
qed

lemma gate_of_stops: "stops L i m \<Longrightarrow> gate_spec L i P m Q"
  by (rule dspec_pre[where P' = "grown L no_call"], force simp: grown_def dest: all_clear_no_call)
    (rule dspec_post, assumption, simp)

lemmas gate_reject = gate_of_stops[OF stops_reject]

lemma gate_return: "(\<And>l. P l \<Longrightarrow> Q x l) \<Longrightarrow> gate_spec L i P (return_next x) Q"
  by (rule dspec_return) (auto simp: grown_def)

lemma gate_throw: "gate_spec L i P (throw m) Q"
  by (rule dspec_throw) (auto simp: grown_def dest: all_clear_no_call)

lemma gate_finish_error: "gate_spec L i P (finish (error_result i t, None)) Q"
  by (rule dspec_finish) (auto simp: rejected_def grown_def dest: all_clear_no_call)

lemma gate_ask_then:
  assumes call: "\<And>x. \<not> is_call (eff x)"
    and go: "\<And>x. \<not> is_denial (eff x) \<Longrightarrow> gate_spec L i (\<lambda>l. \<exists>l'. l = l' @ [(i, eff x)] \<and> P l') (f x) Q"
    and stop: "\<And>x. is_denial (eff x) \<Longrightarrow> stops L i (f x)"
  shows "gate_spec L i P (and_then (ask i c eff) f) Q"
proof (rule dspec_and_then)
  let ?M = "\<lambda>x s. if is_denial (eff x) then grown L no_call s
    else grown L (\<lambda>l. all_clear l \<and> (\<exists>l'. l = l' @ [(i, eff x)] \<and> P l')) s"
  show "dspec (grown L (\<lambda>l. all_clear l \<and> P l)) (ask i c eff) ?M (rejected L i) (grown L no_call)"
    using call by (intro dspec_ask) (auto elim!: grown_record dest: all_clear_no_call)
  show "dspec (?M x) (f x) (\<lambda>x. grown L (\<lambda>l. all_clear l \<and> Q x l)) (rejected L i) (grown L no_call)"
    for x
  proof (cases "is_denial (eff x)")
    case True
    then have "dspec (grown L no_call) (f x) (\<lambda>x. grown L (\<lambda>l. all_clear l \<and> Q x l))
        (rejected L i) (grown L no_call)"
      using stop by (intro dspec_post[OF stop]) auto
    with True show ?thesis by simp
  next
    case False
    with go show ?thesis by simp
  qed
qed

lemma stops_trace_then: "(\<And>u. stops L i (f u)) \<Longrightarrow> stops L i (and_then (trace h i ev) f)"
  unfolding trace_def
  by (rule dspec_and_then[where Q = "\<lambda>_. grown L no_call"])
    (auto intro!: dspec_ask elim!: grown_record)

lemma gate_trace_then:
  "(\<And>u. gate_spec L i (\<lambda>l. \<exists>l' e. l = l' @ [e] \<and> P l') (f u) Q)
   \<Longrightarrow> gate_spec L i P (and_then (trace h i ev) f) Q"
  unfolding trace_def
proof (rule gate_ask_then)
  fix u assume f: "\<And>u. gate_spec L i (\<lambda>l. \<exists>l' e. l = l' @ [e] \<and> P l') (f u) Q"
  show "gate_spec L i (\<lambda>l. \<exists>l'. l = l' @ [(i, Did_trace ev)] \<and> P l') (f u) Q"
    by (rule dspec_pre[OF _ f]) (auto simp: grown_def)
qed simp_all

lemma gate_pre:
  "(\<And>l. P l \<Longrightarrow> P' l) \<Longrightarrow> gate_spec L i P' m Q \<Longrightarrow> gate_spec L i P m Q"
  by (rule dspec_pre[where P' = "grown L (\<lambda>l. all_clear l \<and> P' l)"]) (auto simp: grown_def)

lemma gate_parse: "gate_spec L i P (parse_with h t i bad input) (\<lambda>_. P)"
  unfolding parse_with_def
  by (auto intro: gate_return gate_reject gate_throw split: outcome.split sum.split)

section \<open>What each gate leaves behind\<close>

abbreviation asked_permission :: "host \<Rightarrow> string \<Rightarrow> run_log \<Rightarrow> bool" where
  "asked_permission h i l \<equiv> host_can_use h = None \<or> (\<exists>c. (i, Did_permission c True) \<in> set l)"

abbreviation asked_hook :: "host \<Rightarrow> string \<Rightarrow> run_log \<Rightarrow> bool" where
  "asked_hook h i l \<equiv> host_hooks h = None \<or> (\<exists>c. (i, Did_pre_hook c False) \<in> set l)"

abbreviation asked_floor :: "host \<Rightarrow> string \<Rightarrow> json \<Rightarrow> run_log \<Rightarrow> bool" where
  "asked_floor h i input l \<equiv> host_floor h = None \<or> (i, Did_floor input True) \<in> set l"

abbreviation asked_validation :: "tool \<Rightarrow> string \<Rightarrow> json \<Rightarrow> run_log \<Rightarrow> bool" where
  "asked_validation t i input l \<equiv> tool_validate_input t = None \<or> (i, Did_validate input True) \<in> set l"

lemma permission_gate_spec: "gate_spec L i (\<lambda>_. True) (permission_gate h t i input) (\<lambda>_. asked_permission h i)"
proof (cases "host_can_use h")
  case None
  then show ?thesis by (simp add: permission_gate_def) (rule dspec_return, simp)
next
  case (Some f)
  show ?thesis
    unfolding permission_gate_def Some option.case
  proof (rule gate_ask_then)
    fix p assume "\<not> is_denial (Did_permission input (perm_allow p))"
    then have ok: "perm_allow p" by simp
    let ?P = "\<lambda>l. (i, Did_permission input True) \<in> set l"
    have "gate_spec L i ?P (case perm_updated p of None \<Rightarrow> return_next input
        | Some u \<Rightarrow> parse_with h t i (\<lambda>e. ''permission-updated input validation failed: '' @ e) u)
        (\<lambda>_. asked_permission h i)"
      by (cases "perm_updated p")
        (auto intro!: gate_return intro: gate_pre[OF _ gate_parse])
    then show "gate_spec L i (\<lambda>l. \<exists>l'. l = l' @ [(i, Did_permission input (perm_allow p))] \<and> True)
        (and_then (trace h i ''permission_check'') (\<lambda>_.
         if \<not> perm_allow p then reject h i Learn_denied
           (if truthy_text (perm_reason p) then ''permission denied: '' @ the (perm_reason p)
            else ''permission denied'')
         else case perm_updated p of None \<Rightarrow> return_next input
         | Some u \<Rightarrow> parse_with h t i (\<lambda>e. ''permission-updated input validation failed: '' @ e) u))
        (\<lambda>_ l. Some f = None \<or> (\<exists>c. (i, Did_permission c True) \<in> set l))"
      using ok Some by (intro gate_trace_then) (auto elim!: gate_pre[rotated])
  next
    fix p assume "is_denial (Did_permission input (perm_allow p))"
    then show "stops L i (and_then (trace h i ''permission_check'') (\<lambda>_.
         if \<not> perm_allow p then reject h i Learn_denied
           (if truthy_text (perm_reason p) then ''permission denied: '' @ the (perm_reason p)
            else ''permission denied'')
         else case perm_updated p of None \<Rightarrow> return_next input
         | Some u \<Rightarrow> parse_with h t i (\<lambda>e. ''permission-updated input validation failed: '' @ e) u))"
      by (intro stops_trace_then) (simp add: stops_reject)
  qed simp
qed

lemma hook_gate_spec:
  "gate_spec L i (asked_permission h i) (hook_gate h t i input)
     (\<lambda>_ l. asked_permission h i l \<and> asked_hook h i l)"
proof (cases "host_hooks h")
  case None
  then show ?thesis by (auto simp: hook_gate_def intro: gate_return)
next
  case (Some hooks)
  show ?thesis
    unfolding hook_gate_def Some option.case
  proof (rule gate_ask_then)
    fix r assume "\<not> is_denial (Did_pre_hook input (hook_block r))"
    then have ok: "\<not> hook_block r" by simp
    let ?P = "\<lambda>l. asked_permission h i l \<and> (i, Did_pre_hook input False) \<in> set l"
    have "gate_spec L i ?P (case hook_updated r of None \<Rightarrow> return_next (input, False)
         | Some u \<Rightarrow> and_then (parse_with h t i (\<lambda>e. ''hook-updated input validation failed: '' @ e) u)
             (\<lambda>data. return_next (data, True)))
        (\<lambda>_ l. asked_permission h i l \<and> (Some hooks = None \<or> (\<exists>c. (i, Did_pre_hook c False) \<in> set l)))"
      by (auto intro!: gate_return dspec_and_then[OF gate_parse] split: option.split)
    then show "gate_spec L i (\<lambda>l. \<exists>l'. l = l' @ [(i, Did_pre_hook input (hook_block r))]
          \<and> asked_permission h i l')
        (if hook_block r then reject h i Learn_denied
           (if truthy_text (hook_reason r) then ''hook denied: '' @ the (hook_reason r) else ''hook denied'')
         else case hook_updated r of None \<Rightarrow> return_next (input, False)
         | Some u \<Rightarrow> and_then (parse_with h t i (\<lambda>e. ''hook-updated input validation failed: '' @ e) u)
             (\<lambda>data. return_next (data, True)))
        (\<lambda>_ l. asked_permission h i l \<and> (Some hooks = None \<or> (\<exists>c. (i, Did_pre_hook c False) \<in> set l)))"
      using ok by (auto elim!: gate_pre[rotated])
  qed (simp_all add: stops_reject)
qed

lemma rewrite_gate_spec:
  assumes mono: "\<And>l e. P l \<Longrightarrow> P (l @ [e])"
  shows "gate_spec L i P (rewrite_gate h t i (input, rewritten)) (\<lambda>_. P)"
proof (cases "host_can_use h = None \<or> host_floor h = None \<or> \<not> rewritten")
  case True
  then show ?thesis by (auto simp: rewrite_gate_def intro: gate_return split: option.split)
next
  case False
  then obtain f where f: "host_can_use h = Some f" "\<not> (host_floor h = None \<or> \<not> rewritten)" by auto
  let ?go = "\<lambda>p. case perm_updated p of None \<Rightarrow> return_next input
     | Some u \<Rightarrow> if tool_json_schema t then return_next u
         else case tool_parse t u of Threw m \<Rightarrow> throw m
         | Returned (Inl _) \<Rightarrow> finish (error_result i
             ''permission-updated input validation failed after hook rewrite'', None)
         | Returned (Inr data) \<Rightarrow> return_next data"
  let ?k = "\<lambda>p. if \<not> perm_allow p
         then reject h i Learn_denied
           (''permission denied: '' @ value_or (perm_reason p) ''hook rewrite denied by host'')
         else ?go p"
  have go: "gate_spec L i P (?go p) (\<lambda>_. P)" for p
    by (auto intro: gate_return gate_throw gate_finish_error split: option.split outcome.split sum.split)
  have k: "gate_spec L i P (?k p) (\<lambda>_. P)" if "perm_allow p" for p
    using go that by simp
  have "gate_spec L i P (and_then (ask i (\<lambda>l. f l (tool_name t) input)
      (\<lambda>p. Did_permission input (perm_allow p))) (\<lambda>p.
       and_then (trace h i ''permission_check'') (\<lambda>_. ?k p))) (\<lambda>_. P)"
  proof (rule gate_ask_then)
    fix p assume "\<not> is_denial (Did_permission input (perm_allow p))"
    then have ok: "perm_allow p" by simp
    show "gate_spec L i (\<lambda>l. \<exists>l'. l = l' @ [(i, Did_permission input (perm_allow p))] \<and> P l')
        (and_then (trace h i ''permission_check'') (\<lambda>_. ?k p)) (\<lambda>_. P)"
      by (intro gate_trace_then gate_pre[OF _ k[OF ok]]) (auto intro: mono)
  qed (auto intro!: stops_trace_then stops_reject)
  moreover have "host_floor h \<noteq> None" "rewritten" using f(2) by simp_all
  ultimately show ?thesis
    unfolding rewrite_gate_def prod.case f(1) option.case(2) by (simp only: simp_thms if_False)
qed

lemma floor_gate_spec:
  assumes mono: "\<And>l e. P l \<Longrightarrow> P (l @ [e])"
  shows "gate_spec L i P (floor_gate h t i input) (\<lambda>x l. P l \<and> asked_floor h i x l)"
proof (cases "host_floor h")
  case None
  then show ?thesis by (auto simp: floor_gate_def intro: gate_return)
next
  case (Some f)
  have "stops L i (finish (error_result i x, None))" for x
    by (rule dspec_finish) (auto simp: rejected_def)
  then show ?thesis
    unfolding floor_gate_def Some option.case
    by (intro gate_ask_then) (auto intro!: gate_return intro: mono)
qed

lemma validate_gate_spec:
  assumes mono: "\<And>l e. P l \<Longrightarrow> P (l @ [e])"
  shows "gate_spec L i P (validate_gate h t i input)
     (\<lambda>x l. x = input \<and> P l \<and> asked_validation t i x l)"
proof (cases "tool_validate_input t")
  case None
  then show ?thesis by (auto simp: validate_gate_def intro: gate_return)
next
  case (Some f)
  then show ?thesis
    unfolding validate_gate_def Some option.case
    by (intro gate_ask_then) (auto intro!: gate_return stops_reject intro: mono split: option.split)
qed

lemma abort_gate_spec:
  "gate_spec L i P (abort_gate h i x) (\<lambda>y l. y = x \<and> P l \<and> \<not> host_aborted h (L @ l))"
proof -
  have "meets (\<lambda>y. grown L (\<lambda>l. all_clear l \<and> y = x \<and> P l \<and> \<not> host_aborted h (L @ l)))
      (rejected L i) (grown L no_call) (abort_gate h i x s)"
    if s: "grown L (\<lambda>l. all_clear l \<and> P l) s" for s
  proof (cases "host_aborted h (rs_log s)")
    case True
    have "gate_spec L i P (reject h i Learn_cancelled ''tool dispatch cancelled before execution'')
        (\<lambda>y l. y = x \<and> P l \<and> \<not> host_aborted h (L @ l))"
      by (rule gate_reject)
    then show ?thesis using s True by (simp add: dspec_def abort_gate_def)
  next
    case False
    then show ?thesis using s by (auto simp: abort_gate_def grown_def)
  qed
  then show ?thesis by (simp add: dspec_def)
qed

text \<open>The log when the call starts: nothing was denied, and it ends with the last look at the abort
  signal, or with the receipt right after it.\<close>

definition just_checked :: "host \<Rightarrow> string \<Rightarrow> run_log \<Rightarrow> bool" where
  "just_checked h i w \<longleftrightarrow>
     host_persist h = None \<and> \<not> host_aborted h w
     \<or> (\<exists>l. w = l @ [(i, Did_persist Exec_started True)] \<and> \<not> host_aborted h l)"

lemma persist_started_spec:
  assumes mono: "\<And>l e. P l \<Longrightarrow> P (l @ [e])"
  shows "gate_spec L i (\<lambda>l. P l \<and> \<not> host_aborted h (L @ l)) (persist h i Exec_started)
     (\<lambda>_ l. P l \<and> just_checked h i (L @ l))"
  unfolding dspec_def
proof (intro allI impI)
  fix s assume s: "grown L (\<lambda>l. all_clear l \<and> P l \<and> \<not> host_aborted h (L @ l)) s"
  show "meets (\<lambda>_. grown L (\<lambda>l. all_clear l \<and> P l \<and> just_checked h i (L @ l))) (rejected L i)
      (grown L no_call) (persist h i Exec_started s)"
  proof (cases "host_persist h")
    case None
    then show ?thesis using s by (auto simp: persist_def grown_def just_checked_def)
  next
    case (Some f)
    show ?thesis
    proof (cases "f (rs_log s) i Exec_started")
      case (Threw m)
      then show ?thesis
        using s Some by (auto simp: persist_def grown_def record_effect_def dest: all_clear_no_call)
    next
      case (Returned u)
      then show ?thesis
        using s Some mono
        by (auto simp: persist_def grown_def record_effect_def just_checked_def Let_def)
    qed
  qed
qed

lemma start_gate_spec:
  assumes mono: "\<And>l e. P l \<Longrightarrow> P (l @ [e])"
  shows "gate_spec L i P (start_gate h i input) (\<lambda>x l. x = input \<and> P l \<and> just_checked h i (L @ l))"
proof -
  have last: "gate_spec L i (\<lambda>l. x = input \<and> P l \<and> just_checked h i (L @ l)) (return_next x)
      (\<lambda>x l. x = input \<and> P l \<and> just_checked h i (L @ l))" for x
    by (rule gate_return) simp
  have receipt: "gate_spec L i (\<lambda>l. x = input \<and> P l \<and> \<not> host_aborted h (L @ l))
      (and_then (persist h i Exec_started) (\<lambda>_. return_next x))
      (\<lambda>x l. x = input \<and> P l \<and> just_checked h i (L @ l))" for x
  proof (rule dspec_and_then)
    have "gate_spec L i (\<lambda>l. (x = input \<and> P l) \<and> \<not> host_aborted h (L @ l)) (persist h i Exec_started)
        (\<lambda>_ l. (x = input \<and> P l) \<and> just_checked h i (L @ l))"
      by (rule persist_started_spec) (simp add: mono)
    then show "gate_spec L i (\<lambda>l. x = input \<and> P l \<and> \<not> host_aborted h (L @ l))
        (persist h i Exec_started) (\<lambda>_ l. x = input \<and> P l \<and> just_checked h i (L @ l))"
      by (simp only: conj_assoc)
  qed (rule last)
  have body: "gate_spec L i P (and_then (abort_gate h i input)
      (\<lambda>x. and_then (persist h i Exec_started) (\<lambda>_. return_next x)))
      (\<lambda>x l. x = input \<and> P l \<and> just_checked h i (L @ l))"
    by (rule dspec_and_then[OF abort_gate_spec receipt])
  show ?thesis
    unfolding start_gate_def
    by (rule gate_trace_then, rule gate_pre[OF _ body]) (auto intro: mono)
qed

text \<open>What the dispatch knows about the input it calls the tool with.\<close>

definition passed_gates :: "host \<Rightarrow> tool \<Rightarrow> string \<Rightarrow> run_log \<Rightarrow> json \<Rightarrow> run_log \<Rightarrow> bool" where
  "passed_gates h t i L input l \<longleftrightarrow>
     all_clear l \<and> asked_permission h i l \<and> asked_hook h i l \<and> asked_floor h i input l
     \<and> asked_validation t i input l \<and> just_checked h i (L @ l)"

lemma all_gates_spec:
  "gate_spec L i (\<lambda>_. True) (all_gates h t i input) (\<lambda>x l. passed_gates h t i L x l)"
proof -
  let ?P2 = "\<lambda>l. asked_permission h i l \<and> asked_hook h i l"
  let ?P3 = "\<lambda>x l. ?P2 l \<and> asked_floor h i x l"
  let ?P4 = "\<lambda>x l. ?P3 x l \<and> asked_validation t i x l"
  have start: "gate_spec L i (\<lambda>l. y = x \<and> ?P3 x l \<and> asked_validation t i y l) (start_gate h i y)
      (\<lambda>x l. passed_gates h t i L x l)" for x y
  proof (rule dspec_post)
    show "gate_spec L i (\<lambda>l. y = x \<and> ?P3 x l \<and> asked_validation t i y l) (start_gate h i y)
        (\<lambda>z l. z = y \<and> (y = x \<and> ?P3 x l \<and> asked_validation t i y l) \<and> just_checked h i (L @ l))"
      by (rule start_gate_spec) auto
  qed (auto simp: grown_def passed_gates_def)
  have validate: "gate_spec L i (?P3 x) (and_then (validate_gate h t i x) (start_gate h i))
      (\<lambda>x l. passed_gates h t i L x l)" for x
    by (rule dspec_and_then[OF validate_gate_spec start]) auto
  have floor: "gate_spec L i ?P2 (and_then (floor_gate h t i x)
      (\<lambda>x. and_then (validate_gate h t i x) (start_gate h i))) (\<lambda>x l. passed_gates h t i L x l)" for x
    by (rule dspec_and_then[OF floor_gate_spec validate]) auto
  have rewrite: "gate_spec L i ?P2 (and_then (rewrite_gate h t i p) (\<lambda>x. and_then (floor_gate h t i x)
      (\<lambda>x. and_then (validate_gate h t i x) (start_gate h i)))) (\<lambda>x l. passed_gates h t i L x l)" for p
  proof (cases p)
    case (Pair a b)
    show ?thesis
      unfolding Pair by (rule dspec_and_then[OF rewrite_gate_spec floor]) auto
  qed
  have abort: "gate_spec L i (\<lambda>_. True) (abort_gate h i input) (\<lambda>_ _. True)"
    by (rule dspec_post[OF abort_gate_spec]) (auto simp: grown_def)
  show ?thesis
    unfolding all_gates_def
    by (rule dspec_and_then[OF abort], rule dspec_and_then[OF gate_parse],
        rule dspec_and_then[OF permission_gate_spec], rule dspec_and_then[OF hook_gate_spec],
        rule rewrite)
qed

section \<open>After the call\<close>

text \<open>Steps that call no tool and return values with a property.\<close>

definition yields :: "run_log \<Rightarrow> 'a dispatch \<Rightarrow> ('a \<Rightarrow> bool) \<Rightarrow> bool" where
  "yields L m V \<longleftrightarrow> dspec (grown L no_call) m (\<lambda>x s. V x \<and> grown L no_call s) (\<lambda>_ _. False)
     (grown L no_call)"

lemma yields_and_then:
  "yields L m V \<Longrightarrow> (\<And>x. V x \<Longrightarrow> yields L (f x) W) \<Longrightarrow> yields L (and_then m f) W"
  unfolding yields_def by (rule dspec_and_then, assumption) (auto simp: dspec_def)

lemma yields_return: "V x \<Longrightarrow> yields L (return_next x) V"
  unfolding yields_def by (rule dspec_return) simp

lemma yields_throw: "yields L (throw m) V"
  unfolding yields_def by (rule dspec_throw)

lemma yields_ask: "(\<And>x. \<not> is_call (eff x)) \<Longrightarrow> yields L (ask i c eff) (\<lambda>_. True)"
  unfolding yields_def by (rule dspec_ask) (auto elim!: grown_record)

lemma yields_persist_completed: "yields L (persist h i Exec_completed) (\<lambda>_. True)"
  by (auto simp: yields_def dspec_def persist_def grown_def record_effect_def Let_def
      split: option.split outcome.split)

lemma yields_on_result: "yields L (on_result h i b nm) (\<lambda>_. True)"
proof -
  have "grown L no_call (s\<lparr>rs_completed := c\<rparr>)" if "grown L no_call s" for s c
    using that by (simp add: grown_def)
  then show ?thesis
    using yields_persist_completed[of L h i] by (auto simp: yields_def dspec_def on_result_def)
qed

lemma yields_observe: "yields L (observe_learning h i st) (\<lambda>_. True)"
  unfolding observe_learning_def
  by (cases "host_observe h") (auto intro: yields_ask yields_return[where V = "\<lambda>_. True"])

lemma yields_observe_outcome: "yields L (observe_outcome h i r err) (\<lambda>_. True)"
  using yields_observe unfolding yields_def dspec_def observe_outcome_def by blast

lemma result_block_intros:
  "result_block i (Tool_result i (Result_string t) e)" "result_block i (error_result i t)"
  by (auto simp: result_block_def error_result_def)

lemma format_tool_result_block: "format_tool_result t i data o' = Returned b \<Longrightarrow> result_block i b"
  by (auto simp: format_tool_result_def result_block_def split: outcome.splits option.splits)

lemma yields_format_result: "yields L (format_result h t i r err) (\<lambda>x. result_block i (fst x))"
proof -
  let ?f = "if err \<noteq> None then Returned (error_result i (value_or (data_text (ret_data r)) []))
            else format_tool_result t i (ret_data r) (ret_observation r)"
  show ?thesis
  proof (cases ?f)
    case (Threw m)
    then show ?thesis
      unfolding format_result_def Let_def
      by (auto intro!: yields_and_then[OF yields_on_result] yields_throw split: outcome.split)
  next
    case (Returned b)
    then have "result_block i b"
      using format_tool_result_block by (auto intro: result_block_intros split: if_splits)
    with Returned show ?thesis
      unfolding format_result_def
      by (auto intro!: yields_and_then[OF yields_on_result] yields_throw yields_return
          split: outcome.split)
  qed
qed

lemma yields_post_hook: "result_block i b \<Longrightarrow> yields L (post_hook h t i input r b) (result_block i)"
  unfolding post_hook_def
  by (cases "host_hooks h")
    (auto intro!: yields_return yields_and_then[OF yields_ask] result_block_intros)

lemma yields_append_hints: "result_block i b \<Longrightarrow> yields L (append_hints h t i input b) (result_block i)"
  unfolding append_hints_def
  by (auto intro!: yields_return yields_throw result_block_intros split: option.split outcome.split)

lemma run_call_yields:
  "yields L (and_then (format_result h t i r err) (\<lambda>(formatted, nm).
     and_then (trace h i ev) (\<lambda>_.
     and_then (post_hook h t i input r formatted) (\<lambda>final.
     and_then (on_result h i final nm) (\<lambda>_.
     and_then (observe_outcome h i r err) (\<lambda>_.
     and_then (append_hints h t i input final) (\<lambda>b. return_next (b, nm))))))))
     (\<lambda>x. result_block i (fst x))"
  by (intro yields_and_then[OF yields_format_result], clarsimp split: prod.split)
    (auto simp: trace_def intro!: yields_and_then[OF yields_ask] yields_and_then[OF yields_post_hook]
      yields_and_then[OF yields_on_result] yields_and_then[OF yields_observe_outcome]
      yields_and_then[OF yields_append_hints] yields_return)

section \<open>One dispatch\<close>

text \<open>A log part in which the call happens once, after everything \<open>passed_gates\<close> asks for.\<close>

definition gated_call :: "host \<Rightarrow> tool \<Rightarrow> string \<Rightarrow> run_log \<Rightarrow> run_log \<Rightarrow> bool" where
  "gated_call h t i L l \<longleftrightarrow>
     (\<exists>input l1 l2. l = l1 @ (i, Did_call input) # l2 \<and> passed_gates h t i L input l1 \<and> no_call l2)"

definition dispatched :: "host \<Rightarrow> (string \<Rightarrow> tool option) \<Rightarrow> string \<Rightarrow> string \<Rightarrow> run_log \<Rightarrow> run_log \<Rightarrow> bool" where
  "dispatched h tools i name L l \<longleftrightarrow>
     no_call l \<or> (\<exists>t. tools name = Some t \<and> gated_call h t i L l)"

lemma run_call_spec:
  "dspec (grown L (\<lambda>l. all_clear l \<and> passed_gates h t i L input l)) (run_call h t i input)
     (\<lambda>r s. result_block i (fst r) \<and> grown L (gated_call h t i L) s) (\<lambda>_ _. False)
     (grown L (gated_call h t i L))"
  unfolding dspec_def
proof (intro allI impI)
  fix s assume "grown L (\<lambda>l. all_clear l \<and> passed_gates h t i L input l) s"
  then obtain l where l: "rs_log s = L @ l" "passed_gates h t i L input l"
    by (auto simp: grown_def)
  let ?L = "L @ l @ [(i, Did_call input)]"
  obtain r err where call: "call_tool t i input s = (Next (r, err), record_effect i (Did_call input) s)"
    by (cases "tool_call t (rs_log s) input") (auto simp: call_tool_def)
  have start: "grown ?L no_call (record_effect i (Did_call input) s)"
    by (simp add: grown_def record_effect_def l(1))
  have lift: "grown ?L no_call s' \<Longrightarrow> grown L (gated_call h t i L) s'" for s'
    using l(2) by (auto simp: grown_def gated_call_def)
  have "meets (\<lambda>x s. result_block i (fst x) \<and> grown ?L no_call s) (\<lambda>_ _. False) (grown ?L no_call)
      (run_call h t i input s)"
    using run_call_yields[of ?L h t i r err "if err \<noteq> None then ''tool_error'' else ''tool_end''" input] start
    unfolding run_call_def and_then_def[of "call_tool t i input"] call yields_def dspec_def by simp
  then show "meets (\<lambda>r s. result_block i (fst r) \<and> grown L (gated_call h t i L) s) (\<lambda>_ _. False)
      (grown L (gated_call h t i L)) (run_call h t i input s)"
    by (rule meets_mono) (auto dest: lift)
qed

lemma execute_unchecked_spec:
  "dspec (\<lambda>s. rs_log s = L) (execute_one_unchecked h tools i name input)
     (\<lambda>r s. result_block i (fst r) \<and> grown L (\<lambda>l. \<exists>t. tools name = Some t \<and> gated_call h t i L l) s)
     (rejected L i) (grown L (dispatched h tools i name L))"
proof (cases "tools name")
  case None
  have reject: "gate_spec L i (\<lambda>l. l = []) (reject h i Learn_error bad) (\<lambda>_ _. False)" for bad
    by (rule gate_reject)
  show ?thesis
    unfolding execute_one_unchecked_def None option.case
    by (rule dspec_pre[OF _ dspec_weaken[OF reject]]) (auto simp: grown_def dispatched_def)
next
  case (Some t)
  have gates: "gate_spec L i (\<lambda>_. True) (all_gates h t i input) (passed_gates h t i L)"
    by (rule all_gates_spec)
  have "meets (\<lambda>r s. result_block i (fst r) \<and> grown L (\<lambda>l. \<exists>t. tools name = Some t \<and> gated_call h t i L l) s)
      (rejected L i) (grown L (dispatched h tools i name L)) (and_then (all_gates h t i input) (run_call h t i) s)"
    if s: "rs_log s = L" for s
  proof -
    have g: "meets (\<lambda>x. grown L (\<lambda>l. all_clear l \<and> passed_gates h t i L x l)) (rejected L i)
        (grown L no_call) (all_gates h t i input s)"
      using gates s by (simp add: dspec_def grown_def)
    obtain st s' where st: "all_gates h t i input s = (st, s')" by (cases "all_gates h t i input s")
    show ?thesis
    proof (cases st)
      case (Next x)
      then have "grown L (\<lambda>l. all_clear l \<and> passed_gates h t i L x l) s'" using g st by simp
      then have "meets (\<lambda>r s. result_block i (fst r) \<and> grown L (gated_call h t i L) s) (\<lambda>_ _. False)
          (grown L (gated_call h t i L)) (run_call h t i x s')"
        using run_call_spec by (simp add: dspec_def)
      then show ?thesis
        using st Next Some
        by (auto simp: and_then_def dispatched_def grown_def elim!: meets_mono)
    next
      case (Done r)
      then show ?thesis using g st by (simp add: and_then_def)
    next
      case (Thrown e)
      then show ?thesis using g st by (auto simp: and_then_def grown_def dispatched_def)
    qed
  qed
  then show ?thesis
    unfolding execute_one_unchecked_def Some option.case dspec_def by blast
qed

lemma execute_one_spec:
  assumes "execute_one h tools i name input s = (r, s')"
  shows "result_block i (fst r)
    \<and> (\<exists>l. rs_log s' = rs_log s @ l \<and> dispatched h tools i name (rs_log s) l
        \<and> (no_call l \<longrightarrow> result_error (fst r)))"
proof -
  let ?m = "execute_one_unchecked h tools i name input (s\<lparr>rs_completed := None\<rparr>)"
  have m: "meets (\<lambda>r s'. result_block i (fst r)
        \<and> grown (rs_log s) (\<lambda>l. \<exists>t. tools name = Some t \<and> gated_call h t i (rs_log s) l) s')
      (rejected (rs_log s) i) (grown (rs_log s) (dispatched h tools i name (rs_log s))) ?m"
    using execute_unchecked_spec[of "rs_log s" h tools i name input] by (simp add: dspec_def)
  obtain st s1 where st: "?m = (st, s1)" by (cases ?m)
  show ?thesis
  proof (cases st)
    case (Done q)
    then show ?thesis
      using m st assms
      by (auto simp: execute_one_def rejected_def grown_def dispatched_def error_result_def
          result_block_def result_error_def)
  next
    case (Thrown e)
    then show ?thesis
      using m st assms
      by (auto simp: execute_one_def grown_def error_result_def Let_def
          result_block_def result_error_def)
  next
    case (Next q)
    have "gated_call h t i L l \<Longrightarrow> \<not> no_call l" for t L l by (auto simp: gated_call_def)
    then show ?thesis
      using m st assms Next
      by (auto simp: execute_one_def grown_def dispatched_def)
  qed
qed

lemma persist_log:
  assumes "persist h i st s = (q, s')" "st \<noteq> Exec_started"
  shows "q = Next () \<and> (host_persist h = None \<and> s' = s
    \<or> (\<exists>ok. rs_log s' = rs_log s @ [(i, Did_persist st ok)]
         \<and> (ok \<and> rs_failure s' = rs_failure s \<or> \<not> ok \<and> rs_failure s' \<noteq> None)))"
  using assms
  by (auto simp: persist_def record_effect_def Let_def split: option.splits outcome.splits)

lemma dispatch_block_cases:
  assumes "dispatch_block h tools i name input s = (r, s')"
  obtains (skipped) "rs_failure s \<noteq> None" "s' = s"
    "r = (error_result i ''tool was not started: storage failed'', None)"
  | (ran) s1 st where "rs_failure s = None" "execute_one h tools i name input s = (r, s1)"
    "st \<noteq> Exec_started" "persist h i st s1 = (Next (), s')"
    "st = (if rs_failure s1 \<noteq> None \<and> i \<notin> set (rs_started s1) then Exec_interrupted else Exec_completed)"
proof (cases "rs_failure s = None")
  case False
  then show ?thesis using assms by (intro skipped) (auto simp: dispatch_block_def)
next
  case True
  obtain q s1 where q: "execute_one h tools i name input s = (q, s1)"
    by (cases "execute_one h tools i name input s")
  define st where "st = (if rs_failure s1 \<noteq> None \<and> i \<notin> set (rs_started s1)
    then Exec_interrupted else Exec_completed)"
  have ne: "st \<noteq> Exec_started" by (simp add: st_def)
  obtain u s2 where p: "persist h i st s1 = (u, s2)" by (cases "persist h i st s1")
  then have "u = Next ()" using persist_log[OF p ne] by simp
  moreover have "r = q" "s' = s2"
    using assms True q p unfolding dispatch_block_def st_def by simp_all
  ultimately show ?thesis using True q ne p st_def by (intro ran[of s1 st]) simp_all
qed

section \<open>Properties\<close>

text \<open>C2: No tool runs unless every gate let it. A dispatch calls at most one tool, the one named, and
  before the call nothing was denied, and the permission callback, the hooks, the skill floor and
  the tool's own validation, where they exist, have answered for this call, the floor and the
  validation for the very input the tool runs on; the abort signal was looked at last, and where
  receipts are stored the one that the call starts was stored.\<close>
theorem dispatch_gated:
  assumes "dispatch_block h tools i name input s = (r, s')"
  shows "\<exists>l. rs_log s' = rs_log s @ l \<and> (no_call l \<or> (\<exists>t x l1 l2. tools name = Some t
    \<and> l = l1 @ (i, Did_call x) # l2 \<and> no_call l2 \<and> all_clear l1
    \<and> (host_can_use h = None \<or> (\<exists>c. (i, Did_permission c True) \<in> set l1))
    \<and> (host_hooks h = None \<or> (\<exists>c. (i, Did_pre_hook c False) \<in> set l1))
    \<and> (host_floor h = None \<or> (i, Did_floor x True) \<in> set l1)
    \<and> (tool_validate_input t = None \<or> (i, Did_validate x True) \<in> set l1)
    \<and> just_checked h i (rs_log s @ l1)))"
  using assms
proof (cases rule: dispatch_block_cases)
  case skipped
  then show ?thesis by (intro exI[of _ "[]"]) simp
next
  case (ran s1 st)
  obtain l where l: "rs_log s1 = rs_log s @ l" "dispatched h tools i name (rs_log s) l"
    using execute_one_spec[OF ran(2)] by blast
  obtain l' where l': "rs_log s' = rs_log s1 @ l'" "no_call l'"
    using persist_log[OF ran(4,3)] by auto
  consider "no_call l" | t x l1 l2 where "tools name = Some t" "l = l1 @ (i, Did_call x) # l2"
    "passed_gates h t i (rs_log s) x l1" "no_call l2"
    using l(2) by (auto simp: dispatched_def gated_call_def)
  then show ?thesis
  proof cases
    case 1
    then show ?thesis using l(1) l' by (intro exI[of _ "l @ l'"]) simp
  next
    case (2 t x l1 l2)
    then have "tools name = Some t
    \<and> l @ l' = l1 @ (i, Did_call x) # (l2 @ l') \<and> no_call (l2 @ l') \<and> all_clear l1
    \<and> (host_can_use h = None \<or> (\<exists>c. (i, Did_permission c True) \<in> set l1))
    \<and> (host_hooks h = None \<or> (\<exists>c. (i, Did_pre_hook c False) \<in> set l1))
    \<and> (host_floor h = None \<or> (i, Did_floor x True) \<in> set l1)
    \<and> (tool_validate_input t = None \<or> (i, Did_validate x True) \<in> set l1)
    \<and> just_checked h i (rs_log s @ l1)"
      using l' by (simp add: passed_gates_def)
    moreover have "rs_log s' = rs_log s @ (l @ l')" using l(1) l'(1) by simp
    ultimately show ?thesis by blast
  qed
qed

definition shell_tool :: tool where
  "shell_tool = \<lparr>tool_name = ''Bash'', tool_json_schema = False,
     tool_parse = (\<lambda>v. Returned (Inr v)), tool_validate_input = None,
     tool_call = (\<lambda>l v. Returned \<lparr>ret_data = Some (JString ''done''), ret_observation = None,
       ret_new_messages = None\<rparr>),
     tool_render = None, tool_concurrency_safe = (\<lambda>v. Returned False),
     tool_read_only = (\<lambda>v. Returned False), tool_affected_paths = None\<rparr>"

definition strict_host :: host where
  "strict_host = \<lparr>host_can_use = Some (\<lambda>l n v. Returned
       \<lparr>perm_allow = (v \<noteq> JNull), perm_updated = None, perm_reason = Some ''no input''\<rparr>),
     host_hooks = None, host_floor = None, host_aborted = (\<lambda>l. False), host_observe = None,
     host_trace = (\<lambda>l e. Returned ()), host_persist = Some (\<lambda>l i st. Returned ()), host_hints = None\<rparr>"

definition idle_state :: run_state where
  "idle_state = \<lparr>rs_log = [], rs_failure = None, rs_started = [], rs_completed = None\<rparr>"

definition shell_only :: "string \<Rightarrow> tool option" where
  "shell_only n = (if n = ''Bash'' then Some shell_tool else None)"

theorem dispatch_gated_witness:
  "\<exists>l. rs_log (snd (dispatch_block strict_host shell_only ''t1'' ''Bash'' (JString ''ls'') idle_state)) = l
    \<and> \<not> no_call l \<and> (\<exists>c. (''t1'', Did_permission c True) \<in> set l)"
proof -
  let ?d = "dispatch_block strict_host shell_only ''t1'' ''Bash'' (JString ''ls'') idle_state"
  have d: "?d = (fst ?d, snd ?d)" by simp
  have call: "(''t1'', Did_call (JString ''ls'')) \<in> set (rs_log (snd ?d))"
    by code_simp
  have "\<exists>c. (''t1'', Did_permission c True) \<in> set (rs_log (snd ?d))"
    using dispatch_gated[OF d] call
    by (auto simp: idle_state_def strict_host_def no_call_def list_all_iff)
  moreover have "\<not> no_call (rs_log (snd ?d))"
    using call unfolding no_call_def list_all_iff by force
  ultimately show ?thesis by blast
qed

text \<open>Every dispatch answers its call: whatever the host and the tool do, it returns one tool
  result with the call's id, and if the tool was not called the result is an error.\<close>
theorem dispatch_answers:
  "\<exists>t e l. fst (fst (dispatch_block h tools i name input s)) = Tool_result i (Result_string t) e
     \<and> rs_log (snd (dispatch_block h tools i name input s)) = rs_log s @ l \<and> e = (e \<or> no_call l)"
proof -
  obtain r s' where d: "dispatch_block h tools i name input s = (r, s')"
    by (cases "dispatch_block h tools i name input s")
  then show ?thesis
  proof (cases rule: dispatch_block_cases)
    case skipped
    then show ?thesis by (auto simp: d error_result_def)
  next
    case (ran s1 st)
    obtain l where l: "rs_log s1 = rs_log s @ l" "no_call l \<longrightarrow> result_error (fst r)" "result_block i (fst r)"
      using execute_one_spec[OF ran(2)] by blast
    obtain l' where l': "rs_log s' = rs_log s1 @ l'" "no_call l'"
      using persist_log[OF ran(4,3)] by auto
    obtain t e where r: "fst r = Tool_result i (Result_string t) e"
      using l(3) by (auto simp: result_block_def)
    have "no_call (l @ l') \<longrightarrow> e" using l(2) r by (simp add: result_error_def)
    then show ?thesis
      using l(1) l'(1) r by (intro exI[of _ t] exI[of _ e] exI[of _ "l @ l'"]) (auto simp: d)
  qed
qed

text \<open>C39: The receipts of a run are never silently lost. Once storing a receipt failed, no further call
  is dispatched; until then every dispatch, a rejected one too, ends with its final receipt, and the
  failure to store it is remembered.\<close>
theorem dispatch_receipts:
  assumes "dispatch_block h tools i name input s = (r, s')" and "host_persist h \<noteq> None"
  shows "(if rs_failure s \<noteq> None then s' = s \<and> result_error (fst r)
    else \<exists>l st ok. rs_log s' = rs_log s @ l @ [(i, Did_persist st ok)]
      \<and> (st = Exec_completed \<or> st = Exec_interrupted)
      \<and> (ok \<and> st = Exec_completed \<and> rs_failure s' = None \<or> rs_failure s' \<noteq> None))"
  using assms(1)
proof (cases rule: dispatch_block_cases)
  case skipped
  then show ?thesis by (simp add: result_error_def error_result_def)
next
  case (ran s1 st)
  obtain l where "rs_log s1 = rs_log s @ l"
    using execute_one_spec[OF ran(2)] by blast
  moreover obtain ok where "rs_log s' = rs_log s1 @ [(i, Did_persist st ok)]"
    "ok \<and> rs_failure s' = rs_failure s1 \<or> \<not> ok \<and> rs_failure s' \<noteq> None"
    using persist_log[OF ran(4,3)] assms(2) by auto
  moreover have "st = Exec_completed \<or> st = Exec_interrupted \<and> rs_failure s1 \<noteq> None"
    using ran(5) by auto
  ultimately show ?thesis
    using ran(1) by (auto intro!: exI[of _ l] exI[of _ st] exI[of _ ok])
qed

theorem dispatch_receipts_witness:
  "\<exists>l st ok. rs_log (snd (dispatch_block strict_host shell_only ''t1'' ''Bash'' JNull idle_state))
     = l @ [(''t1'', Did_persist st ok)]"
proof -
  let ?d = "dispatch_block strict_host shell_only ''t1'' ''Bash'' JNull idle_state"
  have d: "?d = (fst ?d, snd ?d)" by simp
  have p: "host_persist strict_host \<noteq> None" and f: "rs_failure idle_state = None"
    by (simp_all add: strict_host_def idle_state_def)
  show ?thesis
    using dispatch_receipts[OF d p] f by (auto simp: idle_state_def)
qed

end
