(* ===== verification/Tool_Schedule.thy ===== *)
theory Tool_Schedule
  imports Tool_Dispatch Path_Lock
begin

text \<open>
  \<open>packages/sdk/src/core/orchestrator.ts\<close>, the scheduling of a turn's tool calls
  (\<open>partitionToolCalls\<close>, \<open>splitByPathOverlap\<close>, the waves of \<open>runConcurrentPartition\<close>, the assembly of
  the answering message in \<open>runTools\<close>).

  A wave is a list of calls handed to one \<open>Promise.all\<close>; a serial partition is a list of waves of one
  call. What a wave does is the parameter \<open>run_wave\<close>: the interface \<open>wave_runner\<close> asks of it what
  \<open>Promise.all\<close> and the dispatch give, one result per call, in the order of the calls.
\<close>

record tool_use_block =
  tub_id :: string
  tub_name :: string
  tub_input :: json

type_synonym indexed_block = "nat \<times> tool_use_block"

type_synonym tool_table = "string \<Rightarrow> tool option"

text \<open>\<open>new Map(tools.map(t => [t.name, t]))\<close>: the last tool of a name wins.\<close>

definition tools_by_name :: "tool list \<Rightarrow> tool_table" where
  "tools_by_name tools = map_of (rev (map (\<lambda>t. (tool_name t, t)) tools))"

section \<open>Paths\<close>

definition with_slash :: "string \<Rightarrow> string" where
  "with_slash p = (if ends_with p ''/'' then p else p @ ''/'')"

definition paths_overlap :: "string \<Rightarrow> string \<Rightarrow> bool" where
  "paths_overlap a b \<longleftrightarrow> a = b \<or> starts_with b (with_slash a) \<or> starts_with a (with_slash b)"

definition any_paths_overlap :: "string list \<Rightarrow> string list \<Rightarrow> bool" where
  "any_paths_overlap a b \<longleftrightarrow> list_ex (\<lambda>p. list_ex (paths_overlap p) b) a"

section \<open>Partitions, batches and waves\<close>

definition returned_true :: "bool outcome \<Rightarrow> bool" where
  "returned_true r = (case r of Returned b \<Rightarrow> b | Threw _ \<Rightarrow> False)"

definition block_concurrent :: "tool_table \<Rightarrow> tool_use_block \<Rightarrow> bool" where
  "block_concurrent tools b = (case tools (tub_name b) of None \<Rightarrow> False
     | Some t \<Rightarrow> returned_true (tool_concurrency_safe t (tub_input b)))"

type_synonym partition = "bool \<times> indexed_block list"   \<comment> \<open>concurrent, items\<close>

definition partition_step ::
  "tool_table \<Rightarrow> partition list \<times> partition option \<Rightarrow> indexed_block \<Rightarrow> partition list \<times> partition option" where
  "partition_step tools = (\<lambda>(done', current) item.
     let mode = block_concurrent tools (snd item)
     in case current of
          None \<Rightarrow> (done', Some (mode, [item]))
        | Some (m, items) \<Rightarrow>
            if mode = m then (done', Some (m, items @ [item]))
            else (done' @ [(m, items)], Some (mode, [item])))"

definition partition_tool_calls :: "tool_use_block list \<Rightarrow> tool_table \<Rightarrow> partition list" where
  "partition_tool_calls blocks tools =
     (let (done', current) = foldl (partition_step tools) ([], None) (enumerate 0 blocks)
      in case current of None \<Rightarrow> done' | Some p \<Rightarrow> done' @ [p])"

definition affected_paths :: "string \<Rightarrow> string \<Rightarrow> tool \<Rightarrow> json \<Rightarrow> string list" where
  "affected_paths home cwd t input =
     (case tool_affected_paths t of
        None \<Rightarrow> []
      | Some f \<Rightarrow> (case f input of Threw _ \<Rightarrow> [] | Returned ps \<Rightarrow> map (resolve_tool_path home cwd) ps))"

definition calls_conflict :: "string \<Rightarrow> string \<Rightarrow> tool_table \<Rightarrow> tool_use_block \<Rightarrow> tool_use_block \<Rightarrow> bool" where
  "calls_conflict home cwd tools c d =
     (case tools (tub_name c) of
        None \<Rightarrow> False
      | Some ct \<Rightarrow>
          (case tools (tub_name d) of
             None \<Rightarrow> False
           | Some dt \<Rightarrow>
               affected_paths home cwd ct (tub_input c) \<noteq> []
               \<and> affected_paths home cwd dt (tub_input d) \<noteq> []
               \<and> (\<not> returned_true (tool_read_only ct (tub_input c))
                  \<or> \<not> returned_true (tool_read_only dt (tub_input d)))
               \<and> any_paths_overlap (affected_paths home cwd ct (tub_input c))
                    (affected_paths home cwd dt (tub_input d))))"

definition split_step ::
  "string \<Rightarrow> string \<Rightarrow> tool_table \<Rightarrow> indexed_block list list \<times> indexed_block list \<Rightarrow> indexed_block
   \<Rightarrow> indexed_block list list \<times> indexed_block list" where
  "split_step home cwd tools = (\<lambda>(batches, current) item.
     if current \<noteq> [] \<and> list_ex (\<lambda>other. calls_conflict home cwd tools (snd item) (snd other)) current
     then (batches @ [current], [item])
     else (batches, current @ [item]))"

definition split_by_path_overlap ::
  "string \<Rightarrow> string \<Rightarrow> tool_table \<Rightarrow> indexed_block list \<Rightarrow> indexed_block list list" where
  "split_by_path_overlap home cwd tools items =
     (let (batches, current) = foldl (split_step home cwd tools) ([], []) items
      in if current \<noteq> [] then batches @ [current] else batches)"

definition concurrent_cap :: nat where "concurrent_cap = 10"

definition partition_waves :: "string \<Rightarrow> string \<Rightarrow> tool_table \<Rightarrow> partition \<Rightarrow> indexed_block list list" where
  "partition_waves home cwd tools = (\<lambda>(concurrent, items).
     if concurrent then concat (map (chunks_of concurrent_cap) (split_by_path_overlap home cwd tools items))
     else map (\<lambda>item. [item]) items)"

definition schedule :: "string \<Rightarrow> string \<Rightarrow> tool_table \<Rightarrow> tool_use_block list \<Rightarrow> indexed_block list list" where
  "schedule home cwd tools blocks =
     concat (map (partition_waves home cwd tools) (partition_tool_calls blocks tools))"

section \<open>Running the waves\<close>

type_synonym slots = "dispatch_result option list"

definition fill_slots :: "slots \<Rightarrow> indexed_block list \<Rightarrow> dispatch_result list \<Rightarrow> slots" where
  "fill_slots out wave rs = foldl (\<lambda>o' (item, r). o'[fst item := Some r]) out (zip wave rs)"

fun run_waves ::
  "('s \<Rightarrow> tool_use_block list \<Rightarrow> dispatch_result list \<times> 's) \<Rightarrow> 's \<Rightarrow> slots \<Rightarrow> indexed_block list list \<Rightarrow> slots \<times> 's" where
  "run_waves run_wave s out [] = (out, s)"
| "run_waves run_wave s out (w # ws) =
     (let (rs, s') = run_wave s (map snd w) in run_waves run_wave s' (fill_slots out w rs) ws)"

definition resolved_block :: "tool_use_block \<Rightarrow> dispatch_result option \<Rightarrow> content_block" where
  "resolved_block b r = (case r of None \<Rightarrow> error_result (tub_id b) ''orchestration error: tool result missing''
     | Some x \<Rightarrow> fst x)"

definition appended_content :: "dispatch_result option \<Rightarrow> content_block list" where
  "appended_content r = (case r of None \<Rightarrow> []
     | Some x \<Rightarrow> (case snd x of None \<Rightarrow> [] | Some ms \<Rightarrow> concat (map msg_content ms)))"

definition run_tools ::
  "('s \<Rightarrow> tool_use_block list \<Rightarrow> dispatch_result list \<times> 's) \<Rightarrow> string \<Rightarrow> string \<Rightarrow> tool_table \<Rightarrow> 's
   \<Rightarrow> tool_use_block list \<Rightarrow> message \<times> 's" where
  "run_tools run_wave home cwd tools s blocks =
     (let (out, s') = run_waves run_wave s (replicate (length blocks) None) (schedule home cwd tools blocks)
      in (user_message (map2 resolved_block blocks out @ concat (map appended_content out)), s'))"

text \<open>The dispatches of a wave one after the other.\<close>

fun dispatch_wave :: "host \<Rightarrow> tool_table \<Rightarrow> run_state \<Rightarrow> tool_use_block list \<Rightarrow> dispatch_result list \<times> run_state" where
  "dispatch_wave h tools s [] = ([], s)"
| "dispatch_wave h tools s (b # bs) =
     (let (r, s1) = dispatch_block h tools (tub_id b) (tub_name b) (tub_input b) s;
          (rs, s2) = dispatch_wave h tools s1 bs
      in (r # rs, s2))"

section \<open>The schedule\<close>

definition partition_ok :: "tool_table \<Rightarrow> partition \<Rightarrow> bool" where
  "partition_ok tools p \<longleftrightarrow> snd p \<noteq> [] \<and> list_all (\<lambda>x. block_concurrent tools (snd x) = fst p) (snd p)"

definition partitions_of :: "partition list \<times> partition option \<Rightarrow> partition list" where
  "partitions_of = (\<lambda>(done', current). done' @ (case current of None \<Rightarrow> [] | Some p \<Rightarrow> [p]))"

lemma partition_step_ok:
  assumes "list_all (partition_ok tools) (partitions_of st)"
  shows "list_all (partition_ok tools) (partitions_of (partition_step tools st item))
    \<and> concat (map snd (partitions_of (partition_step tools st item)))
      = concat (map snd (partitions_of st)) @ [item]"
proof -
  obtain ds c where st: "st = (ds, c)" by (cases st)
  show ?thesis
    using assms
    by (cases c) (auto simp: st partition_step_def partitions_of_def partition_ok_def Let_def)
qed

lemma partition_fold_ok:
  "list_all (partition_ok tools) (partitions_of (foldl (partition_step tools) ([], None) items))
   \<and> concat (map snd (partitions_of (foldl (partition_step tools) ([], None) items))) = items"
proof (induction items rule: rev_induct)
  case Nil
  show ?case by (simp add: partitions_of_def)
next
  case (snoc item items)
  then show ?case
    using partition_step_ok[of tools "foldl (partition_step tools) ([], None) items" item] by simp
qed

lemma partition_tool_calls_ok:
  "list_all (partition_ok tools) (partition_tool_calls blocks tools)"
  "concat (map snd (partition_tool_calls blocks tools)) = enumerate 0 blocks"
proof -
  have eq: "partition_tool_calls blocks tools
      = partitions_of (foldl (partition_step tools) ([], None) (enumerate 0 blocks))"
    by (auto simp: partition_tool_calls_def partitions_of_def Let_def split: prod.split option.split)
  show "list_all (partition_ok tools) (partition_tool_calls blocks tools)"
    "concat (map snd (partition_tool_calls blocks tools)) = enumerate 0 blocks"
    unfolding eq using partition_fold_ok by blast+
qed

text \<open>No call of a batch conflicts with an earlier one of it.\<close>

abbreviation conflict_free :: "string \<Rightarrow> string \<Rightarrow> tool_table \<Rightarrow> indexed_block list \<Rightarrow> bool" where
  "conflict_free home cwd tools w \<equiv> sorted_wrt (\<lambda>a b. \<not> calls_conflict home cwd tools (snd b) (snd a)) w"

lemma split_step_ok:
  assumes "list_all (conflict_free home cwd tools) bs" "conflict_free home cwd tools c"
  shows "list_all (conflict_free home cwd tools) (fst (split_step home cwd tools (bs, c) item))
    \<and> conflict_free home cwd tools (snd (split_step home cwd tools (bs, c) item))
    \<and> concat (fst (split_step home cwd tools (bs, c) item)) @ snd (split_step home cwd tools (bs, c) item)
      = concat bs @ c @ [item]"
  using assms by (simp add: split_step_def list_ex_iff sorted_wrt_append)

lemma split_fold_ok:
  "list_all (conflict_free home cwd tools) (fst (foldl (split_step home cwd tools) ([], []) items))
   \<and> conflict_free home cwd tools (snd (foldl (split_step home cwd tools) ([], []) items))
   \<and> concat (fst (foldl (split_step home cwd tools) ([], []) items))
       @ snd (foldl (split_step home cwd tools) ([], []) items) = items"
proof (induction items rule: rev_induct)
  case (snoc item items)
  obtain bs c where st: "foldl (split_step home cwd tools) ([], []) items = (bs, c)"
    by (cases "foldl (split_step home cwd tools) ([], []) items")
  have "list_all (conflict_free home cwd tools) bs" "conflict_free home cwd tools c"
    "concat bs @ c = items"
    using snoc by (simp_all add: st)
  then show ?case
    using split_step_ok[of home cwd tools bs c item] by (simp add: st)
qed simp

lemma split_by_path_overlap_ok:
  "b \<in> set (split_by_path_overlap home cwd tools items) \<Longrightarrow> conflict_free home cwd tools b"
  "concat (split_by_path_overlap home cwd tools items) = items"
  using split_fold_ok[of home cwd tools items]
  by (auto simp: split_by_path_overlap_def Let_def case_prod_beta list_all_iff split: if_splits)

lemma concat_map_chunks: "0 < n \<Longrightarrow> concat (concat (map (chunks_of n) bs)) = concat bs"
  by (induction bs) (simp_all add: concat_chunks_of)

lemma concat_partition_waves: "concat (partition_waves home cwd tools p) = snd p"
proof -
  have "concat (map (\<lambda>x. [x]) xs) = xs" for xs :: "indexed_block list" by (induction xs) simp_all
  then show ?thesis
    by (cases p)
      (simp add: partition_waves_def concat_map_chunks concurrent_cap_def split_by_path_overlap_ok(2))
qed

lemma partition_waves_ok:
  assumes "partition_ok tools p" "w \<in> set (partition_waves home cwd tools p)"
  shows "w \<noteq> [] \<and> length w \<le> concurrent_cap \<and> conflict_free home cwd tools w
    \<and> (length w = 1 \<or> list_all (\<lambda>x. block_concurrent tools (snd x)) w)"
proof -
  obtain c items where p: "p = (c, items)" by (cases p)
  show ?thesis
  proof (cases c)
    case False
    then show ?thesis using assms p by (auto simp: partition_waves_def concurrent_cap_def)
  next
    case True
    then obtain b where b: "b \<in> set (split_by_path_overlap home cwd tools items)"
      "w \<in> set (chunks_of concurrent_cap b)"
      using assms(2) p by (auto simp: partition_waves_def)
    have "set b \<subseteq> set items"
      using b(1) split_by_path_overlap_ok(2)[of home cwd tools items] by (metis set_concat UN_upper)
    then have "set w \<subseteq> set items" using set_chunks_of[OF b(2)] by blast
    then have "list_all (\<lambda>x. block_concurrent tools (snd x)) w"
      using assms(1) p True by (auto simp: partition_ok_def list_all_iff)
    then show ?thesis
      using chunks_of_bounds[OF b(2)] sorted_wrt_chunks_of[OF split_by_path_overlap_ok(1)[OF b(1)] b(2)]
      by simp
  qed
qed

lemma concat_schedule: "concat (schedule home cwd tools blocks) = enumerate 0 blocks"
proof -
  have "concat (concat (map (partition_waves home cwd tools) ps)) = concat (map snd ps)" for ps
    by (induction ps) (simp_all add: concat_partition_waves)
  then show ?thesis by (simp add: schedule_def partition_tool_calls_ok(2))
qed

section \<open>The answers\<close>

text \<open>What a turn needs of a wave: one result per call, in order, each answering its call.\<close>

locale wave_runner =
  fixes run_wave :: "'s \<Rightarrow> tool_use_block list \<Rightarrow> dispatch_result list \<times> 's"
    and answers :: "tool_use_block \<Rightarrow> dispatch_result \<Rightarrow> bool"
  assumes run_wave_answers: "list_all2 answers bs (fst (run_wave s bs))"
begin

lemma fill_slots_ok:
  assumes "list_all2 (\<lambda>x r. answers (snd x) r) w rs" "distinct (map fst w)"
    "\<forall>x \<in> set w. fst x < length out"
  shows "length (fill_slots out w rs) = length out
    \<and> (\<forall>k b. (k, b) \<in> set w \<longrightarrow> (\<exists>r. fill_slots out w rs ! k = Some r \<and> answers b r))
    \<and> (\<forall>k. k \<notin> fst ` set w \<longrightarrow> fill_slots out w rs ! k = out ! k)"
  using assms
proof (induction w rs arbitrary: out rule: list_all2_induct)
  case Nil
  then show ?case by (simp add: fill_slots_def)
next
  case (Cons x w r rs)
  obtain k b where x: "x = (k, b)" by (cases x)
  have "fill_slots out (x # w) (r # rs) = fill_slots (out[k := Some r]) w rs"
    by (simp add: fill_slots_def x)
  moreover have k: "k \<notin> fst ` set w" "k < length out" using Cons.prems x by simp_all
  moreover have "length (fill_slots (out[k := Some r]) w rs) = length out"
    "\<And>k' b. (k', b) \<in> set w \<Longrightarrow> \<exists>r'. fill_slots (out[k := Some r]) w rs ! k' = Some r' \<and> answers b r'"
    "\<And>k'. k' \<notin> fst ` set w \<Longrightarrow> fill_slots (out[k := Some r]) w rs ! k' = out[k := Some r] ! k'"
    using Cons.IH[of "out[k := Some r]"] Cons.prems by simp_all
  moreover have "answers b r" using Cons.hyps(1) x by simp
  ultimately show ?case by (cases r) (auto simp: x)
qed

lemma run_waves_ok:
  assumes "distinct (map fst (concat ws))" "\<forall>x \<in> set (concat ws). fst x < length out"
  shows "length (fst (run_waves run_wave s out ws)) = length out
    \<and> (\<forall>k b. (k, b) \<in> set (concat ws) \<longrightarrow>
         (\<exists>r. fst (run_waves run_wave s out ws) ! k = Some r \<and> answers b r))
    \<and> (\<forall>k. k \<notin> fst ` set (concat ws) \<longrightarrow> fst (run_waves run_wave s out ws) ! k = out ! k)"
  using assms
proof (induction ws arbitrary: s out)
  case (Cons w ws)
  obtain rs s' where rs: "run_wave s (map snd w) = (rs, s')" by (cases "run_wave s (map snd w)")
  then have ans: "list_all2 (\<lambda>x r. answers (snd x) r) w rs"
    using run_wave_answers[of "map snd w" s] by (simp add: list_all2_map1)
  have d: "distinct (map fst w)" "\<forall>x \<in> set w. fst x < length out"
    "fst ` set w \<inter> fst ` set (concat ws) = {}"
    using Cons.prems by auto
  note fill = fill_slots_ok[OF ans d(1,2)]
  have len: "\<forall>x \<in> set (concat ws). fst x < length (fill_slots out w rs)"
    using Cons.prems fill by simp
  have ih: "length (fst (run_waves run_wave s' (fill_slots out w rs) ws)) = length (fill_slots out w rs)"
    "\<forall>k b. (k, b) \<in> set (concat ws) \<longrightarrow>
       (\<exists>r. fst (run_waves run_wave s' (fill_slots out w rs) ws) ! k = Some r \<and> answers b r)"
    "\<forall>k. k \<notin> fst ` set (concat ws) \<longrightarrow>
       fst (run_waves run_wave s' (fill_slots out w rs) ws) ! k = fill_slots out w rs ! k"
    using Cons.IH[OF _ len, of s'] Cons.prems(1) by simp_all
  have run: "run_waves run_wave s out (w # ws) = run_waves run_wave s' (fill_slots out w rs) ws"
    by (simp add: rs)
  have "\<exists>r. fst (run_waves run_wave s out (w # ws)) ! k = Some r \<and> answers b r"
    if "(k, b) \<in> set w" for k b
  proof -
    have "k \<notin> fst ` set (concat ws)" using that d(3) by force
    then show ?thesis using ih(3) fill that unfolding run by metis
  qed
  moreover have "fst (run_waves run_wave s out (w # ws)) ! k = out ! k"
    if "k \<notin> fst ` set (concat (w # ws))" for k
  proof -
    have "k \<notin> fst ` set w" "k \<notin> fst ` set (concat ws)"
      using that unfolding concat.simps set_append image_Un by blast+
    then show ?thesis using ih(3) fill unfolding run by metis
  qed
  ultimately show ?case
    using ih(1,2) fill unfolding run by auto
qed simp

lemma run_tools_slots:
  assumes "run_tools run_wave home cwd tools s blocks = (msg, s')"
  shows "\<exists>rs. list_all2 answers blocks rs
    \<and> msg = user_message (map fst rs @ concat (map (\<lambda>r. appended_content (Some r)) rs))"
proof -
  let ?n = "length blocks"
  let ?out = "fst (run_waves run_wave s (replicate ?n None) (schedule home cwd tools blocks))"
  have dist: "distinct (map fst (concat (schedule home cwd tools blocks)))"
    and bound: "\<forall>x \<in> set (concat (schedule home cwd tools blocks)). fst x < length (replicate ?n (None :: dispatch_result option))"
    by (simp_all only: concat_schedule) (auto simp: in_set_enumerate_eq)
  note slots = run_waves_ok[OF dist bound, of s]
  have slot: "\<exists>r. ?out ! k = Some r \<and> answers (blocks ! k) r" if "k < ?n" for k
    using slots that by (simp add: concat_schedule in_set_enumerate_eq)
  have len: "length ?out = ?n" using slots by simp
  define rs where "rs = map the ?out"
  have some: "?out = map Some rs"
  proof (intro nth_equalityI)
    show "?out ! k = map Some rs ! k" if "k < length ?out" for k
      using slot[of k] that len by (auto simp: rs_def)
  qed (simp add: rs_def)
  have ans: "list_all2 answers blocks rs"
    using slot len by (auto simp: list_all2_conv_all_nth rs_def) (metis option.sel)
  have "map2 resolved_block blocks (map Some rs) = map fst rs"
    using len rs_def by (intro nth_equalityI) (simp_all add: resolved_block_def)
  then have "msg = user_message (map fst rs @ concat (map (\<lambda>r. appended_content (Some r)) rs))"
    using assms some by (simp add: run_tools_def Let_def case_prod_beta comp_def)
  with ans show ?thesis by blast
qed

end

lemma dispatch_wave_answers:
  "list_all2 (\<lambda>b r. result_block (tub_id b) (fst r)) bs (fst (dispatch_wave h tools s bs))"
proof (induction bs arbitrary: s)
  case (Cons b bs)
  obtain r s1 where d: "dispatch_block h tools (tub_id b) (tub_name b) (tub_input b) s = (r, s1)"
    by (cases "dispatch_block h tools (tub_id b) (tub_name b) (tub_input b) s")
  then have "result_block (tub_id b) (fst r)"
  proof (cases rule: dispatch_block_cases)
    case skipped
    then show ?thesis by (simp add: result_block_intros)
  next
    case (ran s1 st)
    then show ?thesis using execute_one_spec by blast
  qed
  then show ?case
    using Cons.IH[of s1] d by (simp add: case_prod_beta Let_def)
qed simp

interpretation turn: wave_runner "dispatch_wave h tools" "\<lambda>b r. result_block (tub_id b) (fst r)"
  for h tools
  by unfold_locales (rule dispatch_wave_answers)

section \<open>Properties\<close>

text \<open>C7: The schedule runs every call once, in the order the model wrote them, in waves of one to ten
  calls; a wave of several calls holds only calls whose tools declare them safe to run concurrently,
  and none of them conflicts with an earlier one of its wave over a path that one of them writes.\<close>
theorem schedule_safe:
  "concat (schedule home cwd tools blocks) = enumerate 0 blocks
   \<and> list_all (\<lambda>w. w \<noteq> [] \<and> length w \<le> 10
       \<and> (length w = 1 \<or> list_all (\<lambda>x. block_concurrent tools (snd x)) w)
       \<and> sorted_wrt (\<lambda>a b. \<not> calls_conflict home cwd tools (snd b) (snd a)) w)
     (schedule home cwd tools blocks)"
proof
  have "w \<noteq> [] \<and> length w \<le> 10
      \<and> (length w = 1 \<or> list_all (\<lambda>x. block_concurrent tools (snd x)) w) \<and> conflict_free home cwd tools w"
    if w: "w \<in> set (schedule home cwd tools blocks)" for w
  proof -
    obtain p where "p \<in> set (partition_tool_calls blocks tools)" "w \<in> set (partition_waves home cwd tools p)"
      using w by (auto simp: schedule_def)
    moreover from this(1) have "partition_ok tools p"
      using partition_tool_calls_ok(1)[of tools blocks] by (simp add: list_all_iff)
    ultimately show ?thesis
      using partition_waves_ok[of tools p w home cwd] unfolding concurrent_cap_def by blast
  qed
  then show "list_all (\<lambda>w. w \<noteq> [] \<and> length w \<le> 10
       \<and> (length w = 1 \<or> list_all (\<lambda>x. block_concurrent tools (snd x)) w)
       \<and> sorted_wrt (\<lambda>a b. \<not> calls_conflict home cwd tools (snd b) (snd a)) w)
     (schedule home cwd tools blocks)"
    unfolding list_all_iff by blast
qed (rule concat_schedule)

definition use_of_block :: "tool_use_block \<Rightarrow> content_block" where
  "use_of_block b = Tool_use (tub_id b) (tub_name b) (tub_input b)"

text \<open>C3: A turn's tool calls are all answered. Whatever the tools, the callbacks and the receipt store
  do, \<open>runTools\<close> yields one user message that begins with exactly one tool result per call, in the
  order of the calls, so the assistant message with the calls is followed by its answer.\<close>
theorem run_tools_answers:
  "\<exists>results extra. msg_content (fst (run_tools (dispatch_wave h tools) home cwd tools s blocks)) = results @ extra
    \<and> length results = length blocks \<and> answer_ids results = map tub_id blocks
    \<and> calls_answered [assistant_message (map use_of_block blocks),
        fst (run_tools (dispatch_wave h tools) home cwd tools s blocks)]"
proof -
  let ?r = "run_tools (dispatch_wave h tools) home cwd tools s blocks"
  obtain rs where rs: "list_all2 (\<lambda>b r. result_block (tub_id b) (fst r)) blocks rs"
    "fst ?r = user_message (map fst rs @ concat (map (\<lambda>r. appended_content (Some r)) rs))"
    using turn.run_tools_slots[of h tools home cwd tools s blocks "fst ?r" "snd ?r"] by auto
  have ids: "answer_ids (map fst rs) = map tub_id blocks \<and> length rs = length blocks"
    using rs(1)
    by (induction rule: list_all2_induct) (auto simp: result_block_def)
  have "use_ids (map use_of_block blocks) = map tub_id blocks"
    by (induction blocks) (simp_all add: use_of_block_def)
  then have "block_id ` set (tool_uses (assistant_message (map use_of_block blocks))) = set (map tub_id blocks)"
    by (metis tool_uses_def use_ids_def list.set_map message.select_convs(2) assistant_message_def)
  then have "calls_answered [assistant_message (map use_of_block blocks), fst ?r]"
    using ids by (simp add: rs(2) calls_answered.simps result_ids_def assistant_message_def)
  moreover have "msg_content (fst ?r) = map fst rs @ concat (map (\<lambda>r. appended_content (Some r)) rs)"
    by (simp add: rs(2))
  moreover have "length (map fst rs) = length blocks" "answer_ids (map fst rs) = map tub_id blocks"
    using ids by simp_all
  ultimately show ?thesis by blast
qed

text \<open>What the path test relies on: its comment speaks of normalized absolute paths, but an absolute
  path is taken as the tool reports it, so two spellings of a file do not overlap.\<close>

lemma absolute_paths_not_normalized:
  "resolve_tool_path home cwd ''/a/../b'' = ''/a/../b''
   \<and> \<not> paths_overlap (resolve_tool_path home cwd ''/a/../b'') (resolve_tool_path home cwd ''/b'')
   \<and> posix_normalize ''/a/../b'' = ''/b''"
  by (simp add: resolve_tool_path_def expand_home_path_def is_absolute_def paths_overlap_def
      with_slash_def ends_with_def posix_normalize_def)

end
