(* ===== verification/Shell_Syntax.thy ===== *)
theory Shell_Syntax
  imports Sdk_Prelude
begin

text \<open>
  \<open>packages/sdk/src/permissions/shellSemantics.ts\<close>, the lexical half: the quote-aware split of
  a command into segments (\<open>splitShellSegments\<close>) and of a segment into words
  (\<open>tokenizeSegment\<close>), with the regular expressions they use spelled out as functions. The
  lemmas say that a split leaves no separator behind and that nothing after a separator can hide
  in the segment before it.
\<close>

section \<open>Character classes and quoting\<close>

definition is_letter :: "char \<Rightarrow> bool" where
  "is_letter c \<longleftrightarrow> (65 \<le> (of_char c :: nat) \<and> (of_char c :: nat) \<le> 90)
     \<or> (97 \<le> (of_char c :: nat) \<and> (of_char c :: nat) \<le> 122)"

definition double_quote :: char where "double_quote = CHR 0x22"
definition backslash :: char where "backslash = CHR 0x5C"
definition newline :: char where "newline = CHR 0x0A"
definition carriage_return :: char where "carriage_return = CHR 0x0D"
definition backtick :: char where "backtick = CHR 0x60"

lemmas quote_chars = single_quote_def double_quote_def backslash_def newline_def
  carriage_return_def backtick_def

text \<open>The four flags of the scanners: inside \<open>'...'\<close>, \<open>"..."\<close>, \<open>$'...'\<close>, after a backslash.\<close>

record lex_state =
  in_single :: bool
  in_double :: bool
  in_ansi :: bool
  escaped :: bool

definition ground :: lex_state where
  "ground = \<lparr>in_single = False, in_double = False, in_ansi = False, escaped = False\<rparr>"

definition unquoted :: "lex_state \<Rightarrow> bool" where
  "unquoted s \<longleftrightarrow> \<not> in_single s \<and> \<not> in_double s \<and> \<not> in_ansi s"

definition next_is :: "char \<Rightarrow> string \<Rightarrow> bool" where
  "next_is c rest = (case rest of [] \<Rightarrow> False | d # _ \<Rightarrow> d = c)"

section \<open>Segments\<close>

text \<open>
  One turn of the loop of \<open>splitShellSegments\<close>: the character (or, for \<open>$'\<close>, it and the quote
  after it) joins the segment, or the segment ends at it (at it and its twin, for \<open>&&\<close> and \<open>||\<close>).
\<close>

datatype lex_turn = Keep_one lex_state | Keep_two lex_state | Cut_one | Cut_two

definition last_visible_is :: "char \<Rightarrow> string \<Rightarrow> bool" where
  "last_visible_is c current = next_is c (dropWhile is_space (rev current))"

definition separator_turn :: "bool \<Rightarrow> lex_state \<Rightarrow> string \<Rightarrow> char \<Rightarrow> string \<Rightarrow> lex_turn" where
  "separator_turn split_pipes s current ch rest =
     (if ch = CHR '';'' \<or> ch = newline \<or> ch = carriage_return then Cut_one
      else if ch = CHR ''&'' \<and> next_is (CHR ''&'') rest then Cut_two
      else if ch = CHR ''&''
        then (if next_is (CHR ''>'') rest \<or> last_visible_is (CHR ''>'') current
              then Keep_one s else Cut_one)
      else if ch = CHR ''|'' \<and> next_is (CHR ''|'') rest then Cut_two
      else if ch = CHR ''|'' \<and> split_pipes then Cut_one
      else Keep_one s)"

definition split_turn :: "bool \<Rightarrow> lex_state \<Rightarrow> string \<Rightarrow> char \<Rightarrow> string \<Rightarrow> lex_turn" where
  "split_turn split_pipes s current ch rest =
     (if escaped s then Keep_one (s\<lparr>escaped := False\<rparr>)
      else if ch = backslash \<and> \<not> in_single s then Keep_one (s\<lparr>escaped := True\<rparr>)
      else if ch = CHR ''$'' \<and> next_is single_quote rest \<and> unquoted s
        then Keep_two (s\<lparr>in_ansi := True\<rparr>)
      else if ch = single_quote \<and> in_ansi s then Keep_one (s\<lparr>in_ansi := False\<rparr>)
      else if ch = single_quote \<and> \<not> in_double s \<and> \<not> in_ansi s
        then Keep_one (s\<lparr>in_single := \<not> in_single s\<rparr>)
      else if ch = double_quote \<and> \<not> in_single s \<and> \<not> in_ansi s
        then Keep_one (s\<lparr>in_double := \<not> in_double s\<rparr>)
      else if unquoted s then separator_turn split_pipes s current ch rest
      else Keep_one s)"

definition flush :: "string \<Rightarrow> string list" where
  "flush current = (if trim current = [] then [] else [trim current])"

function split_from :: "bool \<Rightarrow> lex_state \<Rightarrow> string \<Rightarrow> string \<Rightarrow> string list" where
  "split_from sp s current [] = flush current"
| "split_from sp s current (ch # rest) =
     (case split_turn sp s current ch rest of
        Keep_one s' \<Rightarrow> split_from sp s' (current @ [ch]) rest
      | Keep_two s' \<Rightarrow> split_from sp s' (current @ [ch, single_quote]) (drop 1 rest)
      | Cut_one \<Rightarrow> flush current @ split_from sp s [] rest
      | Cut_two \<Rightarrow> flush current @ split_from sp s [] (drop 1 rest))"
  by pat_completeness auto
termination
  by (relation "measure (\<lambda>(sp, s, current, rest). length rest)") auto

definition split_shell_segments :: "bool \<Rightarrow> string \<Rightarrow> string list" where
  "split_shell_segments split_pipes command = split_from split_pipes ground [] command"

text \<open>\<open>/\$\(|`|<\(|>\(/\<close>: a command or process substitution.\<close>

fun has_substitution :: "string \<Rightarrow> bool" where
  "has_substitution [] = False"
| "has_substitution (c # rest) =
     (c = backtick \<or> (c \<in> {CHR ''$'', CHR ''<'', CHR ''>''} \<and> next_is (CHR ''('') rest)
      \<or> has_substitution rest)"


section \<open>A segment holds no separator\<close>

text \<open>A text scanned from a state, with nothing after it, without reaching a separator.\<close>

function no_cut :: "bool \<Rightarrow> lex_state \<Rightarrow> string \<Rightarrow> string \<Rightarrow> bool" where
  "no_cut sp s current [] = True"
| "no_cut sp s current (ch # rest) =
     (case split_turn sp s current ch rest of
        Keep_one s' \<Rightarrow> no_cut sp s' (current @ [ch]) rest
      | Keep_two s' \<Rightarrow> no_cut sp s' (current @ [ch, single_quote]) (drop 1 rest)
      | _ \<Rightarrow> False)"
  by pat_completeness auto
termination
  by (relation "measure (\<lambda>(sp, s, current, rest). length rest)") auto

lemma keep_two_text:
  "split_turn sp s current ch rest = Keep_two s' \<Longrightarrow> rest = single_quote # drop 1 rest"
  by (cases rest) (auto simp: split_turn_def separator_turn_def next_is_def split: if_splits)

lemma no_cut_split_from: "no_cut sp s current w \<Longrightarrow> split_from sp s current w = flush (current @ w)"
proof (induction sp s current w rule: no_cut.induct)
  case (1 sp s current)
  then show ?case by simp
next
  case (2 sp s current ch rest)
  show ?case
  proof (cases "split_turn sp s current ch rest")
    case (Keep_two s')
    have "no_cut sp s' (current @ [ch, single_quote]) (drop 1 rest)"
      using 2(3) Keep_two by simp
    note IH = 2(2)[OF Keep_two this]
    have "(current @ [ch, single_quote]) @ drop 1 rest = current @ ch # rest"
      using keep_two_text[OF Keep_two] by (metis append.assoc append_Cons append_Nil)
    with IH Keep_two show ?thesis by simp
  next
    case (Keep_one s')
    with 2(3) have "no_cut sp s' (current @ [ch]) rest" by simp
    from 2(1)[OF Keep_one this] Keep_one show ?thesis by simp
  qed (use 2(3) in simp_all)
qed

text \<open>What a turn looks at after its character.\<close>

definition same_follow :: "string \<Rightarrow> string \<Rightarrow> bool" where
  "same_follow r r' \<longleftrightarrow> next_is single_quote r = next_is single_quote r'
     \<and> next_is (CHR ''&'') r = next_is (CHR ''&'') r' \<and> next_is (CHR ''>'') r = next_is (CHR ''>'') r'
     \<and> next_is (CHR ''|'') r = next_is (CHR ''|'') r'"

lemma split_turn_follow:
  assumes "same_follow r r'"
    and "last_visible_is (CHR ''>'') current = last_visible_is (CHR ''>'') current'"
  shows "split_turn sp s current ch r = split_turn sp s current' ch r'"
proof -
  have n: "next_is single_quote r = next_is single_quote r'"
    "next_is (CHR ''&'') r = next_is (CHR ''&'') r'" "next_is (CHR ''>'') r = next_is (CHR ''>'') r'"
    "next_is (CHR ''|'') r = next_is (CHR ''|'') r'"
    using assms(1) by (simp_all only: same_follow_def)
  show ?thesis
    unfolding split_turn_def separator_turn_def n assms(2) by (rule refl)
qed

lemma same_follow_refl [simp]: "same_follow r r"
  by (simp add: same_follow_def)

lemma same_follow_Cons [simp]: "same_follow (c # r) (c # r')"
  by (simp add: same_follow_def next_is_def)

lemma same_follow_append: "same_follow vs [] \<Longrightarrow> same_follow (r @ vs) r"
  by (cases r) simp_all

lemma split_turn_cut:
  assumes "split_turn sp s current ch rest \<in> {Cut_one, Cut_two}"
  shows "ch \<in> {CHR '';'', newline, carriage_return, CHR ''&'', CHR ''|''}" "s = ground"
proof -
  show "ch \<in> {CHR '';'', newline, carriage_return, CHR ''&'', CHR ''|''}"
    using assms by (auto simp: split_turn_def separator_turn_def split: if_splits)
  have "unquoted s \<and> \<not> escaped s"
    using assms by (simp add: split_turn_def split: if_splits)
  then show "s = ground"
    by (simp add: unquoted_def ground_def)
qed

lemma split_turn_keep_end:
  assumes "split_turn sp s current ch rest = Keep_one s'"
    and "\<not> next_is single_quote rest" "\<not> next_is (CHR ''>'') rest"
  shows "split_turn sp s current ch [] = Keep_one s'"
proof (cases "unquoted s \<and> \<not> escaped s \<and> ch \<in> {CHR ''&'', CHR ''|''}")
  case True
  then show ?thesis
    using assms by (auto simp: split_turn_def separator_turn_def next_is_def quote_chars
        unquoted_def split: if_splits)
next
  case False
  have n: "next_is single_quote rest = False" "next_is single_quote [] = False"
    using assms(2) by (simp_all add: next_is_def)
  have "split_turn sp s current ch rest = split_turn sp s current ch []"
  proof (cases "escaped s")
    case True
    then show ?thesis by (simp add: split_turn_def)
  next
    case not_escaped: False
    with False have tail: "(if unquoted s then separator_turn sp s current ch rest else Keep_one s)
        = (if unquoted s then separator_turn sp s current ch [] else Keep_one s)"
      by (cases "unquoted s") (simp_all add: separator_turn_def)
    show ?thesis
      unfolding split_turn_def n tail by (rule refl)
  qed
  with assms show ?thesis by simp
qed

text \<open>The rest of the segment in progress, and what follows its separator.\<close>

function first_segment :: "bool \<Rightarrow> lex_state \<Rightarrow> string \<Rightarrow> string \<Rightarrow> string \<times> string option" where
  "first_segment sp s current [] = ([], None)"
| "first_segment sp s current (ch # rest) =
     (case split_turn sp s current ch rest of
        Keep_one s' \<Rightarrow> (case first_segment sp s' (current @ [ch]) rest of (w, t) \<Rightarrow> (ch # w, t))
      | Keep_two s' \<Rightarrow> (case first_segment sp s' (current @ [ch, single_quote]) (drop 1 rest) of
            (w, t) \<Rightarrow> (ch # single_quote # w, t))
      | Cut_one \<Rightarrow> ([], Some rest)
      | Cut_two \<Rightarrow> ([], Some (drop 1 rest)))"
  by pat_completeness auto
termination
  by (relation "measure (\<lambda>(sp, s, current, rest). length rest)") auto

lemma first_segment_shorter: "first_segment sp s current rest = (w, Some r) \<Longrightarrow> length r < length rest"
proof (induction sp s current rest arbitrary: w rule: first_segment.induct)
  case (1 sp s current)
  then show ?case by simp
next
  case (2 sp s current ch rest)
  then show ?case
    by (cases "split_turn sp s current ch rest") (fastforce split: prod.splits)+
qed

lemma split_from_first:
  assumes "first_segment sp s current rest = (w, t)"
  shows "split_from sp s current rest
    = flush (current @ w) @ (case t of None \<Rightarrow> [] | Some r \<Rightarrow> split_from sp ground [] r)"
  using assms
proof (induction sp s current rest arbitrary: w rule: first_segment.induct)
  case (1 sp s current)
  then show ?case by auto
next
  case (2 sp s current ch rest)
  show ?case
  proof (cases "split_turn sp s current ch rest")
    case (Keep_one s')
    obtain w' where "first_segment sp s' (current @ [ch]) rest = (w', t)" "w = ch # w'"
      using 2(3) Keep_one by (auto split: prod.splits)
    with 2(1)[OF Keep_one] Keep_one show ?thesis by simp
  next
    case (Keep_two s')
    obtain w' where "first_segment sp s' (current @ [ch, single_quote]) (drop 1 rest) = (w', t)"
      "w = ch # single_quote # w'"
      using 2(3) Keep_two by (auto split: prod.splits)
    with 2(2)[OF Keep_two] Keep_two show ?thesis by simp
  next
    case Cut_one
    then have "s = ground" by (intro split_turn_cut(2)[of sp s current ch rest]) simp
    with Cut_one 2(3) show ?thesis by auto
  next
    case Cut_two
    then have "s = ground" by (intro split_turn_cut(2)[of sp s current ch rest]) simp
    with Cut_two 2(3) show ?thesis by auto
  qed
qed

text \<open>A segment ends at the end of the input or before a character that cuts.\<close>

lemma first_segment_follow:
  assumes "first_segment sp s current rest = (w, t)"
  shows "same_follow w rest
    \<or> (w = [] \<and> \<not> next_is single_quote rest \<and> \<not> next_is (CHR ''>'') rest)"
proof (cases rest)
  case Nil
  with assms show ?thesis by simp
next
  case (Cons d r)
  show ?thesis
  proof (cases "split_turn sp s current d r \<in> {Cut_one, Cut_two}")
    case True
    then have "w = []" using assms Cons by auto
    with split_turn_cut(1)[OF True] Cons show ?thesis
      by (auto simp: next_is_def quote_chars)
  next
    case False
    then have "\<exists>w'. w = d # w'"
      using assms Cons by (cases "split_turn sp s current d r") (auto split: prod.splits)
    with Cons show ?thesis by auto
  qed
qed

lemma no_cut_first_segment:
  assumes "first_segment sp s current rest = (w, t)"
  shows "no_cut sp s current w"
  using assms
proof (induction sp s current rest arbitrary: w rule: first_segment.induct)
  case (1 sp s current)
  then show ?case by simp
next
  case (2 sp s current ch rest)
  show ?case
  proof (cases "split_turn sp s current ch rest")
    case (Keep_one s')
    obtain w' where w': "first_segment sp s' (current @ [ch]) rest = (w', t)" "w = ch # w'"
      using 2(3) Keep_one by (auto split: prod.splits)
    have "split_turn sp s current ch w' = Keep_one s'"
      using first_segment_follow[OF w'(1)]
    proof
      assume "same_follow w' rest"
      then show ?thesis using split_turn_follow[OF _ refl] Keep_one by metis
    next
      assume "w' = [] \<and> \<not> next_is single_quote rest \<and> \<not> next_is (CHR ''>'') rest"
      then show ?thesis using split_turn_keep_end[OF Keep_one] by simp
    qed
    with 2(1)[OF Keep_one w'(1)] w'(2) show ?thesis by simp
  next
    case (Keep_two s')
    obtain w' where w': "first_segment sp s' (current @ [ch, single_quote]) (drop 1 rest) = (w', t)"
      "w = ch # single_quote # w'"
      using 2(3) Keep_two by (auto split: prod.splits)
    have "split_turn sp s current ch (single_quote # w') = Keep_two s'"
      using split_turn_follow[OF same_follow_Cons refl] Keep_two keep_two_text[OF Keep_two] by metis
    with 2(2)[OF Keep_two w'(1)] w'(2) show ?thesis by simp
  qed (use 2(3) in auto)
qed

text \<open>Trimming a segment keeps it free of separators.\<close>

lemma last_visible_append:
  "last_visible_is c u = last_visible_is c v \<Longrightarrow> last_visible_is c (u @ w) = last_visible_is c (v @ w)"
proof (induction w rule: rev_induct)
  case Nil
  then show ?case by simp
next
  case (snoc x w)
  have "last_visible_is c (y @ w @ [x]) = (if is_space x then last_visible_is c (y @ w) else x = c)" for y
    by (simp add: last_visible_is_def next_is_def)
  with snoc show ?case by simp
qed

lemma no_cut_current:
  "last_visible_is (CHR ''>'') u = last_visible_is (CHR ''>'') v \<Longrightarrow> no_cut sp s u w = no_cut sp s v w"
proof (induction sp s u w arbitrary: v rule: no_cut.induct)
  case (1 sp s u)
  then show ?case by simp
next
  case (2 sp s u ch rest)
  have t: "split_turn sp s u ch rest = split_turn sp s v ch rest"
    by (rule split_turn_follow[OF same_follow_refl 2(3)])
  show ?case
  proof (cases "split_turn sp s u ch rest")
    case (Keep_one s')
    with 2(1)[OF Keep_one last_visible_append[OF 2(3)]] t[symmetric] show ?thesis by simp
  next
    case (Keep_two s')
    with 2(2)[OF Keep_two last_visible_append[OF 2(3)]] t[symmetric] show ?thesis by simp
  qed (use t in simp_all)
qed

lemma no_cut_skip_space:
  assumes "no_cut sp ground [] (us @ w)" "list_all is_space us"
  shows "no_cut sp ground [] w"
  using assms
proof (induction us)
  case Nil
  then show ?case by simp
next
  case (Cons u us)
  then have u: "u \<in> {CHR '' '', CHR 0x09, CHR 0x0A, CHR 0x0B, CHR 0x0C, CHR 0x0D}"
    by (simp add: is_space_def)
  then have ne: "u \<noteq> backslash" "u \<noteq> CHR ''$''" "u \<noteq> single_quote" "u \<noteq> double_quote"
    "u \<noteq> CHR ''&''" "u \<noteq> CHR ''|''"
    by (auto simp: quote_chars)
  have "unquoted ground" "\<not> escaped ground"
    by (simp_all add: ground_def unquoted_def)
  then have "split_turn sp ground [] u (us @ w) \<in> {Keep_one ground, Cut_one}"
    using ne by (simp add: split_turn_def separator_turn_def)
  then have "no_cut sp ground [u] (us @ w)"
    using Cons.prems(1) by auto
  moreover have "last_visible_is (CHR ''>'') [u] = last_visible_is (CHR ''>'') []"
    using Cons.prems(2) by (simp add: last_visible_is_def next_is_def)
  ultimately have "no_cut sp ground [] (us @ w)"
    using no_cut_current by blast
  with Cons show ?case by simp
qed

lemma spaces_follow: "list_all is_space vs \<Longrightarrow> same_follow vs []"
  by (cases vs) (auto simp: same_follow_def next_is_def is_space_def quote_chars)

lemma no_cut_drop_spaces:
  assumes "list_all is_space vs"
  shows "no_cut sp s current (w @ vs) \<Longrightarrow> no_cut sp s current w"
proof (induction sp s current w rule: no_cut.induct)
  case (1 sp s current)
  then show ?case by simp
next
  case (2 sp s current ch rest)
  have t: "split_turn sp s current ch (rest @ vs) = split_turn sp s current ch rest"
    by (intro split_turn_follow same_follow_append spaces_follow assms refl)
  show ?case
  proof (cases "split_turn sp s current ch rest")
    case (Keep_one s')
    with 2 t show ?thesis by simp
  next
    case (Keep_two s')
    then have "drop 1 (rest @ vs) = drop 1 rest @ vs"
      using keep_two_text[OF Keep_two] by (cases rest) simp_all
    with 2 t Keep_two show ?thesis by simp
  qed (use 2 t in simp_all)
qed

lemma no_cut_trim:
  assumes "no_cut sp ground [] w"
  shows "no_cut sp ground [] (trim w)"
proof -
  obtain us vs where w: "w = us @ trim w @ vs" "list_all is_space us" "list_all is_space vs"
    by (rule trim_split)
  with assms have "no_cut sp ground [] (us @ trim w @ vs)" by simp
  from no_cut_skip_space[OF this w(2)] show ?thesis
    by (rule no_cut_drop_spaces[OF w(3)])
qed

lemma split_segments_raw:
  assumes "seg \<in> set (split_from sp ground [] command)"
  shows "\<exists>raw. no_cut sp ground [] raw \<and> seg = trim raw \<and> seg \<noteq> []"
  using assms
proof (induction command rule: length_induct)
  case (1 command)
  obtain w t where f: "first_segment sp ground [] command = (w, t)" by fastforce
  show ?case
  proof (cases "seg \<in> set (flush w)")
    case True
    then show ?thesis
      using no_cut_first_segment[OF f] by (auto simp: flush_def split: if_splits)
  next
    case False
    then obtain r where r: "t = Some r" "seg \<in> set (split_from sp ground [] r)"
      using 1(2) split_from_first[OF f] by (auto split: option.splits)
    with 1(1) first_segment_shorter f show ?thesis by blast
  qed
qed

lemma split_segment_closed:
  assumes "seg \<in> set (split_shell_segments sp command)"
  shows "split_shell_segments sp seg = [seg]" "trim seg = seg" "seg \<noteq> []"
proof -
  obtain raw where raw: "no_cut sp ground [] raw" "seg = trim raw" "seg \<noteq> []"
    using split_segments_raw assms unfolding split_shell_segments_def by blast
  show "trim seg = seg" "seg \<noteq> []"
    using raw by simp_all
  show "split_shell_segments sp seg = [seg]"
    using no_cut_split_from[OF no_cut_trim[OF raw(1)]] raw
    by (simp add: split_shell_segments_def flush_def)
qed

section \<open>Nothing hides behind a separator\<close>

text \<open>The state in which the scan of a text ends.\<close>

function lex_after :: "bool \<Rightarrow> lex_state \<Rightarrow> string \<Rightarrow> string \<Rightarrow> lex_state" where
  "lex_after sp s current [] = s"
| "lex_after sp s current (ch # rest) =
     (case split_turn sp s current ch rest of
        Keep_one s' \<Rightarrow> lex_after sp s' (current @ [ch]) rest
      | Keep_two s' \<Rightarrow> lex_after sp s' (current @ [ch, single_quote]) (drop 1 rest)
      | Cut_one \<Rightarrow> lex_after sp s [] rest
      | Cut_two \<Rightarrow> lex_after sp s [] (drop 1 rest))"
  by pat_completeness auto
termination
  by (relation "measure (\<lambda>(sp, s, current, rest). length rest)") auto

text \<open>Every quotation of the text is closed, and it does not end in a backslash.\<close>

definition quotes_closed :: "bool \<Rightarrow> string \<Rightarrow> bool" where
  "quotes_closed sp a \<longleftrightarrow> lex_after sp ground [] a = ground"

definition hard_separator :: "char \<Rightarrow> bool" where
  "hard_separator c \<longleftrightarrow> c = CHR '';'' \<or> c = newline \<or> c = carriage_return"

lemma hard_separator_follow: "hard_separator c \<Longrightarrow> same_follow (c # b) []"
  by (auto simp: hard_separator_def same_follow_def next_is_def quote_chars)

lemma hard_separator_cut: "hard_separator c \<Longrightarrow> split_turn sp ground current c b = Cut_one"
  by (auto simp: hard_separator_def split_turn_def separator_turn_def ground_def unquoted_def
      quote_chars)

lemma split_from_separator:
  assumes "hard_separator c"
  shows "lex_after sp s current a = ground \<Longrightarrow>
    split_from sp s current (a @ c # b) = split_from sp s current a @ split_from sp ground [] b"
proof (induction sp s current a rule: lex_after.induct)
  case (1 sp s current)
  then show ?case by (simp add: hard_separator_cut[OF assms])
next
  case (2 sp s current ch rest)
  have t: "split_turn sp s current ch (rest @ c # b) = split_turn sp s current ch rest"
    by (intro split_turn_follow same_follow_append hard_separator_follow assms refl)
  have d: "drop 1 (rest @ c # b) = drop 1 rest @ c # b"
    if "rest \<noteq> []" using that by (cases rest) simp_all
  show ?case
  proof (cases "split_turn sp s current ch rest")
    case (Keep_one s')
    with 2 t show ?thesis by simp
  next
    case (Keep_two s')
    moreover have "rest \<noteq> []" using keep_two_text[OF Keep_two] by auto
    ultimately show ?thesis using 2 t d by simp
  next
    case Cut_one
    with 2 t show ?thesis by simp
  next
    case Cut_two
    then have "rest \<noteq> []"
      by (auto simp: split_turn_def separator_turn_def next_is_def split: if_splits)
    with Cut_two show ?thesis using 2 t d by simp
  qed
qed

lemma split_segments_append:
  assumes "quotes_closed sp a" "hard_separator c"
  shows "split_shell_segments sp (a @ c # b) = split_shell_segments sp a @ split_shell_segments sp b"
  using split_from_separator[OF assms(2)] assms(1)
  by (simp add: split_shell_segments_def quotes_closed_def)

lemma has_substitution_append:
  assumes "hard_separator c"
  shows "has_substitution (a @ c # b) \<longleftrightarrow> has_substitution a \<or> has_substitution b"
proof (induction a)
  case Nil
  then show ?case
    using assms by (auto simp: hard_separator_def quote_chars)
next
  case (Cons x a)
  have "next_is (CHR ''('') (a @ c # b) = next_is (CHR ''('') a"
    using assms by (cases a) (auto simp: hard_separator_def next_is_def quote_chars)
  with Cons show ?case by simp
qed

section \<open>Words\<close>

text \<open>The text from a position on, past the match of a regular expression there, if it matches.\<close>

type_synonym matcher = "string \<Rightarrow> string option"

text \<open>\<open>s.replace(re, ' ')\<close> with the global flag, for an expression that matches no empty text.\<close>

function replace_all :: "matcher \<Rightarrow> string \<Rightarrow> string" where
  "replace_all m [] = []"
| "replace_all m (c # s) =
     (case m (c # s) of
        None \<Rightarrow> c # replace_all m s
      | Some rest \<Rightarrow> if length rest < length (c # s) then CHR '' '' # replace_all m rest
                     else c # replace_all m s)"
  by pat_completeness auto
termination
  by (relation "measure (\<lambda>(m, s). length s)") auto

text \<open>\<open>\s*\S+\<close>: past the next word.\<close>

definition skip_word :: matcher where
  "skip_word s = (let t = dropWhile is_space s in
     if t = [] then None else Some (dropWhile (\<lambda>c. \<not> is_space c) t))"

text \<open>\<open>\d*>&\s*(?![-\d\s])\S+\<close>.\<close>

definition dup_to_file :: matcher where
  "dup_to_file s = (case dropWhile is_digit s of
     x # y # r \<Rightarrow>
       if x = CHR ''>'' \<and> y = CHR ''&'' then
         (case dropWhile is_space r of
            [] \<Rightarrow> None
          | d # _ \<Rightarrow> if d = CHR ''-'' \<or> is_digit d then None else skip_word r)
       else None
   | _ \<Rightarrow> None)"

text \<open>\<open>\d*>>?\s*\S+\<close>: with one \<open>>\<close> when the match with two finds no word.\<close>

definition redirect_out :: matcher where
  "redirect_out s = (case dropWhile is_digit s of
     x # r \<Rightarrow>
       if x = CHR ''>'' then
         (case (if next_is (CHR ''>'') r then skip_word (drop 1 r) else None) of
            Some rest \<Rightarrow> Some rest | None \<Rightarrow> skip_word r)
       else None
   | [] \<Rightarrow> None)"

text \<open>\<open>&>\s*\S+\<close> and \<open><\s*\S+\<close>.\<close>

definition redirect_both :: matcher where
  "redirect_both s = (case s of
     x # y # r \<Rightarrow> if x = CHR ''&'' \<and> y = CHR ''>'' then skip_word r else None | _ \<Rightarrow> None)"

definition redirect_in :: matcher where
  "redirect_in s = (case s of x # r \<Rightarrow> if x = CHR ''<'' then skip_word r else None | [] \<Rightarrow> None)"

text \<open>
  \<open>/(?:\d*|&)>>?\s*[^&\s]/\<close> anywhere: some \<open>>\<close> is followed, past white space, by a character
  other than \<open>&\<close>. (After \<open>>>\<close> it is the second \<open>>\<close>.)
\<close>

fun redirects_plain :: "string \<Rightarrow> bool" where
  "redirects_plain [] = False"
| "redirects_plain (c # r) =
     ((c = CHR ''>'' \<and> (case dropWhile is_space r of [] \<Rightarrow> False | d # _ \<Rightarrow> d \<noteq> CHR ''&''))
      \<or> redirects_plain r)"

text \<open>\<open>/\d*>&\s*(?![-\d\s])\S/\<close> anywhere.\<close>

fun redirects_dup :: "string \<Rightarrow> bool" where
  "redirects_dup [] = False"
| "redirects_dup (c # r) = (dup_to_file (c # r) \<noteq> None \<or> redirects_dup r)"

definition redirects_to_file :: "string \<Rightarrow> bool" where
  "redirects_to_file raw \<longleftrightarrow> redirects_plain raw \<or> redirects_dup raw"

text \<open>One character of the word scanner: quotes and backslashes go, white space ends a word.\<close>

definition push_word :: "string \<Rightarrow> string list" where
  "push_word current = (if current = [] then [] else [current])"

function words_from :: "lex_state \<Rightarrow> string \<Rightarrow> string \<Rightarrow> string list" where
  "words_from s current [] = push_word current"
| "words_from s current (ch # rest) =
     (if escaped s then words_from (s\<lparr>escaped := False\<rparr>) (current @ [ch]) rest
      else if ch = backslash \<and> \<not> in_single s then words_from (s\<lparr>escaped := True\<rparr>) current rest
      else if ch = CHR ''$'' \<and> next_is single_quote rest \<and> unquoted s
        then words_from (s\<lparr>in_ansi := True\<rparr>) current (drop 1 rest)
      else if ch = single_quote \<and> in_ansi s then words_from (s\<lparr>in_ansi := False\<rparr>) current rest
      else if ch = single_quote \<and> \<not> in_double s \<and> \<not> in_ansi s
        then words_from (s\<lparr>in_single := \<not> in_single s\<rparr>) current rest
      else if ch = double_quote \<and> \<not> in_single s \<and> \<not> in_ansi s
        then words_from (s\<lparr>in_double := \<not> in_double s\<rparr>) current rest
      else if is_space ch \<and> unquoted s then push_word current @ words_from s [] rest
      else words_from s (current @ [ch]) rest)"
  by pat_completeness auto
termination
  by (relation "measure (\<lambda>(s, current, rest). length rest)") auto

record tokenize_result =
  tk_tokens :: "string list"
  tk_redirects :: bool

definition tokenize_segment :: "string \<Rightarrow> tokenize_result" where
  "tokenize_segment segment =
     (let raw = trim segment;
          cleaned = replace_all redirect_in (replace_all redirect_both
            (replace_all redirect_out (replace_all dup_to_file raw)))
      in \<lparr>tk_tokens = words_from ground [] cleaned, tk_redirects = redirects_to_file raw\<rparr>)"

end
