(* ===== verification/Shell_Semantics.thy ===== *)
theory Shell_Semantics
  imports Shell_Syntax
begin

text \<open>
  \<open>packages/sdk/src/permissions/shellSemantics.ts\<close>, the classification half: what a segment of a
  shell command does (read, write, edit, fetch, execute), by the command it runs, its flags, the
  script of \<open>sed\<close> and the subcommand of \<open>git\<close>. The lemmas say which flags are members of a family and
  how the options in front of a \<open>git\<close> subcommand are read; \<open>Shell_Mutations\<close> says what a read excludes.
\<close>

section \<open>Tables\<close>

datatype virtual_operation =
    Op_read "string list"
  | Op_write "string list"
  | Op_edit "string list"
  | Op_web "string list"
  | Op_exec string
  | Op_unsafe

definition read_commands :: "string list" where
  "read_commands = [''cat'', ''head'', ''tail'', ''less'', ''more'', ''file'', ''wc'', ''stat'',
     ''md5sum'', ''sha256sum'', ''xxd'', ''od'', ''strings'', ''readlink'', ''realpath'', ''grep'',
     ''rg'', ''ag'', ''ack'', ''find'', ''fd'', ''locate'', ''which'', ''whereis'', ''type'', ''ls'',
     ''tree'', ''du'', ''df'', ''pwd'', ''dirs'', ''diff'', ''cmp'', ''comm'', ''echo'', ''printf'',
     ''true'', ''false'', ''date'', ''whoami'', ''hostname'', ''uname'', ''id'', ''env'', ''printenv'']"

definition write_commands :: "string list" where
  "write_commands = [''cp'', ''mv'', ''install'', ''dd'', ''touch'', ''mkdir'', ''mktemp'', ''tee'', ''ln'']"

definition edit_commands :: "string list" where
  "edit_commands = [''rm'', ''rmdir'', ''chmod'', ''chown'', ''chgrp'', ''truncate'', ''shred'']"

definition web_commands :: "string list" where
  "web_commands = [''curl'', ''wget'', ''fetch'']"

definition git_read_subcommands :: "string list" where
  "git_read_subcommands = [''log'', ''status'', ''diff'', ''show'', ''blame'', ''shortlog'',
     ''rev-parse'', ''ls-files'', ''ls-tree'', ''describe'']"

definition git_write_subcommands :: "string list" where
  "git_write_subcommands = [''add'', ''commit'', ''push'', ''checkout'', ''reset'', ''merge'',
     ''rebase'', ''pull'', ''fetch'', ''cherry-pick'', ''revert'', ''clean'', ''init'', ''clone'',
     ''mv'', ''rm'']"

definition pattern_first_commands :: "string list" where
  "pattern_first_commands = [''grep'', ''rg'', ''ag'', ''ack'']"

definition find_destructive_primaries :: "string list" where
  "find_destructive_primaries = [''-delete'', ''-exec'', ''-execdir'', ''-ok'', ''-okdir'',
     ''-fprint'', ''-fprintf'', ''-fprint0'', ''-fls'']"

definition transparent_prefixes :: "string list" where
  "transparent_prefixes = [''sudo'', ''timeout'', ''env'', ''nice'', ''nohup'', ''command'',
     ''builtin'', ''exec'', ''time'']"

definition flags_with_value :: "string list" where
  "flags_with_value = [''-n'', ''-c'', ''-m'', ''-A'', ''-B'', ''-C'', ''-e'', ''-f'', ''-o'', ''-d'',
     ''-t'', ''-k'', ''-w'', ''-I'', ''-L'', ''-s'', ''-p'', ''-b'', ''-i'', ''--lines'', ''--count'',
     ''--max-count'', ''--after-context'', ''--before-context'', ''--context'', ''--regexp'',
     ''--file'', ''--output'', ''--delimiter'', ''--separator'', ''--key'', ''--width'',
     ''--include'', ''--exclude'', ''--depth'', ''--max-depth'', ''--min-depth'', ''--type'',
     ''--color'']"

section \<open>Flag families\<close>

record flag_family =
  ff_long :: "string list"
  ff_short :: "char list option"
  ff_in_cluster :: bool

text \<open>\<open>token.split('=')[0]\<close>.\<close>

definition before_equals :: "string \<Rightarrow> string" where
  "before_equals token = takeWhile (\<lambda>c. c \<noteq> CHR ''='') token"

definition is_flag :: "string \<Rightarrow> bool" where
  "is_flag token = starts_with token ''-''"

definition is_long_flag :: "string \<Rightarrow> bool" where
  "is_long_flag token = starts_with token ''--''"

definition matches_flag_family :: "flag_family \<Rightarrow> string \<Rightarrow> bool" where
  "matches_flag_family family token =
     (if \<not> is_flag token then False
      else if is_long_flag token then before_equals token \<in> set (ff_long family)
      else case ff_short family of
        None \<Rightarrow> False
      | Some short \<Rightarrow>
          (case drop 1 token of
             [] \<Rightarrow> False
           | c # cs \<Rightarrow> if ff_in_cluster family then list_ex (\<lambda>ch. ch \<in> set short) (c # cs)
                      else c \<in> set short))"

definition sed_inplace_flag :: flag_family where
  "sed_inplace_flag = \<lparr>ff_long = [''--in-place''], ff_short = Some ''i'', ff_in_cluster = True\<rparr>"
definition sort_output_flag :: flag_family where
  "sort_output_flag = \<lparr>ff_long = [''--output''], ff_short = Some ''o'', ff_in_cluster = True\<rparr>"
definition date_set_flag :: flag_family where
  "date_set_flag = \<lparr>ff_long = [''--set''], ff_short = Some ''s'', ff_in_cluster = False\<rparr>"
definition fd_exec_flag :: flag_family where
  "fd_exec_flag = \<lparr>ff_long = [''--exec'', ''--exec-batch''], ff_short = Some ''xX'', ff_in_cluster = True\<rparr>"
definition tree_output_flag :: flag_family where
  "tree_output_flag = \<lparr>ff_long = [''--output''], ff_short = Some ''o'', ff_in_cluster = False\<rparr>"
definition rg_exec_flag :: flag_family where
  "rg_exec_flag = \<lparr>ff_long = [''--pre'', ''--hostname-bin''], ff_short = None, ff_in_cluster = False\<rparr>"
definition git_output_file_flag :: flag_family where
  "git_output_file_flag = \<lparr>ff_long = [''--output''], ff_short = None, ff_in_cluster = False\<rparr>"

section \<open>Operands\<close>

text \<open>\<open>/^[A-Za-z_][A-Za-z0-9_]*=/\<close> and \<open>/^\d+$/\<close>.\<close>

definition name_start :: "char \<Rightarrow> bool" where
  "name_start c \<longleftrightarrow> is_letter c \<or> c = CHR ''_''"

definition is_assignment :: "string \<Rightarrow> bool" where
  "is_assignment token = (case token of
     [] \<Rightarrow> False
   | c # cs \<Rightarrow> name_start c \<and> next_is (CHR ''='') (dropWhile (\<lambda>d. name_start d \<or> is_digit d) cs))"

definition is_number :: "string \<Rightarrow> bool" where
  "is_number token \<longleftrightarrow> token \<noteq> [] \<and> list_all is_digit token"

fun extract_paths_from :: "bool \<Rightarrow> string list \<Rightarrow> string list" where
  "extract_paths_from skip [] = []"
| "extract_paths_from skip (a # rest) =
     (if skip then extract_paths_from False rest
      else if is_flag a then extract_paths_from (a \<in> set flags_with_value) rest
      else if CHR ''='' \<in> set a then extract_paths_from False rest
      else if is_number a then extract_paths_from False rest
      else a # extract_paths_from False rest)"

definition extract_paths :: "string list \<Rightarrow> string list" where
  "extract_paths args = extract_paths_from False args"

definition extract_paths_skip_first :: "string list \<Rightarrow> string list" where
  "extract_paths_skip_first args = drop 1 (extract_paths args)"

definition extract_urls :: "string list \<Rightarrow> string list" where
  "extract_urls args = filter (\<lambda>a. starts_with a ''http://'' \<or> starts_with a ''https://'') args"

section \<open>The command of a segment\<close>

text \<open>\<open>token.split('/').pop()\<close>.\<close>

definition last_component :: "string \<Rightarrow> string" where
  "last_component token = rev (takeWhile (\<lambda>c. c \<noteq> CHR ''/'') (rev token))"

definition normalize_command_token :: "string \<Rightarrow> string" where
  "normalize_command_token token =
     (if CHR ''/'' \<notin> set token then token
      else let base = last_component token in
        if base \<in> set read_commands \<or> base \<in> set write_commands \<or> base \<in> set edit_commands
          \<or> base \<in> set web_commands \<or> base \<in> set transparent_prefixes
        then base else token)"

text \<open>\<open>--split-string\<close> in both forms, and \<open>/^-[0iv]*S/\<close>.\<close>

definition is_env_split_string_flag :: "string \<Rightarrow> bool" where
  "is_env_split_string_flag token =
     (if is_long_flag token then before_equals token = ''--split-string''
      else is_flag token
        \<and> next_is (CHR ''S'') (dropWhile (\<lambda>c. c \<in> {CHR ''0'', CHR ''i'', CHR ''v''}) (drop 1 token)))"

record extracted_command =
  ex_command :: "string option"
  ex_args :: "string list"

text \<open>The loop past a transparent prefix; \<open>None\<close> when no wrapped command follows.\<close>

fun wrapped_command :: "string \<Rightarrow> string list \<Rightarrow> extracted_command option" where
  "wrapped_command cmd [] = None"
| "wrapped_command cmd (t # rest) =
     (if cmd = ''env'' \<and> is_env_split_string_flag t
      then Some \<lparr>ex_command = Some ''env -S'', ex_args = []\<rparr>
      else if is_flag t \<or> is_assignment t \<or> normalize_command_token t \<in> set transparent_prefixes
        \<or> is_number t
      then wrapped_command cmd rest
      else Some \<lparr>ex_command = Some (normalize_command_token t), ex_args = rest\<rparr>)"

definition extract_command :: "string list \<Rightarrow> extracted_command" where
  "extract_command tokens =
     (case dropWhile is_assignment tokens of
        [] \<Rightarrow> \<lparr>ex_command = None, ex_args = []\<rparr>
      | raw # rest \<Rightarrow>
          let cmd = normalize_command_token raw in
          if cmd \<in> set transparent_prefixes
          then (case wrapped_command cmd rest of
                  Some e \<Rightarrow> e | None \<Rightarrow> \<lparr>ex_command = Some cmd, ex_args = rest\<rparr>)
          else \<lparr>ex_command = Some cmd, ex_args = rest\<rparr>)"

section \<open>sed\<close>

text \<open>The scripts of an invocation of \<open>sed\<close>, and whether one comes from a file.\<close>

record sed_cluster =
  sc_script :: "string option"
  sc_file :: bool
  sc_consumed :: bool

fun parse_sed_cluster :: "string \<Rightarrow> string option \<Rightarrow> sed_cluster" where
  "parse_sed_cluster [] nxt = \<lparr>sc_script = None, sc_file = False, sc_consumed = False\<rparr>"
| "parse_sed_cluster (c # rest) nxt =
     (if c = CHR ''e'' then
        (if rest \<noteq> [] then \<lparr>sc_script = Some rest, sc_file = False, sc_consumed = False\<rparr>
         else \<lparr>sc_script = nxt, sc_file = False, sc_consumed = nxt \<noteq> None\<rparr>)
      else if c = CHR ''f'' then
        \<lparr>sc_script = None, sc_file = True, sc_consumed = rest = [] \<and> nxt \<noteq> None\<rparr>
      else if c = CHR ''l'' then
        \<lparr>sc_script = None, sc_file = False, sc_consumed = rest = [] \<and> nxt \<noteq> None\<rparr>
      else if c = CHR ''i'' then \<lparr>sc_script = None, sc_file = False, sc_consumed = False\<rparr>
      else parse_sed_cluster rest nxt)"

definition inline_value :: "string \<Rightarrow> string option" where
  "inline_value a = (if CHR ''='' \<in> set a then Some (drop (Suc (length (before_equals a))) a) else None)"

record sed_scripts =
  ss_scripts :: "string list"
  ss_has_file :: bool

definition add_script :: "string option \<Rightarrow> bool \<Rightarrow> sed_scripts \<Rightarrow> sed_scripts" where
  "add_script s file r = \<lparr>ss_scripts = (case s of None \<Rightarrow> [] | Some x \<Rightarrow> [x]) @ ss_scripts r,
     ss_has_file = (file \<or> ss_has_file r)\<rparr>"

text \<open>\<open>saw\<close> and \<open>took\<close> are \<open>sawScriptSource\<close> and \<open>tookPositionalScript\<close>.\<close>

definition first_arg :: "string list \<Rightarrow> string option" where
  "first_arg args = (case args of [] \<Rightarrow> None | a # _ \<Rightarrow> Some a)"

function collect_sed_scripts :: "bool \<Rightarrow> bool \<Rightarrow> string list \<Rightarrow> sed_scripts" where
  "collect_sed_scripts saw took [] = \<lparr>ss_scripts = [], ss_has_file = False\<rparr>"
| "collect_sed_scripts saw took (a # rest) =
     (if is_long_flag a then
        let name = before_equals a; inl = inline_value a in
        if name = ''--expression'' then
          (case inl of
             Some v \<Rightarrow> add_script (Some v) False (collect_sed_scripts True took rest)
           | None \<Rightarrow> add_script (first_arg rest) False (collect_sed_scripts True took (drop 1 rest)))
        else if name = ''--file'' then
          add_script None True
            (collect_sed_scripts True took (if inl = None then drop 1 rest else rest))
        else if name = ''--line-length'' \<and> inl = None then collect_sed_scripts saw took (drop 1 rest)
        else collect_sed_scripts saw took rest
      else if is_flag a \<and> length a > 1 then
        let parsed = parse_sed_cluster (drop 1 a) (first_arg rest) in
        add_script (sc_script parsed) (sc_file parsed)
          (collect_sed_scripts (saw \<or> sc_script parsed \<noteq> None \<or> sc_file parsed) took
            (if sc_consumed parsed then drop 1 rest else rest))
      else if \<not> saw \<and> \<not> took then add_script (Some a) False (collect_sed_scripts saw True rest)
      else collect_sed_scripts saw took rest)"
  by pat_completeness auto
termination
  by (relation "measure (\<lambda>(saw, took, args). length args)") auto

text \<open>Scanning a script: positions are the rests of the script.\<close>

definition is_sed_separator :: "char \<Rightarrow> bool" where
  "is_sed_separator c \<longleftrightarrow> c \<in> {CHR '';'', newline, carriage_return, CHR '' '', CHR 0x09, CHR ''{'', CHR ''}''}"

definition skip_to_line_end :: "string \<Rightarrow> string" where
  "skip_to_line_end s = dropWhile (\<lambda>c. c \<noteq> newline \<and> c \<noteq> carriage_return) s"

text \<open>Past the \<open>k\<close>-th delimiter that no backslash escapes.\<close>

fun past_delimiters :: "nat \<Rightarrow> char \<Rightarrow> string \<Rightarrow> string" where
  "past_delimiters 0 d s = s"
| "past_delimiters (Suc k) d [] = []"
| "past_delimiters (Suc k) d (c # s) =
     (if c = backslash then past_delimiters (Suc k) d (drop 1 s)
      else if c = d then past_delimiters k d s
      else past_delimiters (Suc k) d s)"

text \<open>From the delimiter of an \<open>s\<close> or \<open>y\<close> command to its flags.\<close>

definition skip_delimited_body :: "string \<Rightarrow> string" where
  "skip_delimited_body s = (case s of [] \<Rightarrow> [] | d # r \<Rightarrow> past_delimiters 2 d r)"

fun past_address_end :: "char \<Rightarrow> string \<Rightarrow> string" where
  "past_address_end d [] = []"
| "past_address_end d (c # s) =
     (if c = d then s else if c = backslash then past_address_end d (drop 1 s)
      else past_address_end d s)"

definition skip_address :: "string \<Rightarrow> string option" where
  "skip_address s = (case s of
     [] \<Rightarrow> None
   | c # r \<Rightarrow>
       if c = CHR ''/'' then Some (past_address_end c r)
       else if c = backslash
         then Some (case r of [] \<Rightarrow> [] | d # r' \<Rightarrow> past_address_end d r')
       else if is_digit c \<or> c = CHR ''$''
         then Some (dropWhile (\<lambda>x. is_digit x \<or> x = CHR ''~'' \<or> x = CHR ''+'') r)
       else None)"

fun skip_address_list :: "nat \<Rightarrow> string \<Rightarrow> string" where
  "skip_address_list 0 s = s"
| "skip_address_list (Suc k) s = (case skip_address s of
     None \<Rightarrow> s
   | Some r \<Rightarrow> if next_is (CHR '','') r then skip_address_list k (drop 1 r) else r)"

definition skip_addresses :: "string \<Rightarrow> string" where
  "skip_addresses s = dropWhile (\<lambda>c. c = CHR ''!'' \<or> c = CHR '' '' \<or> c = CHR 0x09)
     (skip_address_list 2 s)"

record sed_danger =
  sd_write :: bool
  sd_exec :: bool

definition no_danger :: sed_danger where
  "no_danger = \<lparr>sd_write = False, sd_exec = False\<rparr>"

definition danger_or :: "sed_danger \<Rightarrow> sed_danger \<Rightarrow> sed_danger" where
  "danger_or a b = \<lparr>sd_write = (sd_write a \<or> sd_write b), sd_exec = (sd_exec a \<or> sd_exec b)\<rparr>"

text \<open>The flags of an \<open>s\<close> command, and the text after them.\<close>

fun sed_substitute_flags :: "string \<Rightarrow> sed_danger \<times> string" where
  "sed_substitute_flags [] = (no_danger, [])"
| "sed_substitute_flags (f # r) =
     (if is_sed_separator f then (no_danger, f # r)
      else if f = CHR ''w'' \<or> f = CHR ''W''
        then (\<lparr>sd_write = True, sd_exec = False\<rparr>, skip_to_line_end r)
      else let (d, t) = sed_substitute_flags r
           in (danger_or \<lparr>sd_write = False, sd_exec = f = CHR ''e''\<rparr> d, t))"

definition sed_line_commands :: "char list" where
  "sed_line_commands = ''aicrR:btT#''"

lemma length_past_delimiters: "length (past_delimiters k d s) \<le> length s"
  by (induction k d s rule: past_delimiters.induct) auto

lemma length_skip_delimited_body: "length (skip_delimited_body s) \<le> length s"
  using length_past_delimiters by (auto simp: skip_delimited_body_def le_Suc_eq split: list.splits)

lemma length_past_address_end: "length (past_address_end d s) \<le> length s"
  by (induction d s rule: past_address_end.induct) auto

lemma length_skip_address: "skip_address s = Some r \<Longrightarrow> length r \<le> length s"
  by (auto simp: skip_address_def simp del: past_address_end.simps split: list.splits if_splits
      intro: le_SucI length_past_address_end length_dropWhile_le)
    (metis le_SucI length_past_address_end length_Cons list.size(3))+

lemma length_skip_address_list: "length (skip_address_list k s) \<le> length s"
proof (induction k s rule: skip_address_list.induct)
  case (2 k s)
  then show ?case
    using length_skip_address by (fastforce split: option.splits)
qed simp

lemma length_skip_addresses: "length (skip_addresses s) \<le> length s"
  unfolding skip_addresses_def using length_dropWhile_le length_skip_address_list order_trans by blast

lemma length_sed_substitute_flags: "sed_substitute_flags s = (d, t) \<Longrightarrow> length t \<le> length s"
  using length_dropWhile_le
  by (induction s arbitrary: d t)
    (fastforce simp: skip_to_line_end_def le_Suc_eq split: if_splits prod.splits)+

lemma sed_flags_shorter:
  "sed_substitute_flags (skip_delimited_body s) = (d, t) \<Longrightarrow> length t \<le> length s"
  using length_sed_substitute_flags length_skip_delimited_body order_trans by blast

lemma length_skip_to_line_end: "length (skip_to_line_end s) \<le> length s"
  by (simp add: skip_to_line_end_def length_dropWhile_le)

lemma sed_command_shorter:
  assumes "skip_addresses (dropWhile is_sed_separator s) = cmd # r"
  shows "length r < length s"
proof -
  have "length (cmd # r) \<le> length s"
    using assms length_skip_addresses length_dropWhile_le order_trans by metis
  then show ?thesis by simp
qed

function scan_sed_script :: "string \<Rightarrow> sed_danger" where
  "scan_sed_script s =
     (case skip_addresses (dropWhile is_sed_separator s) of
        [] \<Rightarrow> no_danger
      | cmd # r \<Rightarrow>
          if cmd = CHR ''s'' then
            (case sed_substitute_flags (skip_delimited_body r) of
               (d, t) \<Rightarrow> danger_or d (scan_sed_script t))
          else if cmd = CHR ''y'' then scan_sed_script (skip_delimited_body r)
          else if cmd = CHR ''w'' \<or> cmd = CHR ''W'' then
            danger_or \<lparr>sd_write = True, sd_exec = False\<rparr> (scan_sed_script (skip_to_line_end r))
          else if cmd = CHR ''e'' then
            danger_or \<lparr>sd_write = False, sd_exec = True\<rparr> (scan_sed_script (skip_to_line_end r))
          else if cmd \<in> set sed_line_commands then scan_sed_script (skip_to_line_end r)
          else scan_sed_script r)"
  by pat_completeness auto
termination
  by (relation "measure length")
    (auto dest!: sed_command_shorter sed_flags_shorter sed_flags_shorter[OF sym]
      intro: le_less_trans[OF length_skip_delimited_body] le_less_trans[OF length_skip_to_line_end])

declare scan_sed_script.simps [simp del]

definition analyze_sed :: "string list \<Rightarrow> virtual_operation" where
  "analyze_sed args =
     (let in_place = list_ex (matches_flag_family sed_inplace_flag) args;
          found = collect_sed_scripts False False args;
          danger = foldr (\<lambda>script d. danger_or (scan_sed_script script) d) (ss_scripts found)
                     \<lparr>sd_write = in_place, sd_exec = False\<rparr>
      in if ss_has_file found then Op_exec ''sed''
         else if sd_exec danger then Op_exec ''sed''
         else if sd_write danger then Op_edit (extract_paths args)
         else Op_read (extract_paths args))"

section \<open>git\<close>

definition normalize_flag :: "string \<Rightarrow> string" where
  "normalize_flag a =
     (if is_long_flag a then before_equals a
      else if is_flag a \<and> length a > 2 then take 2 a else a)"

definition git_config_write_flags :: "string list" where
  "git_config_write_flags = [''--unset'', ''--unset-all'', ''--add'', ''--replace-all'', ''--edit'',
     ''-e'', ''--rename-section'', ''--remove-section'']"

definition git_config_read_flags :: "string list" where
  "git_config_read_flags = [''--get'', ''--get-all'', ''--get-regexp'', ''--get-urlmatch'',
     ''--get-color'', ''--get-colorbool'', ''--list'', ''-l'']"

definition git_config_operand_flags :: "string list" where
  "git_config_operand_flags = [''-f'', ''--file'', ''--blob'']"

fun config_values :: "bool \<Rightarrow> string list \<Rightarrow> string list" where
  "config_values skip [] = []"
| "config_values skip (a # rest) =
     (if skip then config_values False rest
      else if is_flag a
        then config_values (normalize_flag a \<in> set git_config_operand_flags \<and> a = normalize_flag a) rest
      else a # config_values False rest)"

definition is_git_config_read_only :: "string list \<Rightarrow> bool" where
  "is_git_config_read_only sub_args =
     (if list_ex (\<lambda>a. normalize_flag a \<in> set git_config_write_flags) sub_args then False
      else if list_ex (\<lambda>a. normalize_flag a \<in> set git_config_read_flags) sub_args then True
      else length (config_values False sub_args) \<le> 1)"

definition first_bareword :: "string list \<Rightarrow> string option" where
  "first_bareword args = find (\<lambda>a. \<not> is_flag a) args"

definition is_git_stash_read_only :: "string list \<Rightarrow> bool" where
  "is_git_stash_read_only sub_args =
     (case first_bareword sub_args of None \<Rightarrow> False | Some a \<Rightarrow> a \<in> {''list'', ''show''})"

definition git_branch_read_long_flags :: "string list" where
  "git_branch_read_long_flags = [''--list'', ''--all'', ''--remotes'', ''--verbose'',
     ''--ignore-case'', ''--omit-empty'', ''--show-current'', ''--color'', ''--no-color'',
     ''--column'', ''--no-column'', ''--abbrev'', ''--no-abbrev'', ''--sort'', ''--format'',
     ''--contains'', ''--no-contains'', ''--merged'', ''--no-merged'', ''--points-at'']"

text \<open>A flag outside the two white lists makes the answer false; \<open>None\<close> stands for that.\<close>

fun branch_flags :: "bool \<Rightarrow> string list \<Rightarrow> bool option" where
  "branch_flags has_list [] = Some has_list"
| "branch_flags has_list (a # rest) =
     (if \<not> is_flag a then branch_flags has_list rest
      else if is_long_flag a then
        (if before_equals a \<notin> set git_branch_read_long_flags then None
         else branch_flags (has_list \<or> before_equals a = ''--list'') rest)
      else if list_ex (\<lambda>ch. ch \<notin> set ''arvli'') (drop 1 a) then None
      else branch_flags (has_list \<or> CHR ''l'' \<in> set a) rest)"

definition is_git_branch_read_only :: "string list \<Rightarrow> bool" where
  "is_git_branch_read_only sub_args =
     (case branch_flags False sub_args of
        None \<Rightarrow> False
      | Some has_list \<Rightarrow>
          let positionals = filter (\<lambda>a. \<not> is_flag a) sub_args in
          if positionals = [] then True else has_list \<and> length positionals = 1)"

definition git_tag_write_flags :: "string list" where
  "git_tag_write_flags = [''-d'', ''-D'', ''--delete'', ''-a'', ''--annotate'', ''-s'', ''--sign'',
     ''-m'', ''--message'', ''-F'', ''--file'', ''-f'', ''--force'', ''--create-reflog'']"

definition is_git_tag_read_only :: "string list \<Rightarrow> bool" where
  "is_git_tag_read_only sub_args =
     (if list_ex (\<lambda>a. normalize_flag a \<in> set git_tag_write_flags) sub_args then False
      else if list_ex (\<lambda>a. a = ''-l'' \<or> a = ''--list'') sub_args then True
      else filter (\<lambda>a. \<not> is_flag a) sub_args = [])"

definition is_git_remote_read_only :: "string list \<Rightarrow> bool" where
  "is_git_remote_read_only sub_args =
     (case first_bareword sub_args of None \<Rightarrow> True | Some a \<Rightarrow> a \<in> {''show'', ''get-url''})"

definition git_carries_output_file_flag :: "string list \<Rightarrow> bool" where
  "git_carries_output_file_flag sub_args = list_ex (matches_flag_family git_output_file_flag) sub_args"

definition git_global_value_options :: "string list" where
  "git_global_value_options = [''-C'', ''-c'', ''--git-dir'', ''--work-tree'', ''--namespace'',
     ''--super-prefix'', ''--attr-source'', ''--config-env'']"

text \<open>The subcommand and its arguments, past the global options.\<close>

function git_subcommand :: "string list \<Rightarrow> (string \<times> string list) option" where
  "git_subcommand [] = None"
| "git_subcommand (tok # rest) =
     (if \<not> is_flag tok then Some (tok, rest)
      else git_subcommand (if tok \<in> set git_global_value_options then drop 1 rest else rest))"
  by pat_completeness auto
termination by (relation "measure length") auto

function has_git_inline_config :: "string list \<Rightarrow> bool" where
  "has_git_inline_config [] = False"
| "has_git_inline_config (tok # rest) =
     (if \<not> is_flag tok then False
      else if tok = ''-c'' \<or> tok = ''--config-env'' \<or> starts_with tok ''--config-env='' then True
      else has_git_inline_config (if tok \<in> set git_global_value_options then drop 1 rest else rest))"
  by pat_completeness auto
termination by (relation "measure length") auto

definition read_or_exec :: "bool \<Rightarrow> string \<Rightarrow> virtual_operation" where
  "read_or_exec b cmd = (if b then Op_read [] else Op_exec cmd)"

definition analyze_git_command :: "string list \<Rightarrow> virtual_operation" where
  "analyze_git_command args =
     (if has_git_inline_config args then Op_exec ''git''
      else case git_subcommand args of
        None \<Rightarrow> Op_read []
      | Some (sub, sub_args) \<Rightarrow>
          if git_carries_output_file_flag sub_args then Op_exec (''git '' @ sub)
          else if sub = ''config'' then read_or_exec (is_git_config_read_only sub_args) ''git config''
          else if sub = ''stash'' then read_or_exec (is_git_stash_read_only sub_args) ''git stash''
          else if sub = ''branch'' then read_or_exec (is_git_branch_read_only sub_args) ''git branch''
          else if sub = ''tag'' then read_or_exec (is_git_tag_read_only sub_args) ''git tag''
          else if sub = ''remote'' then read_or_exec (is_git_remote_read_only sub_args) ''git remote''
          else if sub \<in> set git_read_subcommands then
            (if list_ex (\<lambda>a. \<not> is_flag a \<and> a \<in> set git_write_subcommands) sub_args
             then Op_exec (''git '' @ sub) else Op_read [])
          else if sub \<in> set git_write_subcommands then Op_write []
          else Op_exec (''git '' @ sub))"

section \<open>Segments and commands\<close>

definition analyze_command :: "string \<Rightarrow> string list \<Rightarrow> virtual_operation" where
  "analyze_command cmd args =
     (if cmd = ''sed'' then analyze_sed args
      else if cmd = ''sort'' then
        (if list_ex (matches_flag_family sort_output_flag) args then Op_edit (extract_paths args)
         else Op_read (extract_paths args))
      else if cmd = ''date'' then
        (if list_ex (\<lambda>a. matches_flag_family date_set_flag a
              \<or> (\<not> is_flag a \<and> \<not> starts_with a ''+'')) args
         then Op_exec ''date'' else Op_read (extract_paths args))
      else if cmd = ''git'' then analyze_git_command args
      else if cmd = ''find'' \<and> list_ex (\<lambda>a. a \<in> set find_destructive_primaries) args
        then Op_exec ''find''
      else if cmd = ''fd'' \<and> list_ex (matches_flag_family fd_exec_flag) args then Op_exec ''fd''
      else if cmd = ''tree'' \<and> list_ex (matches_flag_family tree_output_flag) args
        then Op_write (extract_paths args)
      else if cmd = ''rg'' \<and> list_ex (matches_flag_family rg_exec_flag) args then Op_exec ''rg''
      else if cmd = ''xxd'' \<and> length (extract_paths args) \<ge> 2 then Op_write (extract_paths args)
      else if cmd = ''hostname'' \<and> list_ex (\<lambda>a. \<not> is_flag a) args then Op_exec ''hostname''
      else if cmd \<in> set read_commands then
        Op_read (if cmd \<in> set pattern_first_commands then extract_paths_skip_first args
                 else extract_paths args)
      else if cmd \<in> set write_commands then Op_write (extract_paths args)
      else if cmd \<in> set edit_commands then Op_edit (extract_paths args)
      else if cmd \<in> set web_commands then Op_web (extract_urls args)
      else Op_exec cmd)"

definition analyze_segment :: "string \<Rightarrow> virtual_operation" where
  "analyze_segment segment =
     (let t = tokenize_segment segment in
      if tk_tokens t = [] then Op_unsafe
      else let e = extract_command (tk_tokens t) in
        case ex_command e of
          None \<Rightarrow> Op_unsafe
        | Some cmd \<Rightarrow>
            if cmd = [] then Op_unsafe
            else if tk_redirects t then Op_write (extract_paths (ex_args e))
            else analyze_command cmd (ex_args e))"

definition analyze_shell_command :: "string \<Rightarrow> virtual_operation list" where
  "analyze_shell_command command =
     (if has_substitution command then [Op_unsafe]
      else let segments = split_shell_segments True command in
        if segments = [] then [Op_unsafe] else map analyze_segment segments)"

fun is_read :: "virtual_operation \<Rightarrow> bool" where
  "is_read (Op_read _) = True" | "is_read _ = False"

fun is_write :: "virtual_operation \<Rightarrow> bool" where
  "is_write (Op_write _) = True" | "is_write _ = False"

fun is_edit_or_unsafe :: "virtual_operation \<Rightarrow> bool" where
  "is_edit_or_unsafe (Op_edit _) = True"
| "is_edit_or_unsafe Op_unsafe = True"
| "is_edit_or_unsafe _ = False"

definition is_shell_command_read_only :: "string \<Rightarrow> bool" where
  "is_shell_command_read_only command =
     (let ops = analyze_shell_command command in ops \<noteq> [] \<and> list_all is_read ops)"

definition shell_command_virtual_tool_name :: "string \<Rightarrow> string option" where
  "shell_command_virtual_tool_name command =
     (let ops = analyze_shell_command command in
      if ops = [] then None
      else if list_all is_read ops then Some ''Read''
      else if list_ex is_edit_or_unsafe ops then None
      else if list_ex is_write ops then Some ''Write''
      else None)"

section \<open>Flag families in all their forms\<close>

text \<open>What a member of a family looks like: the long flag, alone or with \<open>=value\<close>; a short
  cluster with a member in front, or anywhere.\<close>

definition long_form :: "string \<Rightarrow> string \<Rightarrow> bool" where
  "long_form name token \<longleftrightarrow> token = name \<or> starts_with token (name @ ''='')"

lemma long_form_iff: "long_form name token \<longleftrightarrow> token = name \<or> (\<exists>v. token = name @ ''='' @ v)"
  by (simp add: long_form_def starts_with_iff)

definition well_formed_family :: "flag_family \<Rightarrow> bool" where
  "well_formed_family family \<longleftrightarrow>
     list_all (\<lambda>n. is_long_flag n \<and> CHR ''='' \<notin> set n) (ff_long family)"

lemma is_long_flag_flag: "is_long_flag a \<Longrightarrow> is_flag a"
  by (auto simp: is_long_flag_def is_flag_def starts_with_iff)

lemma before_equals_iff:
  assumes "CHR ''='' \<notin> set n"
  shows "before_equals a = n \<longleftrightarrow> long_form n a"
proof
  assume "before_equals a = n"
  then have "a = n @ dropWhile (\<lambda>c. c \<noteq> CHR ''='') a"
    unfolding before_equals_def by (metis takeWhile_dropWhile_id)
  moreover have "dropWhile (\<lambda>c. c \<noteq> CHR ''='') a = []
      \<or> (\<exists>v. dropWhile (\<lambda>c. c \<noteq> CHR ''='') a = CHR ''='' # v)"
    by (cases "dropWhile (\<lambda>c. c \<noteq> CHR ''='') a") (auto dest: dropWhile_eq_Cons_conv[THEN iffD1])
  ultimately have "a = n @ [] \<or> (\<exists>v. a = n @ CHR ''='' # v)" by metis
  then show "long_form n a"
    by (auto simp: long_form_iff)
next
  assume "long_form n a"
  then show "before_equals a = n"
  proof -
    have "takeWhile (\<lambda>c. c \<noteq> CHR ''='') (n @ CHR ''='' # v) = n" for v
      using assms by (subst takeWhile_append2) auto
    moreover have "takeWhile (\<lambda>c. c \<noteq> CHR ''='') n = n"
      using assms by (auto simp: takeWhile_eq_all_conv)
    moreover have "a = n \<or> (\<exists>v. a = n @ CHR ''='' # v)"
      using \<open>long_form n a\<close> by (simp add: long_form_iff)
    ultimately show ?thesis
      by (elim disjE exE) (simp_all only: before_equals_def)
  qed
qed

lemma matches_flag_family_iff:
  assumes "well_formed_family f"
  shows "matches_flag_family f a \<longleftrightarrow>
    (\<exists>n \<in> set (ff_long f). long_form n a)
    \<or> (\<exists>c cs short. a = CHR ''-'' # c # cs \<and> c \<noteq> CHR ''-'' \<and> ff_short f = Some short
         \<and> (if ff_in_cluster f then set (c # cs) \<inter> set short \<noteq> {} else c \<in> set short))"
    (is "_ \<longleftrightarrow> ?long \<or> ?short")
proof -
  have wf: "is_long_flag n \<and> CHR ''='' \<notin> set n" if "n \<in> set (ff_long f)" for n
    using assms that by (simp add: well_formed_family_def list_all_iff)
  have flag: "is_long_flag a" if "n \<in> set (ff_long f)" "long_form n a" for n
    using wf[OF that(1)] that(2) by (auto simp: long_form_iff is_long_flag_def starts_with_iff)
  show ?thesis
  proof (cases "is_long_flag a")
    case True
    then have "\<not> ?short" by (auto simp: is_long_flag_def)
    moreover have "matches_flag_family f a \<longleftrightarrow> before_equals a \<in> set (ff_long f)"
      using True is_long_flag_flag by (simp add: matches_flag_family_def)
    moreover have "\<forall>n \<in> set (ff_long f). long_form n a \<longleftrightarrow> before_equals a = n"
      using wf before_equals_iff by simp
    then have "before_equals a \<in> set (ff_long f) \<longleftrightarrow> ?long"
      by simp
    ultimately show ?thesis by blast
  next
    case False
    then have nl: "\<not> ?long" using flag by blast
    show ?thesis
    proof (cases a)
      case Nil
      then show ?thesis using nl by (simp add: matches_flag_family_def is_flag_def)
    next
      case (Cons x r)
      show ?thesis
      proof (cases r)
        case Nil
        with Cons nl show ?thesis
          by (simp add: matches_flag_family_def is_flag_def is_long_flag_def split: option.splits)
      next
        case (Cons c cs)
        have a: "a = x # c # cs" using \<open>a = x # r\<close> Cons by simp
        have flag: "is_flag a \<longleftrightarrow> x = CHR ''-''"
          by (simp add: a is_flag_def)
        have long: "x = CHR ''-'' \<Longrightarrow> c \<noteq> CHR ''-''"
          using False by (auto simp: a is_long_flag_def)
        have "matches_flag_family f a \<longleftrightarrow> x = CHR ''-'' \<and>
            (case ff_short f of None \<Rightarrow> False
             | Some short \<Rightarrow> if ff_in_cluster f then list_ex (\<lambda>ch. ch \<in> set short) (c # cs)
                             else c \<in> set short)"
          using False flag by (cases "x = CHR ''-''"; cases "ff_short f") (simp_all add: matches_flag_family_def a)
        also have "\<dots> \<longleftrightarrow> ?short"
          using long by (cases "ff_short f"; simp add: a list_ex_iff disjoint_iff; blast)
        finally show ?thesis using nl by blast
      qed
    qed
  qed
qed

lemma families_well_formed:
  "list_all well_formed_family [sed_inplace_flag, sort_output_flag, date_set_flag, fd_exec_flag,
     tree_output_flag, rg_exec_flag, git_output_file_flag]"
  by (simp add: well_formed_family_def is_long_flag_def sed_inplace_flag_def sort_output_flag_def
      date_set_flag_def fd_exec_flag_def tree_output_flag_def rg_exec_flag_def
      git_output_file_flag_def)

section \<open>sed scripts\<close>

lemma past_delimiters_segment:
  assumes "d \<noteq> backslash" "d \<notin> set a" "backslash \<notin> set a"
  shows "past_delimiters (Suc k) d (a @ d # s) = past_delimiters k d s"
  using assms by (induction a) auto

lemma sed_flags_plain:
  "list_all (\<lambda>c. \<not> is_sed_separator c) fs \<Longrightarrow> \<exists>t. sed_substitute_flags fs =
    (\<lparr>sd_write = CHR ''w'' \<in> set fs \<or> CHR ''W'' \<in> set fs,
      sd_exec = CHR ''e'' \<in> set (takeWhile (\<lambda>c. c \<noteq> CHR ''w'' \<and> c \<noteq> CHR ''W'') fs)\<rparr>, t)
    \<and> (t = [])"
proof (induction fs)
  case Nil
  then show ?case by (simp add: no_danger_def)
next
  case (Cons f fs)
  have "skip_to_line_end fs = []"
    using Cons.prems by (auto simp: skip_to_line_end_def list_all_iff is_sed_separator_def)
  with Cons show ?case by (auto simp: danger_or_def)
qed

lemma danger_or_none [simp]: "danger_or d no_danger = d" "danger_or no_danger d = d"
  by (simp_all add: danger_or_def no_danger_def)

lemma scan_sed_Nil [simp]: "scan_sed_script [] = no_danger"
  by (subst scan_sed_script.simps) (simp add: skip_addresses_def skip_address_def numeral_2_eq_2)

lemma scan_sed_command:
  assumes "\<not> is_sed_separator c" "skip_address (c # r) = None"
    and "c \<noteq> CHR ''!''"
  shows "skip_addresses (dropWhile is_sed_separator (c # r)) = c # r"
  using assms by (auto simp: skip_addresses_def numeral_2_eq_2 is_sed_separator_def)

section \<open>Wrappers and assignments\<close>

text \<open>What the wrapper loop passes over in front of the wrapped command.\<close>

definition wrapper_operand :: "string \<Rightarrow> bool" where
  "wrapper_operand t \<longleftrightarrow> is_flag t \<or> is_assignment t
     \<or> normalize_command_token t \<in> set transparent_prefixes \<or> is_number t"

lemma wrapped_command_skip:
  assumes "list_all wrapper_operand ops" "\<not> wrapper_operand t"
    and "w = ''env'' \<Longrightarrow> list_all (\<lambda>o'. \<not> is_env_split_string_flag o') (ops @ [t])"
  shows "wrapped_command w (ops @ t # args)
    = Some \<lparr>ex_command = Some (normalize_command_token t), ex_args = args\<rparr>"
  using assms by (induction ops) (auto simp: wrapper_operand_def)

lemma extract_command_wrapped:
  assumes "list_all is_assignment vars" "\<not> is_assignment raw"
    and "normalize_command_token raw = w" "w \<in> set transparent_prefixes"
    and "list_all wrapper_operand ops" "\<not> wrapper_operand t"
    and "w = ''env'' \<Longrightarrow> list_all (\<lambda>o'. \<not> is_env_split_string_flag o') (ops @ [t])"
  shows "extract_command (vars @ raw # ops @ t # args)
    = \<lparr>ex_command = Some (normalize_command_token t), ex_args = args\<rparr>"
proof -
  have "dropWhile is_assignment (vars @ raw # ops @ t # args) = raw # ops @ t # args"
    using assms(1,2) by (induction vars) auto
  with wrapped_command_skip[OF assms(5,6,7)] assms(3,4) show ?thesis
    by (simp add: extract_command_def)
qed

section \<open>git options in front of the subcommand\<close>

definition inline_config :: "string \<Rightarrow> bool" where
  "inline_config tok \<longleftrightarrow> tok = ''-c'' \<or> long_form ''--config-env'' tok"

text \<open>A run of global options that inject no configuration: those with a separate operand take it
  along, whatever it looks like.\<close>

inductive global_run :: "string list \<Rightarrow> bool" where
  run_Nil: "global_run []"
| run_flag: "is_flag f \<Longrightarrow> \<not> inline_config f \<Longrightarrow> f \<notin> set git_global_value_options
    \<Longrightarrow> global_run us \<Longrightarrow> global_run (f # us)"
| run_value: "is_flag f \<Longrightarrow> \<not> inline_config f \<Longrightarrow> f \<in> set git_global_value_options
    \<Longrightarrow> global_run us \<Longrightarrow> global_run (f # v # us)"

lemma git_subcommand_run: "global_run us \<Longrightarrow> git_subcommand (us @ args) = git_subcommand args"
  by (induction rule: global_run.induct) auto

lemma starts_with_long_form: "starts_with tok (n @ ''='') \<longleftrightarrow> (\<exists>v. tok = n @ ''='' @ v)"
  by (simp add: starts_with_iff)

lemma has_git_inline_config_step:
  "has_git_inline_config (tok # rest) \<longleftrightarrow> is_flag tok \<and> (inline_config tok
     \<or> has_git_inline_config (if tok \<in> set git_global_value_options then drop 1 rest else rest))"
proof -
  have "starts_with tok ''--config-env='' \<longleftrightarrow> (\<exists>v. tok = ''--config-env'' @ ''='' @ v)"
    by (simp add: starts_with_iff)
  then show ?thesis
    by (simp add: inline_config_def long_form_iff)
qed

declare has_git_inline_config.simps(2) [simp del]

lemma has_git_inline_config_found:
  assumes "global_run us" "inline_config tok"
  shows "has_git_inline_config (us @ tok # rest)"
proof -
  have "is_flag tok"
    using assms(2) by (auto simp: inline_config_def long_form_iff is_flag_def)
  with assms show ?thesis
    by (induction rule: global_run.induct) (simp_all add: has_git_inline_config_step)
qed

lemma has_git_inline_config_none:
  "global_run us \<Longrightarrow> has_git_inline_config (us @ args) = has_git_inline_config args"
  by (induction rule: global_run.induct) (simp_all add: has_git_inline_config_step)

lemma git_globals:
  assumes "global_run us"
  shows "inline_config tok \<Longrightarrow> analyze_git_command (us @ tok # args) = Op_exec ''git''"
    and "analyze_git_command (us @ args) = analyze_git_command args"
  using has_git_inline_config_found[OF assms] has_git_inline_config_none[OF assms]
    git_subcommand_run[OF assms]
  by (simp_all add: analyze_git_command_def)

section \<open>Properties\<close>

text \<open>Nothing hides behind a separator: a text whose quotations are closed, a separator
  (\<open>;\<close> or a line end) and a second text make a read-only command exactly when both parts are
  read-only commands.\<close>
theorem shell_no_smuggling:
  assumes "quotes_closed True a" "hard_separator c"
    and "split_shell_segments True a \<noteq> []" "split_shell_segments True b \<noteq> []"
  shows "is_shell_command_read_only (a @ c # b)
    \<longleftrightarrow> is_shell_command_read_only a \<and> is_shell_command_read_only b"
  using assms(3,4)
  by (auto simp: is_shell_command_read_only_def analyze_shell_command_def Let_def
      has_substitution_append[OF assms(2)] split_segments_append[OF assms(1,2)])

theorem shell_no_smuggling_witness:
  "\<not> is_shell_command_read_only (''cat x'' @ CHR '';'' # ''touch y'')
   \<and> is_shell_command_read_only (''cat x'' @ CHR '';'' # ''ls'')"
proof -
  have h: "quotes_closed True ''cat x''" "hard_separator (CHR '';'')"
    "split_shell_segments True ''cat x'' \<noteq> []" "split_shell_segments True ''touch y'' \<noteq> []"
    "split_shell_segments True ''ls'' \<noteq> []"
    by code_simp+
  have r: "is_shell_command_read_only ''cat x''" "\<not> is_shell_command_read_only ''touch y''"
    "is_shell_command_read_only ''ls''"
    by code_simp+
  show ?thesis
    using shell_no_smuggling[OF h(1,2,3,4)] shell_no_smuggling[OF h(1,2,3,5)] r by blast
qed

text \<open>Wrappers and assignments cannot disguise a command: behind environment assignments, a
  transparent prefix (by name or by path) and the options, assignments, numbers and further
  prefixes after it, the command that is analysed is the wrapped one, with its own arguments.\<close>
theorem wrappers_transparent:
  assumes "list_all is_assignment vars" "\<not> is_assignment raw"
    and "normalize_command_token raw \<in> set transparent_prefixes"
    and "list_all wrapper_operand operands" "\<not> wrapper_operand t"
    and "list_all (\<lambda>operand. \<not> is_env_split_string_flag operand) operands"
  shows "extract_command (vars @ raw # operands @ t # args)
    = \<lparr>ex_command = Some (normalize_command_token t), ex_args = args\<rparr>"
proof -
  have "\<not> is_flag t" using assms(5) by (simp add: wrapper_operand_def)
  then have "\<not> is_env_split_string_flag t"
    using is_long_flag_flag by (auto simp: is_env_split_string_flag_def)
  with extract_command_wrapped[OF assms(1,2) refl assms(3,4,5)] assms(6) show ?thesis by simp
qed

theorem wrappers_transparent_witness:
  "extract_command [''A=1'', ''/usr/bin/env'', ''-i'', ''B=2'', ''timeout'', ''5'', ''/bin/rm'', ''x'']
    = \<lparr>ex_command = Some ''rm'', ex_args = [''x'']\<rparr>"
proof -
  have h: "list_all is_assignment [''A=1'']" "\<not> is_assignment ''/usr/bin/env''"
    "normalize_command_token ''/usr/bin/env'' \<in> set transparent_prefixes"
    "list_all wrapper_operand [''-i'', ''B=2'', ''timeout'', ''5'']" "\<not> wrapper_operand ''/bin/rm''"
    "list_all (\<lambda>operand. \<not> is_env_split_string_flag operand) [''-i'', ''B=2'', ''timeout'', ''5'']"
    "normalize_command_token ''/bin/rm'' = ''rm''"
    by code_simp+
  from wrappers_transparent[OF h(1-6), of "[''x'']"] h(7) show ?thesis by simp
qed

text \<open>The global options of git cannot hide its subcommand: a run of them that injects no
  configuration, operands included, leaves the analysis of what follows unchanged, and an option
  that injects configuration makes the invocation one that executes.\<close>
theorem git_globals_transparent:
  assumes "global_run us"
  shows "analyze_git_command (us @ args) = analyze_git_command args
    \<and> (inline_config tok \<longrightarrow> analyze_git_command (us @ tok # args) = Op_exec ''git'')"
  using git_globals[OF assms] by simp

theorem git_globals_transparent_witness:
  "analyze_git_command [''-C'', ''log'', ''--no-pager'', ''checkout'', ''f''] = Op_write []
   \<and> analyze_git_command [''-C'', ''log'', ''-c'', ''core.pager=x'', ''status''] = Op_exec ''git''"
proof -
  have run: "global_run [''-C'', ''log'', ''--no-pager'']" "global_run [''-C'', ''log'']"
    by (intro global_run.intros; simp add: is_flag_def inline_config_def long_form_iff
        git_global_value_options_def)+
  have "analyze_git_command [''checkout'', ''f''] = Op_write []" "inline_config ''-c''"
    by code_simp+
  with git_globals_transparent[OF run(1), of "[''checkout'', ''f'']"]
    git_globals_transparent[OF run(2), of "[''core.pager=x'', ''status'']" "''-c''"]
  show ?thesis by simp
qed

text \<open>The letters of a substitution count where they are commands: for \<open>s\<close> with a delimiter
  that neither part holds, the script writes exactly if a \<open>w\<close> or \<open>W\<close> is among the flags, and
  executes exactly if an \<open>e\<close> stands among them before any file name; what pattern and replacement
  hold makes no difference.\<close>
theorem sed_substitution_flags:
  assumes "d \<noteq> backslash" "d \<notin> set pat" "backslash \<notin> set pat" "d \<notin> set repl" "backslash \<notin> set repl"
    and "list_all (\<lambda>c. \<not> is_sed_separator c) fs"
  shows "scan_sed_script (CHR ''s'' # d # pat @ d # repl @ d # fs)
    = \<lparr>sd_write = CHR ''w'' \<in> set fs \<or> CHR ''W'' \<in> set fs,
       sd_exec = CHR ''e'' \<in> set (takeWhile (\<lambda>c. c \<noteq> CHR ''w'' \<and> c \<noteq> CHR ''W'') fs)\<rparr>"
proof -
  have "skip_delimited_body (d # pat @ d # repl @ d # fs) = past_delimiters 2 d (pat @ d # repl @ d # fs)"
    by (simp add: skip_delimited_body_def)
  also have "\<dots> = fs"
    using assms by (simp add: numeral_2_eq_2 past_delimiters_segment)
  finally have body: "skip_delimited_body (d # pat @ d # repl @ d # fs) = fs" .
  have "skip_addresses (dropWhile is_sed_separator (CHR ''s'' # d # pat @ d # repl @ d # fs))
      = CHR ''s'' # d # pat @ d # repl @ d # fs"
    by (rule scan_sed_command)
      (simp_all add: is_sed_separator_def skip_address_def is_digit_def quote_chars)
  then show ?thesis
    using sed_flags_plain[OF assms(6)] body
    by (subst scan_sed_script.simps) (auto simp del: takeWhile_eq_Nil_iff)
qed

theorem sed_substitution_flags_witness:
  "scan_sed_script ''s/w/e/gw'' = \<lparr>sd_write = True, sd_exec = False\<rparr>
   \<and> scan_sed_script ''s/w/e/g'' = \<lparr>sd_write = False, sd_exec = False\<rparr>"
proof -
  have h: "CHR ''/'' \<noteq> backslash" "CHR ''/'' \<notin> set ''w''" "backslash \<notin> set ''w''"
    "CHR ''/'' \<notin> set ''e''" "backslash \<notin> set ''e''"
    "list_all (\<lambda>c. \<not> is_sed_separator c) ''gw''" "list_all (\<lambda>c. \<not> is_sed_separator c) ''g''"
    by (simp_all add: quote_chars is_sed_separator_def)
  from sed_substitution_flags[OF h(1-6)] sed_substitution_flags[OF h(1-5,7)]
  show ?thesis by simp
qed

end
