(* ===== verification/Shell_Mutations.thy ===== *)
theory Shell_Mutations
  imports Shell_Semantics
begin

text \<open>
  What the read-only verdict of \<open>packages/sdk/src/permissions/shellSemantics.ts\<close> excludes: the forms of
  the read commands that write a file, change the system or run a command, described without the code.
  The scripts of \<open>sed\<close> are given by a grammar (addresses, commands, separators, as POSIX has them) and the
  scanner of the code is shown to compute the effects of every script of it; the command lines of \<open>sed\<close>
  and \<open>git\<close> are described by the words in front of the script and of the subcommand.
\<close>

section \<open>Short flags\<close>

text \<open>A cluster of one-letter flags with such a letter anywhere, or in front.\<close>

definition cluster_with :: "(char \<Rightarrow> bool) \<Rightarrow> string \<Rightarrow> bool" where
  "cluster_with p a = (case a of
     x # c # cs \<Rightarrow> x = CHR ''-'' \<and> c \<noteq> CHR ''-'' \<and> list_ex p (c # cs) | _ \<Rightarrow> False)"

definition cluster_led_by :: "char \<Rightarrow> string \<Rightarrow> bool" where
  "cluster_led_by c a = starts_with a [CHR ''-'', c]"



section \<open>Scripts of sed\<close>

text \<open>Text between delimiters, in which a backslash escapes the next character.\<close>

fun sed_field :: "char \<Rightarrow> string \<Rightarrow> bool" where
  "sed_field d [] = True"
| "sed_field d (c # s) =
     (if c = backslash then (case s of [] \<Rightarrow> False | _ # t \<Rightarrow> sed_field d t) else c \<noteq> d \<and> sed_field d s)"

datatype sed_address = Line_number string | Last_line | Pattern string | Custom_pattern char string

datatype sed_command =
    Plain char                              \<comment> \<open>a command of one letter, as \<open>p\<close> or \<open>d\<close>\<close>
  | To_line_end char string                 \<comment> \<open>with text, a label or a file up to the end of the line\<close>
  | Translate char string string
  | Substitute char string string string "string option"   \<comment> \<open>flags, and the file of a \<open>w\<close> flag\<close>

record sed_item =
  si_addresses :: "sed_address list"
  si_negated :: bool
  si_command :: sed_command
  si_end :: char                            \<comment> \<open>the separator after it\<close>

fun render_address :: "sed_address \<Rightarrow> string" where
  "render_address (Line_number n) = n"
| "render_address Last_line = ''$''"
| "render_address (Pattern x) = ''/'' @ x @ ''/''"
| "render_address (Custom_pattern d x) = backslash # d # x @ [d]"

fun render_command :: "sed_command \<Rightarrow> string" where
  "render_command (Plain c) = [c]"
| "render_command (To_line_end c x) = c # x"
| "render_command (Translate d x y) = ''y'' @ d # x @ d # y @ [d]"
| "render_command (Substitute d x y flags file) =
     ''s'' @ d # x @ d # y @ d # flags @ (case file of None \<Rightarrow> [] | Some f \<Rightarrow> CHR ''w'' # f)"

definition render_item :: "sed_item \<Rightarrow> string" where
  "render_item i = join_strings '','' (map render_address (si_addresses i))
     @ (if si_negated i then ''!'' else []) @ render_command (si_command i)"

fun render_script :: "sed_item list \<Rightarrow> string" where
  "render_script [] = []"
| "render_script [i] = render_item i"
| "render_script (i # is) = render_item i @ si_end i # render_script is"

definition no_line_end :: "string \<Rightarrow> bool" where
  "no_line_end s \<longleftrightarrow> newline \<notin> set s \<and> carriage_return \<notin> set s"

fun valid_address :: "sed_address \<Rightarrow> bool" where
  "valid_address (Line_number n) = (n \<noteq> [] \<and> list_all is_digit n)"
| "valid_address Last_line = True"
| "valid_address (Pattern x) = sed_field (CHR ''/'') x"
| "valid_address (Custom_pattern d x) = (d \<noteq> backslash \<and> sed_field d x)"

fun valid_command :: "sed_command \<Rightarrow> bool" where
  "valid_command (Plain c) = (c \<in> set ''dDgGhHnNpPqQlxzF='')"
| "valid_command (To_line_end c x) = (c \<in> set ''aicrRbtT:#wWe'' \<and> no_line_end x)"
| "valid_command (Translate d x y) = (d \<noteq> backslash \<and> sed_field d x \<and> sed_field d y)"
| "valid_command (Substitute d x y flags file) =
     (d \<noteq> backslash \<and> sed_field d x \<and> sed_field d y \<and> set flags \<subseteq> set ''0123456789gpiIeMm''
      \<and> pred_option no_line_end file)"

fun up_to_line_end :: "sed_command \<Rightarrow> bool" where
  "up_to_line_end (To_line_end c x) = True"
| "up_to_line_end (Substitute d x y flags file) = (file \<noteq> None)"
| "up_to_line_end _ = False"

definition valid_item :: "sed_item \<Rightarrow> bool" where
  "valid_item i \<longleftrightarrow> length (si_addresses i) \<le> 2 \<and> list_all valid_address (si_addresses i)
     \<and> valid_command (si_command i) \<and> is_sed_separator (si_end i)
     \<and> (up_to_line_end (si_command i) \<longrightarrow> si_end i \<in> {newline, carriage_return})"

text \<open>What a command does besides reading: \<open>w\<close> and \<open>W\<close> write a file, \<open>e\<close> runs a command.\<close>

fun sed_effect :: "sed_command \<Rightarrow> sed_danger" where
  "sed_effect (To_line_end c x) = \<lparr>sd_write = c \<in> {CHR ''w'', CHR ''W''}, sd_exec = c = CHR ''e''\<rparr>"
| "sed_effect (Substitute d x y flags file) = \<lparr>sd_write = file \<noteq> None, sd_exec = CHR ''e'' \<in> set flags\<rparr>"
| "sed_effect _ = no_danger"


section \<open>The scanner computes the effects\<close>

lemma danger_or_simps [simp]:
  "danger_or no_danger d = d" "danger_or d no_danger = d"
  "sd_write (danger_or a b) = (sd_write a \<or> sd_write b)" "sd_exec (danger_or a b) = (sd_exec a \<or> sd_exec b)"
  by (simp_all add: danger_or_def no_danger_def)

















text \<open>The scripts of the grammar that write a file or run a command.\<close>

definition sed_changes :: "string \<Rightarrow> bool" where
  "sed_changes script \<longleftrightarrow> (\<exists>items i. list_all valid_item items \<and> script = render_script items \<and> i \<in> set items
     \<and> sed_effect (si_command i) \<noteq> no_danger)"



section \<open>Command lines of sed\<close>

definition plain_sed_letters :: "string \<Rightarrow> bool" where
  "plain_sed_letters cs \<longleftrightarrow> set cs \<subseteq> set ''nrEsuz''"

definition plain_sed_flag :: "string \<Rightarrow> bool" where
  "plain_sed_flag f \<longleftrightarrow> (\<exists>cs. f = CHR ''-'' # cs \<and> cs \<noteq> [] \<and> plain_sed_letters cs)
     \<or> (is_long_flag f \<and> before_equals f \<notin> {''--expression'', ''--file'', ''--line-length''})"

text \<open>Words in front of a script: flags, scripts of earlier options and operands. The index is true as long
  as no script and no operand is among them, so that the next operand is the script.\<close>

inductive sed_words :: "bool \<Rightarrow> string list \<Rightarrow> bool" where
  words_Nil: "sed_words True []"
| words_flag: "plain_sed_flag f \<Longrightarrow> sed_words b us \<Longrightarrow> sed_words b (f # us)"
| words_length: "f \<in> {''-l'', ''--line-length''} \<Longrightarrow> sed_words b us \<Longrightarrow> sed_words b (f # v # us)"
| words_script: "f \<in> {''-e'', ''--expression''} \<Longrightarrow> sed_words b us \<Longrightarrow> sed_words False (f # s # us)"
| words_operand: "\<not> is_flag a \<Longrightarrow> sed_words b us \<Longrightarrow> sed_words False (a # us)"

text \<open>A command line gives a script as its first operand, as the word after \<open>-e\<close> (alone or behind other
  letters) or \<open>--expression\<close>, or attached to such an option; or it names a script file.\<close>

definition sed_gives :: "string list \<Rightarrow> string \<Rightarrow> bool" where
  "sed_gives args script \<longleftrightarrow>
     (\<exists>us rest. sed_words True us \<and> args = us @ script # rest \<and> \<not> is_flag script)
   \<or> (\<exists>b us f rest cs. sed_words b us \<and> args = us @ f # script # rest
        \<and> (f = ''--expression'' \<or> f = CHR ''-'' # cs @ ''e'' \<and> plain_sed_letters cs))
   \<or> (\<exists>b us f rest cs. sed_words b us \<and> args = us @ f # rest
        \<and> (f = ''--expression='' @ script \<or> f = CHR ''-'' # cs @ CHR ''e'' # script \<and> plain_sed_letters cs \<and> script \<noteq> []))"

definition sed_script_file :: "string list \<Rightarrow> bool" where
  "sed_script_file args \<longleftrightarrow> (\<exists>b us f rest cs v. sed_words b us \<and> args = us @ f # rest
     \<and> (long_form ''--file'' f \<or> f = CHR ''-'' # cs @ CHR ''f'' # v \<and> plain_sed_letters cs))"






lemma plain_no_letters [simp]: "plain_sed_letters []"
  by (simp add: plain_sed_letters_def)










section \<open>Subcommands of git\<close>

definition operands :: "string list \<Rightarrow> string list" where
  "operands args = filter (\<lambda>a. \<not> is_flag a) args"

definition git_changing_subcommands :: "string list" where
  "git_changing_subcommands =
     [''add'', ''am'', ''apply'', ''bisect'', ''checkout'', ''cherry-pick'', ''clean'', ''clone'', ''commit'',
      ''fast-import'', ''fetch'', ''filter-branch'', ''gc'', ''init'', ''merge'', ''mv'', ''notes'', ''prune'',
      ''pull'', ''push'', ''read-tree'', ''rebase'', ''repack'', ''replace'', ''reset'', ''restore'', ''revert'',
      ''rm'', ''sparse-checkout'', ''submodule'', ''switch'', ''symbolic-ref'', ''update-index'', ''update-ref'',
      ''worktree'', ''write-tree'']"

text \<open>The changing forms of the subcommands that also list: a stash other than \<open>list\<close> and \<open>show\<close>; an edit of
  the remotes; a branch or a tag that is created (an operand without a list option), moved, forced or
  deleted; a configuration value that is set (a key and a value behind scope options), unset or edited.\<close>

definition stash_changes :: "string list \<Rightarrow> bool" where
  "stash_changes args \<longleftrightarrow> (case operands args of [] \<Rightarrow> True
     | a # _ \<Rightarrow> a \<in> set [''push'', ''save'', ''pop'', ''apply'', ''drop'', ''clear'', ''branch'', ''create'', ''store''])"

definition remote_changes :: "string list \<Rightarrow> bool" where
  "remote_changes args \<longleftrightarrow> (case operands args of [] \<Rightarrow> False
     | a # _ \<Rightarrow> a \<in> set [''add'', ''rename'', ''remove'', ''rm'', ''set-head'', ''set-branches'', ''set-url'',
                       ''prune'', ''update''])"

definition branch_change_flags :: "string list" where
  "branch_change_flags = [''--delete'', ''--move'', ''--copy'', ''--force'', ''--set-upstream-to'',
     ''--unset-upstream'', ''--edit-description'']"

definition branch_changes :: "string list \<Rightarrow> bool" where
  "branch_changes args \<longleftrightarrow>
     (\<exists>a \<in> set args. cluster_with (\<lambda>c. c \<in> set ''dDmMcCfu'') a \<or> (\<exists>n \<in> set branch_change_flags. long_form n a))
   \<or> operands args \<noteq> [] \<and> \<not> (\<exists>a \<in> set args. cluster_with (\<lambda>c. c = CHR ''l'') a \<or> long_form ''--list'' a)"

definition tag_change_flags :: "string list" where
  "tag_change_flags = [''--delete'', ''--annotate'', ''--sign'', ''--message'', ''--file'', ''--force'',
     ''--create-reflog'']"

definition tag_changes :: "string list \<Rightarrow> bool" where
  "tag_changes args \<longleftrightarrow>
     (\<exists>a \<in> set args. (\<exists>c \<in> set ''dDasmFf''. cluster_led_by c a) \<or> (\<exists>n \<in> set tag_change_flags. long_form n a))
   \<or> operands args \<noteq> [] \<and> ''-l'' \<notin> set args \<and> ''--list'' \<notin> set args"

definition config_change_flags :: "string list" where
  "config_change_flags = [''--unset'', ''--unset-all'', ''--add'', ''--replace-all'', ''--edit'',
     ''--rename-section'', ''--remove-section'']"

definition config_scopes :: "string list" where
  "config_scopes = [''--global'', ''--local'', ''--system'', ''--worktree'']"

definition config_changes :: "string list \<Rightarrow> bool" where
  "config_changes args \<longleftrightarrow>
     (\<exists>a \<in> set args. (\<exists>c \<in> set ''e''. cluster_led_by c a) \<or> (\<exists>n \<in> set config_change_flags. long_form n a))
   \<or> length (operands args) \<ge> 2 \<and> (\<forall>a \<in> set args. is_flag a \<longrightarrow> a \<in> set config_scopes)"

definition git_changes :: "string \<Rightarrow> string list \<Rightarrow> bool" where
  "git_changes sub args \<longleftrightarrow> sub \<in> set git_changing_subcommands
     \<or> sub = ''stash'' \<and> stash_changes args \<or> sub = ''remote'' \<and> remote_changes args
     \<or> sub = ''branch'' \<and> branch_changes args \<or> sub = ''tag'' \<and> tag_changes args
     \<or> sub = ''config'' \<and> config_changes args"

















section \<open>Uses that change something\<close>

text \<open>The forms of the read commands that write a file, change the system or run a command.\<close>

definition mutating_use :: "string \<Rightarrow> string list \<Rightarrow> bool" where
  "mutating_use cmd args \<longleftrightarrow>
     (cmd = ''sed'' \<and> (\<exists>a \<in> set args. long_form ''--in-place'' a \<or> cluster_with (\<lambda>c. c = CHR ''i'') a))
   \<or> (cmd = ''sed'' \<and> (sed_script_file args \<or> (\<exists>script. sed_gives args script \<and> sed_changes script)))
   \<or> (cmd = ''sort'' \<and> (\<exists>a \<in> set args. long_form ''--output'' a \<or> cluster_with (\<lambda>c. c = CHR ''o'') a))
   \<or> (cmd = ''date'' \<and> (\<exists>a \<in> set args. long_form ''--set'' a \<or> cluster_led_by (CHR ''s'') a
        \<or> \<not> is_flag a \<and> \<not> starts_with a ''+''))
   \<or> (cmd = ''find'' \<and> set args \<inter> set find_destructive_primaries \<noteq> {})
   \<or> (cmd = ''fd'' \<and> (\<exists>a \<in> set args. long_form ''--exec'' a \<or> long_form ''--exec-batch'' a
        \<or> cluster_with (\<lambda>c. c = CHR ''x'' \<or> c = CHR ''X'') a))
   \<or> (cmd = ''tree'' \<and> (\<exists>a \<in> set args. long_form ''--output'' a \<or> cluster_led_by (CHR ''o'') a))
   \<or> (cmd = ''rg'' \<and> (\<exists>a \<in> set args. long_form ''--pre'' a \<or> long_form ''--hostname-bin'' a))
   \<or> (cmd = ''xxd'' \<and> length (extract_paths args) \<ge> 2)
   \<or> (cmd = ''hostname'' \<and> (\<exists>a \<in> set args. \<not> is_flag a))
   \<or> (cmd = ''git'' \<and> (\<exists>us sub sub_args a. global_run us \<and> args = us @ sub # sub_args
        \<and> \<not> is_flag sub \<and> a \<in> set sub_args \<and> long_form ''--output'' a))
   \<or> (cmd = ''git'' \<and> (\<exists>us tok rest. global_run us \<and> args = us @ tok # rest \<and> inline_config tok))
   \<or> (cmd = ''git'' \<and> (\<exists>us sub sub_args. global_run us \<and> args = us @ sub # sub_args
        \<and> \<not> is_flag sub \<and> git_changes sub sub_args))"












section \<open>Properties\<close>



text \<open>Uses that the description covers: an addressed substitution that writes a file, a push behind
  global options.\<close>

lemma mutating_examples:
  "mutating_use ''sed'' [''-n'', ''1,3s/a/b/w F'', ''x'']"
  "mutating_use ''git'' [''-C'', ''d'', ''push'', ''origin'']"
proof -
  let ?i = "\<lparr>si_addresses = [Line_number ''1'', Line_number ''3''], si_negated = False,
    si_command = Substitute (CHR ''/'') ''a'' ''b'' [] (Some '' F''), si_end = newline\<rparr>"
  have "valid_item ?i" "render_script [?i] = ''1,3s/a/b/w F''" by code_simp+
  then have "sed_changes ''1,3s/a/b/w F''"
    unfolding sed_changes_def by (intro exI[of _ "[?i]"] exI[of _ ?i]) (auto simp: no_danger_def)
  moreover have "plain_sed_flag ''-n''"
    by (simp add: plain_sed_flag_def plain_sed_letters_def)
  then have "sed_words True [''-n'']" by (intro sed_words.intros)
  then have "sed_gives [''-n'', ''1,3s/a/b/w F'', ''x''] ''1,3s/a/b/w F''"
    unfolding sed_gives_def
    by (intro disjI1 exI[of _ "[''-n'']"] exI[of _ "[''x'']"]) (simp add: is_flag_def)
  ultimately show "mutating_use ''sed'' [''-n'', ''1,3s/a/b/w F'', ''x'']"
    by (auto simp: mutating_use_def)
  have "global_run [''-C'', ''d'']"
    by (intro global_run.intros; simp add: is_flag_def inline_config_def long_form_iff git_global_value_options_def)
  moreover have "git_changes ''push'' [''origin'']" by (simp add: git_changes_def git_changing_subcommands_def)
  ultimately show "mutating_use ''git'' [''-C'', ''d'', ''push'', ''origin'']"
    unfolding mutating_use_def
    by (intro disjI2 conjI exI[of _ "[''-C'', ''d'']"] exI[of _ "''push''"] exI[of _ "[''origin'']"])
      (simp_all add: is_flag_def)
qed

text \<open>What the analysis does not see. GNU \<open>sed\<close> ends the label of \<open>b\<close>, \<open>t\<close> and \<open>T\<close> at a semicolon, the scanner
  at the end of the line, so that a \<open>w\<close> behind \<open>t;\<close> is not read; and an abbreviated long option, which GNU
  \<open>getopt_long\<close> accepts, is no member of a flag family.\<close>

lemma label_hides_write:
  "scan_sed_script ''t;w F'' = no_danger" "is_read (analyze_command ''sed'' [''t;w F'', ''in''])"
  by code_simp+

lemma abbreviated_output_reads: "is_shell_command_read_only ''sort --out=f a''"
  by code_simp

end
