(* ===== verification/Permission_Rules.thy ===== *)
theory Permission_Rules
  imports Messages Posix_Paths Shell_Syntax
begin

text \<open>
  \<open>packages/sdk/src/config/rules.ts\<close> (permission rules and their wildcards), the composed MCP tool
  names of \<open>mcp/toolWrapper.ts\<close>, and \<open>tools/permissionMatchers.ts\<close>. A wildcard is compiled to the
  items of the regular expression the code builds; the lemmas say which texts it matches.
\<close>

section \<open>Wildcards\<close>

text \<open>The pieces of the regular expression: a literal, \<open>.\<close>, \<open>.*\<close>, \<open>\S\<close>, \<open>\S*\<close>.\<close>

datatype wildcard_item = Lit char | Any_char | Any_run | Word_char | Word_run

datatype wildcard_flavor = File_flavor | Shell_flavor

function wildcard_items :: "wildcard_flavor \<Rightarrow> string \<Rightarrow> wildcard_item list" where
  "wildcard_items flavor [] = []"
| "wildcard_items flavor (c # rest) =
     (if c = CHR ''*'' then
        (if next_is (CHR ''*'') rest then Any_run # wildcard_items flavor (drop 1 rest)
         else (if flavor = Shell_flavor then Word_run else Any_run) # wildcard_items flavor rest)
      else if c = CHR ''?''
        then (if flavor = Shell_flavor then Word_char else Any_char) # wildcard_items flavor rest
      else Lit c # wildcard_items flavor rest)"
  by pat_completeness auto
termination by (relation "measure (\<lambda>(f, s). length s)") auto

text \<open>\<open>.\<close> matches no line end. The flag \<open>i\<close> ignores the case of letters.\<close>

definition is_line_end :: "char \<Rightarrow> bool" where
  "is_line_end c \<longleftrightarrow> c = newline \<or> c = carriage_return"

definition same_char :: "bool \<Rightarrow> char \<Rightarrow> char \<Rightarrow> bool" where
  "same_char case_sensitive a b =
     (if case_sensitive then a = b else to_lower_char a = to_lower_char b)"

fun items_match :: "bool \<Rightarrow> wildcard_item list \<Rightarrow> string \<Rightarrow> bool" where
  "items_match cs [] s = (s = [])"
| "items_match cs (Any_run # items) [] = items_match cs items []"
| "items_match cs (Any_run # items) (x # s) =
     (items_match cs items (x # s) \<or> (\<not> is_line_end x \<and> items_match cs (Any_run # items) s))"
| "items_match cs (Word_run # items) [] = items_match cs items []"
| "items_match cs (Word_run # items) (x # s) =
     (items_match cs items (x # s) \<or> (\<not> is_space x \<and> items_match cs (Word_run # items) s))"
| "items_match cs (_ # items) [] = False"
| "items_match cs (Lit c # items) (x # s) = (same_char cs c x \<and> items_match cs items s)"
| "items_match cs (Any_char # items) (x # s) = (\<not> is_line_end x \<and> items_match cs items s)"
| "items_match cs (Word_char # items) (x # s) = (\<not> is_space x \<and> items_match cs items s)"

definition wildcard_matches :: "wildcard_flavor \<Rightarrow> bool \<Rightarrow> string \<Rightarrow> string \<Rightarrow> bool" where
  "wildcard_matches flavor case_sensitive pattern v =
     items_match case_sensitive (wildcard_items flavor pattern) v"

text \<open>What one item stands for, and what a list of items does.\<close>

fun item_text :: "bool \<Rightarrow> wildcard_item \<Rightarrow> string \<Rightarrow> bool" where
  "item_text cs (Lit c) t = (case t of [x] \<Rightarrow> same_char cs c x | _ \<Rightarrow> False)"
| "item_text cs Any_char t = (case t of [x] \<Rightarrow> \<not> is_line_end x | _ \<Rightarrow> False)"
| "item_text cs Word_char t = (case t of [x] \<Rightarrow> \<not> is_space x | _ \<Rightarrow> False)"
| "item_text cs Any_run t = list_all (\<lambda>x. \<not> is_line_end x) t"
| "item_text cs Word_run t = list_all (\<lambda>x. \<not> is_space x) t"

definition stands_for :: "bool \<Rightarrow> wildcard_item list \<Rightarrow> string \<Rightarrow> bool" where
  "stands_for cs items s \<longleftrightarrow> (\<exists>ts. list_all2 (item_text cs) items ts \<and> concat ts = s)"

lemma stands_for_Nil [simp]: "stands_for cs [] s \<longleftrightarrow> s = []"
  by (auto simp: stands_for_def)

lemma stands_for_Cons:
  "stands_for cs (i # items) s \<longleftrightarrow> (\<exists>t r. s = t @ r \<and> item_text cs i t \<and> stands_for cs items r)"
  by (auto simp: stands_for_def list_all2_Cons1) (metis concat.simps(2))+

lemma stands_for_run:
  assumes "\<And>t. item_text cs i t = list_all P t"
  shows "stands_for cs (i # items) (x # s) \<longleftrightarrow>
    stands_for cs items (x # s) \<or> (P x \<and> stands_for cs (i # items) s)"
proof
  assume "stands_for cs (i # items) (x # s)"
  then obtain t r where t: "x # s = t @ r" "list_all P t" "stands_for cs items r"
    by (auto simp: stands_for_Cons assms)
  then show "stands_for cs items (x # s) \<or> (P x \<and> stands_for cs (i # items) s)"
    by (cases t) (auto simp: stands_for_Cons assms)
next
  assume "stands_for cs items (x # s) \<or> (P x \<and> stands_for cs (i # items) s)"
  then show "stands_for cs (i # items) (x # s)"
  proof
    assume "stands_for cs items (x # s)"
    then show ?thesis
      unfolding stands_for_Cons by (intro exI[of _ "[]"] exI[of _ "x # s"]) (simp add: assms)
  next
    assume "P x \<and> stands_for cs (i # items) s"
    then obtain t r where "s = t @ r" "list_all P t" "stands_for cs items r" "P x"
      by (auto simp: stands_for_Cons assms)
    then show ?thesis
      unfolding stands_for_Cons by (intro exI[of _ "x # t"] exI[of _ r]) (simp add: assms)
  qed
qed

lemma stands_for_one:
  assumes "\<And>t. item_text cs i t = (case t of [x] \<Rightarrow> P x | _ \<Rightarrow> False)"
  shows "stands_for cs (i # items) [] = False"
    and "stands_for cs (i # items) (x # s) \<longleftrightarrow> P x \<and> stands_for cs items s"
proof -
  have one: "item_text cs i t \<longleftrightarrow> (\<exists>y. t = [y] \<and> P y)" for t
    by (auto simp: assms split: list.splits)
  show "stands_for cs (i # items) [] = False"
    "stands_for cs (i # items) (x # s) \<longleftrightarrow> P x \<and> stands_for cs items s"
    by (auto simp: stands_for_Cons one) (metis append_Cons append_Nil)
qed

lemma items_match_iff: "items_match cs items s \<longleftrightarrow> stands_for cs items s"
proof (induction cs items s rule: items_match.induct)
  case (3 cs items x s)
  have "stands_for cs (Any_run # items) (x # s) \<longleftrightarrow> stands_for cs items (x # s)
      \<or> (\<not> is_line_end x \<and> stands_for cs (Any_run # items) s)"
    by (rule stands_for_run) simp
  with 3 show ?case by auto
next
  case (5 cs items x s)
  have "stands_for cs (Word_run # items) (x # s) \<longleftrightarrow> stands_for cs items (x # s)
      \<or> (\<not> is_space x \<and> stands_for cs (Word_run # items) s)"
    by (rule stands_for_run) simp
  with 5 show ?case by auto
next
  case (7 cs c items x s)
  then show ?case using stands_for_one(2)[of cs "Lit c" "same_char cs c"] by simp
next
  case (8 cs items x s)
  then show ?case using stands_for_one(2)[of cs Any_char "\<lambda>x. \<not> is_line_end x"] by simp
next
  case (9 cs items x s)
  then show ?case using stands_for_one(2)[of cs Word_char "\<lambda>x. \<not> is_space x"] by simp
qed (auto simp: stands_for_Cons split: list.splits)

text \<open>Without \<open>**\<close> a shell pattern spans words only where it has white space itself.\<close>

fun has_double_star :: "string \<Rightarrow> bool" where
  "has_double_star (a # b # s) = (a = CHR ''*'' \<and> b = CHR ''*'' \<or> has_double_star (b # s))"
| "has_double_star _ = False"

definition item_spaces :: "wildcard_item list \<Rightarrow> nat" where
  "item_spaces items = length (filter (\<lambda>i. case i of Lit c \<Rightarrow> is_space c | _ \<Rightarrow> False) items)"

lemma shell_items_spaces:
  "\<not> has_double_star p \<Longrightarrow> Any_run \<notin> set (wildcard_items Shell_flavor p)
    \<and> Any_char \<notin> set (wildcard_items Shell_flavor p)
    \<and> item_spaces (wildcard_items Shell_flavor p) = length (filter is_space p)"
proof (induction Shell_flavor p rule: wildcard_items.induct)
  case 1
  then show ?case by (simp add: item_spaces_def)
next
  case (2 c rest)
  have "\<not> has_double_star rest" "c = CHR ''*'' \<Longrightarrow> \<not> next_is (CHR ''*'') rest"
    using 2(5) by (cases rest; auto simp: next_is_def)+
  moreover have "\<not> is_space (CHR ''*'')" "\<not> is_space (CHR ''?'')"
    by (simp_all add: is_space_def)
  ultimately show ?case
    using 2 by (auto simp: item_spaces_def)
qed

lemma same_char_space: "same_char True c x \<Longrightarrow> is_space c = is_space x"
  by (simp add: same_char_def)

lemma items_match_spaces:
  "items_match True items s \<Longrightarrow> Any_run \<notin> set items \<Longrightarrow> Any_char \<notin> set items
    \<Longrightarrow> length (filter is_space s) = item_spaces items"
  by (induction True items s rule: items_match.induct)
    (auto simp: item_spaces_def same_char_def)

section \<open>MCP tool names\<close>

definition is_name_char :: "char \<Rightarrow> bool" where
  "is_name_char c \<longleftrightarrow> is_letter c \<or> is_digit c \<or> c = CHR ''_'' \<or> c = CHR ''-''"

definition sanitize_segment :: "string \<Rightarrow> string" where
  "sanitize_segment s = map (\<lambda>c. if is_name_char c then c else CHR ''_'') s"

definition strip_trailing :: "char \<Rightarrow> string \<Rightarrow> string" where
  "strip_trailing c s = rev (dropWhile (\<lambda>d. d = c) (rev s))"

definition strip_underscores :: "string \<Rightarrow> string" where
  "strip_underscores s = strip_trailing (CHR ''_'') (dropWhile (\<lambda>d. d = CHR ''_'') s)"

definition max_tool_name_len :: nat where "max_tool_name_len = 64"

definition compose_mcp_tool_name :: "string \<Rightarrow> string \<Rightarrow> string option" where
  "compose_mcp_tool_name server_name tool_name' =
     (let server = strip_underscores (sanitize_segment server_name);
          tl = strip_underscores (sanitize_segment tool_name') in
      if server = [] \<and> tl = [] then None
      else let prefix = ''mcp__'' @ server @ ''__'' in
        if length prefix \<ge> max_tool_name_len then Some (take max_tool_name_len prefix)
        else Some (prefix @ take (max_tool_name_len - length prefix) tl))"

definition server_scope_selector :: "string \<Rightarrow> string option" where
  "server_scope_selector server_name =
     map_option (strip_trailing (CHR ''_'')) (compose_mcp_tool_name server_name [])"

section \<open>Rules\<close>

datatype rule_behavior = Rule_allow | Rule_deny | Rule_ask

record parsed_rule =
  pr_tool :: string
  pr_content :: "string option"

record permission_rule = parsed_rule +
  pr_behavior :: rule_behavior
  pr_raw :: string

record rule_layer =
  rl_source :: string
  rl_rules :: "permission_rule list"

datatype rule_error = Empty_rule | Missing_paren string | Invalid_selector string

definition is_tool_selector :: "string \<Rightarrow> bool" where
  "is_tool_selector t \<longleftrightarrow> t \<noteq> [] \<and> list_all (\<lambda>c. is_name_char c \<or> c = CHR ''.'' \<or> c = CHR '':'') t"

definition non_empty :: "string \<Rightarrow> string option" where
  "non_empty s = (if s = [] then None else Some s)"

text \<open>Before the first \<open>(\<close>, and between it and the last character.\<close>

definition before_paren :: "string \<Rightarrow> string" where
  "before_paren s = takeWhile (\<lambda>c. c \<noteq> CHR ''('') s"

definition inside_parens :: "string \<Rightarrow> string" where
  "inside_parens s = butlast (drop (Suc (length (before_paren s))) s)"

definition parse_permission_rule :: "string \<Rightarrow> rule_error + parsed_rule" where
  "parse_permission_rule raw =
     (let trimmed = trim raw in
      if trimmed = [] then Inl Empty_rule
      else if CHR ''('' \<notin> set trimmed then
        (if is_tool_selector trimmed then Inr \<lparr>pr_tool = trimmed, pr_content = None\<rparr>
         else Inl (Invalid_selector raw))
      else if \<not> ends_with trimmed '')'' then Inl (Missing_paren raw)
      else let t = trim (before_paren trimmed) in
        if is_tool_selector t
        then Inr \<lparr>pr_tool = t, pr_content = non_empty (trim (inside_parens trimmed))\<rparr>
        else Inl (Invalid_selector raw))"

definition with_behavior :: "rule_behavior \<Rightarrow> string \<Rightarrow> parsed_rule \<Rightarrow> permission_rule" where
  "with_behavior b raw r =
     \<lparr>pr_tool = pr_tool r, pr_content = pr_content r, pr_behavior = b, pr_raw = raw\<rparr>"

text \<open>The first rule that does not parse throws.\<close>

fun parse_permission_rules :: "rule_behavior \<Rightarrow> string list \<Rightarrow> rule_error + permission_rule list" where
  "parse_permission_rules b [] = Inr []"
| "parse_permission_rules b (raw # raws) =
     (case parse_permission_rule raw of
        Inl e \<Rightarrow> Inl e
      | Inr r \<Rightarrow> (case parse_permission_rules b raws of
            Inl e \<Rightarrow> Inl e | Inr rs \<Rightarrow> Inr (with_behavior b raw r # rs)))"

text \<open>\<open>raw.slice(open + 1, -1)\<close> of a rule that was written by the program itself.\<close>

definition parse_session_rule :: "string \<Rightarrow> parsed_rule" where
  "parse_session_rule raw =
     (if CHR ''('' \<notin> set raw \<or> \<not> ends_with raw '')'' then \<lparr>pr_tool = raw, pr_content = None\<rparr>
      else \<lparr>pr_tool = before_paren raw, pr_content = non_empty (inside_parens raw)\<rparr>)"

fun json_string_field :: "string \<Rightarrow> json \<Rightarrow> string option" where
  "json_string_field k (JObject kvs) =
     (case map_of kvs k of Some (JString s) \<Rightarrow> Some s | _ \<Rightarrow> None)"
| "json_string_field k _ = None"

text \<open>The rule an \<open>always\<close> answer is remembered as.\<close>

definition rule_text :: "string \<Rightarrow> string \<Rightarrow> string" where
  "rule_text name content = name @ ''('' @ content @ '')''"

definition permission_rule_for_input :: "string \<Rightarrow> json \<Rightarrow> string" where
  "permission_rule_for_input name input =
     (case json_string_field ''command'' input of
        Some c \<Rightarrow> rule_text name c
      | None \<Rightarrow> (case json_string_field ''path'' input of
            Some p \<Rightarrow> rule_text name p
          | None \<Rightarrow> (case json_string_field ''pattern'' input of
                Some p \<Rightarrow> rule_text name p | None \<Rightarrow> name)))"

section \<open>Path rules\<close>

definition normalize_rule_path :: "string \<Rightarrow> string \<Rightarrow> string" where
  "normalize_rule_path home p =
     map (\<lambda>c. if c = backslash then CHR ''/'' else c) (expand_home_path home p)"

definition strip_dot_slash :: "string \<Rightarrow> string" where
  "strip_dot_slash p = (if starts_with p ''./'' then drop 2 p else p)"

definition matches_path_permission_pattern ::
  "string \<Rightarrow> bool \<Rightarrow> string \<Rightarrow> string \<Rightarrow> bool" where
  "matches_path_permission_pattern home case_insensitive p pattern =
     (let path = normalize_rule_path home p;
          pat = normalize_rule_path home pattern
      in list_ex (wildcard_matches File_flavor (\<not> case_insensitive) pat)
           [path, strip_dot_slash path, posix_basename path])"

section \<open>Rule texts\<close>

lemma before_paren_text:
  "CHR ''('' \<notin> set name \<Longrightarrow> before_paren (name @ CHR ''('' # rest) = name"
  unfolding before_paren_def by (subst takeWhile_append2) auto

lemma session_rule_text:
  assumes "CHR ''('' \<notin> set name"
  shows "parse_session_rule (rule_text name content) = \<lparr>pr_tool = name, pr_content = non_empty content\<rparr>"
proof -
  have "ends_with (rule_text name content) '')''"
    by (simp add: ends_with_iff rule_text_def)
  moreover have "inside_parens (rule_text name content) = content"
    using before_paren_text[OF assms, of "content @ '')''"]
    by (simp add: inside_parens_def rule_text_def butlast_append)
  ultimately show ?thesis
    using before_paren_text[OF assms, of "content @ '')''"]
    by (simp add: parse_session_rule_def) (simp add: rule_text_def)
qed

lemma compose_mcp_tool_name_valid:
  assumes "compose_mcp_tool_name s t = Some n"
  shows "length n \<le> 64 \<and> n \<noteq> [] \<and> list_all is_name_char n"
proof -
  have clean: "list_all is_name_char (strip_underscores (sanitize_segment x))" for x
  proof -
    have "set (strip_underscores (sanitize_segment x)) \<subseteq> set (sanitize_segment x)"
      by (auto simp: strip_underscores_def strip_trailing_def dest!: set_dropWhileD)
    moreover have "list_all is_name_char (sanitize_segment x)"
      by (auto simp: sanitize_segment_def list_all_iff is_name_char_def)
    ultimately show ?thesis by (auto simp: list_all_iff)
  qed
  define p where "p = ''mcp__'' @ strip_underscores (sanitize_segment s) @ ''__''"
  define tl where "tl = strip_underscores (sanitize_segment t)"
  have "list_all is_name_char ''mcp__''" "list_all is_name_char ''__''"
    by code_simp+
  then have p: "list_all is_name_char p" "p \<noteq> []" and tl: "list_all is_name_char tl"
    using clean[of s] clean[of t] by (simp_all add: p_def tl_def)
  have take_ok: "list_all is_name_char (take k x)" if "list_all is_name_char x" for k x
    using that by (auto simp: list_all_iff dest: in_set_takeD)
  have "n = take 64 p \<or> (length p < 64 \<and> n = p @ take (64 - length p) tl)"
    using assms unfolding compose_mcp_tool_name_def max_tool_name_len_def Let_def
      p_def[symmetric] tl_def[symmetric] by (auto split: if_splits)
  then show ?thesis
    using p tl take_ok by (elim disjE) (auto simp: list_all_append)
qed

end
