(* ===== verification/Bash_Permissions.thy ===== *)
theory Bash_Permissions
  imports Shell_Semantics Permission_Rules
begin

text \<open>
  The permission half of \<open>packages/sdk/src/tools/BashTool.ts\<close>: the read-only gate that lets a
  command run without a question, the virtual tool name its rules are looked up under, the pattern
  matcher of \<open>Bash(pattern)\<close> rules, and the refusal of privilege escalation.
\<close>

section \<open>The read-only gate\<close>

definition bash_read_commands :: "string list" where
  "bash_read_commands = [''ls'', ''cat'', ''grep'', ''find'', ''head'', ''tail'', ''wc'', ''file'',
     ''stat'', ''echo'', ''pwd'', ''which'', ''date'', ''true'', ''false'', ''whoami'', ''hostname'',
     ''uname'', ''id'', ''tree'', ''rg'']"

definition command_launchers :: "string list" where
  "command_launchers = [''env'', ''command'', ''exec'', ''builtin'', ''nice'', ''nohup'', ''time'',
     ''timeout'', ''stdbuf'', ''xargs'']"

text \<open>\<open>s.split(/\s+/).filter(Boolean)\<close>.\<close>

function space_words :: "string \<Rightarrow> string list" where
  "space_words s =
     (case dropWhile is_space s of
        [] \<Rightarrow> []
      | c # t \<Rightarrow> (c # takeWhile (\<lambda>d. \<not> is_space d) t)
          # space_words (dropWhile (\<lambda>d. \<not> is_space d) t))"
  by pat_completeness auto
termination
proof (relation "measure length", goal_cases)
  case (2 s c t)
  have "length (dropWhile (\<lambda>d. \<not> is_space d) t) \<le> length t"
    by (rule length_dropWhile_le)
  moreover have "length (c # t) \<le> length s"
    using 2 length_dropWhile_le[of is_space s] by simp
  ultimately show ?case by simp
qed simp

declare space_words.simps [simp del]

definition launcher_operand :: "string \<Rightarrow> bool" where
  "launcher_operand t \<longleftrightarrow> is_flag t \<or> is_assignment t"

function skip_launchers :: "string list \<Rightarrow> string list" where
  "skip_launchers [] = []"
| "skip_launchers (t # ts) =
     (if t \<in> set command_launchers then skip_launchers (dropWhile launcher_operand ts) else t # ts)"
  by pat_completeness auto
termination
  by (relation "measure length") (auto simp: less_Suc_eq_le length_dropWhile_le)

definition leading_command :: "string list \<Rightarrow> string option" where
  "leading_command tokens = first_arg (skip_launchers (dropWhile is_assignment tokens))"

definition is_read_only_segment :: "string \<Rightarrow> bool" where
  "is_read_only_segment segment =
     (let seg = trim segment in
      if seg = [] then False
      else case leading_command (space_words seg) of
        None \<Rightarrow> False
      | Some cmd \<Rightarrow>
          if is_flag cmd \<or> CHR ''/'' \<in> set cmd then False
          else if cmd \<notin> set bash_read_commands then False
          else list_all is_read (analyze_shell_command seg))"

definition is_read_only_bash_command :: "string \<Rightarrow> bool" where
  "is_read_only_bash_command command =
     (if has_substitution command then False
      else if redirects_plain command then False
      else let segments = split_shell_segments True command in
        segments \<noteq> [] \<and> list_all is_read_only_segment segments)"

section \<open>Virtual tools and patterns\<close>

definition bash_virtual_tool_name :: "string \<Rightarrow> string option" where
  "bash_virtual_tool_name command =
     (let ops = analyze_shell_command command in
      if ops = [] then None
      else if list_all is_read ops then Some ''Read''
      else if list_ex is_write ops \<and> \<not> list_ex is_edit_or_unsafe ops then Some ''Write''
      else None)"

definition normalize_shell_segment :: "string \<Rightarrow> string" where
  "normalize_shell_segment raw =
     join_strings '' '' (dropWhile is_assignment (space_words (trim raw)))"

definition segment_matches :: "string \<Rightarrow> string \<Rightarrow> bool" where
  "segment_matches pattern raw =
     (let segment = normalize_shell_segment raw in
      segment \<noteq> [] \<and> wildcard_matches Shell_flavor True pattern segment)"

definition matches_bash_permission_pattern :: "string \<Rightarrow> string \<Rightarrow> bool" where
  "matches_bash_permission_pattern command pattern =
     (if has_substitution command then False
      else let segments = split_shell_segments False command in
        segments \<noteq> [] \<and> list_all (segment_matches pattern) segments)"

section \<open>Privilege escalation\<close>

definition priv_escalation_commands :: "string list" where
  "priv_escalation_commands = [''sudo'', ''pkexec'', ''doas'', ''su'']"

text \<open>The flags are \<open>inSingle\<close>, \<open>inDouble\<close> and \<open>escaped\<close>.\<close>

fun strip_quotes_words :: "bool \<Rightarrow> bool \<Rightarrow> bool \<Rightarrow> string \<Rightarrow> string \<Rightarrow> string list" where
  "strip_quotes_words single dbl esc current [] = push_word current"
| "strip_quotes_words single dbl esc current (ch # rest) =
     (if esc then strip_quotes_words single dbl False (current @ [ch]) rest
      else if ch = backslash \<and> \<not> single then strip_quotes_words single dbl True current rest
      else if ch = single_quote \<and> \<not> dbl then strip_quotes_words (\<not> single) dbl False current rest
      else if ch = double_quote \<and> \<not> single then strip_quotes_words single (\<not> dbl) False current rest
      else if is_space ch \<and> \<not> single \<and> \<not> dbl
        then push_word current @ strip_quotes_words single dbl False [] rest
      else strip_quotes_words single dbl False (current @ [ch]) rest)"

definition tokenize_stripping_quotes :: "string \<Rightarrow> string list" where
  "tokenize_stripping_quotes segment = strip_quotes_words False False False [] segment"

definition escalates :: "string \<Rightarrow> string option" where
  "escalates segment =
     (case leading_command (tokenize_stripping_quotes segment) of
        None \<Rightarrow> None
      | Some cmd \<Rightarrow> let base = last_component cmd in
          if base \<in> set priv_escalation_commands then Some base else None)"

fun first_some :: "'a option list \<Rightarrow> 'a option" where
  "first_some [] = None"
| "first_some (None # xs) = first_some xs"
| "first_some (Some x # xs) = Some x"

definition detect_privilege_escalation :: "string \<Rightarrow> string option" where
  "detect_privilege_escalation command =
     first_some (map escalates (split_shell_segments True command))"

section \<open>What the gates guarantee\<close>

lemma analyze_one_segment:
  assumes "seg \<in> set (split_shell_segments True command)" "\<not> has_substitution seg"
  shows "analyze_shell_command seg = [analyze_segment seg]"
  using split_segment_closed(1)[OF assms(1)] assms(2) by (simp add: analyze_shell_command_def)

lemma read_only_segment_analysis:
  assumes "seg \<in> set (split_shell_segments True command)" "is_read_only_segment seg"
  shows "is_read (analyze_segment seg)"
proof -
  have all: "list_all is_read (analyze_shell_command seg)"
    using assms split_segment_closed(2)[OF assms(1)]
    by (auto simp: is_read_only_segment_def Let_def split: if_splits option.splits)
  then have "\<not> has_substitution seg"
    by (auto simp: analyze_shell_command_def)
  with all analyze_one_segment[OF assms(1)] show ?thesis by simp
qed

text \<open>Bare operations that a rule for \<open>Write\<close> cannot tell apart.\<close>

lemma analyze_append:
  assumes "quotes_closed True a" "hard_separator c"
    and "split_shell_segments True a \<noteq> []" "split_shell_segments True b \<noteq> []"
    and "\<not> has_substitution a" "\<not> has_substitution b"
  shows "analyze_shell_command (a @ c # b) = analyze_shell_command a @ analyze_shell_command b"
  using assms(3-6)
  by (simp add: analyze_shell_command_def Let_def has_substitution_append[OF assms(2)]
      split_segments_append[OF assms(1,2)])

lemma assignment_injects_code:
  "is_read_only_bash_command ''LD_PRELOAD=./x.so cat y''"
  "bash_virtual_tool_name ''GIT_EXTERNAL_DIFF=./x git diff'' = Some ''Read''"
  by code_simp+

lemma always_answer_of_sequence_never_matches:
  "\<not> matches_bash_permission_pattern ''cd a && make'' ''cd a && make''"
  by code_simp

section \<open>Properties\<close>

text \<open>The two classifiers of a Bash command agree where it matters: a command the read-only gate
  lets run without a question is one the shell analysis calls read-only throughout, so that the
  rules for reading apply to it.\<close>
theorem bash_gate_agrees:
  assumes "is_read_only_bash_command command"
  shows "is_shell_command_read_only command \<and> bash_virtual_tool_name command = Some ''Read''"
proof -
  have s: "\<not> has_substitution command" "split_shell_segments True command \<noteq> []"
    "\<forall>seg \<in> set (split_shell_segments True command). is_read_only_segment seg"
    using assms by (auto simp: is_read_only_bash_command_def Let_def list_all_iff split: if_splits)
  then have "list_all is_read (map analyze_segment (split_shell_segments True command))"
    using read_only_segment_analysis by (simp add: list_all_iff)
  with s show ?thesis
    by (simp add: is_shell_command_read_only_def bash_virtual_tool_name_def analyze_shell_command_def)
qed

theorem bash_gate_agrees_witness:
  "is_read_only_bash_command ''cat a | wc -l'' \<and> bash_virtual_tool_name ''cat a | wc -l'' = Some ''Read''"
proof -
  have h: "is_read_only_bash_command ''cat a | wc -l''" by code_simp
  with bash_gate_agrees[OF h] show ?thesis by blast
qed

text \<open>A rule for \<open>Write\<close> covers more than writes: a command that only writes, a separator and
  any second command whose operations are not edits and hold no substitution (one that executes an
  unknown program, say) are together looked up under \<open>Write\<close>.\<close>
theorem write_rule_covers_execution:
  assumes "quotes_closed True a" "hard_separator c"
    and "split_shell_segments True a \<noteq> []" "split_shell_segments True b \<noteq> []"
    and "\<not> has_substitution a" "\<not> has_substitution b"
    and "list_all is_write (analyze_shell_command a)"
    and "\<not> list_ex is_edit_or_unsafe (analyze_shell_command b)"
  shows "bash_virtual_tool_name (a @ c # b) = Some ''Write''"
proof -
  obtain o' ops where a: "analyze_shell_command a = o' # ops" "is_write o'"
    using assms(3,5,7) by (cases "analyze_shell_command a") (auto simp: analyze_shell_command_def)
  have "\<not> is_edit_or_unsafe x" if "x \<in> set (analyze_shell_command a)" for x
    using assms(7) that by (cases x) (auto simp: list_all_iff)
  moreover have "\<not> is_read o'" using a(2) by (cases o') auto
  ultimately show ?thesis
    using a assms(8) unfolding bash_virtual_tool_name_def analyze_append[OF assms(1-6)]
    by (auto simp: list_ex_iff)
qed

theorem write_rule_covers_execution_witness:
  "bash_virtual_tool_name (''touch a'' @ CHR '';'' # ''./evil.sh'') = Some ''Write''"
proof (rule write_rule_covers_execution)
qed (code_simp+)

end
