(* ===== verification/Permission_Decision.thy ===== *)
theory Permission_Decision
  imports Permission_Rules Tool_Dispatch
begin

text \<open>
  \<open>packages/sdk/src/permissions/canUseTool.ts\<close>, \<open>permissions/prompt.ts\<close> and \<open>tool/toolScope.ts\<close>:
  the decision whether a tool call may run, from layers of rules, the tool's own check, the mode
  and the user. What a tool and the user answer are functions of the input that may throw; the
  decision is a function on the session's set of remembered rules and returns what it did.
\<close>

section \<open>Tools and requests\<close>

datatype check_behavior = Check_allow | Check_deny | Check_ask

record self_check =
  sc_behavior :: check_behavior
  sc_updated :: "json option"
  sc_reason :: "string option"

text \<open>\<open>gt_server\<close> is \<open>mcpInfo.serverName\<close> of a tool with \<open>isMcp\<close>.\<close>

record guarded_tool =
  gt_name :: string
  gt_aliases :: "string list"
  gt_server :: "string option"
  gt_virtual_name :: "(json \<Rightarrow> string option outcome) option"
  gt_matcher :: "(json \<Rightarrow> (string \<Rightarrow> bool) outcome) option"
  gt_check :: "json \<Rightarrow> self_check outcome"
  gt_read_only :: "json \<Rightarrow> bool"
  gt_affected_paths :: "(json \<Rightarrow> string list) option"

datatype permission_mode = Mode_default | Mode_ask | Mode_bypass

datatype ask_response = Ask_allow | Ask_always | Ask_deny

record ask_request =
  ar_tool :: string
  ar_preview :: string
  ar_reason :: "string option"

record can_use_opts =
  cu_mode :: permission_mode
  cu_ask :: "ask_request \<Rightarrow> ask_response outcome"
  cu_layers :: "rule_layer list option"
  cu_record :: "(string \<Rightarrow> unit outcome) option"

section \<open>Preview\<close>

definition truncate_preview :: "string \<Rightarrow> string" where
  "truncate_preview s =
     (let clean = collapse_whitespace s
      in if length clean > 80 then take 77 clean @ ''...'' else clean)"

fun preview_tool_input :: "json option \<Rightarrow> string" where
  "preview_tool_input None = []"
| "preview_tool_input (Some JNull) = []"
| "preview_tool_input (Some (JString s)) = truncate_preview s"
| "preview_tool_input (Some (JBool b)) = truncate_preview (if b then ''true'' else ''false'')"
| "preview_tool_input (Some (JNumber n)) = truncate_preview n"
| "preview_tool_input (Some j) =
     (case json_string_field ''command'' j of
        Some c \<Rightarrow> truncate_preview c | None \<Rightarrow> truncate_preview (json_stringify j))"

section \<open>Rules of a tool\<close>

definition rule_matches_tool :: "guarded_tool \<Rightarrow> string \<Rightarrow> bool" where
  "rule_matches_tool t selector =
     (selector = gt_name t \<or> selector \<in> set (gt_aliases t)
      \<or> (case gt_server t of None \<Rightarrow> False | Some s \<Rightarrow> server_scope_selector s = Some selector))"

definition resolve_virtual_tool_name :: "guarded_tool \<Rightarrow> json \<Rightarrow> string option" where
  "resolve_virtual_tool_name t input =
     (case gt_virtual_name t of
        None \<Rightarrow> None
      | Some f \<Rightarrow> (case f input of Returned r \<Rightarrow> r | Threw _ \<Rightarrow> None))"

definition prepare_matcher :: "guarded_tool \<Rightarrow> json \<Rightarrow> string \<Rightarrow> bool" where
  "prepare_matcher t input =
     (case gt_matcher t of
        None \<Rightarrow> (\<lambda>_. False)
      | Some f \<Rightarrow> (case f input of Returned m \<Rightarrow> m | Threw _ \<Rightarrow> (\<lambda>_. False)))"

definition content_matches :: "(string \<Rightarrow> bool) \<Rightarrow> permission_rule \<Rightarrow> bool" where
  "content_matches matcher r = (case pr_content r of None \<Rightarrow> False | Some c \<Rightarrow> matcher c)"

datatype rule_result = Result_allow | Result_deny string | Result_ask

definition deny_from_rule :: "permission_rule \<Rightarrow> string \<Rightarrow> rule_result" where
  "deny_from_rule r source =
     Result_deny (''matched deny rule '' @ json_quote (pr_raw r) @ '' from '' @ source)"

text \<open>The rules of a layer for a tool and input: those of the tool, then those of the virtual tool.\<close>

definition layer_rules :: "guarded_tool \<Rightarrow> json \<Rightarrow> rule_layer \<Rightarrow> permission_rule list" where
  "layer_rules t input layer =
     filter (\<lambda>r. rule_matches_tool t (pr_tool r)) (rl_rules layer)
     @ (case resolve_virtual_tool_name t input of
          None \<Rightarrow> []
        | Some n \<Rightarrow> if n = [] then [] else filter (\<lambda>r. pr_tool r = n) (rl_rules layer))"

definition evaluate_layer ::
  "(string \<Rightarrow> bool) \<Rightarrow> string \<Rightarrow> permission_rule list \<Rightarrow> rule_result option" where
  "evaluate_layer matcher source rules =
     (case find (\<lambda>r. pr_behavior r = Rule_deny \<and> pr_content r = None) rules of
        Some r \<Rightarrow> Some (deny_from_rule r source)
      | None \<Rightarrow>
     (case find (\<lambda>r. pr_behavior r = Rule_deny \<and> content_matches matcher r) rules of
        Some r \<Rightarrow> Some (deny_from_rule r source)
      | None \<Rightarrow>
     (if list_ex (\<lambda>r. pr_behavior r = Rule_allow \<and> content_matches matcher r) rules
      then Some Result_allow
      else if list_ex (\<lambda>r. pr_behavior r = Rule_allow \<and> pr_content r = None) rules
      then Some Result_allow
      else if list_ex (\<lambda>r. pr_behavior r = Rule_ask
              \<and> (pr_content r = None \<or> content_matches matcher r)) rules
      then Some Result_ask
      else None)))"

fun evaluate_rule_layers :: "guarded_tool \<Rightarrow> json \<Rightarrow> rule_layer list \<Rightarrow> rule_result option" where
  "evaluate_rule_layers t input [] = None"
| "evaluate_rule_layers t input (layer # layers) =
     (let rules = layer_rules t input layer in
      if rules = [] then evaluate_rule_layers t input layers
      else case evaluate_layer (prepare_matcher t input) (rl_source layer) rules of
        Some r \<Rightarrow> Some r
      | None \<Rightarrow> evaluate_rule_layers t input layers)"

section \<open>The decision\<close>

definition allow_permission :: permission where
  "allow_permission = \<lparr>perm_allow = True, perm_updated = None, perm_reason = None\<rparr>"

definition deny_permission :: "string \<Rightarrow> permission" where
  "deny_permission reason = \<lparr>perm_allow = False, perm_updated = None, perm_reason = Some reason\<rparr>"

definition pass_through :: "bool \<Rightarrow> self_check \<Rightarrow> permission" where
  "pass_through allow c = \<lparr>perm_allow = allow, perm_updated = sc_updated c, perm_reason = sc_reason c\<rparr>"

text \<open>The outcome, the session's remembered rules after it, what went to the persistence hook, and
  whether the user was asked.\<close>

record decision =
  dc_outcome :: "permission outcome"
  dc_always :: "string list"
  dc_recorded :: "string list"
  dc_asked :: bool

definition quiet :: "permission outcome \<Rightarrow> string list \<Rightarrow> decision" where
  "quiet p always = \<lparr>dc_outcome = p, dc_always = always, dc_recorded = [], dc_asked = False\<rparr>"

definition ask_user ::
  "can_use_opts \<Rightarrow> guarded_tool \<Rightarrow> json \<Rightarrow> string option \<Rightarrow> string list \<Rightarrow> decision" where
  "ask_user opts t input reason always =
     (let asked = (\<lambda>p al rec. \<lparr>dc_outcome = p, dc_always = al, dc_recorded = rec, dc_asked = True\<rparr>) in
      case cu_ask opts \<lparr>ar_tool = gt_name t, ar_preview = preview_tool_input (Some input),
             ar_reason = reason\<rparr> of
        Threw e \<Rightarrow> asked (Threw e) always []
      | Returned Ask_always \<Rightarrow>
          let rule = permission_rule_for_input (gt_name t) input;
              always' = set_add rule always
          in (case cu_record opts of
                None \<Rightarrow> asked (Returned allow_permission) always' []
              | Some f \<Rightarrow>
                  (case f rule of
                     Threw e \<Rightarrow> asked (Threw e) always' [rule]
                   | Returned _ \<Rightarrow> asked (Returned allow_permission) always' [rule]))
      | Returned Ask_allow \<Rightarrow> asked (Returned allow_permission) always []
      | Returned Ask_deny \<Rightarrow> asked (Returned (deny_permission ''user denied'')) always [])"

definition session_layer :: "string list \<Rightarrow> rule_layer" where
  "session_layer always = \<lparr>rl_source = ''session'',
     rl_rules = map (\<lambda>raw. with_behavior Rule_allow raw (parse_session_rule raw)) always\<rparr>"

definition can_use_tool ::
  "can_use_opts \<Rightarrow> guarded_tool \<Rightarrow> json \<Rightarrow> string list \<Rightarrow> decision" where
  "can_use_tool opts t input always =
     (let rule_result = evaluate_rule_layers t input
            (session_layer always # value_or (cu_layers opts) []) in
      case rule_result of
        Some Result_allow \<Rightarrow> quiet (Returned allow_permission) always
      | Some (Result_deny reason) \<Rightarrow> quiet (Returned (deny_permission reason)) always
      | _ \<Rightarrow>
          if cu_mode opts = Mode_bypass \<and> rule_result \<noteq> Some Result_ask
          then quiet (Returned allow_permission) always
          else case gt_check t input of
            Threw e \<Rightarrow> quiet (Threw e) always
          | Returned c \<Rightarrow>
              if sc_behavior c = Check_allow \<and> rule_result \<noteq> Some Result_ask
              then quiet (Returned (pass_through True c)) always
              else if sc_behavior c = Check_deny then quiet (Returned (pass_through False c)) always
              else ask_user opts t input (sc_reason c) always)"

section \<open>Scoped tools\<close>

definition filter_parseable_rules :: "string list \<Rightarrow> string list" where
  "filter_parseable_rules entries =
     filter (\<lambda>e. case parse_permission_rule e of Inl _ \<Rightarrow> False | Inr _ \<Rightarrow> True) entries"

text \<open>A throwing matcher rejects the check, and with it the call.\<close>

definition matches_any_scope_rule :: "guarded_tool \<Rightarrow> json \<Rightarrow> parsed_rule list \<Rightarrow> bool outcome" where
  "matches_any_scope_rule t input rules =
     (let tool_rules = filter (\<lambda>r. rule_matches_tool t (pr_tool r)) rules in
      if tool_rules = [] then Returned False
      else if list_ex (\<lambda>r. pr_content r = None) tool_rules then Returned True
      else case gt_matcher t of
        None \<Rightarrow> Returned False
      | Some f \<Rightarrow> (case f input of
            Threw e \<Rightarrow> Threw e
          | Returned m \<Rightarrow>
              Returned (list_ex (\<lambda>r. case pr_content r of None \<Rightarrow> False | Some c \<Rightarrow> m c) tool_rules)))"

type_synonym decider = "guarded_tool \<Rightarrow> json \<Rightarrow> string list \<Rightarrow> decision"

definition scope_guard :: "parsed_rule list \<Rightarrow> decider \<Rightarrow> decider" where
  "scope_guard rules inner t input always =
     (case matches_any_scope_rule t input rules of
        Threw e \<Rightarrow> quiet (Threw e) always
      | Returned False \<Rightarrow>
          quiet (Returned (deny_permission ''tool is outside slash-command scope'')) always
      | Returned True \<Rightarrow> inner t input always)"

record tool_scope =
  ts_rules :: "parsed_rule list"
  ts_tools :: "guarded_tool list"
  ts_can_use :: decider

fun parse_all :: "string list \<Rightarrow> rule_error + parsed_rule list" where
  "parse_all [] = Inr []"
| "parse_all (e # es) = (case parse_permission_rule e of
     Inl x \<Rightarrow> Inl x
   | Inr r \<Rightarrow> (case parse_all es of Inl x \<Rightarrow> Inl x | Inr rs \<Rightarrow> Inr (r # rs)))"

definition build_tool_scope ::
  "string list option \<Rightarrow> guarded_tool list \<Rightarrow> decider \<Rightarrow> rule_error + tool_scope" where
  "build_tool_scope allowed tools can_use =
     (case allowed of
        None \<Rightarrow> Inr \<lparr>ts_rules = [], ts_tools = tools, ts_can_use = can_use\<rparr>
      | Some [] \<Rightarrow> Inr \<lparr>ts_rules = [], ts_tools = tools, ts_can_use = can_use\<rparr>
      | Some es \<Rightarrow> (case parse_all es of
            Inl e \<Rightarrow> Inl e
          | Inr rules \<Rightarrow> Inr \<lparr>ts_rules = rules,
              ts_tools = filter (\<lambda>t. list_ex (\<lambda>r. rule_matches_tool t (pr_tool r)) rules) tools,
              ts_can_use = scope_guard rules can_use\<rparr>))"

section \<open>Rule evaluation as a policy\<close>

text \<open>The verdict of a layer, by which rules apply and not by their order: a denial beats a
  permission beats a question.\<close>

datatype verdict = Verdict_allow | Verdict_deny | Verdict_ask

definition applies :: "(string \<Rightarrow> bool) \<Rightarrow> rule_behavior \<Rightarrow> permission_rule \<Rightarrow> bool" where
  "applies matcher b r \<longleftrightarrow> pr_behavior r = b \<and> (pr_content r = None \<or> content_matches matcher r)"

definition layer_verdict :: "(string \<Rightarrow> bool) \<Rightarrow> permission_rule set \<Rightarrow> verdict option" where
  "layer_verdict matcher rules =
     (if \<exists>r \<in> rules. applies matcher Rule_deny r then Some Verdict_deny
      else if \<exists>r \<in> rules. applies matcher Rule_allow r then Some Verdict_allow
      else if \<exists>r \<in> rules. applies matcher Rule_ask r then Some Verdict_ask
      else None)"

text \<open>The first layer with a verdict decides.\<close>

fun policy_verdict :: "guarded_tool \<Rightarrow> json \<Rightarrow> rule_layer list \<Rightarrow> verdict option" where
  "policy_verdict t input [] = None"
| "policy_verdict t input (l # ls) =
     (case layer_verdict (prepare_matcher t input) (set (layer_rules t input l)) of
        Some v \<Rightarrow> Some v | None \<Rightarrow> policy_verdict t input ls)"

fun verdict_of :: "rule_result \<Rightarrow> verdict" where
  "verdict_of Result_allow = Verdict_allow"
| "verdict_of (Result_deny _) = Verdict_deny"
| "verdict_of Result_ask = Verdict_ask"

lemma verdict_of_iff:
  "verdict_of r = Verdict_deny \<longleftrightarrow> (\<exists>m. r = Result_deny m)"
  "verdict_of r = Verdict_allow \<longleftrightarrow> r = Result_allow"
  "verdict_of r = Verdict_ask \<longleftrightarrow> r = Result_ask"
  by (cases r; simp)+

lemma evaluate_layer_verdict:
  "map_option verdict_of (evaluate_layer matcher source rules) = layer_verdict matcher (set rules)"
proof (cases "\<exists>r \<in> set rules. applies matcher Rule_deny r")
  case True
  then have "\<exists>m. evaluate_layer matcher source rules = Some (Result_deny m)"
    by (auto simp: evaluate_layer_def deny_from_rule_def applies_def find_None_iff
        split: option.splits)
  with True show ?thesis by (auto simp: layer_verdict_def)
next
  case False
  then have n: "find (\<lambda>r. pr_behavior r = Rule_deny \<and> pr_content r = None) rules = None"
    "find (\<lambda>r. pr_behavior r = Rule_deny \<and> content_matches matcher r) rules = None"
    by (auto simp: find_None_iff applies_def)
  have al: "(list_ex (\<lambda>r. pr_behavior r = Rule_allow \<and> content_matches matcher r) rules
      \<or> list_ex (\<lambda>r. pr_behavior r = Rule_allow \<and> pr_content r = None) rules)
      \<longleftrightarrow> (\<exists>r \<in> set rules. applies matcher Rule_allow r)"
    and as: "list_ex (\<lambda>r. pr_behavior r = Rule_ask \<and> (pr_content r = None \<or> content_matches matcher r)) rules
      \<longleftrightarrow> (\<exists>r \<in> set rules. applies matcher Rule_ask r)"
    by (auto simp: list_ex_iff applies_def)
  have "evaluate_layer matcher source rules =
      (if \<exists>r \<in> set rules. applies matcher Rule_allow r then Some Result_allow
       else if \<exists>r \<in> set rules. applies matcher Rule_ask r then Some Result_ask else None)"
    unfolding evaluate_layer_def n option.case as[symmetric] al[symmetric] by auto
  with False show ?thesis
    by (simp add: layer_verdict_def)
qed

lemma layer_verdict_empty: "layer_verdict matcher {} = None"
  by (simp add: layer_verdict_def)

lemma session_layer_verdict:
  assumes "set rules \<subseteq> set (rl_rules (session_layer always))"
  shows "layer_verdict m (set rules) \<in> {None, Some Verdict_allow}"
proof -
  have "\<not> applies m Rule_deny r \<and> \<not> applies m Rule_ask r" if "r \<in> set rules" for r
    using that assms by (auto simp: session_layer_def applies_def with_behavior_def)
  then show ?thesis by (auto simp: layer_verdict_def)
qed

lemma layer_rules_subset: "set (layer_rules t input l) \<subseteq> set (rl_rules l)"
  by (auto simp: layer_rules_def split: option.splits if_splits)

text \<open>The text of an input that a rule is written with; the rule as it is read back.\<close>

definition own_text :: "json \<Rightarrow> string option" where
  "own_text input = or_else (json_string_field ''command'' input)
     (or_else (json_string_field ''path'' input) (json_string_field ''pattern'' input))"

lemma remembered_rule_read:
  assumes "CHR ''('' \<notin> set name"
  shows "parse_session_rule (permission_rule_for_input name input) =
    \<lparr>pr_tool = name, pr_content = (case own_text input of None \<Rightarrow> None | Some c \<Rightarrow> non_empty c)\<rparr>"
proof -
  have "permission_rule_for_input name input
      = (case own_text input of None \<Rightarrow> name | Some c \<Rightarrow> rule_text name c)"
    by (simp add: permission_rule_for_input_def own_text_def or_else_def split: option.splits)
  moreover have "parse_session_rule name = \<lparr>pr_tool = name, pr_content = None\<rparr>"
    using assms by (simp add: parse_session_rule_def)
  ultimately show ?thesis
    using session_rule_text[OF assms] by (simp split: option.splits)
qed

text \<open>A remembered rule for this very input allows it before any other rule is looked at.\<close>

lemma remembered_rule_allows:
  assumes "permission_rule_for_input (gt_name t) input \<in> set always" "CHR ''('' \<notin> set (gt_name t)"
    and "\<And>c. own_text input = Some c \<Longrightarrow> c \<noteq> [] \<Longrightarrow> prepare_matcher t input c"
  shows "evaluate_rule_layers t input (session_layer always # ls) = Some Result_allow"
proof -
  define raw where "raw = permission_rule_for_input (gt_name t) input"
  define r where "r = with_behavior Rule_allow raw (parse_session_rule raw)"
  have r: "pr_tool r = gt_name t" "applies (prepare_matcher t input) Rule_allow r"
    using assms(3) remembered_rule_read[OF assms(2), of input]
    by (auto simp: raw_def r_def with_behavior_def applies_def content_matches_def non_empty_def
        split: option.splits)
  have "r \<in> set (rl_rules (session_layer always))"
    using assms(1) by (simp add: session_layer_def r_def raw_def)
  then have "r \<in> set (layer_rules t input (session_layer always))"
    using r(1) by (simp add: layer_rules_def rule_matches_tool_def)
  then have "layer_verdict (prepare_matcher t input) (set (layer_rules t input (session_layer always)))
      \<noteq> None"
    using r(2) by (auto simp: layer_verdict_def)
  then have "layer_verdict (prepare_matcher t input) (set (layer_rules t input (session_layer always)))
      = Some Verdict_allow"
    using session_layer_verdict[OF layer_rules_subset, of "prepare_matcher t input" t input always]
    by auto
  moreover have "layer_rules t input (session_layer always) \<noteq> []"
    using \<open>r \<in> set (layer_rules t input (session_layer always))\<close> by auto
  ultimately show ?thesis
    using evaluate_layer_verdict[of "prepare_matcher t input" "rl_source (session_layer always)"
        "layer_rules t input (session_layer always)"]
    by (auto simp: Let_def verdict_of_iff)
qed

lemma scope_guard_allows:
  assumes "dc_outcome (scope_guard rules inner t input always) = Returned p" "perm_allow p"
  shows "matches_any_scope_rule t input rules = Returned True
    \<and> scope_guard rules inner t input always = inner t input always"
  using assms by (auto simp: scope_guard_def quiet_def deny_permission_def
      split: outcome.splits bool.splits)

text \<open>Rule by rule, the code's evaluation and the policy agree.\<close>

lemma rule_layers_policy_eq:
  "map_option verdict_of (evaluate_rule_layers t input layers) = policy_verdict t input layers"
proof (induction layers)
  case Nil
  then show ?case by simp
next
  case (Cons l ls)
  have e: "map_option verdict_of (evaluate_layer (prepare_matcher t input) (rl_source l)
      (layer_rules t input l)) = layer_verdict (prepare_matcher t input) (set (layer_rules t input l))"
    by (rule evaluate_layer_verdict)
  show ?case
  proof (cases "layer_rules t input l = []")
    case True
    with Cons show ?thesis by (simp add: layer_verdict_empty)
  next
    case False
    with e Cons show ?thesis
      by (auto simp: Let_def split: option.splits)
  qed
qed

section \<open>Properties\<close>

text \<open>C35: The evaluation of the rules is the layered policy: the first layer in which a rule for the
  tool (or for the virtual tool of the input) applies decides, and inside it a denial beats a
  permission beats a question, whatever the order and the breadth of the rules.\<close>
theorem rule_layers_policy:
  "map_option verdict_of (evaluate_rule_layers t input layers) = policy_verdict t input layers"
  by (rule rule_layers_policy_eq)

definition question :: "guarded_tool \<Rightarrow> json \<Rightarrow> self_check \<Rightarrow> ask_request" where
  "question t input c =
     \<lparr>ar_tool = gt_name t, ar_preview = preview_tool_input (Some input), ar_reason = sc_reason c\<rparr>"

text \<open>The ways a decision is reached.\<close>

lemma can_use_tool_cases:
  assumes "can_use_tool opts t input always = d"
    and "v = policy_verdict t input (session_layer always # value_or (cu_layers opts) [])"
  obtains (rules_allow) "v = Some Verdict_allow" "d = quiet (Returned allow_permission) always"
  | (rules_deny) m where "v = Some Verdict_deny" "d = quiet (Returned (deny_permission m)) always"
  | (bypass) "v = None" "cu_mode opts = Mode_bypass" "d = quiet (Returned allow_permission) always"
  | (check_threw) err where "gt_check t input = Threw err" "d = quiet (Threw err) always"
  | (check_allows) c where "gt_check t input = Returned c" "v = None" "sc_behavior c = Check_allow"
      "d = quiet (Returned (pass_through True c)) always"
  | (check_denies) c where "gt_check t input = Returned c" "sc_behavior c = Check_deny"
      "d = quiet (Returned (pass_through False c)) always"
  | (asked) c where "gt_check t input = Returned c" "v \<in> {None, Some Verdict_ask}"
      "sc_behavior c \<noteq> Check_deny" "d = ask_user opts t input (sc_reason c) always"
proof -
  define rr where "rr = evaluate_rule_layers t input (session_layer always # value_or (cu_layers opts) [])"
  have v: "v = map_option verdict_of rr"
    unfolding assms(2) rr_def by (simp only: rule_layers_policy_eq)
  note run = assms(1)[unfolded can_use_tool_def Let_def, folded rr_def, symmetric]
  consider (allow) "rr = Some Result_allow" | (deny) m where "rr = Some (Result_deny m)"
    | (unsure) "rr = None" | (ask) "rr = Some Result_ask"
    by (cases rr) (auto, metis rule_result.exhaust)
  then show thesis
  proof cases
    case unsure
    then show thesis using run v that(3-7)
      by (cases "gt_check t input") (auto split: if_splits)
  next
    case ask
    then show thesis using run v that(4,6,7)
      by (cases "gt_check t input") (auto split: if_splits)
  qed (use run v that(1,2) in auto)
qed

text \<open>What the user's answer does.\<close>

lemma ask_user_answer:
  assumes "ask_user opts t input (sc_reason c) always = d"
  shows "dc_asked d
    \<and> (dc_outcome d = Returned p \<and> perm_allow p
         \<longrightarrow> cu_ask opts (question t input c) \<in> {Returned Ask_allow, Returned Ask_always})
    \<and> dc_always d = (if cu_ask opts (question t input c) = Returned Ask_always
         then set_add (permission_rule_for_input (gt_name t) input) always else always)"
  using assms[symmetric]
  by (auto simp: ask_user_def Let_def deny_permission_def question_def
      split: outcome.splits ask_response.splits option.splits)

text \<open>C11: A tool call is allowed only with a reason: the rules did not deny it, and they allow it, or
  no rule applies and the mode bypasses questions or the tool's own check allows it, or the user was
  asked (after a check that does not deny) and said yes. The remembered rules change only when the user
  was asked about this call and answered \<open>always\<close>, and then by the rule of this input alone; every other
  decision (allowed, denied or thrown) leaves them as they were.\<close>
theorem can_use_tool_sound:
  assumes "can_use_tool opts t input always = d"
    and "v = policy_verdict t input (session_layer always # value_or (cu_layers opts) [])"
  shows "(\<forall>p. dc_outcome d = Returned p \<and> perm_allow p \<longrightarrow>
      v \<noteq> Some Verdict_deny
      \<and> (v = Some Verdict_allow
         \<or> (v = None \<and> cu_mode opts = Mode_bypass)
         \<or> (\<exists>c. gt_check t input = Returned c \<and> sc_behavior c \<noteq> Check_deny
              \<and> ((v = None \<and> sc_behavior c = Check_allow)
                 \<or> (dc_asked d \<and> cu_ask opts (question t input c)
                      \<in> {Returned Ask_allow, Returned Ask_always})))))
    \<and> dc_always d =
        (if dc_asked d \<and> (\<exists>c. gt_check t input = Returned c
              \<and> cu_ask opts (question t input c) = Returned Ask_always)
         then set_add (permission_rule_for_input (gt_name t) input) always else always)"
  using assms
proof (cases rule: can_use_tool_cases)
  case (asked c)
  with ask_user_answer[OF asked(4)[symmetric]] show ?thesis by auto
qed (auto simp: quiet_def deny_permission_def pass_through_def)

definition shell_tool :: guarded_tool where
  "shell_tool = \<lparr>gt_name = ''Bash'', gt_aliases = [], gt_server = None, gt_virtual_name = None,
     gt_matcher = Some (\<lambda>input. Returned (\<lambda>p. json_string_field ''command'' input = Some p)),
     gt_check = (\<lambda>_. Returned \<lparr>sc_behavior = Check_ask, sc_updated = None, sc_reason = None\<rparr>),
     gt_read_only = (\<lambda>_. False), gt_affected_paths = None\<rparr>"

definition yes_opts :: can_use_opts where
  "yes_opts = \<lparr>cu_mode = Mode_default, cu_ask = (\<lambda>_. Returned Ask_always), cu_layers = None,
     cu_record = None\<rparr>"

definition make_input :: json where
  "make_input = JObject [(''command'', JString ''make'')]"

lemma make_decision:
  "can_use_tool yes_opts shell_tool make_input [] = \<lparr>dc_outcome = Returned allow_permission,
     dc_always = [''Bash(make)''], dc_recorded = [], dc_asked = True\<rparr>"
  by (simp add: can_use_tool_def yes_opts_def shell_tool_def session_layer_def layer_rules_def
      resolve_virtual_tool_name_def value_or_def ask_user_def make_input_def set_add_def
      permission_rule_for_input_def rule_text_def)

theorem can_use_tool_sound_witness:
  "(let d = can_use_tool yes_opts shell_tool make_input [] in
      dc_outcome d = Returned allow_permission \<and> perm_allow allow_permission
      \<and> policy_verdict shell_tool make_input [session_layer []] \<noteq> Some Verdict_deny
      \<and> dc_always d = [''Bash(make)''])
   \<and> dc_always (can_use_tool (yes_opts\<lparr>cu_ask := \<lambda>_. Returned Ask_allow\<rparr>) shell_tool make_input []) = []"
proof -
  have l: "session_layer [] # value_or (cu_layers yes_opts) [] = [session_layer []]"
    by (simp add: yes_opts_def value_or_def)
  have "dc_always (can_use_tool (yes_opts\<lparr>cu_ask := \<lambda>_. Returned Ask_allow\<rparr>) shell_tool make_input []) = []"
    using can_use_tool_sound[OF refl refl, of "yes_opts\<lparr>cu_ask := \<lambda>_. Returned Ask_allow\<rparr>"
        shell_tool make_input "[]"] by simp
  moreover have "policy_verdict shell_tool make_input [session_layer []] \<noteq> Some Verdict_deny"
    using can_use_tool_sound[OF make_decision refl, unfolded l] by (simp add: allow_permission_def)
  ultimately show ?thesis by (simp add: make_decision allow_permission_def Let_def)
qed

text \<open>The remembered rules after further decisions, each with its own options, tool and input: none of
  them is ever forgotten.\<close>

definition rules_after :: "(can_use_opts \<times> guarded_tool \<times> json) list \<Rightarrow> string list \<Rightarrow> string list" where
  "rules_after calls always = foldl (\<lambda>al (opts, t, input). dc_always (can_use_tool opts t input al)) always calls"

lemma decision_keeps_rules: "set always \<subseteq> set (dc_always (can_use_tool opts t input always))"
  by (rule can_use_tool_cases[of opts t input always, OF refl refl])
    (auto simp: quiet_def ask_user_def Let_def split: outcome.splits ask_response.splits option.splits)

lemma rules_after_keeps: "set always \<subseteq> set (rules_after calls always)"
proof (induction calls arbitrary: always)
  case (Cons x xs)
  then show ?case
    using decision_keeps_rules[of always "fst x" "fst (snd x)" "snd (snd x)"]
    by (fastforce simp: rules_after_def split_beta)
qed (simp add: rules_after_def)

text \<open>C40: An \<open>always\<close> answer is remembered for good. When the user is asked about a call and answers so,
  the same call is allowed from then on without a question, whatever was decided in between and whatever
  the options, by the rule that was written and read back: for a command, a path or a pattern the rule of
  that text, which the tool's matcher must accept for its own input; for an input without any of them, or
  with an empty one, the rule of the whole tool. The name of the tool must hold no opening parenthesis.\<close>
theorem always_answer_remembered:
  assumes "dc_asked (can_use_tool opts t input always)"
    and "\<And>c. gt_check t input = Returned c \<Longrightarrow> cu_ask opts (question t input c) = Returned Ask_always"
    and "CHR ''('' \<notin> set (gt_name t)"
    and "\<And>c. own_text input = Some c \<Longrightarrow> c \<noteq> [] \<Longrightarrow> prepare_matcher t input c"
    and "later = rules_after calls (dc_always (can_use_tool opts t input always))"
  shows "can_use_tool opts' t input later = quiet (Returned allow_permission) later"
proof -
  let ?d = "can_use_tool opts t input always"
  have "permission_rule_for_input (gt_name t) input \<in> set (dc_always ?d)"
  proof (rule can_use_tool_cases[of opts t input always, OF refl refl])
    fix c
    assume c: "gt_check t input = Returned c" "?d = ask_user opts t input (sc_reason c) always"
    with ask_user_answer[OF c(2)[symmetric]] assms(2) show ?thesis by simp
  qed (use assms(1) in \<open>auto simp: quiet_def\<close>)
  then have "permission_rule_for_input (gt_name t) input \<in> set later"
    using rules_after_keeps assms(5) by blast
  from remembered_rule_allows[OF this assms(3,4)] show ?thesis
    unfolding can_use_tool_def Let_def by simp
qed

definition list_input :: json where
  "list_input = JObject [(''depth'', JNumber ''1'')]"

theorem always_answer_remembered_witness:
  "can_use_tool (yes_opts\<lparr>cu_ask := \<lambda>_. Returned Ask_deny\<rparr>) shell_tool make_input [''Bash(make)'']
    = quiet (Returned allow_permission) [''Bash(make)'']
   \<and> can_use_tool (yes_opts\<lparr>cu_ask := \<lambda>_. Returned Ask_deny\<rparr>) shell_tool list_input [''Bash'']
    = quiet (Returned allow_permission) [''Bash'']"
proof
  have d: "dc_asked (can_use_tool yes_opts shell_tool make_input [])"
    "[''Bash(make)''] = rules_after [] (dc_always (can_use_tool yes_opts shell_tool make_input []))"
    by (simp_all only: rules_after_def make_decision decision.simps foldl_Nil)
  then show "can_use_tool (yes_opts\<lparr>cu_ask := \<lambda>_. Returned Ask_deny\<rparr>) shell_tool make_input [''Bash(make)'']
      = quiet (Returned allow_permission) [''Bash(make)'']"
    by (intro always_answer_remembered[OF d(1) _ _ _ d(2)])
      (simp_all add: yes_opts_def make_input_def shell_tool_def prepare_matcher_def own_text_def or_else_def)
next
  have d: "dc_asked (can_use_tool yes_opts shell_tool list_input [])"
    "dc_always (can_use_tool yes_opts shell_tool list_input []) = [''Bash'']"
    by (simp_all add: can_use_tool_def yes_opts_def shell_tool_def session_layer_def layer_rules_def
        resolve_virtual_tool_name_def value_or_def ask_user_def list_input_def set_add_def
        permission_rule_for_input_def)
  then have r: "[''Bash''] = rules_after [] (dc_always (can_use_tool yes_opts shell_tool list_input []))"
    by (simp add: rules_after_def)
  show "can_use_tool (yes_opts\<lparr>cu_ask := \<lambda>_. Returned Ask_deny\<rparr>) shell_tool list_input [''Bash'']
      = quiet (Returned allow_permission) [''Bash'']"
    by (intro always_answer_remembered[OF d(1) _ _ _ r])
      (simp_all add: yes_opts_def list_input_def shell_tool_def own_text_def or_else_def)
qed

text \<open>An empty text is written as \<open>Name()\<close> and read back as the rule of the whole tool: an \<open>always\<close> answer
  about a call with an empty command, path or pattern allows every later call of the tool.\<close>

lemma empty_text_allows_tool:
  assumes "own_text input = Some []" "CHR ''('' \<notin> set (gt_name t)"
  shows "applies matcher Rule_allow (with_behavior Rule_allow raw
    (parse_session_rule (permission_rule_for_input (gt_name t) input)))"
  using remembered_rule_read[OF assms(2), of input] assms(1)
  by (simp add: applies_def with_behavior_def non_empty_def)

end
