(* ===== verification/Write_Scope.thy ===== *)
theory Write_Scope
  imports Permission_Decision Bash_Permissions Path_Lock
begin

text \<open>
  \<open>packages/sdk/src/permissions/writeScope.ts\<close>: the guard that denies a task's child every write
  outside the globs the task declared. The glob matcher (picomatch, which may throw on a glob) is
  a parameter. The lemmas connect the guard with the path lock: what one declared scope admits lies
  under the directories the lock compares.
\<close>

type_synonym glob_matcher = "string \<Rightarrow> string \<Rightarrow> bool outcome"

definition harness_state_tools :: "string list" where
  "harness_state_tools = [''memory'', ''skill_manage'']"

definition to_cwd_relative :: "string \<Rightarrow> string \<Rightarrow> string \<Rightarrow> string" where
  "to_cwd_relative home cwd p =
     (let expanded = (if starts_with p ''~/'' then join_paths home (drop 2 p) else p);
          absolute = (if is_absolute expanded then expanded else node_resolve cwd expanded)
      in node_relative cwd absolute)"

definition matches_glob :: "glob_matcher \<Rightarrow> string \<Rightarrow> string \<Rightarrow> bool" where
  "matches_glob pm glob rel =
     (if pm glob rel = Returned True then True
      else if \<not> list_ex is_glob_char glob
      then let dir = strip_trailing_slashes glob in rel = dir \<or> starts_with rel (dir @ ''/'')
      else False)"

definition in_scope :: "glob_matcher \<Rightarrow> string \<Rightarrow> string \<Rightarrow> string list \<Rightarrow> string \<Rightarrow> bool" where
  "in_scope pm home cwd globs p =
     (let rel = to_cwd_relative home cwd p in
      if rel = [] \<or> starts_with rel ''..'' then False
      else list_ex (\<lambda>g. matches_glob pm g rel) globs)"

definition defer_or_allow :: "decider option \<Rightarrow> decider" where
  "defer_or_allow base t input always =
     (case base of None \<Rightarrow> quiet (Returned allow_permission) always | Some f \<Rightarrow> f t input always)"

definition deny_with :: "string \<Rightarrow> string list \<Rightarrow> decision" where
  "deny_with reason always = quiet (Returned (deny_permission reason)) always"

definition narrow_scope_text :: string where
  "narrow_scope_text = ''this task declares a narrow write scope; write-capable shell commands are ''
     @ ''denied (declare writes: ['' @ [single_quote] @ ''**'' @ [single_quote]
     @ ''] for unrestricted writes)''"

definition no_path_text :: "string \<Rightarrow> string list \<Rightarrow> string" where
  "no_path_text name globs = name @ '' reports no affected path; denied under this task'' @ [single_quote]
     @ ''s declared write scope ('' @ join_strings '', '' globs @ '')''"

definition outside_text :: "string \<Rightarrow> string list \<Rightarrow> string" where
  "outside_text p globs = ''write to '' @ [single_quote] @ p @ [single_quote]
     @ '' is outside this task'' @ [single_quote] @ ''s declared write scope (''
     @ join_strings '', '' globs @ '')''"

definition wrap_can_use_tool_with_write_scope ::
  "glob_matcher \<Rightarrow> string \<Rightarrow> string \<Rightarrow> decider option \<Rightarrow> string list \<Rightarrow> decider" where
  "wrap_can_use_tool_with_write_scope pm home cwd base globs t input always =
     (if gt_read_only t input then defer_or_allow base t input always
      else if gt_name t \<in> set harness_state_tools then defer_or_allow base t input always
      else if gt_name t = ''Bash'' then
        (case json_string_field ''command'' input of
           Some cmd \<Rightarrow>
             if \<not> is_read_only_bash_command cmd then deny_with narrow_scope_text always
             else defer_or_allow base t input always
         | None \<Rightarrow> defer_or_allow base t input always)
      else case gt_affected_paths t of
        None \<Rightarrow> defer_or_allow base t input always
      | Some f \<Rightarrow>
          if f input = [] then deny_with (no_path_text (gt_name t) globs) always
          else (case find (\<lambda>p. \<not> in_scope pm home cwd globs p) (f input) of
                  Some p \<Rightarrow> deny_with (outside_text p globs) always
                | None \<Rightarrow> defer_or_allow base t input always))"

section \<open>Admitted paths lie under the lock's prefix\<close>

text \<open>What the code relies on of the matcher: a path it admits lies, letter case aside, in the
  directory in front of the glob's first wildcard.\<close>

definition bounded_matcher :: "glob_matcher \<Rightarrow> bool" where
  "bounded_matcher pm \<longleftrightarrow>
     (\<forall>g rel. pm g rel = Returned True \<longrightarrow> under (map to_lower_char rel) (glob_prefix g))"

lemma to_lower_slash [simp]: "to_lower_char (CHR ''/'') = CHR ''/''"
  by code_simp

lemma under_lower:
  "p = d \<or> starts_with p (d @ ''/'') \<Longrightarrow> under (map to_lower_char p) (map to_lower_char d)"
  by (auto simp: under_def starts_with_iff)

lemma bare_directory_under:
  assumes "rel = join_strings ''/'' segs" "segs \<noteq> []" "list_all clean_segment segs"
    and "\<not> list_ex is_glob_char g"
    and "rel = strip_trailing_slashes g \<or> starts_with rel (strip_trailing_slashes g @ ''/'')"
  shows "under (map to_lower_char rel) (glob_prefix g)"
proof (cases "is_unboundable_glob g")
  case True
  then show ?thesis by (simp add: glob_prefix_def under_def)
next
  case False
  define d where "d = strip_trailing_slashes g"
  obtain n where g: "g = d @ replicate n (CHR ''/'')"
    unfolding d_def by (rule strip_trailing_split)
  have segs: "split_slash rel = segs"
    using assms(1-3) split_slash_join[of segs] by (simp add: clean_segment_def list_all_iff)
  have clean: "list_all clean_segment (split_slash d)"
  proof -
    from assms(5) consider "rel = d" | r where "rel = d @ CHR ''/'' # r"
      by (auto simp: d_def starts_with_iff)
    then show ?thesis
    proof cases
      case 1
      then show ?thesis using segs assms(3) by simp
    next
      case 2
      then have "segs = split_slash d @ split_slash r"
        using split_slash_at[of d r] segs by simp
      with assms(3) show ?thesis by simp
    qed
  qed
  have d: "d = join_strings ''/'' (split_slash d)"
    by (simp add: join_split_slash)
  have "strip_trailing_slashes (posix_normalize g) = d"
    using normalize_clean_path[OF _ clean, of n] g d by simp
  moreover have "d \<noteq> ''.''" "g \<noteq> []"
    using join_clean_ends[OF _ clean] d g by auto
  ultimately have "normalize_prefix g = map to_lower_char d"
    by (simp add: normalize_prefix_def Let_def)
  moreover have "glob_prefix g = normalize_prefix g"
    using False assms(4) by (simp add: glob_prefix_def list_ex_iff)
  ultimately show ?thesis
    using under_lower[of rel d] assms(5) by (simp add: d_def)
qed

lemma in_scope_under:
  assumes "bounded_matcher pm" "in_scope pm home cwd globs p"
  shows "\<exists>g \<in> set globs. under (map to_lower_char (to_cwd_relative home cwd p)) (glob_prefix g)"
proof -
  define rel where "rel = to_cwd_relative home cwd p"
  from assms(2) obtain g where g: "g \<in> set globs" "matches_glob pm g rel"
    and rel: "rel \<noteq> []" "\<not> starts_with rel ''..''"
    by (auto simp: in_scope_def Let_def rel_def list_ex_iff split: if_splits)
  obtain segs where segs: "segs \<noteq> []" "list_all clean_segment segs" "rel = join_strings ''/'' segs"
    using node_relative_clean[OF _ rel(2,1)] by (auto simp: rel_def to_cwd_relative_def Let_def)
  have "under (map to_lower_char rel) (glob_prefix g)"
  proof (cases "pm g rel = Returned True")
    case True
    with assms(1) show ?thesis by (simp add: bounded_matcher_def)
  next
    case False
    with g(2) show ?thesis
      by (intro bare_directory_under[OF segs(3,1,2)]) (auto simp: matches_glob_def Let_def split: if_splits)
  qed
  with g(1) show ?thesis by (auto simp: rel_def)
qed

section \<open>Properties\<close>

text \<open>C37: The write scope is a boundary: a call the guard allows is one the wrapped decision allowed
  too (if there is one), and it reads only, or writes the harness's own state, or is a Bash call
  whose command is read-only, or comes from a tool that declares no paths, or declares some and
  every one of them is inside the scope.\<close>
theorem write_scope_enforced:
  assumes "d = wrap_can_use_tool_with_write_scope pm home cwd base globs t input always"
    and "dc_outcome d = Returned p" "perm_allow p"
  shows "(\<forall>f. base = Some f \<longrightarrow> d = f t input always)
    \<and> (gt_read_only t input \<or> gt_name t \<in> set harness_state_tools
       \<or> (gt_name t = ''Bash'' \<and> (\<forall>cmd. json_string_field ''command'' input = Some cmd
            \<longrightarrow> is_read_only_bash_command cmd))
       \<or> (gt_name t \<noteq> ''Bash'' \<and> (\<forall>f. gt_affected_paths t = Some f
            \<longrightarrow> f input \<noteq> [] \<and> (\<forall>p \<in> set (f input). in_scope pm home cwd globs p))))"
proof -
  have deny: "d \<noteq> deny_with reason always" for reason
    using assms(2,3) by (auto simp: deny_with_def quiet_def deny_permission_def)
  have "d = defer_or_allow base t input always"
    using assms(1) deny unfolding wrap_can_use_tool_with_write_scope_def
    by (auto split: if_splits option.splits)
  then have "\<forall>f. base = Some f \<longrightarrow> d = f t input always"
    by (auto simp: defer_or_allow_def)
  moreover have "gt_read_only t input \<or> gt_name t \<in> set harness_state_tools
      \<or> (gt_name t = ''Bash'' \<and> (\<forall>cmd. json_string_field ''command'' input = Some cmd
            \<longrightarrow> is_read_only_bash_command cmd))
      \<or> (gt_name t \<noteq> ''Bash'' \<and> (\<forall>f. gt_affected_paths t = Some f
            \<longrightarrow> f input \<noteq> [] \<and> (\<forall>p \<in> set (f input). in_scope pm home cwd globs p)))"
    using assms(1) deny unfolding wrap_can_use_tool_with_write_scope_def
    by (auto split: if_splits option.splits simp: find_None_iff)
  ultimately show ?thesis by blast
qed

definition exact_matcher :: glob_matcher where
  "exact_matcher g rel = Returned (g = ''src/**'' \<and> starts_with rel ''src/'')"

definition write_tool :: guarded_tool where
  "write_tool = \<lparr>gt_name = ''FileWrite'', gt_aliases = [''Write''], gt_server = None,
     gt_virtual_name = None, gt_matcher = None,
     gt_check = (\<lambda>_. Returned \<lparr>sc_behavior = Check_ask, sc_updated = None, sc_reason = None\<rparr>),
     gt_read_only = (\<lambda>_. False),
     gt_affected_paths = Some (\<lambda>input. case json_string_field ''path'' input of
       None \<Rightarrow> [] | Some p \<Rightarrow> [p])\<rparr>"

lemma src_in_scope: "in_scope exact_matcher ''/home/u'' ''/w'' [''src/**''] ''src/a.ts''"
  by code_simp

theorem write_scope_enforced_witness:
  "dc_outcome (wrap_can_use_tool_with_write_scope exact_matcher ''/home/u'' ''/w'' None [''src/**'']
      write_tool (JObject [(''path'', JString ''src/a.ts'')]) []) = Returned allow_permission
   \<and> in_scope exact_matcher ''/home/u'' ''/w'' [''src/**''] ''src/a.ts''"
proof -
  let ?input = "JObject [(''path'', JString ''src/a.ts'')]"
  have h: "dc_outcome (wrap_can_use_tool_with_write_scope exact_matcher ''/home/u'' ''/w'' None
      [''src/**''] write_tool ?input []) = Returned allow_permission"
    using src_in_scope
    by (simp add: wrap_can_use_tool_with_write_scope_def write_tool_def harness_state_tools_def
        defer_or_allow_def quiet_def)
  have a: "perm_allow allow_permission" by (simp add: allow_permission_def)
  from write_scope_enforced[OF refl h a] h show ?thesis
    by (simp add: write_tool_def harness_state_tools_def)
qed

text \<open>Disjoint scopes cannot clash: when the path lock holds the scopes of two tasks at the same
  time, no path is inside both, so that the guards of the two tasks never admit writes to one file,
  even for spellings that differ in case or in how the path is written.\<close>
theorem write_scopes_disjoint:
  assumes "bounded_matcher pm"
    and "pl_held (foldl (lock_step pl_acquire pl_release pl_fire) pl_new es)
      = us @ (i, Scope_globs a) # vs @ (j, Scope_globs b) # ws"
    and "map to_lower_char (to_cwd_relative home cwd p) = map to_lower_char (to_cwd_relative home cwd q)"
  shows "\<not> (in_scope pm home cwd a p \<and> in_scope pm home cwd b q)"
proof
  assume in_both: "in_scope pm home cwd a p \<and> in_scope pm home cwd b q"
  obtain g where g: "g \<in> set a" "under (map to_lower_char (to_cwd_relative home cwd p)) (glob_prefix g)"
    using in_scope_under[OF assms(1)] in_both by blast
  obtain h where h: "h \<in> set b" "under (map to_lower_char (to_cwd_relative home cwd q)) (glob_prefix h)"
    using in_scope_under[OF assms(1)] in_both by blast
  have "scopes_overlap (Scope_globs a) (Scope_globs b)"
    using overlap_covers[OF g(1) h(1) g(2)] h(2) assms(3) by simp
  moreover have "pl_inv (foldl (lock_step pl_acquire pl_release pl_fire) pl_new es)"
    by (rule pl_run.inv_reachable)
  ultimately show False
    by (simp add: pl_inv_def disjoint_held_def assms(2) sorted_wrt_append)
qed

lemma exact_matcher_bounded: "bounded_matcher exact_matcher"
proof -
  have p: "glob_prefix ''src/**'' = map to_lower_char ''src''"
    by code_simp
  show ?thesis
    unfolding bounded_matcher_def exact_matcher_def
    using p under_lower[of _ "''src''"] by (simp add: exact_matcher_def)
qed

theorem write_scopes_disjoint_witness:
  "\<not> (in_scope exact_matcher ''/home/u'' ''/w'' [''src/**''] ''src/a.ts''
      \<and> in_scope exact_matcher ''/home/u'' ''/w'' [''lib''] ''./SRC/a.ts'')"
proof -
  let ?es = "[Acquire (Scope_globs [''src/**'']) None, Acquire (Scope_globs [''lib'']) None]"
  have p: "glob_prefix ''src/**'' = ''src''" "glob_prefix ''lib'' = ''lib''"
    by code_simp+
  have held: "pl_held (foldl (lock_step pl_acquire pl_release pl_fire) pl_new ?es)
      = [] @ (0, Scope_globs [''src/**'']) # [] @ (1, Scope_globs [''lib'']) # []"
    by (simp add: pl_new_def pl_acquire_def overlaps_held_def p prefixes_touch_def)
  have same: "map to_lower_char (to_cwd_relative ''/home/u'' ''/w'' ''src/a.ts'')
      = map to_lower_char (to_cwd_relative ''/home/u'' ''/w'' ''./SRC/a.ts'')"
    by code_simp
  show ?thesis
    by (rule write_scopes_disjoint[OF exact_matcher_bounded held same])
qed

end
