(* ===== verification/Model_Calls.thy ===== *)
theory Model_Calls
  imports Sdk_Prelude
begin

text \<open>
  \<open>packages/sdk/src/core/query.ts\<close>, \<open>chargeModelCall\<close>: the ceiling on model requests. Every running
  \<open>query\<close> has a budget object whose \<open>parent\<close> is the budget of the query that delegated to it, so a
  request is charged to a chain of objects that several queries share. The objects live in a store,
  a list indexed by address; a chain can be cyclic, because hosts may supply any object.
\<close>

record call_budget =
  cb_limit :: "js_number option"
  cb_used :: js_number
  cb_parent :: "nat option"

type_synonym budget_store = "call_budget list"

datatype charge_error = Cyclic_budget | Invalid_ceiling | Invalid_usage

definition positive_integer :: "js_number \<Rightarrow> bool" where
  "positive_integer n \<longleftrightarrow> is_safe_integer n \<and> js_less (Num 0) n"

definition budget_node :: "budget_store \<Rightarrow> nat \<Rightarrow> call_budget option" where
  "budget_node store i = (if i < length store then Some (store ! i) else None)"

definition at_limit :: "call_budget \<Rightarrow> bool" where
  "at_limit b \<longleftrightarrow> (case cb_limit b of None \<Rightarrow> False | Some l \<Rightarrow> \<not> js_less (cb_used b) l)"

definition bad_ceiling :: "call_budget \<Rightarrow> bool" where
  "bad_ceiling b \<longleftrightarrow> (case cb_limit b of None \<Rightarrow> False | Some l \<Rightarrow> \<not> positive_integer l)"

definition bad_usage :: "call_budget \<Rightarrow> bool" where
  "bad_usage b \<longleftrightarrow> \<not> is_safe_integer (cb_used b) \<or> js_less (cb_used b) (Num 0)"

text \<open>The first loop: \<open>None\<close> when a budget of the chain is spent, else the chain.\<close>

function charge_walk :: "budget_store \<Rightarrow> nat list \<Rightarrow> nat option \<Rightarrow> charge_error + nat list option" where
  "charge_walk store ancestry None = Inr (Some ancestry)"
| "charge_walk store ancestry (Some i) =
     (case budget_node store i of
        None \<Rightarrow> Inr (Some ancestry)
      | Some b \<Rightarrow>
          if i \<in> set ancestry then Inl Cyclic_budget
          else if bad_ceiling b then Inl Invalid_ceiling
          else if bad_usage b then Inl Invalid_usage
          else if at_limit b then Inr None
          else charge_walk store (ancestry @ [i]) (cb_parent b))"
  by pat_completeness auto
termination
proof (relation "measure (\<lambda>(store, ancestry, _). card ({..<length store} - set ancestry))")
  fix store ancestry i b
  assume b: "budget_node store i = Some b" and i: "i \<notin> set ancestry"
  have "{..<length store} - set (ancestry @ [i]) \<subset> {..<length store} - set ancestry"
    using b i by (auto simp: budget_node_def split: if_splits)
  then show "((store, ancestry @ [i], cb_parent b), store, ancestry, Some i)
      \<in> measure (\<lambda>(store, ancestry, _). card ({..<length store} - set ancestry))"
    by (simp add: psubset_card_mono)
qed simp

fun js_succ :: "js_number \<Rightarrow> js_number" where
  "js_succ (Num r) = Num (r + 1)"
| "js_succ n = n"

definition bump_used :: "budget_store \<Rightarrow> nat \<Rightarrow> budget_store" where
  "bump_used store i = store[i := (store ! i)\<lparr>cb_used := js_succ (cb_used (store ! i))\<rparr>]"

definition charge_model_call :: "budget_store \<Rightarrow> nat \<Rightarrow> (charge_error + bool) \<times> budget_store" where
  "charge_model_call store i =
     (case charge_walk store [] (Some i) of
        Inl e \<Rightarrow> (Inl e, store)
      | Inr None \<Rightarrow> (Inr False, store)
      | Inr (Some ancestry) \<Rightarrow> (Inr True, foldl bump_used store ancestry))"

section \<open>Chains\<close>

text \<open>A list of addresses that starts at \<open>i\<close>, follows the parents and ends where there is none.\<close>

fun budget_chain :: "budget_store \<Rightarrow> nat option \<Rightarrow> nat list \<Rightarrow> bool" where
  "budget_chain store o' [] \<longleftrightarrow>
     (case o' of None \<Rightarrow> True | Some i \<Rightarrow> budget_node store i = None)"
| "budget_chain store o' (j # path) \<longleftrightarrow>
     (case o' of
        None \<Rightarrow> False
      | Some i \<Rightarrow> j = i \<and> (case budget_node store i of
          None \<Rightarrow> False | Some b \<Rightarrow> budget_chain store (cb_parent b) path))"

definition has_room :: "call_budget \<Rightarrow> bool" where
  "has_room b \<longleftrightarrow> \<not> bad_ceiling b \<and> \<not> bad_usage b \<and> \<not> at_limit b"

lemma budget_chain_bound: "budget_chain store o' path \<Longrightarrow> i \<in> set path \<Longrightarrow> i < length store"
proof (induction path arbitrary: o')
  case (Cons j path)
  then show ?case
    by (cases o') (auto simp: budget_node_def split: option.splits if_splits)
qed simp

text \<open>A chain is determined by where it starts.\<close>

lemma budget_chain_unique: "budget_chain store o' p \<Longrightarrow> budget_chain store o' q \<Longrightarrow> p = q"
proof (induction p arbitrary: o' q)
  case Nil
  then show ?case by (cases q) (auto split: option.splits)
next
  case (Cons i p)
  then show ?case by (cases q) (auto split: option.splits)
qed

lemma charge_walk_chain:
  "charge_walk store ancestry o' = Inr (Some path) \<longleftrightarrow>
     (\<exists>rest. path = ancestry @ rest \<and> budget_chain store o' rest \<and> distinct rest
        \<and> set rest \<inter> set ancestry = {} \<and> (\<forall>i \<in> set rest. has_room (store ! i)))"
proof (induction store ancestry o' rule: charge_walk.induct)
  case (1 store ancestry)
  have "budget_chain store None rest \<longleftrightarrow> rest = []" for rest by (cases rest) simp_all
  then show ?case by auto
next
  case (2 store ancestry i)
  show ?case
  proof (cases "budget_node store i")
    case None
    then have "budget_chain store (Some i) rest \<longleftrightarrow> rest = []" for rest by (cases rest) simp_all
    with None show ?thesis by auto
  next
    case (Some b)
    then have b: "store ! i = b" by (simp add: budget_node_def split: if_splits)
    show ?thesis
    proof (cases "i \<in> set ancestry \<or> \<not> has_room b")
      case True
      have "\<not> (budget_chain store (Some i) rest \<and> set rest \<inter> set ancestry = {}
          \<and> (\<forall>j \<in> set rest. has_room (store ! j)))" for rest
        using True Some b by (cases rest) auto
      moreover have "charge_walk store ancestry (Some i) \<noteq> Inr (Some path)"
        using True Some by (auto simp: has_room_def)
      ultimately show ?thesis by blast
    next
      case False
      then have step: "charge_walk store ancestry (Some i) = charge_walk store (ancestry @ [i]) (cb_parent b)"
        using Some by (simp add: has_room_def)
      have "(\<exists>rest. path = (ancestry @ [i]) @ rest \<and> budget_chain store (cb_parent b) rest \<and> distinct rest
          \<and> set rest \<inter> set (ancestry @ [i]) = {} \<and> (\<forall>j \<in> set rest. has_room (store ! j)))
        \<longleftrightarrow> (\<exists>rest. path = ancestry @ rest \<and> budget_chain store (Some i) rest \<and> distinct rest
          \<and> set rest \<inter> set ancestry = {} \<and> (\<forall>j \<in> set rest. has_room (store ! j)))"
        (is "?L = ?R")
      proof
        assume ?L
        then obtain rest where "path = ancestry @ i # rest" "budget_chain store (cb_parent b) rest"
          "distinct rest" "set rest \<inter> set (ancestry @ [i]) = {}" "\<forall>j \<in> set rest. has_room (store ! j)"
          by auto
        then show ?R using False Some b by (intro exI[of _ "i # rest"]) auto
      next
        assume ?R
        then obtain rest where r: "path = ancestry @ rest" "budget_chain store (Some i) rest"
          "distinct rest" "set rest \<inter> set ancestry = {}" "\<forall>j \<in> set rest. has_room (store ! j)"
          by auto
        then obtain rest' where "rest = i # rest'" using Some by (cases rest) auto
        then show ?L using r Some by (intro exI[of _ rest']) auto
      qed
      then show ?thesis
        unfolding step using 2 Some False by (simp add: has_room_def)
    qed
  qed
qed

section \<open>Charging\<close>

lemma length_bump_used [simp]: "length (foldl bump_used store path) = length store"
  by (induction path arbitrary: store) (simp_all add: bump_used_def)

lemma bump_used_other:
  "i \<notin> set path \<Longrightarrow> foldl bump_used store path ! i = store ! i"
  by (induction path arbitrary: store) (simp_all add: bump_used_def)

lemma bump_used_once:
  assumes "distinct path" "i \<in> set path" "i < length store"
  shows "foldl bump_used store path ! i = (store ! i)\<lparr>cb_used := js_succ (cb_used (store ! i))\<rparr>"
  using assms
proof (induction path arbitrary: store)
  case (Cons j path)
  show ?case
  proof (cases "i = j")
    case True
    with Cons.prems show ?thesis by (simp add: bump_used_other) (simp add: bump_used_def)
  next
    case False
    with Cons.prems Cons.IH[of "bump_used store j"] show ?thesis by (simp add: bump_used_def)
  qed
qed simp

text \<open>The three answers, as cases.\<close>

lemma charge_cases:
  obtains (refused) r where "charge_model_call store i = (r, store)" "r \<noteq> Inr True"
    "\<nexists>path. budget_chain store (Some i) path \<and> distinct path \<and> (\<forall>j \<in> set path. has_room (store ! j))"
  | (charged) path where "charge_model_call store i = (Inr True, foldl bump_used store path)"
    "budget_chain store (Some i) path" "distinct path" "\<forall>j \<in> set path. has_room (store ! j)"
proof -
  consider (a) e where "charge_walk store [] (Some i) = Inl e" | (b) "charge_walk store [] (Some i) = Inr None"
    | (c) path where "charge_walk store [] (Some i) = Inr (Some path)"
    by (metis old.sum.exhaust option.exhaust)
  then show ?thesis
  proof cases
    case a
    with charge_walk_chain[of store "[]" "Some i"] show ?thesis
      by (intro refused[of "Inl e"]) (auto simp: charge_model_call_def)
  next
    case b
    with charge_walk_chain[of store "[]" "Some i"] show ?thesis
      by (intro refused[of "Inr False"]) (auto simp: charge_model_call_def)
  next
    case c
    with charge_walk_chain[of store "[]" "Some i" path] show ?thesis
      by (intro charged[of path]) (auto simp: charge_model_call_def)
  qed
qed

text \<open>Charges never touch a ceiling or a parent, so the chains stay what they were.\<close>

definition same_shape :: "budget_store \<Rightarrow> budget_store \<Rightarrow> bool" where
  "same_shape s t \<longleftrightarrow> length s = length t
     \<and> (\<forall>i < length s. cb_parent (s ! i) = cb_parent (t ! i) \<and> cb_limit (s ! i) = cb_limit (t ! i))"

lemma charge_same_shape: "same_shape store (snd (charge_model_call store i))"
proof (cases rule: charge_cases[of store i])
  case (refused r)
  then show ?thesis by (simp add: same_shape_def)
next
  case (charged path)
  have "cb_parent (foldl bump_used store path ! j) = cb_parent (store ! j)
      \<and> cb_limit (foldl bump_used store path ! j) = cb_limit (store ! j)" if "j < length store" for j
    using bump_used_once[OF charged(3) _ that] bump_used_other[of j path store]
    by (cases "j \<in> set path") simp_all
  then show ?thesis using charged by (simp add: same_shape_def)
qed

lemma budget_chain_same_shape:
  assumes "same_shape s t"
  shows "budget_chain s o' path \<longleftrightarrow> budget_chain t o' path"
proof (induction path arbitrary: o')
  case Nil
  then show ?case
    using assms by (cases o') (auto simp: budget_node_def same_shape_def split: option.splits)
next
  case (Cons i path)
  then show ?case
    using assms by (cases o') (auto simp: budget_node_def same_shape_def split: option.splits if_splits)
qed


text \<open>A chain that ends visits no budget twice.\<close>

lemma budget_chain_suffix: "budget_chain store o' (us @ i # vs) \<Longrightarrow> budget_chain store (Some i) (i # vs)"
proof (induction us arbitrary: o')
  case Nil
  then show ?case by (cases o') auto
next
  case (Cons a us)
  then obtain b :: call_budget where "budget_chain store (cb_parent b) (us @ i # vs)"
    by (auto split: option.splits)
  then show ?case by (rule Cons.IH)
qed

lemma budget_chain_distinct: "budget_chain store o' path \<Longrightarrow> distinct path"
proof (induction path arbitrary: o')
  case (Cons i path)
  then have tail: "distinct path" and chain: "budget_chain store (Some i) (i # path)"
    by (auto split: option.splits)
  have "i \<notin> set path"
  proof
    assume "i \<in> set path"
    then obtain us vs where path: "path = us @ i # vs" by (meson split_list)
    then have "budget_chain store (Some i) (i # vs)"
      using chain budget_chain_suffix[of store "Some i" "i # us"] unfolding append_Cons by blast
    from budget_chain_unique[OF chain this] show False unfolding path by (cases us) auto
  qed
  with tail show ?case by simp
qed simp

section \<open>Sequences of charges\<close>

fun charge_all :: "budget_store \<Rightarrow> nat list \<Rightarrow> bool list \<times> budget_store" where
  "charge_all store [] = ([], store)"
| "charge_all store (i # calls) =
     (let (r, store') = charge_model_call store i;
          (rs, store'') = charge_all store' calls
      in ((r = Inr True) # rs, store''))"

text \<open>A request of \<open>i\<close> is charged to \<open>j\<close>.\<close>

definition charged_to :: "budget_store \<Rightarrow> nat \<Rightarrow> nat \<Rightarrow> bool" where
  "charged_to store j i \<longleftrightarrow> (\<exists>path. budget_chain store (Some i) path \<and> j \<in> set path)"

fun granted_through :: "budget_store \<Rightarrow> nat \<Rightarrow> nat list \<Rightarrow> bool list \<Rightarrow> nat" where
  "granted_through store j (i # calls) (r # rs) =
     (if r \<and> charged_to store j i then 1 else 0) + granted_through store j calls rs"
| "granted_through store j _ _ = 0"

lemma charged_to_same_shape: "same_shape s t \<Longrightarrow> charged_to s j i = charged_to t j i"
  by (simp add: charged_to_def budget_chain_same_shape)

lemma granted_through_same_shape:
  "same_shape s t \<Longrightarrow> granted_through s j calls rs = granted_through t j calls rs"
  by (induction s j calls rs rule: granted_through.induct) (simp_all add: charged_to_same_shape)

text \<open>What one charge does to one budget.\<close>

lemma charge_effect:
  assumes "charge_model_call store i = (r, store')" "j < length store"
  shows "if r = Inr True \<and> charged_to store j i
    then has_room (store ! j) \<and> store' ! j = (store ! j)\<lparr>cb_used := js_succ (cb_used (store ! j))\<rparr>
    else store' ! j = store ! j"
proof (cases rule: charge_cases[of store i])
  case (refused r')
  then show ?thesis using assms by auto
next
  case (charged path)
  then have "charged_to store j i \<longleftrightarrow> j \<in> set path"
    by (auto simp: charged_to_def dest: budget_chain_unique[OF charged(2)])
  then show ?thesis
    using charged assms bump_used_once[OF charged(3) _ assms(2)] bump_used_other[of j path store] by auto
qed

lemma has_room_limit:
  assumes "has_room b" "cb_limit b = Some (Num l)" "cb_used b = Num (of_nat u)"
  shows "of_nat (Suc u) \<le> l"
proof -
  have l: "of_int \<lfloor>l\<rfloor> = l" "rat_of_nat u < l"
    using assms by (auto simp: has_room_def bad_ceiling_def positive_integer_def at_limit_def)
  then have "int u < \<lfloor>l\<rfloor>" by (metis of_int_less_iff of_int_of_nat_eq)
  then have "rat_of_int (int (Suc u)) \<le> of_int \<lfloor>l\<rfloor>" by (subst of_int_le_iff) simp
  then show ?thesis by (simp only: l of_int_of_nat_eq)
qed

section \<open>Properties\<close>

text \<open>A model request is granted exactly when the chain of budgets above the query ends and every
  budget of it is well formed and below its ceiling; charging returns for every store, cyclic
  chains included, and a request that is not granted leaves the store as it was.\<close>
theorem model_call_granted:
  "(fst (charge_model_call store i) = Inr True) =
     (\<exists>path. budget_chain store (Some i) path \<and> list_all (\<lambda>j. has_room (store ! j)) path)
   \<and> (fst (charge_model_call store i) = Inr True \<or> snd (charge_model_call store i) = store)"
proof (cases rule: charge_cases[of store i])
  case (refused r)
  then show ?thesis using budget_chain_distinct by (auto simp: list_all_iff)
next
  case (charged path)
  then show ?thesis by (auto simp: list_all_iff)
qed

text \<open>Ceilings hold whatever the order of the requests. In any sequence of requests of any queries,
  a budget has counted exactly the granted requests made below it, and one that starts at most at
  its ceiling never exceeds it, so a delegating query pays for the requests of all its children.\<close>
theorem model_calls_within_ceiling:
  assumes "charge_all store calls = (granted, store')"
    and "j < length store" and "cb_used (store ! j) = Num (of_nat u)"
    and "cb_limit (store ! j) = Some (Num maximum)" and "of_nat u \<le> maximum"
  shows "cb_used (store' ! j) = Num (of_nat (u + granted_through store j calls granted))
    \<and> of_nat (u + granted_through store j calls granted) \<le> maximum"
  using assms
proof (induction calls arbitrary: store u granted)
  case (Cons i calls)
  obtain r s1 where c: "charge_model_call store i = (r, s1)" by (cases "charge_model_call store i")
  obtain rs where rest: "charge_all s1 calls = (rs, store')" "granted = (r = Inr True) # rs"
    using Cons.prems(1) c by (auto simp: Let_def split: prod.splits)
  have shape: "same_shape store s1" using charge_same_shape[of store i] c by simp
  then have len: "j < length s1" and lim: "cb_limit (s1 ! j) = Some (Num maximum)"
    using Cons.prems by (auto simp: same_shape_def)
  note effect = charge_effect[OF c Cons.prems(2)]
  show ?case
  proof (cases "r = Inr True \<and> charged_to store j i")
    case True
    then have room: "has_room (store ! j)" and used: "cb_used (s1 ! j) = Num (of_nat (Suc u))"
      using effect Cons.prems(3) by auto
    have "of_nat (Suc u) \<le> maximum" by (rule has_room_limit[OF room Cons.prems(4,3)])
    from Cons.IH[OF rest(1) len used lim this] show ?thesis
      using True rest granted_through_same_shape[OF shape] by simp
  next
    case False
    then have "cb_used (s1 ! j) = Num (of_nat u)" using effect Cons.prems(3) by auto
    from Cons.IH[OF rest(1) len this lim Cons.prems(5)] show ?thesis
      using False rest granted_through_same_shape[OF shape] by auto
  qed
qed simp

definition shared_budget :: budget_store where
  "shared_budget =
     [\<lparr>cb_limit = Some (Num 2), cb_used = Num 0, cb_parent = None\<rparr>,
      \<lparr>cb_limit = None, cb_used = Num 0, cb_parent = Some 0\<rparr>,
      \<lparr>cb_limit = Some (Num 5), cb_used = Num 0, cb_parent = Some 0\<rparr>]"

theorem model_calls_within_ceiling_witness:
  "cb_used (snd (charge_all shared_budget [1, 2, 1]) ! 0)
     = Num (of_nat (0 + granted_through shared_budget 0 [1, 2, 1] [True, True, False]))
   \<and> of_nat (0 + granted_through shared_budget 0 [1, 2, 1] [True, True, False]) \<le> (2 :: rat)"
proof -
  have run: "charge_all shared_budget [1, 2, 1] = ([True, True, False], snd (charge_all shared_budget [1, 2, 1]))"
    by code_simp
  show ?thesis
    by (rule model_calls_within_ceiling[OF run]) (simp_all add: shared_budget_def)
qed

end
