(* ===== verification/Model_Limits.thy ===== *)
theory Model_Limits
  imports Sdk_Prelude
begin

text \<open>
  \<open>packages/sdk/src/providers/modelLimits.ts\<close> and the lines of \<open>core/query.ts\<close> that fit a request into
  a model's window: the limits that hold for a query, from what is published of the model and what
  the host allows, and the output reservation of one request. Both throw a
  \<open>ContextManagementError\<close>, here its text.
\<close>

definition unknown_context_tokens :: int where "unknown_context_tokens = 32768"
definition unknown_output_tokens :: int where "unknown_output_tokens = 8192"

record model_evidence =
  ev_context :: "js_number option"
  ev_output :: "js_number option"
  ev_stale :: bool

record model_limits =
  lim_context :: int
  lim_output :: int

definition limits_text :: string where
  "limits_text = ''model/host limits must be positive safe integers''"

definition positive_limit :: "js_number option \<Rightarrow> string + int option" where
  "positive_limit value =
     (case value of
        None \<Rightarrow> Inr None
      | Some n \<Rightarrow>
          if \<not> is_safe_integer n \<or> js_less n (Num 1) then Inl limits_text
          else Inr (Some \<lfloor>number_value n\<rfloor>))"

text \<open>\<open>Math.min\<close> of a value and of what else there is.\<close>

definition cap_by :: "int \<Rightarrow> int option \<Rightarrow> int" where
  "cap_by n bound = (case bound of None \<Rightarrow> n | Some b \<Rightarrow> min n b)"

definition tightest :: "int \<Rightarrow> bool \<Rightarrow> int option \<Rightarrow> int option \<Rightarrow> int" where
  "tightest unknown stale published host =
     cap_by (cap_by (case published of None \<Rightarrow> unknown | Some n \<Rightarrow> n) (if stale then Some unknown else None)) host"

definition resolve_model_limits ::
  "model_evidence \<Rightarrow> js_number option \<Rightarrow> js_number option \<Rightarrow> string + model_limits" where
  "resolve_model_limits ev host_context host_output =
     (case positive_limit (ev_context ev) of Inl e \<Rightarrow> Inl e | Inr context \<Rightarrow>
     (case positive_limit (ev_output ev) of Inl e \<Rightarrow> Inl e | Inr result \<Rightarrow>
     (case positive_limit host_context of Inl e \<Rightarrow> Inl e | Inr hc \<Rightarrow>
     (case positive_limit host_output of Inl e \<Rightarrow> Inl e | Inr ho \<Rightarrow>
        Inr \<lparr>lim_context = tightest unknown_context_tokens (ev_stale ev) context hc,
             lim_output = tightest unknown_output_tokens (ev_stale ev) result ho\<rparr>))))"

definition does_not_fit_text :: string where
  "does_not_fit_text = ''request exceeds effective model limits; reduce context or output reservation''"

definition assert_request_fits :: "int \<Rightarrow> int \<Rightarrow> model_limits \<Rightarrow> string + unit" where
  "assert_request_fits input_tokens output_tokens limits =
     (case positive_limit (Some (Num (of_int input_tokens))) of Inl e \<Rightarrow> Inl e | Inr _ \<Rightarrow>
     (case positive_limit (Some (Num (of_int output_tokens))) of Inl e \<Rightarrow> Inl e | Inr _ \<Rightarrow>
       if output_tokens > lim_output limits \<or> input_tokens + output_tokens > lim_context limits
       then Inl does_not_fit_text else Inr ()))"

definition no_room_text :: string where
  "no_room_text = ''request input leaves no output room in effective model limits''"

text \<open>The output tokens a request may reserve; \<open>enforce\<close> is false where the input was only estimated.\<close>

definition fit_request :: "bool \<Rightarrow> int \<Rightarrow> int \<Rightarrow> model_limits \<Rightarrow> string + int" where
  "fit_request enforce maximum input_tokens limits =
     (let remaining = (if enforce then lim_context limits - input_tokens else lim_context limits) in
      if \<not> is_safe_integer (Num (of_int remaining)) \<or> remaining \<le> 0 then Inl no_room_text
      else let reserved = min maximum remaining in
        if enforce then (case assert_request_fits input_tokens reserved limits of
          Inl e \<Rightarrow> Inl e | Inr _ \<Rightarrow> Inr reserved)
        else Inr reserved)"

section \<open>Lemmas\<close>

lemma positive_limitE:
  assumes "positive_limit v = Inr r"
  obtains "v = None" "r = None"
  | n where "v = Some (Num (of_int n))" "r = Some n" "1 \<le> n" "n \<le> max_safe_integer"
proof (cases v)
  case None
  with assms show ?thesis by (intro that(1)) (simp_all add: positive_limit_def)
next
  case (Some x)
  then obtain q where "x = Num q" "of_int \<lfloor>q\<rfloor> = q" "\<bar>\<lfloor>q\<rfloor>\<bar> \<le> max_safe_integer" "\<not> q < 1" "r = Some \<lfloor>q\<rfloor>"
    using assms by (cases x) (auto simp: positive_limit_def split: if_splits)
  moreover from this have "1 \<le> \<lfloor>q\<rfloor>" by (simp add: le_floor_iff)
  ultimately show ?thesis using Some by (intro that(2)[of "\<lfloor>q\<rfloor>"]) auto
qed

lemma positive_limit_int: "positive_limit (Some (Num (of_int n))) = Inr r \<Longrightarrow> 1 \<le> n"
  by (erule positive_limitE) auto

text \<open>Limits are only ever tightened. The limits of a query are positive, never above what the
  host allows, never above what is published of the model, and never above the floor for unknown
  models when what is published is stale or absent.\<close>
theorem resolve_model_limits_tight:
  assumes "resolve_model_limits ev host_context host_output = Inr limits"
  shows "1 \<le> lim_context limits \<and> 1 \<le> lim_output limits
    \<and> (\<forall>n. host_context = Some (Num (of_int n)) \<longrightarrow> lim_context limits \<le> n)
    \<and> (\<forall>n. host_output = Some (Num (of_int n)) \<longrightarrow> lim_output limits \<le> n)
    \<and> (\<forall>n. ev_context ev = Some (Num (of_int n)) \<longrightarrow> lim_context limits \<le> n)
    \<and> (\<forall>n. ev_output ev = Some (Num (of_int n)) \<longrightarrow> lim_output limits \<le> n)
    \<and> (ev_stale ev \<or> ev_context ev = None \<longrightarrow> lim_context limits \<le> unknown_context_tokens)
    \<and> (ev_stale ev \<or> ev_output ev = None \<longrightarrow> lim_output limits \<le> unknown_output_tokens)"
proof -
  obtain c r hc ho where parts: "positive_limit (ev_context ev) = Inr c" "positive_limit (ev_output ev) = Inr r"
    "positive_limit host_context = Inr hc" "positive_limit host_output = Inr ho"
    and limits: "limits = \<lparr>lim_context = tightest unknown_context_tokens (ev_stale ev) c hc,
      lim_output = tightest unknown_output_tokens (ev_stale ev) r ho\<rparr>"
    using assms by (auto simp: resolve_model_limits_def split: sum.splits)
  have tight: "1 \<le> tightest fl st pub host \<and> (\<forall>n. h = Some (Num (of_int n)) \<longrightarrow> tightest fl st pub host \<le> n)
      \<and> (\<forall>n. v = Some (Num (of_int n)) \<longrightarrow> tightest fl st pub host \<le> n)
      \<and> (st \<or> v = None \<longrightarrow> tightest fl st pub host \<le> fl)"
    if "1 \<le> fl" "positive_limit v = Inr pub" "positive_limit h = Inr host" for fl st pub host v h
    using that(2,3) by (elim positive_limitE) (use that(1) in \<open>auto simp: tightest_def cap_by_def\<close>)
  show ?thesis
    using tight[OF _ parts(1,3), of unknown_context_tokens "ev_stale ev"]
      tight[OF _ parts(2,4), of unknown_output_tokens "ev_stale ev"]
    by (simp add: limits unknown_context_tokens_def unknown_output_tokens_def)
qed

theorem resolve_model_limits_tight_witness:
  "1 \<le> lim_context \<lparr>lim_context = 32768, lim_output = 512\<rparr>
   \<and> lim_output \<lparr>lim_context = 32768, lim_output = 512\<rparr> \<le> 512"
proof -
  have "resolve_model_limits \<lparr>ev_context = Some (Num (of_int 200000)), ev_output = Some (Num (of_int 64000)),
      ev_stale = True\<rparr> None (Some (Num (of_int 512))) = Inr \<lparr>lim_context = 32768, lim_output = 512\<rparr>"
    by (simp add: resolve_model_limits_def positive_limit_def tightest_def cap_by_def max_safe_integer_def
        unknown_context_tokens_def unknown_output_tokens_def)
  from resolve_model_limits_tight[OF this] show ?thesis by simp
qed

lemma fit_request_enforced:
  assumes "fit_request True maximum input_tokens limits = Inr reserved"
  shows "1 \<le> reserved \<and> reserved \<le> maximum \<and> reserved \<le> lim_output limits
    \<and> input_tokens + reserved \<le> lim_context limits"
proof -
  have "assert_request_fits input_tokens reserved limits = Inr ()" "reserved \<le> maximum"
    using assms by (auto simp: fit_request_def Let_def split: if_splits sum.splits)
  then show ?thesis
    using positive_limit_int[of reserved]
    by (auto simp: assert_request_fits_def split: sum.splits if_splits)
qed

lemma fit_request_ceiling: "fit_request enforce maximum n limits = Inr reserved \<Longrightarrow> reserved \<le> maximum"
  by (auto simp: fit_request_def Let_def split: if_splits sum.splits)

end
