(* ===== verification/Query_State.thy ===== *)
theory Query_State
  imports Tool_Schedule Loop_Guard Microcompact Context_Management Model_Calls Model_Limits
begin

text \<open>
  The state of a running \<open>query\<close> (\<open>packages/sdk/src/core/query.ts\<close>) and the host it runs in.

  The generator, its consumer, the provider, the tools and the callbacks share one world, a value of
  type \<open>'w\<close>: a callback takes the world and returns its answer and the next world, and every effect
  of the generator (an event it yields, a request, a stop hook, a trace) is told to the world by
  \<open>react\<close>, so a consumer may abort, or a host answer differently, because of what it has seen. A
  provider stream is a tree: after each event it goes on from the world the consumer left. The
  effects are also kept in order in a log.
\<close>

section \<open>Failures and terminals\<close>

text \<open>What can be thrown: an \<open>Error\<close> with its text, a \<open>ContextManagementError\<close> and its report, a
  \<open>ContextOverflowError\<close>, a \<open>ProviderHttpError\<close>, a \<open>PersistBeforeRunError\<close>, a \<open>ToolStorageError\<close> with
  the message whose storage failed, or a value whose text cannot be read.\<close>

datatype failure =
    Plain_failure string
  | Context_failure string "context_info option"
  | Context_overflow string
  | Http_failure nat string
  | Persist_before_run
  | Storage_failure "message option"
  | Unreadable_failure

fun failure_text :: "failure \<Rightarrow> string" where
  "failure_text (Plain_failure m) = m"
| "failure_text (Context_failure m _) = m"
| "failure_text (Context_overflow m) = m"
| "failure_text (Http_failure _ m) = m"
| "failure_text Persist_before_run = ''tool call was not run: transcript write failed''"
| "failure_text (Storage_failure _) = storage_failed_text"
| "failure_text Unreadable_failure = ''host callback failed with an unreadable error''"

fun failure_info :: "failure \<Rightarrow> context_info option" where
  "failure_info (Context_failure _ i) = i"
| "failure_info _ = None"

fun is_storage_failure :: "failure \<Rightarrow> bool" where
  "is_storage_failure (Storage_failure _) = True"
| "is_storage_failure _ = False"

fun contains :: "string \<Rightarrow> string \<Rightarrow> bool" where
  "contains [] part = (part = [])"
| "contains (c # s) part = (starts_with (c # s) part \<or> contains s part)"

definition overflow_phrases :: "string list" where
  "overflow_phrases = [''context length'', ''context window'', ''context limit'',
     ''context_length_exceeded'', ''maximum context'', ''max context'', ''prompt is too long'',
     ''too many tokens'']"

definition is_context_overflow_error :: "failure \<Rightarrow> bool" where
  "is_context_overflow_error f =
     (case f of
        Context_overflow _ \<Rightarrow> False
      | _ \<Rightarrow> (case f of Http_failure status _ \<Rightarrow> status = 413 | _ \<Rightarrow> False)
             \<or> list_ex (contains (map to_lower_char (failure_text f))) overflow_phrases)"

datatype terminal =
    Completed | Hit_max_tokens | Hit_max_turns | Interrupted | Checkin nat | Failed failure

datatype end_reason =
    End_completed | End_max_tokens | End_max_turns | End_interrupted | End_checkin | End_error

fun reason_of :: "terminal \<Rightarrow> end_reason" where
  "reason_of Completed = End_completed"
| "reason_of Hit_max_tokens = End_max_tokens"
| "reason_of Hit_max_turns = End_max_turns"
| "reason_of Interrupted = End_interrupted"
| "reason_of (Checkin _) = End_checkin"
| "reason_of (Failed _) = End_error"

fun reason_text :: "end_reason \<Rightarrow> string" where
  "reason_text End_completed = ''completed''"
| "reason_text End_max_tokens = ''max_tokens''"
| "reason_text End_max_turns = ''max_turns''"
| "reason_text End_interrupted = ''interrupted''"
| "reason_text End_checkin = ''checkin''"
| "reason_text End_error = ''error''"

section \<open>Effects\<close>

record request =
  rq_messages :: "message list"
  rq_system :: "string list"
  rq_tools :: "string list"
  rq_max_tokens :: int

datatype loop_action = Act_warn | Act_guidance | Act_abort

record loop_info =
  li_detection :: loop_detection
  li_occurrence :: nat
  li_action :: loop_action

datatype trace_event =
    Trace_interrupt nat string
  | Trace_turn_start nat
  | Trace_request
  | Trace_response
  | Trace_loop loop_action
  | Trace_stall nat string
  | Trace_microcompact

datatype query_event =
    Yield_event stream_event
  | Yield_message message
  | Yield_loop loop_info
  | Yield_context context_info
  | Yield_microcompact microcompact_result
  | Sent request
  | Stop_hook end_reason
  | Stop_deferred end_reason
  | Stop_task string
  | Traced trace_event

datatype 'w model_stream =
    Stream_end 'w
  | Stream_throw failure 'w
  | Stream_item stream_event 'w "'w \<Rightarrow> 'w model_stream"

section \<open>State\<close>

record turn_summary =
  tu_file_edits :: nat
  tu_memory_writes :: nat
  tu_decisions :: nat
  tu_errors :: nat
  tu_calls :: nat

record 'w query_state =
  q_world :: 'w
  q_history :: "message list"
  q_system :: "string list"
  q_detector :: loop_detector
  q_strikes :: nat
  q_tool_calls :: nat
  q_summaries :: "turn_summary list"
  q_budgets :: budget_store
  q_tasks :: "string list"
  q_log :: "query_event list"

section \<open>Parameters and host\<close>

type_synonym ('w, 'a) callback = "'w \<Rightarrow> (failure + 'a) \<times> 'w"

text \<open>What other queries do to the budgets: they create one, or charge one.\<close>

datatype budget_event = New_budget call_budget | Charge_budget nat

datatype task_state = Task_queued | Task_running | Task_completed | Task_ended string

record task_view =
  tv_state :: task_state
  tv_detail :: string

record query_params =
  qp_model :: string
  qp_provider :: string
  qp_metadata :: "(string \<times> string) option"   \<comment> \<open>model id, provider\<close>
  qp_descriptions :: bool
  qp_tools :: "tool list"
  qp_has_context :: bool
  qp_max_turns :: "js_number option"
  qp_slice :: "js_number option"
  qp_limits :: "model_limits option"
  qp_output_ceiling :: int
  qp_context_limits :: "context_limits option"
  qp_checkin :: "js_number option"
  qp_microcompact :: microcompact_config
  qp_hooks :: bool
  qp_logical :: bool
  qp_user_text :: "string option"
  qp_home :: string
  qp_cwd :: string
  qp_budget :: nat

record 'w query_env =
  qe_react :: "query_event \<Rightarrow> 'w \<Rightarrow> 'w"
  qe_aborted :: "'w \<Rightarrow> bool"
  qe_kill :: "'w \<Rightarrow> bool"
  qe_stream :: "request \<Rightarrow> 'w \<Rightarrow> 'w model_stream"
  qe_validate :: "request \<Rightarrow> failure option"
  qe_count :: "request \<Rightarrow> failure + js_number \<times> bool"   \<comment> \<open>tokens, enforced\<close>
  qe_reduce :: "(context_reason \<Rightarrow> message list \<Rightarrow> int \<Rightarrow> 'w \<Rightarrow> port_outcome \<times> 'w) option"
  qe_abort_message :: "'w \<Rightarrow> string option"
  qe_on_reduced :: "(message list \<Rightarrow> ('w, unit) callback) option"
  qe_boundary :: "(message list \<Rightarrow> ('w, bool) callback) option"   \<comment> \<open>\<open>True\<close>: yield\<close>
  qe_steering :: "('w, string option) callback option"
  qe_sync :: "(string \<Rightarrow> string \<Rightarrow> ('w, unit) callback) option"
  qe_persist_before :: "(message \<Rightarrow> ('w, unit) callback) option"
  qe_persist_after :: "(message \<Rightarrow> ('w, unit) callback) option"
  qe_review :: "('w, unit) callback option"
  qe_host :: "'w \<Rightarrow> host"
  qe_after_tools :: "run_log \<Rightarrow> 'w \<Rightarrow> 'w"
  qe_created_tasks :: "'w \<Rightarrow> string list"
  qe_task :: "string \<Rightarrow> 'w \<Rightarrow> failure + task_view option"   \<comment> \<open>\<open>manager.get\<close>, which may throw\<close>
  qe_stopped :: "'w \<Rightarrow> failure option"   \<comment> \<open>the first \<open>manager.stop\<close> to reject, when they were awaited\<close>
  qe_sleep :: "'w \<Rightarrow> 'w"
  qe_budget_events :: "'w \<Rightarrow> budget_event list"
  qe_describe :: "tool \<Rightarrow> string"
  qe_sha256 :: "string \<Rightarrow> string"
  qe_encode :: "message \<Rightarrow> string"

section \<open>Actions\<close>

text \<open>An action goes on with a value, ends the query with a terminal, or lets a failure escape the
  generator.\<close>

datatype 'a ctl = Go 'a | Finish terminal | Escape failure

type_synonym ('w, 'a) act = "'w query_state \<Rightarrow> 'a ctl \<times> 'w query_state"

definition go :: "'a \<Rightarrow> ('w, 'a) act" where
  "go x s = (Go x, s)"

definition act_bind :: "('w, 'a) act \<Rightarrow> ('a \<Rightarrow> ('w, 'b) act) \<Rightarrow> ('w, 'b) act" where
  "act_bind m f s =
     (case m s of
        (Go x, s') \<Rightarrow> f x s'
      | (Finish t, s') \<Rightarrow> (Finish t, s')
      | (Escape e, s') \<Rightarrow> (Escape e, s'))"

definition emit :: "'w query_env \<Rightarrow> query_event \<Rightarrow> 'w query_state \<Rightarrow> 'w query_state" where
  "emit e ev s = s\<lparr>q_log := q_log s @ [ev], q_world := qe_react e ev (q_world s)\<rparr>"

definition push :: "message \<Rightarrow> 'w query_state \<Rightarrow> 'w query_state" where
  "push m s = s\<lparr>q_history := q_history s @ [m]\<rparr>"

definition push_and_yield :: "'w query_env \<Rightarrow> message \<Rightarrow> 'w query_state \<Rightarrow> 'w query_state" where
  "push_and_yield e m s = emit e (Yield_message m) (push m s)"

definition is_aborted :: "'w query_env \<Rightarrow> 'w query_state \<Rightarrow> bool" where
  "is_aborted e s = qe_aborted e (q_world s)"

definition call_back :: "('w, 'a) callback \<Rightarrow> 'w query_state \<Rightarrow> (failure + 'a) \<times> 'w query_state" where
  "call_back f s = (let (r, w) = f (q_world s) in (r, s\<lparr>q_world := w\<rparr>))"

text \<open>\<open>maybeFireStop\<close>: nothing without hooks; a supervised segment leaves the hook to its supervisor.\<close>

definition fire_stop :: "'w query_env \<Rightarrow> query_params \<Rightarrow> end_reason \<Rightarrow> 'w query_state \<Rightarrow> 'w query_state" where
  "fire_stop e p r s =
     (if \<not> qp_hooks p then s
      else if qp_logical p then emit e (Stop_deferred r) s
      else emit e (Stop_hook r) s)"

text \<open>\<open>await maybeFireStop(terminal.reason); return terminal\<close>.\<close>

definition end_with :: "'w query_env \<Rightarrow> query_params \<Rightarrow> terminal \<Rightarrow> ('w, 'a) act" where
  "end_with e p t s = (Finish t, fire_stop e p (reason_of t) s)"

definition end_interrupted :: "'w query_env \<Rightarrow> query_params \<Rightarrow> nat \<Rightarrow> string \<Rightarrow> ('w, 'a) act" where
  "end_interrupted e p turn stage s =
     end_with e p Interrupted (emit e (Traced (Trace_interrupt turn stage)) s)"

section \<open>Messages of a turn\<close>

definition assistant_text :: "message \<Rightarrow> string" where
  "assistant_text m = join_strings [CHR 0x0A]
     (List.map_filter (\<lambda>b. case b of Text_block t \<Rightarrow> Some t | _ \<Rightarrow> None) (msg_content m))"

fun use_block_of :: "content_block \<Rightarrow> tool_use_block option" where
  "use_block_of (Tool_use i n inp) = Some \<lparr>tub_id = i, tub_name = n, tub_input = inp\<rparr>"
| "use_block_of _ = None"

definition tool_use_blocks :: "message \<Rightarrow> tool_use_block list" where
  "tool_use_blocks m = List.map_filter use_block_of (msg_content m)"

definition synthesize_tool_result_message :: "tool_use_block list \<Rightarrow> string \<Rightarrow> message" where
  "synthesize_tool_result_message blocks content =
     user_message (map (\<lambda>b. error_result (tub_id b) content) blocks)"

definition ambiguous_max_tokens_tool_note :: string where
  "ambiguous_max_tokens_tool_note = ''tool call was not executed because the assistant response ''
     @ ''hit max_tokens before completing the turn''"

text \<open>\<open>consumeGuidance\<close>: the pending text goes into the next user message.\<close>

definition consume_guidance :: "string option \<Rightarrow> message \<Rightarrow> message" where
  "consume_guidance pending m =
     (case pending of
        None \<Rightarrow> m
      | Some g \<Rightarrow> if g = [] \<or> msg_role m \<noteq> User then m
                  else user_message (msg_content m @ [Text_block g]))"

text \<open>The results of a message by tool use id; the last of an id wins.\<close>

fun result_entry :: "content_block \<Rightarrow> (string \<times> result_content \<times> bool) option" where
  "result_entry (Tool_result i c err) = Some (i, c, err)"
| "result_entry _ = None"

definition collect_tool_results :: "message option \<Rightarrow> (string \<times> result_content \<times> bool) list" where
  "collect_tool_results m =
     (case m of
        None \<Rightarrow> []
      | Some x \<Rightarrow> if msg_role x \<noteq> User then [] else List.map_filter result_entry (msg_content x))"

text \<open>\<open>String(value)\<close>.\<close>

fun js_string :: "json \<Rightarrow> string" where
  "js_string JNull = ''null''"
| "js_string (JBool b) = (if b then ''true'' else ''false'')"
| "js_string (JNumber n) = n"
| "js_string (JString s) = s"
| "js_string (JArray xs) = join_strings '','' (map (\<lambda>x. if x = JNull then [] else js_string x) xs)"
| "js_string (JObject _) = ''[object Object]''"

fun flatten_content_block :: "json \<Rightarrow> string" where
  "flatten_content_block (JString s) = s"
| "flatten_content_block (JObject kvs) =
     (case map_of kvs ''type'' of
        None \<Rightarrow> []
      | Some ty \<Rightarrow>
          (case map_of kvs ''text'' of
             Some (JString t) \<Rightarrow> if ty = JString ''text'' then t else ''['' @ js_string ty @ '']''
           | _ \<Rightarrow> ''['' @ js_string ty @ '']''))"
| "flatten_content_block _ = []"

fun flatten_tool_result_text :: "result_content \<Rightarrow> string" where
  "flatten_tool_result_text (Result_string s) = s"
| "flatten_tool_result_text (Result_wire (Some (JString s))) = s"
| "flatten_tool_result_text (Result_wire (Some (JArray xs))) =
     join_strings [CHR 0x0A] (map flatten_content_block xs)"
| "flatten_tool_result_text (Result_wire _) = []"

text \<open>\<open>mergeUsage\<close>: the last value seen of each field.\<close>

definition merge_usage :: "token_usage option \<Rightarrow> token_usage \<Rightarrow> token_usage" where
  "merge_usage prev delta = (\<lambda>f. case delta f of Some v \<Rightarrow> Some v
     | None \<Rightarrow> (case prev of None \<Rightarrow> None | Some u \<Rightarrow> u f))"

section \<open>Stalls\<close>

definition stall_window :: nat where "stall_window = 3"

definition nothing_done :: "turn_summary \<Rightarrow> bool" where
  "nothing_done t \<longleftrightarrow> tu_file_edits t = 0 \<and> tu_memory_writes t = 0 \<and> tu_decisions t = 0"

definition detect_stall :: "turn_summary list \<Rightarrow> string option" where
  "detect_stall turns =
     (if length turns < stall_window then None
      else let window = keep_last turns stall_window in
        if list_all (\<lambda>t. tu_calls t = 0 \<and> nothing_done t) window
        then Some ''no tool calls, no edits, no decisions, no memory writes for 3 turns''
        else if list_all (\<lambda>t. tu_calls t > 0 \<and> tu_calls t = tu_errors t \<and> nothing_done t) window
        then Some ''repeated tool errors with no progress for 3 turns''
        else None)"

section \<open>Tool inventory\<close>

text \<open>\<open>tool/effectiveInventory.ts\<close>; \<open>deferred\<close> is a tool's \<open>shouldDefer\<close>.\<close>

definition effective_tool_inventory :: "(tool \<Rightarrow> bool) \<Rightarrow> tool list \<Rightarrow> tool list" where
  "effective_tool_inventory deferred tools =
     (let can_search = list_ex (\<lambda>t. tool_name t = ''ToolSearch'' \<and> \<not> deferred t) tools in
      filter (\<lambda>t. \<not> deferred t \<or> can_search) tools)"

definition inventory_open :: string where "inventory_open = ''<available-tools>''"

definition inventory_line :: "bool \<Rightarrow> (tool \<Rightarrow> string) \<Rightarrow> tool \<Rightarrow> string" where
  "inventory_line descriptions describe t =
     (let d = (if descriptions then trim (collapse_whitespace (describe t)) else []) in
      ''- '' @ tool_name t @ (if d = [] then [] else '': '' @ d))"

definition project_tool_inventory ::
  "bool \<Rightarrow> (tool \<Rightarrow> string) \<Rightarrow> tool list \<Rightarrow> string list \<Rightarrow> string list" where
  "project_tool_inventory descriptions describe tools system =
     concat (map (\<lambda>segment.
       if \<not> starts_with segment (inventory_open @ [CHR 0x0A]) then [segment]
       else if tools = [] then []
       else [join_strings [CHR 0x0A] (inventory_open # map (inventory_line descriptions describe) tools
               @ [''</available-tools>''])]) system)"

end
