(* ===== verification/Turn_Loop.thy ===== *)
theory Turn_Loop
  imports Query_State
begin

text \<open>
  The turn loop of \<open>packages/sdk/src/core/query.ts\<close> (\<open>queryInternal\<close> from its \<open>for\<close> on), for a query without
  skills: each turn asks the model, records its answer, guards against loops, runs the tools it called
  and goes round again, until the model calls none.

  The loop is a machine: \<open>query_step\<close> is one turn, or one round of waiting for the tasks the query
  owns, and \<open>run_query\<close> steps until the query ends. It is a partial function, because a query without
  a ceiling may run for ever.
\<close>

section \<open>Asking the model\<close>

definition history_size :: "'w query_env \<Rightarrow> 'w query_state \<Rightarrow> nat" where
  "history_size e s = history_bytes (qe_encode e) (q_history s)"

definition unchanged_info :: "'w query_env \<Rightarrow> context_reason \<Rightarrow> 'w query_state \<Rightarrow> context_info" where
  "unchanged_info e reason s =
     \<lparr>ci_applied = False, ci_reason = reason, ci_before_bytes = history_size e s,
      ci_after_bytes = history_size e s, ci_usage = None, ci_cost = None\<rparr>"

definition reduction_failed :: "'w query_env \<Rightarrow> context_reason \<Rightarrow> 'w query_state \<Rightarrow> failure" where
  "reduction_failed e reason s = Context_failure ''context reduction failed'' (Some (unchanged_info e reason s))"

text \<open>\<open>manageContext\<close>: a failure that carries no report gets one.\<close>

definition manage_context ::
  "'w query_env \<Rightarrow> query_params \<Rightarrow> context_reason \<Rightarrow> int \<Rightarrow> 'w query_state
   \<Rightarrow> (failure + context_info) \<times> 'w query_state" where
  "manage_context e p reason max_tokens s =
     (case (qe_reduce e, qp_context_limits p) of
        (Some reduce, Some limits) \<Rightarrow>
          let aborted = is_aborted e s;
              (outcome, w) =
                (if valid_context_limits limits \<and> \<not> aborted
                 then reduce reason (q_history s) max_tokens (q_world s) else (Port_threw [], q_world s));
              s1 = s\<lparr>q_world := w\<rparr>
          in (case reduce_context (qe_encode e) limits reason aborted outcome (qe_abort_message e w)
                     (q_history s) of
                Inl (Context_error m (Some info)) \<Rightarrow> (Inl (Context_failure m (Some info)), s1)
              | Inl _ \<Rightarrow> (Inl (reduction_failed e reason s1), s1)
              | Inr (messages, info) \<Rightarrow>
                  (case (case qe_on_reduced e of None \<Rightarrow> (Inr (), s1) | Some f \<Rightarrow> call_back (f messages) s1) of
                     (Inr _, s2) \<Rightarrow> (Inr info, s2\<lparr>q_history := messages\<rparr>)
                   | (Inl (Context_failure m (Some i)), s2) \<Rightarrow> (Inl (Context_failure m (Some i)), s2)
                   | (Inl _, s2) \<Rightarrow> (Inl (reduction_failed e reason s2), s2)))
      | _ \<Rightarrow> (Inl (Context_failure ''contextManager requires contextLimits'' None), s))"

definition current_request :: "query_params \<Rightarrow> int \<Rightarrow> 'w query_state \<Rightarrow> request" where
  "current_request p max_tokens s =
     \<lparr>rq_messages = q_history s, rq_system = q_system s, rq_tools = map tool_name (qp_tools p),
      rq_max_tokens = max_tokens\<rparr>"

definition count_input :: "'w query_env \<Rightarrow> request \<Rightarrow> failure + int \<times> bool" where
  "count_input e rq =
     (case qe_count e rq of
        Inl f \<Rightarrow> Inl f
      | Inr (n, enforced) \<Rightarrow>
          if \<not> is_safe_integer n \<or> js_less n (Num 1)
          then Inl (Context_failure ''input accounting must return a positive safe integer'' None)
          else Inr (\<lfloor>number_value n\<rfloor>, enforced))"

text \<open>The reduction before a request: when the history is over the host's byte limit.\<close>

definition check_context_budget ::
  "'w query_env \<Rightarrow> query_params \<Rightarrow> 'w query_state \<Rightarrow> failure option \<times> 'w query_state" where
  "check_context_budget e p s =
     (case (qe_reduce e, qp_context_limits p) of
        (None, None) \<Rightarrow> (None, s)
      | (Some _, Some limits) \<Rightarrow>
          if \<not> valid_context_limits limits
          then (Some (Context_failure ''invalid context limits'' None), s)
          else if js_less (cl_max_history_bytes limits) (Num (of_nat (history_size e s)))
          then (case manage_context e p Reason_budget (qp_output_ceiling p) s of
                  (Inl f, s1) \<Rightarrow> (Some f, s1)
                | (Inr info, s1) \<Rightarrow> (None, emit e (Yield_context info) s1))
          else (None, s)
      | _ \<Rightarrow> (Some (Context_failure ''contextManager requires contextLimits'' None), s))"

definition metadata_mismatch :: "query_params \<Rightarrow> bool" where
  "metadata_mismatch p \<longleftrightarrow> (case qp_metadata p of None \<Rightarrow> False
     | Some (i, provider) \<Rightarrow> i \<noteq> qp_model p \<or> provider \<noteq> qp_provider p)"

text \<open>The output reservation under the model's limits, with one more reduction when the input fills
  the window.\<close>

definition reserve_output ::
  "'w query_env \<Rightarrow> query_params \<Rightarrow> 'w query_state \<Rightarrow> (failure + int) \<times> 'w query_state" where
  "reserve_output e p s =
     (case qp_limits p of
        None \<Rightarrow> (Inr (qp_output_ceiling p), s)
      | Some limits \<Rightarrow>
          (case count_input e (current_request p (qp_output_ceiling p) s) of
             Inl f \<Rightarrow> (Inl f, s)
           | Inr (n, enforced) \<Rightarrow>
               (case (if enforced \<and> n \<ge> lim_context limits \<and> qe_reduce e \<noteq> None
                         \<and> qp_context_limits p \<noteq> None
                      then (case manage_context e p Reason_budget (qp_output_ceiling p) s of
                              (Inl f, s1) \<Rightarrow> (Inl f, s1)
                            | (Inr info, s1) \<Rightarrow>
                                let s2 = emit e (Yield_context info) s1
                                in (count_input e (current_request p (qp_output_ceiling p) s2), s2))
                      else (Inr (n, enforced), s)) of
                  (Inl f, s1) \<Rightarrow> (Inl f, s1)
                | (Inr (n', enforced'), s1) \<Rightarrow>
                    (case fit_request enforced' (qp_output_ceiling p) n' limits of
                       Inl m \<Rightarrow> (Inl (Context_failure m None), s1)
                     | Inr reserved \<Rightarrow> (Inr reserved, s1)))))"

text \<open>Everything before the request is charged; the inventory is projected into the system prompt.\<close>

definition prepare_request ::
  "'w query_env \<Rightarrow> query_params \<Rightarrow> 'w query_state \<Rightarrow> (failure + request) \<times> 'w query_state" where
  "prepare_request e p s0 =
     (let s = s0\<lparr>q_system :=
            project_tool_inventory (qp_descriptions p) (qe_describe e) (qp_tools p) (q_system s0)\<rparr> in
      case qe_validate e (current_request p (qp_output_ceiling p) s) of
        Some f \<Rightarrow> (Inl f, s)
      | None \<Rightarrow>
     (case check_context_budget e p s of
        (Some f, s1) \<Rightarrow> (Inl f, s1)
      | (None, s1) \<Rightarrow>
     (if metadata_mismatch p
      then (Inl (Context_failure ''model metadata does not match selected model/provider'' None), s1)
      else case reserve_output e p s1 of
        (Inl f, s2) \<Rightarrow> (Inl f, s2)
      | (Inr reserved, s2) \<Rightarrow>
          let rq = current_request p reserved s2 in
          (case qe_validate e rq of
             Some f \<Rightarrow> (Inl f, s2)
           | None \<Rightarrow> (Inr rq, emit e (Traced Trace_request) s2)))))"

fun budget_event :: "budget_event \<Rightarrow> budget_store \<Rightarrow> budget_store" where
  "budget_event (New_budget b) store = store @ [b]"
| "budget_event (Charge_budget i) store = snd (charge_model_call store i)"

fun charge_text :: "charge_error \<Rightarrow> string" where
  "charge_text Cyclic_budget = ''cyclic model-call budget''"
| "charge_text Invalid_ceiling = ''model-call ceiling must be a positive safe integer or null''"
| "charge_text Invalid_usage = ''invalid model-call usage''"

text \<open>The charge of this query, after what other queries did to the budgets in the meantime.\<close>

definition charge_request ::
  "'w query_env \<Rightarrow> query_params \<Rightarrow> 'w query_state \<Rightarrow> (charge_error + bool) \<times> 'w query_state" where
  "charge_request e p s =
     (let store = fold budget_event (qe_budget_events e (q_world s)) (q_budgets s);
          (r, store') = charge_model_call store (qp_budget p)
      in (r, s\<lparr>q_budgets := store'\<rparr>))"

text \<open>What has been seen of the answer; it is kept when the request is repeated.\<close>

record answer =
  an_assistant :: "message option"
  an_stop :: "stop_reason option"
  an_usage :: "token_usage option"
  an_started :: bool

definition no_answer :: answer where
  "no_answer = \<lparr>an_assistant = None, an_stop = None, an_usage = None, an_started = False\<rparr>"

definition note_event :: "stream_event \<Rightarrow> answer \<Rightarrow> answer" where
  "note_event ev a =
     (case ev of
        Assistant_message m \<Rightarrow> a\<lparr>an_started := True, an_assistant := Some m\<rparr>
      | Usage_delta u \<Rightarrow> a\<lparr>an_started := True, an_usage := Some (merge_usage (an_usage a) u)\<rparr>
      | Message_stop r \<Rightarrow> a\<lparr>an_started := True, an_stop := Some r\<rparr>
      | _ \<Rightarrow> a\<lparr>an_started := True\<rparr>)"

primrec consume_stream ::
  "'w query_env \<Rightarrow> 'w model_stream \<Rightarrow> answer \<Rightarrow> 'w query_state \<Rightarrow> failure option \<times> answer \<times> 'w query_state" where
  "consume_stream e (Stream_end w) = (\<lambda>a s. (None, a, s\<lparr>q_world := w\<rparr>))"
| "consume_stream e (Stream_throw f w) = (\<lambda>a s. (Some f, a, s\<lparr>q_world := w\<rparr>))"
| "consume_stream e (Stream_item ev w k) =
     (\<lambda>a s. let s' = emit e (Yield_event ev) (s\<lparr>q_world := w\<rparr>)
            in consume_stream e (k (q_world s')) (note_event ev a) s')"

text \<open>The part of \<open>catch\<close> in which a failed request is not repeated.\<close>

definition yield_report :: "'w query_env \<Rightarrow> failure \<Rightarrow> 'w query_state \<Rightarrow> 'w query_state" where
  "yield_report e f s =
     (case failure_info f of None \<Rightarrow> s | Some info \<Rightarrow> emit e (Yield_context info) s)"

definition request_failed ::
  "'w query_env \<Rightarrow> query_params \<Rightarrow> nat \<Rightarrow> failure \<Rightarrow> ('w, answer) act" where
  "request_failed e p turn f s =
     (if is_aborted e s then end_interrupted e p turn ''stream'' s
      else end_with e p (Failed f) s)"

text \<open>The overflow recovery failed: the hook and the terminal look at the signal one after the other.\<close>

definition recovery_failed :: "'w query_env \<Rightarrow> query_params \<Rightarrow> failure \<Rightarrow> ('w, answer) act" where
  "recovery_failed e p f s =
     (let s1 = yield_report e f s;
          s2 = fire_stop e p (if is_aborted e s1 then End_interrupted else End_error) s1
      in (Finish (if is_aborted e s2 then Interrupted else Failed f), s2))"

text \<open>\<open>retries\<close>: overflow recoveries that are left.\<close>

fun call_model ::
  "'w query_env \<Rightarrow> query_params \<Rightarrow> nat \<Rightarrow> nat \<Rightarrow> answer \<Rightarrow> ('w, answer) act" where
  "call_model e p turn retries a s0 =
     (case prepare_request e p s0 of
        (Inl f, s) \<Rightarrow> request_failed e p turn f (yield_report e f s)
      | (Inr rq, s) \<Rightarrow>
     (case charge_request e p s of
        (Inl err, s1) \<Rightarrow> request_failed e p turn (Plain_failure (charge_text err)) s1
      | (Inr False, s1) \<Rightarrow> end_with e p Hit_max_turns s1
      | (Inr True, s1) \<Rightarrow>
          let s2 = emit e (Sent rq) s1 in
          (case consume_stream e (qe_stream e rq (q_world s2)) a s2 of
             (None, a', s3) \<Rightarrow> (Go a', s3)
           | (Some f, a', s3) \<Rightarrow>
               let s4 = yield_report e f s3 in
               if \<not> is_aborted e s4 \<and> qe_reduce e \<noteq> None \<and> qp_context_limits p \<noteq> None
                 \<and> \<not> an_started a' \<and> is_context_overflow_error f
               then (case retries of
                       0 \<Rightarrow> request_failed e p turn f s4
                     | Suc left \<Rightarrow>
                         (case manage_context e p Reason_overflow (rq_max_tokens rq) s4 of
                            (Inr info, s5) \<Rightarrow>
                              call_model e p turn left a' (emit e (Yield_context info) s5)
                          | (Inl g, s5) \<Rightarrow> recovery_failed e p g s5))
               else request_failed e p turn f s4)))"

declare call_model.simps [simp del]

definition overflow_retries :: "query_params \<Rightarrow> nat" where
  "overflow_retries p =
     (case qp_context_limits p of
        None \<Rightarrow> 0
      | Some limits \<Rightarrow>
          (case cl_max_overflow_retries limits of None \<Rightarrow> 1 | Some n \<Rightarrow> number_to_nat n))"


section \<open>The loop guard\<close>

definition loop_action_of :: "loop_mode \<Rightarrow> nat \<Rightarrow> nat \<Rightarrow> loop_action" where
  "loop_action_of mode strikes limit =
     (if mode = Warn then Act_warn
      else if mode = Enforce \<and> strikes \<ge> limit then Act_abort else Act_guidance)"

fun detector_text :: "detector_name \<Rightarrow> string" where
  "detector_text Consecutive_identical = ''consecutive-identical''"
| "detector_text No_progress = ''no-progress''"
| "detector_text Content_loop = ''content-loop''"

definition abort_text :: "loop_detection \<Rightarrow> string" where
  "abort_text d = ''aborted by loop guard ('' @ detector_text (det_name d) @ ''): '' @ det_reason d"

definition guidance_text :: "loop_detection \<Rightarrow> string" where
  "guidance_text d = ''Loop guard: '' @ det_reason d
     @ '' Change what you send, verify the earlier result, or stop and report.''"

definition snapshot_of :: "message \<Rightarrow> turn_snapshot" where
  "snapshot_of m = \<lparr>ts_tool_calls = map (\<lambda>b. \<lparr>tc_name = tub_name b, tc_input = Some (tub_input b)\<rparr>)
       (tool_use_blocks m), ts_text = assistant_text m\<rparr>"

text \<open>A strike: what is to be done about a detection, and the event that reports it.\<close>

definition note_detection ::
  "'w query_env \<Rightarrow> loop_detection \<Rightarrow> 'w query_state \<Rightarrow> loop_action \<times> 'w query_state" where
  "note_detection e det s =
     (let strikes = q_strikes s + 1;
          options = ld_opts (q_detector s);
          action = loop_action_of (ro_mode options) strikes (ro_strikes options);
          s1 = emit e (Yield_loop \<lparr>li_detection = det, li_occurrence = strikes, li_action = action\<rparr>)
                 (s\<lparr>q_strikes := strikes\<rparr>)
      in (action, emit e (Traced (Trace_loop action)) s1))"

text \<open>One check per turn, before the tools run; the value is the guidance to attach.\<close>

definition guard_turn ::
  "'w query_env \<Rightarrow> query_params \<Rightarrow> message \<Rightarrow> ('w, string option) act" where
  "guard_turn e p m s0 =
     (let (d, found) = add_and_check (qe_sha256 e) (qe_kill e (q_world s0)) (snapshot_of m) (q_detector s0);
          s = s0\<lparr>q_detector := d\<rparr>
      in case found of
           None \<Rightarrow> (Go None, s)
         | Some det \<Rightarrow>
             (case note_detection e det s of
                (Act_abort, s1) \<Rightarrow>
                  end_with e p (Failed (Plain_failure (abort_text det)))
                    (if tool_use_blocks m = [] then s1
                     else push_and_yield e (synthesize_tool_result_message (tool_use_blocks m)
                            ''tool call interrupted by loop detector'') s1)
              | (_, s1) \<Rightarrow>
                  (Go (if tool_use_blocks m = [] then None else Some (guidance_text det)), s1)))"

section \<open>Turns that run no tool\<close>

text \<open>Another model call is still allowed after this turn.\<close>

definition more_turns :: "query_params \<Rightarrow> nat \<Rightarrow> bool" where
  "more_turns p turn \<longleftrightarrow> (case qp_max_turns p of None \<Rightarrow> True | Some n \<Rightarrow> turn + 1 < number_to_nat n)"

text \<open>The calls of this turn are answered with an error, and the query ends.\<close>

definition refuse_calls ::
  "'w query_env \<Rightarrow> query_params \<Rightarrow> string option \<Rightarrow> tool_use_block list \<Rightarrow> string \<Rightarrow> terminal \<Rightarrow> ('w, 'a) act" where
  "refuse_calls e p guidance blocks note t s =
     end_with e p t
       (push_and_yield e (consume_guidance guidance (synthesize_tool_result_message blocks note)) s)"

definition poll_steering ::
  "'w query_env \<Rightarrow> query_params \<Rightarrow> nat \<Rightarrow> 'w query_state \<Rightarrow> (failure + string option) \<times> 'w query_state" where
  "poll_steering e p turn s =
     (case qe_steering e of
        None \<Rightarrow> (Inr None, s)
      | Some f \<Rightarrow> if more_turns p turn then call_back f s else (Inr None, s))"

datatype next_step = Next_turn | Wait_tasks

text \<open>The model called no tool: a steer continues the loop, else the turn is the last one.\<close>

definition finish_answer ::
  "'w query_env \<Rightarrow> query_params \<Rightarrow> nat \<Rightarrow> message \<Rightarrow> ('w, next_step) act" where
  "finish_answer e p turn m s =
     (case poll_steering e p turn s of
        (Inl f, s1) \<Rightarrow> (Escape f, s1)
      | (Inr steer, s1) \<Rightarrow>
          if steer \<noteq> None \<and> steer \<noteq> Some []
          then (Go Next_turn, push_and_yield e (user_message [Text_block (the steer)]) s1)
          else (case (qe_sync e, qp_user_text p) of
                  (Some sync, Some asked) \<Rightarrow>
                    (case call_back (sync asked (assistant_text m)) s1 of
                       (Inl f, s2) \<Rightarrow> (Escape f, s2)
                     | (Inr _, s2) \<Rightarrow> (Go Wait_tasks, s2))
                | _ \<Rightarrow> (Go Wait_tasks, s1)))"

section \<open>Turns that run tools\<close>

fun readable_failure :: "failure \<Rightarrow> failure" where
  "readable_failure Unreadable_failure = Plain_failure (failure_text Unreadable_failure)"
| "readable_failure f = f"

text \<open>The \<open>catch\<close> of the tool phase; \<open>pending\<close> is the message that was not yielded yet.\<close>

definition tools_failed ::
  "'w query_env \<Rightarrow> query_params \<Rightarrow> nat \<Rightarrow> message option \<Rightarrow> failure \<Rightarrow> ('w, 'a) act" where
  "tools_failed e p turn pending f s =
     (let s1 = (case pending of None \<Rightarrow> s | Some m \<Rightarrow> push_and_yield e m s);
          f' = readable_failure f
      in if is_aborted e s1 \<and> \<not> is_storage_failure f
         then end_interrupted e p turn ''tool-dispatch'' s1
         else end_with e p (Failed f') s1)"

definition observed_results :: "tool_use_block list \<Rightarrow> message option \<Rightarrow> observed_result list" where
  "observed_results blocks m =
     (let results = rev (collect_tool_results m) in
      List.map_filter (\<lambda>b. case map_of results (tub_id b) of
          None \<Rightarrow> None
        | Some (c, err) \<Rightarrow> Some \<lparr>or_name = tub_name b, or_input = Some (tub_input b),
            or_text = flatten_tool_result_text c, or_error = err\<rparr>) blocks)"

definition last_message :: "'w query_state \<Rightarrow> message option" where
  "last_message s = (if q_history s = [] then None else Some (last (q_history s)))"

text \<open>The ledger of the loop guard; progress forgives the strikes.\<close>

definition observe_turn :: "'w query_env \<Rightarrow> tool_use_block list \<Rightarrow> 'w query_state \<Rightarrow> 'w query_state" where
  "observe_turn e blocks s =
     (let d = observe_results (qe_sha256 e) (qe_kill e (q_world s))
                (observed_results blocks (last_message s)) (q_detector s)
      in s\<lparr>q_detector := d, q_strikes := (if ld_last_progress d then 0 else q_strikes s)\<rparr>)"

fun error_result_block :: "content_block \<Rightarrow> bool" where
  "error_result_block (Tool_result _ _ err) = err"
| "error_result_block _ = False"

definition turn_summary_of :: "tool_use_block list \<Rightarrow> message option \<Rightarrow> turn_summary" where
  "turn_summary_of blocks m =
     \<lparr>tu_file_edits = length (filter (\<lambda>b. tub_name b \<in> {''FileEdit'', ''FileWrite''}) blocks),
      tu_memory_writes = length (filter (\<lambda>b. tub_name b \<in> {''memory'', ''memory_propose''}) blocks),
      tu_decisions = 0,
      tu_errors = (case m of None \<Rightarrow> 0
        | Some x \<Rightarrow> if msg_role x = User then length (filter error_result_block (msg_content x)) else 0),
      tu_calls = length blocks\<rparr>"

definition summaries_kept :: nat where "summaries_kept = 6"

definition watch_stall ::
  "'w query_env \<Rightarrow> nat \<Rightarrow> tool_use_block list \<Rightarrow> 'w query_state \<Rightarrow> 'w query_state" where
  "watch_stall e turn blocks s =
     (let summaries = keep_last (q_summaries s @ [turn_summary_of blocks (last_message s)]) summaries_kept;
          s1 = s\<lparr>q_summaries := summaries\<rparr>
      in case detect_stall summaries of
           None \<Rightarrow> s1
         | Some reason \<Rightarrow> emit e (Traced (Trace_stall turn reason)) s1)"

definition compact_turn :: "'w query_env \<Rightarrow> query_params \<Rightarrow> 'w query_state \<Rightarrow> 'w query_state" where
  "compact_turn e p s =
     (let names = build_tool_name_map (q_history s) in
      if should_microcompact (q_history s) (qp_microcompact p) names
      then (let (messages, r) = microcompact (q_history s) names (qp_microcompact p) in
            if mr_cleared r > 0
            then emit e (Yield_microcompact r)
                   (emit e (Traced Trace_microcompact) (s\<lparr>q_history := messages\<rparr>))
            else s)
      else s)"

definition checkin_due :: "query_params \<Rightarrow> nat \<Rightarrow> bool" where
  "checkin_due p calls \<longleftrightarrow>
     (case qp_checkin p of None \<Rightarrow> False
      | Some n \<Rightarrow> n \<noteq> NaN \<and> \<not> js_less (Num (of_nat calls)) n)"

text \<open>What follows a batch whose message has been yielded.\<close>

definition after_tools ::
  "'w query_env \<Rightarrow> query_params \<Rightarrow> nat \<Rightarrow> tool_use_block list \<Rightarrow> ('w, next_step) act" where
  "after_tools e p turn blocks s =
     (case (case qe_review e of None \<Rightarrow> (Inr (), s) | Some f \<Rightarrow> call_back f s) of
        (Inl f, s1) \<Rightarrow> tools_failed e p turn None f s1
      | (Inr _, s1) \<Rightarrow>
          let s2 = compact_turn e p (watch_stall e turn blocks (observe_turn e blocks s1));
              calls = q_tool_calls s2 + length blocks;
              s3 = s2\<lparr>q_tool_calls := calls\<rparr>
          in if checkin_due p calls
             then (Finish (Checkin calls), if qp_logical p then fire_stop e p End_checkin s3 else s3)
             else (Go Next_turn, s3))"

definition own_tasks :: "string list \<Rightarrow> string list \<Rightarrow> string list" where
  "own_tasks created tasks = foldl (\<lambda>ts i. set_add i ts) tasks created"

definition run_batch ::
  "'w query_env \<Rightarrow> query_params \<Rightarrow> tool_use_block list \<Rightarrow> 'w query_state \<Rightarrow> message \<times> bool \<times> 'w query_state" where
  "run_batch e p blocks s =
     (let tools = tools_by_name (qp_tools p);
          (m, st) = run_tools (dispatch_wave (qe_host e (q_world s)) tools) (qp_home p) (qp_cwd p) tools
                      idle_state blocks;
          w = qe_after_tools e (rs_log st) (q_world s)
      in (m, rs_failure st \<noteq> None,
          s\<lparr>q_world := w, q_tasks := own_tasks (qe_created_tasks e w) (q_tasks s)\<rparr>))"

definition add_steer :: "string option \<Rightarrow> message \<Rightarrow> message" where
  "add_steer steer m =
     (if steer \<noteq> None \<and> steer \<noteq> Some []
      then user_message (msg_content m @ [Text_block (the steer)]) else m)"

definition dispatch_tools ::
  "'w query_env \<Rightarrow> query_params \<Rightarrow> nat \<Rightarrow> string option \<Rightarrow> tool_use_block list \<Rightarrow> ('w, next_step) act" where
  "dispatch_tools e p turn guidance blocks s0 =
     (let (m, storage_failed, s) = run_batch e p blocks s0;
          out = consume_guidance guidance m
      in case (if msg_role out = User then poll_steering e p turn s else (Inr None, s)) of
           (Inl f, s1) \<Rightarrow> tools_failed e p turn (Some out) f s1
         | (Inr steer, s1) \<Rightarrow>
             let out' = add_steer steer out in
             (case (case qe_persist_after e of None \<Rightarrow> (Inr (), s1) | Some f \<Rightarrow> call_back (f out') s1) of
                (Inl _, s2) \<Rightarrow> tools_failed e p turn (Some out') (Storage_failure (Some out')) s2
              | (Inr _, s2) \<Rightarrow>
                  let s3 = push_and_yield e out' s2 in
                  if storage_failed then tools_failed e p turn None (Storage_failure None) s3
                  else after_tools e p turn blocks s3))"

section \<open>A turn\<close>

text \<open>What is done with an answer of the model.\<close>

definition handle_calls ::
  "'w query_env \<Rightarrow> query_params \<Rightarrow> nat \<Rightarrow> stop_reason option \<Rightarrow> message \<Rightarrow> string option \<Rightarrow> ('w, next_step) act" where
  "handle_calls e p turn stop m guidance s =
     (let blocks = tool_use_blocks m in
      if stop = Some Stop_max_tokens
      then (if blocks = [] then end_with e p Hit_max_tokens s
            else refuse_calls e p guidance blocks ambiguous_max_tokens_tool_note Hit_max_tokens s)
      else if blocks = [] then finish_answer e p turn m s
      else if qp_tools p = []
      then refuse_calls e p guidance blocks ''tool call could not run: no tools were provided''
             (Failed (Plain_failure (''assistant requested '' @ nat_to_string (length blocks)
                @ '' tool call(s) but no tools were provided''))) s
      else if \<not> qp_has_context p
      then refuse_calls e p guidance blocks ''tool call could not run: no toolContext was provided''
             (Failed (Plain_failure
                ''tool_use encountered but no toolContext was passed in QueryParams'')) s
      else case (case qe_persist_before e of None \<Rightarrow> (Inr (), s) | Some f \<Rightarrow> call_back (f m) s) of
        (Inl _, s1) \<Rightarrow>
          refuse_calls e p guidance blocks ''tool call was not run: transcript write failed''
            (Failed Persist_before_run) s1
      | (Inr _, s1) \<Rightarrow> dispatch_tools e p turn guidance blocks s1)"

definition handle_answer ::
  "'w query_env \<Rightarrow> query_params \<Rightarrow> nat \<Rightarrow> answer \<Rightarrow> ('w, next_step) act" where
  "handle_answer e p turn a s0 =
     (let s = emit e (Traced Trace_response) s0 in
      case an_assistant a of
        None \<Rightarrow>
          end_with e p (Failed (Plain_failure ''provider stream ended without an assistant_message'')) s
      | Some m \<Rightarrow> act_bind (guard_turn e p m) (handle_calls e p turn (an_stop a) m) (push m s))"

definition host_yields :: "'w query_env \<Rightarrow> nat \<Rightarrow> 'w query_state \<Rightarrow> (failure + bool) \<times> 'w query_state" where
  "host_yields e turn s =
     (case qe_boundary e of
        None \<Rightarrow> (Inr False, s)
      | Some f \<Rightarrow> if turn > 0 then call_back (f (q_history s)) s else (Inr False, s))"

definition one_turn :: "'w query_env \<Rightarrow> query_params \<Rightarrow> nat \<Rightarrow> ('w, next_step) act" where
  "one_turn e p turn s =
     (if is_aborted e s then end_interrupted e p turn ''pre-stream'' s
      else case host_yields e turn s of
        (Inl f, s1) \<Rightarrow> (Escape f, s1)
      | (Inr True, s1) \<Rightarrow> (Finish Hit_max_turns, s1)
      | (Inr False, s1) \<Rightarrow>
          act_bind (call_model e p turn (overflow_retries p) no_answer) (handle_answer e p turn)
            (emit e (Traced (Trace_turn_start turn)) s1))"

section \<open>Owned tasks\<close>

definition task_incomplete_text :: "string \<Rightarrow> task_view \<Rightarrow> string" where
  "task_incomplete_text i v = ''Owned task '' @ i @ '' is incomplete (''
     @ (case tv_state v of Task_queued \<Rightarrow> ''queued'' | Task_running \<Rightarrow> ''running''
        | Task_completed \<Rightarrow> ''completed'' | Task_ended st \<Rightarrow> st) @ ''): '' @ tv_detail v"

definition task_missing_text :: "string \<Rightarrow> string" where
  "task_missing_text i = ''Owned task '' @ i
     @ '' is missing; recover its saved state before completing.''"

text \<open>One look at every task: those that stay owned, with what threw, or the reason when the query cannot
  complete.\<close>

fun check_tasks ::
  "(string \<Rightarrow> failure + task_view option) \<Rightarrow> string list \<Rightarrow> (failure + string) option \<times> string list" where
  "check_tasks look [] = (None, [])"
| "check_tasks look (i # is) =
     (case look i of
        Inl f \<Rightarrow> (Some (Inl f), i # is)
      | Inr None \<Rightarrow> (Some (Inr (task_missing_text i)), i # is)
      | Inr (Some v) \<Rightarrow>
          (case tv_state v of
             Task_queued \<Rightarrow> map_prod id (Cons i) (check_tasks look is)
           | Task_running \<Rightarrow> map_prod id (Cons i) (check_tasks look is)
           | Task_completed \<Rightarrow> check_tasks look is
           | Task_ended _ \<Rightarrow> (Some (Inr (task_incomplete_text i v)), i # is)))"

definition task_live :: "failure + task_view option \<Rightarrow> bool" where
  "task_live v \<longleftrightarrow> (case v of Inr (Some x) \<Rightarrow> tv_state x \<in> {Task_queued, Task_running} | _ \<Rightarrow> False)"

text \<open>The callbacks of \<open>Promise.all\<close> start one after the other, each up to its \<open>await manager.stop(id)\<close>; a
  \<open>get\<close> that throws rejects before any of the stops does.\<close>

fun stop_each :: "'w query_env \<Rightarrow> string list \<Rightarrow> 'w query_state \<Rightarrow> failure option \<times> 'w query_state" where
  "stop_each e [] s = (None, s)"
| "stop_each e (i # is) s =
     (case qe_task e i (q_world s) of
        Inl f \<Rightarrow> (Some f, snd (stop_each e is s))
      | Inr v \<Rightarrow> stop_each e is (if task_live (Inr v) then emit e (Stop_task i) s else s))"

definition stop_tasks :: "'w query_env \<Rightarrow> ('w, unit) act" where
  "stop_tasks e s =
     (let (thrown, s1) = stop_each e (q_tasks s) s in
      case or_else thrown (qe_stopped e (q_world s1)) of None \<Rightarrow> (Go (), s1) | Some f \<Rightarrow> (Escape f, s1))"

text \<open>One round of \<open>awaitOwnedTasks\<close>.\<close>

definition await_round :: "'w query_env \<Rightarrow> query_params \<Rightarrow> ('w, unit) act" where
  "await_round e p s =
     (if q_tasks s = [] then end_with e p Completed s
      else if is_aborted e s then act_bind (stop_tasks e) (\<lambda>_. end_with e p Interrupted) s
      else case check_tasks (\<lambda>i. qe_task e i (q_world s)) (q_tasks s) of
        (Some (Inl f), pending) \<Rightarrow> (Escape f, s\<lparr>q_tasks := pending\<rparr>)
      | (Some (Inr m), pending) \<Rightarrow> end_with e p (Failed (Plain_failure m)) (s\<lparr>q_tasks := pending\<rparr>)
      | (None, pending) \<Rightarrow>
          let s1 = s\<lparr>q_tasks := pending\<rparr> in
          if pending = [] then end_with e p Completed s1
          else (Go (), s1\<lparr>q_world := qe_sleep e (q_world s1)\<rparr>))"

section \<open>The loop\<close>

datatype phase = At_turn nat | At_tasks

definition turn_allowed :: "query_params \<Rightarrow> nat \<Rightarrow> bool" where
  "turn_allowed p turn \<longleftrightarrow>
     (case qp_max_turns p of None \<Rightarrow> True | Some n \<Rightarrow> turn < number_to_nat n)
     \<and> (case qp_slice p of None \<Rightarrow> True | Some n \<Rightarrow> turn < number_to_nat n)"

fun query_step :: "'w query_env \<Rightarrow> query_params \<Rightarrow> phase \<Rightarrow> ('w, phase) act" where
  "query_step e p (At_turn turn) s =
     (if turn_allowed p turn
      then act_bind (one_turn e p turn)
             (\<lambda>n. go (case n of Next_turn \<Rightarrow> At_turn (turn + 1) | Wait_tasks \<Rightarrow> At_tasks)) s
      else end_with e p Hit_max_turns s)"
| "query_step e p At_tasks s = act_bind (await_round e p) (\<lambda>_. go At_tasks) s"

type_synonym 'w query_result = "(failure + terminal) \<times> 'w query_state"

partial_function (option) run_query ::
  "'w query_env \<Rightarrow> query_params \<Rightarrow> phase \<Rightarrow> 'w query_state \<Rightarrow> 'w query_result option" where
  "run_query e p ph s =
     (case query_step e p ph s of
        (Go ph', s') \<Rightarrow> run_query e p ph' s'
      | (Finish t, s') \<Rightarrow> Some (Inr t, s')
      | (Escape f, s') \<Rightarrow> Some (Inl f, s'))"

declare run_query.simps [code]

definition invalid_count :: "js_number option \<Rightarrow> bool" where
  "invalid_count n \<longleftrightarrow> (case n of None \<Rightarrow> False | Some x \<Rightarrow> \<not> positive_integer x)"

text \<open>The checks before the loop, the budget of the query below the one it inherits, and the loop from
  its first turn.\<close>

definition start_query ::
  "'w query_env \<Rightarrow> query_params \<Rightarrow> nat option \<Rightarrow> 'w query_state \<Rightarrow> 'w query_result option" where
  "start_query e p inherited s =
     (if invalid_count (qp_max_turns p)
      then Some (Inr (Failed (Plain_failure ''maxTurns must be a positive safe integer or null'')), s)
      else if invalid_count (qp_slice p)
      then Some (Inr (Failed (Plain_failure ''executionSliceModelCalls must be positive'')), s)
      else
        let budget = \<lparr>cb_limit = qp_max_turns p, cb_used = Num 0, cb_parent = inherited\<rparr>
        in run_query e (p\<lparr>qp_budget := length (q_budgets s)\<rparr>) (At_turn 0)
             (s\<lparr>q_budgets := q_budgets s @ [budget]\<rparr>))"

end
