(* ===== verification/Turn_Proofs.thy ===== *)
theory Turn_Proofs
  imports Turn_Loop
begin

text \<open>
  What the turn loop keeps: every request carries a history in which each tool call is answered by the
  message after it, and so does the history a query leaves behind, however it ends.
\<close>

section \<open>Histories\<close>

lemma calls_answered_Cons_iff:
  "calls_answered (m # rest) \<longleftrightarrow>
     (msg_role m = User \<or> tool_uses m = []
      \<or> (\<exists>n rest'. rest = n # rest' \<and> msg_role n = User
          \<and> block_id ` set (tool_uses m) \<subseteq> set (result_ids n)))
     \<and> calls_answered rest"
  by (cases rest) (auto simp: calls_answered.simps)

lemma calls_answered_append:
  "calls_answered h \<Longrightarrow> calls_answered t \<Longrightarrow> calls_answered (h @ t)"
  by (induction h) (auto simp: calls_answered_Cons_iff)

lemma valid_message_result_role:
  assumes "valid_message m" "answer_ids (msg_content m) \<noteq> []"
  shows "msg_role m = User"
proof -
  obtain b where "b \<in> set (msg_content m)" "is_tool_result b"
    using assms(2) by (auto simp: answer_ids_def filter_empty_conv)
  moreover from this have "well_formed_block (msg_role m) b"
    using assms(1) by (auto simp: valid_message_def list_all_iff)
  ultimately show ?thesis by (cases b rule: content_block.exhaust) simp_all
qed

lemma calls_paired_answered:
  "calls_paired calls ms \<Longrightarrow> list_all valid_message ms \<Longrightarrow> calls_answered ms"
proof (induction ms arbitrary: calls)
  case (Cons m ms)
  then have rest: "calls_paired (use_ids (msg_content m)) ms" "calls_answered ms" by auto
  have "\<exists>n rest'. ms = n # rest' \<and> msg_role n = User \<and> block_id ` set (tool_uses m) \<subseteq> set (result_ids n)"
    if "tool_uses m \<noteq> []"
  proof -
    have ids: "set (use_ids (msg_content m)) = block_id ` set (tool_uses m)" "use_ids (msg_content m) \<noteq> []"
      using that by (auto simp: use_ids_def tool_uses_def)
    then obtain n rest' where n: "ms = n # rest'"
      "set (answer_ids (msg_content n)) = set (use_ids (msg_content m))"
      using rest(1) by (cases ms) auto
    then have "answer_ids (msg_content n) \<noteq> []" using ids(2) by auto
    then have "msg_role n = User"
      using Cons.prems(2) n(1) by (intro valid_message_result_role) auto
    with n ids(1) show ?thesis by (auto simp: result_ids_def)
  qed
  with rest(2) show ?case by (auto simp: calls_answered_Cons_iff)
qed simp

lemma valid_history_answered: "valid_history ms \<Longrightarrow> calls_answered ms"
  using calls_paired_answered by (auto simp: valid_history_def)

lemma is_tool_use_shape [simp]: "is_tool_use (block_shape b) = is_tool_use b"
  by (cases b rule: block_shape.cases) simp_all

lemma is_tool_result_shape [simp]: "is_tool_result (block_shape b) = is_tool_result b"
  by (cases b rule: block_shape.cases) simp_all

lemma block_id_shape [simp]: "block_id (block_shape b) = block_id b"
  by (cases b rule: block_shape.cases) simp_all

lemma calls_answered_shape: "calls_answered (map message_shape ms) = calls_answered ms"
proof -
  have uses: "tool_uses (message_shape m) = [] \<longleftrightarrow> tool_uses m = []"
    "block_id ` set (tool_uses (message_shape m)) = block_id ` set (tool_uses m)"
    "result_ids (message_shape m) = result_ids m" "msg_role (message_shape m) = msg_role m" for m
    by (simp_all add: message_shape_def tool_uses_def result_ids_def answer_ids_def filter_map
        comp_def image_image)
  show ?thesis by (induction ms) (auto simp: calls_answered_Cons_iff uses map_eq_Cons_conv)
qed

lemma microcompact_answered:
  "calls_answered (fst (microcompact ms names config)) = calls_answered ms"
  by (metis calls_answered_shape microcompact_messages shape_clear_messages)

section \<open>Answering messages\<close>

definition answers_blocks :: "message \<Rightarrow> tool_use_block list \<Rightarrow> bool" where
  "answers_blocks m blocks \<longleftrightarrow> msg_role m = User \<and> set (map tub_id blocks) \<subseteq> set (result_ids m)"

lemma tool_use_block_ids: "set (map tub_id (tool_use_blocks m)) = block_id ` set (tool_uses m)"
proof -
  have "map tub_id (List.map_filter use_block_of bs) = map block_id (filter is_tool_use bs)" for bs
  proof (induction bs)
    case (Cons b bs)
    then show ?case by (cases b) (simp_all add: List.map_filter_simps)
  qed (simp add: List.map_filter_simps)
  then show ?thesis by (metis image_set list.set_map tool_use_blocks_def tool_uses_def)
qed

lemma tool_use_blocks_empty: "tool_use_blocks m = [] \<longleftrightarrow> tool_uses m = []"
  using tool_use_block_ids[of m] by (metis image_is_empty list.map_disc_iff set_empty)

lemma calls_answered_turn:
  assumes "answers_blocks n (tool_use_blocks m)"
  shows "calls_answered [m, n]"
  using assms tool_use_block_ids[of m]
  by (auto simp: calls_answered_Cons_iff answers_blocks_def)

lemma answer_ids_synthesized: "answer_ids (map (\<lambda>b. error_result (tub_id b) note) bs) = map tub_id bs"
  by (induction bs) (simp_all add: error_result_def)

lemma synthesized_answers: "answers_blocks (synthesize_tool_result_message blocks note) blocks"
  by (simp add: answers_blocks_def synthesize_tool_result_message_def result_ids_def answer_ids_synthesized)

lemma guidance_answers [simp]: "answers_blocks (consume_guidance g m) blocks = answers_blocks m blocks"
  by (auto simp: answers_blocks_def consume_guidance_def result_ids_def split: option.split)

lemma steered_answers:
  "answers_blocks m blocks \<Longrightarrow> answers_blocks (user_message (msg_content m @ [Text_block t])) blocks"
  by (simp add: answers_blocks_def result_ids_def)

lemma run_tools_answers_blocks:
  assumes "run_tools (dispatch_wave h tools) home cwd tools s blocks = (m, s')"
  shows "answers_blocks m blocks"
proof -
  obtain rs where rs: "list_all2 (\<lambda>b r. result_block (tub_id b) (fst r)) blocks rs"
    "m = user_message (map fst rs @ concat (map (\<lambda>r. appended_content (Some r)) rs))"
    using turn.run_tools_slots[OF assms] by blast
  have "answer_ids (map fst rs) = map tub_id blocks"
    using rs(1) by (induction rule: list_all2_induct) (auto simp: result_block_def)
  then show ?thesis by (simp add: answers_blocks_def rs(2) result_ids_def)
qed


section \<open>States between turns\<close>

fun sent_ok :: "query_event \<Rightarrow> bool" where
  "sent_ok (Sent rq) = calls_answered (rq_messages rq)"
| "sent_ok _ = True"

definition answered :: "'w query_state \<Rightarrow> bool" where
  "answered s \<longleftrightarrow> calls_answered (q_history s) \<and> list_all sent_ok (q_log s)"

text \<open>After the model's message, before its calls are answered.\<close>

definition turn_open :: "message \<Rightarrow> 'w query_state \<Rightarrow> bool" where
  "turn_open m s \<longleftrightarrow> (\<exists>h. q_history s = h @ [m] \<and> calls_answered h \<and> list_all sent_ok (q_log s))"

lemma emit_fields [simp]:
  "q_history (emit e ev s) = q_history s" "q_system (emit e ev s) = q_system s"
  "q_detector (emit e ev s) = q_detector s" "q_strikes (emit e ev s) = q_strikes s"
  "q_tool_calls (emit e ev s) = q_tool_calls s" "q_summaries (emit e ev s) = q_summaries s"
  "q_budgets (emit e ev s) = q_budgets s" "q_tasks (emit e ev s) = q_tasks s"
  "q_log (emit e ev s) = q_log s @ [ev]"
  by (simp_all add: emit_def)

lemma push_fields [simp]:
  "q_history (push m s) = q_history s @ [m]" "q_log (push m s) = q_log s"
  "q_budgets (push m s) = q_budgets s" "q_tasks (push m s) = q_tasks s"
  by (simp_all add: push_def)

lemma push_and_yield_fields [simp]:
  "q_history (push_and_yield e m s) = q_history s @ [m]"
  "q_log (push_and_yield e m s) = q_log s @ [Yield_message m]"
  "q_budgets (push_and_yield e m s) = q_budgets s" "q_tasks (push_and_yield e m s) = q_tasks s"
  by (simp_all add: push_and_yield_def)

lemma fire_stop_fields [simp]:
  "q_history (fire_stop e p r s) = q_history s" "q_budgets (fire_stop e p r s) = q_budgets s"
  "q_tasks (fire_stop e p r s) = q_tasks s"
  "q_log (fire_stop e p r s) = q_log s
     @ (if qp_hooks p then [if qp_logical p then Stop_deferred r else Stop_hook r] else [])"
  by (simp_all add: fire_stop_def)

lemma yield_report_fields [simp]:
  "q_history (yield_report e f s) = q_history s" "q_budgets (yield_report e f s) = q_budgets s"
  "q_tasks (yield_report e f s) = q_tasks s"
  "q_log (yield_report e f s) = q_log s
     @ (case failure_info f of None \<Rightarrow> [] | Some info \<Rightarrow> [Yield_context info])"
  by (simp_all add: yield_report_def split: option.split)

lemma call_back_fields:
  "call_back f s = (r, s') \<Longrightarrow> q_history s' = q_history s \<and> q_log s' = q_log s
     \<and> q_budgets s' = q_budgets s \<and> q_tasks s' = q_tasks s"
  by (auto simp: call_back_def split: prod.splits)

lemma optional_call_back_fields:
  "(case g of None \<Rightarrow> (Inr x, s) | Some f \<Rightarrow> call_back (h f) s) = (r, s') \<Longrightarrow>
     q_history s' = q_history s \<and> q_log s' = q_log s \<and> q_budgets s' = q_budgets s \<and> q_tasks s' = q_tasks s"
  using call_back_fields by (fastforce split: option.splits)

lemma end_with_result: "end_with e p t s = (c, s') \<Longrightarrow> c = Finish t \<and> s' = fire_stop e p (reason_of t) s"
  by (auto simp: end_with_def)

lemma poll_steering_fields:
  "poll_steering e p turn s = (r, s') \<Longrightarrow> q_history s' = q_history s \<and> q_log s' = q_log s
     \<and> q_budgets s' = q_budgets s \<and> q_tasks s' = q_tasks s"
  using call_back_fields by (fastforce simp: poll_steering_def split: option.splits if_splits)

text \<open>What a step may add to the log without answering or asking anything.\<close>

fun is_sent :: "query_event \<Rightarrow> bool" where
  "is_sent (Sent rq) = True" | "is_sent _ = False"

fun is_stop :: "query_event \<Rightarrow> bool" where
  "is_stop (Stop_hook r) = True" | "is_stop (Stop_deferred r) = True" | "is_stop _ = False"

text \<open>The one event by which a query with these parameters tells its end: the call of the hook, or, in a
  segment of a supervised turn, the end left to the supervisor.\<close>

fun stop_of :: "query_params \<Rightarrow> query_event \<Rightarrow> bool" where
  "stop_of p (Stop_hook r) = (qp_hooks p \<and> \<not> qp_logical p)"
| "stop_of p (Stop_deferred r) = (qp_hooks p \<and> qp_logical p)"
| "stop_of p _ = False"

lemma stop_of_is_stop: "stop_of p ev \<Longrightarrow> is_stop ev"
  by (cases ev) simp_all

lemma stop_of_budget [simp]: "stop_of (p\<lparr>qp_budget := b\<rparr>) ev = stop_of p ev"
  by (cases ev) simp_all

definition silent :: "query_event \<Rightarrow> bool" where
  "silent ev \<longleftrightarrow> \<not> is_sent ev \<and> \<not> is_stop ev"

text \<open>A step before a request: the log grows silently, and the history is the same or a valid one.\<close>

definition quiet_step :: "'w query_state \<Rightarrow> 'w query_state \<Rightarrow> bool" where
  "quiet_step s s' \<longleftrightarrow>
     (\<exists>evs. q_log s' = q_log s @ evs \<and> list_all silent evs)
     \<and> q_budgets s' = q_budgets s \<and> q_tasks s' = q_tasks s
     \<and> (q_history s' = q_history s \<or> valid_history (q_history s'))"

lemma quiet_step_refl [simp]: "quiet_step s s"
  by (simp add: quiet_step_def)

lemma quiet_step_trans: "quiet_step s t \<Longrightarrow> quiet_step t u \<Longrightarrow> quiet_step s u"
  by (auto simp: quiet_step_def)

lemma quiet_step_emit: "silent ev \<Longrightarrow> quiet_step s t \<Longrightarrow> quiet_step s (emit e ev t)"
  by (auto simp: quiet_step_def)

lemma quiet_step_frame:
  "q_log t = q_log s \<Longrightarrow> q_budgets t = q_budgets s \<Longrightarrow> q_tasks t = q_tasks s \<Longrightarrow>
   q_history t = q_history s \<or> valid_history (q_history t) \<Longrightarrow> quiet_step s t"
  by (simp add: quiet_step_def)

lemma silent_events [simp]:
  "silent (Yield_event ev)" "silent (Yield_message m)" "silent (Yield_loop i)" "silent (Yield_context c)"
  "silent (Yield_microcompact r)" "silent (Stop_task t)" "silent (Traced tr)"
  "\<not> silent (Sent rq)" "\<not> silent (Stop_hook r')" "\<not> silent (Stop_deferred r')"
  by (simp_all add: silent_def)

lemma sent_ok_silent: "silent ev \<Longrightarrow> sent_ok ev"
  by (cases ev) simp_all

lemma sent_ok_stop: "is_stop ev \<Longrightarrow> sent_ok ev"
  by (cases ev) simp_all

lemma quiet_step_answered: "quiet_step s s' \<Longrightarrow> answered s \<Longrightarrow> answered s'"
  using valid_history_answered sent_ok_silent
  by (auto simp: quiet_step_def answered_def list_all_iff)

section \<open>The request\<close>

lemma reduce_context_valid:
  assumes "reduce_context encode limits reason aborted outcome msg before = Inr (messages, info)"
  shows "valid_history messages"
  using assms validate_history_iff
  by (auto simp: reduce_context_def check_replacement_def Let_def split: if_splits option.splits
      port_outcome.splits sum.splits)

lemma manage_context_quiet:
  assumes "manage_context e p reason n s = (r, s')"
  shows "quiet_step s s'"
proof (cases "\<exists>reduce limits. qe_reduce e = Some reduce \<and> qp_context_limits p = Some limits")
  case False
  then show ?thesis using assms by (auto simp: manage_context_def split: option.splits)
next
  case True
  then obtain reduce limits where port: "qe_reduce e = Some reduce" "qp_context_limits p = Some limits" by blast
  obtain outcome w where o: "(if valid_context_limits limits \<and> \<not> is_aborted e s
      then reduce reason (q_history s) n (q_world s) else (Port_threw [], q_world s)) = (outcome, w)"
    by (cases "if valid_context_limits limits \<and> \<not> is_aborted e s
      then reduce reason (q_history s) n (q_world s) else (Port_threw [], q_world s)")
  let ?s1 = "s\<lparr>q_world := w\<rparr>"
  show ?thesis
  proof (cases "reduce_context (qe_encode e) limits reason (is_aborted e s) outcome (qe_abort_message e w) (q_history s)")
    case (Inl f)
    then have "s' = ?s1" using assms o port
      by (auto simp: manage_context_def Let_def split: context_failure.splits option.splits)
    then show ?thesis by (simp add: quiet_step_def)
  next
    case (Inr res)
    obtain messages info where res: "res = (messages, info)" by (cases res)
    obtain a s2 where cb: "(case qe_on_reduced e of None \<Rightarrow> (Inr (), ?s1) | Some f \<Rightarrow> call_back (f messages) ?s1) = (a, s2)"
      by (cases "case qe_on_reduced e of None \<Rightarrow> (Inr (), ?s1) | Some f \<Rightarrow> call_back (f messages) ?s1")
    have "s' = s2 \<or> s' = s2\<lparr>q_history := messages\<rparr>"
      using assms o port Inr res cb
      by (auto simp: manage_context_def Let_def split: sum.splits failure.splits option.splits)
    moreover have "valid_history messages" using Inr res by (intro reduce_context_valid) simp
    ultimately show ?thesis
      using optional_call_back_fields[OF cb] by (auto simp: quiet_step_def)
  qed
qed

lemma check_context_budget_quiet:
  assumes "check_context_budget e p s = (r, s')"
  shows "quiet_step s s'"
proof -
  obtain r1 s1 where m: "manage_context e p Reason_budget (qp_output_ceiling p) s = (r1, s1)"
    by (cases "manage_context e p Reason_budget (qp_output_ceiling p) s")
  then have "s' = s \<or> s' = s1 \<or> (\<exists>info. s' = emit e (Yield_context info) s1)"
    using assms by (cases r1) (auto simp: check_context_budget_def split: option.splits if_splits)
  then show ?thesis using manage_context_quiet[OF m] by (auto intro: quiet_step_emit)
qed

lemma reserve_output_quiet:
  assumes "reserve_output e p s = (r, s')"
  shows "quiet_step s s'"
proof -
  obtain r1 s1 where m: "manage_context e p Reason_budget (qp_output_ceiling p) s = (r1, s1)"
    by (cases "manage_context e p Reason_budget (qp_output_ceiling p) s")
  then have "s' = s \<or> s' = s1 \<or> (\<exists>info. s' = emit e (Yield_context info) s1)"
    using assms
    by (cases r1) (auto simp: reserve_output_def Let_def split: option.splits sum.splits prod.splits if_splits)
  then show ?thesis using manage_context_quiet[OF m] by (auto intro: quiet_step_emit)
qed

lemma prepare_request_quiet:
  assumes "prepare_request e p s = (r, s')"
  shows "quiet_step s s' \<and> (\<forall>rq. r = Inr rq \<longrightarrow> rq_messages rq = q_history s')"
proof -
  let ?s = "s\<lparr>q_system := project_tool_inventory (qp_descriptions p) (qe_describe e) (qp_tools p) (q_system s)\<rparr>"
  obtain r1 s1 where c: "check_context_budget e p ?s = (r1, s1)" by (cases "check_context_budget e p ?s")
  obtain r2 s2 where o: "reserve_output e p s1 = (r2, s2)" by (cases "reserve_output e p s1")
  have q: "quiet_step s ?s" by (simp add: quiet_step_def)
  have q1: "quiet_step s s1" using quiet_step_trans[OF q check_context_budget_quiet[OF c]] .
  have q2: "quiet_step s s2" using quiet_step_trans[OF q1 reserve_output_quiet[OF o]] .
  consider "s' = ?s" "\<exists>f. r = Inl f" | "s' = s1" "\<exists>f. r = Inl f" | "s' = s2" "\<exists>f. r = Inl f"
    | n where "s' = emit e (Traced Trace_request) s2" "r = Inr (current_request p n s2)"
    using assms c o
    by (cases r2) (auto simp: prepare_request_def Let_def split: option.splits if_splits)
  then show ?thesis
    by cases (use q q1 q2 in \<open>auto intro: quiet_step_emit simp: current_request_def\<close>)
qed

section \<open>The answer\<close>

text \<open>What the provider's type promises: the message of an \<open>assistant_message\<close> event is an assistant
  message.\<close>

fun typed_event :: "stream_event \<Rightarrow> bool" where
  "typed_event (Assistant_message m) = (msg_role m = Assistant)"
| "typed_event _ = True"

primrec typed_stream :: "'w model_stream \<Rightarrow> bool" where
  "typed_stream (Stream_end w) = True"
| "typed_stream (Stream_throw f w) = True"
| "typed_stream (Stream_item ev w k) = (typed_event ev \<and> (\<forall>w. typed_stream (k w)))"

definition typed_provider :: "'w query_env \<Rightarrow> bool" where
  "typed_provider e \<longleftrightarrow> (\<forall>rq w. typed_stream (qe_stream e rq w))"

definition typed_answer :: "answer \<Rightarrow> bool" where
  "typed_answer a \<longleftrightarrow> pred_option (\<lambda>m. msg_role m = Assistant) (an_assistant a)"

lemma note_event_typed: "typed_event ev \<Longrightarrow> typed_answer a \<Longrightarrow> typed_answer (note_event ev a)"
  by (cases ev) (simp_all add: note_event_def typed_answer_def)

lemma consume_stream_effect:
  "consume_stream e st a s = (r, a', s') \<Longrightarrow>
     quiet_step s s' \<and> q_history s' = q_history s
     \<and> (typed_stream st \<and> typed_answer a \<longrightarrow> typed_answer a')"
proof (induction st arbitrary: a s)
  case (Stream_item ev w k)
  let ?s = "emit e (Yield_event ev) (s\<lparr>q_world := w\<rparr>)"
  have "consume_stream e (k (q_world ?s)) (note_event ev a) ?s = (r, a', s')"
    using Stream_item.prems by (simp add: Let_def)
  from Stream_item.IH[OF _ this] have ih: "quiet_step ?s s' \<and> q_history s' = q_history ?s
     \<and> (typed_stream (k (q_world ?s)) \<and> typed_answer (note_event ev a) \<longrightarrow> typed_answer a')"
    by blast
  have "quiet_step s ?s" by (intro quiet_step_emit) (simp_all add: quiet_step_def)
  then show ?case using ih quiet_step_trans note_event_typed by fastforce
qed (auto simp: quiet_step_def)

lemma charge_request_fields:
  "charge_request e p s = (r, s') \<Longrightarrow>
     q_history s' = q_history s \<and> q_log s' = q_log s \<and> q_tasks s' = q_tasks s"
  by (auto simp: charge_request_def Let_def split: prod.splits)

lemma answered_stop [simp]: "answered (fire_stop e p r s) = answered s"
  by (simp add: answered_def)

lemma answered_emit [simp]: "sent_ok ev \<Longrightarrow> answered (emit e ev s) = answered s"
  by (simp add: answered_def)

lemma answered_report [simp]: "answered (yield_report e f s) = answered s"
  by (simp add: answered_def split: option.split)

lemma request_failed_answered:
  "request_failed e p turn f s = (c, s') \<Longrightarrow> answered s \<Longrightarrow> answered s' \<and> (\<exists>t. c = Finish t)"
  by (auto simp: request_failed_def end_interrupted_def end_with_def split: if_splits)

lemma recovery_failed_answered:
  "recovery_failed e p f s = (c, s') \<Longrightarrow> answered s \<Longrightarrow> answered s' \<and> (\<exists>t. c = Finish t)"
  by (auto simp: recovery_failed_def Let_def)

text \<open>The ways a call of the model goes, one request at a time.\<close>

lemma call_model_cases:
  obtains
    (unprepared) f s1 where "quiet_step s s1"
      "call_model e p turn retries a s = request_failed e p turn f (yield_report e f s1)"
  | (uncharged) s1 err s2 where "quiet_step s s1" "charge_request e p s1 = (Inl err, s2)"
      "call_model e p turn retries a s = request_failed e p turn (Plain_failure (charge_text err)) s2"
  | (ceiling) s1 s2 where "quiet_step s s1" "charge_request e p s1 = (Inr False, s2)"
      "call_model e p turn retries a s = end_with e p Hit_max_turns s2"
  | (answer) rq s1 s2 a' s3 where "quiet_step s s1" "rq_messages rq = q_history s1"
      "charge_request e p s1 = (Inr True, s2)"
      "consume_stream e (qe_stream e rq (q_world (emit e (Sent rq) s2))) a (emit e (Sent rq) s2) = (None, a', s3)"
      "call_model e p turn retries a s = (Go a', s3)"
  | (failed) rq s1 s2 f a' s3 where "quiet_step s s1" "rq_messages rq = q_history s1"
      "charge_request e p s1 = (Inr True, s2)"
      "consume_stream e (qe_stream e rq (q_world (emit e (Sent rq) s2))) a (emit e (Sent rq) s2) = (Some f, a', s3)"
      "call_model e p turn retries a s = request_failed e p turn f (yield_report e f s3)"
  | (unrecovered) rq s1 s2 f a' s3 g s4 where "quiet_step s s1" "rq_messages rq = q_history s1"
      "charge_request e p s1 = (Inr True, s2)"
      "consume_stream e (qe_stream e rq (q_world (emit e (Sent rq) s2))) a (emit e (Sent rq) s2) = (Some f, a', s3)"
      "quiet_step s3 s4" "call_model e p turn retries a s = recovery_failed e p g s4"
  | (again) rq s1 s2 f a' s3 left s4 where "quiet_step s s1" "rq_messages rq = q_history s1"
      "charge_request e p s1 = (Inr True, s2)"
      "consume_stream e (qe_stream e rq (q_world (emit e (Sent rq) s2))) a (emit e (Sent rq) s2) = (Some f, a', s3)"
      "quiet_step s3 s4" "retries = Suc left"
      "call_model e p turn retries a s = call_model e p turn left a' s4"
proof -
  obtain r s1 where prep: "prepare_request e p s = (r, s1)" by (cases "prepare_request e p s")
  note q1 = prepare_request_quiet[OF prep]
  show thesis
  proof (cases r)
    case (Inl f)
    with q1 prep show thesis by (intro unprepared[of s1 f]) (simp_all add: call_model.simps)
  next
    case (Inr rq)
    then have rq: "quiet_step s s1" "rq_messages rq = q_history s1" using q1 by auto
    obtain c s2 where ch: "charge_request e p s1 = (c, s2)" by (cases "charge_request e p s1")
    consider err where "c = Inl err" | "c = Inr False" | "c = Inr True"
      by (cases c) auto
    then show thesis
    proof cases
      case 1
      with rq prep ch Inr show thesis by (intro uncharged) (simp_all add: call_model.simps)
    next
      case 2
      with rq prep ch Inr show thesis by (intro ceiling) (simp_all add: call_model.simps)
    next
      case 3
      let ?s2 = "emit e (Sent rq) s2"
      obtain fr a' s3 where st: "consume_stream e (qe_stream e rq (q_world ?s2)) a ?s2 = (fr, a', s3)"
        by (metis prod_cases3)
      show thesis
      proof (cases fr)
        case None
        with rq prep ch Inr 3 st show thesis
          by (intro answer[of s1 rq s2 a' s3]) (simp_all add: call_model.simps Let_def)
      next
        case (Some f)
        let ?s4 = "yield_report e f s3"
        obtain m s5 where mc: "manage_context e p Reason_overflow (rq_max_tokens rq) ?s4 = (m, s5)"
          by (cases "manage_context e p Reason_overflow (rq_max_tokens rq) ?s4")
        have q4: "quiet_step s3 ?s4" by (auto simp: quiet_step_def split: option.split)
        have q5: "quiet_step s3 s5" using quiet_step_trans[OF q4 manage_context_quiet[OF mc]] .
        have base: "call_model e p turn retries a s =
          (if \<not> is_aborted e ?s4 \<and> qe_reduce e \<noteq> None \<and> qp_context_limits p \<noteq> None
                 \<and> \<not> an_started a' \<and> is_context_overflow_error f
           then (case retries of 0 \<Rightarrow> request_failed e p turn f ?s4
             | Suc left \<Rightarrow> (case (m, s5) of
                 (Inr info, s5) \<Rightarrow> call_model e p turn left a' (emit e (Yield_context info) s5)
               | (Inl g, s5) \<Rightarrow> recovery_failed e p g s5))
           else request_failed e p turn f ?s4)"
          using prep ch Inr 3 st Some mc by (subst call_model.simps) (simp add: Let_def cong: if_cong split: nat.split)
        have "call_model e p turn retries a s = request_failed e p turn f ?s4
            \<or> (\<exists>g. call_model e p turn retries a s = recovery_failed e p g s5)
            \<or> (\<exists>left info. retries = Suc left
                \<and> call_model e p turn retries a s = call_model e p turn left a' (emit e (Yield_context info) s5))"
          unfolding base by (cases m; cases retries) auto
        then consider "call_model e p turn retries a s = request_failed e p turn f ?s4"
          | g where "call_model e p turn retries a s = recovery_failed e p g s5"
          | left info where "retries = Suc left"
            "call_model e p turn retries a s = call_model e p turn left a' (emit e (Yield_context info) s5)"
          by blast
        then show thesis
        proof cases
          case 1
          with rq prep ch Inr 3 st Some show thesis by (intro failed[of s1 rq s2 f a' s3]) simp_all
        next
          case 2
          then show thesis using rq ch 3 st Some q5 by (intro unrecovered[of s1 rq s2 f a' s3 s5 g]) simp_all
        next
          case (3 left info)
          have "quiet_step s3 (emit e (Yield_context info) s5)" using q5 by (intro quiet_step_emit) simp_all
          then show thesis
            using rq ch \<open>c = Inr True\<close> st Some 3
            by (intro again[of s1 rq s2 f a' s3 "emit e (Yield_context info) s5" left]) simp_all
        qed
      qed
    qed
  qed
qed

lemma call_model_answered:
  assumes "typed_provider e"
  shows "call_model e p turn retries a s = (c, s') \<Longrightarrow> answered s \<Longrightarrow> typed_answer a \<Longrightarrow>
    answered s' \<and> (case c of Go a' \<Rightarrow> typed_answer a' | Finish t \<Rightarrow> True | Escape f \<Rightarrow> False)"
proof (induction retries arbitrary: a s rule: less_induct)
  case (less retries)
  have sent: "answered s3 \<and> typed_answer a'"
    if "quiet_step s s1" "rq_messages rq = q_history s1" "charge_request e p s1 = (Inr True, s2)"
      "consume_stream e (qe_stream e rq (q_world (emit e (Sent rq) s2))) a (emit e (Sent rq) s2) = (fr, a', s3)"
    for rq s1 s2 a' s3 fr
  proof -
    have "answered s1" using quiet_step_answered[OF that(1) less.prems(2)] .
    then have "answered (emit e (Sent rq) s2)"
      using charge_request_fields[OF that(3)] that(2) by (simp add: answered_def)
    moreover have "typed_stream (qe_stream e rq (q_world (emit e (Sent rq) s2)))"
      using assms by (simp add: typed_provider_def)
    ultimately show ?thesis
      using consume_stream_effect[OF that(4)] quiet_step_answered less.prems(3) by blast
  qed
  show ?case
  proof (cases rule: call_model_cases[of s e p turn retries a])
    case (unprepared f s1)
    have "answered (yield_report e f s1)" using quiet_step_answered[OF unprepared(1) less.prems(2)] by simp
    then show ?thesis using request_failed_answered less.prems(1) unprepared(2) by fastforce
  next
    case (uncharged s1 err s2)
    have "answered s2"
      using quiet_step_answered[OF uncharged(1) less.prems(2)] charge_request_fields[OF uncharged(2)]
      by (simp add: answered_def)
    then show ?thesis using request_failed_answered less.prems(1) uncharged(3) by fastforce
  next
    case (ceiling s1 s2)
    have "answered s2"
      using quiet_step_answered[OF ceiling(1) less.prems(2)] charge_request_fields[OF ceiling(2)]
      by (simp add: answered_def)
    then show ?thesis using less.prems(1) ceiling(3) by (auto simp: end_with_def)
  next
    case (answer rq s1 s2 a' s3)
    then show ?thesis using sent[OF answer(1-4)] less.prems(1) by auto
  next
    case (failed rq s1 s2 f a' s3)
    have "answered (yield_report e f s3)" using sent[OF failed(1-4)] by simp
    then show ?thesis using request_failed_answered less.prems(1) failed(5) by fastforce
  next
    case (unrecovered rq s1 s2 f a' s3 g s4)
    have "answered s4" using sent[OF unrecovered(1-4)] quiet_step_answered[OF unrecovered(5)] by blast
    then show ?thesis using recovery_failed_answered less.prems(1) unrecovered(6) by fastforce
  next
    case (again rq s1 s2 f a' s3 left s4)
    have s4: "answered s4" "typed_answer a'"
      using sent[OF again(1-4)] quiet_step_answered[OF again(5)] by blast+
    show ?thesis by (rule less.IH[of left a' s4]) (use again less.prems(1) s4 in auto)
  qed
qed


section \<open>The rest of the turn\<close>

lemma turn_open_push: "answered s \<Longrightarrow> turn_open m (push m s)"
  by (auto simp: answered_def turn_open_def)

lemma turn_open_frame:
  "turn_open m s \<Longrightarrow> q_history s' = q_history s \<Longrightarrow> q_log s' = q_log s @ evs \<Longrightarrow> list_all sent_ok evs
   \<Longrightarrow> turn_open m s'"
  by (auto simp: turn_open_def)

lemma turn_open_answer:
  assumes "turn_open m s" "answers_blocks n (tool_use_blocks m)"
  shows "answered (push_and_yield e n s)"
proof -
  obtain h where h: "q_history s = h @ [m]" "calls_answered h" "list_all sent_ok (q_log s)"
    using assms(1) by (auto simp: turn_open_def)
  have "calls_answered (h @ [m, n])"
    using h(2) calls_answered_turn[OF assms(2)] by (intro calls_answered_append)
  then show ?thesis using h by (simp add: answered_def)
qed

lemma turn_open_done: "turn_open m s \<Longrightarrow> tool_use_blocks m = [] \<Longrightarrow> answered s"
  by (auto simp: turn_open_def answered_def tool_use_blocks_empty calls_answered_Cons_iff
      intro!: calls_answered_append)

lemma end_with_answered: "end_with e p t s = (c, s') \<Longrightarrow> answered s \<Longrightarrow> answered s'"
  by (auto simp: end_with_def)

text \<open>The ways a check goes.\<close>

lemma guard_turn_cases:
  assumes "guard_turn e p m s = (c, s')"
  obtains (clean) d where "c = Go None" "s' = s\<lparr>q_detector := d\<rparr>"
  | (abort) d det s1 where "note_detection e det (s\<lparr>q_detector := d\<rparr>) = (Act_abort, s1)"
      "end_with e p (Failed (Plain_failure (abort_text det)))
         (if tool_use_blocks m = [] then s1
          else push_and_yield e (synthesize_tool_result_message (tool_use_blocks m)
                 ''tool call interrupted by loop detector'') s1) = (c, s')"
  | (guide) d det action where "note_detection e det (s\<lparr>q_detector := d\<rparr>) = (action, s')"
      "c = Go (if tool_use_blocks m = [] then None else Some (guidance_text det))"
proof -
  obtain d found where d: "add_and_check (qe_sha256 e) (qe_kill e (q_world s)) (snapshot_of m) (q_detector s)
      = (d, found)"
    by (cases "add_and_check (qe_sha256 e) (qe_kill e (q_world s)) (snapshot_of m) (q_detector s)")
  show thesis
  proof (cases found)
    case None
    then show thesis using assms d by (intro clean[of d]) (simp_all add: guard_turn_def)
  next
    case (Some det)
    obtain action s1 where n: "note_detection e det (s\<lparr>q_detector := d\<rparr>) = (action, s1)"
      by (cases "note_detection e det (s\<lparr>q_detector := d\<rparr>)")
    show thesis
    proof (cases "action = Act_abort")
      case True
      then show thesis using assms d Some n by (intro abort[of det d s1]) (simp_all add: guard_turn_def)
    next
      case False
      then show thesis using assms d Some n
        by (cases action) (auto simp: guard_turn_def intro!: guide[of det d action])
    qed
  qed
qed

lemma note_detection_log:
  "note_detection e det s = (action, s') \<Longrightarrow> q_history s' = q_history s \<and> q_budgets s' = q_budgets s
     \<and> (\<exists>i tr. q_log s' = q_log s @ [Yield_loop i, Traced tr])"
  by (auto simp: note_detection_def Let_def)

lemma guard_turn_open:
  assumes "guard_turn e p m s = (c, s')" "turn_open m s"
  shows "case c of Go g \<Rightarrow> turn_open m s' | Finish t \<Rightarrow> answered s' | Escape f \<Rightarrow> False"
  using assms(1)
proof (cases rule: guard_turn_cases)
  case (clean d)
  then show ?thesis using assms(2) by (simp add: turn_open_def)
next
  case (abort d det s1)
  have s1: "turn_open m s1" using note_detection_log[OF abort(1)] assms(2) by (auto simp: turn_open_def)
  have "answered (if tool_use_blocks m = [] then s1
      else push_and_yield e (synthesize_tool_result_message (tool_use_blocks m)
             ''tool call interrupted by loop detector'') s1)"
    using turn_open_answer[OF s1 synthesized_answers] turn_open_done[OF s1] by simp
  then show ?thesis using end_with_result[OF abort(2)] by auto
next
  case (guide d det action)
  then show ?thesis using note_detection_log[OF guide(1)] assms(2) by (auto simp: turn_open_def)
qed

lemma refuse_calls_answered:
  assumes "refuse_calls e p g (tool_use_blocks m) note t s = (c, s')" "turn_open m s"
  shows "answered s'"
  using assms end_with_answered turn_open_answer synthesized_answers
  unfolding refuse_calls_def by (metis guidance_answers)

lemma finish_answer_answered:
  assumes "finish_answer e p turn m s = (c, s')" "answered s"
  shows "answered s'"
proof -
  obtain r s1 where poll: "poll_steering e p turn s = (r, s1)" by (cases "poll_steering e p turn s")
  have s1: "answered s1" using poll_steering_fields[OF poll] assms(2) by (simp add: answered_def)
  have steer: "answered (push_and_yield e (user_message [Text_block t]) s1)" for t
    using s1 by (auto simp: answered_def calls_answered_Cons_iff intro!: calls_answered_append)
  have sync: "answered s2" if "call_back f s1 = (x, s2)" for f :: "('a, unit) callback" and x s2
    using call_back_fields[OF that] s1 by (simp add: answered_def)
  show ?thesis
    using assms(1) poll s1 steer sync
    by (auto simp: finish_answer_def split: sum.splits if_splits option.splits prod.splits)
qed

lemma tools_failed_answered:
  assumes "tools_failed e p turn pending f s = (c, s')"
    and "case pending of None \<Rightarrow> answered s | Some n \<Rightarrow> answered (push_and_yield e n s)"
  shows "answered s'"
  using assms
  by (auto simp: tools_failed_def Let_def end_interrupted_def end_with_def split: option.splits if_splits)

lemma observe_turn_answered [simp]: "answered (observe_turn e blocks s) = answered s"
  by (simp add: answered_def observe_turn_def Let_def)

lemma watch_stall_answered [simp]: "answered (watch_stall e turn blocks s) = answered s"
  by (simp add: answered_def watch_stall_def Let_def split: option.split)

lemma compact_turn_answered: "answered s \<Longrightarrow> answered (compact_turn e p s)"
  using microcompact_answered[of "q_history s" "build_tool_name_map (q_history s)" "qp_microcompact p"]
  by (auto simp: answered_def compact_turn_def Let_def split: prod.splits)

lemma after_tools_answered:
  assumes "after_tools e p turn blocks s = (c, s')" "answered s"
  shows "answered s'"
proof -
  obtain r s1 where review: "(case qe_review e of None \<Rightarrow> (Inr (), s) | Some f \<Rightarrow> call_back f s) = (r, s1)"
    by (cases "case qe_review e of None \<Rightarrow> (Inr (), s) | Some f \<Rightarrow> call_back f s")
  have s1: "answered s1"
    using optional_call_back_fields[where h = "\<lambda>f. f", OF review] assms(2) by (simp add: answered_def)
  define s2 where "s2 = compact_turn e p (watch_stall e turn blocks (observe_turn e blocks s1))"
  have "answered s2" using s1 by (simp add: s2_def compact_turn_answered)
  then have s3: "answered (s2\<lparr>q_tool_calls := n\<rparr>)" for n by (simp add: answered_def)
  show ?thesis
  proof (cases r)
    case (Inl f)
    then show ?thesis using assms(1) review s1 tools_failed_answered[where pending = None]
      by (auto simp: after_tools_def)
  next
    case (Inr u)
    then show ?thesis using assms(1) review s3
      by (auto simp: after_tools_def Let_def s2_def split: if_splits)
  qed
qed

lemma dispatch_tools_answered:
  assumes "dispatch_tools e p turn g (tool_use_blocks m) s = (c, s')" "turn_open m s"
  shows "answered s'"
proof -
  obtain n sf s1 where batch: "run_batch e p (tool_use_blocks m) s = (n, sf, s1)" by (metis prod_cases3)
  have n: "answers_blocks n (tool_use_blocks m)"
    using batch run_tools_answers_blocks by (auto simp: run_batch_def Let_def split: prod.splits)
  have s1: "turn_open m s1"
    using batch assms(2) by (auto simp: run_batch_def Let_def turn_open_def split: prod.splits)
  define out where "out = consume_guidance g n"
  have out: "answers_blocks out (tool_use_blocks m)" using n by (simp add: out_def)
  have role: "msg_role out = User" using out by (simp add: answers_blocks_def)
  obtain r s2 where poll: "poll_steering e p turn s1 = (r, s2)" by (cases "poll_steering e p turn s1")
  have s2: "turn_open m s2" using poll_steering_fields[OF poll] s1 by (auto simp: turn_open_def)
  show ?thesis
  proof (cases r)
    case (Inl f)
    then have "tools_failed e p turn (Some out) f s2 = (c, s')"
      using assms(1) batch poll role by (simp add: dispatch_tools_def Let_def out_def)
    then show ?thesis using turn_open_answer[OF s2 out] by (auto intro: tools_failed_answered)
  next
    case (Inr steer)
    define out' where "out' = add_steer steer out"
    have out': "answers_blocks out' (tool_use_blocks m)"
      using steered_answers[OF out] out by (simp add: out'_def add_steer_def)
    obtain x s3 where save: "(case qe_persist_after e of None \<Rightarrow> (Inr (), s2) | Some f \<Rightarrow> call_back (f out') s2) = (x, s3)"
      by (cases "case qe_persist_after e of None \<Rightarrow> (Inr (), s2) | Some f \<Rightarrow> call_back (f out') s2")
    have s3: "turn_open m s3" using optional_call_back_fields[OF save] s2 by (auto simp: turn_open_def)
    note done' = turn_open_answer[OF s3 out', of e]
    have step: "dispatch_tools e p turn g (tool_use_blocks m) s =
      (case (x, s3) of
         (Inl _, s2) \<Rightarrow> tools_failed e p turn (Some out') (Storage_failure (Some out')) s2
       | (Inr _, s2) \<Rightarrow>
           if sf then tools_failed e p turn None (Storage_failure None) (push_and_yield e out' s2)
           else after_tools e p turn (tool_use_blocks m) (push_and_yield e out' s2))"
      using batch poll role Inr unfolding save[symmetric] out'_def out_def dispatch_tools_def Let_def
      by simp
    show ?thesis
    proof (cases x)
      case (Inl f)
      then have "tools_failed e p turn (Some out') (Storage_failure (Some out')) s3 = (c, s')"
        using step assms(1) by simp
      then show ?thesis by (rule tools_failed_answered) (simp add: done')
    next
      case (Inr u)
      then have "(if sf then tools_failed e p turn None (Storage_failure None) (push_and_yield e out' s3)
          else after_tools e p turn (tool_use_blocks m) (push_and_yield e out' s3)) = (c, s')"
        using step assms(1) by simp
      then show ?thesis
        using after_tools_answered[OF _ done'] tools_failed_answered[where pending = None] done'
        by (cases sf) simp_all
    qed
  qed
qed

lemma handle_calls_cases:
  assumes "handle_calls e p turn stop m g s = (c, s')"
    and "(case qe_persist_before e of None \<Rightarrow> (Inr (), s) | Some f \<Rightarrow> call_back (f m) s) = (x, s1)"
  obtains (cut) "tool_use_blocks m = []" "end_with e p Hit_max_tokens s = (c, s')"
  | (final) "tool_use_blocks m = []" "finish_answer e p turn m s = (c, s')"
  | (refused) why t u where "u = s \<or> u = s1" "refuse_calls e p g (tool_use_blocks m) why t u = (c, s')"
  | (dispatched) "dispatch_tools e p turn g (tool_use_blocks m) s1 = (c, s')"
proof -
  have "(tool_use_blocks m = [] \<and> (end_with e p Hit_max_tokens s = (c, s')
      \<or> finish_answer e p turn m s = (c, s')))
    \<or> (\<exists>why t. refuse_calls e p g (tool_use_blocks m) why t s = (c, s'))
    \<or> (\<exists>why t. refuse_calls e p g (tool_use_blocks m) why t s1 = (c, s'))
    \<or> dispatch_tools e p turn g (tool_use_blocks m) s1 = (c, s')"
    using assms(1) unfolding handle_calls_def Let_def assms(2)
    by (cases x) (auto split: if_splits)
  then show thesis using cut final refused dispatched by blast
qed

lemma handle_calls_answered:
  assumes "handle_calls e p turn stop m g s = (c, s')" "turn_open m s"
  shows "answered s'"
proof -
  obtain x s1 where save: "(case qe_persist_before e of None \<Rightarrow> (Inr (), s) | Some f \<Rightarrow> call_back (f m) s) = (x, s1)"
    by (cases "case qe_persist_before e of None \<Rightarrow> (Inr (), s) | Some f \<Rightarrow> call_back (f m) s")
  have s1: "turn_open m s1" using optional_call_back_fields[OF save] assms(2) by (auto simp: turn_open_def)
  from assms(1) save show ?thesis
  proof (cases rule: handle_calls_cases)
    case cut
    then show ?thesis using turn_open_done[OF assms(2)] end_with_answered by blast
  next
    case final
    then show ?thesis using turn_open_done[OF assms(2)] finish_answer_answered by blast
  next
    case (refused why t u)
    then have "turn_open m u" using assms(2) s1 by auto
    then show ?thesis by (rule refuse_calls_answered[OF refused(2)])
  next
    case dispatched
    then show ?thesis using s1 by (rule dispatch_tools_answered)
  qed
qed

lemma act_bind_result:
  assumes "act_bind m f s = (c, s')"
  obtains x s1 where "m s = (Go x, s1)" "f x s1 = (c, s')"
  | t where "m s = (Finish t, s')" "c = Finish t"
  | err where "m s = (Escape err, s')" "c = Escape err"
  using assms by (auto simp: act_bind_def split: prod.splits ctl.splits)

lemma handle_answer_answered:
  assumes "handle_answer e p turn a s = (c, s')" "answered s" "typed_answer a"
  shows "answered s'"
proof (cases "an_assistant a")
  case None
  then show ?thesis using assms(1,2) end_with_answered by (fastforce simp: handle_answer_def Let_def)
next
  case (Some m)
  let ?s = "push m (emit e (Traced Trace_response) s)"
  have "turn_open m ?s" using assms(2) by (intro turn_open_push) simp
  note guard = guard_turn_open[OF _ this, of e p]
  have "act_bind (guard_turn e p m) (handle_calls e p turn (an_stop a) m) ?s = (c, s')"
    using assms(1) Some by (simp add: handle_answer_def Let_def)
  then show ?thesis
    by (cases rule: act_bind_result) (use guard handle_calls_answered in \<open>fastforce+\<close>)
qed

lemma one_turn_answered:
  assumes "typed_provider e" "one_turn e p turn s = (c, s')" "answered s"
  shows "answered s'"
proof (cases "is_aborted e s")
  case True
  then show ?thesis using assms(2,3) by (auto simp: one_turn_def end_interrupted_def end_with_def)
next
  case False
  obtain r s1 where host: "host_yields e turn s = (r, s1)" by (cases "host_yields e turn s")
  have s1: "answered s1"
    using host call_back_fields assms(3)
    by (fastforce simp: host_yields_def answered_def split: option.splits if_splits)
  let ?s = "emit e (Traced (Trace_turn_start turn)) s1"
  show ?thesis
  proof (cases "r = Inr False")
    case False
    then show ?thesis using assms(2) host \<open>\<not> is_aborted e s\<close> s1
      by (cases r) (auto simp: one_turn_def split: bool.splits)
  next
    case True
    then have "act_bind (call_model e p turn (overflow_retries p) no_answer) (handle_answer e p turn) ?s = (c, s')"
      using assms(2) host False by (simp add: one_turn_def)
    moreover have "answered ?s" "typed_answer no_answer" using s1 by (simp_all add: typed_answer_def no_answer_def)
    note model = call_model_answered[OF assms(1) _ this]
    ultimately show ?thesis
      by (cases rule: act_bind_result) (use model handle_answer_answered in \<open>fastforce+\<close>)
  qed
qed

lemma stop_each_fields:
  "stop_each e is s = (f, s') \<Longrightarrow> q_history s' = q_history s \<and> q_budgets s' = q_budgets s
   \<and> (\<exists>stopped. q_log s' = q_log s @ map Stop_task stopped)"
proof (induction e "is" s arbitrary: f s' rule: stop_each.induct)
  case (2 e i "is" s)
  show ?case
  proof (cases "qe_task e i (q_world s)")
    case (Inl g)
    then show ?thesis using 2(1)[OF Inl, of "fst (stop_each e is s)" s'] 2(3) by auto
  next
    case (Inr v)
    then show ?thesis using 2(2)[OF Inr] 2(3)
      by (cases "task_live (Inr v)") (fastforce intro: exI[of _ "i # _"])+
  qed
qed (auto intro: exI[of _ "[]"])

lemma stop_tasks_fields:
  assumes "stop_tasks e s = (c, s')"
  shows "q_history s' = q_history s \<and> q_budgets s' = q_budgets s
    \<and> (\<exists>stopped. q_log s' = q_log s @ map Stop_task stopped)"
  using assms stop_each_fields[of e "q_tasks s" s "fst (stop_each e (q_tasks s) s)" s']
  by (auto simp: stop_tasks_def split: prod.splits option.splits)

lemma await_round_answered:
  assumes "await_round e p s = (c, s')" "answered s"
  shows "answered s'"
proof -
  have "answered s1" if "stop_tasks e s = (x, s1)" for x s1
    using stop_tasks_fields[OF that] assms(2) by (auto simp: answered_def list_all_iff)
  moreover have "answered (s\<lparr>q_tasks := ts\<rparr>)" "answered (s\<lparr>q_tasks := ts, q_world := w\<rparr>)" for ts w
    using assms(2) by (simp_all add: answered_def)
  ultimately show ?thesis using assms
    by (auto simp: await_round_def act_bind_def end_with_def Let_def
        split: if_splits prod.splits option.splits sum.splits ctl.splits)
qed

lemma query_step_answered:
  assumes "typed_provider e" "query_step e p ph s = (c, s')" "answered s"
  shows "answered s'"
proof (cases ph)
  case (At_turn turn)
  show ?thesis
  proof (cases "turn_allowed p turn")
    case True
    then have "act_bind (one_turn e p turn)
        (\<lambda>n. go (case n of Next_turn \<Rightarrow> At_turn (turn + 1) | Wait_tasks \<Rightarrow> At_tasks)) s = (c, s')"
      using assms(2) At_turn by simp
    then show ?thesis
      by (cases rule: act_bind_result) (use one_turn_answered assms in \<open>auto simp: go_def\<close>)
  next
    case False
    then show ?thesis using assms(2,3) At_turn by (auto simp: end_with_def)
  qed
next
  case At_tasks
  then have "act_bind (await_round e p) (\<lambda>_. go At_tasks) s = (c, s')" using assms(2) by simp
  then show ?thesis
    by (cases rule: act_bind_result) (use await_round_answered assms(3) in \<open>auto simp: go_def\<close>)
qed


section \<open>Stops and requests\<close>

text \<open>What a step adds to the log: nothing is asked, and a stop is only fired at the end.\<close>

fun ends :: "'a ctl \<Rightarrow> bool" where
  "ends (Go x) = False" | "ends (Finish t) = True" | "ends (Escape f) = True"

definition steady :: "query_params \<Rightarrow> bool \<Rightarrow> 'w query_state \<Rightarrow> 'w query_state \<Rightarrow> bool" where
  "steady p ended s s' \<longleftrightarrow> q_budgets s' = q_budgets s
     \<and> (\<exists>evs stop. q_log s' = q_log s @ evs @ stop \<and> list_all silent evs
          \<and> (stop = [] \<or> ended \<and> (\<exists>ev. stop = [ev] \<and> stop_of p ev)))"

lemma steadyI:
  "q_budgets s' = q_budgets s \<Longrightarrow> q_log s' = q_log s @ evs \<Longrightarrow> list_all silent evs \<Longrightarrow> steady p ended s s'"
  unfolding steady_def by (metis append.right_neutral)

lemma steady_refl [simp]: "steady p ended s s"
  by (rule steadyI[of _ _ "[]"]) simp_all

lemma steady_trans:
  assumes "steady p False s t" "steady p ended t u"
  shows "steady p ended s u"
proof -
  obtain evs where evs: "q_log t = q_log s @ evs" "list_all silent evs" "q_budgets t = q_budgets s"
    using assms(1) by (auto simp: steady_def)
  obtain evs' stop where e: "q_log u = q_log t @ evs' @ stop" "list_all silent evs'"
    "stop = [] \<or> ended \<and> (\<exists>ev. stop = [ev] \<and> stop_of p ev)" "q_budgets u = q_budgets t"
    using assms(2) by (auto simp: steady_def)
  show ?thesis
    unfolding steady_def
    by (intro conjI exI[of _ "evs @ evs'"] exI[of _ stop]) (use evs e in auto)
qed

lemma quiet_step_steady: "quiet_step s s' \<Longrightarrow> steady p ended s s'"
  by (auto simp: quiet_step_def intro: steadyI)

lemma steady_emit: "steady p False s t \<Longrightarrow> silent ev \<Longrightarrow> steady p ended s (emit e ev t)"
  by (rule steady_trans[of _ _ t]) (auto intro: steadyI[of _ _ "[ev]"])

lemma steady_push_and_yield: "steady p False s t \<Longrightarrow> steady p ended s (push_and_yield e m t)"
  by (rule steady_trans[of _ _ t]) (auto intro: steadyI[of _ _ "[Yield_message m]"])

lemma steady_same:
  "steady p False s t \<Longrightarrow> q_log u = q_log t \<Longrightarrow> q_budgets u = q_budgets t \<Longrightarrow> steady p ended s u"
  by (rule steady_trans[of _ _ t]) (auto intro: steadyI[of _ _ "[]"])

lemma steady_stop: "steady p False s t \<Longrightarrow> steady p True s (fire_stop e p r t)"
proof (rule steady_trans[of p _ t])
  have "qp_hooks p \<Longrightarrow> stop_of p (if qp_logical p then Stop_deferred r else Stop_hook r)" by simp
  then show "steady p True t (fire_stop e p r t)"
    unfolding steady_def
    by (intro conjI exI[of _ "[]"]
        exI[of _ "if qp_hooks p then [if qp_logical p then Stop_deferred r else Stop_hook r] else []"]) auto
qed

lemma steady_end: "steady p False s t \<Longrightarrow> end_with e p r t = (c, s') \<Longrightarrow> steady p (ends c) s s'"
  by (auto simp: end_with_def intro: steady_stop)

lemma steady_weaken: "steady p False s t \<Longrightarrow> steady p ended s t"
  by (rule steady_same) auto

lemma steady_report: "steady p False s t \<Longrightarrow> steady p False s (yield_report e f t)"
  by (auto simp: yield_report_def intro: steady_emit split: option.split)

lemma request_failed_steady:
  "request_failed e p turn f t = (c, s') \<Longrightarrow> steady p False s t \<Longrightarrow> steady p True s s' \<and> ends c"
  by (auto simp: request_failed_def end_interrupted_def end_with_def split: if_splits
      intro!: steady_stop steady_emit)

lemma recovery_failed_steady:
  "recovery_failed e p f t = (c, s') \<Longrightarrow> steady p False s t \<Longrightarrow> steady p True s s' \<and> ends c"
  by (auto simp: recovery_failed_def Let_def intro!: steady_stop steady_report)

lemma guard_turn_steady:
  assumes "guard_turn e p m s = (c, s')"
  shows "steady p (ends c) s s'"
proof -
  have noted: "steady p False s s1" if "note_detection e det (s\<lparr>q_detector := d\<rparr>) = (action, s1)" for det d action s1
    using note_detection_log[OF that] by (auto intro: steadyI)
  show ?thesis
    using assms
  proof (cases rule: guard_turn_cases)
    case (clean d)
    then show ?thesis by (auto intro: steadyI)
  next
    case (abort d det s1)
    have "steady p False s (if tool_use_blocks m = [] then s1
        else push_and_yield e (synthesize_tool_result_message (tool_use_blocks m)
               ''tool call interrupted by loop detector'') s1)"
      using noted[OF abort(1)] steady_push_and_yield[OF noted[OF abort(1)]] by simp
    then show ?thesis by (rule steady_end[OF _ abort(2)])
  next
    case (guide d det action)
    then show ?thesis using noted[OF guide(1)] by simp
  qed
qed

lemma tools_failed_steady:
  assumes "tools_failed e p turn pending f t = (c, s')" "steady p False s t"
  shows "steady p True s s' \<and> ends c"
proof -
  define t1 where "t1 = (case pending of None \<Rightarrow> t | Some m \<Rightarrow> push_and_yield e m t)"
  have "steady p False s t1"
    using assms(2) by (auto simp: t1_def intro: steady_push_and_yield split: option.split)
  then have "steady p True s (fire_stop e p r t1)"
    "steady p True s (fire_stop e p r (emit e (Traced tr) t1))" for r tr
    by (auto intro!: steady_stop steady_emit)
  then show ?thesis using assms(1) unfolding tools_failed_def Let_def t1_def[symmetric]
    by (auto simp: end_interrupted_def end_with_def split: if_splits)
qed

lemma refuse_calls_steady:
  "refuse_calls e p g blocks note r t = (c, s') \<Longrightarrow> steady p False s t \<Longrightarrow> steady p True s s' \<and> ends c"
  by (auto simp: refuse_calls_def end_with_def intro: steady_stop steady_push_and_yield)

lemma finish_answer_steady:
  assumes "finish_answer e p turn m s = (c, s')"
  shows "steady p (ends c) s s'"
proof -
  obtain r s1 where poll: "poll_steering e p turn s = (r, s1)" by (cases "poll_steering e p turn s")
  have s1: "steady p False s s1" using poll_steering_fields[OF poll] by (auto intro: steadyI)
  have sync: "steady p False s s2" if "call_back f s1 = (x, s2)" for f :: "('a, unit) callback" and x s2
    by (rule steady_same[OF s1]) (use call_back_fields[OF that] in auto)
  show ?thesis
    using assms poll s1 sync steady_push_and_yield[OF s1] steady_weaken[of _ s]
    by (auto simp: finish_answer_def split: sum.splits if_splits option.splits prod.splits)
qed

lemma compact_turn_steady: "steady p False s t \<Longrightarrow> steady p False s (compact_turn e p t)"
  by (auto simp: compact_turn_def Let_def split: prod.split intro!: steady_emit intro: steady_same)

lemma after_tools_steady:
  assumes "after_tools e p turn blocks t = (c, s')" "steady p False s t"
  shows "steady p (ends c) s s'"
proof -
  obtain r s1 where review: "(case qe_review e of None \<Rightarrow> (Inr (), t) | Some f \<Rightarrow> call_back f t) = (r, s1)"
    by (cases "case qe_review e of None \<Rightarrow> (Inr (), t) | Some f \<Rightarrow> call_back f t")
  have s1: "steady p False s s1"
    by (rule steady_same[OF assms(2)]) (use optional_call_back_fields[where h = "\<lambda>f. f", OF review] in auto)
  define s2 where "s2 = compact_turn e p (watch_stall e turn blocks (observe_turn e blocks s1))"
  have "steady p False s (observe_turn e blocks s1)"
    by (rule steady_same[OF s1]) (simp_all add: observe_turn_def Let_def)
  then have "steady p False s (watch_stall e turn blocks (observe_turn e blocks s1))"
    by (auto simp: watch_stall_def Let_def split: option.split intro!: steady_emit intro: steady_same)
  then have s2: "steady p False s s2" unfolding s2_def by (rule compact_turn_steady)
  then have s3: "steady p False s (s2\<lparr>q_tool_calls := n\<rparr>)" for n by (rule steady_same) simp_all
  show ?thesis
  proof (cases r)
    case (Inl f)
    then show ?thesis using assms(1) review tools_failed_steady[OF _ s1]
      by (fastforce simp: after_tools_def)
  next
    case (Inr u)
    then show ?thesis using assms(1) review s3 steady_stop[OF s3] steady_weaken[OF s3]
      by (auto simp: after_tools_def Let_def s2_def split: if_splits)
  qed
qed

lemma dispatch_tools_steady:
  assumes "dispatch_tools e p turn g blocks s = (c, s')"
  shows "steady p (ends c) s s'"
proof -
  obtain n sf s1 where batch: "run_batch e p blocks s = (n, sf, s1)" by (metis prod_cases3)
  have s1: "steady p False s s1"
    using batch by (auto simp: run_batch_def Let_def intro: steadyI split: prod.splits)
  define out where "out = consume_guidance g n"
  obtain r s2 where poll: "(if msg_role out = User then poll_steering e p turn s1 else (Inr None, s1)) = (r, s2)"
    by (cases "if msg_role out = User then poll_steering e p turn s1 else (Inr None, s1)")
  have s2: "steady p False s s2"
    by (rule steady_same[OF s1])
      (use poll poll_steering_fields[of e p turn s1 r s2] in \<open>auto split: if_splits\<close>)
  show ?thesis
  proof (cases r)
    case (Inl f)
    then have "tools_failed e p turn (Some out) f s2 = (c, s')"
      using assms(1) batch poll unfolding dispatch_tools_def Let_def out_def by simp
    then show ?thesis using tools_failed_steady[OF _ s2] by fastforce
  next
    case (Inr steer)
    define out' where "out' = add_steer steer out"
    obtain x s3 where save: "(case qe_persist_after e of None \<Rightarrow> (Inr (), s2) | Some f \<Rightarrow> call_back (f out') s2) = (x, s3)"
      by (cases "case qe_persist_after e of None \<Rightarrow> (Inr (), s2) | Some f \<Rightarrow> call_back (f out') s2")
    have s3: "steady p False s s3"
      by (rule steady_same[OF s2]) (use optional_call_back_fields[OF save] in auto)
    have s4: "steady p False s (push_and_yield e out' s3)" by (rule steady_push_and_yield[OF s3])
    have step: "dispatch_tools e p turn g blocks s =
      (case (x, s3) of
         (Inl _, s2) \<Rightarrow> tools_failed e p turn (Some out') (Storage_failure (Some out')) s2
       | (Inr _, s2) \<Rightarrow>
           if sf then tools_failed e p turn None (Storage_failure None) (push_and_yield e out' s2)
           else after_tools e p turn blocks (push_and_yield e out' s2))"
      using batch poll Inr unfolding save[symmetric] out'_def out_def dispatch_tools_def Let_def
      by simp
    show ?thesis
    proof (cases x)
      case (Inl f)
      then have "tools_failed e p turn (Some out') (Storage_failure (Some out')) s3 = (c, s')"
        using step assms(1) by simp
      then show ?thesis using tools_failed_steady[OF _ s3] by fastforce
    next
      case (Inr u)
      then have "(if sf then tools_failed e p turn None (Storage_failure None) (push_and_yield e out' s3)
          else after_tools e p turn blocks (push_and_yield e out' s3)) = (c, s')"
        using step assms(1) by simp
      then show ?thesis
        using after_tools_steady[OF _ s4] tools_failed_steady[OF _ s4] by (cases sf) fastforce+
    qed
  qed
qed

lemma handle_calls_steady:
  assumes "handle_calls e p turn stop m g s = (c, s')"
  shows "steady p (ends c) s s'"
proof -
  obtain x s1 where save: "(case qe_persist_before e of None \<Rightarrow> (Inr (), s) | Some f \<Rightarrow> call_back (f m) s) = (x, s1)"
    by (cases "case qe_persist_before e of None \<Rightarrow> (Inr (), s) | Some f \<Rightarrow> call_back (f m) s")
  have s1: "steady p False s s1"
    using optional_call_back_fields[OF save] by (auto intro: steadyI)
  from assms save show ?thesis
  proof (cases rule: handle_calls_cases)
    case cut
    then show ?thesis using steady_end[OF steady_refl] by blast
  next
    case final
    then show ?thesis using finish_answer_steady by blast
  next
    case (refused why t u)
    then have "steady p False s u" using s1 by auto
    then show ?thesis using refuse_calls_steady[OF refused(2)] by auto
  next
    case dispatched
    then show ?thesis using steady_trans[OF s1 dispatch_tools_steady] by blast
  qed
qed

lemma handle_answer_steady:
  assumes "handle_answer e p turn a s = (c, s')"
  shows "steady p (ends c) s s'"
proof (cases "an_assistant a")
  case None
  have "steady p False s (emit e (Traced Trace_response) s)" by (intro steady_emit) simp_all
  then show ?thesis using assms None steady_end by (fastforce simp: handle_answer_def Let_def)
next
  case (Some m)
  let ?s = "push m (emit e (Traced Trace_response) s)"
  have s: "steady p False s ?s" by (rule steadyI[of _ _ "[Traced Trace_response]"]) simp_all
  have "act_bind (guard_turn e p m) (handle_calls e p turn (an_stop a) m) ?s = (c, s')"
    using assms(1) Some by (simp add: handle_answer_def Let_def)
  then show ?thesis
  proof (cases rule: act_bind_result)
    case (1 x s1)
    have "steady p False ?s s1" using guard_turn_steady[OF 1(1)] by simp
    from steady_trans[OF steady_trans[OF s this] handle_calls_steady[OF 1(2)]] show ?thesis .
  next
    case (2 t)
    then show ?thesis using steady_trans[OF s] guard_turn_steady[OF 2(1)] by simp
  next
    case (3 err)
    then show ?thesis using steady_trans[OF s] guard_turn_steady[OF 3(1)] by simp
  qed
qed


text \<open>The log of a whole step: requests may be in it, a stop only at its end.\<close>

definition stop_last :: "query_params \<Rightarrow> bool \<Rightarrow> 'w query_state \<Rightarrow> 'w query_state \<Rightarrow> bool" where
  "stop_last p ended s s' \<longleftrightarrow>
     (\<exists>evs stop. q_log s' = q_log s @ evs @ stop \<and> list_all (\<lambda>ev. \<not> is_stop ev) evs
        \<and> (stop = [] \<or> ended \<and> (\<exists>ev. stop = [ev] \<and> stop_of p ev)))"

lemma steady_stop_last: "steady p ended s s' \<Longrightarrow> stop_last p ended s s'"
  by (auto simp: steady_def stop_last_def silent_def list_all_iff)

lemma stop_last_trans:
  assumes "stop_last p False s t" "stop_last p ended t u"
  shows "stop_last p ended s u"
proof -
  obtain evs where evs: "q_log t = q_log s @ evs" "list_all (\<lambda>ev. \<not> is_stop ev) evs"
    using assms(1) by (auto simp: stop_last_def)
  obtain evs' stop where e: "q_log u = q_log t @ evs' @ stop" "list_all (\<lambda>ev. \<not> is_stop ev) evs'"
    "stop = [] \<or> ended \<and> (\<exists>ev. stop = [ev] \<and> stop_of p ev)"
    using assms(2) by (auto simp: stop_last_def)
  show ?thesis
    unfolding stop_last_def
    by (intro exI[of _ "evs @ evs'"] exI[of _ stop]) (use evs e in auto)
qed

lemma stop_last_refl [simp]: "stop_last p ended s s"
  by (simp add: stop_last_def)

text \<open>The query's own budget has counted at least the requests of the log.\<close>

definition sent_count :: "'w query_state \<Rightarrow> nat" where
  "sent_count s = length (filter is_sent (q_log s))"

definition paid :: "query_params \<Rightarrow> nat \<Rightarrow> nat \<Rightarrow> 'w query_state \<Rightarrow> bool" where
  "paid p base n s \<longleftrightarrow>
     qp_budget p < length (q_budgets s)
     \<and> cb_limit (q_budgets s ! qp_budget p) = Some (Num (of_nat n))
     \<and> (\<exists>u. cb_used (q_budgets s ! qp_budget p) = Num (of_nat u) \<and> u \<le> n \<and> sent_count s \<le> base + u)"

lemma steady_paid:
  assumes "steady p ended s s'" "paid p base n s"
  shows "paid p base n s'"
proof -
  obtain evs stop where "q_log s' = q_log s @ evs @ stop" "list_all silent evs"
    "stop = [] \<or> (\<exists>ev. stop = [ev] \<and> stop_of p ev)" "q_budgets s' = q_budgets s"
    using assms(1) by (auto simp: steady_def)
  moreover from this have "filter is_sent evs = []" "filter is_sent stop = []"
    by (auto simp: filter_empty_conv silent_def list_all_iff elim: stop_of.elims)
  ultimately show ?thesis using assms(2) by (auto simp: paid_def sent_count_def)
qed

definition counted :: "budget_store \<Rightarrow> nat \<Rightarrow> nat \<Rightarrow> nat \<Rightarrow> bool" where
  "counted store i n u \<longleftrightarrow> i < length store \<and> cb_limit (store ! i) = Some (Num (of_nat n))
     \<and> cb_used (store ! i) = Num (of_nat u) \<and> u \<le> n"

lemma charge_counted:
  assumes "charge_model_call store k = (r, store')" "counted store i n u"
  shows "\<exists>u'. counted store' i n u' \<and> u \<le> u' \<and> (r = Inr True \<and> k = i \<longrightarrow> u < u')"
proof -
  have i: "i < length store" using assms(2) by (simp add: counted_def)
  have shape: "same_shape store store'" using charge_same_shape[of store k] assms(1) by simp
  have own: "charged_to store i k" if granted: "r = Inr True" "k = i"
  proof -
    obtain path where p: "budget_chain store (Some i) path"
      by (cases rule: charge_cases[of store k]) (use assms(1) granted in auto)
    then have "i \<in> set path" using i by (cases path) (auto simp: budget_node_def split: option.splits)
    with p granted(2) show ?thesis by (auto simp: charged_to_def)
  qed
  show ?thesis
  proof (cases "r = Inr True \<and> charged_to store i k")
    case True
    then have room: "has_room (store ! i)" and used: "cb_used (store' ! i) = Num (of_nat (Suc u))"
      using charge_effect[OF assms(1) i] assms(2) by (auto simp: counted_def)
    have "cb_limit (store ! i) = Some (Num (of_nat n))" "cb_used (store ! i) = Num (of_nat u)"
      using assms(2) by (auto simp: counted_def)
    from has_room_limit[OF room this] have "Suc u \<le> n" by (simp only: of_nat_le_iff)
    then have "counted store' i n (Suc u)"
      using used shape i assms(2) by (auto simp: counted_def same_shape_def)
    then show ?thesis by (intro exI[of _ "Suc u"]) simp
  next
    case False
    then have "store' ! i = store ! i" using charge_effect[OF assms(1) i] by auto
    moreover have "length store' = length store" using shape by (simp add: same_shape_def)
    ultimately have "counted store' i n u" using assms(2) by (simp add: counted_def)
    then show ?thesis using own False by (intro exI[of _ u]) auto
  qed
qed

lemma budget_events_counted:
  "counted store i n u \<Longrightarrow> \<exists>u'. counted (fold budget_event evs store) i n u' \<and> u \<le> u'"
proof (induction evs arbitrary: store u)
  case (Cons ev evs)
  have "\<exists>u'. counted (budget_event ev store) i n u' \<and> u \<le> u'"
  proof (cases ev)
    case (New_budget b)
    then show ?thesis using Cons.prems by (auto simp: counted_def nth_append)
  next
    case (Charge_budget k)
    obtain r store' where c: "charge_model_call store k = (r, store')" by (cases "charge_model_call store k")
    then show ?thesis using charge_counted[OF c Cons.prems] Charge_budget by auto
  qed
  then obtain u' where u': "counted (budget_event ev store) i n u'" "u \<le> u'" by blast
  from Cons.IH[OF u'(1)] u'(2) show ?case by (auto intro: order_trans)
qed auto

lemma charge_request_paid:
  assumes "charge_request e p s = (r, s')" "paid p base n s"
  shows "paid p base n s' \<and> (r = Inr True \<longrightarrow> paid p base n (emit e (Sent rq) s'))"
proof -
  obtain u where u: "counted (q_budgets s) (qp_budget p) n u" "sent_count s \<le> base + u"
    using assms(2) by (auto simp: paid_def counted_def)
  let ?store = "fold budget_event (qe_budget_events e (q_world s)) (q_budgets s)"
  obtain v where v: "counted ?store (qp_budget p) n v" "u \<le> v" using budget_events_counted[OF u(1)] by blast
  obtain r' store' where ch: "charge_model_call ?store (qp_budget p) = (r', store')"
    by (cases "charge_model_call ?store (qp_budget p)")
  then have s': "r' = r" "s' = s\<lparr>q_budgets := store'\<rparr>"
    using assms(1) by (auto simp: charge_request_def Let_def)
  obtain w where w: "counted store' (qp_budget p) n w" "v \<le> w" "r = Inr True \<longrightarrow> v < w"
    using charge_counted[OF ch v(1)] s'(1) by blast
  have "paid p base n s'"
    unfolding paid_def using w(1,2) v(2) u(2) s'(2) by (auto simp: counted_def sent_count_def)
  moreover have "paid p base n (emit e (Sent rq) s')" if "r = Inr True"
    unfolding paid_def using w v(2) u(2) s'(2) that by (auto simp: counted_def sent_count_def)
  ultimately show ?thesis by blast
qed

text \<open>Both facts of a call of the model.\<close>

definition fair_step :: "query_params \<Rightarrow> bool \<Rightarrow> 'w query_state \<Rightarrow> 'w query_state \<Rightarrow> bool" where
  "fair_step p ended s s' \<longleftrightarrow>
     stop_last p ended s s' \<and> (\<forall>base n. paid p base n s \<longrightarrow> paid p base n s')"

lemma steady_fair: "steady p ended s s' \<Longrightarrow> fair_step p ended s s'"
  using steady_stop_last steady_paid by (auto simp: fair_step_def)

lemma fair_trans: "fair_step p False s t \<Longrightarrow> fair_step p ended t u \<Longrightarrow> fair_step p ended s u"
  using stop_last_trans by (auto simp: fair_step_def)

lemma fair_charge:
  assumes "charge_request e p s = (r, s')"
  shows "fair_step p ended s s'"
proof -
  have "stop_last p ended s s'" using charge_request_fields[OF assms] by (simp add: stop_last_def)
  then show ?thesis using charge_request_paid[OF assms] by (simp add: fair_step_def)
qed

lemma fair_sent:
  assumes "charge_request e p s = (Inr True, s')"
  shows "fair_step p ended s (emit e (Sent rq) s')"
proof -
  have "stop_last p ended s (emit e (Sent rq) s')"
    using charge_request_fields[OF assms] unfolding stop_last_def
    by (intro exI[of _ "[Sent rq]"] exI[of _ "[]"]) simp
  then show ?thesis using charge_request_paid[OF assms] by (simp add: fair_step_def)
qed

lemma call_model_fair:
  "call_model e p turn retries a s = (c, s') \<Longrightarrow> fair_step p (ends c) s s'"
proof (induction retries arbitrary: a s rule: less_induct)
  case (less retries)
  have sent: "fair_step p False s s3"
    if "quiet_step s s1" "charge_request e p s1 = (Inr True, s2)"
      "consume_stream e (qe_stream e rq (q_world (emit e (Sent rq) s2))) a (emit e (Sent rq) s2) = (fr, a', s3)"
    for rq s1 s2 a' s3 fr
  proof -
    have "quiet_step (emit e (Sent rq) s2) s3" using consume_stream_effect[OF that(3)] by blast
    then show ?thesis
      using fair_trans[OF steady_fair[OF quiet_step_steady[OF that(1)]] fair_sent[OF that(2)]]
        steady_fair[OF quiet_step_steady] fair_trans by blast
  qed
  have failing: "fair_step p (ends c) s s'"
    if "fair_step p False s t" "request_failed e p turn f u = (c, s')" "steady p False t u" for t f u
    using fair_trans[OF that(1) steady_fair] request_failed_steady[OF that(2,3)] by auto
  show ?case
  proof (cases rule: call_model_cases[of s e p turn retries a])
    case (unprepared f s1)
    have "steady p False s (yield_report e f s1)"
      using quiet_step_steady[OF unprepared(1)] by (rule steady_report)
    then show ?thesis
      using failing[OF steady_fair[OF steady_refl]] less.prems unprepared(2) by simp
  next
    case (uncharged s1 err s2)
    have "fair_step p False s s2"
      using fair_trans[OF steady_fair[OF quiet_step_steady[OF uncharged(1)]] fair_charge[OF uncharged(2)]] .
    then show ?thesis using failing[OF _ _ steady_refl] less.prems uncharged(3) by simp
  next
    case (ceiling s1 s2)
    have s2: "fair_step p False s s2"
      using fair_trans[OF steady_fair[OF quiet_step_steady[OF ceiling(1)]] fair_charge[OF ceiling(2)]] .
    have "end_with e p Hit_max_turns s2 = (c, s')" using less.prems ceiling(3) by simp
    from fair_trans[OF s2 steady_fair[OF steady_end[OF steady_refl this]]] show ?thesis .
  next
    case (answer rq s1 s2 a' s3)
    then show ?thesis using sent[OF answer(1,3,4)] less.prems by auto
  next
    case (failed rq s1 s2 f a' s3)
    have "request_failed e p turn f (yield_report e f s3) = (c, s')" using less.prems failed(5) by simp
    from failing[OF sent[OF failed(1,3,4)] this steady_report[OF steady_refl]] show ?thesis .
  next
    case (unrecovered rq s1 s2 f a' s3 g s4)
    have "recovery_failed e p g s4 = (c, s')" using less.prems unrecovered(6) by simp
    from recovery_failed_steady[OF this quiet_step_steady[OF unrecovered(5)]] show ?thesis
      using fair_trans[OF sent[OF unrecovered(1,3,4)] steady_fair] by auto
  next
    case (again rq s1 s2 f a' s3 left s4)
    have "fair_step p (ends c) s4 s'" by (rule less.IH[of left a']) (use again less.prems in auto)
    then show ?thesis
      using fair_trans[OF fair_trans[OF sent[OF again(1,3,4)] steady_fair[OF quiet_step_steady[OF again(5)]]]]
      by blast
  qed
qed


lemma one_turn_fair:
  assumes "one_turn e p turn s = (c, s')"
  shows "fair_step p (ends c) s s'"
proof (cases "is_aborted e s")
  case True
  then show ?thesis using assms
    by (auto simp: one_turn_def end_interrupted_def end_with_def
        intro!: steady_fair steady_stop steady_emit)
next
  case False
  obtain r s1 where host: "host_yields e turn s = (r, s1)" by (cases "host_yields e turn s")
  have s1: "steady p False s s1"
    using host call_back_fields[of _ s r s1]
    by (auto simp: host_yields_def intro: steadyI split: option.splits if_splits)
  let ?s = "emit e (Traced (Trace_turn_start turn)) s1"
  show ?thesis
  proof (cases "r = Inr False")
    case False
    then have "s' = s1" "ends c" using assms host \<open>\<not> is_aborted e s\<close>
      by (cases r; auto simp: one_turn_def split: bool.splits)+
    then show ?thesis using steady_fair[OF steady_weaken[OF s1]] by simp
  next
    case True
    then have run: "act_bind (call_model e p turn (overflow_retries p) no_answer) (handle_answer e p turn) ?s = (c, s')"
      using assms host False by (simp add: one_turn_def)
    have s: "fair_step p False s ?s" using s1 by (intro steady_fair steady_emit) simp_all
    from run show ?thesis
    proof (cases rule: act_bind_result)
      case (1 a s2)
      have "fair_step p False ?s s2" using call_model_fair[OF 1(1)] by simp
      from fair_trans[OF fair_trans[OF s this] steady_fair[OF handle_answer_steady[OF 1(2)]]] show ?thesis .
    next
      case (2 t)
      then show ?thesis using fair_trans[OF s] call_model_fair[OF 2(1)] by simp
    next
      case (3 err)
      then show ?thesis using fair_trans[OF s] call_model_fair[OF 3(1)] by simp
    qed
  qed
qed

lemma await_round_fair:
  assumes "await_round e p s = (c, s')"
  shows "fair_step p (ends c) s s'"
proof -
  have "steady p False s s1" if stop: "stop_tasks e s = (x, s1)" for x s1
  proof -
    obtain stopped where "q_log s1 = q_log s @ map Stop_task stopped" "q_budgets s1 = q_budgets s"
      using stop_tasks_fields[OF stop] by blast
    then show ?thesis by (intro steadyI) (auto simp: list_all_iff)
  qed
  moreover have "steady p b s (s\<lparr>q_tasks := ts\<rparr>)" "steady p b s (s\<lparr>q_tasks := ts, q_world := w\<rparr>)" for b ts w
    by (auto intro: steadyI)
  ultimately show ?thesis using assms
    by (auto simp: await_round_def act_bind_def end_with_def Let_def
        split: if_splits prod.splits option.splits sum.splits ctl.splits
        intro!: steady_fair steady_stop intro: steady_weaken)
qed

lemma query_step_fair:
  assumes "query_step e p ph s = (c, s')"
  shows "fair_step p (ends c) s s'"
proof (cases ph)
  case (At_turn turn)
  show ?thesis
  proof (cases "turn_allowed p turn")
    case True
    then have "act_bind (one_turn e p turn)
        (\<lambda>n. go (case n of Next_turn \<Rightarrow> At_turn (turn + 1) | Wait_tasks \<Rightarrow> At_tasks)) s = (c, s')"
      using assms At_turn by simp
    then show ?thesis
      by (cases rule: act_bind_result) (auto simp: go_def dest!: one_turn_fair)
  next
    case False
    then show ?thesis using assms At_turn
      by (auto simp: end_with_def intro!: steady_fair steady_stop)
  qed
next
  case At_tasks
  then have "act_bind (await_round e p) (\<lambda>_. go At_tasks) s = (c, s')" using assms by simp
  then show ?thesis
    by (cases rule: act_bind_result) (auto simp: go_def dest!: await_round_fair)
qed

section \<open>Runs\<close>

lemma run_query_induct:
  assumes "run_query e p ph s = Some (r, s')"
    and again: "\<And>ph s ph' s1 r s'. query_step e p ph s = (Go ph', s1) \<Longrightarrow> P ph' s1 r s' \<Longrightarrow> P ph s r s'"
    and finish: "\<And>ph s t s'. query_step e p ph s = (Finish t, s') \<Longrightarrow> P ph s (Inr t) s'"
    and escape: "\<And>ph s f s'. query_step e p ph s = (Escape f, s') \<Longrightarrow> P ph s (Inl f) s'"
  shows "P ph s r s'"
proof -
  have "e = e \<longrightarrow> p = p \<longrightarrow> P ph s (fst (r, s')) (snd (r, s'))"
  proof (rule run_query.raw_induct[where P = "\<lambda>e' p' ph s y. e' = e \<longrightarrow> p' = p \<longrightarrow> P ph s (fst y) (snd y)"])
    fix run e' p' ph s y
    assume ih: "\<And>e' p' ph s y. run e' p' ph s = Some y \<Longrightarrow> e' = e \<longrightarrow> p' = p \<longrightarrow> P ph s (fst y) (snd y)"
      and body: "(case query_step e' p' ph s of (Go ph', s') \<Rightarrow> run e' p' ph' s'
        | (Finish t, s') \<Rightarrow> Some (Inr t, s') | (Escape f, s') \<Rightarrow> Some (Inl f, s')) = Some y"
    show "e' = e \<longrightarrow> p' = p \<longrightarrow> P ph s (fst y) (snd y)"
    proof (intro impI)
      assume e: "e' = e" "p' = p"
      obtain c s1 where step: "query_step e p ph s = (c, s1)" by (cases "query_step e p ph s")
      show "P ph s (fst y) (snd y)"
      proof (cases c)
        case (Go ph')
        then have "run e p ph' s1 = Some y" using body step e by simp
        then show ?thesis using ih again step Go by blast
      next
        case (Finish t)
        then show ?thesis using body step e finish by auto
      next
        case (Escape f)
        then show ?thesis using body step e escape by auto
      qed
    qed
  qed (rule assms(1))
  then show ?thesis by simp
qed

lemma run_query_answered:
  assumes "typed_provider e" "run_query e p ph s = Some (r, s')"
  shows "answered s \<longrightarrow> answered s'"
  by (rule run_query_induct[OF assms(2)]) (use query_step_answered[OF assms(1)] in blast)+

lemma run_query_fair:
  assumes "run_query e p ph s = Some (r, s')"
  shows "fair_step p True s s'"
proof (rule run_query_induct[OF assms])
  fix ph s ph' s1 s'
  assume "query_step e p ph s = (Go ph', s1)" "fair_step p True s1 s'"
  then show "fair_step p True s s'" using fair_trans[of p s s1 True s'] query_step_fair by fastforce
next
  fix ph s t s'
  assume "query_step e p ph s = (Finish t, s')"
  then show "fair_step p True s s'" using query_step_fair by fastforce
next
  fix ph s f s'
  assume "query_step e p ph s = (Escape f, s')"
  then show "fair_step p True s s'" using query_step_fair by fastforce
qed


section \<open>Termination\<close>

text \<open>While the query waits for its tasks only the host's clock runs; the tasks it owns end.\<close>

definition tasks_end :: "'w query_env \<Rightarrow> bool" where
  "tasks_end e \<longleftrightarrow> (\<forall>w. \<exists>k. \<forall>i. \<not> task_live (qe_task e i ((qe_sleep e ^^ k) w)))"

lemma check_tasks_settled:
  "(\<forall>i. \<not> task_live (look i)) \<Longrightarrow> check_tasks look is = (None, pending) \<Longrightarrow> pending = []"
  by (induction "is" arbitrary: pending)
    (auto simp: task_live_def split: option.splits sum.splits task_state.splits)

lemma await_terminates:
  "(\<forall>i. \<not> task_live (qe_task e i ((qe_sleep e ^^ k) (q_world s)))) \<Longrightarrow>
     \<exists>r. run_query e p At_tasks s = Some r"
proof (induction k arbitrary: s)
  case 0
  then have settled: "\<forall>i. \<not> task_live (qe_task e i (q_world s))" by simp
  have "ends (fst (await_round e p s))"
    using check_tasks_settled[OF settled, of "q_tasks s"]
    by (auto simp: await_round_def act_bind_def end_with_def Let_def
        split: prod.split option.split sum.split ctl.split)
  then show ?case
    by (subst run_query.simps) (auto simp: act_bind_def split: prod.splits ctl.splits)
next
  case (Suc k)
  obtain c s1 where round: "await_round e p s = (c, s1)" by (cases "await_round e p s")
  show ?case
  proof (cases c)
    case (Go u)
    then have "q_world s1 = qe_sleep e (q_world s)"
      using round by (auto simp: await_round_def act_bind_def end_with_def Let_def
          split: if_splits prod.splits option.splits sum.splits ctl.splits)
    then have "\<exists>r. run_query e p At_tasks s1 = Some r"
      using Suc.prems by (intro Suc.IH) (simp add: funpow_swap1)
    then show ?thesis using round Go by (subst run_query.simps) (simp add: act_bind_def go_def)
  next
    case (Finish t)
    then show ?thesis using round by (subst run_query.simps) (simp add: act_bind_def)
  next
    case (Escape f)
    then show ?thesis using round by (subst run_query.simps) (simp add: act_bind_def)
  qed
qed

lemma run_query_bounded:
  assumes "tasks_end e" and bound: "\<not> turn_allowed p n" and mono: "\<And>k. n \<le> k \<Longrightarrow> \<not> turn_allowed p k"
  shows "\<exists>r. run_query e p (At_turn k) s = Some r"
proof (induction "n - k" arbitrary: k s rule: less_induct)
  case less
  show ?case
  proof (cases "turn_allowed p k")
    case False
    then show ?thesis by (subst run_query.simps) (simp add: end_with_def)
  next
    case True
    then have "k < n" using mono by (metis not_le)
    obtain c s1 where turn: "one_turn e p k s = (c, s1)" by (cases "one_turn e p k s")
    have await: "\<exists>r. run_query e p At_tasks s1 = Some r"
      using assms(1) await_terminates unfolding tasks_end_def by blast
    have "\<exists>r. run_query e p (At_turn (k + 1)) s1 = Some r"
      using \<open>k < n\<close> by (intro less) simp
    then show ?thesis
      using True turn await
      by (subst run_query.simps)
        (cases c; auto simp: act_bind_def go_def split: next_step.split)
  qed
qed

lemma start_query_ends:
  assumes "qp_max_turns p = Some limit \<or> qp_slice p = Some limit"
    and "tasks_end e"
  shows "\<exists>r. start_query e p inherited s = Some r"
proof (cases "invalid_count (qp_max_turns p) \<or> invalid_count (qp_slice p)")
  case True
  then show ?thesis by (auto simp: start_query_def)
next
  case False
  let ?p = "p\<lparr>qp_budget := length (q_budgets s)\<rparr>"
  have "\<not> turn_allowed ?p k" if "number_to_nat limit \<le> k" for k
    using assms(1) that by (auto simp: turn_allowed_def)
  then show ?thesis
    using run_query_bounded[OF assms(2), of ?p "number_to_nat limit"] False
    by (simp add: start_query_def Let_def)
qed

section \<open>Properties\<close>

text \<open>C1: The turn loop never sends a transcript with an unanswered tool call, and never leaves one behind.
  If every call of the incoming history is answered by the message after it, then so it is in the history
  of every request (retries after an overflow included) and in the history at the end, whether the
  query completes, is interrupted, refuses calls, fails, or lets a host's failure escape.\<close>
theorem query_answers_calls:
  assumes "typed_provider e"
    and "start_query e p inherited s = Some (r, s')"
    and "calls_answered (q_history s)" and "q_log s = []"
  shows "calls_answered (q_history s') \<and> list_all sent_ok (q_log s')"
proof (cases "invalid_count (qp_max_turns p) \<or> invalid_count (qp_slice p)")
  case True
  then show ?thesis using assms by (auto simp: start_query_def split: if_splits)
next
  case False
  define s1 where "s1 = s\<lparr>q_budgets := q_budgets s
    @ [\<lparr>cb_limit = qp_max_turns p, cb_used = Num 0, cb_parent = inherited\<rparr>]\<rparr>"
  have "run_query e (p\<lparr>qp_budget := length (q_budgets s)\<rparr>) (At_turn 0) s1 = Some (r, s')"
    using assms(2) False by (simp add: start_query_def Let_def s1_def)
  from run_query_answered[OF assms(1) this] show ?thesis
    using assms(3,4) by (simp add: answered_def s1_def)
qed

text \<open>C4: A query with a turn ceiling, or one run in slices, ends: whatever the provider, the tools and
  the host answer, some result is returned, as long as the background tasks it waits for end.\<close>
theorem query_terminates:
  assumes "qp_max_turns p = Some limit \<or> qp_slice p = Some limit"
    and "tasks_end e"
  shows "\<exists>r. start_query e p inherited s = Some r"
  using assms by (rule start_query_ends)

text \<open>C5: The turn ceiling bounds the requests, not just the turns. A query with a ceiling of \<open>n\<close> sends
  at most \<open>n\<close> requests to the provider, the repeated ones after an overflow included, whatever other
  queries charge to the budgets in the meantime.\<close>
theorem query_request_ceiling:
  assumes "start_query e p inherited s = Some (r, s')"
    and "qp_max_turns p = Some (Num (of_nat n))" and "q_log s = []"
  shows "length (filter is_sent (q_log s')) \<le> n"
proof (cases "invalid_count (qp_max_turns p) \<or> invalid_count (qp_slice p)")
  case True
  then show ?thesis using assms by (auto simp: start_query_def split: if_splits)
next
  case False
  define s1 where "s1 = s\<lparr>q_budgets := q_budgets s
    @ [\<lparr>cb_limit = qp_max_turns p, cb_used = Num 0, cb_parent = inherited\<rparr>]\<rparr>"
  let ?p = "p\<lparr>qp_budget := length (q_budgets s)\<rparr>"
  have run: "run_query e ?p (At_turn 0) s1 = Some (r, s')"
    using assms(1) False by (simp add: start_query_def Let_def s1_def)
  have "paid ?p 0 n s1"
    using assms(2,3) by (auto simp: paid_def sent_count_def s1_def intro!: exI[of _ 0])
  then have "paid ?p 0 n s'" using run_query_fair[OF run] by (simp add: fair_step_def)
  then show ?thesis by (auto simp: paid_def sent_count_def)
qed

text \<open>C6: The Stop hook is told of the end of a query at most once, and only when nothing follows: after
  it the query neither asks the provider nor yields anything. Who is told depends on the query: one that
  has hooks calls the hook itself, a segment of a supervised turn never calls it and leaves the end to
  its supervisor, and a query without hooks tells nobody.\<close>
theorem query_stop_once:
  assumes "start_query e p inherited s = Some (r, s')" and "q_log s = []"
  shows "list_all (\<lambda>ev. \<not> is_stop ev) (butlast (q_log s'))
    \<and> list_all (\<lambda>ev. is_stop ev \<longrightarrow> stop_of p ev) (q_log s')"
proof (cases "invalid_count (qp_max_turns p) \<or> invalid_count (qp_slice p)")
  case True
  then show ?thesis using assms by (auto simp: start_query_def split: if_splits)
next
  case False
  define s1 where "s1 = s\<lparr>q_budgets := q_budgets s
    @ [\<lparr>cb_limit = qp_max_turns p, cb_used = Num 0, cb_parent = inherited\<rparr>]\<rparr>"
  have "run_query e (p\<lparr>qp_budget := length (q_budgets s)\<rparr>) (At_turn 0) s1 = Some (r, s')"
    using assms(1) False by (simp add: start_query_def Let_def s1_def)
  from run_query_fair[OF this] have "stop_last (p\<lparr>qp_budget := length (q_budgets s)\<rparr>) True s1 s'"
    by (simp add: fair_step_def)
  then obtain evs stop where "q_log s' = evs @ stop" "list_all (\<lambda>ev. \<not> is_stop ev) evs"
    "stop = [] \<or> (\<exists>ev. stop = [ev] \<and> stop_of p ev)"
    using assms(2) stop_of_budget by (auto simp: stop_last_def s1_def)
  then show ?thesis by (auto simp: list_all_iff butlast_append dest: in_set_butlastD)
qed

section \<open>A run\<close>

text \<open>A provider that calls a tool in its first answer and says it is done in the second; the world
  counts the requests.\<close>

definition demo_tool :: tool where
  "demo_tool = \<lparr>tool_name = ''Read'', tool_json_schema = True, tool_parse = (\<lambda>j. Returned (Inr j)),
     tool_validate_input = None,
     tool_call = (\<lambda>l j. Returned \<lparr>ret_data = Some (JString ''text''), ret_observation = None,
       ret_new_messages = None\<rparr>),
     tool_render = None, tool_concurrency_safe = (\<lambda>j. Returned True), tool_read_only = (\<lambda>j. Returned True),
     tool_affected_paths = None\<rparr>"

definition demo_host :: host where
  "demo_host = \<lparr>host_can_use = None, host_hooks = None, host_floor = None, host_aborted = (\<lambda>l. False),
     host_observe = None, host_trace = (\<lambda>l t. Returned ()), host_persist = None, host_hints = None\<rparr>"

definition demo_stream :: "request \<Rightarrow> nat \<Rightarrow> nat model_stream" where
  "demo_stream rq w =
     Stream_item (Assistant_message (assistant_message
       (if w = 1 then [Tool_use ''t1'' ''Read'' JNull] else [Text_block ''done'']))) w
       (\<lambda>w. Stream_item (Message_stop (if w = 1 then Stop_tool_use else End_turn)) w Stream_end)"

fun demo_react :: "query_event \<Rightarrow> nat \<Rightarrow> nat" where
  "demo_react (Sent rq) w = w + 1" | "demo_react _ w = w"

definition demo_env :: "nat query_env" where
  "demo_env = \<lparr>qe_react = demo_react, qe_aborted = (\<lambda>w. False), qe_kill = (\<lambda>w. False),
     qe_stream = demo_stream, qe_validate = (\<lambda>rq. None), qe_count = (\<lambda>rq. Inr (Num 100, True)),
     qe_reduce = None, qe_abort_message = (\<lambda>w. None), qe_on_reduced = None, qe_boundary = None,
     qe_steering = None, qe_sync = None, qe_persist_before = None, qe_persist_after = None,
     qe_review = None, qe_host = (\<lambda>w. demo_host), qe_after_tools = (\<lambda>l w. w),
     qe_created_tasks = (\<lambda>w. []), qe_task = (\<lambda>i w. Inr None), qe_stopped = (\<lambda>w. None), qe_sleep = (\<lambda>w. w),
     qe_budget_events = (\<lambda>w. []), qe_describe = (\<lambda>t. []), qe_sha256 = (\<lambda>s. s),
     qe_encode = (\<lambda>m. [])\<rparr>"

definition demo_params :: query_params where
  "demo_params = \<lparr>qp_model = ''m'', qp_provider = ''p'', qp_metadata = None, qp_descriptions = False,
     qp_tools = [demo_tool], qp_has_context = True, qp_max_turns = Some (Num (of_nat 3)), qp_slice = None,
     qp_limits = Some \<lparr>lim_context = 1000, lim_output = 200\<rparr>, qp_output_ceiling = 200,
     qp_context_limits = None, qp_checkin = None, qp_microcompact = default_microcompact_config,
     qp_hooks = True, qp_logical = False, qp_user_text = None, qp_home = ''/home'', qp_cwd = ''/w'',
     qp_budget = 0\<rparr>"

definition demo_state :: "nat query_state" where
  "demo_state = \<lparr>q_world = 0, q_history = [user_message [Text_block ''hi'']], q_system = [],
     q_detector = ld_new no_loop_options, q_strikes = 0, q_tool_calls = 0, q_summaries = [],
     q_budgets = [], q_tasks = [], q_log = []\<rparr>"

lemma demo_typed: "typed_provider demo_env"
  by (simp add: typed_provider_def demo_env_def demo_stream_def assistant_message_def)

lemma demo_tasks_end: "tasks_end demo_env"
  by (simp add: tasks_end_def demo_env_def task_live_def)

lemma demo_run: "\<exists>r s. start_query demo_env demo_params None demo_state = Some (r, s)"
proof -
  have "qp_max_turns demo_params = Some (Num (of_nat 3)) \<or> qp_slice demo_params = Some (Num (of_nat 3))"
    by (simp add: demo_params_def)
  from start_query_ends[OF this demo_tasks_end] show ?thesis by auto
qed

theorem query_answers_calls_witness:
  "\<exists>r s. start_query demo_env demo_params None demo_state = Some (r, s)
     \<and> calls_answered (q_history s) \<and> list_all sent_ok (q_log s)"
proof -
  obtain r s where run: "start_query demo_env demo_params None demo_state = Some (r, s)"
    using demo_run by blast
  have "calls_answered (q_history demo_state)" "q_log demo_state = []"
    by (simp_all add: demo_state_def calls_answered_Cons_iff)
  from query_answers_calls[OF demo_typed run this] run show ?thesis by blast
qed

theorem query_terminates_witness:
  "\<exists>r. start_query demo_env demo_params None demo_state = Some r"
  by (rule query_terminates[where limit = "Num (of_nat 3)"])
    (simp_all add: demo_params_def demo_tasks_end)

theorem query_request_ceiling_witness:
  "\<exists>r s. start_query demo_env demo_params None demo_state = Some (r, s)
     \<and> length (filter is_sent (q_log s)) \<le> 3"
proof -
  obtain r s where run: "start_query demo_env demo_params None demo_state = Some (r, s)"
    using demo_run by blast
  have "qp_max_turns demo_params = Some (Num (of_nat 3))" "q_log demo_state = []"
    by (simp_all add: demo_params_def demo_state_def)
  from query_request_ceiling[OF run this] run show ?thesis by blast
qed

theorem query_stop_once_witness:
  "\<exists>r s. start_query demo_env demo_params None demo_state = Some (r, s)
     \<and> list_all (\<lambda>ev. is_stop ev \<longrightarrow> stop_of demo_params ev) (q_log s)
     \<and> \<not> stop_of (demo_params\<lparr>qp_logical := True\<rparr>) (Stop_hook End_completed)"
proof -
  obtain r s where run: "start_query demo_env demo_params None demo_state = Some (r, s)"
    using demo_run by blast
  have "q_log demo_state = []" by (simp add: demo_state_def)
  from query_stop_once[OF run this] run show ?thesis by auto
qed

end
