(* ===== verification/Child_Policy.thy ===== *)
theory Child_Policy
  imports Write_Scope
begin

text \<open>
  What a delegated agent may do (\<open>packages/sdk/src/runtime/scheduler.ts\<close>, \<open>agents/exclusions.ts\<close>,
  \<open>tool/toolset.ts\<close>, \<open>tool/capabilityProfiles.ts\<close>): the pool of tools its parent hands down, the
  permission it inherits, and the host policy that narrows both. A decision about permissions is a
  \<open>decider\<close>; values are immutable here, so the copies the code takes against a host that reuses
  its objects are the values themselves.
\<close>

section \<open>Agents\<close>

record agent_def =
  ag_name :: string
  ag_system_prompt :: string
  ag_allowed_tools :: "string list"
  ag_profile :: "string option"
  ag_model :: "string option"
  ag_role :: "string option"
  ag_max_turns :: "js_number option"
  ag_read_only :: bool
  ag_inherit_tools :: bool
  ag_subagents :: "string list"

definition subagent_excluded_tools :: "string list" where
  "subagent_excluded_tools =
     [''AgentTool'', ''cron_add'', ''cron_list'', ''cron_show'', ''cron_pause'', ''cron_resume'',
      ''cron_delete'', ''task_stop'', ''send_message'', ''workflow_run'']"

definition build_subagent_exclusions :: "agent_def \<Rightarrow> string list" where
  "build_subagent_exclusions agent =
     (if ag_subagents agent = [] then subagent_excluded_tools
      else removeAll ''AgentTool'' subagent_excluded_tools)"

text \<open>The tool name of an \<open>allowedTools\<close> entry.\<close>

definition entry_name :: "string \<Rightarrow> string" where
  "entry_name entry =
     (let before = takeWhile (\<lambda>c. c \<noteq> CHR ''('') entry
      in trim (if before \<noteq> [] \<and> before \<noteq> entry then before else entry))"

definition build_child_tool_pool :: "guarded_tool list \<Rightarrow> agent_def \<Rightarrow> guarded_tool list" where
  "build_child_tool_pool pool agent =
     (let exclusions = build_subagent_exclusions agent in
      if ag_inherit_tools agent then filter (\<lambda>t. gt_name t \<notin> set exclusions) pool
      else let allowed = map entry_name (ag_allowed_tools agent) in
        filter (\<lambda>t. (gt_name t \<in> set allowed \<or> list_ex (\<lambda>a. a \<in> set allowed) (gt_aliases t))
                    \<and> gt_name t \<notin> set exclusions) pool)"

section \<open>Toolsets and capability profiles\<close>

definition toolset_names :: "string list" where
  "toolset_names = [''chat'', ''web'', ''ops'', ''coding'']"

definition web_tools :: "string list" where "web_tools = [''WebSearch'', ''WebFetch'']"

definition ops_tools :: "string list" where
  "ops_tools = [''memory'', ''skills_list'', ''skill_view'', ''task_list'', ''task_get'',
     ''task_output'', ''HarnessInfo'']"

definition is_toolset_name :: "string \<Rightarrow> bool" where
  "is_toolset_name v \<longleftrightarrow> v \<in> set toolset_names"

definition filter_tools_for_toolset :: "guarded_tool list \<Rightarrow> string \<Rightarrow> guarded_tool list" where
  "filter_tools_for_toolset tools toolset =
     (if toolset = ''chat'' then []
      else if toolset = ''coding'' then tools
      else let allow = (if toolset = ''web'' then web_tools else ops_tools) in
        filter (\<lambda>t. gt_name t \<in> set allow) tools)"

definition intersect_tool_names :: "string list \<Rightarrow> string list \<Rightarrow> string list" where
  "intersect_tool_names pool allow = filter (\<lambda>n. n \<in> set allow) pool"

definition wrap_toolset_can_use_tool :: "decider option \<Rightarrow> guarded_tool list \<Rightarrow> decider" where
  "wrap_toolset_can_use_tool base tools t input always =
     (if gt_name t \<notin> set (map gt_name tools) then deny_with ''tool is outside the turn toolset'' always
      else defer_or_allow base t input always)"

record capability_profile =
  pf_name :: string
  pf_tools :: "string list"
  pf_max_turns :: "js_number option"

type_synonym profile_registry = "(string \<times> capability_profile) list"

definition bad_profile :: "profile_registry \<Rightarrow> capability_profile \<Rightarrow> bool" where
  "bad_profile reg p \<longleftrightarrow>
     trim (pf_name p) = [] \<or> is_toolset_name (pf_name p) \<or> map_of reg (pf_name p) \<noteq> None"

definition bad_turns :: "js_number option \<Rightarrow> bool" where
  "bad_turns n \<longleftrightarrow> (case n of None \<Rightarrow> False | Some x \<Rightarrow> \<not> is_safe_integer x \<or> js_less x (Num 1))"

fun registry_new :: "profile_registry \<Rightarrow> capability_profile list \<Rightarrow> string + profile_registry" where
  "registry_new reg [] = Inr reg"
| "registry_new reg (p # ps) =
     (if bad_profile reg p then Inl (''invalid or duplicate capability profile: '' @ pf_name p)
      else if bad_turns (pf_max_turns p) then Inl ''profile maxTurns must be a positive integer''
      else registry_new (reg @ [(pf_name p, p)]) ps)"

definition registry_has :: "profile_registry \<Rightarrow> string \<Rightarrow> bool" where
  "registry_has reg name \<longleftrightarrow> is_toolset_name name \<or> map_of reg name \<noteq> None"

definition unknown_profile :: "string \<Rightarrow> string" where
  "unknown_profile name = ''unknown capability profile: '' @ name"

definition registry_max_turns :: "profile_registry \<Rightarrow> string \<Rightarrow> string + js_number option" where
  "registry_max_turns reg name =
     (if is_toolset_name name then Inr None
      else case map_of reg name of None \<Rightarrow> Inl (unknown_profile name) | Some p \<Rightarrow> Inr (pf_max_turns p))"

definition select_tools ::
  "profile_registry \<Rightarrow> string \<Rightarrow> guarded_tool list \<Rightarrow> string + guarded_tool list" where
  "select_tools reg name pool =
     (if is_toolset_name name then Inr (filter_tools_for_toolset pool name)
      else case map_of reg name of
        None \<Rightarrow> Inl (unknown_profile name)
      | Some p \<Rightarrow> Inr (filter (\<lambda>t. gt_name t \<in> set (pf_tools p)) pool))"

definition registry_filter ::
  "profile_registry \<Rightarrow> string \<Rightarrow> guarded_tool list \<Rightarrow> string option \<Rightarrow> string + guarded_tool list" where
  "registry_filter reg name pool parent =
     (case (case parent of None \<Rightarrow> Inr pool | Some p \<Rightarrow> select_tools reg p pool) of
        Inl e \<Rightarrow> Inl e
      | Inr inherited \<Rightarrow> select_tools reg name inherited)"

section \<open>Permissions\<close>

definition allow_all :: decider where
  "allow_all t input always = quiet (Returned allow_permission) always"

text \<open>The child decides on the input its parent authorized, and may not rewrite it.\<close>

definition intersect_can_use_tool :: "decider option \<Rightarrow> decider \<Rightarrow> decider" where
  "intersect_can_use_tool parent child t input always =
     (let p = (case parent of None \<Rightarrow> quiet (Returned allow_permission) always
                | Some f \<Rightarrow> f t input always) in
      case dc_outcome p of
        Threw _ \<Rightarrow> p
      | Returned inherited \<Rightarrow>
          if \<not> perm_allow inherited then p
          else
            let authorized = value_or (perm_updated inherited) input;
                c = child t authorized (dc_always p);
                verdict = (case dc_outcome c of
                    Threw e \<Rightarrow> Threw e
                  | Returned narrowed \<Rightarrow>
                      if \<not> perm_allow narrowed then Returned narrowed
                      else if perm_updated narrowed \<noteq> None
                      then Returned (deny_permission ''child narrowing policy cannot rewrite inputs'')
                      else Returned inherited)
            in \<lparr>dc_outcome = verdict, dc_always = dc_always c,
                dc_recorded = dc_recorded p @ dc_recorded c, dc_asked = dc_asked p \<or> dc_asked c\<rparr>)"

record child_policy =
  cp_can_use :: "decider option"
  cp_profiles :: "profile_registry option"
  cp_profile :: "string option"
  cp_tree :: "nat option"   \<comment> \<open>which tree budget\<close>

datatype policy_error = Profile_error string | Scope_error rule_error

definition profile_of_child :: "child_policy option \<Rightarrow> agent_def \<Rightarrow> string option" where
  "profile_of_child policy agent =
     (case ag_profile agent of
        Some n \<Rightarrow> Some n
      | None \<Rightarrow> (case policy of None \<Rightarrow> None | Some p \<Rightarrow> cp_profile p))"

definition profile_pool ::
  "child_policy option \<Rightarrow> agent_def \<Rightarrow> guarded_tool list \<Rightarrow> string + guarded_tool list" where
  "profile_pool policy agent tools =
     (case profile_of_child policy agent of
        None \<Rightarrow> Inr tools
      | Some name \<Rightarrow>
          registry_filter (case policy of None \<Rightarrow> [] | Some p \<Rightarrow> value_or (cp_profiles p) [])
            name tools (case policy of None \<Rightarrow> None | Some p \<Rightarrow> cp_profile p))"

text \<open>The tools and the permission of a child; \<open>None\<close> is a permission nobody restricts.\<close>

definition agent_scope ::
  "agent_def \<Rightarrow> guarded_tool list \<Rightarrow> decider option \<Rightarrow> policy_error + guarded_tool list \<times> decider option" where
  "agent_scope agent tools inherited =
     (if \<not> ag_inherit_tools agent \<and> ag_allowed_tools agent \<noteq> []
      then (case build_tool_scope (Some (ag_allowed_tools agent)) tools allow_all of
              Inl e \<Rightarrow> Inl (Scope_error e)
            | Inr scope \<Rightarrow> Inr (ts_tools scope, Some (intersect_can_use_tool inherited (ts_can_use scope))))
      else Inr (tools, inherited))"

definition host_permission :: "child_policy option \<Rightarrow> decider option \<Rightarrow> decider option" where
  "host_permission policy scoped =
     (case policy of
        None \<Rightarrow> scoped
      | Some p \<Rightarrow> (case cp_can_use p of
          None \<Rightarrow> scoped | Some f \<Rightarrow> Some (intersect_can_use_tool scoped f)))"

definition child_scope ::
  "child_policy option \<Rightarrow> agent_def \<Rightarrow> guarded_tool list \<Rightarrow> decider option
   \<Rightarrow> policy_error + guarded_tool list \<times> decider option" where
  "child_scope policy agent pool inherited =
     (case profile_pool policy agent (build_child_tool_pool pool agent) of
        Inl e \<Rightarrow> Inl (Profile_error e)
      | Inr tools \<Rightarrow> map_sum id (map_prod id (host_permission policy)) (agent_scope agent tools inherited))"

text \<open>The policy a child hands down.\<close>

definition inherited_policy :: "child_policy option \<Rightarrow> agent_def \<Rightarrow> child_policy option" where
  "inherited_policy policy agent =
     map_option (\<lambda>p. p\<lparr>cp_profile := profile_of_child policy agent\<rparr>) policy"

text \<open>A declared write scope is enforced on top of the permission.\<close>

definition child_can_use_tool ::
  "glob_matcher \<Rightarrow> string \<Rightarrow> string \<Rightarrow> path_scope option \<Rightarrow> decider option \<Rightarrow> decider option" where
  "child_can_use_tool pm home cwd write_scope scoped =
     (case write_scope of
        Some (Scope_globs globs) \<Rightarrow> Some (wrap_can_use_tool_with_write_scope pm home cwd scoped globs)
      | _ \<Rightarrow> scoped)"

text \<open>A chain of delegations: every agent delegates to the next.\<close>

fun descend ::
  "child_policy option \<Rightarrow> agent_def list \<Rightarrow> guarded_tool list \<Rightarrow> decider option
   \<Rightarrow> policy_error + guarded_tool list \<times> decider option" where
  "descend policy [] pool perm = Inr (pool, perm)"
| "descend policy (agent # agents) pool perm =
     (case child_scope policy agent pool perm of
        Inl e \<Rightarrow> Inl e
      | Inr (tools, scoped) \<Rightarrow> descend (inherited_policy policy agent) agents tools scoped)"

section \<open>Narrowing\<close>

text \<open>What a permission grants: the permission for a call that is allowed.\<close>

definition grants :: "decider \<Rightarrow> guarded_tool \<Rightarrow> json \<Rightarrow> string list \<Rightarrow> permission option" where
  "grants f t input always =
     (case dc_outcome (f t input always) of
        Returned p \<Rightarrow> if perm_allow p then Some p else None | Threw _ \<Rightarrow> None)"

text \<open>\<open>g\<close> grants no call that \<open>f\<close> does not grant, nor with another input.\<close>

definition narrows :: "decider option \<Rightarrow> decider option \<Rightarrow> bool" where
  "narrows f g \<longleftrightarrow> (case f of None \<Rightarrow> True | Some f' \<Rightarrow>
     (case g of None \<Rightarrow> False | Some g' \<Rightarrow>
        \<forall>t input always p. grants g' t input always = Some p \<longrightarrow> grants f' t input always = Some p))"

lemma narrows_refl: "narrows f f"
  by (simp add: narrows_def split: option.split)

lemma narrows_trans: "narrows f g \<Longrightarrow> narrows g h \<Longrightarrow> narrows f h"
  by (auto simp: narrows_def split: option.splits)

lemma grants_intersect:
  assumes "grants (intersect_can_use_tool parent child) t input always = Some p"
  shows "(case parent of None \<Rightarrow> p = allow_permission | Some f \<Rightarrow> grants f t input always = Some p)
    \<and> (\<exists>always' q. grants child t (value_or (perm_updated p) input) always' = Some q \<and> perm_updated q = None)"
proof -
  define d where "d = (case parent of None \<Rightarrow> quiet (Returned allow_permission) always
    | Some f \<Rightarrow> f t input always)"
  obtain i where i: "dc_outcome d = Returned i" "perm_allow i"
    using assms by (auto simp: grants_def intersect_can_use_tool_def d_def[symmetric] Let_def
        split: outcome.splits if_splits)
  define c where "c = child t (value_or (perm_updated i) input) (dc_always d)"
  obtain q where q: "dc_outcome c = Returned q" "perm_allow q" "perm_updated q = None" "p = i"
    using assms i
    by (auto simp: grants_def intersect_can_use_tool_def d_def[symmetric] c_def[symmetric] Let_def
        deny_permission_def split: outcome.splits if_splits)
  have "grants child t (value_or (perm_updated p) input) (dc_always d) = Some q"
    using q by (simp add: grants_def c_def)
  moreover have "case parent of None \<Rightarrow> p = allow_permission | Some f \<Rightarrow> grants f t input always = Some p"
    using i q(4) by (auto simp: d_def grants_def quiet_def split: option.splits)
  ultimately show ?thesis using q(3) by blast
qed

lemma intersect_narrows: "narrows parent (Some (intersect_can_use_tool parent child))"
  using grants_intersect[of parent child] by (auto simp: narrows_def split: option.split)

lemma child_pool_subset: "set (build_child_tool_pool pool agent) \<subseteq> set pool"
  by (auto simp: build_child_tool_pool_def Let_def)

lemma child_pool_excludes:
  "t \<in> set (build_child_tool_pool pool agent) \<Longrightarrow> gt_name t \<notin> set (build_subagent_exclusions agent)"
  by (auto simp: build_child_tool_pool_def Let_def split: if_splits)

lemma select_tools_subset: "select_tools reg name pool = Inr tools \<Longrightarrow> set tools \<subseteq> set pool"
  by (auto simp: select_tools_def filter_tools_for_toolset_def Let_def split: if_splits option.splits)

lemma registry_filter_subset:
  assumes "registry_filter reg name pool parent = Inr tools"
  shows "set tools \<subseteq> set pool"
proof -
  obtain mid where "(case parent of None \<Rightarrow> Inr pool | Some p \<Rightarrow> select_tools reg p pool) = Inr mid"
    and last: "select_tools reg name mid = Inr tools"
    using assms by (auto simp: registry_filter_def split: sum.splits)
  then have "set mid \<subseteq> set pool" using select_tools_subset by (auto split: option.splits)
  then show ?thesis using select_tools_subset[OF last] by blast
qed

lemma profile_pool_subset: "profile_pool policy agent pool = Inr tools \<Longrightarrow> set tools \<subseteq> set pool"
  by (auto simp: profile_pool_def split: option.splits dest: registry_filter_subset)

lemma agent_scope_narrows:
  assumes "agent_scope agent tools inherited = Inr (tools', scoped)"
  shows "set tools' \<subseteq> set tools \<and> narrows inherited scoped"
proof (cases "\<not> ag_inherit_tools agent \<and> ag_allowed_tools agent \<noteq> []")
  case True
  then obtain sc where "build_tool_scope (Some (ag_allowed_tools agent)) tools allow_all = Inr sc"
    "tools' = ts_tools sc" "scoped = Some (intersect_can_use_tool inherited (ts_can_use sc))"
    using assms by (auto simp: agent_scope_def split: sum.splits)
  moreover have "set (ts_tools sc) \<subseteq> set tools"
    using calculation(1) by (auto simp: build_tool_scope_def split: option.splits list.splits sum.splits)
  ultimately show ?thesis using intersect_narrows by simp
next
  case False
  then show ?thesis using assms by (auto simp: agent_scope_def narrows_refl)
qed

lemma host_permission_narrows: "narrows scoped (host_permission policy scoped)"
  by (auto simp: host_permission_def narrows_refl intersect_narrows split: option.split)

lemma child_scope_narrows:
  assumes "child_scope policy agent pool inherited = Inr (tools, perm)"
  shows "set tools \<subseteq> set (build_child_tool_pool pool agent) \<and> narrows inherited perm"
proof -
  obtain ts scoped where ts: "profile_pool policy agent (build_child_tool_pool pool agent) = Inr ts"
    "agent_scope agent ts inherited = Inr (tools, scoped)" "perm = host_permission policy scoped"
    using assms by (auto simp: child_scope_def map_sum_def split: sum.splits)
  then show ?thesis
    using agent_scope_narrows[OF ts(2)] profile_pool_subset[OF ts(1)] host_permission_narrows
      narrows_trans by blast
qed

text \<open>C12: Delegation only narrows. However long the chain of delegations, and whatever agents, profiles
  and host policies it runs through, the last agent has no tool the first one was not given, none that
  any agent of the chain excludes, and its permission grants no call the first permission would not
  have granted, nor the same call with another input.\<close>
theorem delegation_narrows:
  assumes "descend policy agents pool perm = Inr (tools, perm')"
  shows "set tools \<subseteq> set pool \<and> narrows perm perm'
    \<and> (\<forall>agent \<in> set agents. \<forall>t \<in> set tools. gt_name t \<notin> set (build_subagent_exclusions agent))"
  using assms
proof (induction policy agents pool perm rule: descend.induct)
  case (1 policy pool perm)
  then show ?case by (simp add: narrows_refl)
next
  case (2 policy agent agents pool perm)
  obtain ts scoped where c: "child_scope policy agent pool perm = Inr (ts, scoped)"
    and d: "descend (inherited_policy policy agent) agents ts scoped = Inr (tools, perm')"
    using "2.prems" by (auto split: sum.splits)
  have first: "set ts \<subseteq> set (build_child_tool_pool pool agent)" "narrows perm scoped"
    using child_scope_narrows[OF c] by simp_all
  have rest: "set tools \<subseteq> set ts" "narrows scoped perm'"
    "\<forall>a \<in> set agents. \<forall>t \<in> set tools. gt_name t \<notin> set (build_subagent_exclusions a)"
    using "2.IH"[OF c refl d] by simp_all
  have "gt_name t \<notin> set (build_subagent_exclusions agent)" if "t \<in> set tools" for t
    using that rest(1) first(1) child_pool_excludes by blast
  then show ?case
    using first rest child_pool_subset[of pool agent] narrows_trans by auto
qed

definition demo_tool :: "string \<Rightarrow> string list \<Rightarrow> guarded_tool" where
  "demo_tool name aliases = \<lparr>gt_name = name, gt_aliases = aliases, gt_server = None,
     gt_virtual_name = None, gt_matcher = None,
     gt_check = (\<lambda>_. Returned \<lparr>sc_behavior = Check_allow, sc_updated = None, sc_reason = None\<rparr>),
     gt_read_only = (\<lambda>_. True), gt_affected_paths = None\<rparr>"

definition demo_agent :: "string \<Rightarrow> string list \<Rightarrow> bool \<Rightarrow> string list \<Rightarrow> agent_def" where
  "demo_agent name allowed inherit subagents = \<lparr>ag_name = name, ag_system_prompt = [],
     ag_allowed_tools = allowed, ag_profile = None, ag_model = None, ag_role = None,
     ag_max_turns = None, ag_read_only = True, ag_inherit_tools = inherit, ag_subagents = subagents\<rparr>"

definition demo_pool :: "guarded_tool list" where
  "demo_pool = [demo_tool ''FileRead'' [''Read''], demo_tool ''AgentTool'' [], demo_tool ''Bash'' []]"

lemma demo_first:
  "\<exists>perm. child_scope None (demo_agent ''lead'' [''Read'', ''AgentTool''] False [''helper'']) demo_pool
      (Some allow_all) = Inr ([demo_tool ''FileRead'' [''Read''], demo_tool ''AgentTool'' []], Some perm)"
proof -
  have rules: "parse_permission_rule ''Read'' = Inr \<lparr>pr_tool = ''Read'', pr_content = None\<rparr>"
    "parse_permission_rule ''AgentTool'' = Inr \<lparr>pr_tool = ''AgentTool'', pr_content = None\<rparr>"
    by code_simp+
  have names: "entry_name ''Read'' = ''Read''" "entry_name ''AgentTool'' = ''AgentTool''"
    by code_simp+
  show ?thesis
    by (simp add: child_scope_def profile_pool_def profile_of_child_def build_child_tool_pool_def
        build_subagent_exclusions_def subagent_excluded_tools_def demo_pool_def demo_tool_def
        demo_agent_def names agent_scope_def build_tool_scope_def rules rule_matches_tool_def
        host_permission_def map_sum_def)
qed

theorem delegation_narrows_witness:
  "\<exists>tools perm. descend None [demo_agent ''lead'' [''Read'', ''AgentTool''] False [''helper''],
        demo_agent ''helper'' [] True []] demo_pool (Some allow_all) = Inr (tools, perm)
    \<and> map gt_name tools = [''FileRead''] \<and> narrows (Some allow_all) perm"
proof -
  obtain first where first:
    "child_scope None (demo_agent ''lead'' [''Read'', ''AgentTool''] False [''helper'']) demo_pool
      (Some allow_all) = Inr ([demo_tool ''FileRead'' [''Read''], demo_tool ''AgentTool'' []], Some first)"
    using demo_first by blast
  have run: "descend None [demo_agent ''lead'' [''Read'', ''AgentTool''] False [''helper''],
      demo_agent ''helper'' [] True []] demo_pool (Some allow_all)
      = Inr ([demo_tool ''FileRead'' [''Read'']], Some first)"
    by (simp add: first inherited_policy_def)
      (simp add: child_scope_def profile_pool_def profile_of_child_def build_child_tool_pool_def
        build_subagent_exclusions_def subagent_excluded_tools_def demo_tool_def demo_agent_def
        agent_scope_def host_permission_def)
  from delegation_narrows[OF this] run show ?thesis by (simp add: demo_tool_def)
qed

end
