(* ===== verification/Child_Routing.thy ===== *)
theory Child_Routing
  imports Child_Policy Query_State Tree_Budget Semaphores
begin

text \<open>
  The pure parts of a delegation: which model a child runs on (\<open>core/capabilities.ts\<close> and
  \<open>resolveProviderModel\<close> of \<open>runtime/scheduler.ts\<close>), its deadline, and what is reported of it when it
  is done: summary, usage and cost. \<open>localeCompare\<close> is a parameter. Times are milliseconds.
\<close>

section \<open>Capabilities\<close>

record capability =
  ca_provider :: string
  ca_model :: string
  ca_context :: int
  ca_tier :: nat
  ca_tools :: nat   \<comment> \<open>reliability of tool calls, in hundredths\<close>
  ca_json :: nat    \<comment> \<open>reliability of JSON, in hundredths\<close>
  ca_roles :: "string list"

definition profile ::
  "string \<Rightarrow> string \<Rightarrow> int \<Rightarrow> nat \<Rightarrow> nat \<Rightarrow> nat \<Rightarrow> string list \<Rightarrow> capability" where
  "profile p m c tier tools js roles = \<lparr>ca_provider = p, ca_model = m, ca_context = c, ca_tier = tier,
     ca_tools = tools, ca_json = js, ca_roles = roles\<rparr>"

definition capability_table :: "capability list" where
  "capability_table =
     [
      profile ''ollama'' ''qwen2.5:3b'' 32768 0 55 55
        [''explore'', ''classify''],
      profile ''ollama'' ''qwen2.5:7b'' 32768 0 70 70
        [''explore'', ''verify'', ''classify''],
      profile ''ollama'' ''qwen2.5:14b'' 32768 0 78 78
        [''explore'', ''verify'', ''plan'', ''classify''],
      profile ''ollama'' ''qwen2.5:32b'' 32768 0 85 85
        [''explore'', ''verify'', ''plan'', ''draft'', ''classify'', ''agent''],
      profile ''ollama'' ''llama3.1:8b'' 128000 0 65 65
        [''explore'', ''classify''],
      profile ''ollama'' ''llama3.1:70b'' 128000 0 85 85
        [''explore'', ''verify'', ''plan'', ''draft'', ''agent''],
      profile ''ollama'' ''mistral-nemo'' 128000 0 70 70
        [''explore'', ''verify'', ''classify''],
      profile ''anthropic'' ''claude-haiku-4-5-20251001'' 200000 1 95 95
        [''explore'', ''verify'', ''plan'', ''code'', ''draft'', ''classify'', ''agent''],
      profile ''anthropic'' ''claude-3-5-haiku-20241022'' 200000 1 92 92
        [''explore'', ''verify'', ''plan'', ''code'', ''draft'', ''classify''],
      profile ''anthropic'' ''claude-sonnet-4-6'' 200000 2 97 97
        [''explore'', ''verify'', ''plan'', ''code'', ''draft'', ''classify'', ''agent''],
      profile ''anthropic'' ''claude-opus-4-7'' 200000 3 98 98
        [''explore'', ''verify'', ''plan'', ''code'', ''draft'', ''classify'', ''agent''],
      profile ''openai'' ''gpt-4o-mini'' 128000 1 90 90
        [''explore'', ''verify'', ''plan'', ''classify''],
      profile ''openai'' ''gpt-4o'' 128000 2 95 95
        [''explore'', ''verify'', ''plan'', ''code'', ''draft'', ''classify'', ''agent''],
      profile ''openrouter'' ''anthropic/claude-haiku-4.5'' 200000 1 95 95
        [''explore'', ''verify'', ''plan'', ''code'', ''draft'', ''classify'', ''agent''],
      profile ''openrouter'' ''z-ai/glm-5.2'' 1048576 1 95 90
        [''explore'', ''verify'', ''plan'', ''code'', ''draft'', ''classify'', ''agent''],
      profile ''openrouter'' ''moonshotai/kimi-k2.5'' 262144 1 90 90
        [''explore'', ''verify'', ''plan'', ''code'', ''draft'', ''classify'']
     ]"

definition get_capability_profile :: "string \<Rightarrow> string \<Rightarrow> capability option" where
  "get_capability_profile p m = find (\<lambda>c. ca_provider c = p \<and> ca_model c = m) capability_table"

text \<open>The comparison that sorts the candidates: cheaper, then more reliable, then by name.\<close>

definition compare_capability :: "(string \<Rightarrow> string \<Rightarrow> int) \<Rightarrow> capability \<Rightarrow> capability \<Rightarrow> int" where
  "compare_capability locale_compare a b =
     (let tier = int (ca_tier a) - int (ca_tier b); tools = int (ca_tools b) - int (ca_tools a) in
      if tier \<noteq> 0 then tier else if tools \<noteq> 0 then tools else locale_compare (ca_model a) (ca_model b))"

text \<open>\<open>Array.prototype.sort\<close>: stable.\<close>

fun insert_by :: "('a \<Rightarrow> 'a \<Rightarrow> int) \<Rightarrow> 'a \<Rightarrow> 'a list \<Rightarrow> 'a list" where
  "insert_by cmp x [] = [x]"
| "insert_by cmp x (y # ys) = (if cmp x y \<le> 0 then x # y # ys else y # insert_by cmp x ys)"

definition sort_by :: "('a \<Rightarrow> 'a \<Rightarrow> int) \<Rightarrow> 'a list \<Rightarrow> 'a list" where
  "sort_by cmp xs = foldr (insert_by cmp) xs []"

definition find_capable_model ::
  "(string \<Rightarrow> string \<Rightarrow> int) \<Rightarrow> string \<Rightarrow> string list \<Rightarrow> capability option" where
  "find_capable_model locale_compare role available =
     (let candidates =
        filter (\<lambda>c. ca_provider c \<in> set available \<and> role \<in> set (ca_roles c)) capability_table in
      case sort_by (compare_capability locale_compare) candidates of [] \<Rightarrow> None | c # _ \<Rightarrow> Some c)"

section \<open>Routing\<close>

record lane_config =
  lc_provider :: string
  lc_model :: string

record routing =
  ro_resolve_lane :: "(string \<Rightarrow> lane_config option) option"
  ro_available :: "string list option"
  ro_default_provider :: string
  ro_default_model :: string

definition default_providers :: "string list" where
  "default_providers = [''anthropic'', ''openai'', ''openrouter'', ''ollama'']"

definition frontier_providers :: "string list" where
  "frontier_providers = [''anthropic'', ''openai'', ''openrouter'', ''xai'']"

definition lane_for :: "string \<Rightarrow> lane_name" where
  "lane_for p = (if p \<in> set frontier_providers then Frontier_lane else Local_lane)"

definition configured_lane :: "routing \<Rightarrow> string option \<Rightarrow> lane_config option" where
  "configured_lane r role = opt_bind role (\<lambda>n. opt_bind (ro_resolve_lane r) (\<lambda>f. f n))"

definition split_model :: "string \<Rightarrow> string \<Rightarrow> string \<times> string" where
  "split_model fallback m =
     (let before = takeWhile (\<lambda>c. c \<noteq> CHR ''/'') m in
      if before \<noteq> [] \<and> before \<noteq> m then (before, drop (length before + 1) m) else (fallback, m))"

definition resolve_provider_model ::
  "(string \<Rightarrow> string \<Rightarrow> int) \<Rightarrow> routing \<Rightarrow> agent_def \<Rightarrow> string option \<Rightarrow> string \<times> string" where
  "resolve_provider_model locale_compare r agent override =
     (case configured_lane r override of
        Some l \<Rightarrow> (lc_provider l, lc_model l)
      | None \<Rightarrow>
     (case ag_model agent of
        Some m \<Rightarrow> split_model (ro_default_provider r) m
      | None \<Rightarrow>
     (case configured_lane r (ag_role agent) of
        Some l \<Rightarrow> (lc_provider l, lc_model l)
      | None \<Rightarrow>
     (case opt_bind (ag_role agent) (\<lambda>role. find_capable_model locale_compare role
              (value_or (ro_available r) default_providers)) of
        Some c \<Rightarrow> (ca_provider c, ca_model c)
      | None \<Rightarrow> (ro_default_provider r, ro_default_model r)))))"

section \<open>Deadlines\<close>

text \<open>The timeouts of the request and of the host; neither extends the other or the parent's deadline.\<close>

definition delegation_deadline :: "js_number option list \<Rightarrow> int option \<Rightarrow> int \<Rightarrow> string + int option" where
  "delegation_deadline timeouts parent now =
     (let finite = List.map_filter id timeouts in
      if list_ex (\<lambda>x. \<not> positive_integer x) finite
      then Inl ''child timeout must be a positive integer or null''
      else case map (\<lambda>x. now + \<lfloor>number_value x\<rfloor>) finite of
        [] \<Rightarrow> Inr parent
      | t # ts \<Rightarrow> Inr (Some (cap_by (foldl min t ts) parent)))"

section \<open>The report\<close>

record child_run =
  cr_terminal :: terminal
  cr_final :: "message option"
  cr_iterations :: nat
  cr_tool_calls :: nat
  cr_tool_names :: "string list"
  cr_usage :: "token_usage option"
  cr_cost :: "js_number option"
  cr_cost_complete :: bool
  cr_usage_complete :: "bool option"

definition should_fire_review :: "string \<Rightarrow> terminal \<Rightarrow> bool" where
  "should_fire_review agent t \<longleftrightarrow>
     agent \<notin> {''review-memory'', ''review-skill'', ''review-consolidate''} \<and> t = Completed"

definition extract_summary :: "message option \<Rightarrow> string" where
  "extract_summary m = (case m of None \<Rightarrow> [] | Some x \<Rightarrow> trim (assistant_text x))"

definition ceiling_note :: string where
  "ceiling_note = ''[child incomplete: explicit model-call ceiling reached; ''
     @ ''do not retry to evade the ceiling]''"

definition child_summary :: "child_run \<Rightarrow> string" where
  "child_summary r =
     (let raw = extract_summary (cr_final r) in
      if cr_terminal r = Hit_max_turns then ceiling_note @ [CHR 0x0A] @ raw else raw)"

text \<open>What \<open>trackProviderUsage\<close> records of one call.\<close>

definition tracked_usage :: "stream_run \<Rightarrow> token_usage option" where
  "tracked_usage r = (if list_ex is_message_stop (sr_events r) then run_usage r else None)"

definition unknown_usage :: "token_usage option \<Rightarrow> bool" where
  "unknown_usage u \<longleftrightarrow> (case u of None \<Rightarrow> True | Some x \<Rightarrow> x Input_tokens = None \<or> x Output_tokens = None)"

datatype usage_status = Usage_complete | Usage_partial | Usage_unknown

definition usage_status_of :: "child_run \<Rightarrow> token_usage option list \<Rightarrow> usage_status" where
  "usage_status_of r calls =
     (if cr_usage r = None then Usage_unknown
      else if calls \<noteq> [] \<and> \<not> list_ex unknown_usage calls \<and> cr_usage_complete r \<noteq> Some False
      then Usage_complete else Usage_partial)"

text \<open>\<open>priced\<close>: the subprocess ran and its model is in the price table.\<close>

definition child_cost :: "bool \<Rightarrow> child_run \<Rightarrow> token_usage option list \<Rightarrow> js_number option" where
  "child_cost priced r calls =
     (if usage_status_of r calls = Usage_complete \<and> cr_cost r \<noteq> None
         \<and> \<not> unknown_usage (cr_usage r) \<and> (cr_cost_complete r \<or> priced)
      then cr_cost r else None)"

record delegate_result =
  dr_agent :: string
  dr_provider :: string
  dr_model :: string
  dr_terminal :: terminal
  dr_summary :: string
  dr_iterations :: nat
  dr_tool_calls :: nat
  dr_tool_names :: "string list"
  dr_usage :: "token_usage option"
  dr_status :: "usage_status option"
  dr_cost :: "js_number option"

definition delegate_result ::
  "string \<Rightarrow> string \<times> string \<Rightarrow> bool \<Rightarrow> child_run \<Rightarrow> token_usage option list \<Rightarrow> delegate_result" where
  "delegate_result agent model priced r calls =
     \<lparr>dr_agent = agent, dr_provider = fst model, dr_model = snd model, dr_terminal = cr_terminal r,
      dr_summary = child_summary r, dr_iterations = cr_iterations r, dr_tool_calls = cr_tool_calls r,
      dr_tool_names = cr_tool_names r, dr_usage = cr_usage r,
      dr_status = Some (usage_status_of r calls), dr_cost = child_cost priced r calls\<rparr>"

text \<open>A failure of the run is an interrupted child.\<close>

definition interrupted_result :: "string \<Rightarrow> string \<times> string \<Rightarrow> string \<Rightarrow> delegate_result" where
  "interrupted_result agent model message =
     \<lparr>dr_agent = agent, dr_provider = fst model, dr_model = snd model, dr_terminal = Interrupted,
      dr_summary = ''[child interrupted: '' @ message @ '']'', dr_iterations = 0, dr_tool_calls = 0,
      dr_tool_names = [], dr_usage = None, dr_status = None, dr_cost = None\<rparr>"

section \<open>Lemmas\<close>

lemma insert_by_mset [simp]: "mset (insert_by cmp x ys) = add_mset x (mset ys)"
  by (induction ys) simp_all

lemma sort_by_mset [simp]: "mset (sort_by cmp xs) = mset xs"
  unfolding sort_by_def by (induction xs) simp_all

lemma sort_by_set [simp]: "set (sort_by cmp xs) = set xs"
  by (metis set_mset_mset sort_by_mset)

definition cheaper_or_equal :: "capability \<Rightarrow> capability \<Rightarrow> bool" where
  "cheaper_or_equal a b \<longleftrightarrow> ca_tier a < ca_tier b \<or> ca_tier a = ca_tier b \<and> ca_tools b \<le> ca_tools a"

lemma compare_capability_le: "compare_capability lc a b \<le> 0 \<Longrightarrow> cheaper_or_equal a b"
  by (auto simp: compare_capability_def cheaper_or_equal_def Let_def split: if_splits)

lemma compare_capability_gt: "\<not> compare_capability lc a b \<le> 0 \<Longrightarrow> cheaper_or_equal b a"
  by (auto simp: compare_capability_def cheaper_or_equal_def Let_def split: if_splits)

lemma cheaper_or_equal_trans: "cheaper_or_equal a b \<Longrightarrow> cheaper_or_equal b c \<Longrightarrow> cheaper_or_equal a c"
  by (auto simp: cheaper_or_equal_def)

text \<open>What a comparison function says of the order it sorts by.\<close>

lemma sort_by_least:
  assumes le: "\<And>a b. cmp a b \<le> 0 \<Longrightarrow> le a b" "\<And>a b. 0 < cmp a b \<Longrightarrow> le b a"
    and trans: "\<And>a b c. le a b \<Longrightarrow> le b c \<Longrightarrow> le a c" and refl: "\<And>a. le a a"
  shows "sort_by cmp xs = x # ys \<Longrightarrow> y \<in> set xs \<Longrightarrow> le x y"
proof -
  have insert: "insert_by cmp a zs = x # ys \<Longrightarrow> (\<forall>y \<in> set zs. le (hd zs) y) \<Longrightarrow> y \<in> insert a (set zs) \<Longrightarrow> le x y"
    for a zs x ys y
  proof (cases zs)
    case (Cons b bs)
    assume i: "insert_by cmp a zs = x # ys" and h: "\<forall>y \<in> set zs. le (hd zs) y" and y: "y \<in> insert a (set zs)"
    have "le b y" if "y \<in> set zs" using h that Cons by auto
    moreover have "le x b \<and> le x a"
      using i Cons le[of a b] refl by (cases "cmp a b \<le> 0") auto
    ultimately show ?thesis using y trans by blast
  qed (use refl in auto)
  have "(\<forall>y \<in> set xs. le (hd (sort_by cmp xs)) y)" for xs
  proof (induction xs)
    case (Cons a xs)
    obtain x ys where xy: "insert_by cmp a (sort_by cmp xs) = x # ys"
      by (cases "insert_by cmp a (sort_by cmp xs)"; cases "sort_by cmp xs") (auto split: if_splits)
    have "le x y" if "y \<in> insert a (set xs)" for y
      using insert[OF xy] Cons that by simp
    then show ?case using xy by (simp add: sort_by_def)
  qed (simp add: sort_by_def)
  then show "sort_by cmp xs = x # ys \<Longrightarrow> y \<in> set xs \<Longrightarrow> le x y" by (metis list.sel(1))
qed

lemma sort_by_head:
  "\<forall>y \<in> set xs. cheaper_or_equal (hd (sort_by (compare_capability lc) xs)) y"
proof
  fix y
  assume y: "y \<in> set xs"
  obtain x ys where s: "sort_by (compare_capability lc) xs = x # ys"
    using y by (metis list.exhaust list.set_cases set_empty sort_by_set)
  have "cheaper_or_equal x y"
    by (rule sort_by_least[OF _ _ _ _ s y])
      (erule compare_capability_le, rule compare_capability_gt[of lc], simp, erule (1) cheaper_or_equal_trans,
        simp add: cheaper_or_equal_def)
  then show "cheaper_or_equal (hd (sort_by (compare_capability lc) xs)) y" using s by simp
qed

text \<open>A role is served by the cheapest model there is. The profile found for a role is one of the
  table, recommended for the role, of a provider that is available; no such profile is cheaper, nor as
  cheap and more reliable in its tool calls; and a profile is found whenever one qualifies.\<close>
theorem capable_model_cheapest:
  "(case find_capable_model lc role available of
      None \<Rightarrow> \<not> (\<exists>c \<in> set capability_table. ca_provider c \<in> set available \<and> role \<in> set (ca_roles c))
    | Some c \<Rightarrow> c \<in> set capability_table \<and> ca_provider c \<in> set available \<and> role \<in> set (ca_roles c)
        \<and> (\<forall>d \<in> set capability_table. ca_provider d \<in> set available \<and> role \<in> set (ca_roles d)
             \<longrightarrow> cheaper_or_equal c d))"
proof -
  let ?cs = "filter (\<lambda>c. ca_provider c \<in> set available \<and> role \<in> set (ca_roles c)) capability_table"
  let ?sorted = "sort_by (compare_capability lc) ?cs"
  have sorted: "set ?sorted = set ?cs" by (rule sort_by_set)
  show ?thesis
  proof (cases ?sorted)
    case Nil
    have "set ?cs = {}" using sorted unfolding Nil by simp
    then have "?cs = []" by (simp only: set_empty)
    then show ?thesis using Nil by (auto simp: find_capable_model_def Let_def filter_empty_conv)
  next
    case (Cons c rest)
    have "c \<in> set ?cs" using sorted unfolding Cons by auto
    moreover have "\<forall>d \<in> set ?cs. cheaper_or_equal c d" using sort_by_head[of ?cs lc] Cons by simp
    ultimately show ?thesis using Cons by (simp add: find_capable_model_def Let_def)
  qed
qed

theorem capable_model_cheapest_witness:
  "map_option ca_model (find_capable_model (\<lambda>_ _. 0) ''classify'' [''anthropic''])
     = Some ''claude-haiku-4-5-20251001''
   \<and> cheaper_or_equal (the (find_capable_model (\<lambda>_ _. 0) ''classify'' [''anthropic''])) (capability_table ! 8)"
proof -
  have run: "map_option ca_model (find_capable_model (\<lambda>_ _. 0) ''classify'' [''anthropic''])
      = Some ''claude-haiku-4-5-20251001''"
    by code_simp
  have other: "capability_table ! 8 \<in> set capability_table" "ca_provider (capability_table ! 8) = ''anthropic''"
    "''classify'' \<in> set (ca_roles (capability_table ! 8))"
    by code_simp+
  from run obtain c where c: "find_capable_model (\<lambda>_ _. 0) ''classify'' [''anthropic''] = Some c" by auto
  have "\<forall>d \<in> set capability_table. ca_provider d \<in> set [''anthropic''] \<and> ''classify'' \<in> set (ca_roles d)
      \<longrightarrow> cheaper_or_equal c d"
    using capable_model_cheapest[where lc = "\<lambda>_ _. 0" and role = "''classify''" and available = "[''anthropic'']"] unfolding c option.case
    by (elim conjE)
  from this[rule_format, OF other(1)] other(2,3) run show ?thesis unfolding c by simp
qed

lemma foldl_min_start: "foldl min (t::int) ts \<le> t"
proof (induction ts arbitrary: t)
  case (Cons x ts)
  have "foldl min (min t x) ts \<le> min t x" by (rule Cons)
  then show ?case by simp
qed simp

lemma foldl_min_le: "x \<in> set ts \<Longrightarrow> foldl min (t::int) ts \<le> x"
proof (induction ts arbitrary: t)
  case (Cons y ts)
  show ?case
  proof (cases "x = y")
    case True
    have "foldl min (min t y) ts \<le> min t y" by (rule foldl_min_start)
    then show ?thesis using True by simp
  qed (use Cons in simp)
qed simp

lemma foldl_min_mem: "foldl min (t::int) ts \<in> insert t (set ts)"
proof (induction ts arbitrary: t)
  case (Cons x ts)
  from Cons[of "min t x"] show ?case by (auto simp: min_def split: if_splits)
qed simp

text \<open>A deadline is only ever brought forward. Whatever timeouts a delegation and the host give, the
  child's deadline is not after its parent's and not after any of the timeouts; there is none only
  when nobody gives one; and a deadline that is not the parent's lies in the future.\<close>
theorem delegation_deadline_narrows:
  assumes "delegation_deadline timeouts parent now = Inr deadline"
  shows "(\<forall>d. parent = Some d \<longrightarrow> (\<exists>e. deadline = Some e \<and> e \<le> d))
    \<and> (\<forall>x. Some x \<in> set timeouts \<longrightarrow> (\<exists>e. deadline = Some e \<and> e \<le> now + \<lfloor>number_value x\<rfloor>))
    \<and> (deadline = None \<longleftrightarrow> parent = None \<and> (\<forall>t \<in> set timeouts. t = None))
    \<and> (deadline \<noteq> parent \<longrightarrow> (\<exists>e. deadline = Some e \<and> now < e))"
proof -
  let ?finite = "List.map_filter id timeouts"
  have finite: "x \<in> set ?finite \<longleftrightarrow> Some x \<in> set timeouts" for x
    by (induction timeouts) (auto simp: List.map_filter_simps split: option.splits)
  have pos: "positive_integer x" if "x \<in> set ?finite" for x
    using assms that by (auto simp: delegation_deadline_def Let_def list_ex_iff split: if_splits)
  show ?thesis
  proof (cases "map (\<lambda>x. now + \<lfloor>number_value x\<rfloor>) ?finite")
    case Nil
    then have "?finite = []" by simp
    then have "\<forall>x. Some x \<notin> set timeouts" using finite by auto
    moreover have "deadline = parent"
      using assms Nil by (auto simp: delegation_deadline_def Let_def split: if_splits)
    moreover have "\<forall>t \<in> set timeouts. t = None" using calculation(1) by (auto intro: option.exhaust)
    ultimately show ?thesis by auto
  next
    case (Cons t ts)
    let ?m = "foldl min t ts"
    have d: "deadline = Some (cap_by ?m parent)"
      using assms Cons by (auto simp: delegation_deadline_def Let_def split: if_splits)
    have le: "?m \<le> now + \<lfloor>number_value x\<rfloor>" if "Some x \<in> set timeouts" for x
    proof -
      have "now + \<lfloor>number_value x\<rfloor> \<in> set (t # ts)"
        using that finite[of x] unfolding Cons[symmetric] by auto
      then show ?thesis using foldl_min_le[of _ ts t] foldl_min_start[of t ts] by auto
    qed
    obtain x where x: "x \<in> set ?finite" "?m = now + \<lfloor>number_value x\<rfloor>"
      using foldl_min_mem[of t ts] Cons by (metis (no_types, lifting) imageE list.set(2) list.set_map)
    have "1 \<le> \<lfloor>number_value x\<rfloor>"
      using pos[OF x(1)] by (cases x) (auto simp: positive_integer_def le_floor_iff)
    then have "now < ?m" using x(2) by simp
    moreover have "\<exists>x. Some x \<in> set timeouts" using x(1) finite by blast
    moreover have "cap_by ?m parent \<le> ?m" "parent = Some e \<Longrightarrow> cap_by ?m parent \<le> e"
      "Some (cap_by ?m parent) \<noteq> parent \<Longrightarrow> cap_by ?m parent = ?m" for e
      by (auto simp: cap_by_def min_def split: option.splits)
    ultimately show ?thesis using d le by (auto intro: order_trans)
  qed
qed

text \<open>A cost is reported only when all of it is known. The report of a child names a cost only if at
  least one call was made, every call reported its input and its output tokens, the run reported its
  usage in full, and the cost was computed from known prices.\<close>
theorem child_cost_known:
  assumes "dr_cost (delegate_result agent model priced r calls) = Some c"
  shows "calls \<noteq> [] \<and> (\<forall>u \<in> set calls. \<exists>v. u = Some v \<and> v Input_tokens \<noteq> None \<and> v Output_tokens \<noteq> None)
    \<and> (\<exists>v. cr_usage r = Some v \<and> v Input_tokens \<noteq> None \<and> v Output_tokens \<noteq> None)
    \<and> cr_usage_complete r \<noteq> Some False \<and> (cr_cost_complete r \<or> priced) \<and> cr_cost r = Some c"
  using assms
  by (auto simp: delegate_result_def child_cost_def usage_status_of_def unknown_usage_def list_ex_iff
      split: if_splits option.splits)

theorem delegation_deadline_narrows_witness:
  "delegation_deadline [None, Some (Num 5000)] (Some 90000) 88000 = Inr (Some 90000)
   \<and> (\<exists>e. Some (90000::int) = Some e \<and> e \<le> 88000 + \<lfloor>number_value (Num 5000)\<rfloor>)"
proof -
  have run: "delegation_deadline [None, Some (Num 5000)] (Some 90000) 88000 = Inr (Some 90000)"
    by (simp add: delegation_deadline_def positive_integer_def max_safe_integer_def cap_by_def
        List.map_filter_simps)
  from delegation_deadline_narrows[OF this] run show ?thesis by simp
qed

definition priced_run :: child_run where
  "priced_run = \<lparr>cr_terminal = Completed, cr_final = None, cr_iterations = 1, cr_tool_calls = 0,
     cr_tool_names = [], cr_usage = Some (\<lambda>f. Some (Num 7)), cr_cost = Some (Num 2),
     cr_cost_complete = True, cr_usage_complete = None\<rparr>"

theorem child_cost_known_witness:
  "dr_cost (delegate_result ''explore'' (''anthropic'', ''m'') False priced_run [cr_usage priced_run])
     = Some (Num 2)
   \<and> (\<exists>v. cr_usage priced_run = Some v \<and> v Input_tokens \<noteq> None \<and> v Output_tokens \<noteq> None)"
proof -
  have run: "dr_cost (delegate_result ''explore'' (''anthropic'', ''m'') False priced_run
      [cr_usage priced_run]) = Some (Num 2)"
    by (simp add: delegate_result_def child_cost_def usage_status_of_def unknown_usage_def priced_run_def)
  from child_cost_known[OF this] run show ?thesis by simp
qed

end
