(* ===== verification/Lock_Ownership.thy ===== *)
theory Lock_Ownership
  imports Semaphores Path_Lock
begin

text \<open>
  Who holds which handle of a lock. \<open>Lock_Interface\<close> speaks of handles; here every live handle (held or
  waiting) belongs to somebody, and nobody shares one: an injective map from owners to handles. The
  lemmas say how the map changes when an owner acquires, releases or is rejected, and what an
  operation keeps of the handles of the others.
\<close>

definition owned :: "(nat \<Rightarrow> nat option) \<Rightarrow> nat set \<Rightarrow> nat \<Rightarrow> bool" where
  "owned own live issued \<longleftrightarrow> live \<subseteq> ran own \<and> inj_on own (dom own) \<and> ran own \<subseteq> {..<issued}"

lemma owned_inj: "owned own live n \<Longrightarrow> own i = Some t \<Longrightarrow> own j = Some t \<Longrightarrow> i = j"
  unfolding owned_def inj_on_def by (metis domI)

lemma owned_owner: "owned own live n \<Longrightarrow> t \<in> live \<Longrightarrow> \<exists>i. own i = Some t"
  unfolding owned_def ran_def by blast

lemma owned_bound: "owned own live n \<Longrightarrow> own i = Some t \<Longrightarrow> t < n"
  unfolding owned_def ran_def by blast

lemma owned_add:
  assumes "owned own live n" "own i = None" "live' \<subseteq> insert n live"
  shows "owned (own(i \<mapsto> n)) live' (Suc n)"
proof -
  have "ran (own(i \<mapsto> n)) = insert n (ran own)" using assms(2) by simp
  moreover have "inj_on (own(i \<mapsto> n)) (dom (own(i \<mapsto> n)))"
  proof (rule inj_onI)
    fix a b
    assume ab: "a \<in> dom (own(i \<mapsto> n))" "b \<in> dom (own(i \<mapsto> n))" "(own(i \<mapsto> n)) a = (own(i \<mapsto> n)) b"
    have "own j \<noteq> Some n" for j using owned_bound[OF assms(1), of j n] by auto
    then show "a = b"
      using ab owned_inj[OF assms(1)] by (auto split: if_splits)
  qed
  ultimately show ?thesis using assms unfolding owned_def by auto
qed

lemma owned_remove:
  assumes "owned own live n" "own i = Some t" "live' \<subseteq> live - {t}"
  shows "owned (own(i := None)) live' n"
proof -
  have "s \<in> ran (own(i := None))" if s: "s \<in> live'" for s
  proof -
    obtain j where "own j = Some s" using owned_owner[OF assms(1)] assms(3) s by blast
    moreover from this have "j \<noteq> i" using assms(2,3) s by auto
    ultimately show ?thesis by (auto simp: ran_def)
  qed
  moreover have "inj_on (own(i := None)) (dom (own(i := None)))"
    using owned_inj[OF assms(1)] by (intro inj_onI) (auto split: if_splits)
  moreover have "ran (own(i := None)) \<subseteq> ran own" by (auto simp: ran_def split: if_splits)
  ultimately show ?thesis using assms(1) unfolding owned_def by auto
qed

lemma owned_shrink: "owned own live n \<Longrightarrow> live' \<subseteq> live \<Longrightarrow> owned own live' n"
  unfolding owned_def by auto

lemma rejected_trans:
  assumes "R' = R \<union> (W - W')" "W' \<subseteq> W" "R'' = R' \<union> (W' - W'')" "W'' \<subseteq> W'"
  shows "R'' = R \<union> (W - W'') \<and> W'' \<subseteq> W"
  using assms by blast

text \<open>A lock that also says which waiters were rejected.\<close>

locale settling_lock = abortable_lock inv acquire release fire held waiting issued
  for inv :: "'s \<Rightarrow> bool"
    and acquire :: "'k \<Rightarrow> nat option \<Rightarrow> 's \<Rightarrow> 's"
    and release :: "nat \<Rightarrow> 's \<Rightarrow> 's"
    and fire :: "nat \<Rightarrow> 's \<Rightarrow> 's"
    and held :: "'s \<Rightarrow> nat list"
    and waiting :: "'s \<Rightarrow> nat list"
    and issued :: "'s \<Rightarrow> nat" +
  fixes rejected :: "'s \<Rightarrow> nat list"
  assumes acquire_rejected: "rejected (acquire k sig s) = rejected s"
    and release_rejected: "rejected (release t s) = rejected s"
    and fire_rejected: "inv s \<Longrightarrow>
      set (rejected (fire sg s)) = set (rejected s) \<union> (set (waiting s) - set (waiting (fire sg s)))"
begin

abbreviation settled_ok :: "'s \<Rightarrow> bool" where
  "settled_ok s \<equiv> inv s \<and> set (rejected s) \<inter> live s = {} \<and> set (rejected s) \<subseteq> {..<issued s}"

abbreviation known :: "'s \<Rightarrow> nat set" where
  "known s \<equiv> live s \<union> set (rejected s)"

lemma acquire_fresh:
  assumes "inv s" "acquire k sig s \<noteq> s"
  shows "live (acquire k sig s) = insert (issued s) (live s) \<and> issued (acquire k sig s) = Suc (issued s)
    \<and> set (held s) \<subseteq> set (held (acquire k sig s)) \<and> issued s \<in> known (acquire k sig s)"
  using acquire_effect[OF assms(1), of k sig] assms(2) by auto

lemma acquire_settled:
  assumes "settled_ok s"
  shows "settled_ok (acquire k sig s)"
proof (cases "acquire k sig s = s")
  case False
  show ?thesis
    using assms acquire_fresh[of s k sig] False acquire_inv[of s k sig] acquire_rejected[of k sig s]
    by auto
qed (use assms in simp)

lemma release_live:
  assumes "inv s"
  shows "live (release t s) \<subseteq> live s \<and> issued (release t s) = issued s
    \<and> (t \<notin> set (waiting s) \<longrightarrow> live (release t s) \<subseteq> live s - {t})"
proof (cases "t \<in> set (held s)")
  case True
  then show ?thesis using release_effect[OF assms True] by auto
next
  case False
  then show ?thesis by (auto simp: release_dead)
qed

lemma release_settled: "settled_ok s \<Longrightarrow> settled_ok (release t s)"
  using release_live[of s t] release_inv[of s t] release_rejected[of t s] by auto

lemma fire_settled:
  assumes "settled_ok s"
  shows "settled_ok (fire sg s)"
proof -
  have handles: "set (held s) \<inter> set (waiting s) = {}" "live s \<subseteq> {..<issued s}"
    using handles[of s] assms by auto
  show ?thesis
    using assms handles fire_effect[of s sg] fire_rejected[of s sg] fire_inv[of s sg] by auto
qed

text \<open>The handles of the others.\<close>

lemma release_kept:
  assumes "inv s" "t \<noteq> u"
  shows "(t \<in> set (held s) \<longrightarrow> t \<in> set (held (release u s)))
    \<and> (t \<in> known s \<longrightarrow> t \<in> known (release u s))"
proof (cases "u \<in> set (held s)")
  case True
  have disj: "t \<in> set (held s) \<Longrightarrow> t \<notin> set (waiting s)" using handles[OF assms(1)] by auto
  have live: "t \<in> live (release u s) \<longleftrightarrow> t \<in> live s"
    and sub: "t \<in> set (waiting (release u s)) \<Longrightarrow> t \<in> set (waiting s)"
    using release_effect[OF assms(1) True] assms(2) by auto
  show ?thesis
    using disj live sub by (simp add: release_rejected) blast
next
  case False
  then show ?thesis by (simp add: release_dead)
qed

lemma acquire_kept:
  assumes "inv s"
  shows "(t \<in> set (held s) \<longrightarrow> t \<in> set (held (acquire k sig s)))
    \<and> (t \<in> known s \<longrightarrow> t \<in> known (acquire k sig s))"
  using acquire_effect[OF assms, of k sig] acquire_rejected[of k sig s] by auto

lemma fire_kept:
  assumes "inv s"
  shows "(t \<in> set (held s) \<longrightarrow> t \<in> set (held (fire sg s))) \<and> (t \<in> known s \<longrightarrow> t \<in> known (fire sg s))"
  using fire_effect[OF assms, of sg] fire_rejected[OF assms, of sg] by auto

text \<open>The owners.\<close>

lemma owned_acquire:
  assumes "inv s" "owned own (live s) (issued s)" "own i = None" "acquire k sig s \<noteq> s"
  shows "owned (own(i \<mapsto> issued s)) (live (acquire k sig s)) (issued (acquire k sig s))"
  using owned_add[OF assms(2,3)] acquire_fresh[OF assms(1,4)] by simp

lemma owned_release:
  assumes "inv s" "owned own (live s) (issued s)" "own i = Some t" "t \<notin> set (waiting s)"
  shows "owned (own(i := None)) (live (release t s)) (issued (release t s))"
  using owned_remove[OF assms(2,3)] release_live[OF assms(1), of t] assms(4) by simp

lemma owned_fire:
  assumes "inv s" "owned own (live s) (issued s)"
  shows "owned own (live (fire sg s)) (issued (fire sg s))"
proof -
  have "live (fire sg s) \<subseteq> live s" "issued (fire sg s) = issued s"
    using fire_effect[OF assms(1), of sg] by auto
  then show ?thesis using owned_shrink[OF assms(2)] by metis
qed

end

section \<open>Semaphores\<close>

lemma sem_abort_waiter_rejected:
  assumes "sem_inv cap s"
  shows "set (sem_rejected (sem_abort_waiter w s))
    = set (sem_rejected s) \<union> (set (sem_waiting s) - set (sem_waiting (sem_abort_waiter w s)))"
proof (cases "take_first (\<lambda>(i, sig). i = w) (sem_waiters s)")
  case None
  then show ?thesis by (simp add: sem_abort_waiter_def)
next
  case (Some p)
  obtain x rest where p: "p = (x, rest)" by (cases p)
  obtain us vs where split: "sem_waiters s = us @ x # vs" "rest = us @ vs" "fst x = w"
    using Some unfolding p by (auto elim!: take_first_SomeE split: prod.splits)
  have "distinct (map fst us @ w # map fst vs)"
    using assms split by (auto simp: sem_inv_def sem_waiting_def)
  then show ?thesis using Some p split by (auto simp: sem_abort_waiter_def sem_waiting_def)
qed

lemma sem_fire_rejected:
  assumes "sem_inv cap s"
  shows "set (sem_rejected (sem_fire sg s))
    = set (sem_rejected s) \<union> (set (sem_waiting s) - set (sem_waiting (sem_fire sg s)))"
proof -
  have fold: "sem_inv cap r \<Longrightarrow> set (sem_rejected (fold sem_abort_waiter ws r))
      = set (sem_rejected r) \<union> (set (sem_waiting r) - set (sem_waiting (fold sem_abort_waiter ws r)))
      \<and> set (sem_waiting (fold sem_abort_waiter ws r)) \<subseteq> set (sem_waiting r)" for ws r
  proof (induction ws arbitrary: r)
    case (Cons w ws)
    have first: "sem_inv cap (sem_abort_waiter w r)" "set (sem_waiting (sem_abort_waiter w r)) \<subseteq> set (sem_waiting r)"
      using sem_abort_waiter_spec[OF Cons.prems, of w] by simp_all
    show ?case
      using rejected_trans[OF sem_abort_waiter_rejected[OF Cons.prems, of w] first(2)] Cons.IH[OF first(1)]
      by simp
  qed simp
  have "sem_inv cap (s\<lparr>sem_fired := f, sem_listeners := l\<rparr>)" for f l
    using assms by (simp add: sem_inv_def sem_waiting_def)
  from fold[OF this] show ?thesis by (simp add: sem_fire_def sem_waiting_def)
qed

lemma sem_release_rejected: "sem_rejected (sem_release t s) = sem_rejected s"
  by (auto simp: sem_release_def Let_def split: list.split)

interpretation sem_settling: settling_lock "sem_inv cap" sem_acquire sem_release sem_fire
  sem_held sem_waiting sem_issued sem_rejected for cap
  by unfold_locales (simp_all add: sem_acquire_def sem_release_rejected sem_fire_rejected)

section \<open>The path lock\<close>

lemma pl_abort_waiter_rejected:
  "set (pl_rejected (pl_abort_waiter t s))
    = set (pl_rejected s) \<union> (set (pl_waiting s) - set (pl_waiting (pl_abort_waiter t s)))"
  by (auto simp: pl_abort_waiter_def pl_waiting_def)

lemma pl_fire_rejected:
  assumes "pl_inv s"
  shows "set (pl_rejected (pl_fire sg s))
    = set (pl_rejected s) \<union> (set (pl_waiting s) - set (pl_waiting (pl_fire sg s)))"
proof -
  have fold: "pl_inv r \<Longrightarrow> set (pl_rejected (fold pl_abort_waiter ws r))
      = set (pl_rejected r) \<union> (set (pl_waiting r) - set (pl_waiting (fold pl_abort_waiter ws r)))
      \<and> set (pl_waiting (fold pl_abort_waiter ws r)) \<subseteq> set (pl_waiting r)" for ws r
  proof (induction ws arbitrary: r)
    case (Cons w ws)
    have first: "pl_inv (pl_abort_waiter w r)" "set (pl_waiting (pl_abort_waiter w r)) \<subseteq> set (pl_waiting r)"
      using pl_abort_waiter_spec[OF Cons.prems, of w] by simp_all
    show ?case
      using rejected_trans[OF pl_abort_waiter_rejected[of w r] first(2)] Cons.IH[OF first(1)]
      by simp
  qed simp
  have "pl_inv (s\<lparr>pl_fired := f, pl_listeners := l\<rparr>)" for f l
    using assms by (simp add: pl_inv_def pl_waiting_def pl_held_handles_def)
  from fold[OF this] show ?thesis by (simp add: pl_fire_def pl_waiting_def)
qed

lemma pl_release_rejected: "pl_rejected (pl_release t s) = pl_rejected s"
  by (auto simp: pl_release_def split: prod.split)

interpretation pl_settling: settling_lock pl_inv pl_acquire pl_release pl_fire
  pl_held_handles pl_waiting pl_issued pl_rejected
  by unfold_locales (simp_all add: pl_acquire_def pl_release_rejected pl_fire_rejected)

text \<open>Every live handle keeps the scope it was acquired for.\<close>

definition pl_scopes :: "path_lock \<Rightarrow> (nat \<times> path_scope) set" where
  "pl_scopes s = set (pl_held s) \<union> (\<lambda>w. (pw_handle w, pw_scope w)) ` set (pl_waiters s)"

lemma pl_acquire_scopes:
  "pl_scopes (pl_acquire sc sig s) \<subseteq> insert (pl_issued s, sc) (pl_scopes s)"
  by (auto simp: pl_scopes_def pl_acquire_def)

lemma pl_release_scopes:
  assumes "pl_inv s"
  shows "pl_scopes (pl_release t s) \<subseteq> pl_scopes s"
proof (cases "t \<in> fst ` set (pl_held s)")
  case True
  let ?keep = "filter (\<lambda>(i, sc). i \<noteq> t) (pl_held s)"
  obtain h rest granted where d: "drain_queue ?keep (pl_waiters s) = (h, rest, granted)"
    by (metis prod_cases3)
  have "disjoint_held ?keep" using assms by (simp add: pl_inv_def disjoint_held_filter)
  from drain_queue_spec[OF d this] obtain gs where
    "h = ?keep @ map (\<lambda>w. (pw_handle w, pw_scope w)) gs" "set (pl_waiters s) = set gs \<union> set rest"
    by blast
  then show ?thesis using True d by (auto simp: pl_scopes_def pl_release_def)
qed (simp add: pl_release_def)

lemma pl_fire_scopes: "pl_scopes (pl_fire sg s) \<subseteq> pl_scopes s"
proof -
  have "pl_scopes (fold pl_abort_waiter ws r) \<subseteq> pl_scopes r" for ws r
  proof (induction ws arbitrary: r)
    case (Cons w ws)
    have "pl_scopes (pl_abort_waiter w r) \<subseteq> pl_scopes r"
      by (auto simp: pl_scopes_def pl_abort_waiter_def)
    then show ?case using Cons[of "pl_abort_waiter w r"] by simp
  qed simp
  from this[of _ "s\<lparr>pl_fired := f, pl_listeners := l\<rparr>" for f l] show ?thesis
    by (auto simp: pl_fire_def pl_scopes_def)
qed

end
