(* ===== verification/Delegation.thy ===== *)
theory Delegation
  imports Child_Routing
begin

text \<open>
  \<open>packages/sdk/src/runtime/scheduler.ts\<close>, \<open>SubagentScheduler.delegate\<close>: the admission of children.
  A delegation reserves a slot of its parent and of the tree budget, waits for its lane, then for the
  write lock if it may write, runs, and gives everything back.

  The scheduler is a machine whose steps are what runs without waiting: the call up to its first
  \<open>await\<close>, the continuation of a delegation whose promise is settled (\<open>Turn\<close>), the end of a child,
  an abort, and what children do to the tree budgets. Delegations are numbered in the order of the
  calls that came as far as the lane; the number also names the composed abort signal. What a child
  does between its start and its end is not part of the machine.
\<close>

record delegate_input =
  di_agent :: string
  di_parent :: string
  di_pool :: "guarded_tool list"
  di_can_use :: "decider option"
  di_policy :: "child_policy option"
  di_depth :: js_number
  di_deadline :: "int option"
  di_timeout :: "js_number option"
  di_write_scope :: "path_scope option"
  di_role :: "string option"
  di_max_children :: "js_number option"
  di_call_limits :: "js_number option list"   \<comment> \<open>ceilings of the model-call budgets above\<close>
  di_restricted :: bool                        \<comment> \<open>skill restrictions are inherited\<close>
  di_aborted :: bool                           \<comment> \<open>a signal is aborted at the call\<close>

record scheduler_opts =
  so_agents :: "(string \<times> agent_def) list"
  so_policy :: "child_policy option"
  so_routing :: routing
  so_max_children :: "js_number option"
  so_timeout :: "js_number option"
  so_executor :: bool                          \<comment> \<open>\<open>subscriptionExecutor.enabled\<close>\<close>
  so_compare :: "string \<Rightarrow> string \<Rightarrow> int"
  so_hook_error :: "agent_def \<Rightarrow> string option \<Rightarrow> string option"   \<comment> \<open>what a host hook throws as the model is resolved\<close>

datatype child_phase =
    Waiting_lane
  | Waiting_lock
  | Running "guarded_tool list" "decider option"
  | Ended "string + delegate_result"

record delegation =
  dg_input :: delegate_input
  dg_agent :: agent_def
  dg_policy :: "child_policy option"
  dg_model :: "string \<times> string"
  dg_deadline :: "int option"
  dg_scope :: "path_scope option"              \<comment> \<open>what to lock\<close>
  dg_tree :: "(nat \<times> nat) option"            \<comment> \<open>tree budget and reservation\<close>
  dg_grant :: lane_grant
  dg_lock :: "nat option"
  dg_phase :: child_phase

record scheduler =
  sd_counts :: "(string \<times> nat) list"
  sd_lanes :: lane_semaphores
  sd_lock :: path_lock
  sd_trees :: "tree_budget list"
  sd_fired :: "nat list"
  sd_delegations :: "delegation list"

definition scheduler_new :: "int option \<Rightarrow> int option \<Rightarrow> tree_budget_limits list \<Rightarrow> scheduler" where
  "scheduler_new local frontier limits =
     \<lparr>sd_counts = [], sd_lanes = lanes_new local frontier, sd_lock = pl_new,
      sd_trees = map tb_fresh limits, sd_fired = [], sd_delegations = []\<rparr>"

definition active_children :: "scheduler \<Rightarrow> string \<Rightarrow> nat" where
  "active_children s parent = value_or (map_of (sd_counts s) parent) 0"

section \<open>Resources\<close>

definition lane_sem :: "lane_name \<Rightarrow> lane_semaphores \<Rightarrow> semaphore option" where
  "lane_sem lane ls = (case lane of Local_lane \<Rightarrow> local_sem ls | Frontier_lane \<Rightarrow> frontier_sem ls)"

definition map_lane :: "lane_name \<Rightarrow> (semaphore \<Rightarrow> semaphore) \<Rightarrow> lane_semaphores \<Rightarrow> lane_semaphores" where
  "map_lane lane f ls =
     (case lane of
        Local_lane \<Rightarrow> ls\<lparr>local_sem := map_option f (local_sem ls)\<rparr>
      | Frontier_lane \<Rightarrow> ls\<lparr>frontier_sem := map_option f (frontier_sem ls)\<rparr>)"

text \<open>The release function of a grant.\<close>

definition lanes_release :: "lane_name \<Rightarrow> lane_grant \<Rightarrow> lane_semaphores \<Rightarrow> lane_semaphores" where
  "lanes_release lane grant ls =
     (case grant of Semaphore_handle t \<Rightarrow> map_lane lane (sem_release t) ls | _ \<Rightarrow> ls)"

definition lanes_fire :: "nat \<Rightarrow> lane_semaphores \<Rightarrow> lane_semaphores" where
  "lanes_fire sig ls = map_lane Local_lane (sem_fire sig) (map_lane Frontier_lane (sem_fire sig) ls)"

definition count_up :: "string \<Rightarrow> (string \<times> nat) list \<Rightarrow> (string \<times> nat) list" where
  "count_up parent counts = AList.update parent (value_or (map_of counts parent) 0 + 1) counts"

text \<open>The slot of the parent is given back; the entry goes when nothing is left.\<close>

definition count_down :: "string \<Rightarrow> (string \<times> nat) list \<Rightarrow> (string \<times> nat) list" where
  "count_down parent counts =
     (let left = value_or (map_of counts parent) 1 - 1 in
      if left = 0 then AList.delete parent counts else AList.update parent left counts)"

definition tree_update :: "nat \<Rightarrow> (tree_budget \<Rightarrow> tree_budget) \<Rightarrow> tree_budget list \<Rightarrow> tree_budget list" where
  "tree_update b f trees = (if b < length trees then trees[b := f (trees ! b)] else trees)"

definition tree_release :: "(nat \<times> nat) option \<Rightarrow> tree_budget list \<Rightarrow> tree_budget list" where
  "tree_release r trees = (case r of None \<Rightarrow> trees | Some (b, h) \<Rightarrow> tree_update b (release_child h) trees)"

text \<open>\<open>policy?.treeBudget?.reserveChild(childDepth)\<close>.\<close>

definition tree_reserve ::
  "child_policy option \<Rightarrow> js_number \<Rightarrow> tree_budget list
   \<Rightarrow> (tb_error + (nat \<times> nat) option) \<times> tree_budget list" where
  "tree_reserve policy depth trees =
     (case opt_bind policy cp_tree of
        None \<Rightarrow> (Inr None, trees)
      | Some b \<Rightarrow>
          if b < length trees then
            (case reserve_child depth (trees ! b) of
               (t, Inl e) \<Rightarrow> (Inl e, trees[b := t])
             | (t, Inr h) \<Rightarrow> (Inr (Some (b, h)), trees[b := t]))
          else (Inr None, trees))"

definition lane_of :: "delegation \<Rightarrow> lane_name" where
  "lane_of d = lane_for (fst (dg_model d))"

text \<open>The outer \<open>finally\<close>.\<close>

definition release_all :: "delegation \<Rightarrow> scheduler \<Rightarrow> scheduler" where
  "release_all d s = s\<lparr>
     sd_counts := count_down (di_parent (dg_input d)) (sd_counts s),
     sd_trees := tree_release (dg_tree d) (sd_trees s),
     sd_lock := (case dg_lock d of None \<Rightarrow> sd_lock s | Some u \<Rightarrow> pl_release u (sd_lock s)),
     sd_lanes := lanes_release (lane_of d) (dg_grant d) (sd_lanes s)\<rparr>"

definition set_delegation :: "nat \<Rightarrow> delegation \<Rightarrow> scheduler \<Rightarrow> scheduler" where
  "set_delegation i d s = s\<lparr>sd_delegations := (sd_delegations s)[i := d]\<rparr>"

definition finish :: "nat \<Rightarrow> string + delegate_result \<Rightarrow> scheduler \<Rightarrow> scheduler" where
  "finish i r s =
     (let d = sd_delegations s ! i in set_delegation i (d\<lparr>dg_phase := Ended r\<rparr>) (release_all d s))"

section \<open>The call\<close>

text \<open>\<open>checkDeadline\<close>: what it throws.\<close>

definition deadline_error :: "bool \<Rightarrow> int option \<Rightarrow> int \<Rightarrow> string option" where
  "deadline_error aborted deadline now =
     (if aborted then Some ''This operation was aborted''
      else case deadline of
        None \<Rightarrow> None
      | Some t \<Rightarrow> if now \<ge> t then Some ''Child delegation deadline exceeded'' else None)"

definition uses_subprocess :: "scheduler_opts \<Rightarrow> agent_def \<Rightarrow> bool" where
  "uses_subprocess opts agent \<longleftrightarrow> so_executor opts \<and> ag_role agent = Some ''subscription-executor''"

definition max_children :: "scheduler_opts \<Rightarrow> delegate_input \<Rightarrow> js_number" where
  "max_children opts inp = value_or (di_max_children inp) (value_or (so_max_children opts) (Num 4))"

text \<open>\<open>current >= maxChildren\<close>; false for \<open>NaN\<close>.\<close>

definition cap_reached :: "nat \<Rightarrow> js_number \<Rightarrow> bool" where
  "cap_reached n cap \<longleftrightarrow> cap \<noteq> NaN \<and> \<not> js_less (Num (of_nat n)) cap"

definition lock_scope :: "scheduler_opts \<Rightarrow> agent_def \<Rightarrow> delegate_input \<Rightarrow> path_scope option" where
  "lock_scope opts agent inp =
     (if uses_subprocess opts agent then Some Scope_all
      else if ag_read_only agent then None
      else Some (value_or (di_write_scope inp) Scope_all))"

fun tb_error_text :: "tb_error \<Rightarrow> string" where
  "tb_error_text (Invalid_limit name) = ''invalid tree budget '' @ name"
| "tb_error_text Invalid_depth = ''child depth must be positive''"
| "tb_error_text Invalid_estimate = ''invalid request budget estimate''"
| "tb_error_text (Exceeded what) = ''tree budget exceeded: '' @ what"

text \<open>From the reservation of the parent's slot to the wait for the lane; an error gives back what was
  reserved. The value is the number of the delegation.\<close>

definition admit ::
  "scheduler_opts \<Rightarrow> int \<Rightarrow> delegate_input \<Rightarrow> agent_def \<Rightarrow> int option \<Rightarrow> scheduler
   \<Rightarrow> (string + nat) \<times> scheduler" where
  "admit opts now inp agent deadline s0 =
     (let policy = (case di_policy inp of Some p \<Rightarrow> Some p | None \<Rightarrow> so_policy opts);
          s = s0\<lparr>sd_counts := count_up (di_parent inp) (sd_counts s0)\<rparr>;
          give_back = (\<lambda>tree s. s\<lparr>sd_counts := count_down (di_parent inp) (sd_counts s),
                                  sd_trees := tree_release tree (sd_trees s)\<rparr>) in
      if uses_subprocess opts agent \<and> (policy \<noteq> None \<or> di_restricted inp)
      then (Inl ''native child policy cannot be enforced by the subprocess executor'', give_back None s)
      else case tree_reserve policy (js_succ (di_depth inp)) (sd_trees s) of
        (Inl e, trees) \<Rightarrow> (Inl (tb_error_text e), give_back None (s\<lparr>sd_trees := trees\<rparr>))
      | (Inr tree, trees) \<Rightarrow>
          let s1 = s\<lparr>sd_trees := trees\<rparr>;
              model = resolve_provider_model (so_compare opts) (so_routing opts) agent (di_role inp) in
          (case or_else (so_hook_error opts agent (di_role inp)) (deadline_error (di_aborted inp) deadline now) of
             Some m \<Rightarrow> (Inl m, give_back tree s1)
           | None \<Rightarrow>
               let i = length (sd_delegations s1);
                   (lanes, grant) = lanes_acquire (lane_for (fst model)) (Some i) (sd_lanes s1)
               in (Inr i, s1\<lparr>sd_lanes := lanes, sd_delegations := sd_delegations s1 @
                    [\<lparr>dg_input = inp, dg_agent = agent, dg_policy = policy, dg_model = model,
                      dg_deadline = deadline, dg_scope = lock_scope opts agent inp, dg_tree = tree,
                      dg_grant = grant, dg_lock = None, dg_phase = Waiting_lane\<rparr>]\<rparr>)))"

text \<open>The whole call, up to the first \<open>await\<close>. The number in the text of the cap is left out.\<close>

definition delegate ::
  "scheduler_opts \<Rightarrow> int \<Rightarrow> delegate_input \<Rightarrow> scheduler \<Rightarrow> (string + nat) \<times> scheduler" where
  "delegate opts now inp s =
     (case map_of (so_agents opts) (di_agent inp) of
        None \<Rightarrow> (Inl (''unknown subagent: '' @ [single_quote] @ di_agent inp @ [single_quote]), s)
      | Some agent \<Rightarrow>
     (case delegation_deadline [di_timeout inp, so_timeout opts] (di_deadline inp) now of
        Inl e \<Rightarrow> (Inl e, s)
      | Inr deadline \<Rightarrow>
          if uses_subprocess opts agent \<and> list_ex (\<lambda>l. l \<noteq> None) (di_call_limits inp)
          then (Inl ''shared model-call ceiling cannot be enforced by the subprocess executor'', s)
          else if cap_reached (active_children s (di_parent inp)) (max_children opts inp)
          then (Inl (''subagent cap reached for parent '' @ [single_quote] @ di_parent inp @ [single_quote]), s)
          else admit opts now inp agent deadline s))"

section \<open>Continuations\<close>

datatype settled = Granted | Rejected | Pending

definition settle_state :: "nat list \<Rightarrow> nat list \<Rightarrow> nat \<Rightarrow> settled" where
  "settle_state held refused t =
     (if t \<in> set held then Granted else if t \<in> set refused then Rejected else Pending)"

definition lane_state :: "scheduler \<Rightarrow> delegation \<Rightarrow> settled" where
  "lane_state s d =
     (case dg_grant d of
        No_op_release \<Rightarrow> Granted
      | Aborted_at_once \<Rightarrow> Rejected
      | Semaphore_handle t \<Rightarrow>
          (case lane_sem (lane_of d) (sd_lanes s) of
             None \<Rightarrow> Pending | Some sem \<Rightarrow> settle_state (sem_held sem) (sem_rejected sem) t))"

definition lock_state :: "scheduler \<Rightarrow> delegation \<Rightarrow> settled" where
  "lock_state s d =
     (case dg_lock d of
        None \<Rightarrow> Pending
      | Some u \<Rightarrow> settle_state (pl_held_handles (sd_lock s)) (pl_rejected (sd_lock s)) u)"

fun policy_error_text :: "policy_error \<Rightarrow> string" where
  "policy_error_text (Profile_error m) = m"
| "policy_error_text (Scope_error _) = ''invalid permission rule''"

text \<open>The child's tools and permission, when every lock is held.\<close>

definition start_child :: "int \<Rightarrow> nat \<Rightarrow> scheduler \<Rightarrow> scheduler" where
  "start_child now i s =
     (let d = sd_delegations s ! i in
      case deadline_error (i \<in> set (sd_fired s)) (dg_deadline d) now of
        Some m \<Rightarrow> finish i (Inl m) s
      | None \<Rightarrow>
          (case child_scope (dg_policy d) (dg_agent d) (di_pool (dg_input d)) (di_can_use (dg_input d)) of
             Inl e \<Rightarrow> finish i (Inl (policy_error_text e)) s
           | Inr (tools, perm) \<Rightarrow> set_delegation i (d\<lparr>dg_phase := Running tools perm\<rparr>) s))"

definition aborted_text :: string where "aborted_text = ''This operation was aborted''"

text \<open>The lane was granted: the write lock is next, for a child that may write.\<close>

definition take_lock :: "int \<Rightarrow> nat \<Rightarrow> scheduler \<Rightarrow> scheduler" where
  "take_lock now i s =
     (let d = sd_delegations s ! i in
      case deadline_error (i \<in> set (sd_fired s)) (dg_deadline d) now of
        Some m \<Rightarrow> finish i (Inl m) s
      | None \<Rightarrow>
          (case dg_scope d of
             None \<Rightarrow> start_child now i s
           | Some sc \<Rightarrow>
               set_delegation i (d\<lparr>dg_lock := Some (pl_issued (sd_lock s)), dg_phase := Waiting_lock\<rparr>)
                 (s\<lparr>sd_lock := pl_acquire sc (Some i) (sd_lock s)\<rparr>)))"

definition turn :: "int \<Rightarrow> nat \<Rightarrow> scheduler \<Rightarrow> scheduler" where
  "turn now i s =
     (if i < length (sd_delegations s) then
        (let d = sd_delegations s ! i in
         case dg_phase d of
           Waiting_lane \<Rightarrow>
             (case lane_state s d of
                Pending \<Rightarrow> s | Rejected \<Rightarrow> finish i (Inl aborted_text) s | Granted \<Rightarrow> take_lock now i s)
         | Waiting_lock \<Rightarrow>
             (case lock_state s d of
                Pending \<Rightarrow> s | Rejected \<Rightarrow> finish i (Inl aborted_text) s | Granted \<Rightarrow> start_child now i s)
         | _ \<Rightarrow> s)
      else s)"

text \<open>How the body of a child ended: it threw outside the run, the run threw, or the run returned.\<close>

datatype child_end =
    Body_threw string
  | Run_threw string
  | Run_returned child_run "token_usage option list" bool

fun end_result :: "delegation \<Rightarrow> child_end \<Rightarrow> string + delegate_result" where
  "end_result d (Body_threw m) = Inl m"
| "end_result d (Run_threw m) = Inr (interrupted_result (ag_name (dg_agent d)) (dg_model d) m)"
| "end_result d (Run_returned r calls priced) =
     Inr (delegate_result (ag_name (dg_agent d)) (dg_model d) priced r calls)"

definition is_running :: "delegation \<Rightarrow> bool" where
  "is_running d \<longleftrightarrow> (case dg_phase d of Running _ _ \<Rightarrow> True | _ \<Rightarrow> False)"

definition child_ends :: "nat \<Rightarrow> child_end \<Rightarrow> scheduler \<Rightarrow> scheduler" where
  "child_ends i e s =
     (if i < length (sd_delegations s) \<and> is_running (sd_delegations s ! i)
      then finish i (end_result (sd_delegations s ! i) e) s else s)"

definition abort_child :: "nat \<Rightarrow> scheduler \<Rightarrow> scheduler" where
  "abort_child i s =
     (if i < length (sd_delegations s)
      then s\<lparr>sd_fired := i # sd_fired s, sd_lanes := lanes_fire i (sd_lanes s),
             sd_lock := pl_fire i (sd_lock s)\<rparr>
      else s)"

text \<open>Requests of running children against a tree budget.\<close>

datatype request_event =
    Request_reserved js_number "js_number option"
  | Request_settled nat "token_usage option" "js_number option" bool

fun tree_request :: "request_event \<Rightarrow> tree_budget \<Rightarrow> tree_budget" where
  "tree_request (Request_reserved t c) b = fst (reserve_request t c b)"
| "tree_request (Request_settled h u c k) b = settle_request h u c k b"

datatype scheduler_event =
    Delegate int delegate_input
  | Turn int nat
  | Child_ends nat child_end
  | Abort_child nat
  | Tree_request nat request_event

fun scheduler_step :: "scheduler_opts \<Rightarrow> scheduler \<Rightarrow> scheduler_event \<Rightarrow> scheduler" where
  "scheduler_step opts s (Delegate now inp) = snd (delegate opts now inp s)"
| "scheduler_step opts s (Turn now i) = turn now i s"
| "scheduler_step opts s (Child_ends i e) = child_ends i e s"
| "scheduler_step opts s (Abort_child i) = abort_child i s"
| "scheduler_step opts s (Tree_request b ev) =
     s\<lparr>sd_trees := tree_update b (tree_request ev) (sd_trees s)\<rparr>"

end
