(* ===== verification/Delegation_Invariant.thy ===== *)
theory Delegation_Invariant
  imports Delegation Lock_Ownership
begin

text \<open>
  What holds of the scheduler in every state it can reach: the slots of a parent are the delegations
  that run or wait for it; every live handle of a lane, of the write lock and of a tree budget belongs
  to exactly one delegation that has not ended; a delegation holds what its phase says. From this:
  the limits hold, children that may write the same file never run together, nothing leaks, and
  nobody is stuck.
\<close>

section \<open>Owners\<close>

definition is_live :: "delegation \<Rightarrow> bool" where
  "is_live d \<longleftrightarrow> (case dg_phase d of Ended _ \<Rightarrow> False | _ \<Rightarrow> True)"

definition grant_handle :: "lane_grant \<Rightarrow> nat option" where
  "grant_handle g = (case g of Semaphore_handle t \<Rightarrow> Some t | _ \<Rightarrow> None)"

definition lane_handle :: "lane_name \<Rightarrow> delegation \<Rightarrow> nat option" where
  "lane_handle lane d = (if lane_of d = lane then grant_handle (dg_grant d) else None)"

definition tree_handle :: "nat \<Rightarrow> delegation \<Rightarrow> nat option" where
  "tree_handle b d = (case dg_tree d of None \<Rightarrow> None | Some (b', h) \<Rightarrow> if b' = b then Some h else None)"

definition owner :: "(delegation \<Rightarrow> nat option) \<Rightarrow> delegation list \<Rightarrow> nat \<Rightarrow> nat option" where
  "owner f ds i = (if i < length ds \<and> is_live (ds ! i) then f (ds ! i) else None)"

lemma owner_update:
  "i < length ds \<Longrightarrow> owner f (ds[i := d]) = (owner f ds)(i := (if is_live d then f d else None))"
  by (auto simp: owner_def nth_list_update)

lemma owner_append:
  "owner f (ds @ [d]) = (owner f ds)(length ds := (if is_live d then f d else None))"
  by (auto simp: owner_def nth_append less_Suc_eq)

lemma owner_out [simp]: "owner f ds (length ds) = None"
  by (simp add: owner_def)

lemma owner_same:
  "i < length ds \<Longrightarrow> is_live (ds ! i) \<Longrightarrow> is_live d \<Longrightarrow> f d = f (ds ! i) \<Longrightarrow> owner f (ds[i := d]) = owner f ds"
  by (auto simp: owner_def nth_list_update)

definition live_children :: "delegation list \<Rightarrow> string \<Rightarrow> nat" where
  "live_children ds parent = length (filter (\<lambda>d. is_live d \<and> di_parent (dg_input d) = parent) ds)"

lemma length_filter_update:
  "i < length xs \<Longrightarrow> length (filter P (xs[i := x])) + (if P (xs ! i) then 1 else 0)
     = length (filter P xs) + (if P x then 1 else 0)"
proof (induction xs arbitrary: i)
  case (Cons y ys)
  show ?case
  proof (cases i)
    case (Suc k)
    then show ?thesis using Cons.IH[of k] Cons.prems by simp
  qed simp
qed simp

section \<open>The invariant\<close>

definition counts_inv :: "scheduler \<Rightarrow> bool" where
  "counts_inv s \<longleftrightarrow> (\<forall>p. map_of (sd_counts s) p
     = (let n = live_children (sd_delegations s) p in if n = 0 then None else Some n))"

definition lane_inv :: "lane_name \<Rightarrow> int option \<Rightarrow> scheduler \<Rightarrow> bool" where
  "lane_inv lane cap s \<longleftrightarrow>
     (case lane_sem lane (sd_lanes s) of
        None \<Rightarrow> cap = None
      | Some sem \<Rightarrow>
          (\<exists>c. cap = Some c \<and> sem_settling.settled_ok c sem)
          \<and> owned (owner (lane_handle lane) (sd_delegations s)) (set (sem_held sem) \<union> set (sem_waiting sem))
              (sem_issued sem)
          \<and> set (sem_fired sem) = set (sd_fired s))"

definition lock_inv :: "scheduler \<Rightarrow> bool" where
  "lock_inv s \<longleftrightarrow>
     pl_settling.settled_ok (sd_lock s)
     \<and> owned (owner dg_lock (sd_delegations s))
         (set (pl_held_handles (sd_lock s)) \<union> set (pl_waiting (sd_lock s))) (pl_issued (sd_lock s))
     \<and> set (pl_fired (sd_lock s)) = set (sd_fired s)
     \<and> (\<forall>t sc i. (t, sc) \<in> pl_scopes (sd_lock s) \<longrightarrow> owner dg_lock (sd_delegations s) i = Some t
          \<longrightarrow> dg_scope (sd_delegations s ! i) = Some sc)"

definition trees_inv :: "scheduler \<Rightarrow> bool" where
  "trees_inv s \<longleftrightarrow> (\<forall>b < length (sd_trees s).
     tb_inv (sd_trees s ! b)
     \<and> owned (owner (tree_handle b) (sd_delegations s)) (set (tb_children (sd_trees s ! b)))
         (tb_next (sd_trees s ! b))
     \<and> ran (owner (tree_handle b) (sd_delegations s)) \<subseteq> set (tb_children (sd_trees s ! b)))"

text \<open>The promise of the lane, and of the lock, is known: resolved, rejected or waiting.\<close>

definition lane_known :: "scheduler \<Rightarrow> delegation \<Rightarrow> bool" where
  "lane_known s d \<longleftrightarrow>
     (case dg_grant d of
        No_op_release \<Rightarrow> lane_sem (lane_of d) (sd_lanes s) = None
      | Aborted_at_once \<Rightarrow> False
      | Semaphore_handle t \<Rightarrow> (\<exists>sem. lane_sem (lane_of d) (sd_lanes s) = Some sem
          \<and> t \<in> set (sem_held sem) \<union> set (sem_waiting sem) \<union> set (sem_rejected sem)))"

definition lock_known :: "scheduler \<Rightarrow> delegation \<Rightarrow> bool" where
  "lock_known s d \<longleftrightarrow> (\<exists>u. dg_lock d = Some u
     \<and> u \<in> set (pl_held_handles (sd_lock s)) \<union> set (pl_waiting (sd_lock s)) \<union> set (pl_rejected (sd_lock s)))"

definition holds_lock :: "scheduler \<Rightarrow> delegation \<Rightarrow> bool" where
  "holds_lock s d \<longleftrightarrow> (if dg_scope d = None then dg_lock d = None else lock_state s d = Granted)"

definition phase_ok :: "scheduler \<Rightarrow> delegation \<Rightarrow> bool" where
  "phase_ok s d \<longleftrightarrow>
     (case dg_phase d of
        Waiting_lane \<Rightarrow> lane_known s d \<and> dg_lock d = None
      | Waiting_lock \<Rightarrow> lane_known s d \<and> lane_state s d = Granted \<and> dg_scope d \<noteq> None \<and> lock_known s d
      | Running _ _ \<Rightarrow> lane_known s d \<and> lane_state s d = Granted \<and> holds_lock s d
      | Ended _ \<Rightarrow> True)"

definition phases_inv :: "scheduler \<Rightarrow> bool" where
  "phases_inv s \<longleftrightarrow> (\<forall>d \<in> set (sd_delegations s). phase_ok s d)"

definition scheduler_inv :: "int option \<Rightarrow> int option \<Rightarrow> scheduler \<Rightarrow> bool" where
  "scheduler_inv local frontier s \<longleftrightarrow>
     set (sd_fired s) \<subseteq> {..<length (sd_delegations s)}
     \<and> counts_inv s \<and> lane_inv Local_lane local s \<and> lane_inv Frontier_lane frontier s \<and> lock_inv s
     \<and> trees_inv s \<and> phases_inv s"

lemma owner_Nil [simp]: "owner f [] = Map.empty"
  by (auto simp: owner_def)

lemma owned_empty [simp]: "owned Map.empty {} n"
  by (simp add: owned_def)

lemma sem_new_fields [simp]:
  "sem_held (sem_new c) = []" "sem_waiting (sem_new c) = []" "sem_rejected (sem_new c) = []"
  "sem_fired (sem_new c) = []"
  by (simp_all add: sem_new_def sem_waiting_def)

lemma pl_new_fields [simp]:
  "pl_held_handles pl_new = []" "pl_waiting pl_new = []" "pl_rejected pl_new = []" "pl_fired pl_new = []"
  "pl_scopes pl_new = {}"
  by (simp_all add: pl_new_def pl_held_handles_def pl_waiting_def pl_scopes_def)

lemma scheduler_inv_start: "scheduler_inv local frontier (scheduler_new local frontier limits)"
proof -
  have "tb_children (tb_fresh l) = []" for l by (simp add: tb_fresh_def)
  then show ?thesis
    by (simp add: scheduler_inv_def scheduler_new_def counts_inv_def lane_inv_def lock_inv_def trees_inv_def
        phases_inv_def live_children_def lane_sem_def lanes_new_def sem_new_inv pl_new_inv tb_fresh_inv
        split: option.split)
qed

section \<open>What a step keeps\<close>

lemma lane_sem_map [simp]:
  "lane_sem l (map_lane l' f ls) = (if l = l' then map_option f (lane_sem l ls) else lane_sem l ls)"
  by (cases l; cases l') (simp_all add: lane_sem_def map_lane_def)

lemma lanes_release_map:
  "lane_sem l (lanes_release l' g ls)
     = (case g of Semaphore_handle t \<Rightarrow> if l = l' then map_option (sem_release t) (lane_sem l ls) else lane_sem l ls
        | _ \<Rightarrow> lane_sem l ls)"
  by (simp add: lanes_release_def split: lane_grant.split)

lemma lane_sem_fire [simp]: "lane_sem l (lanes_fire sg ls) = map_option (sem_fire sg) (lane_sem l ls)"
  by (cases l) (simp_all add: lanes_fire_def)

lemma sem_fired_fields [simp]:
  "sem_fired (sem_release t s) = sem_fired s" "sem_fired (sem_acquire u sig s) = sem_fired s"
  by (auto simp: sem_release_def sem_acquire_def Let_def split: list.split)

lemma sem_fired_fire: "set (sem_fired (sem_fire sg s)) = insert sg (set (sem_fired s))"
proof -
  have "sem_fired (fold sem_abort_waiter ws r) = sem_fired r" for ws r
    by (induction ws arbitrary: r) (auto simp: sem_abort_waiter_def split: option.split)
  then show ?thesis by (auto simp: sem_fire_def)
qed

lemma pl_fired_fields [simp]:
  "pl_fired (pl_release t s) = pl_fired s" "pl_fired (pl_acquire sc sig s) = pl_fired s"
  by (auto simp: pl_release_def pl_acquire_def split: prod.split)

lemma pl_fired_fire: "set (pl_fired (pl_fire sg s)) = insert sg (set (pl_fired s))"
proof -
  have "pl_fired (fold pl_abort_waiter ws r) = pl_fired r" for ws r
    by (induction ws arbitrary: r) (auto simp: pl_abort_waiter_def)
  then show ?thesis by (auto simp: pl_fire_def)
qed

text \<open>What delegation \<open>d\<close> relies on in state \<open>s\<close> is still so in \<open>s'\<close>.\<close>

definition lane_kept :: "scheduler \<Rightarrow> scheduler \<Rightarrow> delegation \<Rightarrow> bool" where
  "lane_kept s s' d \<longleftrightarrow> (lane_known s d \<longrightarrow> lane_known s' d)
     \<and> (lane_known s d \<and> lane_state s d = Granted \<longrightarrow> lane_state s' d = Granted)"

definition lock_kept :: "scheduler \<Rightarrow> scheduler \<Rightarrow> delegation \<Rightarrow> bool" where
  "lock_kept s s' d \<longleftrightarrow> (lock_known s d \<longrightarrow> lock_known s' d)
     \<and> (lock_state s d = Granted \<longrightarrow> lock_state s' d = Granted)"

lemma phase_ok_kept: "lane_kept s s' d \<Longrightarrow> lock_kept s s' d \<Longrightarrow> phase_ok s d \<Longrightarrow> phase_ok s' d"
  by (auto simp: phase_ok_def lane_kept_def lock_kept_def holds_lock_def split: child_phase.splits if_splits)

lemma lane_kept_same: "sd_lanes s' = sd_lanes s \<Longrightarrow> lane_kept s s' d"
  by (simp add: lane_kept_def lane_known_def lane_state_def split: lane_grant.split option.split)

lemma lock_kept_same: "sd_lock s' = sd_lock s \<Longrightarrow> lock_kept s s' d"
  by (simp add: lock_kept_def lock_known_def lock_state_def split: option.split)

lemma phase_ok_same:
  assumes "sd_lanes s' = sd_lanes s" "sd_lock s' = sd_lock s"
  shows "phase_ok s' d = phase_ok s d"
  using phase_ok_kept[of s s' d] phase_ok_kept[of s' s d] assms
    lane_kept_same[OF assms(1)] lock_kept_same[OF assms(2)] lane_kept_same[OF assms(1)[symmetric]]
    lock_kept_same[OF assms(2)[symmetric]] by blast

lemma settle_state_Granted [simp]: "settle_state h r t = Granted \<longleftrightarrow> t \<in> set h"
  by (simp add: settle_state_def)

text \<open>An operation on one lane, when it keeps the handle of \<open>d\<close>.\<close>

lemma lane_kept_map:
  assumes sem: "lane_sem (lane_of d) (sd_lanes s') = map_option f (lane_sem (lane_of d) (sd_lanes s))"
    and keep: "\<And>t sem. dg_grant d = Semaphore_handle t \<Longrightarrow> lane_sem (lane_of d) (sd_lanes s) = Some sem \<Longrightarrow>
      (t \<in> set (sem_held sem) \<longrightarrow> t \<in> set (sem_held (f sem)))
      \<and> (t \<in> sem_settling.known sem \<longrightarrow> t \<in> sem_settling.known (f sem))"
  shows "lane_kept s s' d"
proof (cases "lane_sem (lane_of d) (sd_lanes s)")
  case None
  then show ?thesis
    by (simp add: lane_kept_def lane_known_def lane_state_def sem split: lane_grant.split)
next
  case (Some sem0)
  then show ?thesis
    using keep[OF _ Some]
    by (auto simp: lane_kept_def lane_known_def lane_state_def sem split: lane_grant.split)
qed

lemma lock_kept_step:
  assumes "\<And>u. dg_lock d = Some u \<Longrightarrow>
      (u \<in> set (pl_held_handles (sd_lock s)) \<longrightarrow> u \<in> set (pl_held_handles (sd_lock s')))
      \<and> (u \<in> pl_settling.known (sd_lock s) \<longrightarrow> u \<in> pl_settling.known (sd_lock s'))"
  shows "lock_kept s s' d"
  using assms by (auto simp: lock_kept_def lock_known_def lock_state_def split: option.split)

lemma lane_invD:
  assumes "lane_inv lane cap s" "lane_sem lane (sd_lanes s) = Some sem"
  obtains c where "cap = Some c" "sem_settling.settled_ok c sem"
    "owned (owner (lane_handle lane) (sd_delegations s)) (sem.live sem) (sem_issued sem)"
    "set (sem_fired sem) = set (sd_fired s)"
  using assms by (auto simp: lane_inv_def)

lemma lane_inv_map:
  assumes inv: "lane_inv lane cap s"
    and sem: "lane_sem lane (sd_lanes s') = map_option f (lane_sem lane (sd_lanes s))"
    and keep: "\<And>c sem. lane_sem lane (sd_lanes s) = Some sem \<Longrightarrow> sem_settling.settled_ok c sem \<Longrightarrow>
        owned (owner (lane_handle lane) (sd_delegations s)) (sem.live sem) (sem_issued sem) \<Longrightarrow>
        set (sem_fired sem) = set (sd_fired s) \<Longrightarrow>
        sem_settling.settled_ok c (f sem)
        \<and> owned (owner (lane_handle lane) (sd_delegations s')) (sem.live (f sem)) (sem_issued (f sem))
        \<and> set (sem_fired (f sem)) = set (sd_fired s')"
  shows "lane_inv lane cap s'"
proof (cases "lane_sem lane (sd_lanes s)")
  case None
  then show ?thesis using inv sem by (simp add: lane_inv_def)
next
  case (Some sem0)
  from lane_invD[OF inv Some] obtain c where c: "cap = Some c" "sem_settling.settled_ok c sem0"
    "owned (owner (lane_handle lane) (sd_delegations s)) (sem.live sem0) (sem_issued sem0)"
    "set (sem_fired sem0) = set (sd_fired s)" .
  have "lane_sem lane (sd_lanes s') = Some (f sem0)" using sem Some by simp
  then show ?thesis
    using keep[OF Some c(2,3,4)] c(1) unfolding lane_inv_def by simp
qed

lemma lane_inv_cong:
  assumes "lane_sem lane (sd_lanes s') = lane_sem lane (sd_lanes s)" "sd_fired s' = sd_fired s"
    "owner (lane_handle lane) (sd_delegations s') = owner (lane_handle lane) (sd_delegations s)"
    "lane_inv lane cap s"
  shows "lane_inv lane cap s'"
  using assms(4) unfolding lane_inv_def assms(1-3) .

lemma live_children_update:
  assumes "i < length ds" "is_live (ds ! i)" "di_parent (dg_input d) = di_parent (dg_input (ds ! i))"
  shows "live_children (ds[i := d]) p + (if \<not> is_live d \<and> di_parent (dg_input d) = p then 1 else 0)
    = live_children ds p"
  using length_filter_update[OF assms(1), of "\<lambda>d. is_live d \<and> di_parent (dg_input d) = p" d] assms(2,3)
  by (auto simp: live_children_def split: if_splits)

lemma live_children_append:
  "is_live d \<Longrightarrow> live_children (ds @ [d]) p
     = live_children ds p + (if di_parent (dg_input d) = p then 1 else 0)"
  by (simp add: live_children_def)

section \<open>A delegation ends\<close>

lemma owner_at: "i < length ds \<Longrightarrow> is_live (ds ! i) \<Longrightarrow> owner f ds i = f (ds ! i)"
  by (simp add: owner_def)

lemma is_live_phase [simp]:
  "is_live (d\<lparr>dg_phase := Ended r\<rparr>) = False" "is_live (d\<lparr>dg_phase := Running ts p\<rparr>)"
  "is_live (d\<lparr>dg_phase := Waiting_lock\<rparr>)" "is_live (d\<lparr>dg_lock := u, dg_phase := Waiting_lock\<rparr>)"
  by (simp_all add: is_live_def)

lemma finish_fields:
  "sd_delegations (finish i r s) = (sd_delegations s)[i := (sd_delegations s ! i)\<lparr>dg_phase := Ended r\<rparr>]"
  "sd_fired (finish i r s) = sd_fired s"
  "sd_counts (finish i r s) = count_down (di_parent (dg_input (sd_delegations s ! i))) (sd_counts s)"
  "sd_trees (finish i r s) = tree_release (dg_tree (sd_delegations s ! i)) (sd_trees s)"
  "sd_lanes (finish i r s) = lanes_release (lane_of (sd_delegations s ! i)) (dg_grant (sd_delegations s ! i)) (sd_lanes s)"
  "sd_lock (finish i r s) = (case dg_lock (sd_delegations s ! i) of None \<Rightarrow> sd_lock s | Some u \<Rightarrow> pl_release u (sd_lock s))"
  by (simp_all add: finish_def release_all_def set_delegation_def Let_def)

lemma owner_finish:
  "i < length (sd_delegations s) \<Longrightarrow>
   owner f (sd_delegations (finish i r s)) = (owner f (sd_delegations s))(i := None)"
  by (simp add: finish_fields owner_update)

text \<open>No promise of the delegation is pending.\<close>

definition settled_both :: "scheduler \<Rightarrow> delegation \<Rightarrow> bool" where
  "settled_both s d \<longleftrightarrow> lane_state s d \<noteq> Pending \<and> (dg_lock d = None \<or> lock_state s d \<noteq> Pending)"

lemma finish_lane:
  assumes inv: "lane_inv lane cap s" and i: "i < length (sd_delegations s)" "is_live (sd_delegations s ! i)"
    and settled: "lane_state s (sd_delegations s ! i) \<noteq> Pending"
  shows "lane_inv lane cap (finish i r s)"
proof (cases "lane_handle lane (sd_delegations s ! i)")
  case None
  then have own: "owner (lane_handle lane) (sd_delegations (finish i r s)) = owner (lane_handle lane) (sd_delegations s)"
    using i by (simp add: owner_finish owner_at fun_upd_idem)
  have "lane_sem lane (sd_lanes (finish i r s)) = lane_sem lane (sd_lanes s)"
    using None by (simp add: finish_fields lanes_release_map lane_handle_def grant_handle_def
        split: lane_grant.splits if_splits)
  then show ?thesis by (rule lane_inv_cong[OF _ finish_fields(2) own inv])
next
  case (Some t)
  then have d: "lane_of (sd_delegations s ! i) = lane" "dg_grant (sd_delegations s ! i) = Semaphore_handle t"
    by (simp_all add: lane_handle_def grant_handle_def split: if_splits lane_grant.splits)
  have own: "owner (lane_handle lane) (sd_delegations s) i = Some t" using i Some by (simp add: owner_at)
  show ?thesis
  proof (rule lane_inv_map[OF inv, where f = "sem_release t"])
    show "lane_sem lane (sd_lanes (finish i r s)) = map_option (sem_release t) (lane_sem lane (sd_lanes s))"
      by (simp add: finish_fields lanes_release_map d)
  next
    fix c sem
    assume sem: "lane_sem lane (sd_lanes s) = Some sem" "sem_settling.settled_ok c sem"
      and owned: "owned (owner (lane_handle lane) (sd_delegations s)) (sem.live sem) (sem_issued sem)"
      and fired: "set (sem_fired sem) = set (sd_fired s)"
    have inv_c: "sem_inv c sem" using sem by simp
    have "t \<in> set (sem_held sem) \<or> t \<in> set (sem_rejected sem)"
      using settled d sem(1) by (auto simp: lane_state_def settle_state_def split: if_splits)
    then have "t \<notin> set (sem_waiting sem)" using sem(2) sem.handles[OF inv_c] by auto
    from sem_settling.owned_release[OF inv_c owned own this] sem_settling.release_settled[OF sem(2), of t] fired
    show "sem_settling.settled_ok c (sem_release t sem)
      \<and> owned (owner (lane_handle lane) (sd_delegations (finish i r s))) (sem.live (sem_release t sem))
          (sem_issued (sem_release t sem))
      \<and> set (sem_fired (sem_release t sem)) = set (sd_fired (finish i r s))"
      using i by (simp add: owner_finish) (simp add: finish_fields)
  qed
qed

lemma scope_update:
  "dg_scope d = dg_scope (ds ! i) \<Longrightarrow> dg_scope (ds[i := d] ! j) = dg_scope (ds ! j)"
  by (cases "i < length ds"; cases "i = j") (simp_all add: list_update_beyond)

lemma finish_lock:
  assumes inv: "lock_inv s" and i: "i < length (sd_delegations s)" "is_live (sd_delegations s ! i)"
    and settled: "dg_lock (sd_delegations s ! i) = None \<or> lock_state s (sd_delegations s ! i) \<noteq> Pending"
  shows "lock_inv (finish i r s)"
proof -
  have scope: "dg_scope (sd_delegations (finish i r s) ! j) = dg_scope (sd_delegations s ! j)" for j
    by (simp add: finish_fields scope_update)
  show ?thesis
  proof (cases "dg_lock (sd_delegations s ! i)")
    case None
    then have "owner dg_lock (sd_delegations (finish i r s)) = owner dg_lock (sd_delegations s)"
      using i by (simp add: owner_finish owner_at fun_upd_idem)
    moreover have "sd_lock (finish i r s) = sd_lock s" using None by (simp add: finish_fields)
    ultimately show ?thesis
      using inv scope unfolding lock_inv_def by (simp add: finish_fields(2))
  next
    case (Some u)
    let ?pl = "sd_lock s"
    have own: "owner dg_lock (sd_delegations s) i = Some u" using i Some by (simp add: owner_at)
    have ok: "pl_settling.settled_ok ?pl" and pl: "pl_inv ?pl"
      and owned: "owned (owner dg_lock (sd_delegations s)) (pl.live ?pl) (pl_issued ?pl)"
      and fired: "set (pl_fired ?pl) = set (sd_fired s)"
      and scopes: "\<And>t sc j. (t, sc) \<in> pl_scopes ?pl \<Longrightarrow> owner dg_lock (sd_delegations s) j = Some t
          \<Longrightarrow> dg_scope (sd_delegations s ! j) = Some sc"
      using inv by (auto simp: lock_inv_def)
    have "u \<in> set (pl_held_handles ?pl) \<or> u \<in> set (pl_rejected ?pl)"
      using settled Some by (auto simp: lock_state_def settle_state_def split: if_splits)
    then have "u \<notin> set (pl_waiting ?pl)" using ok pl.handles[OF pl] by auto
    note o = pl_settling.owned_release[OF pl owned own this]
    have lock: "sd_lock (finish i r s) = pl_release u ?pl" using Some by (simp add: finish_fields)
    have "dg_scope (sd_delegations s ! j) = Some sc"
      if "(t, sc) \<in> pl_scopes (pl_release u ?pl)" "((owner dg_lock (sd_delegations s))(i := None)) j = Some t" for t sc j
      using that pl_release_scopes[OF pl, of u] scopes by (auto split: if_splits)
    then show ?thesis
      using o pl_settling.release_settled[OF ok, of u] fired i
      unfolding lock_inv_def lock scope owner_finish[OF i(1)] by (simp add: finish_fields(2))
  qed
qed

lemma nth_tree_update [simp]:
  "length (tree_update b f ts) = length ts"
  "k < length ts \<Longrightarrow> tree_update b f ts ! k = (if k = b then f (ts ! k) else ts ! k)"
  by (simp_all add: tree_update_def)

lemma length_tree_release [simp]: "length (tree_release r ts) = length ts"
  by (simp add: tree_release_def split: option.split prod.split)

lemma release_child_set:
  assumes "tb_inv b" "h \<in> set (tb_children b)"
  shows "set (tb_children (release_child h b)) = set (tb_children b) - {h}" "tb_next (release_child h b) = tb_next b"
  using assms by (simp_all add: release_child_def tb_inv_def set_remove1_eq)

lemma owned_ran_remove:
  assumes "owned own live n" "own i = Some t" "ran own \<subseteq> L"
  shows "ran (own(i := None)) \<subseteq> L - {t}"
proof
  fix x
  assume "x \<in> ran (own(i := None))"
  then obtain j where j: "own j = Some x" "j \<noteq> i" by (auto simp: ran_def split: if_splits)
  then have "x \<noteq> t" using owned_inj[OF assms(1,2)] by auto
  then show "x \<in> L - {t}" using j assms(3) by (auto simp: ran_def)
qed

lemma finish_trees:
  assumes inv: "trees_inv s" and i: "i < length (sd_delegations s)" "is_live (sd_delegations s ! i)"
  shows "trees_inv (finish i r s)"
proof -
  let ?own = "\<lambda>b. owner (tree_handle b) (sd_delegations s)"
  have "tb_inv (sd_trees (finish i r s) ! b)
      \<and> owned ((?own b)(i := None)) (set (tb_children (sd_trees (finish i r s) ! b))) (tb_next (sd_trees (finish i r s) ! b))
      \<and> ran ((?own b)(i := None)) \<subseteq> set (tb_children (sd_trees (finish i r s) ! b))"
    if b: "b < length (sd_trees s)" for b
  proof (cases "tree_handle b (sd_delegations s ! i)")
    case None
    then have "sd_trees (finish i r s) ! b = sd_trees s ! b"
      using b by (auto simp: finish_fields tree_release_def tree_handle_def split: option.splits if_splits)
    moreover have "(?own b)(i := None) = ?own b" using None i by (simp add: owner_at fun_upd_idem)
    ultimately show ?thesis using inv b by (simp add: trees_inv_def)
  next
    case (Some h)
    then have same: "sd_trees (finish i r s) ! b = release_child h (sd_trees s ! b)"
      using b by (auto simp: finish_fields tree_release_def tree_handle_def split: option.splits if_splits)
    have own: "?own b i = Some h" using i Some by (simp add: owner_at)
    have t: "tb_inv (sd_trees s ! b)" "owned (?own b) (set (tb_children (sd_trees s ! b))) (tb_next (sd_trees s ! b))"
      "ran (?own b) \<subseteq> set (tb_children (sd_trees s ! b))"
      using inv b by (simp_all add: trees_inv_def)
    have h: "h \<in> set (tb_children (sd_trees s ! b))" using t(3) own by (auto simp: ran_def)
    show ?thesis
      unfolding same release_child_set[OF t(1) h]
      using release_child_inv[OF t(1)] owned_remove[OF t(2) own subset_refl] owned_ran_remove[OF t(2) own t(3)]
      by blast
  qed
  then show ?thesis using i by (simp add: trees_inv_def owner_finish) (simp add: finish_fields)
qed

lemma count_down_map_of:
  "map_of (count_down parent counts) p =
     (if p = parent then let left = value_or (map_of counts parent) 1 - 1 in if left = 0 then None else Some left
      else map_of counts p)"
  by (simp add: count_down_def Let_def AList.delete_conv' AList.update_conv')

lemma count_up_map_of:
  "map_of (count_up parent counts) p =
     (if p = parent then Some (value_or (map_of counts parent) 0 + 1) else map_of counts p)"
  by (simp add: count_up_def AList.update_conv')

lemma finish_counts:
  assumes inv: "counts_inv s" and i: "i < length (sd_delegations s)" "is_live (sd_delegations s ! i)"
  shows "counts_inv (finish i r s)"
proof -
  let ?d = "(sd_delegations s ! i)\<lparr>dg_phase := Ended r\<rparr>"
  let ?parent = "di_parent (dg_input (sd_delegations s ! i))"
  have live: "live_children (sd_delegations s) p
      = live_children ((sd_delegations s)[i := ?d]) p + (if ?parent = p then 1 else 0)" for p
    using live_children_update[OF i, of ?d p] by simp
  show ?thesis
    unfolding counts_inv_def
  proof
    fix p
    have "map_of (sd_counts s) p = (let n = live_children (sd_delegations s) p in if n = 0 then None else Some n)"
      using inv by (simp add: counts_inv_def)
    then show "map_of (sd_counts (finish i r s)) p
        = (let n = live_children (sd_delegations (finish i r s)) p in if n = 0 then None else Some n)"
      unfolding finish_fields count_down_map_of live by (simp add: Let_def value_or_def split: if_splits)
  qed
qed

definition lane_cap :: "int option \<Rightarrow> int option \<Rightarrow> lane_name \<Rightarrow> int option" where
  "lane_cap local frontier lane = (case lane of Local_lane \<Rightarrow> local | Frontier_lane \<Rightarrow> frontier)"

lemma scheduler_inv_lane: "scheduler_inv local frontier s \<Longrightarrow> lane_inv lane (lane_cap local frontier lane) s"
  by (cases lane) (simp_all add: scheduler_inv_def lane_cap_def)

lemma scheduler_inv_sem:
  assumes "scheduler_inv local frontier s" "lane_sem lane (sd_lanes s) = Some sem"
  shows "\<exists>c. lane_cap local frontier lane = Some c
    \<and> sem_inv c sem \<and> set (sem_rejected sem) \<inter> sem.live sem = {}
    \<and> owned (owner (lane_handle lane) (sd_delegations s)) (sem.live sem) (sem_issued sem)
    \<and> set (sem_fired sem) = set (sd_fired s)"
  using scheduler_inv_lane[OF assms(1), of lane] assms(2) by (auto simp: lane_inv_def)

lemma scheduler_invI:
  "set (sd_fired s) \<subseteq> {..<length (sd_delegations s)} \<Longrightarrow> counts_inv s
   \<Longrightarrow> (\<And>lane. lane_inv lane (lane_cap local frontier lane) s) \<Longrightarrow> lock_inv s \<Longrightarrow> trees_inv s
   \<Longrightarrow> (\<And>d. d \<in> set (sd_delegations s) \<Longrightarrow> phase_ok s d) \<Longrightarrow> scheduler_inv local frontier s"
  unfolding scheduler_inv_def phases_inv_def lane_cap_def
  by (metis lane_name.simps(3,4))

lemma scheduler_inv_phase_ok: "scheduler_inv local frontier s \<Longrightarrow> d \<in> set (sd_delegations s) \<Longrightarrow> phase_ok s d"
  by (simp add: scheduler_inv_def phases_inv_def)

text \<open>The others lose nothing.\<close>

lemma finish_keeps:
  assumes inv: "scheduler_inv local frontier s" and i: "i < length (sd_delegations s)" "is_live (sd_delegations s ! i)"
    and j: "j < length (sd_delegations s)" "is_live (sd_delegations s ! j)" "j \<noteq> i"
  shows "lane_kept s (finish i r s) (sd_delegations s ! j)" "lock_kept s (finish i r s) (sd_delegations s ! j)"
proof -
  let ?d = "sd_delegations s ! i" and ?e = "sd_delegations s ! j"
  show "lane_kept s (finish i r s) ?e"
  proof (cases "\<exists>t. dg_grant ?d = Semaphore_handle t \<and> lane_of ?d = lane_of ?e")
    case False
    then show ?thesis
      by (intro lane_kept_map[where f = id])
        (auto simp: finish_fields lanes_release_map option.map_id split: lane_grant.split)
  next
    case True
    then obtain t where t: "dg_grant ?d = Semaphore_handle t" "lane_of ?d = lane_of ?e" by blast
    show ?thesis
    proof (rule lane_kept_map[where f = "sem_release t"])
      show "lane_sem (lane_of ?e) (sd_lanes (finish i r s)) = map_option (sem_release t) (lane_sem (lane_of ?e) (sd_lanes s))"
        using t by (simp add: finish_fields lanes_release_map)
    next
      fix u sem
      assume u: "dg_grant ?e = Semaphore_handle u" and sem: "lane_sem (lane_of ?e) (sd_lanes s) = Some sem"
      from scheduler_inv_sem[OF inv sem] obtain c where c: "sem_inv c sem"
        "owned (owner (lane_handle (lane_of ?e)) (sd_delegations s)) (sem.live sem) (sem_issued sem)"
        by (elim exE conjE)
      have "owner (lane_handle (lane_of ?e)) (sd_delegations s) i = Some t"
        "owner (lane_handle (lane_of ?e)) (sd_delegations s) j = Some u"
        using i j t u by (simp_all add: owner_at lane_handle_def grant_handle_def)
      then have "u \<noteq> t" using owned_inj[OF c(2), of i t j] j(3) by blast
      then show "(u \<in> set (sem_held sem) \<longrightarrow> u \<in> set (sem_held (sem_release t sem)))
          \<and> (u \<in> sem_settling.known sem \<longrightarrow> u \<in> sem_settling.known (sem_release t sem))"
        by (rule sem_settling.release_kept[OF c(1)])
    qed
  qed
  show "lock_kept s (finish i r s) ?e"
  proof (cases "dg_lock ?d")
    case None
    then show ?thesis by (intro lock_kept_same) (simp add: finish_fields)
  next
    case (Some t)
    have pl: "pl_inv (sd_lock s)" "owned (owner dg_lock (sd_delegations s)) (pl.live (sd_lock s)) (pl_issued (sd_lock s))"
      using inv by (simp_all add: scheduler_inv_def lock_inv_def)
    show ?thesis
    proof (rule lock_kept_step)
      fix u
      assume u: "dg_lock ?e = Some u"
      have "owner dg_lock (sd_delegations s) i = Some t" "owner dg_lock (sd_delegations s) j = Some u"
        using i j Some u by (simp_all add: owner_at)
      then have "u \<noteq> t" using owned_inj[OF pl(2), of i t j] j(3) by blast
      from pl_settling.release_kept[OF pl(1) this] Some
      show "(u \<in> set (pl_held_handles (sd_lock s)) \<longrightarrow> u \<in> set (pl_held_handles (sd_lock (finish i r s))))
          \<and> (u \<in> pl_settling.known (sd_lock s) \<longrightarrow> u \<in> pl_settling.known (sd_lock (finish i r s)))"
        by (simp add: finish_fields)
    qed
  qed
qed

lemma phase_ok_ended: "\<not> is_live d \<Longrightarrow> phase_ok s d"
  by (auto simp: is_live_def phase_ok_def split: child_phase.splits)

lemma set_update_cases:
  assumes "d \<in> set (ds[i := e])"
  obtains "d = e" | j where "j < length ds" "j \<noteq> i" "d = ds ! j"
proof -
  from assms obtain k where "k < length ds" "d = ds[i := e] ! k" by (auto simp: in_set_conv_nth)
  then show ?thesis by (cases "k = i") (auto intro: that)
qed

lemma finish_inv:
  assumes inv: "scheduler_inv local frontier s" and i: "i < length (sd_delegations s)" "is_live (sd_delegations s ! i)"
    and settled: "settled_both s (sd_delegations s ! i)"
  shows "scheduler_inv local frontier (finish i r s)"
proof (rule scheduler_invI)
  show "set (sd_fired (finish i r s)) \<subseteq> {..<length (sd_delegations (finish i r s))}"
    using inv by (simp add: finish_fields scheduler_inv_def)
  show "counts_inv (finish i r s)" "trees_inv (finish i r s)"
    using inv i by (simp_all add: scheduler_inv_def finish_counts finish_trees)
  show "lane_inv lane (lane_cap local frontier lane) (finish i r s)" for lane
    using finish_lane[OF scheduler_inv_lane[OF inv] i] settled by (simp add: settled_both_def)
  show "lock_inv (finish i r s)"
    using finish_lock[OF _ i] inv settled by (simp add: settled_both_def scheduler_inv_def)
next
  fix d
  assume "d \<in> set (sd_delegations (finish i r s))"
  then show "phase_ok (finish i r s) d"
    unfolding finish_fields(1)
  proof (cases rule: set_update_cases)
    case 1
    then show ?thesis by (simp add: phase_ok_ended)
  next
    case (2 j)
    show ?thesis
    proof (cases "is_live d")
      case True
      have "phase_ok s d" using 2 inv by (simp add: scheduler_inv_phase_ok)
      then show ?thesis using phase_ok_kept finish_keeps[OF inv i 2(1) _ 2(2)] True 2(3) by blast
    qed (rule phase_ok_ended)
  qed
qed

section \<open>A delegation goes on\<close>

text \<open>Delegation \<open>i\<close> changes into \<open>d\<close>, which has the same input, lane, scope and tree slot; the lock
  may change with it.\<close>

lemma change_inv:
  assumes inv: "scheduler_inv local frontier s" and i: "i < length (sd_delegations s)" "is_live (sd_delegations s ! i)"
    and d: "is_live d" "dg_input d = dg_input (sd_delegations s ! i)" "dg_model d = dg_model (sd_delegations s ! i)"
      "dg_grant d = dg_grant (sd_delegations s ! i)" "dg_tree d = dg_tree (sd_delegations s ! i)"
    and s': "s' = set_delegation i d (s\<lparr>sd_lock := l\<rparr>)"
    and lock: "lock_inv s'" "\<And>j. j < length (sd_delegations s) \<Longrightarrow> j \<noteq> i \<Longrightarrow> lock_kept s s' (sd_delegations s ! j)"
    and ok: "phase_ok s' d"
  shows "scheduler_inv local frontier s'"
proof -
  have ds: "sd_delegations s' = (sd_delegations s)[i := d]"
    and rest: "sd_fired s' = sd_fired s" "sd_counts s' = sd_counts s" "sd_trees s' = sd_trees s" "sd_lanes s' = sd_lanes s"
    by (simp_all add: s' set_delegation_def)
  have own: "owner f (sd_delegations s') = owner f (sd_delegations s)" if "f d = f (sd_delegations s ! i)" for f
    using owner_same[OF i d(1) that] by (simp add: ds)
  have handles: "lane_handle lane d = lane_handle lane (sd_delegations s ! i)"
    "tree_handle b d = tree_handle b (sd_delegations s ! i)" for lane b
    using d by (simp_all add: lane_handle_def tree_handle_def lane_of_def)
  have counts: "live_children (sd_delegations s') p = live_children (sd_delegations s) p" for p
    using live_children_update[OF i, of d p] d by (simp add: ds)
  show ?thesis
  proof (rule scheduler_invI)
    show "set (sd_fired s') \<subseteq> {..<length (sd_delegations s')}" "counts_inv s'" "trees_inv s'"
      using inv by (simp_all add: scheduler_inv_def counts_inv_def trees_inv_def rest counts own handles)
        (simp_all add: ds)
    show "lane_inv lane (lane_cap local frontier lane) s'" for lane
      by (rule lane_inv_cong[OF _ rest(1) own[OF handles(1)] scheduler_inv_lane[OF inv]]) (simp add: rest)
    show "lock_inv s'" by (rule lock(1))
    show "phase_ok s' e" if "e \<in> set (sd_delegations s')" for e
      using that unfolding ds
    proof (cases rule: set_update_cases)
      case (2 j)
      have "phase_ok s e" using 2 inv by (simp add: scheduler_inv_phase_ok)
      with lock(2)[OF 2(1,2)] lane_kept_same[OF rest(4)] show ?thesis
        unfolding 2(3) by (blast intro: phase_ok_kept)
    qed (use ok in simp)
  qed
qed

lemma set_delegation_fields [simp]:
  "sd_lock (set_delegation i d s) = sd_lock s" "sd_lanes (set_delegation i d s) = sd_lanes s"
  "sd_fired (set_delegation i d s) = sd_fired s" "sd_counts (set_delegation i d s) = sd_counts s"
  "sd_trees (set_delegation i d s) = sd_trees s"
  "sd_delegations (set_delegation i d s) = (sd_delegations s)[i := d]"
  by (simp_all add: set_delegation_def)

lemma lock_state_cong [simp]:
  "lock_state (set_delegation i d s) e = lock_state s e" "lane_state (set_delegation i d s) e = lane_state s e"
  "lane_known (set_delegation i d s) e = lane_known s e" "lock_known (set_delegation i d s) e = lock_known s e"
  "lane_state s (d\<lparr>dg_phase := ph\<rparr>) = lane_state s d" "lane_known s (d\<lparr>dg_phase := ph\<rparr>) = lane_known s d"
  "lane_state s (d\<lparr>dg_lock := u\<rparr>) = lane_state s d" "lane_known s (d\<lparr>dg_lock := u\<rparr>) = lane_known s d"
  "lock_state s (d\<lparr>dg_phase := ph\<rparr>) = lock_state s d"
  "lane_state (s\<lparr>sd_lock := l\<rparr>) d = lane_state s d" "lane_known (s\<lparr>sd_lock := l\<rparr>) d = lane_known s d"
  by (simp_all add: lock_state_def lane_state_def lane_known_def lock_known_def set_delegation_def lane_of_def
      cong: option.case_cong lane_grant.case_cong)

lemma running_inv:
  assumes inv: "scheduler_inv local frontier s" and i: "i < length (sd_delegations s)" "is_live (sd_delegations s ! i)"
    and ready: "lane_known s (sd_delegations s ! i)" "lane_state s (sd_delegations s ! i) = Granted"
      "holds_lock s (sd_delegations s ! i)"
  shows "scheduler_inv local frontier (set_delegation i ((sd_delegations s ! i)\<lparr>dg_phase := Running ts perm\<rparr>) s)"
    (is "scheduler_inv _ _ ?s'")
proof (rule change_inv[OF inv i])
  let ?d = "(sd_delegations s ! i)\<lparr>dg_phase := Running ts perm\<rparr>"
  show "?s' = set_delegation i ?d (s\<lparr>sd_lock := sd_lock s\<rparr>)" by simp
  have "owner dg_lock (sd_delegations ?s') = owner dg_lock (sd_delegations s)"
    using owner_same[OF i, of ?d dg_lock] by (simp add: set_delegation_def)
  then show "lock_inv ?s'"
    using inv unfolding scheduler_inv_def lock_inv_def
    by (simp add: set_delegation_def scope_update)
  show "lock_kept s ?s' (sd_delegations s ! j)" for j by (simp add: lock_kept_def)
  show "phase_ok ?s' ?d" using ready by (simp add: phase_ok_def holds_lock_def)
qed simp_all

lemma pl_acquire_fresh:
  assumes "pl_inv l" "sg \<notin> set (pl_fired l)"
  shows "pl_acquire sc (Some sg) l \<noteq> l"
proof -
  have "pl_issued (pl_acquire sc (Some sg) l) = Suc (pl_issued l)"
    using assms(2) by (simp add: pl_acquire_def)
  then show ?thesis by (metis n_not_Suc_n)
qed

lemma pl_scopes_live: "(t, sc) \<in> pl_scopes l \<Longrightarrow> t \<in> pl.live l"
  by (force simp: pl_scopes_def pl_held_handles_def pl_waiting_def)

lemma take_lock_inv:
  assumes inv: "scheduler_inv local frontier s" and i: "i < length (sd_delegations s)" "is_live (sd_delegations s ! i)"
    and ready: "lane_known s (sd_delegations s ! i)" "lane_state s (sd_delegations s ! i) = Granted"
    and free: "dg_lock (sd_delegations s ! i) = None" "dg_scope (sd_delegations s ! i) = Some sc"
    and fired: "i \<notin> set (sd_fired s)"
  shows "scheduler_inv local frontier
    (set_delegation i ((sd_delegations s ! i)\<lparr>dg_lock := Some (pl_issued (sd_lock s)), dg_phase := Waiting_lock\<rparr>)
      (s\<lparr>sd_lock := pl_acquire sc (Some i) (sd_lock s)\<rparr>))"
    (is "scheduler_inv _ _ ?s'")
proof (rule change_inv[OF inv i])
  let ?d = "(sd_delegations s ! i)\<lparr>dg_lock := Some (pl_issued (sd_lock s)), dg_phase := Waiting_lock\<rparr>"
  let ?l = "sd_lock s"
  let ?l' = "pl_acquire sc (Some i) ?l"
  show "?s' = set_delegation i ?d (s\<lparr>sd_lock := ?l'\<rparr>)" by simp
  have ok: "pl_settling.settled_ok ?l" and pl: "pl_inv ?l"
    and owned: "owned (owner dg_lock (sd_delegations s)) (pl.live ?l) (pl_issued ?l)"
    and fired_l: "set (pl_fired ?l) = set (sd_fired s)"
    and scopes: "\<And>t sc j. (t, sc) \<in> pl_scopes ?l \<Longrightarrow> owner dg_lock (sd_delegations s) j = Some t
        \<Longrightarrow> dg_scope (sd_delegations s ! j) = Some sc"
    using inv by (auto simp: scheduler_inv_def lock_inv_def)
  have fresh: "?l' \<noteq> ?l" using pl_acquire_fresh[OF pl] fired fired_l by simp
  have none: "owner dg_lock (sd_delegations s) i = None" using i free by (simp add: owner_at)
  have own: "owner dg_lock (sd_delegations ?s') = (owner dg_lock (sd_delegations s))(i \<mapsto> pl_issued ?l)"
    using i by (simp add: set_delegation_def owner_update)
  have scope: "dg_scope (sd_delegations s ! j) = Some sc'"
    if "(t, sc') \<in> pl_scopes ?l'" "((owner dg_lock (sd_delegations s))(i \<mapsto> pl_issued ?l)) j = Some t" for t sc' j
  proof (cases "j = i")
    case True
    then have "t = pl_issued ?l" using that by simp
    then have "(t, sc') \<notin> pl_scopes ?l" using pl_scopes_live pl.handles[OF pl] by fastforce
    then show ?thesis using that True free pl_acquire_scopes[of sc "Some i" ?l] by auto
  next
    case False
    then have "t < pl_issued ?l" using that owned_bound[OF owned] by simp
    then show ?thesis using that False pl_acquire_scopes[of sc "Some i" ?l] scopes by auto
  qed
  have scope_same: "dg_scope (sd_delegations ?s' ! j) = dg_scope (sd_delegations s ! j)" for j
    by (simp add: set_delegation_def scope_update)
  show "lock_inv ?s'"
    unfolding lock_inv_def own scope_same
    using pl_settling.owned_acquire[OF pl owned none fresh] pl_settling.acquire_settled[OF ok, of sc "Some i"] fired_l scope
    by (simp add: set_delegation_def)
  show "lock_kept s ?s' (sd_delegations s ! j)" for j
    by (rule lock_kept_step) (use pl_settling.acquire_kept[OF pl] in \<open>simp add: set_delegation_def\<close>)
  have "pl_issued ?l \<in> pl_settling.known ?l'"
    using pl_settling.acquire_fresh[OF pl fresh] by simp
  then show "phase_ok ?s' ?d"
    using ready free by (simp add: phase_ok_def lock_known_def)
qed simp_all

lemma start_child_inv:
  assumes inv: "scheduler_inv local frontier s" and i: "i < length (sd_delegations s)" "is_live (sd_delegations s ! i)"
    and ready: "lane_known s (sd_delegations s ! i)" "lane_state s (sd_delegations s ! i) = Granted"
      "holds_lock s (sd_delegations s ! i)"
  shows "scheduler_inv local frontier (start_child now i s)"
proof -
  have "settled_both s (sd_delegations s ! i)"
    using ready by (simp add: settled_both_def holds_lock_def split: if_splits)
  from finish_inv[OF inv i this] running_inv[OF inv i ready]
  show ?thesis by (simp add: start_child_def Let_def split: option.split sum.split prod.split)
qed

lemma take_lock_step_inv:
  assumes inv: "scheduler_inv local frontier s" and i: "i < length (sd_delegations s)" "is_live (sd_delegations s ! i)"
    and ready: "lane_known s (sd_delegations s ! i)" "lane_state s (sd_delegations s ! i) = Granted"
    and free: "dg_lock (sd_delegations s ! i) = None"
  shows "scheduler_inv local frontier (take_lock now i s)"
proof (cases "deadline_error (i \<in> set (sd_fired s)) (dg_deadline (sd_delegations s ! i)) now")
  case (Some m)
  have "settled_both s (sd_delegations s ! i)" using ready free by (simp add: settled_both_def)
  from finish_inv[OF inv i this] Some show ?thesis by (simp add: take_lock_def)
next
  case None
  then have fired: "i \<notin> set (sd_fired s)" by (auto simp: deadline_error_def)
  show ?thesis
  proof (cases "dg_scope (sd_delegations s ! i)")
    case None
    have "holds_lock s (sd_delegations s ! i)" using None free by (simp add: holds_lock_def)
    from start_child_inv[OF inv i ready this] None \<open>deadline_error _ _ _ = None\<close>
    show ?thesis by (simp add: take_lock_def)
  next
    case (Some sc)
    from take_lock_inv[OF inv i ready free Some fired] Some \<open>deadline_error _ _ _ = None\<close>
    show ?thesis by (simp add: take_lock_def Let_def)
  qed
qed

lemma phase_live [simp]:
  "dg_phase d = Waiting_lane \<Longrightarrow> is_live d" "dg_phase d = Waiting_lock \<Longrightarrow> is_live d"
  "dg_phase d = Running ts perm \<Longrightarrow> is_live d"
  by (simp_all add: is_live_def)

lemma turn_inv:
  assumes inv: "scheduler_inv local frontier s"
  shows "scheduler_inv local frontier (turn now i s)"
proof (cases "i < length (sd_delegations s)")
  case True
  let ?d = "sd_delegations s ! i"
  have ok: "phase_ok s ?d" using inv True by (simp add: scheduler_inv_phase_ok)
  show ?thesis
  proof (cases "dg_phase ?d")
    case Waiting_lane
    then have known: "lane_known s ?d" "dg_lock ?d = None" and live: "is_live ?d"
      using ok by (simp_all add: phase_ok_def)
    show ?thesis
    proof (cases "lane_state s ?d")
      case Granted
      then show ?thesis
        using take_lock_step_inv[OF inv True live known(1) Granted known(2)] Waiting_lane True by (simp add: turn_def Let_def)
    next
      case Rejected
      then show ?thesis
        using finish_inv[OF inv True live] known Waiting_lane True by (simp add: turn_def Let_def settled_both_def)
    next
      case Pending
      then show ?thesis using inv Waiting_lane True by (simp add: turn_def)
    qed
  next
    case Waiting_lock
    then have known: "lane_known s ?d" "lane_state s ?d = Granted" "dg_scope ?d \<noteq> None" and live: "is_live ?d"
      using ok by (simp_all add: phase_ok_def)
    show ?thesis
    proof (cases "lock_state s ?d")
      case Granted
      then have "holds_lock s ?d" using known by (auto simp: holds_lock_def)
      from start_child_inv[OF inv True live known(1,2) this] Granted Waiting_lock True
      show ?thesis by (simp add: turn_def Let_def)
    next
      case Rejected
      then show ?thesis
        using finish_inv[OF inv True live] known Waiting_lock True by (simp add: turn_def Let_def settled_both_def)
    next
      case Pending
      then show ?thesis using inv Waiting_lock True by (simp add: turn_def)
    qed
  qed (use inv True in \<open>simp_all add: turn_def\<close>)
qed (use inv in \<open>simp add: turn_def\<close>)

lemma child_ends_inv:
  assumes inv: "scheduler_inv local frontier s"
  shows "scheduler_inv local frontier (child_ends i e s)"
proof (cases "i < length (sd_delegations s) \<and> is_running (sd_delegations s ! i)")
  case True
  then have i: "i < length (sd_delegations s)" by simp
  from True obtain ts perm where ph: "dg_phase (sd_delegations s ! i) = Running ts perm"
    by (auto simp: is_running_def split: child_phase.splits)
  then have "settled_both s (sd_delegations s ! i)"
    using scheduler_inv_phase_ok[OF inv nth_mem[OF i]]
    by (simp add: phase_ok_def settled_both_def holds_lock_def split: if_splits)
  from finish_inv[OF inv i phase_live(3)[OF ph] this] True show ?thesis by (simp add: child_ends_def)
qed (use inv in \<open>auto simp: child_ends_def\<close>)

section \<open>Aborts, requests and admission\<close>

lemma abort_child_inv:
  assumes inv: "scheduler_inv local frontier s"
  shows "scheduler_inv local frontier (abort_child i s)"
proof (cases "i < length (sd_delegations s)")
  case True
  then have s': "abort_child i s = s\<lparr>sd_fired := i # sd_fired s, sd_lanes := lanes_fire i (sd_lanes s),
      sd_lock := pl_fire i (sd_lock s)\<rparr>" (is "_ = ?s'") by (simp add: abort_child_def)
  have pl: "pl_settling.settled_ok (sd_lock s)" "pl_inv (sd_lock s)" using inv by (simp_all add: scheduler_inv_def lock_inv_def)
  show ?thesis
    unfolding s'
  proof (rule scheduler_invI)
    show "set (sd_fired ?s') \<subseteq> {..<length (sd_delegations ?s')}" "counts_inv ?s'" "trees_inv ?s'"
      using inv True by (simp_all add: scheduler_inv_def counts_inv_def trees_inv_def)
    show "lane_inv lane (lane_cap local frontier lane) ?s'" for lane
    proof (rule lane_inv_map[where f = "sem_fire i", OF scheduler_inv_lane[OF inv]])
      fix c sem
      assume ok: "sem_settling.settled_ok c sem"
        and owned: "owned (owner (lane_handle lane) (sd_delegations s)) (sem.live sem) (sem_issued sem)"
        and fired: "set (sem_fired sem) = set (sd_fired s)"
      have inv_c: "sem_inv c sem" using ok by simp
      from sem_settling.fire_settled[OF ok, of i] sem_settling.owned_fire[OF inv_c owned, of i] fired
      show "sem_settling.settled_ok c (sem_fire i sem)
        \<and> owned (owner (lane_handle lane) (sd_delegations ?s')) (sem.live (sem_fire i sem)) (sem_issued (sem_fire i sem))
        \<and> set (sem_fired (sem_fire i sem)) = set (sd_fired ?s')"
        by (simp add: sem_fired_fire)
    qed simp
    have "dg_scope (sd_delegations s ! j) = Some sc"
      if "(t, sc) \<in> pl_scopes (pl_fire i (sd_lock s))" "owner dg_lock (sd_delegations s) j = Some t" for t sc j
      using that pl_fire_scopes[of i "sd_lock s"] inv unfolding scheduler_inv_def lock_inv_def by blast
    moreover have "pl_settling.settled_ok (pl_fire i (sd_lock s))" by (rule pl_settling.fire_settled[OF pl(1)])
    moreover have "owned (owner dg_lock (sd_delegations s)) (pl.live (pl_fire i (sd_lock s))) (pl_issued (pl_fire i (sd_lock s)))"
      by (rule pl_settling.owned_fire[OF pl(2)]) (use inv in \<open>simp add: scheduler_inv_def lock_inv_def\<close>)
    moreover have "set (pl_fired (pl_fire i (sd_lock s))) = insert i (set (sd_fired s))"
      using inv by (simp add: pl_fired_fire scheduler_inv_def lock_inv_def)
    ultimately show "lock_inv ?s'" by (simp add: lock_inv_def)
  next
    fix d
    assume "d \<in> set (sd_delegations ?s')"
    then have "phase_ok s d" using inv by (simp add: scheduler_inv_phase_ok)
    moreover have "lane_kept s ?s' d"
    proof (rule lane_kept_map[where f = "sem_fire i"])
      fix t sem
      assume sem: "lane_sem (lane_of d) (sd_lanes s) = Some sem"
      from scheduler_inv_sem[OF inv sem] obtain c where "sem_inv c sem" by blast
      then show "(t \<in> set (sem_held sem) \<longrightarrow> t \<in> set (sem_held (sem_fire i sem)))
          \<and> (t \<in> sem_settling.known sem \<longrightarrow> t \<in> sem_settling.known (sem_fire i sem))"
        by (rule sem_settling.fire_kept)
    qed simp
    moreover have "lock_kept s ?s' d"
      by (rule lock_kept_step) (use pl_settling.fire_kept[OF pl(2)] in simp)
    ultimately show "phase_ok ?s' d" by (blast intro: phase_ok_kept)
  qed
qed (use inv in \<open>simp add: abort_child_def\<close>)

lemma owned_mono: "owned own live n \<Longrightarrow> n \<le> m \<Longrightarrow> owned own live m"
  unfolding owned_def by fastforce

lemma trees_only_inv:
  assumes inv: "scheduler_inv local frontier s" and trees: "trees_inv (s\<lparr>sd_trees := ts\<rparr>)"
  shows "scheduler_inv local frontier (s\<lparr>sd_trees := ts\<rparr>)"
proof (rule scheduler_invI)
  show "phase_ok (s\<lparr>sd_trees := ts\<rparr>) d" if "d \<in> set (sd_delegations (s\<lparr>sd_trees := ts\<rparr>))" for d
    using that scheduler_inv_phase_ok[OF inv, of d] lane_kept_same[of "s\<lparr>sd_trees := ts\<rparr>" s] lock_kept_same[of "s\<lparr>sd_trees := ts\<rparr>" s]
    by (auto intro: phase_ok_kept)
  show "lane_inv lane (lane_cap local frontier lane) (s\<lparr>sd_trees := ts\<rparr>)" for lane
    by (rule lane_inv_cong[OF _ _ _ scheduler_inv_lane[OF inv]]) simp_all
qed (use inv trees in \<open>simp_all add: scheduler_inv_def counts_inv_def lock_inv_def\<close>)

lemma tree_request_frame:
  assumes "tb_inv b"
  shows "tb_inv (tree_request ev b) \<and> tb_children (tree_request ev b) = tb_children b \<and> tb_next b \<le> tb_next (tree_request ev b)"
proof (cases ev)
  case (Request_reserved t c)
  then show ?thesis
    using reserve_request_inv[OF assms, of t c] by (cases rule: reserve_request_cases[of t c b]) simp_all
next
  case (Request_settled h u c k)
  then show ?thesis using settle_request_inv[OF assms] by (simp add: settle_request_frame)
qed

lemma tree_request_inv:
  assumes "scheduler_inv local frontier s"
  shows "scheduler_inv local frontier (s\<lparr>sd_trees := tree_update b (tree_request ev) (sd_trees s)\<rparr>)"
proof (rule trees_only_inv[OF assms])
  have "trees_inv s" using assms by (simp add: scheduler_inv_def)
  then show "trees_inv (s\<lparr>sd_trees := tree_update b (tree_request ev) (sd_trees s)\<rparr>)"
    using tree_request_frame unfolding trees_inv_def by (auto intro: owned_mono)
qed

text \<open>A reservation of a tree slot.\<close>

lemma tree_reserve_fail:
  "tree_reserve policy depth ts = (Inl e, ts') \<Longrightarrow> ts' = ts"
  "tree_reserve policy depth ts = (Inr None, ts') \<Longrightarrow> ts' = ts"
  by (auto simp: tree_reserve_def reserve_child_def list_update_beyond
      split: option.splits if_splits prod.splits sum.splits)

lemma tree_reserve_ok:
  assumes "tree_reserve policy depth ts = (Inr (Some (b, h)), ts')"
  obtains "b < length ts" "h = tb_next (ts ! b)" "ts' = ts[b := fst (reserve_child depth (ts ! b))]"
    "tb_children (fst (reserve_child depth (ts ! b))) = h # tb_children (ts ! b)"
    "tb_next (fst (reserve_child depth (ts ! b))) = Suc h"
proof -
  obtain b' where b': "opt_bind policy cp_tree = Some b'" "b' < length ts"
    using assms by (auto simp: tree_reserve_def split: option.splits if_splits)
  obtain t r where t: "reserve_child depth (ts ! b') = (t, r)" by fastforce
  then have "b' = b" "r = Inr h" "ts' = ts[b := t]"
    using assms b' by (auto simp: tree_reserve_def split: sum.splits)
  with t b' show ?thesis
    by (intro that) (auto simp: reserve_child_def split: if_splits)
qed

text \<open>The slot of a new delegation, and the slot given back when the admission fails.\<close>

lemma tree_reserve_inv:
  assumes inv: "trees_inv s" and res: "tree_reserve policy depth (sd_trees s) = (Inr r, ts)"
    and s': "sd_trees s' = ts" "sd_delegations s' = sd_delegations s @ [d]" and d: "is_live d" "dg_tree d = r"
  shows "trees_inv s'"
proof (cases r)
  case None
  then have "owner (tree_handle b) (sd_delegations s') = owner (tree_handle b) (sd_delegations s)" for b
    using d by (simp add: s' owner_append tree_handle_def fun_upd_idem)
  then show ?thesis using inv tree_reserve_fail(2)[OF res[unfolded None]] by (simp add: trees_inv_def s')
next
  case (Some bh)
  obtain b h where bh: "r = Some (b, h)" using Some by (cases bh) simp
  from tree_reserve_ok[OF res[unfolded bh]] have b: "b < length (sd_trees s)" "h = tb_next (sd_trees s ! b)"
    and ts: "ts = (sd_trees s)[b := fst (reserve_child depth (sd_trees s ! b))]"
    and new: "tb_children (fst (reserve_child depth (sd_trees s ! b))) = h # tb_children (sd_trees s ! b)"
      "tb_next (fst (reserve_child depth (sd_trees s ! b))) = Suc h" by blast+
  have own: "owner (tree_handle k) (sd_delegations s')
      = (owner (tree_handle k) (sd_delegations s))(length (sd_delegations s) := if k = b then Some h else None)" for k
    using d by (simp add: s' owner_append tree_handle_def bh)
  show ?thesis
    unfolding trees_inv_def
  proof (intro allI impI)
    fix k
    assume k: "k < length (sd_trees s')"
    then have t: "tb_inv (sd_trees s ! k)"
      "owned (owner (tree_handle k) (sd_delegations s)) (set (tb_children (sd_trees s ! k))) (tb_next (sd_trees s ! k))"
      "ran (owner (tree_handle k) (sd_delegations s)) \<subseteq> set (tb_children (sd_trees s ! k))"
      using inv by (simp_all add: trees_inv_def s' ts)
    show "tb_inv (sd_trees s' ! k)
      \<and> owned (owner (tree_handle k) (sd_delegations s')) (set (tb_children (sd_trees s' ! k))) (tb_next (sd_trees s' ! k))
      \<and> ran (owner (tree_handle k) (sd_delegations s')) \<subseteq> set (tb_children (sd_trees s' ! k))"
    proof (cases "k = b")
      case True
      have "sd_trees s' ! k = fst (reserve_child depth (sd_trees s ! b))" using True b by (simp add: s' ts)
      moreover have "ran (owner (tree_handle k) (sd_delegations s')) = insert h (ran (owner (tree_handle k) (sd_delegations s)))"
        using True by (simp add: own)
      moreover have "owned (owner (tree_handle k) (sd_delegations s')) (insert h (set (tb_children (sd_trees s ! b)))) (Suc h)"
        using owned_add[OF t(2) owner_out] True b(2) unfolding own by simp
      ultimately show ?thesis using t(1,3) True reserve_child_inv[of "sd_trees s ! b" depth] by (auto simp: new)
    next
      case False
      then have "owner (tree_handle k) (sd_delegations s') = owner (tree_handle k) (sd_delegations s)"
        by (simp add: own fun_upd_idem)
      moreover have "sd_trees s' ! k = sd_trees s ! k" using False by (simp add: s' ts)
      ultimately show ?thesis using t by simp
    qed
  qed
qed

lemma tree_give_back_inv:
  assumes inv: "trees_inv s" and res: "tree_reserve policy depth (sd_trees s) = (Inr r, ts)"
  shows "trees_inv (s\<lparr>sd_trees := tree_release r ts\<rparr>)"
proof (cases r)
  case None
  with inv tree_reserve_fail(2)[OF res[unfolded None]] show ?thesis by (simp add: tree_release_def)
next
  case (Some bh)
  obtain b h where bh: "r = Some (b, h)" using Some by (cases bh) simp
  from tree_reserve_ok[OF res[unfolded bh]] have b: "b < length (sd_trees s)" "h = tb_next (sd_trees s ! b)"
    and ts: "ts = (sd_trees s)[b := fst (reserve_child depth (sd_trees s ! b))]"
    and new: "tb_children (fst (reserve_child depth (sd_trees s ! b))) = h # tb_children (sd_trees s ! b)"
      "tb_next (fst (reserve_child depth (sd_trees s ! b))) = Suc h" by blast+
  let ?t = "release_child h (fst (reserve_child depth (sd_trees s ! b)))"
  have old: "tb_inv (sd_trees s ! b)" using inv b by (simp add: trees_inv_def)
  then have "h \<notin> set (tb_children (sd_trees s ! b))" using b(2) by (auto simp: tb_inv_def)
  moreover have t: "tb_inv (fst (reserve_child depth (sd_trees s ! b)))" "h \<in> set (tb_children (fst (reserve_child depth (sd_trees s ! b))))"
    using reserve_child_inv[OF old] new by simp_all
  ultimately have rel: "set (tb_children ?t) = set (tb_children (sd_trees s ! b))" "tb_next ?t = Suc h" "tb_inv ?t"
    using release_child_set[OF t] release_child_inv[OF t(1)] new by simp_all
  have trees: "tree_release r ts ! k = (if k = b then ?t else sd_trees s ! k)" if "k < length (sd_trees s)" for k
    using that b by (simp add: bh tree_release_def ts)
  have "owned (owner (tree_handle b) (sd_delegations s)) (set (tb_children (sd_trees s ! b))) (Suc h)"
    by (rule owned_mono[of _ _ "tb_next (sd_trees s ! b)"]) (use inv b in \<open>simp_all add: trees_inv_def\<close>)
  then show ?thesis
    using inv trees rel by (auto simp: trees_inv_def ts)
qed

lemma give_back_inv:
  assumes inv: "scheduler_inv local frontier s" and trees: "trees_inv (s\<lparr>sd_trees := ts\<rparr>)"
  shows "scheduler_inv local frontier (s\<lparr>sd_counts := count_down p (count_up p (sd_counts s)), sd_trees := ts\<rparr>)"
proof -
  have t: "scheduler_inv local frontier (s\<lparr>sd_trees := ts\<rparr>)" by (rule trees_only_inv[OF inv trees])
  let ?s' = "s\<lparr>sd_counts := count_down p (count_up p (sd_counts s)), sd_trees := ts\<rparr>"
  have "map_of (sd_counts ?s') q = map_of (sd_counts s) q" for q
  proof -
    have "map_of (sd_counts s) q \<noteq> Some 0"
      using inv by (auto simp: scheduler_inv_def counts_inv_def Let_def split: if_splits)
    then show ?thesis by (cases "map_of (sd_counts s) q") (auto simp: count_down_map_of count_up_map_of value_or_def)
  qed
  then have "counts_inv ?s'" using inv by (simp add: scheduler_inv_def counts_inv_def)
  moreover have "phase_ok ?s' d = phase_ok (s\<lparr>sd_trees := ts\<rparr>) d" for d
    by (rule phase_ok_same) simp_all
  moreover have "lane_inv lane cap ?s'" if "lane_inv lane cap (s\<lparr>sd_trees := ts\<rparr>)" for lane cap
    by (rule lane_inv_cong[OF _ _ _ that]) simp_all
  ultimately show ?thesis
    using t by (simp add: scheduler_inv_def lock_inv_def trees_inv_def phases_inv_def)
qed

lemma lanes_acquire_eq:
  "lanes_acquire lane sg ls =
     (map_lane lane (sem_acquire () sg) ls,
      case lane_sem lane ls of
        None \<Rightarrow> No_op_release
      | Some sem \<Rightarrow> if sem_issued (sem_acquire () sg sem) = sem_issued sem then Aborted_at_once
          else Semaphore_handle (sem_issued sem))"
  by (cases lane) (simp_all add: lanes_acquire_def lane_sem_def map_lane_def Let_def split: option.split)

lemma sem_acquire_fresh:
  "sg \<notin> set (sem_fired sem) \<Longrightarrow> sem_issued (sem_acquire () (Some sg) sem) = Suc (sem_issued sem)"
  by (simp add: sem_acquire_def)

text \<open>The delegation that \<open>admit\<close> appends.\<close>

lemma new_delegation_inv:
  assumes inv: "scheduler_inv local frontier s"
    and res: "tree_reserve policy depth (sd_trees s) = (Inr r, ts)"
    and la: "lanes_acquire lane (Some (length (sd_delegations s))) (sd_lanes s) = (lanes, grant)"
    and d: "dg_phase d = Waiting_lane" "dg_tree d = r" "dg_lock d = None" "lane_of d = lane" "dg_grant d = grant"
      "di_parent (dg_input d) = p"
  shows "scheduler_inv local frontier
    (s\<lparr>sd_counts := count_up p (sd_counts s), sd_trees := ts, sd_lanes := lanes,
       sd_delegations := sd_delegations s @ [d]\<rparr>)" (is "scheduler_inv _ _ ?s'")
proof -
  let ?n = "length (sd_delegations s)"
  let ?f = "sem_acquire () (Some ?n)"
  have live: "is_live d" using d(1) by simp
  have lanes: "lanes = map_lane lane ?f (sd_lanes s)"
    and grant: "grant = (case lane_sem lane (sd_lanes s) of None \<Rightarrow> No_op_release
        | Some sem \<Rightarrow> if sem_issued (?f sem) = sem_issued sem then Aborted_at_once else Semaphore_handle (sem_issued sem))"
    using la by (simp_all add: lanes_acquire_eq)
  have fresh: "sem_issued (?f sem) = Suc (sem_issued sem)" "?f sem \<noteq> sem" if "lane_sem l (sd_lanes s) = Some sem" for l sem
  proof -
    have "?n \<notin> set (sem_fired sem)"
      using scheduler_inv_sem[OF inv that] inv by (auto simp: scheduler_inv_def)
    then show "sem_issued (?f sem) = Suc (sem_issued sem)" by (rule sem_acquire_fresh)
    then show "?f sem \<noteq> sem" by (metis n_not_Suc_n)
  qed
  have own: "owner f (sd_delegations ?s') = (owner f (sd_delegations s))(?n := f d)" for f
    using live by (simp add: owner_append)
  have handle: "lane_handle lane d = Some (sem_issued sem)" if "lane_sem lane (sd_lanes s) = Some sem" for sem
    using d fresh[OF that] grant that by (simp add: lane_handle_def grant_handle_def)
  show ?thesis
  proof (rule scheduler_invI)
    show "set (sd_fired ?s') \<subseteq> {..<length (sd_delegations ?s')}"
      using inv by (auto simp: scheduler_inv_def less_Suc_eq)
    show "counts_inv ?s'"
      unfolding counts_inv_def
    proof
      fix q
      have "map_of (sd_counts s) q = (let n = live_children (sd_delegations s) q in if n = 0 then None else Some n)"
        using inv by (simp add: scheduler_inv_def counts_inv_def)
      then show "map_of (sd_counts ?s') q = (let n = live_children (sd_delegations ?s') q in if n = 0 then None else Some n)"
        using d(6) by (auto simp: count_up_map_of live_children_append[OF live] Let_def value_or_def split: if_splits)
    qed
    show "trees_inv ?s'"
      by (rule tree_reserve_inv[OF _ res _ _ live d(2)]) (use inv in \<open>simp_all add: scheduler_inv_def\<close>)
    have "owner dg_lock (sd_delegations ?s') = owner dg_lock (sd_delegations s)"
      using d(3) by (simp only: own fun_upd_idem owner_out)
    moreover have "dg_scope (sd_delegations ?s' ! j) = dg_scope (sd_delegations s ! j)"
      if "owner dg_lock (sd_delegations s) j = Some t" for j t
      using that by (simp add: owner_def nth_append split: if_splits)
    ultimately show "lock_inv ?s'"
      using inv unfolding scheduler_inv_def lock_inv_def by simp
  next
    fix l
    show "lane_inv l (lane_cap local frontier l) ?s'"
    proof (cases "l = lane")
      case False
      then have "owner (lane_handle l) (sd_delegations ?s') = owner (lane_handle l) (sd_delegations s)"
        using d(4) by (simp only: own lane_handle_def[of l d] fun_upd_idem owner_out) (simp add: fun_upd_idem)
      then show ?thesis
        by (intro lane_inv_cong[OF _ _ _ scheduler_inv_lane[OF inv]]) (use False in \<open>simp_all add: lanes\<close>)
    next
      case True
      show ?thesis
        unfolding True
      proof (rule lane_inv_map[where f = ?f, OF scheduler_inv_lane[OF inv]])
        fix c sem
        assume sem: "lane_sem lane (sd_lanes s) = Some sem" and ok: "sem_settling.settled_ok c sem"
          and owned: "owned (owner (lane_handle lane) (sd_delegations s)) (sem.live sem) (sem_issued sem)"
          and fired: "set (sem_fired sem) = set (sd_fired s)"
        have inv_c: "sem_inv c sem" using ok by simp
        from sem_settling.owned_acquire[OF inv_c owned owner_out fresh(2)[OF sem]]
          sem_settling.acquire_settled[OF ok, of "()" "Some ?n"] fired
        show "sem_settling.settled_ok c (?f sem)
          \<and> owned (owner (lane_handle lane) (sd_delegations ?s')) (sem.live (?f sem)) (sem_issued (?f sem))
          \<and> set (sem_fired (?f sem)) = set (sd_fired ?s')"
          unfolding own handle[OF sem] by simp
      qed (simp add: lanes)
    qed
  next
    fix e
    assume "e \<in> set (sd_delegations ?s')"
    then consider "e = d" | "e \<in> set (sd_delegations s)" by auto
    then show "phase_ok ?s' e"
    proof cases
      case 1
      have "lane_known ?s' d"
      proof (cases "lane_sem lane (sd_lanes s)")
        case None
        then show ?thesis using d grant by (simp add: lane_known_def lanes)
      next
        case (Some sem)
        from scheduler_inv_sem[OF inv Some] obtain c where "sem_inv c sem" by blast
        from sem_settling.acquire_fresh[OF this fresh(2)[OF Some]]
        have "sem_issued sem \<in> sem_settling.known (?f sem)" by blast
        then show ?thesis using d grant fresh(1)[OF Some] Some by (simp add: lane_known_def lanes)
      qed
      then show ?thesis using 1 d by (simp add: phase_ok_def)
    next
      case 2
      have "lane_kept s ?s' e"
      proof (cases "lane_of e = lane")
        case True
        then show ?thesis
        proof (intro lane_kept_map[where f = ?f])
          fix t sem
          assume sem: "lane_sem (lane_of e) (sd_lanes s) = Some sem"
          from scheduler_inv_sem[OF inv sem] obtain c where "sem_inv c sem" by blast
          then show "(t \<in> set (sem_held sem) \<longrightarrow> t \<in> set (sem_held (?f sem)))
              \<and> (t \<in> sem_settling.known sem \<longrightarrow> t \<in> sem_settling.known (?f sem))"
            by (rule sem_settling.acquire_kept)
        qed (simp add: lanes)
      next
        case False
        then show ?thesis by (intro lane_kept_map[where f = id]) (simp_all add: lanes option.map_id)
      qed
      moreover have "lock_kept s ?s' e" by (rule lock_kept_same) simp
      ultimately show ?thesis using scheduler_inv_phase_ok[OF inv 2] by (blast intro: phase_ok_kept)
    qed
  qed
qed

lemma admit_inv:
  assumes inv: "scheduler_inv local frontier s"
  shows "scheduler_inv local frontier (snd (admit opts now inp agent deadline s))"
proof -
  let ?policy = "case di_policy inp of Some p \<Rightarrow> Some p | None \<Rightarrow> so_policy opts"
  let ?model = "resolve_provider_model (so_compare opts) (so_routing opts) agent (di_role inp)"
  have trees: "trees_inv (s\<lparr>sd_trees := sd_trees s\<rparr>)" using inv by (simp add: scheduler_inv_def)
  obtain r ts where res: "tree_reserve ?policy (js_succ (di_depth inp)) (sd_trees s) = (r, ts)" by fastforce
  obtain lanes grant where la: "lanes_acquire (lane_for (fst ?model)) (Some (length (sd_delegations s))) (sd_lanes s)
      = (lanes, grant)" by fastforce
  show ?thesis
  proof (cases "uses_subprocess opts agent \<and> (?policy \<noteq> None \<or> di_restricted inp)")
    case True
    then show ?thesis
      using give_back_inv[OF inv trees, of "di_parent inp"] by (simp add: admit_def Let_def tree_release_def)
  next
    case False
    show ?thesis
    proof (cases r)
      case (Inl e)
      then have "ts = sd_trees s" using res tree_reserve_fail(1) by blast
      then show ?thesis
        using give_back_inv[OF inv trees, of "di_parent inp"] res Inl
        unfolding admit_def Let_def if_not_P[OF False] by (simp add: tree_release_def)
    next
      case (Inr tree)
      note res = res[unfolded Inr]
      show ?thesis
      proof (cases "or_else (so_hook_error opts agent (di_role inp)) (deadline_error (di_aborted inp) deadline now)")
        case (Some m)
        have "trees_inv (s\<lparr>sd_trees := tree_release tree ts\<rparr>)"
          by (rule tree_give_back_inv[OF _ res]) (use inv in \<open>simp add: scheduler_inv_def\<close>)
        from give_back_inv[OF inv this, of "di_parent inp"] res Some show ?thesis
          unfolding admit_def Let_def if_not_P[OF False] by simp
      next
        case None
        let ?d = "\<lparr>dg_input = inp, dg_agent = agent, dg_policy = ?policy, dg_model = ?model,
            dg_deadline = deadline, dg_scope = lock_scope opts agent inp, dg_tree = tree,
            dg_grant = grant, dg_lock = None, dg_phase = Waiting_lane\<rparr>"
        from new_delegation_inv[OF inv res la, of ?d "di_parent inp"] res None la show ?thesis
          unfolding admit_def Let_def if_not_P[OF False] by (simp add: lane_of_def)
      qed
    qed
  qed
qed

lemma delegate_inv:
  "scheduler_inv local frontier s \<Longrightarrow> scheduler_inv local frontier (snd (delegate opts now inp s))"
  by (simp add: delegate_def admit_inv split: option.split sum.split)

interpretation sched: invariant_machine "scheduler_new local frontier limits" "scheduler_step opts"
  "scheduler_inv local frontier" for local frontier limits opts
proof unfold_locales
  show "scheduler_inv local frontier (scheduler_new local frontier limits)" by (rule scheduler_inv_start)
  show "scheduler_inv local frontier (scheduler_step opts s e)" if "scheduler_inv local frontier s" for s e
    using that by (cases e) (simp_all add: delegate_inv turn_inv child_ends_inv abort_child_inv tree_request_inv)
qed

end
