(* ===== verification/Delegation_Proofs.thy ===== *)
theory Delegation_Proofs
  imports Delegation_Invariant
begin

text \<open>
  What the scheduler promises, from the invariant of \<open>Delegation_Invariant\<close>: the limits of a parent
  and of a lane hold, children that may write the same file never run together, nothing leaks, nobody
  is stuck, and without further calls every delegation ends.
\<close>

section \<open>How delegations change\<close>

text \<open>Nothing of a delegation changes but its lock and its phase, and an ended one stays ended.\<close>

definition same_child :: "delegation \<Rightarrow> delegation \<Rightarrow> bool" where
  "same_child d e \<longleftrightarrow> dg_input e = dg_input d \<and> dg_agent e = dg_agent d \<and> dg_scope e = dg_scope d
     \<and> dg_model e = dg_model d \<and> (is_live e \<longrightarrow> is_live d)"

lemma same_child_refl [simp]: "same_child d d"
  by (simp add: same_child_def)

definition evolves :: "scheduler \<Rightarrow> scheduler \<Rightarrow> bool" where
  "evolves s s' \<longleftrightarrow> list_all2 same_child (sd_delegations s) (sd_delegations s')"

lemma evolves_same: "sd_delegations s' = sd_delegations s \<Longrightarrow> evolves s s'"
  by (simp add: evolves_def list_all2_same)

lemma evolves_update:
  "sd_delegations s' = (sd_delegations s)[i := d] \<Longrightarrow> same_child (sd_delegations s ! i) d \<Longrightarrow> evolves s s'"
  by (cases "i < length (sd_delegations s)")
    (auto simp: evolves_def list_all2_conv_all_nth nth_list_update list_update_beyond)

lemma finish_evolves: "evolves s (finish i r s)"
  by (rule evolves_update[OF finish_fields(1)]) (simp add: same_child_def)

lemma start_child_evolves: "evolves s (start_child now i s)"
  if "is_live (sd_delegations s ! i)"
proof -
  have "evolves s (set_delegation i ((sd_delegations s ! i)\<lparr>dg_phase := Running ts p\<rparr>) s)" for ts p
    by (rule evolves_update[OF set_delegation_fields(6)]) (use that in \<open>simp_all add: same_child_def\<close>)
  then show ?thesis
    by (simp add: start_child_def Let_def finish_evolves split: option.split sum.split)
qed

lemma take_lock_evolves: "evolves s (take_lock now i s)"
  if "is_live (sd_delegations s ! i)"
proof -
  have "evolves s (set_delegation i ((sd_delegations s ! i)\<lparr>dg_lock := u, dg_phase := Waiting_lock\<rparr>) (s\<lparr>sd_lock := l\<rparr>))" for u l
    by (rule evolves_update[where i = i and d = "(sd_delegations s ! i)\<lparr>dg_lock := u, dg_phase := Waiting_lock\<rparr>"])
      (use that in \<open>simp_all add: same_child_def\<close>)
  then show ?thesis
    by (simp add: take_lock_def Let_def finish_evolves start_child_evolves[OF that] split: option.split)
qed

lemma turn_evolves: "evolves s (turn now i s)"
  by (simp add: turn_def Let_def finish_evolves start_child_evolves take_lock_evolves evolves_same
      split: child_phase.split settled.split)

lemma child_ends_evolves: "evolves s (child_ends i e s)"
  by (simp add: child_ends_def finish_evolves evolves_same)

lemma evolves_live: "evolves s s' \<Longrightarrow> live_children (sd_delegations s') p \<le> live_children (sd_delegations s) p"
  unfolding evolves_def live_children_def
  by (induction rule: list_all2_induct) (auto simp: same_child_def)

text \<open>A call adds at most one delegation, and only below the cap of its parent.\<close>

lemma delegate_delegations:
  obtains "sd_delegations (snd (delegate opts now inp s)) = sd_delegations s"
  | d where "sd_delegations (snd (delegate opts now inp s)) = sd_delegations s @ [d]"
    "dg_input d = inp" "dg_phase d = Waiting_lane" "dg_scope d = lock_scope opts (dg_agent d) inp"
    "\<not> cap_reached (active_children s (di_parent inp)) (max_children opts inp)"
proof (cases "sd_delegations (snd (delegate opts now inp s)) = sd_delegations s")
  case False
  then obtain agent deadline where
    step: "snd (delegate opts now inp s) = snd (admit opts now inp agent deadline s)"
    and cap: "\<not> cap_reached (active_children s (di_parent inp)) (max_children opts inp)"
    by (auto simp: delegate_def split: option.splits sum.splits if_splits)
  have "\<exists>d. sd_delegations (snd (admit opts now inp agent deadline s)) = sd_delegations s @ [d]
      \<and> dg_input d = inp \<and> dg_phase d = Waiting_lane \<and> dg_scope d = lock_scope opts (dg_agent d) inp"
    using False unfolding step
    by (auto simp: admit_def Let_def split: if_splits prod.splits sum.splits option.splits)
  then show ?thesis using that(2) cap unfolding step by blast
qed (rule that(1))

lemma active_children_live:
  "scheduler_inv local frontier s \<Longrightarrow> active_children s p = live_children (sd_delegations s) p"
  by (auto simp: scheduler_inv_def counts_inv_def active_children_def value_or_def Let_def)

lemma step_evolves:
  assumes "\<And>now inp. e \<noteq> Delegate now inp"
  shows "evolves s (scheduler_step opts s e)"
proof (cases e)
  case (Delegate now inp)
  with assms show ?thesis by blast
qed (simp_all add: turn_evolves child_ends_evolves abort_child_def evolves_same)

definition call_within :: "scheduler_opts \<Rightarrow> string \<Rightarrow> nat \<Rightarrow> scheduler_event \<Rightarrow> bool" where
  "call_within opts p n e \<longleftrightarrow>
     (case e of
        Delegate _ inp \<Rightarrow>
          di_parent inp \<noteq> p \<or> (case max_children opts inp of Num c \<Rightarrow> c \<le> of_nat n | _ \<Rightarrow> False)
      | _ \<Rightarrow> True)"

lemma live_children_step:
  assumes inv: "scheduler_inv local frontier s" and call: "call_within opts p n e"
    and le: "live_children (sd_delegations s) p \<le> n"
  shows "live_children (sd_delegations (scheduler_step opts s e)) p \<le> n"
proof (cases "\<exists>now inp. e = Delegate now inp")
  case False
  then have "evolves s (scheduler_step opts s e)" by (intro step_evolves) blast
  from le_trans[OF evolves_live[OF this] le] show ?thesis .
next
  case True
  then obtain now inp where e: "e = Delegate now inp" by blast
  show ?thesis
  proof (cases rule: delegate_delegations[of opts now inp s])
    case 1
    then show ?thesis using le by (simp add: e)
  next
    case (2 d)
    have "is_live d" using 2(3) by simp
    moreover have "live_children (sd_delegations s) p \<noteq> n" if "di_parent inp = p"
      using 2(5) call that
      by (auto simp: e call_within_def active_children_live[OF inv] cap_reached_def split: js_number.splits)
    ultimately show ?thesis
      using le 2 by (auto simp: e live_children_append)
  qed
qed

section \<open>What a running child holds\<close>

lemma running_phase:
  assumes "scheduler_inv local frontier s" "i < length (sd_delegations s)" "is_running (sd_delegations s ! i)"
  shows "is_live (sd_delegations s ! i) \<and> lane_known s (sd_delegations s ! i)
    \<and> lane_state s (sd_delegations s ! i) = Granted \<and> holds_lock s (sd_delegations s ! i)"
  using scheduler_inv_phase_ok[OF assms(1) nth_mem[OF assms(2)]] assms(3)
  by (auto simp: phase_ok_def is_running_def is_live_def split: child_phase.splits)

lemma disjoint_held_apart:
  assumes "disjoint_held held" "(u, a) \<in> set held" "(v, b) \<in> set held" "u \<noteq> v"
  shows "\<not> scopes_overlap a b"
proof -
  obtain k m where "k < length held" "held ! k = (u, a)" "m < length held" "held ! m = (v, b)"
    using assms(2,3) by (auto simp: in_set_conv_nth)
  moreover have apart: "\<not> scopes_overlap (snd (held ! x)) (snd (held ! y))" if "x < y" "y < length held" for x y
    using sorted_wrt_nth_less[OF assms(1)[unfolded disjoint_held_def] that] .
  moreover have "k \<noteq> m" using calculation(2,4) assms(4) by auto
  ultimately show ?thesis
    using apart[of k m] apart[of m k] scopes_overlap_sym[of a b] by (cases "k < m") simp_all
qed

text \<open>A delegation that was granted the lock is in the held list, with its scope.\<close>

lemma lock_granted:
  assumes inv: "scheduler_inv local frontier s" and i: "i < length (sd_delegations s)" "is_live (sd_delegations s ! i)"
    and granted: "lock_state s (sd_delegations s ! i) = Granted"
  obtains u sc where "dg_lock (sd_delegations s ! i) = Some u" "dg_scope (sd_delegations s ! i) = Some sc"
    "(u, sc) \<in> set (pl_held (sd_lock s))"
proof -
  obtain u where u: "dg_lock (sd_delegations s ! i) = Some u" "u \<in> set (pl_held_handles (sd_lock s))"
    using granted by (auto simp: lock_state_def split: option.splits)
  then obtain sc where sc: "(u, sc) \<in> set (pl_held (sd_lock s))" by (auto simp: pl_held_handles_def)
  moreover have "owner dg_lock (sd_delegations s) i = Some u" using i u by (simp add: owner_at)
  ultimately have "dg_scope (sd_delegations s ! i) = Some sc"
    using inv by (auto simp: scheduler_inv_def lock_inv_def pl_scopes_def)
  with u(1) sc show ?thesis by (blast intro: that)
qed

definition running_in :: "lane_name \<Rightarrow> scheduler \<Rightarrow> nat" where
  "running_in lane s = length (filter (\<lambda>d. is_running d \<and> lane_of d = lane) (sd_delegations s))"

lemma running_in_bound:
  assumes inv: "scheduler_inv local frontier s" and cap: "lane_cap local frontier lane = Some c"
  shows "int (running_in lane s) \<le> max 0 c"
proof -
  let ?ds = "sd_delegations s"
  let ?I = "{i. i < length ?ds \<and> is_running (?ds ! i) \<and> lane_of (?ds ! i) = lane}"
  have "\<exists>sem. lane_sem lane (sd_lanes s) = Some sem"
    using scheduler_inv_lane[OF inv, of lane] cap by (auto simp: lane_inv_def split: option.splits)
  then obtain sem where sem: "lane_sem lane (sd_lanes s) = Some sem" by blast
  from scheduler_inv_sem[OF inv sem] cap have ok: "sem_inv c sem"
    and owned: "owned (owner (lane_handle lane) ?ds) (sem.live sem) (sem_issued sem)" by simp_all
  define own where "own = owner (lane_handle lane) ?ds"
  have held: "\<exists>t. own i = Some t \<and> t \<in> set (sem_held sem)" if "i \<in> ?I" for i
    using running_phase[OF inv, of i] that sem
    by (auto simp: own_def owner_at lane_handle_def grant_handle_def lane_known_def lane_state_def
        split: lane_grant.splits)
  have "inj_on (\<lambda>i. the (own i)) ?I"
  proof (rule inj_onI)
    fix i j
    assume ij: "i \<in> ?I" "j \<in> ?I" and eq: "the (own i) = the (own j)"
    obtain t where t: "own i = Some t" using held[OF ij(1)] by blast
    obtain u where u: "own j = Some u" using held[OF ij(2)] by blast
    show "i = j" using owned_inj[OF owned[folded own_def] t, of j] u t eq by simp
  qed
  moreover have "(\<lambda>i. the (own i)) ` ?I \<subseteq> set (sem_held sem)"
  proof
    fix t
    assume "t \<in> (\<lambda>i. the (own i)) ` ?I"
    then obtain i where i: "i \<in> ?I" "t = the (own i)" by blast
    then show "t \<in> set (sem_held sem)" using held[OF i(1)] by auto
  qed
  ultimately have "card ?I \<le> card (set (sem_held sem))" by (intro card_inj_on_le) auto
  also have "\<dots> \<le> length (sem_held sem)" by (rule card_length)
  finally have "running_in lane s \<le> length (sem_held sem)"
    by (simp add: running_in_def length_filter_conv_card)
  moreover have "int (length (sem_held sem)) \<le> max 0 c" using ok by (auto simp: sem_inv_def)
  ultimately show ?thesis by simp
qed

text \<open>The scope to lock is the one of the call.\<close>

definition scoped :: "scheduler_opts \<Rightarrow> scheduler \<Rightarrow> bool" where
  "scoped opts s \<longleftrightarrow> (\<forall>d \<in> set (sd_delegations s). dg_scope d = lock_scope opts (dg_agent d) (dg_input d))"

lemma evolves_scoped: "evolves s s' \<Longrightarrow> scoped opts s \<Longrightarrow> scoped opts s'"
  unfolding evolves_def scoped_def same_child_def all_set_conv_all_nth list_all2_conv_all_nth by simp

lemma scoped_reachable: "scoped opts (foldl (scheduler_step opts) (scheduler_new local frontier limits) es)"
proof (induction es rule: rev_induct)
  case Nil
  show ?case by (simp add: scoped_def scheduler_new_def)
next
  case (snoc e es)
  let ?s = "foldl (scheduler_step opts) (scheduler_new local frontier limits) es"
  have "scoped opts (scheduler_step opts ?s e)"
  proof (cases "\<exists>now inp. e = Delegate now inp")
    case True
    then obtain now inp where e: "e = Delegate now inp" by blast
    show ?thesis
      by (cases rule: delegate_delegations[of opts now inp ?s]) (use snoc in \<open>auto simp: e scoped_def\<close>)
  qed (blast intro: evolves_scoped[OF step_evolves] snoc)
  then show ?case by simp
qed

section \<open>Nobody is stuck\<close>

definition enabled_turn :: "scheduler \<Rightarrow> nat \<Rightarrow> bool" where
  "enabled_turn s i \<longleftrightarrow> i < length (sd_delegations s)
     \<and> (case dg_phase (sd_delegations s ! i) of
          Waiting_lane \<Rightarrow> lane_state s (sd_delegations s ! i) \<noteq> Pending
        | Waiting_lock \<Rightarrow> lock_state s (sd_delegations s ! i) \<noteq> Pending
        | _ \<Rightarrow> False)"

definition can_move :: "scheduler \<Rightarrow> bool" where
  "can_move s \<longleftrightarrow> (\<exists>i < length (sd_delegations s). is_running (sd_delegations s ! i) \<or> enabled_turn s i)"

lemma can_moveI:
  "i < length (sd_delegations s) \<Longrightarrow> is_running (sd_delegations s ! i) \<or> enabled_turn s i \<Longrightarrow> can_move s"
  by (auto simp: can_move_def)

lemma owner_SomeD: "owner f ds i = Some t \<Longrightarrow> i < length ds \<and> is_live (ds ! i) \<and> f (ds ! i) = Some t"
  by (simp add: owner_def split: if_splits)

text \<open>Whoever waits for the lock waits for a holder, and the holder runs or was just granted it.\<close>

lemma waiting_lock_moves:
  assumes inv: "scheduler_inv local frontier s" and i: "i < length (sd_delegations s)"
    and phase: "dg_phase (sd_delegations s ! i) = Waiting_lock"
  shows "can_move s"
proof (cases "lock_state s (sd_delegations s ! i) = Pending")
  case False
  then show ?thesis using i phase by (intro can_moveI[OF i]) (simp add: enabled_turn_def)
next
  case True
  have pl: "pl_inv (sd_lock s)"
    "owned (owner dg_lock (sd_delegations s)) (pl.live (sd_lock s)) (pl_issued (sd_lock s))"
    using inv by (simp_all add: scheduler_inv_def lock_inv_def)
  have "lock_known s (sd_delegations s ! i)"
    using scheduler_inv_phase_ok[OF inv nth_mem[OF i]] phase by (simp add: phase_ok_def)
  then obtain u where "u \<in> set (pl_waiting (sd_lock s))"
    using True by (auto simp: lock_known_def lock_state_def settle_state_def split: if_splits)
  then obtain v sc where v: "(v, sc) \<in> set (pl_held (sd_lock s))"
    using pl(1) by (auto simp: pl_inv_def pl_waiting_def overlaps_held_def)
  then have held: "v \<in> set (pl_held_handles (sd_lock s))" by (force simp: pl_held_handles_def)
  then obtain k where "owner dg_lock (sd_delegations s) k = Some v"
    using owned_owner[OF pl(2), of v] by blast
  then have k: "k < length (sd_delegations s)" "is_live (sd_delegations s ! k)" "dg_lock (sd_delegations s ! k) = Some v"
    using owner_SomeD by blast+
  have granted: "lock_state s (sd_delegations s ! k) = Granted" using k(3) held by (simp add: lock_state_def)
  have "phase_ok s (sd_delegations s ! k)" using scheduler_inv_phase_ok[OF inv nth_mem[OF k(1)]] .
  then show ?thesis
    using k granted by (intro can_moveI[OF k(1)])
      (auto simp: phase_ok_def enabled_turn_def is_running_def is_live_def split: child_phase.splits)
qed

lemma lane_pending:
  assumes inv: "scheduler_inv local frontier s" and known: "lane_known s d" and pending: "lane_state s d = Pending"
  obtains t sem c where "lane_sem (lane_of d) (sd_lanes s) = Some sem" "t \<in> set (sem_waiting sem)"
    "sem_inv c sem" "lane_cap local frontier (lane_of d) = Some c"
    "owned (owner (lane_handle (lane_of d)) (sd_delegations s)) (sem.live sem) (sem_issued sem)"
proof -
  obtain t sem where sem: "lane_sem (lane_of d) (sd_lanes s) = Some sem" "t \<in> set (sem_waiting sem)"
    using known pending by (auto simp: lane_known_def lane_state_def settle_state_def split: lane_grant.splits if_splits)
  with scheduler_inv_sem[OF inv sem(1)] show ?thesis by (blast intro: that)
qed

lemma waiting_lane_moves:
  assumes inv: "scheduler_inv local frontier s" and i: "i < length (sd_delegations s)"
    and phase: "dg_phase (sd_delegations s ! i) = Waiting_lane"
    and caps: "pred_option (\<lambda>c. 1 \<le> c) local" "pred_option (\<lambda>c. 1 \<le> c) frontier"
  shows "can_move s"
proof (cases "lane_state s (sd_delegations s ! i) = Pending")
  case False
  then show ?thesis using i phase by (intro can_moveI[OF i]) (simp add: enabled_turn_def)
next
  case True
  let ?d = "sd_delegations s ! i"
  have "lane_known s ?d"
    using scheduler_inv_phase_ok[OF inv nth_mem[OF i]] phase by (simp add: phase_ok_def)
  from lane_pending[OF inv this True] obtain t sem c where
    sem: "lane_sem (lane_of ?d) (sd_lanes s) = Some sem" "t \<in> set (sem_waiting sem)" "sem_inv c sem"
    and cap: "lane_cap local frontier (lane_of ?d) = Some c"
    and owned: "owned (owner (lane_handle (lane_of ?d)) (sd_delegations s)) (sem.live sem) (sem_issued sem)" .
  have "1 \<le> c" using cap caps by (auto simp: lane_cap_def split: lane_name.splits)
  then have "sem_held sem \<noteq> []" using sem(2,3) by (auto simp: sem_inv_def)
  then obtain h where h: "h \<in> set (sem_held sem)" by (meson last_in_set)
  then obtain j where "owner (lane_handle (lane_of ?d)) (sd_delegations s) j = Some h"
    using owned_owner[OF owned, of h] by blast
  then have j: "j < length (sd_delegations s)" "is_live (sd_delegations s ! j)"
    "lane_handle (lane_of ?d) (sd_delegations s ! j) = Some h" using owner_SomeD by blast+
  then have grant: "lane_of (sd_delegations s ! j) = lane_of ?d" "dg_grant (sd_delegations s ! j) = Semaphore_handle h"
    by (simp_all add: lane_handle_def grant_handle_def split: if_splits lane_grant.splits)
  then have granted: "lane_state s (sd_delegations s ! j) = Granted" using sem(1) h by (simp add: lane_state_def)
  show ?thesis
  proof (cases "dg_phase (sd_delegations s ! j)")
    case Waiting_lane
    then show ?thesis using granted j by (intro can_moveI[OF j(1)]) (simp add: enabled_turn_def)
  next
    case Waiting_lock
    then show ?thesis by (rule waiting_lock_moves[OF inv j(1)])
  next
    case (Running ts p)
    then show ?thesis by (intro can_moveI[OF j(1)]) (simp add: is_running_def)
  qed (use j in \<open>simp add: is_live_def\<close>)
qed

lemma live_moves:
  assumes "scheduler_inv local frontier s" "i < length (sd_delegations s)" "is_live (sd_delegations s ! i)"
    and "pred_option (\<lambda>c. 1 \<le> c) local" "pred_option (\<lambda>c. 1 \<le> c) frontier"
  shows "can_move s"
proof (cases "dg_phase (sd_delegations s ! i)")
  case Waiting_lane
  then show ?thesis by (rule waiting_lane_moves[OF assms(1,2) _ assms(4,5)])
next
  case Waiting_lock
  then show ?thesis by (rule waiting_lock_moves[OF assms(1,2)])
next
  case (Running ts p)
  then show ?thesis by (intro can_moveI[OF assms(2)]) (simp add: is_running_def)
qed (use assms(3) in \<open>simp add: is_live_def\<close>)

section \<open>Every move is progress\<close>

definition phase_work :: "delegation \<Rightarrow> nat" where
  "phase_work d = (case dg_phase d of Waiting_lane \<Rightarrow> 3 | Waiting_lock \<Rightarrow> 2 | Running _ _ \<Rightarrow> 1 | Ended _ \<Rightarrow> 0)"

definition work :: "scheduler \<Rightarrow> nat" where
  "work s = sum_list (map phase_work (sd_delegations s))"

lemma work_update:
  assumes "i < length (sd_delegations s)" "sd_delegations s' = (sd_delegations s)[i := d]"
    and "phase_work d < phase_work (sd_delegations s ! i)"
  shows "work s' < work s"
proof -
  have "(\<Sum>x\<leftarrow>xs[i := d]. phase_work x) + phase_work (xs ! i) = (\<Sum>x\<leftarrow>xs. phase_work x) + phase_work d"
    if "i < length xs" for xs
    using that by (induction xs arbitrary: i) (auto simp: nth_Cons' split: nat.split)
  from this[OF assms(1)] assms(2,3) show ?thesis by (simp add: work_def)
qed

text \<open>What happens when nobody calls or aborts: the continuation of a settled promise runs, or a
  running child ends.\<close>

inductive drain_move :: "scheduler \<Rightarrow> scheduler \<Rightarrow> bool" where
  Continues: "enabled_turn s i \<Longrightarrow> drain_move s (turn now i s)"
| Ends: "i < length (sd_delegations s) \<Longrightarrow> is_running (sd_delegations s ! i) \<Longrightarrow> drain_move s (child_ends i e s)"

lemma phase_work_simps [simp]:
  "phase_work (d\<lparr>dg_phase := Ended r\<rparr>) = 0" "phase_work (d\<lparr>dg_phase := Running ts p\<rparr>) = 1"
  "phase_work (d\<lparr>dg_lock := u, dg_phase := Waiting_lock\<rparr>) = 2"
  "dg_phase d = Waiting_lane \<Longrightarrow> phase_work d = 3" "dg_phase d = Waiting_lock \<Longrightarrow> phase_work d = 2"
  "is_running d \<Longrightarrow> phase_work d = 1"
  by (auto simp: phase_work_def is_running_def split: child_phase.splits)

lemma finish_work:
  "i < length (sd_delegations s) \<Longrightarrow> 0 < phase_work (sd_delegations s ! i) \<Longrightarrow> work (finish i r s) < work s"
  by (rule work_update[OF _ finish_fields(1)]) simp_all

lemma start_child_work:
  assumes "i < length (sd_delegations s)" "1 < phase_work (sd_delegations s ! i)"
  shows "work (start_child now i s) < work s"
proof -
  have "work (set_delegation i ((sd_delegations s ! i)\<lparr>dg_phase := Running ts p\<rparr>) s) < work s" for ts p
    by (rule work_update[OF assms(1) set_delegation_fields(6)]) (use assms in simp)
  then show ?thesis
    using finish_work[OF assms(1)] assms(2)
    by (simp add: start_child_def Let_def split: option.split sum.split prod.split)
qed

lemma take_lock_work:
  assumes "i < length (sd_delegations s)" "dg_phase (sd_delegations s ! i) = Waiting_lane"
  shows "work (take_lock now i s) < work s"
proof -
  have "work (set_delegation i ((sd_delegations s ! i)\<lparr>dg_lock := u, dg_phase := Waiting_lock\<rparr>) (s\<lparr>sd_lock := l\<rparr>)) < work s" for u l
    by (rule work_update[OF assms(1), where d = "(sd_delegations s ! i)\<lparr>dg_lock := u, dg_phase := Waiting_lock\<rparr>"])
      (use assms in simp_all)
  then show ?thesis
    using finish_work[OF assms(1)] start_child_work[OF assms(1)] assms(2)
    by (simp add: take_lock_def Let_def split: option.split)
qed

lemma drain_move_work: "drain_move s s' \<Longrightarrow> work s' < work s"
proof (induction rule: drain_move.induct)
  case (Continues s i now)
  then have i: "i < length (sd_delegations s)" by (simp add: enabled_turn_def)
  show ?case
  proof (cases "dg_phase (sd_delegations s ! i)")
    case Waiting_lane
    then show ?thesis
      using Continues i finish_work[OF i] take_lock_work[OF i Waiting_lane]
      by (simp add: turn_def enabled_turn_def Let_def split: settled.split)
  next
    case Waiting_lock
    then show ?thesis
      using Continues i finish_work[OF i] start_child_work[OF i]
      by (simp add: turn_def enabled_turn_def Let_def split: settled.split)
  qed (use Continues in \<open>simp_all add: enabled_turn_def\<close>)
next
  case (Ends i s e)
  then show ?case using finish_work[of i s] by (simp add: child_ends_def)
qed

lemma drain_move_inv: "drain_move s s' \<Longrightarrow> scheduler_inv local frontier s \<Longrightarrow> scheduler_inv local frontier s'"
  by (induction rule: drain_move.induct) (simp_all add: turn_inv child_ends_inv)

lemma drain_run:
  "(drain_move ^^ n) s t \<Longrightarrow> scheduler_inv local frontier s \<Longrightarrow> n + work t \<le> work s \<and> scheduler_inv local frontier t"
proof (induction n arbitrary: t)
  case (Suc n)
  then obtain u where u: "(drain_move ^^ n) s u" "drain_move u t" by auto
  from Suc.IH[OF u(1) Suc.prems(2)] drain_move_work[OF u(2)] drain_move_inv[OF u(2)] show ?case by auto
qed simp

lemma can_move_drains: "can_move s \<Longrightarrow> \<exists>t. drain_move s t"
  by (auto simp: can_move_def intro: drain_move.intros)

lemma work_live: "work s \<le> 3 * length (filter is_live (sd_delegations s))"
proof -
  have le: "phase_work d \<le> (if is_live d then 3 else 0)" for d
    by (simp add: phase_work_def is_live_def split: child_phase.split)
  have "(\<Sum>d\<leftarrow>ds. phase_work d) \<le> 3 * length (filter is_live ds)" for ds
  proof (induction ds)
    case (Cons d ds)
    then show ?case using le[of d] by (simp split: if_splits)
  qed simp
  then show ?thesis by (simp add: work_def)
qed

section \<open>A small host\<close>

text \<open>One agent that may write and one that may not, everything on the provider \<open>anthropic\<close>.\<close>

definition example_agent :: "bool \<Rightarrow> agent_def" where
  "example_agent ro = \<lparr>ag_name = ''worker'', ag_system_prompt = [], ag_allowed_tools = [], ag_profile = None,
     ag_model = None, ag_role = None, ag_max_turns = None, ag_read_only = ro, ag_inherit_tools = True,
     ag_subagents = [''reader'']\<rparr>"

definition example_opts :: scheduler_opts where
  "example_opts = \<lparr>so_agents = [(''writer'', example_agent False), (''reader'', example_agent True)],
     so_policy = None,
     so_routing = \<lparr>ro_resolve_lane = None, ro_available = None, ro_default_provider = ''anthropic'',
       ro_default_model = ''m''\<rparr>,
     so_max_children = Some (Num 2), so_timeout = None, so_executor = False, so_compare = (\<lambda>a b. 0),
     so_hook_error = (\<lambda>a r. None)\<rparr>"

definition example_call :: "string \<Rightarrow> string \<Rightarrow> path_scope option \<Rightarrow> scheduler_event" where
  "example_call agent parent scope = Delegate 0
     \<lparr>di_agent = agent, di_parent = parent, di_pool = [], di_can_use = None, di_policy = None,
      di_depth = Num 0, di_deadline = None, di_timeout = None, di_write_scope = scope, di_role = None,
      di_max_children = None, di_call_limits = [], di_restricted = False, di_aborted = False\<rparr>"

definition example_run :: "int option \<Rightarrow> scheduler_event list \<Rightarrow> scheduler" where
  "example_run frontier es = foldl (scheduler_step example_opts) (scheduler_new None frontier []) es"

section \<open>Properties\<close>

text \<open>The cap on children holds under every interleaving. The count kept for a parent is the
  number of its delegations that have not ended, and if every call on behalf of the parent has a cap
  of at most \<open>n\<close>, there are never more than \<open>n\<close> of them.\<close>

theorem scheduler_child_cap:
  assumes "list_all (call_within opts p n) es"
  shows "active_children (foldl (scheduler_step opts) (scheduler_new local frontier limits) es) p
      = live_children (sd_delegations (foldl (scheduler_step opts) (scheduler_new local frontier limits) es)) p
    \<and> active_children (foldl (scheduler_step opts) (scheduler_new local frontier limits) es) p \<le> n"
proof -
  have "live_children (sd_delegations (foldl (scheduler_step opts) (scheduler_new local frontier limits) es)) p \<le> n"
    using assms
  proof (induction es rule: rev_induct)
    case Nil
    show ?case by (simp add: scheduler_new_def live_children_def)
  next
    case (snoc e es)
    then show ?case using live_children_step[OF sched.inv_reachable] by simp
  qed
  then show ?thesis by (simp add: active_children_live[OF sched.inv_reachable])
qed

theorem scheduler_child_cap_witness:
  "let s = foldl (scheduler_step example_opts) (scheduler_new None (Some 1) [])
        [example_call ''writer'' ''p'' None, example_call ''reader'' ''p'' None, example_call ''reader'' ''p'' None]
   in live_children (sd_delegations s) ''p'' = 2 \<and> active_children s ''p'' \<le> 2"
proof -
  let ?es = "[example_call ''writer'' ''p'' None, example_call ''reader'' ''p'' None, example_call ''reader'' ''p'' None]"
  have calls: "list_all (call_within example_opts ''p'' 2) ?es"
    unfolding example_opts_def example_call_def example_agent_def by code_simp
  have "live_children (sd_delegations (example_run (Some 1) ?es)) ''p'' = 2"
    unfolding example_run_def example_opts_def example_call_def example_agent_def by code_simp
  then show ?thesis
    using scheduler_child_cap[OF calls, of None "Some 1" "[]"] unfolding example_run_def Let_def by simp
qed

text \<open>C13: Children that may write the same file never run together. In every reachable state two
  running children, each of whom must lock the scope its call gives (everything, unless the call
  declares globs), have scopes that do not overlap; and a lane with a cap never runs more children
  than the cap.\<close>

theorem scheduler_writers_disjoint:
  assumes "s = foldl (scheduler_step opts) (scheduler_new local frontier limits) es"
    and "i < length (sd_delegations s)" "j < length (sd_delegations s)" "i \<noteq> j"
    and "is_running (sd_delegations s ! i)" "is_running (sd_delegations s ! j)"
    and "lock_scope opts (dg_agent (sd_delegations s ! i)) (dg_input (sd_delegations s ! i)) = Some a"
    and "lock_scope opts (dg_agent (sd_delegations s ! j)) (dg_input (sd_delegations s ! j)) = Some b"
  shows "\<not> scopes_overlap a b \<and> (\<forall>c. local = Some c \<longrightarrow> int (running_in Local_lane s) \<le> max 0 c)
    \<and> (\<forall>c. frontier = Some c \<longrightarrow> int (running_in Frontier_lane s) \<le> max 0 c)"
proof -
  have inv: "scheduler_inv local frontier s" unfolding assms(1) by (rule sched.inv_reachable)
  have scoped: "scoped opts s" unfolding assms(1) by (rule scoped_reachable)
  have held: "\<exists>u. dg_lock (sd_delegations s ! k) = Some u \<and> (u, sc) \<in> set (pl_held (sd_lock s))
      \<and> is_live (sd_delegations s ! k)"
    if k: "k < length (sd_delegations s)" "is_running (sd_delegations s ! k)"
      "lock_scope opts (dg_agent (sd_delegations s ! k)) (dg_input (sd_delegations s ! k)) = Some sc" for k sc
  proof -
    have sc: "dg_scope (sd_delegations s ! k) = Some sc" using scoped k by (simp add: scoped_def)
    note run = running_phase[OF inv k(1,2)]
    then have "lock_state s (sd_delegations s ! k) = Granted" using sc by (simp add: holds_lock_def)
    with run sc show ?thesis by (auto elim!: lock_granted[OF inv k(1)])
  qed
  from held[OF assms(2,5,7)] held[OF assms(3,6,8)] obtain u v where
    u: "dg_lock (sd_delegations s ! i) = Some u" "(u, a) \<in> set (pl_held (sd_lock s))" "is_live (sd_delegations s ! i)" and
    v: "dg_lock (sd_delegations s ! j) = Some v" "(v, b) \<in> set (pl_held (sd_lock s))" "is_live (sd_delegations s ! j)"
    by blast
  have lock: "pl_inv (sd_lock s)"
    "owned (owner dg_lock (sd_delegations s)) (pl.live (sd_lock s)) (pl_issued (sd_lock s))"
    using inv by (simp_all add: scheduler_inv_def lock_inv_def)
  have "owner dg_lock (sd_delegations s) i = Some u" "owner dg_lock (sd_delegations s) j = Some v"
    using assms(2,3) u v by (simp_all add: owner_at)
  then have "u \<noteq> v" using owned_inj[OF lock(2), of i u j] assms(4) by blast
  then have "\<not> scopes_overlap a b"
    using disjoint_held_apart[OF _ u(2) v(2)] lock(1) by (simp add: pl_inv_def)
  then show ?thesis
    using running_in_bound[OF inv, of Local_lane] running_in_bound[OF inv, of Frontier_lane]
    by (simp add: lane_cap_def)
qed

theorem scheduler_writers_disjoint_witness:
  "let s = foldl (scheduler_step example_opts) (scheduler_new None (Some 2) [])
        [example_call ''writer'' ''p'' (Some (Scope_globs [''a/**''])),
         example_call ''writer'' ''q'' (Some (Scope_globs [''b/**''])), Turn 0 0, Turn 0 0, Turn 0 1, Turn 0 1]
   in map is_running (sd_delegations s) = [True, True]
      \<and> \<not> scopes_overlap (Scope_globs [''a/**'']) (Scope_globs [''b/**''])"
proof -
  let ?es = "[example_call ''writer'' ''p'' (Some (Scope_globs [''a/**''])),
     example_call ''writer'' ''q'' (Some (Scope_globs [''b/**''])), Turn 0 0, Turn 0 0, Turn 0 1, Turn 0 1]"
  let ?s = "example_run (Some 2) ?es"
  have run: "map is_running (sd_delegations ?s) = [True, True]"
    unfolding example_run_def example_opts_def example_call_def example_agent_def by code_simp
  have scopes: "map (\<lambda>d. lock_scope example_opts (dg_agent d) (dg_input d)) (sd_delegations ?s)
      = [Some (Scope_globs [''a/**'']), Some (Scope_globs [''b/**''])]"
    unfolding example_run_def example_opts_def example_call_def example_agent_def by code_simp
  have len: "length (sd_delegations ?s) = 2" using arg_cong[OF run, of length] by simp
  have nth: "is_running (sd_delegations ?s ! 0)" "is_running (sd_delegations ?s ! 1)"
    using arg_cong[OF run, of "\<lambda>l. l ! 0"] arg_cong[OF run, of "\<lambda>l. l ! 1"] len by simp_all
  have sc: "lock_scope example_opts (dg_agent (sd_delegations ?s ! 0)) (dg_input (sd_delegations ?s ! 0)) = Some (Scope_globs [''a/**''])"
    "lock_scope example_opts (dg_agent (sd_delegations ?s ! 1)) (dg_input (sd_delegations ?s ! 1)) = Some (Scope_globs [''b/**''])"
    using arg_cong[OF scopes, of "\<lambda>l. l ! 0"] arg_cong[OF scopes, of "\<lambda>l. l ! 1"] len by simp_all
  have lt: "0 < length (sd_delegations ?s)" "1 < length (sd_delegations ?s)" "(0::nat) \<noteq> 1" using len by simp_all
  have "\<not> scopes_overlap (Scope_globs [''a/**'']) (Scope_globs [''b/**''])"
    by (rule conjunct1[OF scheduler_writers_disjoint[OF example_run_def lt nth sc]])
  with run show ?thesis unfolding example_run_def Let_def by (rule conjI)
qed

text \<open>C14: Nothing leaks: when every delegation has ended (returned, thrown, aborted, refused), whatever
  the order of calls, aborts and ends was, no slot of a parent is taken, every lane has all its slots,
  nobody holds one and nobody waits in it, the write lock is free with nobody waiting for it, and no tree
  budget counts an active child.\<close>

theorem scheduler_no_leak:
  assumes "s = foldl (scheduler_step opts) (scheduler_new local frontier limits) es"
    and "list_all (\<lambda>d. \<not> is_live d) (sd_delegations s)"
  shows "sd_counts s = []
    \<and> map_option sem_available (lane_sem lane (sd_lanes s)) = lane_cap local frontier lane
    \<and> pred_option (\<lambda>sem. sem_waiters sem = [] \<and> sem_held sem = []) (lane_sem lane (sd_lanes s))
    \<and> pl_held (sd_lock s) = [] \<and> pl_waiters (sd_lock s) = []
    \<and> list_all (\<lambda>b. tb_children b = [] \<and> tb_active_children b = 0) (sd_trees s)"
proof -
  have inv: "scheduler_inv local frontier s" unfolding assms(1) by (rule sched.inv_reachable)
  have own: "owner f (sd_delegations s) = Map.empty" for f
    using assms(2) by (intro ext) (auto simp: owner_def list_all_length)
  have none: "live = {}" if "owned Map.empty live n" for live n using that by (simp add: owned_def)
  have "live_children (sd_delegations s) p = 0" for p
    using assms(2) by (auto simp: live_children_def list_all_iff)
  then have "map_of (sd_counts s) p = None" for p
    using inv by (simp add: scheduler_inv_def counts_inv_def)
  then have "map_of (sd_counts s) = Map.empty" by (rule ext)
  then have counts: "sd_counts s = []" by (simp only: map_of_eq_empty_iff)
  have lane: "map_option sem_available (lane_sem lane (sd_lanes s)) = lane_cap local frontier lane
      \<and> pred_option (\<lambda>sem. sem_waiters sem = [] \<and> sem_held sem = []) (lane_sem lane (sd_lanes s))"
  proof (cases "lane_sem lane (sd_lanes s)")
    case None
    then show ?thesis using scheduler_inv_lane[OF inv, of lane] by (simp add: lane_inv_def)
  next
    case (Some sem)
    from scheduler_inv_sem[OF inv Some] obtain c where "lane_cap local frontier lane = Some c" "sem_inv c sem"
      "sem.live sem = {}" using none unfolding own by blast
    then show ?thesis using Some by (simp add: sem_inv_def sem_waiting_def)
  qed
  have "pl.live (sd_lock s) = {}"
    using inv none[of "pl.live (sd_lock s)"] unfolding scheduler_inv_def lock_inv_def own by blast
  moreover have "list_all (\<lambda>b. tb_children b = [] \<and> tb_active_children b = 0) (sd_trees s)"
    unfolding list_all_length
  proof (intro allI impI)
    fix b
    assume "b < length (sd_trees s)"
    then have "tb_inv (sd_trees s ! b)" "set (tb_children (sd_trees s ! b)) = {}"
      using inv none unfolding scheduler_inv_def trees_inv_def own by blast+
    then show "tb_children (sd_trees s ! b) = [] \<and> tb_active_children (sd_trees s ! b) = 0"
      by (simp add: tb_inv_def)
  qed
  ultimately show ?thesis using counts lane by (simp add: pl_held_handles_def pl_waiting_def)
qed

theorem scheduler_no_leak_witness:
  "let s = foldl (scheduler_step example_opts) (scheduler_new None (Some 1) [])
        [example_call ''writer'' ''p'' None, Turn 0 0, Turn 0 0, Child_ends 0 (Run_threw ''boom'')]
   in length (sd_delegations s) = 1 \<and> sd_counts s = [] \<and> pl_held (sd_lock s) = []
      \<and> map_option sem_available (lane_sem Frontier_lane (sd_lanes s)) = Some 1
      \<and> pred_option (\<lambda>sem. sem_waiters sem = []) (lane_sem Frontier_lane (sd_lanes s))"
proof -
  let ?s = "example_run (Some 1)
      [example_call ''writer'' ''p'' None, Turn 0 0, Turn 0 0, Child_ends 0 (Run_threw ''boom'')]"
  have ended: "list_all (\<lambda>d. \<not> is_live d) (sd_delegations ?s)"
    unfolding example_run_def example_opts_def example_call_def example_agent_def by code_simp
  have len: "length (sd_delegations ?s) = 1"
    unfolding example_run_def example_opts_def example_call_def example_agent_def by code_simp
  from scheduler_no_leak[OF example_run_def ended, of Frontier_lane] len show ?thesis
    unfolding example_run_def Let_def by (auto simp: lane_cap_def intro: option.pred_mono_strong)
qed

text \<open>C15: The scheduler drains. If the caps of the lanes are positive, then from any reachable state,
  once calls and aborts stop, at most three moves per open delegation are possible, whatever the
  order, and a state in which no move is possible has no open delegation: no waiter is ever stuck
  behind a lane or the write lock as long as running children end.\<close>

theorem scheduler_drains:
  assumes "s = foldl (scheduler_step opts) (scheduler_new local frontier limits) es"
    and "pred_option (\<lambda>c. 1 \<le> c) local" "pred_option (\<lambda>c. 1 \<le> c) frontier"
    and "(drain_move ^^ n) s t"
  shows "n \<le> 3 * length (filter is_live (sd_delegations s))
    \<and> ((\<exists>u. drain_move t u) \<or> list_all (\<lambda>d. \<not> is_live d) (sd_delegations t))"
proof -
  have "scheduler_inv local frontier s" unfolding assms(1) by (rule sched.inv_reachable)
  from drain_run[OF assms(4) this] have n: "n \<le> work s" and t: "scheduler_inv local frontier t" by simp_all
  have "\<exists>u. drain_move t u" if "\<not> list_all (\<lambda>d. \<not> is_live d) (sd_delegations t)"
  proof -
    from that obtain i where "i < length (sd_delegations t)" "is_live (sd_delegations t ! i)"
      by (auto simp: list_all_length)
    from can_move_drains[OF live_moves[OF t this assms(2,3)]] show ?thesis .
  qed
  then show ?thesis using le_trans[OF n work_live] by blast
qed

theorem scheduler_drains_witness:
  "let s = foldl (scheduler_step example_opts) (scheduler_new None (Some 1) []) [example_call ''writer'' ''p'' None]
   in drain_move s (turn 0 0 s) \<and> 1 \<le> 3 * length (filter is_live (sd_delegations s))"
proof -
  let ?s = "example_run (Some 1) [example_call ''writer'' ''p'' None]"
  have "enabled_turn ?s 0"
    unfolding example_run_def example_opts_def example_call_def example_agent_def by code_simp
  then have move: "drain_move ?s (turn 0 0 ?s)" by (rule drain_move.Continues)
  then have "(drain_move ^^ 1) ?s (turn 0 0 ?s)" by auto
  from scheduler_drains[OF example_run_def _ _ this] move show ?thesis
    unfolding example_run_def Let_def by simp
qed

text \<open>A running child keeps its lane slot while a delegation of its own waits for one: with one slot
  the nested delegation can only go on when the outer child ends, which waits for it.\<close>

lemma nested_delegation_waits:
  "let s = example_run (Some 1)
        [example_call ''reader'' ''p'' None, Turn 0 0, example_call ''reader'' ''child of p'' None]
   in map is_running (sd_delegations s) = [True, False] \<and> map is_live (sd_delegations s) = [True, True]
      \<and> \<not> enabled_turn s 0 \<and> \<not> enabled_turn s 1"
  unfolding example_run_def example_opts_def example_call_def example_agent_def by code_simp

end
