(* ===== verification/Workflow_Template.thy ===== *)
theory Workflow_Template
  imports Messages
begin

text \<open>
  \<open>src/workflows\<close>: what a workflow is (\<open>types.ts\<close>), how prompts refer to arguments, loop items and the
  outputs of earlier phases (\<open>template.ts\<close>), and the check of a definition before a run
  (\<open>validateWorkflow\<close> of \<open>loader.ts\<close>). Values are JSON values. A property that an object inherits from
  its prototype is a function, written as JSON prints it inside an array (\<open>null\<close>).
\<close>

section \<open>Definitions of workflows\<close>

datatype arg_type = Arg_string | Arg_number | Arg_boolean | Arg_list

record arg_spec =
  as_type :: arg_type
  as_required :: bool
  as_default :: "json option"

datatype output_kind = Output_text | Output_json

record task =
  wt_agent :: string
  wt_prompt :: string
  wt_lane :: "string option"
  wt_writes :: "string list option"
  wt_output :: output_kind
  wt_label :: "string option"

record phase =
  ph_id :: string
  ph_tasks :: "task list option"
  ph_map :: "(string \<times> string option) option"     \<comment> \<open>over, as\<close>
  ph_task :: "task option"

record workflow_def =
  wd_name :: string
  wd_args :: "(string \<times> arg_spec) list option"
  wd_phases :: "phase list"

text \<open>What the schema asks of a phase, and of the phases together, beyond their shape.\<close>

definition phase_issues :: "phase \<Rightarrow> string list" where
  "phase_issues p =
     (let name = [single_quote] @ ph_id p @ [single_quote] in
      (if (ph_tasks p \<noteq> None) = (ph_map p \<noteq> None)
       then [''phase '' @ name @ '' must have exactly one of 'tasks' or 'map'' @ [single_quote]] else [])
    @ (if ph_map p \<noteq> None \<and> ph_task p = None
       then [''phase '' @ name @ '' with 'map' requires a 'task'' @ [single_quote]] else [])
    @ (if ph_map p = None \<and> ph_task p \<noteq> None
       then [''phase '' @ name @ '' has a top-level 'task' but no 'map' (use 'tasks' for a fixed set)''] else []))"

fun duplicate_ids :: "string list \<Rightarrow> string list \<Rightarrow> string list" where
  "duplicate_ids seen [] = []"
| "duplicate_ids seen (p # ps) = (if p \<in> set seen then [p] else []) @ duplicate_ids (p # seen) ps"

definition schema_ok :: "workflow_def \<Rightarrow> bool" where
  "schema_ok d \<longleftrightarrow> wd_phases d \<noteq> [] \<and> list_all (\<lambda>p. phase_issues p = [] \<and> ph_id p \<noteq> []
       \<and> pred_option (\<lambda>ts. ts \<noteq> []) (ph_tasks p)) (wd_phases d)
     \<and> duplicate_ids [] (map ph_id (wd_phases d)) = []"

section \<open>Values reached by a path\<close>

text \<open>An own property: a key of an object; the length or an index of an array.\<close>

fun own_member :: "json \<Rightarrow> string \<Rightarrow> json option" where
  "own_member (JObject kvs) k = map_of kvs k"
| "own_member (JArray xs) k =
     (if k = ''length'' then Some (JNumber (nat_to_string (length xs)))
      else map_option (\<lambda>i. xs ! i) (find (\<lambda>i. nat_to_string i = k) [0..<length xs]))"
| "own_member _ k = None"

fun walk_path :: "json \<Rightarrow> string list \<Rightarrow> json option" where
  "walk_path v [] = Some v"
| "walk_path v (seg # segs) =
     (case own_member v seg of None \<Rightarrow> None | Some w \<Rightarrow> walk_path w segs)"

definition object_methods :: "string list" where
  "object_methods = [''constructor'', ''hasOwnProperty'', ''isPrototypeOf'', ''propertyIsEnumerable'',
     ''toLocaleString'', ''toString'', ''valueOf'', ''__defineGetter__'', ''__defineSetter__'',
     ''__lookupGetter__'', ''__lookupSetter__'']"

definition array_methods :: "string list" where
  "array_methods = [''at'', ''concat'', ''copyWithin'', ''entries'', ''every'', ''fill'', ''filter'',
     ''find'', ''findIndex'', ''findLast'', ''findLastIndex'', ''flat'', ''flatMap'', ''forEach'',
     ''includes'', ''indexOf'', ''join'', ''keys'', ''lastIndexOf'', ''map'', ''pop'', ''push'',
     ''reduce'', ''reduceRight'', ''reverse'', ''shift'', ''slice'', ''some'', ''sort'', ''splice'',
     ''toReversed'', ''toSorted'', ''toSpliced'', ''unshift'', ''values'', ''with'']"

definition inherited_member :: "json \<Rightarrow> string \<Rightarrow> json option" where
  "inherited_member v k =
     (case v of
        JObject _ \<Rightarrow> if k \<in> set object_methods then Some JNull
                      else if k = ''__proto__'' then Some (JObject []) else None
      | JArray _ \<Rightarrow> if k \<in> set object_methods \<or> k \<in> set array_methods then Some JNull
                     else if k = ''__proto__'' then Some (JArray []) else None
      | _ \<Rightarrow> None)"

text \<open>\<open>value[k]\<close> of an object or array.\<close>

definition member :: "json \<Rightarrow> string \<Rightarrow> json option" where
  "member v k = (case own_member v k of Some w \<Rightarrow> Some w | None \<Rightarrow> inherited_member v k)"

section \<open>Outputs and references\<close>

record task_output =
  ou_text :: string
  ou_json :: "json option"
  ou_error :: "string option"

datatype phase_output = Single task_output | Multi "task_output list"

record template_context =
  tc_args :: "(string \<times> json) list"
  tc_phases :: "(string \<times> phase_output) list"
  tc_item :: "(string \<times> json) option"

definition output_value :: "task_output \<Rightarrow> json" where
  "output_value t = JObject ([(''text'', JString (ou_text t))]
     @ (case ou_json t of None \<Rightarrow> [] | Some v \<Rightarrow> [(''json'', v)])
     @ (case ou_error t of None \<Rightarrow> [] | Some m \<Rightarrow> [(''error'', JString m)]))"

fun render_value :: "json \<Rightarrow> string" where
  "render_value (JString s) = s"
| "render_value v = json_stringify v"

definition flatten_one :: "string \<Rightarrow> task_output \<Rightarrow> json list" where
  "flatten_one field t =
     (case ou_json t of
        None \<Rightarrow> []
      | Some v \<Rightarrow> (case member v field of None \<Rightarrow> [] | Some (JArray xs) \<Rightarrow> xs | Some w \<Rightarrow> [w]))"

definition flatten_field :: "task_output list \<Rightarrow> string \<Rightarrow> json list" where
  "flatten_field results field = concat (map (flatten_one field) results)"

datatype ref_error =
    Empty_path string
  | No_such_arg string
  | Bare_phase string
  | Unknown_root string string
  | Unresolved string
  | Not_array string string

fun ref_error_text :: "ref_error \<Rightarrow> string" where
  "ref_error_text (Empty_path r) = ''unresolved reference '{{'' @ r @ ''}}': empty path''"
| "ref_error_text (No_such_arg r) = ''unresolved reference '{{'' @ r @ ''}}': no such arg''"
| "ref_error_text (Bare_phase r) = ''unresolved reference '{{'' @ r @ ''}}': bare phase id needs a field''"
| "ref_error_text (Unknown_root r t) =
     ''unresolved reference '{{'' @ r @ ''}}': unknown root '' @ [single_quote] @ t @ [single_quote]"
| "ref_error_text (Unresolved r) = ''unresolved reference '{{'' @ r @ ''}}'' @ [single_quote]"
| "ref_error_text (Not_array r t) =
     ''map.over '' @ [single_quote] @ r @ ''' did not resolve to an array (got '' @ t @ '')''"

text \<open>\<open>None\<close> is \<open>undefined\<close>.\<close>

definition resolve_phase_ref ::
  "phase_output \<Rightarrow> string \<Rightarrow> string list \<Rightarrow> ref_error + json option" where
  "resolve_phase_ref p ref rest =
     (case rest of
        [] \<Rightarrow> Inl (Bare_phase ref)
      | head # deeper \<Rightarrow>
          (case p of
             Single t \<Rightarrow>
               if head = ''text'' then Inr (Some (JString (ou_text t)))
               else if head = ''json'' then Inr (opt_bind (ou_json t) (\<lambda>v. walk_path v deeper))
               else Inr (opt_bind (ou_json t) (\<lambda>v. walk_path v rest))
           | Multi ts \<Rightarrow>
               if head = ''results'' then Inr (Some (JArray (map output_value ts)))
               else Inr (Some (JArray (flatten_field ts head)))))"

text \<open>\<open>s.split(c)\<close> for a single character.\<close>

fun split_on :: "char \<Rightarrow> string \<Rightarrow> string list" where
  "split_on c [] = [[]]"
| "split_on c (x # xs) =
     (if x = c then [] # split_on c xs
      else case split_on c xs of [] \<Rightarrow> [[x]] | w # ws \<Rightarrow> (x # w) # ws)"

definition resolve_ref :: "string \<Rightarrow> template_context \<Rightarrow> ref_error + json option" where
  "resolve_ref ref ctx =
     (let segments = map trim (split_on CHR ''.'' ref); root = hd segments; rest = tl segments in
      if root = [] then Inl (Empty_path ref)
      else if root = ''args'' then
        (case walk_path (JObject (tc_args ctx)) rest of
           None \<Rightarrow> Inl (No_such_arg ref) | Some v \<Rightarrow> Inr (Some v))
      else case tc_item ctx of
        Some (var, v) \<Rightarrow>
          if var = root then Inr (walk_path v rest)
          else (case map_of (tc_phases ctx) root of
                  None \<Rightarrow> Inl (Unknown_root ref root) | Some p \<Rightarrow> resolve_phase_ref p ref rest)
      | None \<Rightarrow>
          (case map_of (tc_phases ctx) root of
             None \<Rightarrow> Inl (Unknown_root ref root) | Some p \<Rightarrow> resolve_phase_ref p ref rest))"

section \<open>Interpolation\<close>

text \<open>A match of the reference pattern: two braces, text without a closing brace, two closing braces.
  The group is the text without the white space around it (its last character when it is all white).\<close>

datatype template_part = Literal char | Reference string string   \<comment> \<open>text between the braces, group\<close>

definition group_text :: "string \<Rightarrow> string" where
  "group_text body = (if trim body = [] then [last body] else trim body)"

definition match_ref :: "string \<Rightarrow> (string \<times> string) option" where
  "match_ref s =
     (let body = takeWhile (\<lambda>c. c \<noteq> CHR ''}'') s; after = dropWhile (\<lambda>c. c \<noteq> CHR ''}'') s in
      if body \<noteq> [] \<and> take 2 after = ''}}'' then Some (body, drop 2 after) else None)"

definition ref_at :: "string \<Rightarrow> (string \<times> string) option" where
  "ref_at s = (if take 2 s = ''{{'' then match_ref (drop 2 s) else None)"

lemma ref_at_eq:
  assumes "ref_at s = Some (body, after)"
  shows "s = ''{{'' @ body @ ''}}'' @ after \<and> body \<noteq> []"
proof -
  let ?t = "drop 2 s"
  let ?rest = "dropWhile (\<lambda>c. c \<noteq> CHR ''}'') ?t"
  have t: "take 2 s = ''{{''" "body = takeWhile (\<lambda>c. c \<noteq> CHR ''}'') ?t" "take 2 ?rest = ''}}''"
    "after = drop 2 ?rest" "body \<noteq> []"
    using assms by (auto simp: ref_at_def match_ref_def Let_def split: if_splits)
  have "s = take 2 s @ ?t" by (rule append_take_drop_id[symmetric])
  moreover have "?t = body @ ?rest" unfolding t(2) by (rule takeWhile_dropWhile_id[symmetric])
  moreover have "?rest = take 2 ?rest @ after" unfolding t(4) by (rule append_take_drop_id[symmetric])
  ultimately show ?thesis using t(1,3,5) by metis
qed

function template_parts :: "string \<Rightarrow> template_part list" where
  "template_parts [] = []"
| "template_parts (c # cs) =
     (case ref_at (c # cs) of
        Some (body, after) \<Rightarrow> Reference body (group_text body) # template_parts after
      | None \<Rightarrow> Literal c # template_parts cs)"
  by pat_completeness auto
termination
proof (relation "measure length")
  fix c cs x body after
  assume "ref_at (c # cs) = Some x" "(body, after) = x"
  then have "ref_at (c # cs) = Some (body, after)" by simp
  from ref_at_eq[OF this] have "length (c # cs) = length (''{{'' @ body @ ''}}'' @ after)" by metis
  then show "(after, c # cs) \<in> measure length" by simp
qed auto

fun render_parts :: "template_context \<Rightarrow> template_part list \<Rightarrow> ref_error + string" where
  "render_parts ctx [] = Inr []"
| "render_parts ctx (Literal c # ps) = (case render_parts ctx ps of Inl e \<Rightarrow> Inl e | Inr s \<Rightarrow> Inr (c # s))"
| "render_parts ctx (Reference body ref # ps) =
     (case resolve_ref ref ctx of
        Inl e \<Rightarrow> Inl e
      | Inr None \<Rightarrow> Inl (Unresolved ref)
      | Inr (Some v) \<Rightarrow>
          (case render_parts ctx ps of Inl e \<Rightarrow> Inl e | Inr s \<Rightarrow> Inr (render_value v @ s)))"

definition interpolate :: "string \<Rightarrow> template_context \<Rightarrow> ref_error + string" where
  "interpolate template ctx = render_parts ctx (template_parts template)"

fun js_typeof :: "json option \<Rightarrow> string" where
  "js_typeof None = ''undefined''"
| "js_typeof (Some (JBool b)) = ''boolean''"
| "js_typeof (Some (JNumber n)) = ''number''"
| "js_typeof (Some (JString s)) = ''string''"
| "js_typeof (Some _) = ''object''"

definition resolve_over_array :: "string \<Rightarrow> template_context \<Rightarrow> ref_error + json list" where
  "resolve_over_array over ctx =
     (case resolve_ref over ctx of
        Inl e \<Rightarrow> Inl e
      | Inr (Some (JArray xs)) \<Rightarrow> Inr xs
      | Inr v \<Rightarrow> Inl (Not_array over (js_typeof v)))"

section \<open>The check before a run\<close>

definition parse_ref :: "string \<Rightarrow> string \<times> string option" where
  "parse_ref expr =
     (let parts = split_on CHR ''.'' expr in (hd parts, if length parts > 1 then Some (parts ! 1) else None))"

fun part_group :: "template_part \<Rightarrow> string option" where
  "part_group (Literal c) = None"
| "part_group (Reference body ref) = Some ref"

definition extract_refs :: "string \<Rightarrow> string list" where
  "extract_refs prompt = filter (\<lambda>r. r \<noteq> []) (map trim (List.map_filter part_group (template_parts prompt)))"

definition default_loop_var :: string where "default_loop_var = ''item''"

definition phase_loop_var :: "phase \<Rightarrow> string option" where
  "phase_loop_var p = map_option (\<lambda>m. value_or (snd m) default_loop_var) (ph_map p)"

definition phase_tasks :: "phase \<Rightarrow> task list" where
  "phase_tasks p =
     (case ph_tasks p of Some ts \<Rightarrow> ts | None \<Rightarrow> (case ph_task p of Some t \<Rightarrow> [t] | None \<Rightarrow> []))"

definition quoted :: "string \<Rightarrow> string" where
  "quoted s = [single_quote] @ s @ [single_quote]"

definition declared_field :: "string option \<Rightarrow> string list \<Rightarrow> bool" where
  "declared_field field declared \<longleftrightarrow> (case field of None \<Rightarrow> False | Some f \<Rightarrow> f \<noteq> [] \<and> f \<in> set declared)"

definition validate_phase_over :: "phase \<Rightarrow> string list \<Rightarrow> string list \<Rightarrow> string list" where
  "validate_phase_over p declared prior =
     (case ph_map p of
        None \<Rightarrow> []
      | Some (over, _) \<Rightarrow>
          (let (root, field) = parse_ref over in
           if root = ''args'' then
             (if declared_field field declared then []
              else [''phase '' @ quoted (ph_id p) @ '' map.over '' @ quoted over @ '' references unknown arg''])
           else if root \<in> set prior then []
           else [''phase '' @ quoted (ph_id p) @ '' map.over '' @ quoted over
                 @ '' must reference an earlier phase id or args.<arg>'']))"

definition validate_task_agent :: "task \<Rightarrow> string \<Rightarrow> string list \<Rightarrow> string list" where
  "validate_task_agent t pid agents =
     (if wt_agent t \<in> set agents then []
      else [''phase '' @ quoted pid @ '' task references unknown agent '' @ quoted (wt_agent t)])"

definition validate_task_lane :: "task \<Rightarrow> string \<Rightarrow> string list option \<Rightarrow> string list" where
  "validate_task_lane t pid lanes =
     (case (wt_lane t, lanes) of
        (Some l, Some ls) \<Rightarrow>
          (if l \<in> set ls then []
           else [''phase '' @ quoted pid @ '' task references unknown lane '' @ quoted l
                 @ '' (valid: '' @ join_strings '', '' ls @ '')''])
      | _ \<Rightarrow> [])"

definition resolve_ref_error ::
  "string \<times> string option \<Rightarrow> string list \<Rightarrow> string list \<Rightarrow> string option \<Rightarrow> string option" where
  "resolve_ref_error ref declared prior loop_var =
     (if loop_var = Some (fst ref) then None
      else if fst ref = ''args'' then
        (if declared_field (snd ref) declared then None
         else Some (''references unknown arg '' @ quoted (value_or (snd ref) [])))
      else if fst ref \<in> set prior then None
      else Some ''references an unknown arg, loop variable, or earlier phase'')"

definition validate_task_refs ::
  "task \<Rightarrow> string \<Rightarrow> string list \<Rightarrow> string list \<Rightarrow> string option \<Rightarrow> string list" where
  "validate_task_refs t pid declared prior loop_var =
     List.map_filter (\<lambda>expr. map_option
         (\<lambda>e. ''phase '' @ quoted pid @ '' prompt ref '' @ quoted (''{{'' @ expr @ ''}}'') @ '' '' @ e)
         (resolve_ref_error (parse_ref expr) declared prior loop_var))
       (extract_refs (wt_prompt t))"

definition validate_phase ::
  "phase \<Rightarrow> string list \<Rightarrow> string list option \<Rightarrow> string list \<Rightarrow> string list \<Rightarrow> string list" where
  "validate_phase p agents lanes declared prior =
     validate_phase_over p declared prior
     @ concat (map (\<lambda>t. validate_task_agent t (ph_id p) agents @ validate_task_lane t (ph_id p) lanes
          @ validate_task_refs t (ph_id p) declared prior (phase_loop_var p)) (phase_tasks p))"

fun validate_phases ::
  "phase list \<Rightarrow> string list \<Rightarrow> string list option \<Rightarrow> string list \<Rightarrow> string list \<Rightarrow> string list" where
  "validate_phases [] agents lanes declared prior = []"
| "validate_phases (p # ps) agents lanes declared prior =
     validate_phase p agents lanes declared prior
     @ validate_phases ps agents lanes declared (ph_id p # prior)"

definition declared_args :: "workflow_def \<Rightarrow> string list" where
  "declared_args d = map fst (value_or (wd_args d) [])"

definition validate_workflow :: "workflow_def \<Rightarrow> string list \<Rightarrow> string list option \<Rightarrow> string list" where
  "validate_workflow d agents lanes = validate_phases (wd_phases d) agents lanes (declared_args d) []"

section \<open>Lemmas\<close>

lemma split_on_not_Nil [simp]: "split_on c s \<noteq> []"
  by (cases s) (simp_all split: list.split)

lemma map_filter_Nil_iff: "List.map_filter f xs = [] \<longleftrightarrow> (\<forall>x \<in> set xs. f x = None)"
  by (induction xs) (auto simp: List.map_filter_def)

text \<open>The parts of a template are the template, cut up.\<close>

fun part_text :: "template_part \<Rightarrow> string" where
  "part_text (Literal c) = [c]"
| "part_text (Reference body ref) = ''{{'' @ body @ ''}}''"

lemma template_parts_text: "concat (map part_text (template_parts s)) = s"
proof (induction s rule: template_parts.induct)
  case (2 c cs)
  show ?case
  proof (cases "ref_at (c # cs)")
    case None
    then show ?thesis using 2(1) by simp
  next
    case (Some x)
    obtain body after where x: "x = (body, after)" by (cases x)
    show ?thesis using 2(2)[OF Some x[symmetric]] ref_at_eq[OF Some[unfolded x]] Some x by simp
  qed
qed simp

text \<open>A group is trimmed, or a single white space.\<close>

lemma template_parts_group:
  "Reference body ref \<in> set (template_parts s) \<Longrightarrow> ref = group_text body \<and> body \<noteq> []"
proof (induction s rule: template_parts.induct)
  case (2 c cs)
  show ?case
  proof (cases "ref_at (c # cs)")
    case None
    then show ?thesis using 2(1,3) by simp
  next
    case (Some x)
    obtain b after where x: "x = (b, after)" by (cases x)
    show ?thesis using 2(2)[OF Some x[symmetric]] 2(3) ref_at_eq[OF Some[unfolded x]] Some x by auto
  qed
qed simp

lemma trim_blank: "trim s = [] \<longleftrightarrow> list_all is_space s"
proof
  assume "trim s = []"
  then show "list_all is_space s" using trim_split[of s] by (metis append_Nil list_all_append)
next
  assume "list_all is_space s"
  then show "trim s = []" using trim_pad[of s "[]" "[]"] by simp
qed

lemma group_text_trim: "body \<noteq> [] \<Longrightarrow> trim (group_text body) = [] \<or> trim (group_text body) = group_text body"
  by (auto simp: group_text_def trim_blank list_all_iff)

text \<open>What the check accepts is in scope when the prompt is built: no reference has an unknown root.\<close>

definition provides :: "template_context \<Rightarrow> string list \<Rightarrow> string option \<Rightarrow> bool" where
  "provides ctx prior loop_var \<longleftrightarrow>
     (\<forall>p \<in> set prior. trim p = p \<and> map_of (tc_phases ctx) p \<noteq> None)
     \<and> pred_option (\<lambda>v. trim v = v \<and> (\<exists>x. tc_item ctx = Some (v, x))) loop_var"

definition unknown_root :: "ref_error \<Rightarrow> bool" where
  "unknown_root e \<longleftrightarrow> (case e of Unknown_root _ _ \<Rightarrow> True | _ \<Rightarrow> False)"

lemma resolve_phase_ref_root: "resolve_phase_ref p ref rest = Inl e \<Longrightarrow> \<not> unknown_root e"
  by (auto simp: resolve_phase_ref_def unknown_root_def split: list.splits phase_output.splits if_splits)

text \<open>The reference an error is about, and the errors that are about a blank one or a name in scope.\<close>

fun failing_ref :: "ref_error \<Rightarrow> string" where
  "failing_ref (Empty_path r) = r"
| "failing_ref (No_such_arg r) = r"
| "failing_ref (Bare_phase r) = r"
| "failing_ref (Unknown_root r _) = r"
| "failing_ref (Unresolved r) = r"
| "failing_ref (Not_array r _) = r"

definition scope_names :: "string list \<Rightarrow> string option \<Rightarrow> string set" where
  "scope_names prior loop_var = insert ''args'' (set prior \<union> set_option loop_var)"

definition scoped_failure :: "string set \<Rightarrow> ref_error \<Rightarrow> bool" where
  "scoped_failure names e \<longleftrightarrow> \<not> unknown_root e
     \<and> (trim (failing_ref e) = [] \<or> hd (split_on CHR ''.'' (failing_ref e)) \<in> names)"

lemma resolve_ref_failing: "resolve_ref ref ctx = Inl e \<Longrightarrow> failing_ref e = ref"
  by (auto simp: resolve_ref_def resolve_phase_ref_def Let_def
      split: if_splits option.splits prod.splits list.splits phase_output.splits)

lemma checked_root:
  "resolve_ref_error (parse_ref ref) declared prior loop_var = None \<Longrightarrow>
   hd (split_on CHR ''.'' ref) \<in> scope_names prior loop_var"
  by (auto simp: resolve_ref_error_def parse_ref_def scope_names_def Let_def split: if_splits)

lemma resolve_known_root:
  assumes "resolve_ref_error (parse_ref ref) declared prior loop_var = None" "provides ctx prior loop_var"
    and "resolve_ref ref ctx = Inl e"
  shows "\<not> unknown_root e"
proof
  assume root: "unknown_root e"
  let ?r = "hd (split_on CHR ''.'' ref)"
  have hd: "hd (map trim (split_on CHR ''.'' ref)) = trim ?r" by (simp add: list.map_sel(1))
  have e: "e = Unknown_root ref (trim ?r) \<and> trim ?r \<noteq> ''args'' \<and> map_of (tc_phases ctx) (trim ?r) = None
      \<and> (\<forall>v x. tc_item ctx = Some (v, x) \<longrightarrow> v \<noteq> trim ?r)"
    using assms(3) root resolve_phase_ref_root unfolding resolve_ref_def Let_def hd
    by (auto simp: unknown_root_def split: if_splits option.splits prod.splits ref_error.splits)
  have "loop_var = Some ?r \<or> ?r = ''args'' \<or> ?r \<in> set prior"
    using assms(1) by (auto simp: resolve_ref_error_def parse_ref_def Let_def split: if_splits)
  then show False
  proof (elim disjE)
    assume "loop_var = Some ?r"
    then show False using assms(2) e by (auto simp: provides_def)
  next
    assume r: "?r = ''args''"
    have "trim ''args'' = ''args''" by (simp add: trim_def is_space_def)
    then show False using e r by simp
  next
    assume "?r \<in> set prior"
    then show False using assms(2) e by (auto simp: provides_def)
  qed
qed

lemma resolve_in_scope:
  assumes "resolve_ref_error (parse_ref ref) declared prior loop_var = None" "provides ctx prior loop_var"
    and "resolve_ref ref ctx = Inl e"
  shows "scoped_failure (scope_names prior loop_var) e"
  using resolve_known_root[OF assms] checked_root[OF assms(1)] resolve_ref_failing[OF assms(3)]
  by (simp add: scoped_failure_def)

lemma resolve_ref_empty: "resolve_ref ref ctx = Inl (Empty_path r) \<Longrightarrow> trim (hd (split_on CHR ''.'' ref)) = []"
  by (auto simp: resolve_ref_def Let_def resolve_phase_ref_def list.map_sel(1)
      split: if_splits option.splits prod.splits list.splits phase_output.splits)

lemma render_parts_error:
  "render_parts ctx ps = Inl e \<Longrightarrow>
   \<exists>body ref. Reference body ref \<in> set ps \<and> (resolve_ref ref ctx = Inl e \<or> e = Unresolved ref)"
  by (induction ctx ps rule: render_parts.induct) (auto split: sum.splits option.splits)

lemma trim_single_blank: "trim s = [] \<Longrightarrow> s \<noteq> [] \<Longrightarrow> resolve_ref [last s] ctx = Inl (Empty_path [last s])"
proof -
  assume "trim s = []" "s \<noteq> []"
  then have space: "is_space (last s)" by (simp add: trim_blank list_all_iff)
  then have "last s \<noteq> CHR ''.''" by (auto simp: is_space_def)
  moreover have "trim [last s] = []" using space by (simp add: trim_blank)
  ultimately show ?thesis by (simp add: resolve_ref_def)
qed

lemma extract_refsI:
  assumes "Reference body ref \<in> set (template_parts prompt)" "trim ref \<noteq> []"
  shows "ref \<in> set (extract_refs prompt)"
proof -
  have "ref = group_text body" "body \<noteq> []" using template_parts_group[OF assms(1)] by simp_all
  then have "trim ref = ref" using group_text_trim[of body] assms(2) by auto
  moreover have "ref \<in> set (List.map_filter part_group (template_parts prompt))"
    using assms(1) by (force simp: List.map_filter_def)
  ultimately show ?thesis using assms(2) by (force simp: extract_refs_def)
qed

text \<open>An error of a prompt whose references all passed the check: the root is known, and only a blank
  reference is empty.\<close>

lemma interpolate_in_scope:
  assumes ok: "\<forall>expr \<in> set (extract_refs prompt). resolve_ref_error (parse_ref expr) declared prior loop_var = None"
    and prov: "provides ctx prior loop_var" and err: "interpolate prompt ctx = Inl e"
  shows "scoped_failure (scope_names prior loop_var) e"
proof -
  obtain body ref where ref: "Reference body ref \<in> set (template_parts prompt)"
    "resolve_ref ref ctx = Inl e \<or> e = Unresolved ref"
    using render_parts_error err unfolding interpolate_def by blast
  show ?thesis
  proof (cases "trim ref = []")
    case True
    have "ref = group_text body" "body \<noteq> []" using template_parts_group[OF ref(1)] by simp_all
    then have "ref = [last body]" "trim body = []"
      using True by (auto simp: group_text_def split: if_splits)
    then have "resolve_ref ref ctx = Inl (Empty_path ref)" using trim_single_blank[of body] \<open>body \<noteq> []\<close> by simp
    then show ?thesis using ref(2) True by (auto simp: scoped_failure_def unknown_root_def)
  next
    case False
    then have "resolve_ref_error (parse_ref ref) declared prior loop_var = None"
      using ok extract_refsI[OF ref(1)] by blast
    then show ?thesis using ref(2) resolve_in_scope[OF _ prov] checked_root
      by (auto simp: scoped_failure_def unknown_root_def)
  qed
qed

lemma validate_phase_refs:
  assumes "validate_phase p agents lanes declared prior = []" "t \<in> set (phase_tasks p)"
  shows "\<forall>expr \<in> set (extract_refs (wt_prompt t)).
      resolve_ref_error (parse_ref expr) declared prior (phase_loop_var p) = None"
    and "wt_agent t \<in> set agents"
    and "\<And>l ls. wt_lane t = Some l \<Longrightarrow> lanes = Some ls \<Longrightarrow> l \<in> set ls"
  using assms
  by (auto simp: validate_phase_def validate_task_refs_def map_filter_Nil_iff validate_task_agent_def
      validate_task_lane_def split: if_splits)

text \<open>The phases of a definition that passes pass one by one, each after those before it.\<close>

lemma validate_phases_nth:
  "validate_phases ps agents lanes declared prior = [] \<Longrightarrow> k < length ps \<Longrightarrow>
   validate_phase (ps ! k) agents lanes declared (rev (map ph_id (take k ps)) @ prior) = []"
proof (induction ps arbitrary: k prior)
  case (Cons p ps)
  show ?case
  proof (cases k)
    case 0
    then show ?thesis using Cons.prems by simp
  next
    case (Suc m)
    then show ?thesis using Cons.IH[of "ph_id p # prior" m] Cons.prems by simp
  qed
qed simp

end
