(* ===== verification/Workflow_Engine.thy ===== *)
theory Workflow_Engine
  imports Workflow_Template Child_Routing Path_Lock
begin

text \<open>
  \<open>src/workflows/engine.ts\<close>: the run of a workflow. Phases run in order; the tasks of a phase are
  delegated concurrently, at most eight at a time, and the phase ends when every task has an answer.
  The run is a machine: its only event is that the delegation of a task settles. The scheduler
  behind \<open>delegate\<close> is the one of \<open>Delegation\<close>; here it is what settles the calls. A settlement and
  the next task its worker takes are one step. \<open>JSON.parse\<close> and
  \<open>Number\<close> are parameters; argument names are not names of inherited properties.
\<close>

section \<open>Arguments\<close>

fun js_string :: "json \<Rightarrow> string" where
  "js_string JNull = ''null''"
| "js_string (JBool b) = (if b then ''true'' else ''false'')"
| "js_string (JNumber n) = n"
| "js_string (JString s) = s"
| "js_string (JArray xs) = join_strings '','' (map (\<lambda>x. case x of JNull \<Rightarrow> [] | _ \<Rightarrow> js_string x) xs)"
| "js_string (JObject _) = ''[object Object]''"

definition coerce_arg ::
  "(json \<Rightarrow> string option) \<Rightarrow> string \<Rightarrow> arg_spec \<Rightarrow> json \<Rightarrow> string + json" where
  "coerce_arg number name spec v =
     (case as_type spec of
        Arg_string \<Rightarrow> Inr (case v of JString s \<Rightarrow> v | _ \<Rightarrow> JString (js_string v))
      | Arg_number \<Rightarrow>
          (case v of
             JNumber n \<Rightarrow> Inr v
           | _ \<Rightarrow> (case number v of None \<Rightarrow> Inl (''workflow arg '' @ quoted name @ '' must be a number'')
                   | Some n \<Rightarrow> Inr (JNumber n)))
      | Arg_boolean \<Rightarrow>
          (case v of
             JBool b \<Rightarrow> Inr v
           | _ \<Rightarrow> if v = JString ''true'' then Inr (JBool True)
                  else if v = JString ''false'' then Inr (JBool False)
                  else Inl (''workflow arg '' @ quoted name @ '' must be a boolean''))
      | Arg_list \<Rightarrow>
          (case v of
             JArray xs \<Rightarrow> Inr v
           | JString s \<Rightarrow> Inr (JArray (map (\<lambda>w. JString (trim w)) (split_on CHR '','' s)))
           | _ \<Rightarrow> Inl (''workflow arg '' @ quoted name @ '' must be a list'')))"

text \<open>\<open>out[name] = value\<close> on a plain object.\<close>

definition put_key :: "string \<Rightarrow> 'v \<Rightarrow> (string \<times> 'v) list \<Rightarrow> (string \<times> 'v) list" where
  "put_key k v m = (if k = ''__proto__'' then m else AList.update k v m)"

fun validate_args_from ::
  "(json \<Rightarrow> string option) \<Rightarrow> (string \<times> arg_spec) list \<Rightarrow> (string \<times> json) list \<Rightarrow> (string \<times> json) list
   \<Rightarrow> string + (string \<times> json) list" where
  "validate_args_from number [] raw out = Inr out"
| "validate_args_from number ((name, spec) # specs) raw out =
     (case or_else (map_of raw name) (as_default spec) of
        None \<Rightarrow>
          if as_required spec then Inl (''workflow arg '' @ quoted name @ '' is required'')
          else validate_args_from number specs raw out
      | Some v \<Rightarrow>
          (case coerce_arg number name spec v of
             Inl e \<Rightarrow> Inl e
           | Inr w \<Rightarrow> validate_args_from number specs raw (put_key name w out)))"

definition validate_args ::
  "(json \<Rightarrow> string option) \<Rightarrow> (string \<times> arg_spec) list option \<Rightarrow> (string \<times> json) list
   \<Rightarrow> string + (string \<times> json) list" where
  "validate_args number declared raw =
     (case declared of None \<Rightarrow> Inr [] | Some specs \<Rightarrow> validate_args_from number specs raw [])"

section \<open>The JSON value of a reply\<close>

definition fence :: string where "fence = replicate 3 (CHR 0x60)"

text \<open>The text up to the first occurrence of a separator, and what follows it.\<close>

fun split_at :: "string \<Rightarrow> string \<Rightarrow> (string \<times> string) option" where
  "split_at sep [] = (if sep = [] then Some ([], []) else None)"
| "split_at sep (c # cs) =
     (if starts_with (c # cs) sep then Some ([], drop (length sep) (c # cs))
      else map_option (\<lambda>(a, b). (c # a, b)) (split_at sep cs))"

definition drop_json_tag :: "string \<Rightarrow> string" where
  "drop_json_tag s = (if map to_lower_char (take 4 s) = ''json'' then drop 4 s else s)"

text \<open>What the first fenced block holds.\<close>

definition fenced_block :: "string \<Rightarrow> string option" where
  "fenced_block reply =
     opt_bind (split_at fence reply) (\<lambda>(_, after).
       map_option fst (split_at fence (dropWhile is_space (drop_json_tag after))))"

definition extract_json :: "(string \<Rightarrow> json option) \<Rightarrow> string \<Rightarrow> json option" where
  "extract_json parse reply = parse (trim (value_or (fenced_block reply) reply))"

section \<open>Tasks\<close>

record delegate_call =
  dc_agent :: string
  dc_prompt :: string
  dc_scope :: "path_scope option"
  dc_role :: "string option"
  dc_max_children :: nat

record resolved_task =
  rt_task :: task
  rt_prompt :: string
  rt_label :: string

definition phase_concurrency :: nat where "phase_concurrency = 8"

definition build_task_delegate_input :: "task \<Rightarrow> string \<Rightarrow> delegate_call" where
  "build_task_delegate_input t prompt =
     \<lparr>dc_agent = wt_agent t, dc_prompt = prompt, dc_scope = map_option Scope_globs (wt_writes t),
      dc_role = wt_lane t, dc_max_children = phase_concurrency\<rparr>"

fun resolve_mapped ::
  "task \<Rightarrow> string \<Rightarrow> template_context \<Rightarrow> nat \<Rightarrow> json list \<Rightarrow> ref_error + resolved_task list" where
  "resolve_mapped t var ctx i [] = Inr []"
| "resolve_mapped t var ctx i (v # vs) =
     (case interpolate (wt_prompt t) (ctx\<lparr>tc_item := Some (var, v)\<rparr>) of
        Inl e \<Rightarrow> Inl e
      | Inr prompt \<Rightarrow>
          (case resolve_mapped t var ctx (Suc i) vs of
             Inl e \<Rightarrow> Inl e
           | Inr rs \<Rightarrow> Inr (\<lparr>rt_task = t, rt_prompt = prompt,
               rt_label = value_or (wt_label t) (wt_agent t) @ ''['' @ nat_to_string i @ '']''\<rparr> # rs)))"

fun resolve_fixed :: "template_context \<Rightarrow> task list \<Rightarrow> ref_error + resolved_task list" where
  "resolve_fixed ctx [] = Inr []"
| "resolve_fixed ctx (t # ts) =
     (case interpolate (wt_prompt t) ctx of
        Inl e \<Rightarrow> Inl e
      | Inr prompt \<Rightarrow>
          (case resolve_fixed ctx ts of
             Inl e \<Rightarrow> Inl e
           | Inr rs \<Rightarrow> Inr (\<lparr>rt_task = t, rt_prompt = prompt,
               rt_label = value_or (wt_label t) (wt_agent t)\<rparr> # rs)))"

definition resolve_phase_tasks :: "phase \<Rightarrow> template_context \<Rightarrow> ref_error + resolved_task list" where
  "resolve_phase_tasks p ctx =
     (case (ph_map p, ph_task p) of
        (Some (over, var), Some t) \<Rightarrow>
          (case resolve_over_array over ctx of
             Inl e \<Rightarrow> Inl e
           | Inr items \<Rightarrow> resolve_mapped t (value_or var default_loop_var) ctx 0 items)
      | _ \<Rightarrow> resolve_fixed ctx (value_or (ph_tasks p) []))"

definition repair_note :: string where
  "repair_note = [CHR 0x0A, CHR 0x0A]
     @ ''Your previous reply was not valid JSON. Reply with ONLY a single JSON value ''
     @ ''(optionally in a '' @ fence @ ''json fenced block), nothing else.''"

definition repair_failed :: string where
  "repair_failed = ''output: json '' @ em_dash @ '' failed to parse after one repair retry''"

datatype task_stage = First_call | Repair_call string    \<comment> \<open>with the summary of the first answer\<close>

datatype task_answer = Task_done task_output | Task_retry string delegate_call

text \<open>\<open>runTask\<close> and \<open>reduceJsonTask\<close>, from one answer of the scheduler on.\<close>

definition first_reply ::
  "(string \<Rightarrow> json option) \<Rightarrow> resolved_task \<Rightarrow> string + delegate_result \<Rightarrow> task_answer" where
  "first_reply parse r outcome =
     (case outcome of
        Inl m \<Rightarrow> Task_done \<lparr>ou_text = [], ou_json = None, ou_error = Some m\<rparr>
      | Inr d \<Rightarrow>
          (let reason = reason_of (dr_terminal d) in
           if reason \<noteq> End_completed \<and> reason \<noteq> End_max_turns
           then Task_done \<lparr>ou_text = dr_summary d, ou_json = None,
                  ou_error = Some (''terminal='' @ reason_text reason)\<rparr>
           else if wt_output (rt_task r) \<noteq> Output_json
           then Task_done \<lparr>ou_text = dr_summary d, ou_json = None, ou_error = None\<rparr>
           else case extract_json parse (dr_summary d) of
             Some v \<Rightarrow> Task_done \<lparr>ou_text = dr_summary d, ou_json = Some v, ou_error = None\<rparr>
           | None \<Rightarrow> Task_retry (dr_summary d)
               (build_task_delegate_input (rt_task r) (rt_prompt r @ repair_note))))"

definition repair_reply ::
  "(string \<Rightarrow> json option) \<Rightarrow> string \<Rightarrow> string + delegate_result \<Rightarrow> task_output" where
  "repair_reply parse first outcome =
     (case outcome of
        Inl m \<Rightarrow> \<lparr>ou_text = first, ou_json = None, ou_error = Some m\<rparr>
      | Inr d \<Rightarrow>
          (case extract_json parse (dr_summary d) of
             Some v \<Rightarrow> \<lparr>ou_text = dr_summary d, ou_json = Some v, ou_error = None\<rparr>
           | None \<Rightarrow> \<lparr>ou_text = dr_summary d, ou_json = None, ou_error = Some repair_failed\<rparr>))"

fun task_reply ::
  "(string \<Rightarrow> json option) \<Rightarrow> resolved_task \<Rightarrow> task_stage \<Rightarrow> string + delegate_result \<Rightarrow> task_answer" where
  "task_reply parse r First_call outcome = first_reply parse r outcome"
| "task_reply parse r (Repair_call first) outcome = Task_done (repair_reply parse first outcome)"

section \<open>What a phase leaves behind\<close>

record phase_summary =
  ps_phase :: string
  ps_total :: nat
  ps_failed :: nat

record run_record =
  rr_index :: nat
  rr_outputs :: "(string \<times> phase_output) list"
  rr_summary :: "phase_summary list"
  rr_last :: "phase_output option"

definition to_phase_output :: "phase \<Rightarrow> task_output list \<Rightarrow> phase_output" where
  "to_phase_output p outs =
     (if ph_map p = None \<and> length (value_or (ph_tasks p) []) = 1 \<and> outs \<noteq> []
      then Single (hd outs) else Multi outs)"

definition failed_tasks :: "task_output list \<Rightarrow> nat" where
  "failed_tasks outs = length (filter (\<lambda>t. ou_error t \<noteq> None) outs)"

definition close_phase :: "phase \<Rightarrow> task_output list \<Rightarrow> run_record \<Rightarrow> run_record" where
  "close_phase p outs r =
     \<lparr>rr_index = Suc (rr_index r),
      rr_outputs = put_key (ph_id p) (to_phase_output p outs) (rr_outputs r),
      rr_summary = rr_summary r
        @ [\<lparr>ps_phase = ph_id p, ps_total = length outs, ps_failed = failed_tasks outs\<rparr>],
      rr_last = Some (to_phase_output p outs)\<rparr>"

definition phase_context :: "(string \<times> json) list \<Rightarrow> run_record \<Rightarrow> template_context" where
  "phase_context args r = \<lparr>tc_args = args, tc_phases = rr_outputs r, tc_item = None\<rparr>"

definition error_output :: "ref_error \<Rightarrow> task_output" where
  "error_output e = \<lparr>ou_text = [], ou_json = None, ou_error = Some (ref_error_text e)\<rparr>"

definition total_failed :: "run_record \<Rightarrow> nat" where
  "total_failed r = sum_list (map ps_failed (rr_summary r))"

fun workflow_final_text :: "phase_output option \<Rightarrow> string" where
  "workflow_final_text None = []"
| "workflow_final_text (Some (Single t)) = ou_text t"
| "workflow_final_text (Some (Multi ts)) = join_strings [CHR 0x0A, CHR 0x0A] (map ou_text ts)"

section \<open>The run\<close>

datatype workflow_event =
    Workflow_started string nat
  | Phase_started string nat nat
  | Task_started string nat string "string option"
  | Task_complete string nat string bool
  | Workflow_complete string bool "phase_summary list"

text \<open>A phase under way: its tasks, the next one to take, the calls in flight with their stage, and the
  outputs so far.\<close>

record phase_run =
  pr_phase :: phase
  pr_rest :: "phase list"
  pr_tasks :: "resolved_task list"
  pr_next :: nat
  pr_busy :: "(nat \<times> task_stage) list"
  pr_results :: "task_output option list"

record workflow_run =
  wr_name :: string
  wr_args :: "(string \<times> json) list"
  wr_record :: run_record
  wr_current :: "phase_run option"            \<comment> \<open>\<open>None\<close>: the run has returned\<close>
  wr_events :: "workflow_event list"
  wr_calls :: "(nat \<times> nat \<times> delegate_call) list"   \<comment> \<open>phase, task, call\<close>

definition on_event :: "workflow_event \<Rightarrow> workflow_run \<Rightarrow> workflow_run" where
  "on_event ev w = w\<lparr>wr_events := wr_events w @ [ev]\<rparr>"

definition issue :: "nat \<Rightarrow> delegate_call \<Rightarrow> workflow_run \<Rightarrow> workflow_run" where
  "issue i c w = w\<lparr>wr_calls := wr_calls w @ [(rr_index (wr_record w), i, c)]\<rparr>"

text \<open>A worker takes the next task, if there is one.\<close>

definition take_task :: "phase_run \<Rightarrow> workflow_run \<Rightarrow> phase_run \<times> workflow_run" where
  "take_task c w =
     (let i = pr_next c in
      if i < length (pr_tasks c) then
        (let r = pr_tasks c ! i in
         (c\<lparr>pr_next := Suc i, pr_busy := pr_busy c @ [(i, First_call)]\<rparr>,
          issue i (build_task_delegate_input (rt_task r) (rt_prompt r))
            (on_event (Task_started (ph_id (pr_phase c)) i (rt_label r) (wt_lane (rt_task r))) w)))
      else (c, w))"

fun take_tasks :: "nat \<Rightarrow> phase_run \<Rightarrow> workflow_run \<Rightarrow> phase_run \<times> workflow_run" where
  "take_tasks 0 c w = (c, w)"
| "take_tasks (Suc n) c w = (let (c', w') = take_task c w in take_tasks n c' w')"

definition finish_run :: "workflow_run \<Rightarrow> workflow_run" where
  "finish_run w =
     on_event (Workflow_complete (wr_name w) (total_failed (wr_record w) = 0) (rr_summary (wr_record w)))
       (w\<lparr>wr_current := None\<rparr>)"

text \<open>The phases from here on: a phase that cannot be resolved, or has no tasks, closes at once.\<close>

fun enter_phases :: "phase list \<Rightarrow> workflow_run \<Rightarrow> workflow_run" where
  "enter_phases [] w = finish_run w"
| "enter_phases (p # ps) w =
     (let started = (\<lambda>n. on_event (Phase_started (ph_id p) (rr_index (wr_record w)) n) w);
          close = (\<lambda>outs w. w\<lparr>wr_record := close_phase p outs (wr_record w)\<rparr>) in
      case resolve_phase_tasks p (phase_context (wr_args w) (wr_record w)) of
        Inl e \<Rightarrow> enter_phases ps (close [error_output e] (started 0))
      | Inr [] \<Rightarrow> enter_phases ps (close [] (started 0))
      | Inr ts \<Rightarrow>
          (let (c, w') = take_tasks (min phase_concurrency (length ts))
                 \<lparr>pr_phase = p, pr_rest = ps, pr_tasks = ts, pr_next = 0, pr_busy = [],
                  pr_results = replicate (length ts) None\<rparr> (started (length ts))
           in w'\<lparr>wr_current := Some c\<rparr>))"

text \<open>The delegation of task \<open>i\<close> settles.\<close>

definition settle_task ::
  "(string \<Rightarrow> json option) \<Rightarrow> nat \<Rightarrow> string + delegate_result \<Rightarrow> workflow_run \<Rightarrow> workflow_run" where
  "settle_task parse i outcome w =
     (case wr_current w of
        None \<Rightarrow> w
      | Some c \<Rightarrow>
          (case map_of (pr_busy c) i of
             None \<Rightarrow> w
           | Some stage \<Rightarrow>
               (case task_reply parse (pr_tasks c ! i) stage outcome of
                  Task_retry first call \<Rightarrow>
                    issue i call (w\<lparr>wr_current :=
                      Some (c\<lparr>pr_busy := AList.update i (Repair_call first) (pr_busy c)\<rparr>)\<rparr>)
                | Task_done out \<Rightarrow>
                    (let (c', w') = take_task
                           (c\<lparr>pr_busy := AList.delete i (pr_busy c), pr_results := (pr_results c)[i := Some out]\<rparr>)
                           (on_event (Task_complete (ph_id (pr_phase c)) i (rt_label (pr_tasks c ! i)) (ou_error out = None)) w)
                     in if pr_busy c' = []
                        then enter_phases (pr_rest c')
                          (w'\<lparr>wr_record := close_phase (pr_phase c') (map the (pr_results c')) (wr_record w')\<rparr>)
                        else w'\<lparr>wr_current := Some c'\<rparr>))))"

definition record_start :: run_record where
  "record_start = \<lparr>rr_index = 0, rr_outputs = [], rr_summary = [], rr_last = None\<rparr>"

definition known_lane_names :: "string list" where
  "known_lane_names = [''cheap-task'', ''moderate-task'', ''frontier-task'', ''delegator'']"

definition begin_workflow :: "(string \<times> json) list \<Rightarrow> workflow_def \<Rightarrow> workflow_run" where
  "begin_workflow args d =
     enter_phases (wd_phases d)
       (on_event (Workflow_started (wd_name d) (length (wd_phases d)))
         \<lparr>wr_name = wd_name d, wr_args = args, wr_record = record_start, wr_current = None,
          wr_events = [], wr_calls = []\<rparr>)"

text \<open>\<open>runWorkflow\<close> up to the first delegations.\<close>

definition run_workflow ::
  "(json \<Rightarrow> string option) \<Rightarrow> string list \<Rightarrow> workflow_def \<Rightarrow> (string \<times> json) list \<Rightarrow> string + workflow_run" where
  "run_workflow number agents d raw =
     (let errors = validate_workflow d agents (Some known_lane_names) in
      if errors \<noteq> [] then
        Inl (''workflow '' @ quoted (wd_name d) @ '' is invalid:'' @ [CHR 0x0A] @ ''  - ''
             @ join_strings ([CHR 0x0A] @ ''  - '') errors)
      else case validate_args number (wd_args d) raw of
        Inl e \<Rightarrow> Inl e
      | Inr args \<Rightarrow> Inr (begin_workflow args d))"

record workflow_result =
  wf_ok :: bool
  wf_phases :: "(string \<times> phase_output) list"
  wf_final_text :: string
  wf_summary :: "phase_summary list"

text \<open>What a run that has returned gives.\<close>

definition workflow_outcome :: "workflow_run \<Rightarrow> workflow_result option" where
  "workflow_outcome w =
     (if wr_current w = None then
        Some \<lparr>wf_ok = (total_failed (wr_record w) = 0), wf_phases = rr_outputs (wr_record w),
              wf_final_text = workflow_final_text (rr_last (wr_record w)),
              wf_summary = rr_summary (wr_record w)\<rparr>
      else None)"

end
