(* ===== verification/Workflow_Proofs.thy ===== *)
theory Workflow_Proofs
  imports Workflow_Engine
begin

text \<open>
  What holds of a workflow run, whatever the order in which its delegations settle: only declared tasks
  are delegated, eight at a time at most and phase after phase; the result does not depend on the
  order; a run whose delegations return returns; and the check before the run keeps unknown
  references out of the prompts.
\<close>

section \<open>Taking tasks\<close>

abbreviation task_call :: "resolved_task \<Rightarrow> delegate_call" where
  "task_call r \<equiv> build_task_delegate_input (rt_task r) (rt_prompt r)"

lemma on_event_fields [simp]:
  "wr_record (on_event ev w) = wr_record w" "wr_args (on_event ev w) = wr_args w" "wr_current (on_event ev w) = wr_current w"
  "wr_calls (on_event ev w) = wr_calls w" "wr_name (on_event ev w) = wr_name w"
  by (simp_all add: on_event_def)

lemma issue_fields [simp]:
  "wr_record (issue i c w) = wr_record w" "wr_args (issue i c w) = wr_args w"
  "wr_current (issue i c w) = wr_current w" "wr_name (issue i c w) = wr_name w"
  "wr_calls (issue i c w) = wr_calls w @ [(rr_index (wr_record w), i, c)]"
  by (simp_all add: issue_def)

lemma take_task_fields:
  "wr_record (snd (take_task c w)) = wr_record w" "wr_args (snd (take_task c w)) = wr_args w"
  "wr_current (snd (take_task c w)) = wr_current w"
  "pr_tasks (fst (take_task c w)) = pr_tasks c" "pr_phase (fst (take_task c w)) = pr_phase c"
  "pr_rest (fst (take_task c w)) = pr_rest c" "pr_results (fst (take_task c w)) = pr_results c"
  by (simp_all add: take_task_def Let_def)

lemma take_task_next:
  "pr_next (fst (take_task c w)) = (if pr_next c < length (pr_tasks c) then Suc (pr_next c) else pr_next c)"
  "pr_busy (fst (take_task c w)) =
     pr_busy c @ (if pr_next c < length (pr_tasks c) then [(pr_next c, First_call)] else [])"
  "wr_calls (snd (take_task c w)) = wr_calls w
     @ (if pr_next c < length (pr_tasks c)
        then [(rr_index (wr_record w), pr_next c, task_call (pr_tasks c ! pr_next c))] else [])"
  by (simp_all add: take_task_def Let_def)

lemma take_tasks_spec:
  "pr_next c + n \<le> length (pr_tasks c) \<Longrightarrow>
   fst (take_tasks n c w) = c\<lparr>pr_next := pr_next c + n,
       pr_busy := pr_busy c @ map (\<lambda>i. (i, First_call)) [pr_next c..<pr_next c + n]\<rparr>
   \<and> wr_calls (snd (take_tasks n c w)) = wr_calls w
       @ map (\<lambda>i. (rr_index (wr_record w), i, task_call (pr_tasks c ! i))) [pr_next c..<pr_next c + n]
   \<and> wr_record (snd (take_tasks n c w)) = wr_record w \<and> wr_args (snd (take_tasks n c w)) = wr_args w"
proof (induction n arbitrary: c w)
  case (Suc n)
  let ?c = "fst (take_task c w)" and ?w = "snd (take_task c w)"
  have lt: "pr_next c < length (pr_tasks c)" using Suc.prems by simp
  have c: "?c = c\<lparr>pr_next := Suc (pr_next c), pr_busy := pr_busy c @ [(pr_next c, First_call)]\<rparr>"
    using lt by (simp add: take_task_def Let_def)
  have IH: "fst (take_tasks n ?c ?w) = ?c\<lparr>pr_next := pr_next ?c + n,
       pr_busy := pr_busy ?c @ map (\<lambda>i. (i, First_call)) [pr_next ?c..<pr_next ?c + n]\<rparr>
     \<and> wr_calls (snd (take_tasks n ?c ?w)) = wr_calls ?w
       @ map (\<lambda>i. (rr_index (wr_record ?w), i, task_call (pr_tasks ?c ! i))) [pr_next ?c..<pr_next ?c + n]
     \<and> wr_record (snd (take_tasks n ?c ?w)) = wr_record ?w \<and> wr_args (snd (take_tasks n ?c ?w)) = wr_args ?w"
    by (rule Suc.IH) (use Suc.prems in \<open>simp add: c\<close>)
  have up: "[pr_next c..<pr_next c + Suc n] = pr_next c # [Suc (pr_next c)..<Suc (pr_next c) + n]"
    by (simp add: upt_rec[of "pr_next c"])
  have calls: "wr_calls ?w = wr_calls w @ [(rr_index (wr_record w), pr_next c, task_call (pr_tasks c ! pr_next c))]"
    using lt by (simp add: take_task_next(3))
  have step: "take_tasks (Suc n) c w = take_tasks n ?c ?w" by (simp add: Let_def split: prod.split)
  show ?case
    unfolding step up using IH by (simp add: c calls take_task_fields)
qed simp

section \<open>Entering phases\<close>

text \<open>Everything the entry of phases does is: close the phases that end at once, then start one or
  return. A property kept by closing, true of every phase started, and true at the end holds after.\<close>

definition start_phase_run :: "phase \<Rightarrow> phase list \<Rightarrow> resolved_task list \<Rightarrow> phase_run" where
  "start_phase_run p ps ts =
     (let n = min phase_concurrency (length ts) in
      \<lparr>pr_phase = p, pr_rest = ps, pr_tasks = ts, pr_next = n, pr_busy = map (\<lambda>i. (i, First_call)) [0..<n],
       pr_results = replicate (length ts) None\<rparr>)"

definition first_calls :: "nat \<Rightarrow> resolved_task list \<Rightarrow> (nat \<times> nat \<times> delegate_call) list" where
  "first_calls k ts = map (\<lambda>i. (k, i, task_call (ts ! i))) [0..<min phase_concurrency (length ts)]"

definition instant_outputs :: "ref_error + resolved_task list \<Rightarrow> task_output list option" where
  "instant_outputs r = (case r of Inl e \<Rightarrow> Some [error_output e] | Inr [] \<Rightarrow> Some [] | Inr _ \<Rightarrow> None)"

lemma enter_phases_cases [consumes 0, case_names Return Instant Start]:
  obtains "ps = []" "enter_phases ps w = finish_run w"
  | p qs outs w' where "ps = p # qs"
      "instant_outputs (resolve_phase_tasks p (phase_context (wr_args w) (wr_record w))) = Some outs"
      "enter_phases ps w = enter_phases qs w'" "wr_record w' = close_phase p outs (wr_record w)"
      "wr_args w' = wr_args w" "wr_calls w' = wr_calls w"
  | p qs ts where "ps = p # qs" "ts \<noteq> []"
      "resolve_phase_tasks p (phase_context (wr_args w) (wr_record w)) = Inr ts"
      "wr_current (enter_phases ps w) = Some (start_phase_run p qs ts)"
      "wr_record (enter_phases ps w) = wr_record w" "wr_args (enter_phases ps w) = wr_args w"
      "wr_calls (enter_phases ps w) = wr_calls w @ first_calls (rr_index (wr_record w)) ts"
proof (cases ps)
  case Nil
  then show ?thesis by (intro that(1)) simp_all
next
  case (Cons p qs)
  let ?w = "\<lambda>n. on_event (Phase_started (ph_id p) (rr_index (wr_record w)) n) w"
  let ?r = "resolve_phase_tasks p (phase_context (wr_args w) (wr_record w))"
  show ?thesis
  proof (cases "instant_outputs ?r")
    case (Some outs)
    have "enter_phases ps w = enter_phases qs (?w 0\<lparr>wr_record := close_phase p outs (wr_record w)\<rparr>)"
      using Some Cons by (auto simp: instant_outputs_def Let_def split: sum.splits list.splits)
    then show ?thesis by (rule that(2)[OF Cons Some]) simp_all
  next
    case None
    then obtain ts where ts: "?r = Inr ts" "ts \<noteq> []"
      by (auto simp: instant_outputs_def split: sum.splits list.splits)
    let ?c = "\<lparr>pr_phase = p, pr_rest = qs, pr_tasks = ts, pr_next = 0, pr_busy = [],
        pr_results = replicate (length ts) None\<rparr>"
    let ?n = "min phase_concurrency (length ts)"
    have take: "enter_phases ps w = snd (take_tasks ?n ?c (?w (length ts)))
        \<lparr>wr_current := Some (fst (take_tasks ?n ?c (?w (length ts))))\<rparr>"
      using ts Cons by (simp add: Let_def split: list.split prod.split)
    have "pr_next ?c + ?n \<le> length (pr_tasks ?c)" by simp
    note spec = take_tasks_spec[OF this, of "?w (length ts)"]
    show ?thesis
      by (rule that(3)[OF Cons ts(2,1)]) (simp_all add: take spec start_phase_run_def first_calls_def Let_def)
  qed
qed

section \<open>What a phase keeps\<close>

text \<open>A phase under way, when every output collected satisfies \<open>correct\<close> and every call in flight
  \<open>stage_ok\<close>.\<close>

definition phase_ok :: "(nat \<Rightarrow> task_output \<Rightarrow> bool) \<Rightarrow> (nat \<Rightarrow> task_stage \<Rightarrow> bool) \<Rightarrow> phase_run \<Rightarrow> bool" where
  "phase_ok correct stage_ok c \<longleftrightarrow>
     length (pr_results c) = length (pr_tasks c) \<and> pr_next c \<le> length (pr_tasks c)
     \<and> distinct (map fst (pr_busy c)) \<and> length (pr_busy c) \<le> phase_concurrency
     \<and> (\<forall>b \<in> set (pr_busy c). fst b < pr_next c \<and> stage_ok (fst b) (snd b))
     \<and> (\<forall>i < pr_next c. i \<notin> fst ` set (pr_busy c)
          \<longrightarrow> (\<exists>out. pr_results c ! i = Some out \<and> correct i out))"

lemma phase_ok_start:
  "(\<And>i. stage_ok i First_call) \<Longrightarrow> phase_ok correct stage_ok (start_phase_run p ps ts)"
  by (auto simp: phase_ok_def start_phase_run_def Let_def o_def image_image)

lemma map_of_busy: "map_of (pr_busy c) i = Some s \<Longrightarrow> (i, s) \<in> set (pr_busy c)"
  by (rule map_of_SomeD)

lemma update_elems: "b \<in> set (AList.update k v m) \<Longrightarrow> b = (k, v) \<or> b \<in> set m"
  by (induction m) (auto split: if_splits)

lemma phase_ok_retry:
  assumes "phase_ok correct stage_ok c" "map_of (pr_busy c) i = Some s" "stage_ok i s'"
  shows "phase_ok correct stage_ok (c\<lparr>pr_busy := AList.update i s' (pr_busy c)\<rparr>)"
proof -
  have i: "i \<in> fst ` set (pr_busy c)" using map_of_busy[OF assms(2)] by force
  then have keys: "map fst (AList.update i s' (pr_busy c)) = map fst (pr_busy c)"
    by (simp add: AList.update_keys)
  have len: "length (AList.update i s' (pr_busy c)) = length (pr_busy c)" using keys by (metis length_map)
  have fsts: "fst ` set (AList.update i s' (pr_busy c)) = fst ` set (pr_busy c)" using keys by (metis set_map)
  have elem: "b = (i, s') \<or> b \<in> set (pr_busy c)" if "b \<in> set (AList.update i s' (pr_busy c))" for b
    using that by (rule update_elems)
  have "fst b < pr_next c \<and> stage_ok (fst b) (snd b)" if "b \<in> set (AList.update i s' (pr_busy c))" for b
    using elem[OF that] assms(1,3) i by (auto simp: phase_ok_def)
  then show ?thesis using assms(1) by (simp add: phase_ok_def keys len fsts)
qed

lemma phase_ok_done:
  fixes w :: workflow_run
  assumes ok: "phase_ok correct stage_ok c" and i: "map_of (pr_busy c) i = Some s" and out: "correct i out"
    and first: "\<And>j. stage_ok j First_call"
    and c': "c' = fst (take_task (c\<lparr>pr_busy := AList.delete i (pr_busy c), pr_results := (pr_results c)[i := Some out]\<rparr>) w)"
  shows "phase_ok correct stage_ok c'"
    and "pr_busy c' = [] \<Longrightarrow> \<forall>j < length (pr_tasks c). correct j (map the (pr_results c') ! j)"
proof -
  let ?busy = "AList.delete i (pr_busy c)"
  let ?more = "pr_next c < length (pr_tasks c)"
  have f: "pr_tasks c' = pr_tasks c" "pr_results c' = (pr_results c)[i := Some out]"
    "pr_next c' = (if ?more then Suc (pr_next c) else pr_next c)"
    "pr_busy c' = ?busy @ (if ?more then [(pr_next c, First_call)] else [])"
    by (simp_all add: c' take_task_fields take_task_next)
  have i_in: "(i, s) \<in> set (pr_busy c)" by (rule map_of_busy[OF i])
  have lt: "i < pr_next c" "pr_next c \<le> length (pr_tasks c)" "length (pr_results c) = length (pr_tasks c)"
    using ok i_in by (auto simp: phase_ok_def)
  have keys: "fst ` set ?busy = fst ` set (pr_busy c) - {i}" by (rule keys_delete)
  have dist: "distinct (map fst ?busy)" using ok by (simp add: phase_ok_def distinct_delete)
  have sub: "set ?busy \<subseteq> set (pr_busy c)" by (rule set_delete_subset)
  have len: "length ?busy < length (pr_busy c)"
  proof -
    have "length (filter (\<lambda>b. i \<noteq> fst b) (pr_busy c)) < length (pr_busy c)"
      by (rule length_filter_less[OF i_in]) simp
    then show ?thesis by (simp add: AList.delete_eq case_prod_unfold)
  qed
  have results: "\<exists>o'. pr_results c' ! j = Some o' \<and> correct j o'"
    if "j < pr_next c" "j \<notin> fst ` set ?busy" for j
  proof (cases "j = i")
    case True
    then show ?thesis using f(2) lt out by simp
  next
    case False
    then have "j \<notin> fst ` set (pr_busy c)" using that(2) keys by blast
    then show ?thesis using ok that(1) False f(2) by (simp add: phase_ok_def)
  qed
  show "phase_ok correct stage_ok c'"
  proof (cases ?more)
    case True
    have "pr_next c \<notin> fst ` set (pr_busy c)" using ok by (auto simp: phase_ok_def)
    then have new: "pr_next c \<notin> fst ` set ?busy" using keys by blast
    have "\<exists>o'. pr_results c' ! j = Some o' \<and> correct j o'"
      if "j < Suc (pr_next c)" "j \<notin> insert (pr_next c) (fst ` set ?busy)" for j
      using that results[of j] by auto
    moreover have "fst b < Suc (pr_next c) \<and> stage_ok (fst b) (snd b)"
      if "b \<in> insert (pr_next c, First_call) (set ?busy)" for b
      using that sub ok first by (auto simp: phase_ok_def less_Suc_eq)
    ultimately show ?thesis
      using ok True lt dist new len by (auto simp: phase_ok_def f)
  next
    case False
    have "fst b < pr_next c \<and> stage_ok (fst b) (snd b)" if "b \<in> set ?busy" for b
      using that sub ok by (auto simp: phase_ok_def)
    then show ?thesis using ok False lt dist len results by (auto simp: phase_ok_def f)
  qed
  show "\<forall>j < length (pr_tasks c). correct j (map the (pr_results c') ! j)" if "pr_busy c' = []"
  proof (intro allI impI)
    fix j
    assume j: "j < length (pr_tasks c)"
    have none: "\<not> ?more" "?busy = []" using that f(4) by (auto split: if_splits)
    then have "j < pr_next c" using j by simp
    then obtain o' where "pr_results c' ! j = Some o'" "correct j o'" using results[of j] none(2) by auto
    then show "correct j (map the (pr_results c') ! j)" using j f(2) lt by simp
  qed
qed

section \<open>What a run keeps\<close>

text \<open>The contract between what is said of tasks and what is said of runs: \<open>correct\<close> of an output,
  \<open>stage_ok\<close> of a call in flight, \<open>call_ok\<close> of a call made, and \<open>todo\<close> of the phases still to run with
  the record so far, which the end of a phase keeps.\<close>

locale phase_contract =
  fixes args :: "(string \<times> json) list"
    and correct :: "nat \<Rightarrow> resolved_task list \<Rightarrow> nat \<Rightarrow> task_output \<Rightarrow> bool"
    and stage_ok :: "nat \<Rightarrow> resolved_task list \<Rightarrow> nat \<Rightarrow> task_stage \<Rightarrow> bool"
    and call_ok :: "nat \<times> nat \<times> delegate_call \<Rightarrow> bool"
    and todo :: "phase list \<Rightarrow> run_record \<Rightarrow> bool"
  assumes first_ok: "stage_ok k ts i First_call"
    and close_instant: "todo (p # ps) r \<Longrightarrow>
      instant_outputs (resolve_phase_tasks p (phase_context args r)) = Some outs \<Longrightarrow>
      todo ps (close_phase p outs r)"
    and close_full: "todo (p # ps) r \<Longrightarrow> resolve_phase_tasks p (phase_context args r) = Inr ts \<Longrightarrow>
      ts \<noteq> [] \<Longrightarrow> length outs = length ts \<Longrightarrow> (\<forall>j < length ts. correct (rr_index r) ts j (outs ! j)) \<Longrightarrow>
      todo ps (close_phase p outs r)"
    and calls: "todo (p # ps) r \<Longrightarrow> resolve_phase_tasks p (phase_context args r) = Inr ts \<Longrightarrow>
      i < length ts \<Longrightarrow> call_ok (rr_index r, i, build_task_delegate_input (rt_task (ts ! i)) prompt)"
begin

definition run_ok :: "workflow_run \<Rightarrow> bool" where
  "run_ok w \<longleftrightarrow> wr_args w = args
     \<and> (case wr_current w of
          None \<Rightarrow> todo [] (wr_record w)
        | Some c \<Rightarrow> todo (pr_phase c # pr_rest c) (wr_record w) \<and> pr_tasks c \<noteq> [] \<and> pr_busy c \<noteq> []
            \<and> resolve_phase_tasks (pr_phase c) (phase_context args (wr_record w)) = Inr (pr_tasks c)
            \<and> phase_ok (correct (rr_index (wr_record w)) (pr_tasks c))
                (stage_ok (rr_index (wr_record w)) (pr_tasks c)) c)
     \<and> (\<forall>x \<in> set (wr_calls w). call_ok x \<and> fst x \<le> rr_index (wr_record w))
     \<and> sorted (map fst (wr_calls w))"

abbreviation calls_ok :: "workflow_run \<Rightarrow> bool" where
  "calls_ok w \<equiv> (\<forall>x \<in> set (wr_calls w). call_ok x \<and> fst x \<le> rr_index (wr_record w)) \<and> sorted (map fst (wr_calls w))"

lemma enter_ok:
  "todo ps (wr_record w) \<Longrightarrow> wr_args w = args \<Longrightarrow> calls_ok w \<Longrightarrow> run_ok (enter_phases ps w)"
proof (induction ps arbitrary: w)
  case Nil
  then show ?case by (simp add: finish_run_def run_ok_def)
next
  case (Cons p ps)
  show ?case
  proof (cases rule: enter_phases_cases[of "p # ps" w])
    case Return
    then show ?thesis by simp
  next
    case (Instant p' qs outs w')
    then have p: "p' = p" "qs = ps" by simp_all
    have "todo ps (wr_record w')"
      using close_instant[OF Cons.prems(1)] Instant(2,4) Cons.prems(2) p by simp
    moreover have "calls_ok w'" using Cons.prems(3) Instant(4,6) by (auto simp: close_phase_def)
    ultimately have "run_ok (enter_phases ps w')" using Instant(5) Cons.prems(2) by (intro Cons.IH) simp_all
    then show ?thesis using Instant(3) p by simp
  next
    case (Start p' qs ts)
    then have p: "p' = p" "qs = ps" by simp_all
    let ?c = "start_phase_run p ps ts" and ?w = "enter_phases (p # ps) w"
    have res: "resolve_phase_tasks p (phase_context args (wr_record w)) = Inr ts"
      using Start(3) p Cons.prems(2) by simp
    have c: "pr_phase ?c = p" "pr_rest ?c = ps" "pr_tasks ?c = ts" "pr_busy ?c \<noteq> []"
      using Start(2) by (simp_all add: start_phase_run_def Let_def phase_concurrency_def)
    have "phase_ok (correct k ts) (stage_ok k ts) ?c" for k by (rule phase_ok_start) (rule first_ok)
    moreover have "call_ok x \<and> fst x \<le> rr_index (wr_record w)"
      if "x \<in> set (first_calls (rr_index (wr_record w)) ts)" for x
      using that calls[OF Cons.prems(1) res] by (auto simp: first_calls_def)
    moreover have "sorted (map fst (wr_calls w @ first_calls (rr_index (wr_record w)) ts))"
      using Cons.prems(3) by (auto simp: sorted_append first_calls_def o_def map_replicate_const)
    ultimately show ?thesis
      using Start(4-7) p c res Cons.prems Start(2) unfolding run_ok_def by auto
  qed
qed

lemma settle_ok:
  assumes ok: "run_ok w"
    and answer: "\<And>c s. wr_current w = Some c \<Longrightarrow> map_of (pr_busy c) i = Some s \<Longrightarrow>
      stage_ok (rr_index (wr_record w)) (pr_tasks c) i s \<Longrightarrow>
      (case task_reply parse (pr_tasks c ! i) s outcome of
         Task_done out \<Rightarrow> correct (rr_index (wr_record w)) (pr_tasks c) i out
       | Task_retry f call \<Rightarrow> stage_ok (rr_index (wr_record w)) (pr_tasks c) i (Repair_call f))"
  shows "run_ok (settle_task parse i outcome w)"
proof (cases "wr_current w")
  case None
  then show ?thesis using ok by (simp add: settle_task_def)
next
  case cur: (Some c)
  show ?thesis
  proof (cases "map_of (pr_busy c) i")
    case None
    then show ?thesis using ok cur by (simp add: settle_task_def)
  next
    case busy: (Some s)
    let ?k = "rr_index (wr_record w)" and ?ts = "pr_tasks c"
    have todo: "todo (pr_phase c # pr_rest c) (wr_record w)" and args: "wr_args w = args"
      and res: "resolve_phase_tasks (pr_phase c) (phase_context args (wr_record w)) = Inr ?ts"
      and ph: "phase_ok (correct ?k ?ts) (stage_ok ?k ?ts) c" and cs: "calls_ok w" and ne: "?ts \<noteq> []"
      using ok cur by (simp_all add: run_ok_def)
    have i: "i < length ?ts" "stage_ok ?k ?ts i s"
      using ph map_of_busy[OF busy] by (auto simp: phase_ok_def)
    show ?thesis
    proof (cases "task_reply parse (?ts ! i) s outcome")
      case (Task_retry f call)
      have call: "call = build_task_delegate_input (rt_task (?ts ! i)) (rt_prompt (?ts ! i) @ repair_note)"
        using Task_retry by (cases s) (auto simp: first_reply_def Let_def split: sum.splits option.splits if_splits)
      have "stage_ok ?k ?ts i (Repair_call f)" using answer[OF cur busy i(2)] Task_retry by simp
      from phase_ok_retry[OF ph busy this]
      have "phase_ok (correct ?k ?ts) (stage_ok ?k ?ts) (c\<lparr>pr_busy := AList.update i (Repair_call f) (pr_busy c)\<rparr>)" .
      moreover have "AList.update i (Repair_call f) (pr_busy c) \<noteq> []" using busy by (cases "pr_busy c") auto
      moreover have "call_ok (?k, i, call)" unfolding call by (rule calls[OF todo res i(1)])
      ultimately show ?thesis
        using cur busy Task_retry todo args res cs ne
        by (auto simp: settle_task_def run_ok_def sorted_append)
    next
      case (Task_done out)
      let ?c1 = "c\<lparr>pr_busy := AList.delete i (pr_busy c), pr_results := (pr_results c)[i := Some out]\<rparr>"
      let ?w1 = "on_event (Task_complete (ph_id (pr_phase c)) i (rt_label (?ts ! i)) (ou_error out = None)) w"
      let ?c' = "fst (take_task ?c1 ?w1)" and ?w' = "snd (take_task ?c1 ?w1)"
      have step: "settle_task parse i outcome w =
          (if pr_busy ?c' = [] then enter_phases (pr_rest ?c')
             (?w'\<lparr>wr_record := close_phase (pr_phase ?c') (map the (pr_results ?c')) (wr_record ?w')\<rparr>)
           else ?w'\<lparr>wr_current := Some ?c'\<rparr>)"
        using cur busy Task_done by (simp add: settle_task_def Let_def split: prod.split)
      have out: "correct ?k ?ts i out" using answer[OF cur busy i(2)] Task_done by simp
      note fin = phase_ok_done[OF ph busy out first_ok refl, of ?w1]
      have fields: "pr_tasks ?c' = ?ts" "pr_phase ?c' = pr_phase c" "pr_rest ?c' = pr_rest c"
        "length (pr_results ?c') = length ?ts" "wr_record ?w' = wr_record w" "wr_args ?w' = args"
        using ph args by (simp_all add: take_task_fields phase_ok_def)
      have new_calls: "calls_ok ?w'"
        using cs calls[OF todo res] by (auto simp: take_task_next take_task_fields sorted_append)
      show ?thesis
      proof (cases "pr_busy ?c' = []")
        case True
        have "todo (pr_rest c) (close_phase (pr_phase c) (map the (pr_results ?c')) (wr_record w))"
          by (rule close_full[OF todo res ne]) (use fin(2)[OF True] fields in simp_all)
        then have "run_ok (enter_phases (pr_rest c)
            (?w'\<lparr>wr_record := close_phase (pr_phase c) (map the (pr_results ?c')) (wr_record w)\<rparr>))"
          using new_calls fields by (intro enter_ok) (auto simp: close_phase_def)
        then show ?thesis using step True fields by simp
      next
        case False
        then show ?thesis
          using step fin(1) fields todo res ne new_calls unfolding run_ok_def by auto
      qed
    qed
  qed
qed

end

text \<open>The answers of the scheduler, by phase, task and whether it is the repair.\<close>

type_synonym answers = "nat \<Rightarrow> nat \<Rightarrow> bool \<Rightarrow> string + delegate_result"

section \<open>A workflow to run\<close>

definition example_task :: "string \<Rightarrow> string \<Rightarrow> output_kind \<Rightarrow> task" where
  "example_task agent prompt kind =
     \<lparr>wt_agent = agent, wt_prompt = prompt, wt_lane = Some ''cheap-task'', wt_writes = Some [''a/**''],
      wt_output = kind, wt_label = None\<rparr>"

text \<open>Two tasks side by side, then one task for every file the first phase names.\<close>

definition example_workflow :: workflow_def where
  "example_workflow =
     \<lparr>wd_name = ''review'', wd_args = None,
      wd_phases =
        [\<lparr>ph_id = ''scan'', ph_tasks = Some [example_task ''finder'' ''find'' Output_json,
            example_task ''planner'' ''plan'' Output_text], ph_map = None, ph_task = None\<rparr>,
         \<lparr>ph_id = ''read'', ph_tasks = None, ph_map = Some (''scan.files'', None),
            ph_task = Some (example_task ''finder'' ''read {{item}} after {{scan.results}}'' Output_text)\<rparr>]\<rparr>"

definition example_agents :: "string list" where
  "example_agents = [''finder'', ''planner'']"

definition example_parse :: "string \<Rightarrow> json option" where
  "example_parse s =
     (if s = ''two'' then Some (JObject [(''files'', JArray [JString ''f'', JString ''g''])]) else None)"

definition example_answer :: "string \<Rightarrow> string + delegate_result" where
  "example_answer s = Inr ((interrupted_result [] ([], []) [])\<lparr>dr_terminal := Completed, dr_summary := s\<rparr>)"

text \<open>The finder answers well at its second attempt only, and the planner fails.\<close>

definition example_answers :: answers where
  "example_answers k i repair =
     (if k = 0 then (if i = 1 then Inl ''no lane'' else example_answer (if repair then ''two'' else ''one''))
      else example_answer (''done '' @ nat_to_string i))"

section \<open>The result does not depend on the order\<close>

text \<open>What a run computes when nothing is concurrent: phase by phase, task by task.\<close>

definition reference_task ::
  "(string \<Rightarrow> json option) \<Rightarrow> answers \<Rightarrow> nat \<Rightarrow> resolved_task list \<Rightarrow> nat \<Rightarrow> task_output" where
  "reference_task parse answers k ts i =
     (case first_reply parse (ts ! i) (answers k i False) of
        Task_done out \<Rightarrow> out
      | Task_retry first _ \<Rightarrow> repair_reply parse first (answers k i True))"

definition reference_outputs ::
  "(string \<Rightarrow> json option) \<Rightarrow> answers \<Rightarrow> (string \<times> json) list \<Rightarrow> phase \<Rightarrow> run_record \<Rightarrow> task_output list" where
  "reference_outputs parse answers args p r =
     (case resolve_phase_tasks p (phase_context args r) of
        Inl e \<Rightarrow> [error_output e]
      | Inr ts \<Rightarrow> map (reference_task parse answers (rr_index r) ts) [0..<length ts])"

fun reference_run ::
  "(string \<Rightarrow> json option) \<Rightarrow> answers \<Rightarrow> (string \<times> json) list \<Rightarrow> phase list \<Rightarrow> run_record \<Rightarrow> run_record" where
  "reference_run parse answers args [] r = r"
| "reference_run parse answers args (p # ps) r =
     reference_run parse answers args ps (close_phase p (reference_outputs parse answers args p r) r)"

text \<open>A settlement whose answer is the one given for the call in flight.\<close>

definition answer_of :: "answers \<Rightarrow> nat \<Rightarrow> nat \<Rightarrow> task_stage \<Rightarrow> string + delegate_result" where
  "answer_of answers k i s = answers k i (case s of First_call \<Rightarrow> False | Repair_call _ \<Rightarrow> True)"

definition answer_task ::
  "(string \<Rightarrow> json option) \<Rightarrow> answers \<Rightarrow> nat \<Rightarrow> workflow_run \<Rightarrow> workflow_run" where
  "answer_task parse answers i w =
     (case wr_current w of
        None \<Rightarrow> w
      | Some c \<Rightarrow>
          (case map_of (pr_busy c) i of
             None \<Rightarrow> w
           | Some s \<Rightarrow> settle_task parse i (answer_of answers (rr_index (wr_record w)) i s) w))"

definition reference_stage ::
  "(string \<Rightarrow> json option) \<Rightarrow> answers \<Rightarrow> nat \<Rightarrow> resolved_task list \<Rightarrow> nat \<Rightarrow> task_stage \<Rightarrow> bool" where
  "reference_stage parse answers k ts i s =
     (case s of
        First_call \<Rightarrow> True
      | Repair_call first \<Rightarrow> (\<exists>call. first_reply parse (ts ! i) (answers k i False) = Task_retry first call))"

lemma reference_instant:
  "instant_outputs (resolve_phase_tasks p (phase_context args r)) = Some outs \<Longrightarrow>
   reference_outputs parse answers args p r = outs"
  unfolding reference_outputs_def instant_outputs_def
  by (cases "resolve_phase_tasks p (phase_context args r)"; simp only: sum.case option.inject)
    (simp split: list.split_asm)

lemma reference_full:
  "resolve_phase_tasks p (phase_context args r) = Inr ts \<Longrightarrow> length outs = length ts \<Longrightarrow>
   \<forall>j < length ts. outs ! j = reference_task parse answers (rr_index r) ts j \<Longrightarrow>
   reference_outputs parse answers args p r = outs"
  unfolding reference_outputs_def by (simp only: sum.case) (rule nth_equalityI; simp)

interpretation reference: phase_contract args
  "\<lambda>k ts i out. out = reference_task parse answers k ts i"
  "reference_stage parse answers" "\<lambda>_. True"
  "\<lambda>ps r. reference_run parse answers args ps r = final"
  for args parse answers final
proof (unfold_locales, goal_cases)
  case 1
  show ?case by (simp add: reference_stage_def)
next
  case (2 p ps r outs)
  then show ?case using reference_instant[OF 2(2)] by (simp only: reference_run.simps)
next
  case (3 p ps r ts outs)
  then show ?case using reference_full[OF 3(2,4,5)] by (simp only: reference_run.simps)
qed simp

lemma answer_task_reference:
  assumes "reference.run_ok args parse answers final w"
  shows "reference.run_ok args parse answers final (answer_task parse answers i w)"
proof (cases "\<exists>c s. wr_current w = Some c \<and> map_of (pr_busy c) i = Some s")
  case False
  then have "answer_task parse answers i w = w" by (auto simp: answer_task_def split: option.splits)
  then show ?thesis using assms by simp
next
  case True
  then obtain c s where c: "wr_current w = Some c" "map_of (pr_busy c) i = Some s" by blast
  have "reference.run_ok args parse answers final
      (settle_task parse i (answer_of answers (rr_index (wr_record w)) i s) w)"
  proof (rule reference.settle_ok[OF assms])
    fix c' s'
    assume c': "wr_current w = Some c'" "map_of (pr_busy c') i = Some s'"
      and st: "reference_stage parse answers (rr_index (wr_record w)) (pr_tasks c') i s'"
    have s: "s' = s" "c' = c" using c c' by simp_all
    let ?k = "rr_index (wr_record w)"
    show "case task_reply parse (pr_tasks c' ! i) s' (answer_of answers ?k i s) of
        Task_done out \<Rightarrow> out = reference_task parse answers ?k (pr_tasks c') i
      | Task_retry f call \<Rightarrow> reference_stage parse answers ?k (pr_tasks c') i (Repair_call f)"
    proof (cases s)
      case First_call
      then show ?thesis
        by (simp add: s answer_of_def reference_task_def reference_stage_def split: task_answer.split)
    next
      case (Repair_call first)
      then obtain call where "first_reply parse (pr_tasks c ! i) (answers ?k i False) = Task_retry first call"
        using st by (auto simp: s reference_stage_def)
      then show ?thesis by (simp add: s Repair_call answer_of_def reference_task_def)
    qed
  qed
  then show ?thesis using c by (simp add: answer_task_def)
qed

lemma begin_workflow_reference:
  "reference.run_ok args parse answers (reference_run parse answers args (wd_phases d) record_start) (begin_workflow args d)"
  unfolding begin_workflow_def by (rule reference.enter_ok) simp_all

lemma answers_reference:
  "reference.run_ok args parse answers final w \<Longrightarrow>
   reference.run_ok args parse answers final (fold (answer_task parse answers) order w)"
  by (induction order arbitrary: w) (simp_all add: answer_task_reference)

text \<open>What the sequential run returns.\<close>

definition reference_result :: "run_record \<Rightarrow> workflow_result" where
  "reference_result r =
     \<lparr>wf_ok = (total_failed r = 0), wf_phases = rr_outputs r,
      wf_final_text = workflow_final_text (rr_last r), wf_summary = rr_summary r\<rparr>"

text \<open>C22: The result of a workflow run does not depend on the order in which its delegations settle:
  when the run returns, after any sequence of settlements, its outputs, summary, final text and verdict
  are those of the run that does phase after phase and task after task, each delegation answered the
  same.\<close>
theorem workflow_schedule_independent:
  assumes "workflow_outcome (fold (answer_task parse answers) order (begin_workflow args d)) = Some res"
  shows "res = reference_result (reference_run parse answers args (wd_phases d) record_start)"
proof -
  let ?w = "fold (answer_task parse answers) order (begin_workflow args d)"
  let ?final = "reference_run parse answers args (wd_phases d) record_start"
  have "reference.run_ok args parse answers ?final ?w"
    by (rule answers_reference) (rule begin_workflow_reference)
  moreover have none: "wr_current ?w = None" using assms by (simp add: workflow_outcome_def split: if_splits)
  ultimately have "wr_record ?w = ?final" by (simp add: reference.run_ok_def)
  then show ?thesis using assms none by (simp add: workflow_outcome_def reference_result_def)
qed

theorem workflow_schedule_independent_witness:
  "let r = reference_run example_parse example_answers [] (wd_phases example_workflow) record_start
   in map_option wf_final_text (workflow_outcome
        (fold (answer_task example_parse example_answers) [1, 0, 0, 1, 0] (begin_workflow [] example_workflow)))
      = Some (wf_final_text (reference_result r)) \<and> total_failed r = 1
      \<and> wf_final_text (reference_result r) = ''done 0'' @ [CHR 0x0A, CHR 0x0A] @ ''done 1''"
proof -
  let ?w = "fold (answer_task example_parse example_answers) [1, 0, 0, 1, 0] (begin_workflow [] example_workflow)"
  have none: "workflow_outcome ?w \<noteq> None" by code_simp
  then obtain res where res: "workflow_outcome ?w = Some res" by blast
  from workflow_schedule_independent[OF res]
  have eq: "res = reference_result (reference_run example_parse example_answers [] (wd_phases example_workflow) record_start)" .
  have "map_option (\<lambda>r. (wf_final_text r, sum_list (map ps_failed (wf_summary r)))) (workflow_outcome ?w)
      = Some (''done 0'' @ [CHR 0x0A, CHR 0x0A] @ ''done 1'', 1)" by code_simp
  then show ?thesis using eq res by (simp add: Let_def reference_result_def total_failed_def)
qed

section \<open>Only checked calls\<close>

definition calls_in_flight :: "workflow_run \<Rightarrow> (nat \<times> task_stage) list" where
  "calls_in_flight w = (case wr_current w of None \<Rightarrow> [] | Some c \<Rightarrow> pr_busy c)"

definition settle_all ::
  "(string \<Rightarrow> json option) \<Rightarrow> (nat \<times> (string + delegate_result)) list \<Rightarrow> workflow_run \<Rightarrow> workflow_run" where
  "settle_all parse settlements w = fold (\<lambda>(i, outcome). settle_task parse i outcome) settlements w"

text \<open>A call of a task that phase \<open>k\<close> declares.\<close>

definition declared_call :: "phase list \<Rightarrow> nat \<times> nat \<times> delegate_call \<Rightarrow> bool" where
  "declared_call phases = (\<lambda>(k, i, c). k < length phases
     \<and> list_ex (\<lambda>t. dc_agent c = wt_agent t \<and> dc_role c = wt_lane t
          \<and> dc_scope c = map_option Scope_globs (wt_writes t)) (phase_tasks (phases ! k)))"

lemma resolve_fixed_tasks: "resolve_fixed ctx ts = Inr rs \<Longrightarrow> map rt_task rs = ts"
  by (induction ts arbitrary: rs) (auto split: sum.splits)

lemma resolve_mapped_tasks: "resolve_mapped t var ctx i vs = Inr rs \<Longrightarrow> r \<in> set rs \<Longrightarrow> rt_task r = t"
  by (induction vs arbitrary: i rs) (auto split: sum.splits)

lemma resolve_phase_declared:
  assumes "phase_issues p = []" "resolve_phase_tasks p ctx = Inr rs" "r \<in> set rs"
  shows "rt_task r \<in> set (phase_tasks p)"
proof (cases "ph_map p")
  case None
  then have "resolve_fixed ctx (value_or (ph_tasks p) []) = Inr rs"
    using assms(2) by (simp add: resolve_phase_tasks_def)
  from resolve_fixed_tasks[OF this] have "rt_task r \<in> set (value_or (ph_tasks p) [])" using assms(3) by (metis image_eqI set_map)
  then show ?thesis by (cases "ph_tasks p") (simp_all add: phase_tasks_def value_or_def split: option.split)
next
  case (Some m)
  obtain over var where m: "m = (over, var)" by (cases m)
  obtain t where t: "ph_task p = Some t" "ph_tasks p = None"
    using assms(1) Some by (auto simp: phase_issues_def Let_def split: if_splits)
  then have "rt_task r = t"
    using assms(2,3) Some m resolve_mapped_tasks by (auto simp: resolve_phase_tasks_def split: sum.splits)
  then show ?thesis using t by (simp add: phase_tasks_def)
qed

text \<open>The phases still to run are the last ones of the definition.\<close>

definition phases_from :: "phase list \<Rightarrow> phase list \<Rightarrow> run_record \<Rightarrow> bool" where
  "phases_from phases ps r \<longleftrightarrow> (\<exists>pre. phases = pre @ ps \<and> length pre = rr_index r)"

lemma phases_from_close: "phases_from phases (p # ps) r \<Longrightarrow> phases_from phases ps (close_phase p outs r)"
  by (force simp: phases_from_def close_phase_def intro: exI[of _ "_ @ [p]"])

lemma phases_from_nth: "phases_from phases (p # ps) r \<Longrightarrow> rr_index r < length phases \<and> phases ! rr_index r = p"
  by (auto simp: phases_from_def nth_append)

definition sound_call :: "phase list \<Rightarrow> nat \<times> nat \<times> delegate_call \<Rightarrow> bool" where
  "sound_call phases x \<longleftrightarrow> (list_all (\<lambda>p. phase_issues p = []) phases \<longrightarrow> declared_call phases x)"

lemma sound_callI:
  assumes "phases_from phases (p # ps) r" "resolve_phase_tasks p ctx = Inr ts" "i < length ts"
  shows "sound_call phases (rr_index r, i, build_task_delegate_input (rt_task (ts ! i)) prompt)"
  unfolding sound_call_def
proof
  assume issues: "list_all (\<lambda>p. phase_issues p = []) phases"
  have at: "rr_index r < length phases" "phases ! rr_index r = p" using phases_from_nth[OF assms(1)] by simp_all
  then have "phase_issues p = []" using issues by (auto simp: list_all_length)
  from resolve_phase_declared[OF this assms(2)] have "rt_task (ts ! i) \<in> set (phase_tasks p)" using assms(3) by simp
  then show "declared_call phases (rr_index r, i, build_task_delegate_input (rt_task (ts ! i)) prompt)"
    using at by (auto simp: declared_call_def build_task_delegate_input_def list_ex_iff)
qed

interpretation checked: phase_contract args "\<lambda>_ _ _ _. True" "\<lambda>_ _ _ _. True" "sound_call phases"
  "phases_from phases"
  for args phases
  by unfold_locales (simp_all add: phases_from_close sound_callI)

lemma settle_all_checked:
  "checked.run_ok args phases w \<Longrightarrow> checked.run_ok args phases (settle_all parse settlements w)"
  unfolding settle_all_def
proof (induction settlements arbitrary: w)
  case (Cons x xs)
  have "checked.run_ok args phases (settle_task parse (fst x) (snd x) w)"
    by (rule checked.settle_ok[OF Cons.prems]) (simp split: task_answer.split)
  then show ?case using Cons.IH by (simp add: case_prod_unfold)
qed simp

lemma begin_workflow_checked: "checked.run_ok args (wd_phases d) (begin_workflow args d)"
  unfolding begin_workflow_def
  by (rule checked.enter_ok) (simp_all add: phases_from_def record_start_def)

lemmas run_checked = settle_all_checked[OF begin_workflow_checked]

lemma checked_calls:
  assumes "checked.run_ok args phases w" "list_all (\<lambda>p. phase_issues p = []) phases"
  shows "list_all (declared_call phases) (wr_calls w)" and "sorted (map fst (wr_calls w))"
  using assms by (simp_all add: checked.run_ok_def list_all_iff sound_call_def)

lemma checked_flight:
  assumes "checked.run_ok args phases w"
  shows "length (calls_in_flight w) \<le> phase_concurrency" and "distinct (map fst (calls_in_flight w))"
    and "wr_current w = None \<or> calls_in_flight w \<noteq> []"
  using assms by (auto simp: checked.run_ok_def calls_in_flight_def phase_ok_def split: option.splits)

text \<open>A call that the check before the run lets through.\<close>

definition admitted_call :: "string list \<Rightarrow> phase list \<Rightarrow> nat \<times> nat \<times> delegate_call \<Rightarrow> bool" where
  "admitted_call agents phases x \<longleftrightarrow>
     declared_call phases x \<and> dc_agent (snd (snd x)) \<in> set agents
     \<and> pred_option (\<lambda>l. l \<in> set known_lane_names) (dc_role (snd (snd x)))"

lemma declared_call_admitted:
  assumes "validate_workflow d agents (Some known_lane_names) = []" "declared_call (wd_phases d) x"
  shows "admitted_call agents (wd_phases d) x"
proof -
  obtain k i c where x: "x = (k, i, c)" by (cases x)
  obtain t where t: "k < length (wd_phases d)" "t \<in> set (phase_tasks (wd_phases d ! k))"
    "dc_agent c = wt_agent t" "dc_role c = wt_lane t"
    using assms(2) by (auto simp: x declared_call_def list_ex_iff)
  have "validate_phase (wd_phases d ! k) agents (Some known_lane_names) (declared_args d)
      (rev (map ph_id (take k (wd_phases d))) @ []) = []"
    by (rule validate_phases_nth) (use assms(1) t(1) in \<open>simp_all add: validate_workflow_def\<close>)
  note checks = validate_phase_refs[OF this t(2)]
  have "pred_option (\<lambda>l. l \<in> set known_lane_names) (wt_lane t)"
    using checks(3) by (cases "wt_lane t") simp_all
  then show ?thesis using assms(2) checks(2) t(3,4) by (simp add: admitted_call_def x)
qed

lemma run_workflow_Inr:
  assumes "run_workflow number agents d raw = Inr w"
  shows "validate_workflow d agents (Some known_lane_names) = []"
    and "\<exists>args. validate_args number (wd_args d) raw = Inr args \<and> w = begin_workflow args d"
  using assms by (auto simp: run_workflow_def Let_def split: if_splits sum.splits)

text \<open>C21: A workflow run delegates only what its definition declares and the check before the run
  admitted: each call is to a known agent, on a known lane or none, with the write globs of the task it
  was made for, the phases in order, at most eight calls in flight.\<close>
theorem workflow_calls_checked:
  assumes "run_workflow number agents d raw = Inr w" "schema_ok d"
    and "w' = settle_all parse settlements w"
  shows "list_all (admitted_call agents (wd_phases d)) (wr_calls w') \<and> sorted (map fst (wr_calls w'))
    \<and> length (calls_in_flight w') \<le> 8 \<and> distinct (map fst (calls_in_flight w'))"
proof -
  obtain args where w: "w = begin_workflow args d" using run_workflow_Inr(2)[OF assms(1)] by blast
  have ok: "checked.run_ok args (wd_phases d) w'" unfolding assms(3) w by (rule run_checked)
  have "list_all (\<lambda>p. phase_issues p = []) (wd_phases d)"
    using assms(2) by (simp add: schema_ok_def list_all_iff)
  note calls = checked_calls[OF ok this]
  have "list_all (admitted_call agents (wd_phases d)) (wr_calls w')"
    using calls(1) declared_call_admitted[OF run_workflow_Inr(1)[OF assms(1)]] by (simp add: list_all_iff)
  then show ?thesis using calls(2) checked_flight[OF ok] by (simp add: phase_concurrency_def)
qed

theorem workflow_calls_checked_witness:
  "let w' = settle_all example_parse [(1, example_answer ''x''), (0, example_answer ''two'')]
        (begin_workflow [] example_workflow)
   in list_all (admitted_call example_agents (wd_phases example_workflow)) (wr_calls w')
      \<and> length (wr_calls w') = 4 \<and> length (calls_in_flight w') = 2"
proof -
  let ?w' = "settle_all example_parse [(1, example_answer ''x''), (0, example_answer ''two'')]
      (begin_workflow [] example_workflow)"
  have valid: "validate_workflow example_workflow example_agents (Some known_lane_names) = []" by code_simp
  have args: "wd_args example_workflow = None" by (simp add: example_workflow_def)
  have run: "run_workflow (\<lambda>_. None) example_agents example_workflow [] = Inr (begin_workflow [] example_workflow)"
    unfolding run_workflow_def valid Let_def by (simp add: validate_args_def args)
  have schema: "schema_ok example_workflow" by code_simp
  have "length (wr_calls ?w') = 4 \<and> length (calls_in_flight ?w') = 2" by code_simp
  then show ?thesis using workflow_calls_checked[OF run schema refl] by (simp add: Let_def)
qed

section \<open>Runs return\<close>

fun stage_weight :: "task_stage \<Rightarrow> nat" where
  "stage_weight First_call = 2"
| "stage_weight (Repair_call s) = 1"

text \<open>The settlements a phase can still take.\<close>

definition phase_weight :: "phase_run \<Rightarrow> nat" where
  "phase_weight c = 2 * (length (pr_tasks c) - pr_next c) + sum_list (map (stage_weight \<circ> snd) (pr_busy c))"

definition run_weight :: "workflow_run \<Rightarrow> nat \<times> nat" where
  "run_weight w =
     (case wr_current w of None \<Rightarrow> (0, 0) | Some c \<Rightarrow> (Suc (length (pr_rest c)), phase_weight c))"

lemma enter_phases_weight: "fst (run_weight (enter_phases ps w)) \<le> length ps"
proof (induction ps arbitrary: w)
  case Nil
  then show ?case by (simp add: run_weight_def finish_run_def)
next
  case (Cons p ps)
  show ?case
  proof (cases rule: enter_phases_cases[of "p # ps" w])
    case Return
    then show ?thesis by simp
  next
    case (Instant p' qs outs w')
    then show ?thesis using Cons.IH[of w'] by simp
  next
    case (Start p' qs ts)
    then show ?thesis by (simp add: run_weight_def start_phase_run_def Let_def)
  qed
qed

lemma stage_weight_delete:
  "map_of m i = Some s \<Longrightarrow>
   sum_list (map (stage_weight \<circ> snd) (AList.delete i m)) + stage_weight s \<le> sum_list (map (stage_weight \<circ> snd) m)"
proof (induction m)
  case (Cons x m)
  have le: "sum_list (map (stage_weight \<circ> snd) (AList.delete i m)) \<le> sum_list (map (stage_weight \<circ> snd) m)" for m
    by (induction m) (auto simp: AList.delete_eq)
  show ?case
  proof (cases "fst x = i")
    case True
    then show ?thesis using Cons.prems le[of m] by (cases x) (simp add: o_def)
  next
    case False
    then show ?thesis using Cons by (cases x) simp
  qed
qed simp

lemma stage_weight_update:
  "map_of m i = Some First_call \<Longrightarrow>
   sum_list (map (stage_weight \<circ> snd) (AList.update i (Repair_call f) m)) < sum_list (map (stage_weight \<circ> snd) m)"
  by (induction m) (auto split: if_splits)

definition settles :: "(string \<Rightarrow> json option) \<Rightarrow> (workflow_run \<times> workflow_run) set" where
  "settles parse = {(w', w). \<exists>i outcome. i \<in> set (map fst (calls_in_flight w)) \<and> w' = settle_task parse i outcome w}"

lemma lexD: "fst x < fst y \<or> fst x = fst y \<and> snd x < snd y \<Longrightarrow> (x, y) \<in> less_than <*lex*> less_than"
  for x y :: "nat \<times> nat"
  by (cases x, cases y) auto

lemma settle_task_weight:
  assumes "i \<in> set (map fst (calls_in_flight w))"
  shows "(run_weight (settle_task parse i outcome w), run_weight w) \<in> less_than <*lex*> less_than"
proof -
  obtain c where c: "wr_current w = Some c" "i \<in> fst ` set (pr_busy c)"
    using assms unfolding calls_in_flight_def by (cases "wr_current w") simp_all
  then obtain s where s: "map_of (pr_busy c) i = Some s" using map_of_eq_None_iff[of "pr_busy c" i] by auto
  show ?thesis
  proof (cases "task_reply parse (pr_tasks c ! i) s outcome")
    case (Task_retry f call)
    then have "s = First_call" by (cases s) simp_all
    then show ?thesis
      using c s Task_retry stage_weight_update[of "pr_busy c" i f]
      by (simp add: settle_task_def run_weight_def phase_weight_def)
  next
    case (Task_done out)
    let ?c1 = "c\<lparr>pr_busy := AList.delete i (pr_busy c), pr_results := (pr_results c)[i := Some out]\<rparr>"
    let ?w1 = "on_event (Task_complete (ph_id (pr_phase c)) i (rt_label (pr_tasks c ! i)) (ou_error out = None)) w"
    let ?c' = "fst (take_task ?c1 ?w1)" and ?w' = "snd (take_task ?c1 ?w1)"
    have step: "settle_task parse i outcome w =
        (if pr_busy ?c' = [] then enter_phases (pr_rest ?c')
           (?w'\<lparr>wr_record := close_phase (pr_phase ?c') (map the (pr_results ?c')) (wr_record ?w')\<rparr>)
         else ?w'\<lparr>wr_current := Some ?c'\<rparr>)"
      using c s Task_done by (simp add: settle_task_def Let_def split: prod.split)
    have rest: "pr_rest ?c' = pr_rest c" by (simp add: take_task_fields)
    have pos: "0 < stage_weight s" by (cases s) simp_all
    have "phase_weight ?c' = 2 * (length (pr_tasks c) - pr_next c)
        + sum_list (map (stage_weight \<circ> snd) (AList.delete i (pr_busy c)))"
      by (auto simp: phase_weight_def take_task_fields take_task_next)
    then have "phase_weight ?c' < phase_weight c"
      using stage_weight_delete[OF s] pos by (simp add: phase_weight_def)
    moreover have "fst (run_weight (enter_phases (pr_rest c) v)) < fst (run_weight w)" for v
      using enter_phases_weight[of "pr_rest c" v] c(1) by (simp add: run_weight_def less_Suc_eq_le)
    moreover have "run_weight w = (Suc (length (pr_rest c)), phase_weight c)" using c(1) by (simp add: run_weight_def)
    moreover have "run_weight (?w'\<lparr>wr_current := Some ?c'\<rparr>) = (Suc (length (pr_rest c)), phase_weight ?c')"
      by (simp add: run_weight_def rest)
    ultimately show ?thesis unfolding step rest by (cases "pr_busy ?c' = []") (simp_all add: lexD)
  qed
qed

text \<open>C23: A workflow run whose delegations return returns: no run has infinitely many settlements, repair
  retries and fan-outs over earlier results included, and a run that has not returned always has a
  delegation in flight.\<close>
theorem workflow_terminates:
  "wf (settles parse)
   \<and> (wr_current (settle_all parse settlements (begin_workflow args d)) = None
      \<or> 0 < length (calls_in_flight (settle_all parse settlements (begin_workflow args d))))"
proof
  have "settles parse \<subseteq> inv_image (less_than <*lex*> less_than) run_weight"
    unfolding settles_def inv_image_def using settle_task_weight by blast
  then show "wf (settles parse)" by (rule wf_subset[rotated]) (intro wf_inv_image wf_lex_prod wf_less_than)
  show "wr_current (settle_all parse settlements (begin_workflow args d)) = None
      \<or> 0 < length (calls_in_flight (settle_all parse settlements (begin_workflow args d)))"
    using checked_flight(3)[OF run_checked] by simp
qed

section \<open>References in scope\<close>

text \<open>Names that the references of a prompt can reach: those without blanks around them.\<close>

definition reachable_name :: "string \<Rightarrow> bool" where
  "reachable_name s \<longleftrightarrow> trim s = s \<and> s \<noteq> ''__proto__''"

definition reachable_names :: "phase list \<Rightarrow> bool" where
  "reachable_names phases \<longleftrightarrow>
     list_all (\<lambda>p. reachable_name (ph_id p) \<and> pred_option reachable_name (phase_loop_var p)) phases"

lemma put_key_known: "k \<noteq> ''__proto__'' \<Longrightarrow> map_of (put_key k v m) = (map_of m)(k \<mapsto> v)"
  by (simp add: put_key_def update_conv')

lemma put_key_keeps: "map_of m x \<noteq> None \<Longrightarrow> map_of (put_key k v m) x \<noteq> None"
  by (simp add: put_key_def update_conv')

lemma reference_run_keeps:
  "map_of (rr_outputs r) x \<noteq> None \<Longrightarrow> map_of (rr_outputs (reference_run parse answers args ps r)) x \<noteq> None"
proof (induction ps arbitrary: r)
  case (Cons p ps)
  have "map_of (rr_outputs (close_phase p (reference_outputs parse answers args p r) r)) x \<noteq> None"
    using put_key_keeps[OF Cons.prems] by (simp add: close_phase_def)
  then show ?case by (simp only: reference_run.simps) (rule Cons.IH)
qed simp

lemma reference_run_provides:
  "p \<in> set ps \<Longrightarrow> ph_id p \<noteq> ''__proto__'' \<Longrightarrow>
   map_of (rr_outputs (reference_run parse answers args ps r)) (ph_id p) \<noteq> None"
proof (induction ps arbitrary: r)
  case (Cons q ps)
  show ?case
  proof (cases "p = q")
    case True
    then have "map_of (rr_outputs (close_phase q (reference_outputs parse answers args q r) r)) (ph_id p) \<noteq> None"
      using Cons.prems(2) by (simp add: close_phase_def put_key_known)
    then show ?thesis by (simp only: reference_run.simps) (rule reference_run_keeps)
  next
    case False
    then show ?thesis using Cons by simp
  qed
qed simp

lemma resolve_fixed_error: "resolve_fixed ctx ts = Inl e \<Longrightarrow> \<exists>t \<in> set ts. interpolate (wt_prompt t) ctx = Inl e"
  by (induction ts) (auto split: sum.splits)

lemma resolve_mapped_error:
  "resolve_mapped t var ctx i vs = Inl e \<Longrightarrow> \<exists>v. interpolate (wt_prompt t) (ctx\<lparr>tc_item := Some (var, v)\<rparr>) = Inl e"
  by (induction vs arbitrary: i) (auto split: sum.splits)

lemma resolve_phase_in_scope:
  assumes valid: "validate_phase p agents lanes declared prior = []" and issues: "phase_issues p = []"
    and prov: "provides ctx prior None" and var: "pred_option reachable_name (phase_loop_var p)"
    and err: "resolve_phase_tasks p ctx = Inl e"
  shows "scoped_failure (scope_names prior (phase_loop_var p)) e"
proof (cases "ph_map p")
  case None
  then have "resolve_fixed ctx (value_or (ph_tasks p) []) = Inl e" using err by (simp add: resolve_phase_tasks_def)
  from resolve_fixed_error[OF this] obtain t where
    t: "t \<in> set (value_or (ph_tasks p) [])" "interpolate (wt_prompt t) ctx = Inl e" by blast
  have "t \<in> set (phase_tasks p)"
    using t(1) by (cases "ph_tasks p") (simp_all add: phase_tasks_def value_or_def split: option.split)
  note refs = validate_phase_refs(1)[OF valid this]
  have "phase_loop_var p = None" using None by (simp add: phase_loop_var_def)
  then show ?thesis using interpolate_in_scope[OF refs _ t(2)] prov by simp
next
  case (Some m)
  obtain over var' where m: "m = (over, var')" by (cases m)
  let ?v = "value_or var' default_loop_var"
  have loop: "phase_loop_var p = Some ?v" using Some m by (simp add: phase_loop_var_def)
  obtain t where t: "ph_task p = Some t" "ph_tasks p = None"
    using issues Some by (auto simp: phase_issues_def Let_def split: if_splits)
  have refs: "\<forall>expr \<in> set (extract_refs (wt_prompt t)).
      resolve_ref_error (parse_ref expr) declared prior (phase_loop_var p) = None"
    by (rule validate_phase_refs(1)[OF valid]) (simp add: t phase_tasks_def)
  show ?thesis
  proof (cases "resolve_over_array over ctx")
    case (Inl e')
    have "resolve_ref_error (parse_ref over) declared prior None = None"
      using valid Some m
      by (auto simp: validate_phase_def validate_phase_over_def resolve_ref_error_def split: prod.splits if_splits)
    note over = resolve_in_scope[OF this prov] checked_root[OF this]
    have "resolve_over_array over ctx = Inl e" using Inl err Some m t by (simp add: resolve_phase_tasks_def)
    then have "scoped_failure (scope_names prior None) e" using over
      by (auto simp: resolve_over_array_def scoped_failure_def unknown_root_def
          split: sum.splits option.splits json.splits)
    then show ?thesis by (auto simp: scoped_failure_def scope_names_def)
  next
    case (Inr items)
    then obtain v where v: "interpolate (wt_prompt t) (ctx\<lparr>tc_item := Some (?v, v)\<rparr>) = Inl e"
      using err Some m t resolve_mapped_error by (fastforce simp: resolve_phase_tasks_def)
    have "provides (ctx\<lparr>tc_item := Some (?v, v)\<rparr>) prior (phase_loop_var p)"
      using prov var loop by (simp add: provides_def reachable_name_def)
    then show ?thesis by (rule interpolate_in_scope[OF refs _ v])
  qed
qed

text \<open>C24: The check before the run is a scoping discipline that holds at run time. Take a definition that
  passes it and whose ids and loop variables have no blanks around them and are not \<open>__proto__\<close> (which a
  JavaScript object does not take as a key). Whatever the earlier phases returned, no phase meets a
  reference with an unknown root: when its prompts or its fan-out cannot be resolved, the reference at
  fault is blank, or its root is \<open>args\<close>, the loop variable of the phase or the id of an earlier phase.\<close>
theorem workflow_refs_in_scope:
  assumes "validate_workflow d agents lanes = []" "schema_ok d" "reachable_names (wd_phases d)"
    and "wd_phases d = before @ p # rest"
    and "resolve_phase_tasks p (phase_context args (reference_run parse answers args before record_start)) = Inl e"
  shows "scoped_failure (scope_names (map ph_id before) (phase_loop_var p)) e"
proof -
  let ?r = "reference_run parse answers args before record_start"
  let ?prior = "rev (map ph_id before)"
  have valid: "validate_phase p agents lanes (declared_args d) ?prior = []"
    using validate_phases_nth[of "wd_phases d" agents lanes "declared_args d" "[]" "length before"] assms(1,4)
    by (simp add: validate_workflow_def)
  have issues: "phase_issues p = []" using assms(2,4) by (simp add: schema_ok_def)
  have names: "pred_option reachable_name (phase_loop_var p)" "\<And>q. q \<in> set before \<Longrightarrow> reachable_name (ph_id q)"
    using assms(3,4) by (auto simp: reachable_names_def list_all_iff)
  have "provides (phase_context args ?r) ?prior None"
    using names(2) reference_run_provides[of _ before]
    by (auto simp: provides_def phase_context_def reachable_name_def)
  then have "scoped_failure (scope_names ?prior (phase_loop_var p)) e"
    by (rule resolve_phase_in_scope[OF valid issues _ names(1) assms(5)])
  then show ?thesis by (simp add: scope_names_def)
qed

theorem workflow_refs_in_scope_witness:
  "let r = reference_run example_parse (\<lambda>_ _ _. Inl ''down'') [] (take 1 (wd_phases example_workflow)) record_start
   in resolve_phase_tasks
        \<lparr>ph_id = ''sum'', ph_tasks = Some [example_task ''finder'' ''{{scan}}'' Output_text], ph_map = None, ph_task = None\<rparr>
        (phase_context [] r) = Inl (Bare_phase ''scan'')
      \<and> scoped_failure (scope_names [''scan''] None) (Bare_phase ''scan'')"
proof -
  let ?p = "\<lparr>ph_id = ''sum'', ph_tasks = Some [example_task ''finder'' ''{{scan}}'' Output_text], ph_map = None, ph_task = None\<rparr>"
  let ?before = "take 1 (wd_phases example_workflow)"
  let ?d = "example_workflow\<lparr>wd_phases := ?before @ [?p]\<rparr>"
  let ?r = "reference_run example_parse (\<lambda>_ _ _. Inl ''down'') [] ?before record_start"
  have valid: "validate_workflow ?d example_agents None = []" by code_simp
  have schema: "schema_ok ?d" by code_simp
  have names: "reachable_names (wd_phases ?d)" by code_simp
  have err: "(case resolve_phase_tasks ?p (phase_context [] ?r) of
      Inl (Bare_phase s) \<Rightarrow> s = ''scan'' | _ \<Rightarrow> False)" by code_simp
  then have run: "resolve_phase_tasks ?p (phase_context [] ?r) = Inl (Bare_phase ''scan'')"
    by (simp split: sum.splits ref_error.splits)
  have "wd_phases ?d = ?before @ ?p # []" by simp
  from workflow_refs_in_scope[OF valid schema names this run]
  have "scoped_failure (scope_names (map ph_id ?before) (phase_loop_var ?p)) (Bare_phase ''scan'')" .
  moreover have "map ph_id ?before = [''scan'']" by code_simp
  moreover have "phase_loop_var ?p = None" by (simp add: phase_loop_var_def)
  ultimately show ?thesis using run by (simp add: Let_def)
qed

section \<open>What the code does not catch\<close>

text \<open>The flattened field of a fan-out reads inherited properties; a repaired answer counts whatever its
  terminal; a blank reference passes the check and fails at run time.\<close>

lemma flatten_reads_inherited:
  "flatten_field [\<lparr>ou_text = t, ou_json = Some (JObject []), ou_error = None\<rparr>] ''constructor'' = [JNull]"
  by (simp add: flatten_field_def flatten_one_def member_def inherited_member_def object_methods_def)

lemma repair_ignores_terminal:
  "extract_json parse (dr_summary d) = Some v \<Longrightarrow> dr_terminal d = Interrupted \<Longrightarrow>
   ou_error (repair_reply parse first (Inr d)) = None"
  by (simp add: repair_reply_def)

lemma blank_reference_passes_check:
  "extract_refs ''{{ }}'' = [] \<and> (case interpolate ''{{ }}'' ctx of Inl (Empty_path r) \<Rightarrow> r = '' '' | _ \<Rightarrow> False)"
  by code_simp

end
