(* ===== verification/Session_Store.thy ===== *)
theory Session_Store
  imports Transcript_Repair Usage_Accounting
begin

text \<open>
  \<open>packages/sdk/src/persistence/inMemoryStore.ts\<close>: the in-memory implementation of the session store:
  session rows, transcripts, the journal of tool executions, and the records of logical turns with
  their leases (the types of \<open>agent/logicalTurn.ts\<close> and \<open>core/sessionPort.ts\<close>). Copies made to avoid
  aliasing have no effect here, since values are immutable; times and fresh identifiers are arguments.
\<close>

section \<open>Rows\<close>

record system_segment =
  sg_kind :: "string option"
  sg_body :: string
  sg_cacheable :: bool

record create_session_input =
  ci_model :: string
  ci_provider :: string
  ci_platform :: "string option"
  ci_parent :: "string option"
  ci_title :: "string option"
  ci_system :: "system_segment list option"
  ci_metadata :: "(string \<times> json) list option"
  ci_session :: "string option"
  ci_owner :: "string option"

record save_message_input =
  mi_role :: role
  mi_content :: "content_block list"
  mi_tool_call :: "string option"
  mi_tool_calls :: "json option"
  mi_tokens :: "js_number option"

record stored_message =
  sm_id :: nat
  sm_session :: string
  sm_role :: role
  sm_content :: "content_block list"
  sm_tool_call :: "string option"
  sm_tool_calls :: json
  sm_tokens :: js_number
  sm_created :: rat

record session_row =
  sn_id :: string
  sn_parent :: "string option"
  sn_model :: string
  sn_provider :: string
  sn_platform :: string
  sn_created :: rat
  sn_updated :: rat
  sn_title :: "string option"
  sn_system :: "system_segment list option"
  sn_schema :: nat
  sn_metadata :: "(string \<times> json) list"
  sn_owner :: "string option"
  sn_input :: js_number
  sn_output :: js_number
  sn_cache_creation :: js_number
  sn_cache_read :: js_number
  sn_cost :: js_number
  sn_compaction_input :: js_number
  sn_compaction_output :: js_number
  sn_compaction_cost :: js_number

section \<open>Logical turns\<close>

datatype turn_status =
    Turn_admitted | Turn_running | Turn_continuing | Turn_completed | Turn_waiting_user
  | Turn_cancelled | Turn_failed | Turn_exhausted | Turn_stalled

record turn_counters =
  cn_segments :: nat
  cn_model_calls :: nat
  cn_tool_calls :: nat
  cn_provider_retries :: nat
  cn_context_recoveries :: nat
  cn_input :: js_number
  cn_output :: js_number
  cn_cache_creation :: js_number
  cn_cache_read :: js_number
  cn_cost :: js_number

record turn_binding =
  tb_route :: "string option"
  tb_provider :: string
  tb_auth :: "string option"
  tb_model :: string
  tb_effort :: "string option"
  tb_toolset :: "string option"
  tb_permission :: "string option"
  tb_policy :: "string option"
  tb_skills :: "string option"
  tb_mcp :: "string option"
  tb_hooks :: "string option"
  tb_cwd :: string
  tb_bundle :: "string option"

datatype policy_origin = Origin_owner | Origin_host | Origin_job | Origin_legacy

record policy_migration =
  mg_at :: rat
  mg_from :: nat
  mg_limit :: "nat option"
  mg_deadline :: "rat option"
  mg_reason :: string

record logical_turn =
  tl_version :: nat
  tl_origin :: "policy_origin option"
  tl_migrations :: "policy_migration list"
  tl_cancellation :: "string option"
  tl_owned_tasks :: "string list option"
  tl_id :: string
  tl_user_message :: "nat option"
  tl_session :: string
  tl_active :: string
  tl_compacted :: "string list"
  tl_binding :: turn_binding
  tl_digest :: string
  tl_limit :: "nat option"
  tl_deadline :: "rat option"
  tl_status :: turn_status
  tl_cause :: "string option"
  tl_fingerprint :: "string option"
  tl_no_progress :: nat
  tl_continuations :: "string list"
  tl_reply :: "string option"
  tl_finish :: "string option"
  tl_counters :: turn_counters
  tl_created :: rat
  tl_updated :: rat

record lease =
  ls_owner :: string
  ls_expires :: rat

definition logical_turn_lease_ms :: rat where "logical_turn_lease_ms = 30000"

section \<open>The store\<close>

record session_store =
  ss_sessions :: "(string \<times> session_row) list"
  ss_messages :: "(string \<times> stored_message list) list"
  ss_executions :: "(string \<times> tool_execution list) list"
  ss_turns :: "(string \<times> logical_turn) list"
  ss_leases :: "(string \<times> lease) list"
  ss_next :: nat

definition store_new :: session_store where
  "store_new = \<lparr>ss_sessions = [], ss_messages = [], ss_executions = [], ss_turns = [], ss_leases = [], ss_next = 1\<rparr>"

datatype store_error = Lease_error | Turn_exists | Turn_missing

fun store_error_text :: "store_error \<Rightarrow> string" where
  "store_error_text Lease_error = ''logical turn is already active''"
| "store_error_text Turn_exists = ''logical turn already exists''"
| "store_error_text Turn_missing = ''logical turn does not exist''"

subsection \<open>Leases and turn records\<close>

definition create_logical_turn :: "logical_turn \<Rightarrow> session_store \<Rightarrow> store_error + session_store" where
  "create_logical_turn r s =
     (if map_of (ss_turns s) (tl_id r) \<noteq> None then Inl Turn_exists
      else Inr (s\<lparr>ss_turns := AList.update (tl_id r) r (ss_turns s)\<rparr>))"

definition load_logical_turn :: "string \<Rightarrow> session_store \<Rightarrow> logical_turn option" where
  "load_logical_turn i s = map_of (ss_turns s) i"

definition save_logical_turn :: "logical_turn \<Rightarrow> string \<Rightarrow> session_store \<Rightarrow> store_error + session_store" where
  "save_logical_turn r owner s =
     (if map_of (ss_turns s) (tl_id r) = None then Inl Turn_missing
      else case map_of (ss_leases s) (tl_id r) of
        None \<Rightarrow> Inl Lease_error
      | Some l \<Rightarrow>
          (if ls_owner l \<noteq> owner then Inl Lease_error
           else Inr (s\<lparr>ss_turns := AList.update (tl_id r) r (ss_turns s)\<rparr>)))"

text \<open>\<open>None\<close>: no such turn. \<open>Some None\<close>: owner and expiry are both \<open>null\<close>.\<close>

definition read_logical_turn_lease :: "string \<Rightarrow> session_store \<Rightarrow> lease option option" where
  "read_logical_turn_lease i s =
     (if map_of (ss_turns s) i = None then None else Some (map_of (ss_leases s) i))"

definition acquire_logical_turn_lease ::
  "string \<Rightarrow> string \<Rightarrow> rat \<Rightarrow> rat \<Rightarrow> session_store \<Rightarrow> bool \<times> session_store" where
  "acquire_logical_turn_lease i owner expires now s =
     (if map_of (ss_turns s) i = None then (False, s)
      else if (case map_of (ss_leases s) i of
                 None \<Rightarrow> False | Some l \<Rightarrow> ls_owner l \<noteq> owner \<and> now < ls_expires l) then (False, s)
      else (True, s\<lparr>ss_leases := AList.update i \<lparr>ls_owner = owner, ls_expires = expires\<rparr> (ss_leases s)\<rparr>))"

definition renew_logical_turn_lease ::
  "string \<Rightarrow> string \<Rightarrow> rat \<Rightarrow> session_store \<Rightarrow> bool \<times> session_store" where
  "renew_logical_turn_lease i owner expires s =
     (case map_of (ss_leases s) i of
        None \<Rightarrow> (False, s)
      | Some l \<Rightarrow>
          (if ls_owner l \<noteq> owner \<or> ls_expires l \<le> expires - logical_turn_lease_ms then (False, s)
           else (True, s\<lparr>ss_leases := AList.update i \<lparr>ls_owner = owner, ls_expires = expires\<rparr> (ss_leases s)\<rparr>)))"

definition release_logical_turn_lease :: "string \<Rightarrow> string \<Rightarrow> session_store \<Rightarrow> session_store" where
  "release_logical_turn_lease i owner s =
     (if map_option ls_owner (map_of (ss_leases s) i) = Some owner
      then s\<lparr>ss_leases := AList.delete i (ss_leases s)\<rparr> else s)"

text \<open>The lease bound to the asynchronous stack of the caller, if it runs inside a segment.\<close>

record write_lease =
  wl_turn :: string
  wl_owner :: string
  wl_lost :: bool

definition assert_write_lease :: "write_lease option \<Rightarrow> session_store \<Rightarrow> bool" where
  "assert_write_lease b s =
     (case b of
        None \<Rightarrow> True
      | Some l \<Rightarrow> \<not> wl_lost l
          \<and> (case read_logical_turn_lease (wl_turn l) s of
               Some (Some x) \<Rightarrow> ls_owner x = wl_owner l | _ \<Rightarrow> False))"

subsection \<open>Sessions\<close>

definition schema_version :: nat where "schema_version = 10"

definition new_session :: "rat \<Rightarrow> string \<Rightarrow> create_session_input \<Rightarrow> session_row" where
  "new_session now i input =
     \<lparr>sn_id = i, sn_parent = ci_parent input, sn_model = ci_model input, sn_provider = ci_provider input,
      sn_platform = value_or (ci_platform input) ''cli'', sn_created = now, sn_updated = now,
      sn_title = ci_title input, sn_system = ci_system input, sn_schema = schema_version,
      sn_metadata = value_or (ci_metadata input) [], sn_owner = ci_owner input,
      sn_input = Num 0, sn_output = Num 0, sn_cache_creation = Num 0, sn_cache_read = Num 0,
      sn_cost = Num 0, sn_compaction_input = Num 0, sn_compaction_output = Num 0,
      sn_compaction_cost = Num 0\<rparr>"

definition create_session ::
  "rat \<Rightarrow> string \<Rightarrow> write_lease option \<Rightarrow> create_session_input \<Rightarrow> session_store
   \<Rightarrow> store_error + string \<times> session_store" where
  "create_session now uuid b input s =
     (if \<not> assert_write_lease b s then Inl Lease_error
      else let i = value_or (ci_session input) uuid in
        Inr (i, s\<lparr>ss_sessions := AList.update i (new_session now i input) (ss_sessions s)\<rparr>))"

definition upsert_session ::
  "rat \<Rightarrow> string \<Rightarrow> write_lease option \<Rightarrow> create_session_input \<Rightarrow> session_store
   \<Rightarrow> store_error + string \<times> session_store" where
  "upsert_session now uuid b input s =
     (case opt_bind (ci_session input) (map_of (ss_sessions s)) of
        Some row \<Rightarrow> Inr (sn_id row, s)
      | None \<Rightarrow> create_session now uuid b input s)"

definition get_session :: "string \<Rightarrow> string option \<Rightarrow> session_store \<Rightarrow> session_row option" where
  "get_session i owner s =
     (case map_of (ss_sessions s) i of
        None \<Rightarrow> None
      | Some row \<Rightarrow> if owner \<noteq> None \<and> sn_owner row \<noteq> owner then None else Some row)"

text \<open>A missing row is left missing.\<close>

definition update_row :: "string \<Rightarrow> (session_row \<Rightarrow> session_row) \<Rightarrow> session_store \<Rightarrow> session_store" where
  "update_row i f s =
     (case map_of (ss_sessions s) i of
        None \<Rightarrow> s | Some row \<Rightarrow> s\<lparr>ss_sessions := AList.update i (f row) (ss_sessions s)\<rparr>)"

definition update_session_model :: "rat \<Rightarrow> string \<Rightarrow> string \<Rightarrow> session_store \<Rightarrow> session_store" where
  "update_session_model now i model = update_row i (\<lambda>row. row\<lparr>sn_model := model, sn_updated := now\<rparr>)"

subsection \<open>Messages\<close>

definition messages_of :: "string \<Rightarrow> session_store \<Rightarrow> stored_message list" where
  "messages_of i s = value_or (map_of (ss_messages s) i) []"

definition save_message ::
  "rat \<Rightarrow> write_lease option \<Rightarrow> string \<Rightarrow> save_message_input \<Rightarrow> session_store \<Rightarrow> store_error + nat \<times> session_store" where
  "save_message now b i m s =
     (if \<not> assert_write_lease b s then Inl Lease_error
      else
        (let stored = \<lparr>sm_id = ss_next s, sm_session = i, sm_role = mi_role m, sm_content = mi_content m,
               sm_tool_call = mi_tool_call m, sm_tool_calls = value_or (mi_tool_calls m) JNull,
               sm_tokens = value_or (mi_tokens m) (Num 0), sm_created = now\<rparr>;
             s1 = s\<lparr>ss_messages := AList.update i (messages_of i s @ [stored]) (ss_messages s),
                    ss_next := Suc (ss_next s)\<rparr>
         in Inr (ss_next s, update_row i (\<lambda>row. row\<lparr>sn_updated := now\<rparr>) s1)))"

definition load_messages :: "string \<Rightarrow> session_store \<Rightarrow> stored_message list" where
  "load_messages i s = messages_of i s"

text \<open>\<open>slice(0, keep > 0 ? Math.floor(keep) : 0)\<close>.\<close>

fun keep_first :: "js_number \<Rightarrow> 'a list \<Rightarrow> 'a list" where
  "keep_first (Num r) xs = take (nat \<lfloor>r\<rfloor>) xs"
| "keep_first (Infinity negative) xs = (if negative then [] else xs)"
| "keep_first NaN xs = []"

definition truncate_messages ::
  "write_lease option \<Rightarrow> string \<Rightarrow> js_number \<Rightarrow> session_store \<Rightarrow> store_error + session_store" where
  "truncate_messages b i keep s =
     (if \<not> assert_write_lease b s then Inl Lease_error
      else Inr (case map_of (ss_messages s) i of
        None \<Rightarrow> s | Some ms \<Rightarrow> s\<lparr>ss_messages := AList.update i (keep_first keep ms) (ss_messages s)\<rparr>))"

subsection \<open>Usage\<close>

definition usage_amount :: "token_usage \<Rightarrow> usage_field \<Rightarrow> js_number" where
  "usage_amount u f = value_or (u f) (Num 0)"

definition record_token_usage :: "rat \<Rightarrow> string \<Rightarrow> token_usage \<Rightarrow> js_number \<Rightarrow> session_store \<Rightarrow> session_store" where
  "record_token_usage now i u cost =
     update_row i (\<lambda>row. row\<lparr>sn_input := js_add (sn_input row) (usage_amount u Input_tokens),
       sn_output := js_add (sn_output row) (usage_amount u Output_tokens),
       sn_cache_creation := js_add (sn_cache_creation row) (usage_amount u Cache_creation_input_tokens),
       sn_cache_read := js_add (sn_cache_read row) (usage_amount u Cache_read_input_tokens),
       sn_cost := js_add (sn_cost row) cost, sn_updated := now\<rparr>)"

definition estimate_known :: "cost_estimate \<Rightarrow> bool" where
  "estimate_known e \<longleftrightarrow> cost_complete e \<and> (case cost_amount_usd e of None \<Rightarrow> False | Some a \<Rightarrow> 0 \<le> a)"

definition usage_receipts :: "(string \<times> json) list \<Rightarrow> json list" where
  "usage_receipts metadata = (case map_of metadata ''usageEstimates'' of Some (JArray xs) \<Rightarrow> xs | _ \<Rightarrow> [])"

text \<open>\<open>print\<close> is the JSON value of an estimate.\<close>

definition record_usage_estimate ::
  "(cost_estimate \<Rightarrow> json) \<Rightarrow> rat \<Rightarrow> write_lease option \<Rightarrow> string \<Rightarrow> token_usage \<Rightarrow> cost_estimate
   \<Rightarrow> session_store \<Rightarrow> store_error + session_store" where
  "record_usage_estimate print now b i u e s =
     (if \<not> assert_write_lease b s then Inl Lease_error
      else
        (let known = estimate_known e;
             s1 = record_token_usage now i u (Num (if known then value_or (cost_amount_usd e) 0 else 0)) s
         in Inr (update_row i (\<lambda>row. row\<lparr>sn_metadata :=
              AList.update ''costComplete''
                (JBool (map_of (sn_metadata row) ''costComplete'' \<noteq> Some (JBool False) \<and> known))
                (AList.update ''usageEstimates'' (JArray (usage_receipts (sn_metadata row) @ [print e]))
                  (sn_metadata row))\<rparr>) s1)))"

subsection \<open>The journal of tool executions\<close>

definition same_execution :: "tool_execution \<Rightarrow> tool_execution \<Rightarrow> bool" where
  "same_execution e x \<longleftrightarrow> te_message_id x = te_message_id e \<and> te_use_id x = te_use_id e"

definition executions_of :: "string \<Rightarrow> session_store \<Rightarrow> tool_execution list" where
  "executions_of i s = value_or (map_of (ss_executions s) i) []"

text \<open>The first row of the same call is replaced, unless it is completed and the new one is not.\<close>

fun put_execution :: "tool_execution \<Rightarrow> tool_execution list \<Rightarrow> tool_execution list" where
  "put_execution e [] = [e]"
| "put_execution e (x # xs) =
     (if same_execution e x
      then (if te_state x = Exec_completed \<and> te_state e \<noteq> Exec_completed then x else e) # xs
      else x # put_execution e xs)"

definition save_tool_execution ::
  "write_lease option \<Rightarrow> string \<Rightarrow> tool_execution \<Rightarrow> session_store \<Rightarrow> store_error + session_store" where
  "save_tool_execution b i e s =
     (if \<not> assert_write_lease b s then Inl Lease_error
      else Inr (s\<lparr>ss_executions := AList.update i (put_execution e (executions_of i s)) (ss_executions s)\<rparr>))"

definition load_tool_executions :: "string \<Rightarrow> session_store \<Rightarrow> tool_execution list" where
  "load_tool_executions i s =
     filter (\<lambda>e. te_message_id e \<in> set (map sm_id (messages_of i s))) (executions_of i s)"

section \<open>The store as a machine\<close>

text \<open>Every write of the store, by whoever holds it; a write that is refused changes nothing.\<close>

datatype store_op =
    Create_session rat string "write_lease option" create_session_input
  | Upsert_session rat string "write_lease option" create_session_input
  | Update_model rat string string
  | Save_message rat "write_lease option" string save_message_input
  | Truncate_messages "write_lease option" string js_number
  | Record_usage rat string token_usage js_number
  | Record_estimate json rat "write_lease option" string token_usage cost_estimate
  | Save_execution "write_lease option" string tool_execution
  | Create_turn logical_turn
  | Save_turn logical_turn string
  | Acquire_lease string string rat rat
  | Renew_lease string string rat
  | Release_lease string string

definition store_after :: "session_store \<Rightarrow> store_error + session_store \<Rightarrow> session_store" where
  "store_after s r = (case r of Inl _ \<Rightarrow> s | Inr t \<Rightarrow> t)"

definition store_after_value :: "session_store \<Rightarrow> store_error + 'a \<times> session_store \<Rightarrow> session_store" where
  "store_after_value s r = (case r of Inl _ \<Rightarrow> s | Inr (_, t) \<Rightarrow> t)"

fun store_step :: "session_store \<Rightarrow> store_op \<Rightarrow> session_store" where
  "store_step s (Create_session now uuid b input) = store_after_value s (create_session now uuid b input s)"
| "store_step s (Upsert_session now uuid b input) = store_after_value s (upsert_session now uuid b input s)"
| "store_step s (Update_model now i model) = update_session_model now i model s"
| "store_step s (Save_message now b i m) = store_after_value s (save_message now b i m s)"
| "store_step s (Truncate_messages b i keep) = store_after s (truncate_messages b i keep s)"
| "store_step s (Record_usage now i u cost) = record_token_usage now i u cost s"
| "store_step s (Record_estimate j now b i u e) = store_after s (record_usage_estimate (\<lambda>_. j) now b i u e s)"
| "store_step s (Save_execution b i e) = store_after s (save_tool_execution b i e s)"
| "store_step s (Create_turn r) = store_after s (create_logical_turn r s)"
| "store_step s (Save_turn r owner) = store_after s (save_logical_turn r owner s)"
| "store_step s (Acquire_lease i owner expires now) = snd (acquire_logical_turn_lease i owner expires now s)"
| "store_step s (Renew_lease i owner expires) = snd (renew_logical_turn_lease i owner expires s)"
| "store_step s (Release_lease i owner) = release_logical_turn_lease i owner s"

text \<open>Rows are under their own key, messages in the order of their ids and no id in two transcripts, one
  journal row for each call, leases on existing turns only.\<close>

definition transcripts_ok :: "(string \<Rightarrow> stored_message list) \<Rightarrow> nat \<Rightarrow> bool" where
  "transcripts_ok ms fresh \<longleftrightarrow>
     (\<forall>k. sorted_wrt (<) (map sm_id (ms k)))
     \<and> (\<forall>k m. m \<in> set (ms k) \<longrightarrow> sm_id m < fresh \<and> sm_session m = k)
     \<and> (\<forall>k k' m m'. m \<in> set (ms k) \<longrightarrow> m' \<in> set (ms k') \<longrightarrow> sm_id m = sm_id m' \<longrightarrow> k = k')"

definition rows_ok :: "session_store \<Rightarrow> bool" where
  "rows_ok s \<longleftrightarrow>
     (\<forall>k row. map_of (ss_sessions s) k = Some row \<longrightarrow> sn_id row = k)
     \<and> (\<forall>k r. map_of (ss_turns s) k = Some r \<longrightarrow> tl_id r = k)
     \<and> (\<forall>k. map_of (ss_leases s) k \<noteq> None \<longrightarrow> map_of (ss_turns s) k \<noteq> None)"

definition journal_ok :: "tool_execution list \<Rightarrow> bool" where
  "journal_ok es \<longleftrightarrow> distinct (map (\<lambda>e. (te_message_id e, te_use_id e)) es)"

definition store_inv :: "session_store \<Rightarrow> bool" where
  "store_inv s \<longleftrightarrow> rows_ok s \<and> transcripts_ok (\<lambda>k. messages_of k s) (ss_next s)
     \<and> (\<forall>k. journal_ok (executions_of k s))"

definition journal_kept :: "tool_execution list \<Rightarrow> tool_execution list \<Rightarrow> bool" where
  "journal_kept old new \<longleftrightarrow>
     list_all (\<lambda>e. list_ex (\<lambda>x. same_execution e x
        \<and> (te_state e = Exec_completed \<longrightarrow> te_state x = Exec_completed)) new) old"

definition store_le :: "session_store \<Rightarrow> session_store \<Rightarrow> bool" where
  "store_le s t \<longleftrightarrow> ss_next s \<le> ss_next t
     \<and> (\<forall>k. journal_kept (executions_of k s) (executions_of k t))
     \<and> (\<forall>k. map_of (ss_turns s) k \<noteq> None \<longrightarrow> map_of (ss_turns t) k \<noteq> None)
     \<and> (\<forall>k. map_of (ss_sessions s) k \<noteq> None \<longrightarrow> map_of (ss_sessions t) k \<noteq> None)"

lemma map_of_delete: "map_of (AList.delete k m) j = (if j = k then None else map_of m j)"
  by (simp add: delete_conv')

lemma update_row_fields [simp]:
  "ss_messages (update_row i f s) = ss_messages s" "ss_executions (update_row i f s) = ss_executions s"
  "ss_turns (update_row i f s) = ss_turns s" "ss_leases (update_row i f s) = ss_leases s"
  "ss_next (update_row i f s) = ss_next s"
  "messages_of k (update_row i f s) = messages_of k s" "executions_of k (update_row i f s) = executions_of k s"
  by (simp_all add: update_row_def messages_of_def executions_of_def split: option.split)

lemma update_row_sessions:
  "map_of (ss_sessions (update_row i f s)) k = (if k = i then map_option f (map_of (ss_sessions s) i) else map_of (ss_sessions s) k)"
  by (simp add: update_row_def map_of_update split: option.split)

lemma update_row_inv: "store_inv s \<Longrightarrow> (\<And>row. sn_id (f row) = sn_id row) \<Longrightarrow> store_inv (update_row i f s)"
  unfolding store_inv_def rows_ok_def by (auto simp: update_row_sessions)

lemma put_execution_keys:
  "set (map (\<lambda>e. (te_message_id e, te_use_id e)) (put_execution e xs))
   = insert (te_message_id e, te_use_id e) (set (map (\<lambda>e. (te_message_id e, te_use_id e)) xs))"
  by (induction xs) (auto simp: same_execution_def)

lemma put_execution_distinct: "journal_ok xs \<Longrightarrow> journal_ok (put_execution e xs)"
  unfolding journal_ok_def
proof (induction xs)
  case (Cons x xs)
  then show ?case
    using put_execution_keys[of e xs] by (auto simp: same_execution_def image_iff)
qed simp

lemma same_execution_refl [simp]: "same_execution e e"
  by (simp add: same_execution_def)

lemma journal_kept_refl [simp]: "journal_kept xs xs"
  unfolding journal_kept_def list_all_iff list_ex_iff by (intro ballI, rule_tac x = e in bexI) simp_all

lemma journal_kept_put: "journal_kept xs (put_execution e xs)"
proof -
  have "\<exists>y \<in> set (put_execution e xs). same_execution x y
      \<and> (te_state x = Exec_completed \<longrightarrow> te_state y = Exec_completed)" if "x \<in> set xs" for x
    using that by (induction xs) (auto simp: same_execution_def)
  then show ?thesis by (auto simp: journal_kept_def list_all_iff list_ex_iff)
qed

lemma journal_kept_trans: "journal_kept xs ys \<Longrightarrow> journal_kept ys zs \<Longrightarrow> journal_kept xs zs"
  unfolding journal_kept_def list_all_iff list_ex_iff same_execution_def by metis

lemma keep_first_sub: "set (keep_first n xs) \<subseteq> set xs"
  by (cases n) (auto dest: in_set_takeD)

lemma keep_first_sorted: "sorted_wrt P (map f xs) \<Longrightarrow> sorted_wrt P (map f (keep_first n xs))"
  by (cases n) (simp_all add: take_map[symmetric] sorted_wrt_take)

lemma messages_of_update:
  "messages_of k (s\<lparr>ss_messages := AList.update i ms (ss_messages s)\<rparr>) = (if k = i then ms else messages_of k s)"
  by (simp add: messages_of_def map_of_update value_or_def)

lemma executions_of_update:
  "executions_of k (s\<lparr>ss_executions := AList.update i es (ss_executions s)\<rparr>) = (if k = i then es else executions_of k s)"
  by (simp add: executions_of_def map_of_update value_or_def)

lemma other_fields [simp]:
  "messages_of k (s\<lparr>ss_sessions := a\<rparr>) = messages_of k s" "executions_of k (s\<lparr>ss_sessions := a\<rparr>) = executions_of k s"
  "messages_of k (s\<lparr>ss_executions := b\<rparr>) = messages_of k s" "executions_of k (s\<lparr>ss_messages := c\<rparr>) = executions_of k s"
  "messages_of k (s\<lparr>ss_turns := d\<rparr>) = messages_of k s" "executions_of k (s\<lparr>ss_turns := d\<rparr>) = executions_of k s"
  "messages_of k (s\<lparr>ss_leases := l\<rparr>) = messages_of k s" "executions_of k (s\<lparr>ss_leases := l\<rparr>) = executions_of k s"
  "messages_of k (s\<lparr>ss_next := n\<rparr>) = messages_of k s" "executions_of k (s\<lparr>ss_next := n\<rparr>) = executions_of k s"
  by (simp_all add: messages_of_def executions_of_def)

lemma create_session_ok:
  assumes "store_inv s"
  shows "store_inv (store_after_value s (create_session now uuid b input s))"
    and "store_le s (store_after_value s (create_session now uuid b input s))"
  using assms
  by (auto simp: store_after_value_def create_session_def Let_def store_inv_def rows_ok_def store_le_def map_of_update new_session_def)

lemma transcripts_append:
  assumes ok: "transcripts_ok ms n" and x: "sm_id x = n" "sm_session x = i"
  shows "transcripts_ok (ms(i := ms i @ [x])) (Suc n)"
proof -
  let ?ms = "ms(i := ms i @ [x])"
  have old: "sm_id m < n" "sm_session m = k" if "m \<in> set (ms k)" for k m
    using ok that by (auto simp: transcripts_ok_def)
  have new: "m = x \<and> k = i \<or> m \<in> set (ms k)" if "m \<in> set (?ms k)" for k m
    using that by (auto split: if_splits)
  have "sorted_wrt (<) (map sm_id (?ms k))" for k
    using ok old by (auto simp: x sorted_wrt_append transcripts_ok_def)
  moreover have "sm_id m < Suc n \<and> sm_session m = k" if "m \<in> set (?ms k)" for k m
    using new[OF that] old x by (auto intro: less_SucI)
  moreover have "k = k'" if m: "m \<in> set (?ms k)" "m' \<in> set (?ms k')" "sm_id m = sm_id m'" for k k' m m'
    using new[OF m(1)] new[OF m(2)]
  proof (elim disjE conjE)
    assume "m = x" "m' \<in> set (ms k')"
    then show ?thesis using old(1)[of m' k'] m(3) x by simp
  next
    assume "m' = x" "m \<in> set (ms k)"
    then show ?thesis using old(1)[of m k] m(3) x by simp
  next
    assume "m \<in> set (ms k)" "m' \<in> set (ms k')"
    then show ?thesis using ok m(3) unfolding transcripts_ok_def by metis
  qed simp
  ultimately show ?thesis unfolding transcripts_ok_def by metis
qed

lemma transcripts_shorten:
  assumes "transcripts_ok ms n"
  shows "transcripts_ok (ms(i := keep_first keep (ms i))) n"
proof -
  have "set ((ms(i := keep_first keep (ms i))) k) \<subseteq> set (ms k)" for k
    using keep_first_sub[of keep "ms i"] by simp
  moreover have "sorted_wrt (<) (map sm_id ((ms(i := keep_first keep (ms i))) k))" for k
    using assms keep_first_sorted[of "(<)" sm_id "ms i" keep] by (simp add: transcripts_ok_def)
  ultimately show ?thesis using assms unfolding transcripts_ok_def by (meson subsetD)
qed

lemma save_message_ok:
  assumes inv: "store_inv s"
  shows "store_inv (store_after_value s (save_message now b i m s))" and "store_le s (store_after_value s (save_message now b i m s))"
proof -
  define x where "x = \<lparr>sm_id = ss_next s, sm_session = i, sm_role = mi_role m, sm_content = mi_content m,
      sm_tool_call = mi_tool_call m, sm_tool_calls = value_or (mi_tool_calls m) JNull,
      sm_tokens = value_or (mi_tokens m) (Num 0), sm_created = now\<rparr>"
  define s1 where "s1 = s\<lparr>ss_messages := AList.update i (messages_of i s @ [x]) (ss_messages s), ss_next := Suc (ss_next s)\<rparr>"
  have "(\<lambda>k. messages_of k s1) = (\<lambda>k. messages_of k s)(i := messages_of i s @ [x])"
    by (rule ext) (simp add: s1_def messages_of_def map_of_update value_or_def)
  moreover have rest: "ss_sessions s1 = ss_sessions s" "ss_turns s1 = ss_turns s" "ss_leases s1 = ss_leases s"
    "executions_of k s1 = executions_of k s" "ss_next s1 = Suc (ss_next s)" for k
    by (simp_all add: s1_def)
  ultimately have inv1: "store_inv s1"
    using inv transcripts_append[of "\<lambda>k. messages_of k s" "ss_next s" x i]
    by (simp add: store_inv_def rows_ok_def x_def)
  have eq: "store_after_value s (save_message now b i m s)
      = (if assert_write_lease b s then update_row i (\<lambda>row. row\<lparr>sn_updated := now\<rparr>) s1 else s)"
    by (simp add: store_after_value_def save_message_def Let_def x_def s1_def)
  show "store_inv (store_after_value s (save_message now b i m s))"
    unfolding eq using inv update_row_inv[OF inv1] by simp
  show "store_le s (store_after_value s (save_message now b i m s))"
    unfolding eq by (simp add: store_le_def rest update_row_sessions)
qed

lemma truncate_ok:
  assumes inv: "store_inv s"
  shows "store_inv (store_after s (truncate_messages b i keep s))" and "store_le s (store_after s (truncate_messages b i keep s))"
proof -
  let ?t = "\<lambda>ms. s\<lparr>ss_messages := AList.update i (keep_first keep ms) (ss_messages s)\<rparr>"
  have "store_inv (?t ms) \<and> store_le s (?t ms)" if "map_of (ss_messages s) i = Some ms" for ms
  proof -
    have "(\<lambda>k. messages_of k (?t ms)) = (\<lambda>k. messages_of k s)(i := keep_first keep (messages_of i s))"
      using that by (intro ext) (simp add: messages_of_def map_of_update value_or_def)
    then show ?thesis
      using inv transcripts_shorten[of "\<lambda>k. messages_of k s" "ss_next s" i keep]
      by (simp add: store_inv_def rows_ok_def store_le_def)
  qed
  then show "store_inv (store_after s (truncate_messages b i keep s))" "store_le s (store_after s (truncate_messages b i keep s))"
    using inv by (simp_all add: store_after_def truncate_messages_def store_le_def split: option.split)
qed

lemma save_execution_ok:
  assumes inv: "store_inv s"
  shows "store_inv (store_after s (save_tool_execution b i e s))" and "store_le s (store_after s (save_tool_execution b i e s))"
proof -
  let ?t = "s\<lparr>ss_executions := AList.update i (put_execution e (executions_of i s)) (ss_executions s)\<rparr>"
  have "store_inv ?t"
    using inv put_execution_distinct[of "executions_of i s" e]
    by (simp add: store_inv_def rows_ok_def executions_of_update)
  moreover have "store_le s ?t" by (simp add: store_le_def executions_of_update journal_kept_put)
  moreover have "store_le s s" by (simp add: store_le_def)
  ultimately show "store_inv (store_after s (save_tool_execution b i e s))" "store_le s (store_after s (save_tool_execution b i e s))"
    using inv by (simp_all add: store_after_def save_tool_execution_def)
qed

lemma update_row_le: "store_le s (update_row i f s)"
  by (auto simp: store_le_def update_row_sessions)

lemma store_le_refl: "store_le s s"
  by (simp add: store_le_def)

lemma store_le_trans: "store_le s t \<Longrightarrow> store_le t u \<Longrightarrow> store_le s u"
  unfolding store_le_def using journal_kept_trans by (meson order_trans)

lemma record_usage_ok:
  assumes "store_inv s"
  shows "store_inv (record_token_usage now i u cost s)" and "store_le s (record_token_usage now i u cost s)"
  unfolding record_token_usage_def by (rule update_row_inv[OF assms]; simp) (rule update_row_le)

lemma record_estimate_ok:
  assumes "store_inv s"
  shows "store_inv (store_after s (record_usage_estimate print now b i u e s))"
    and "store_le s (store_after s (record_usage_estimate print now b i u e s))"
proof -
  let ?t = "record_token_usage now i u (Num (if estimate_known e then value_or (cost_amount_usd e) 0 else 0)) s"
  note usage = record_usage_ok[OF assms, of now i u "Num (if estimate_known e then value_or (cost_amount_usd e) 0 else 0)"]
  have "store_inv (update_row i f ?t) \<and> store_le s (update_row i f ?t)" if "\<And>row. sn_id (f row) = sn_id row" for f
    using update_row_inv[OF usage(1) that] store_le_trans[OF usage(2) update_row_le] by simp
  then show "store_inv (store_after s (record_usage_estimate print now b i u e s))"
    "store_le s (store_after s (record_usage_estimate print now b i u e s))"
    using assms store_le_refl by (simp_all add: store_after_def record_usage_estimate_def Let_def)
qed

lemma lease_step_ok:
  assumes "store_inv s"
  shows "store_inv (store_after s (create_logical_turn r s))" "store_le s (store_after s (create_logical_turn r s))"
    "store_inv (store_after s (save_logical_turn r owner s))" "store_le s (store_after s (save_logical_turn r owner s))"
    "store_inv (snd (acquire_logical_turn_lease i owner expires now s))"
    "store_le s (snd (acquire_logical_turn_lease i owner expires now s))"
    "store_inv (snd (renew_logical_turn_lease i owner expires s))"
    "store_le s (snd (renew_logical_turn_lease i owner expires s))"
    "store_inv (release_logical_turn_lease i owner s)" "store_le s (release_logical_turn_lease i owner s)"
  using assms
  by (simp_all add: store_after_def create_logical_turn_def save_logical_turn_def acquire_logical_turn_lease_def
      renew_logical_turn_lease_def release_logical_turn_lease_def store_le_def split: option.split)
    (auto simp: store_inv_def rows_ok_def map_of_update map_of_delete split: option.splits if_splits)

lemma store_step_ok: "store_inv s \<Longrightarrow> store_inv (store_step s op) \<and> store_le s (store_step s op)"
proof (cases op)
  case (Upsert_session now uuid b input)
  assume inv: "store_inv s"
  show ?thesis
    using inv create_session_ok[OF inv, of now uuid b input] Upsert_session
    by (auto simp: upsert_session_def store_after_value_def store_le_refl split: option.split)
next
  case (Update_model now i model)
  assume "store_inv s"
  then show ?thesis using update_row_inv Update_model by (simp add: update_session_model_def update_row_le)
qed (simp_all add: create_session_ok save_message_ok truncate_ok save_execution_ok record_usage_ok
      record_estimate_ok lease_step_ok)

lemma store_new_inv: "store_inv store_new"
  by (simp add: store_inv_def rows_ok_def transcripts_ok_def journal_ok_def store_new_def messages_of_def
      executions_of_def value_or_def)

interpretation store: monotone_machine store_new store_step store_inv store_le
  by unfold_locales (use store_new_inv store_step_ok store_le_refl store_le_trans in blast)+

text \<open>C20: In every state of the store the messages of a transcript are in the order of their ids, no two
  messages of any transcripts share an id, a call has one journal row, and a row that was completed
  stays completed whatever is written later.\<close>
theorem store_journal_kept:
  "let s = foldl store_step store_new ops; t = foldl store_step store_new (ops @ later)
   in store_inv s \<and> store_inv t \<and> journal_kept (executions_of k s) (executions_of k t)"
  using store.inv_reachable store.prefix_le[of ops later] by (simp add: store_le_def Let_def del: foldl_append)

section \<open>One holder at a time\<close>

text \<open>What the clocks of the owners have to satisfy while a lease runs until \<open>e\<close>: nobody else asks for
  it at \<open>e\<close> or later, and its holder neither releases nor shortens it.\<close>

definition in_time :: "string \<Rightarrow> string \<Rightarrow> rat \<Rightarrow> store_op \<Rightarrow> bool" where
  "in_time i owner e op \<longleftrightarrow>
     (case op of
        Acquire_lease j o' x now \<Rightarrow> j \<noteq> i \<or> (if o' = owner then e \<le> x else now < e)
      | Renew_lease j o' x \<Rightarrow> j \<noteq> i \<or> o' \<noteq> owner \<or> e \<le> x
      | Release_lease j o' \<Rightarrow> j \<noteq> i \<or> o' \<noteq> owner
      | _ \<Rightarrow> True)"

text \<open>The record after the saves of one owner.\<close>

fun saved_by :: "string \<Rightarrow> string \<Rightarrow> logical_turn option \<Rightarrow> store_op \<Rightarrow> logical_turn option" where
  "saved_by i owner r (Save_turn r' o') = (if tl_id r' = i \<and> o' = owner then Some r' else r)"
| "saved_by i owner r _ = r"

definition held_by :: "string \<Rightarrow> string \<Rightarrow> rat \<Rightarrow> session_store \<Rightarrow> bool" where
  "held_by i owner e s \<longleftrightarrow> (\<exists>l. map_of (ss_leases s) i = Some l \<and> ls_owner l = owner \<and> e \<le> ls_expires l)
     \<and> map_of (ss_turns s) i \<noteq> None"

lemma held_by_other:
  "ss_leases t = ss_leases s \<Longrightarrow> ss_turns t = ss_turns s \<Longrightarrow> held_by i owner e t = held_by i owner e s"
  by (simp add: held_by_def)

lemma held_step:
  assumes "held_by i owner e s" "in_time i owner e op"
  shows "held_by i owner e (store_step s op)
    \<and> load_logical_turn i (store_step s op) = saved_by i owner (load_logical_turn i s) op"
proof (cases op)
  case (Create_turn r)
  then show ?thesis using assms(1)
    by (auto simp: store_after_def create_logical_turn_def held_by_def load_logical_turn_def map_of_update)
next
  case (Save_turn r o')
  then show ?thesis using assms(1)
    by (auto simp: store_after_def save_logical_turn_def held_by_def load_logical_turn_def map_of_update split: option.splits)
next
  case (Acquire_lease j o' x now)
  then show ?thesis using assms
    by (auto simp: acquire_logical_turn_lease_def held_by_def load_logical_turn_def map_of_update in_time_def
        split: option.splits if_splits)
next
  case (Renew_lease j o' x)
  then show ?thesis using assms
    by (auto simp: renew_logical_turn_lease_def held_by_def load_logical_turn_def map_of_update in_time_def
        split: option.splits if_splits)
next
  case (Release_lease j o')
  then show ?thesis using assms
    by (auto simp: release_logical_turn_lease_def held_by_def load_logical_turn_def map_of_delete in_time_def)
next
  case (Upsert_session now uuid b input)
  then show ?thesis using assms(1)
    by (auto simp: upsert_session_def create_session_def store_after_value_def Let_def held_by_def load_logical_turn_def
        split: option.split)
qed (use assms(1) in \<open>simp_all add: store_after_def store_after_value_def create_session_def update_session_model_def
      save_message_def truncate_messages_def record_token_usage_def record_usage_estimate_def
      save_tool_execution_def Let_def held_by_def load_logical_turn_def split: option.split\<close>)

lemma held_run:
  "held_by i owner e s \<Longrightarrow> list_all (in_time i owner e) ops \<Longrightarrow>
   held_by i owner e (foldl store_step s ops)
   \<and> load_logical_turn i (foldl store_step s ops) = foldl (saved_by i owner) (load_logical_turn i s) ops"
proof (induction ops arbitrary: s)
  case (Cons op ops)
  have "held_by i owner e (store_step s op)
    \<and> load_logical_turn i (store_step s op) = saved_by i owner (load_logical_turn i s) op"
    using Cons.prems by (intro held_step) simp_all
  then show ?case using Cons.IH[of "store_step s op"] Cons.prems by simp
qed simp

text \<open>C19: A logical turn has one writer at a time: from a successful acquisition until it expires the
  owner holds the lease whatever the others try, the record of the turn is what the owner last saved,
  every save of the owner is accepted and none of anybody else.\<close>
theorem lease_exclusive:
  assumes "acquire_logical_turn_lease i owner e now s = (True, s')" "list_all (in_time i owner e) ops"
  shows "map_option ls_owner (map_of (ss_leases (foldl store_step s' ops)) i) = Some owner
    \<and> load_logical_turn i (foldl store_step s' ops) = foldl (saved_by i owner) (load_logical_turn i s) ops"
proof -
  have "held_by i owner e s'" "load_logical_turn i s' = load_logical_turn i s"
    using assms(1) by (auto simp: acquire_logical_turn_lease_def held_by_def map_of_update load_logical_turn_def
        split: if_splits)
  from held_run[OF this(1) assms(2)] this(2) show ?thesis by (auto simp: held_by_def)
qed

definition sample_turn :: logical_turn where
  "sample_turn =
     \<lparr>tl_version = 2, tl_origin = Some Origin_owner, tl_migrations = [], tl_cancellation = None, tl_owned_tasks = None,
      tl_id = ''t'', tl_user_message = None, tl_session = ''s'', tl_active = ''s'', tl_compacted = [],
      tl_binding = \<lparr>tb_route = None, tb_provider = ''p'', tb_auth = None, tb_model = ''m'', tb_effort = None,
        tb_toolset = None, tb_permission = None, tb_policy = None, tb_skills = None, tb_mcp = None, tb_hooks = None,
        tb_cwd = [], tb_bundle = None\<rparr>,
      tl_digest = [], tl_limit = Some 3, tl_deadline = None, tl_status = Turn_admitted, tl_cause = None,
      tl_fingerprint = None, tl_no_progress = 0, tl_continuations = [], tl_reply = None, tl_finish = None,
      tl_counters = \<lparr>cn_segments = 0, cn_model_calls = 0, cn_tool_calls = 0, cn_provider_retries = 0,
        cn_context_recoveries = 0, cn_input = Num 0, cn_output = Num 0, cn_cache_creation = Num 0,
        cn_cache_read = Num 0, cn_cost = Num 0\<rparr>,
      tl_created = 0, tl_updated = 0\<rparr>"

theorem lease_exclusive_witness:
  "load_logical_turn ''t''
     (foldl store_step (snd (acquire_logical_turn_lease ''t'' ''a'' 30000 0 (store_new\<lparr>ss_turns := [(''t'', sample_turn)]\<rparr>)))
       [Save_turn (sample_turn\<lparr>tl_status := Turn_cancelled\<rparr>) ''b'', Acquire_lease ''t'' ''b'' 31000 1000,
        Save_turn (sample_turn\<lparr>tl_status := Turn_running\<rparr>) ''a''])
   = Some (sample_turn\<lparr>tl_status := Turn_running\<rparr>)"
proof -
  let ?s = "store_new\<lparr>ss_turns := [(''t'', sample_turn)]\<rparr>"
  let ?ops = "[Save_turn (sample_turn\<lparr>tl_status := Turn_cancelled\<rparr>) ''b'', Acquire_lease ''t'' ''b'' 31000 1000,
        Save_turn (sample_turn\<lparr>tl_status := Turn_running\<rparr>) ''a'']"
  have "acquire_logical_turn_lease ''t'' ''a'' 30000 0 ?s = (True, snd (acquire_logical_turn_lease ''t'' ''a'' 30000 0 ?s))"
    by (simp add: acquire_logical_turn_lease_def store_new_def)
  from lease_exclusive[OF this, of ?ops] show ?thesis by (simp add: in_time_def sample_turn_def)
qed

end
