(* ===== verification/Logical_Turn.thy ===== *)
theory Logical_Turn
  imports Session_Store Child_Routing
begin

text \<open>
  \<open>packages/sdk/src/agent/logicalTurn.ts\<close>: one user turn carried by several runs of the agent
  (segments), under a lease, with limits, retries and recovery: \<open>superviseLogicalTurn\<close>.

  The supervisor, the other processes and the host share one world: the store of \<open>Session_Store\<close> and
  a host state of any type. Work that the supervisor waits for is a tree: it ends, or the heartbeat
  comes first, or it records a task, or another supervisor of the process takes the turn, and it goes
  on from the world it finds. The heartbeat, the abort signal, the clock and \<open>Math.random\<close> are read
  from the host. \<open>JSON.parse\<close>, \<open>Number\<close>, SHA-256, \<open>localeCompare\<close> and the JSON value of a content
  block are parameters. The in-process map of active segments appears as the event that the turn is
  taken; the field \<open>segmentLimit\<close> of old rows, which nothing reads, is left out.
\<close>

section \<open>Errors and runs\<close>

record error_layer =
  el_name :: string
  el_code :: "string option"
  el_message :: string

text \<open>What can be thrown, or end a run: a lost lease, the errors of \<open>providers/errors.ts\<close> that the
  supervisor distinguishes, or another error with the chain of its causes.\<close>

datatype run_error =
    Lease_loss
  | Provider_http nat "string option"             \<comment> \<open>status, \<open>retry-after\<close>\<close>
  | Provider_stream
  | Subscription_http nat
  | Subscription_stream
  | Subscription_refresh bool "rat option"  \<comment> \<open>retryable, \<open>retryAfterMs\<close>\<close>
  | Storage_fault
  | Other_error error_layer "error_layer list"    \<comment> \<open>the error, its causes\<close>

definition plain_error :: "string \<Rightarrow> run_error" where
  "plain_error m = Other_error \<lparr>el_name = ''Error'', el_code = None, el_message = m\<rparr> []"

fun of_store_error :: "store_error \<Rightarrow> run_error" where
  "of_store_error Lease_error = Lease_loss"
| "of_store_error e = plain_error (store_error_text e)"

fun run_error_name :: "run_error \<Rightarrow> string" where
  "run_error_name Lease_loss = ''LogicalTurnLeaseError''"
| "run_error_name (Provider_http _ _) = ''ProviderHttpError''"
| "run_error_name Provider_stream = ''ProviderStreamError''"
| "run_error_name (Subscription_http _) = ''SubscriptionHttpError''"
| "run_error_name Subscription_stream = ''SubscriptionStreamError''"
| "run_error_name (Subscription_refresh _ _) = ''SubscriptionRefreshError''"
| "run_error_name Storage_fault = ''SessionPersistenceError''"
| "run_error_name (Other_error l _) = el_name l"

record run_result =
  rn_session :: string
  rn_reason :: end_reason
  rn_error :: "run_error option"
  rn_final :: "content_block list option"
  rn_iterations :: nat
  rn_tool_calls :: nat
  rn_tools :: "string list"
  rn_usage :: "token_usage option"
  rn_cost :: "js_number option"
  rn_stop :: "nat option"                          \<comment> \<open>the Stop hook deferred with its terminal\<close>

datatype result_code =
  Continuation_exhausted | Continuation_stalled | Recovery_unsafe | Recovery_state_invalid

fun code_text :: "result_code \<Rightarrow> string" where
  "code_text Continuation_exhausted = ''continuation_exhausted''"
| "code_text Continuation_stalled = ''continuation_stalled''"
| "code_text Recovery_unsafe = ''recovery_unsafe''"
| "code_text Recovery_state_invalid = ''recovery_state_invalid''"

record turn_result =
  tr_id :: string
  tr_status :: turn_status
  tr_code :: "result_code option"
  tr_active :: string
  tr_final :: "run_result option"
  tr_counters :: turn_counters
  tr_finish :: string
  tr_reply :: string

section \<open>Counters\<close>

definition empty_counters :: turn_counters where
  "empty_counters =
     \<lparr>cn_segments = 0, cn_model_calls = 0, cn_tool_calls = 0, cn_provider_retries = 0,
      cn_context_recoveries = 0, cn_input = Num 0, cn_output = Num 0, cn_cache_creation = Num 0,
      cn_cache_read = Num 0, cn_cost = Num 0\<rparr>"

definition count_of :: "token_usage option \<Rightarrow> usage_field \<Rightarrow> js_number" where
  "count_of u f = value_or (opt_bind u (\<lambda>x. x f)) (Num 0)"

definition add_run_usage :: "token_usage option \<Rightarrow> js_number option \<Rightarrow> turn_counters \<Rightarrow> turn_counters" where
  "add_run_usage u cost c =
     c\<lparr>cn_input := js_add (cn_input c) (count_of u Input_tokens),
       cn_output := js_add (cn_output c) (count_of u Output_tokens),
       cn_cache_creation := js_add (cn_cache_creation c) (count_of u Cache_creation_input_tokens),
       cn_cache_read := js_add (cn_cache_read c) (count_of u Cache_read_input_tokens),
       cn_cost := js_add (cn_cost c) (value_or cost (Num 0))\<rparr>"

fun block_text :: "content_block \<Rightarrow> string" where
  "block_text (Text_block t) = t"
| "block_text _ = []"

definition reply_text :: "run_result \<Rightarrow> string" where
  "reply_text r = concat (map block_text (value_or (rn_final r) []))"

definition repeated_action :: "run_result \<Rightarrow> string" where
  "repeated_action r =
     (case rn_tools r of [name] \<Rightarrow> if name \<noteq> [] then name else reason_text (rn_reason r)
      | _ \<Rightarrow> reason_text (rn_reason r))"

section \<open>Progress\<close>

text \<open>\<open>stable\<close> sorts the keys of objects (an object with keys that are array indices would list those
  first); \<open>digest\<close> is the hash of what it prints.\<close>

fun stable :: "(string \<Rightarrow> string \<Rightarrow> int) \<Rightarrow> json \<Rightarrow> json" where
  "stable cmp (JArray xs) = JArray (map (stable cmp) xs)"
| "stable cmp (JObject kvs) =
     JObject (sort_by (\<lambda>a b. cmp (fst a) (fst b)) (map (\<lambda>(k, v). (k, stable cmp v)) kvs))"
| "stable cmp v = v"

definition json_present :: "string \<Rightarrow> json option \<Rightarrow> (string \<times> json) list" where
  "json_present k v = (case v of None \<Rightarrow> [] | Some x \<Rightarrow> [(k, x)])"

definition binding_json :: "turn_binding \<Rightarrow> json" where
  "binding_json b = JObject (json_present ''route'' (map_option JString (tb_route b))
     @ [(''provider'', JString (tb_provider b))] @ json_present ''authKind'' (map_option JString (tb_auth b))
     @ [(''model'', JString (tb_model b))] @ json_present ''effort'' (map_option JString (tb_effort b))
     @ json_present ''toolset'' (map_option JString (tb_toolset b))
     @ json_present ''permissionMode'' (map_option JString (tb_permission b))
     @ json_present ''policyDigest'' (map_option JString (tb_policy b))
     @ json_present ''skillApprovalDigest'' (map_option JString (tb_skills b))
     @ json_present ''mcpIdentityDigest'' (map_option JString (tb_mcp b))
     @ json_present ''hookScopeDigest'' (map_option JString (tb_hooks b)) @ [(''cwd'', JString (tb_cwd b))]
     @ json_present ''bundleIdentity'' (map_option JString (tb_bundle b)))"

record progress_facts =
  pf_cursor :: "json option"     \<comment> \<open>when the snapshot has a cursor\<close>
  pf_tasks :: "json option"

definition progress_facts_of :: "json option \<Rightarrow> progress_facts" where
  "progress_facts_of snapshot =
     (case snapshot of
        Some (JObject kvs) \<Rightarrow> \<lparr>pf_cursor = map_of kvs ''cursor'', pf_tasks = map_of kvs ''tasks''\<rparr>
      | _ \<Rightarrow> \<lparr>pf_cursor = None, pf_tasks = None\<rparr>)"

definition string_field :: "json \<Rightarrow> string \<Rightarrow> string option" where
  "string_field v k = (case json_field v k of Some (JString s) \<Rightarrow> Some s | _ \<Rightarrow> None)"

definition cursor_in_value :: "json \<Rightarrow> string option" where
  "cursor_in_value v =
     (case string_field v ''nextCursor'' of
        Some s \<Rightarrow> Some s
      | None \<Rightarrow> opt_bind (json_field v ''data'') (\<lambda>d. string_field d ''nextCursor''))"

definition logical_turn_cursor_parse_cap :: nat where "logical_turn_cursor_parse_cap = 65536"

definition block_cursor :: "(string \<Rightarrow> json option) \<Rightarrow> content_block \<Rightarrow> string option" where
  "block_cursor parse b =
     (case b of
        Tool_result _ (Result_string s) _ \<Rightarrow>
          if logical_turn_cursor_parse_cap < length s then None else opt_bind (parse s) cursor_in_value
      | Tool_use _ _ input \<Rightarrow> string_field input ''cursor''
      | _ \<Rightarrow> None)"

text \<open>The last block that has one, in the last message that has one.\<close>

definition logical_turn_cursor :: "(string \<Rightarrow> json option) \<Rightarrow> message list \<Rightarrow> string option" where
  "logical_turn_cursor parse ms =
     (case List.map_filter (block_cursor parse) (rev (concat (map msg_content ms))) of
        [] \<Rightarrow> None | c # _ \<Rightarrow> Some c)"

definition latest_result :: "message list \<Rightarrow> result_content option" where
  "latest_result ms =
     (case filter is_tool_result (rev (concat (map msg_content ms))) of
        Tool_result _ c _ # _ \<Rightarrow> Some c | _ \<Rightarrow> None)"

definition task_facts :: "json \<Rightarrow> json" where
  "task_facts t =
     (case t of
        JObject _ \<Rightarrow> JObject (json_present ''id'' (json_field t ''id'')
          @ json_present ''state'' (case json_field t ''state'' of
              None \<Rightarrow> json_field t ''status'' | Some JNull \<Rightarrow> json_field t ''status'' | v \<Rightarrow> v)
          @ json_present ''result'' (json_field t ''result''))
      | JArray _ \<Rightarrow> JObject []
      | v \<Rightarrow> v)"

definition tasks_facts :: "json option \<Rightarrow> json option" where
  "tasks_facts ts = (case ts of Some (JArray xs) \<Rightarrow> Some (JArray (map task_facts xs)) | _ \<Rightarrow> None)"

text \<open>The digest of a value; \<open>None\<close> is \<open>undefined\<close>, which cannot be hashed.\<close>

definition digest :: "(string \<Rightarrow> string) \<Rightarrow> (string \<Rightarrow> string \<Rightarrow> int) \<Rightarrow> json \<Rightarrow> string" where
  "digest sha cmp v = sha (json_stringify (stable cmp v))"

definition undefined_digest :: run_error where
  "undefined_digest = Other_error \<lparr>el_name = ''TypeError'', el_code = Some ''ERR_INVALID_ARG_TYPE'',
     el_message = ''The '' @ quote_mark @ ''data'' @ quote_mark @ '' argument must be of type string or an ''
       @ ''instance of Buffer, TypedArray, or DataView. Received undefined''\<rparr> []"

definition progress_fingerprint ::
  "(string \<Rightarrow> string) \<Rightarrow> (string \<Rightarrow> string \<Rightarrow> int) \<Rightarrow> (string \<Rightarrow> json option) \<Rightarrow> progress_facts
   \<Rightarrow> message list \<Rightarrow> end_reason \<Rightarrow> nat \<Rightarrow> string \<Rightarrow> run_error + string" where
  "progress_fingerprint sha cmp parse facts hydrated cause text_length output_print =
     (let cursor = (case pf_cursor facts of
            Some c \<Rightarrow> c
          | None \<Rightarrow> (case logical_turn_cursor parse hydrated of None \<Rightarrow> JNull | Some s \<Rightarrow> JString s));
          fingerprint = (\<lambda>latest. Inr (digest sha cmp (JObject (latest
             @ [(''cursor'', cursor)] @ json_present ''tasks'' (tasks_facts (pf_tasks facts))
             @ (if cause = End_max_tokens
                then [(''savedOutputLength'', JNumber (nat_to_string text_length)), (''output'', JString output_print)]
                else [])
             @ [(''cause'', JString (reason_text cause))]))))
      in case latest_result hydrated of
           None \<Rightarrow> fingerprint []
         | Some (Result_string s) \<Rightarrow> fingerprint [(''latestResult'', JString (digest sha cmp (JString s)))]
         | Some (Result_wire (Some j)) \<Rightarrow> fingerprint [(''latestResult'', JString (digest sha cmp j))]
         | Some (Result_wire None) \<Rightarrow> Inl undefined_digest)"

section \<open>Transient failures\<close>

fun layer_matches :: "(error_layer \<Rightarrow> bool) \<Rightarrow> error_layer list \<Rightarrow> bool" where
  "layer_matches p [] = False"
| "layer_matches p (l # ls) = (el_name l \<noteq> ''AbortError'' \<and> (p l \<or> layer_matches p ls))"

text \<open>\<open>walkCauses\<close>: the error and at most three causes, up to an abort.\<close>

definition walk_causes :: "(error_layer \<Rightarrow> bool) \<Rightarrow> error_layer \<Rightarrow> error_layer list \<Rightarrow> bool" where
  "walk_causes p l causes = layer_matches p (take 4 (l # causes))"

definition is_timeout_layer :: "error_layer \<Rightarrow> bool" where
  "is_timeout_layer l \<longleftrightarrow> el_name l = ''TimeoutError''
     \<or> el_code l \<in> Some ` set [''ETIMEDOUT'', ''UND_ERR_CONNECT_TIMEOUT'', ''UND_ERR_HEADERS_TIMEOUT'',
          ''UND_ERR_BODY_TIMEOUT'']"

definition is_connection_layer :: "error_layer \<Rightarrow> bool" where
  "is_connection_layer l \<longleftrightarrow>
     el_code l \<in> Some ` set [''ECONNRESET'', ''EPIPE'', ''UND_ERR_SOCKET'']
     \<or> list_ex (contains (map to_lower_char (el_message l))) [''econnreset'', ''socket hang up'', ''fetch failed'']"

fun is_pre_delivery_fault :: "run_error \<Rightarrow> bool" where
  "is_pre_delivery_fault (Other_error l causes) =
     (walk_causes is_timeout_layer l causes \<or> walk_causes is_connection_layer l causes)"
| "is_pre_delivery_fault _ = False"

definition with_jitter :: "rat \<Rightarrow> rat \<Rightarrow> rat" where
  "with_jitter random base =
     (let jitter = of_int \<lfloor>random * max 1 (of_int \<lfloor>base * (2 / 10)\<rfloor>)\<rfloor> in min 10000 (base + jitter))"

definition backoff_ms :: "nat \<Rightarrow> rat" where
  "backoff_ms attempt = min 10000 (100 * 2 ^ attempt)"

text \<open>The wait before a retry, without its jitter; \<open>None\<close>: no retry.\<close>

definition transient_base ::
  "(string \<Rightarrow> js_number) \<Rightarrow> run_error option \<Rightarrow> nat \<Rightarrow> bool \<Rightarrow> rat option" where
  "transient_base number err attempt committed =
     (case err of
        None \<Rightarrow> None
      | Some e \<Rightarrow>
          (if run_error_name e = ''AbortError'' then None
           else case e of
             Provider_http status retry_after \<Rightarrow>
               (if status \<notin> {429, 502, 503, 504} then None
                else Some (case map_option number (truthy_string retry_after) of
                  Some (Num s) \<Rightarrow> if 0 \<le> s then min 10000 (of_int \<lfloor>s * 1000\<rfloor>) else backoff_ms attempt
                | _ \<Rightarrow> backoff_ms attempt))
           | Subscription_refresh True wait \<Rightarrow>
               (case wait of
                  None \<Rightarrow> Some (backoff_ms attempt)
                | Some ms \<Rightarrow> Some (min 10000 ms))
           | _ \<Rightarrow> if committed \<or> \<not> is_pre_delivery_fault e then None else Some (backoff_ms attempt)))"

definition has_committed_output :: "run_result \<Rightarrow> bool" where
  "has_committed_output r \<longleftrightarrow>
     list_ex (\<lambda>b. case b of Text_block t \<Rightarrow> t \<noteq> [] | _ \<Rightarrow> True) (value_or (rn_final r) [])"

definition safe_transient_failures :: "string list" where
  "safe_transient_failures =
     [''transient_provider'', ''rate_limited'', ''provider_unavailable'', ''provider_timeout'']"

definition is_safe_transient_failure :: "logical_turn \<Rightarrow> bool" where
  "is_safe_transient_failure r \<longleftrightarrow>
     list_ex (\<lambda>c. case c of None \<Rightarrow> False | Some x \<Rightarrow> x \<in> set safe_transient_failures) [tl_finish r, tl_cause r]"

section \<open>Results from the record\<close>

definition stored_result :: "logical_turn \<Rightarrow> string \<Rightarrow> turn_result" where
  "stored_result r otherwise =
     \<lparr>tr_id = tl_id r, tr_status = tl_status r, tr_code = None, tr_active = tl_active r, tr_final = None,
      tr_counters = tl_counters r, tr_finish = value_or (tl_finish r) otherwise,
      tr_reply = value_or (tl_reply r) []\<rparr>"

definition invalid_result :: "string \<Rightarrow> string \<Rightarrow> turn_result" where
  "invalid_result i active =
     \<lparr>tr_id = i, tr_status = Turn_failed, tr_code = Some Recovery_state_invalid, tr_active = active,
      tr_final = None, tr_counters = empty_counters, tr_finish = code_text Recovery_state_invalid,
      tr_reply = []\<rparr>"

text \<open>A stored record that the supervisor must not run again gives its result at once.\<close>

definition settled_result :: "logical_turn \<Rightarrow> turn_result option" where
  "settled_result r =
     (if tl_status r = Turn_completed then Some (stored_result r ''completed'')
      else if tl_status r = Turn_waiting_user then Some (stored_result r ''waiting_user'')
      else if tl_status r = Turn_cancelled then Some (invalid_result (tl_id r) (tl_active r))
      else if tl_status r = Turn_failed \<and> \<not> is_safe_transient_failure r then Some (stored_result r ''failed'')
      else None)"

end
