(* ===== verification/Turn_Supervisor.thy ===== *)
theory Turn_Supervisor
  imports Logical_Turn
begin

text \<open>
  \<open>superviseLogicalTurn\<close> of \<open>agent/logicalTurn.ts\<close>: how a logical turn is admitted, leased, resumed,
  run segment by segment and finished. An action of the supervisor goes on with a value, returns the
  result of the turn, or throws.
\<close>

section \<open>World and host\<close>

type_synonym 'w turn_world = "session_store \<times> 'w"

type_synonym ('w, 'a) turn_call = "'w turn_world \<Rightarrow> (run_error + 'a) \<times> 'w turn_world"

text \<open>Work that is awaited under the heartbeat: it ends; a heartbeat is due first; it hands over a task
  that the turn owns (and learns whether the record could be saved); or another supervisor of the
  process takes the turn.\<close>

datatype ('w, 'a) work =
    Work_ends 'a "'w turn_world"
  | Work_beat "'w turn_world" "'w turn_world \<Rightarrow> ('w, 'a) work"
  | Work_owns string "'w turn_world" "run_error option \<Rightarrow> 'w turn_world \<Rightarrow> ('w, 'a) work"
  | Work_displaced "'w turn_world"

record segment_input =
  si_messages :: "message list"
  si_active :: string
  si_segment :: nat
  si_continuation :: bool
  si_remaining :: "nat option"

text \<open>What a segment leaves: its outcome, the use of its model-call budget, the tasks in its loop state,
  and the Stop hook it has bound.\<close>

record segment_end =
  se_outcome :: "run_error + run_result"
  se_used :: nat
  se_tasks :: "string list"
  se_stop :: "nat option"

record 'w boundary =
  bd_safe :: bool
  bd_progress :: "json option"
  bd_messages :: "('w, message list) turn_call"

datatype trace_kind =
    Logical_turn_start | Segment_start | Segment_end | Recovery_start | Recovery_end | Provider_retry
  | Logical_turn_end

record turn_trace =
  tt_kind :: trace_kind
  tt_id :: string
  tt_segment :: nat
  tt_cause :: "string option"
  tt_counters :: turn_counters
  tt_active :: string
  tt_elapsed :: rat
  tt_outcome :: "turn_status option"

record continuation =
  cu_id :: string
  cu_session :: string
  cu_active :: string
  cu_cause :: string
  cu_segment :: nat
  cu_counters :: turn_counters
  cu_limit :: "nat option"
  cu_deadline :: "rat option"

datatype abort_reason = Abort_text string | Abort_error string string | Abort_other

datatype stop_cause = Stop_interrupted | Stop_deadline

text \<open>A Stop hook bound to a segment, with the reason it is called with, if not its own.\<close>

type_synonym pending_stop = "nat \<times> stop_cause option"

record 'w turn_env =
  le_now :: "'w \<Rightarrow> rat \<times> 'w"
  le_random :: "'w \<Rightarrow> rat \<times> 'w"
  le_uuid :: "'w \<Rightarrow> string \<times> 'w"
  le_abort :: "'w \<Rightarrow> abort_reason option"
  le_prepare :: "('w turn_world \<Rightarrow> ('w, run_error + unit) work) option"
  le_segment :: "segment_input \<Rightarrow> 'w turn_world \<Rightarrow> ('w, segment_end) work"
  le_sleep :: "rat \<Rightarrow> 'w turn_world \<Rightarrow> ('w, unit) work"
  le_rehydrate :: "string \<Rightarrow> ('w, message list) turn_call"
  le_recovery_safe :: "string \<Rightarrow> ('w, bool) turn_call"
  le_progress :: "(string \<Rightarrow> ('w, json option) turn_call) option"
  le_boundary :: "(string \<Rightarrow> ('w, 'w boundary) turn_call) option"
  le_persist_continuation :: "(string \<Rightarrow> string \<Rightarrow> ('w, unit) turn_call) option"
  le_continuing :: "(continuation \<Rightarrow> ('w, unit) turn_call) option"
  le_trace :: "(turn_trace \<Rightarrow> ('w, unit) turn_call) option"
  le_stop :: "nat \<Rightarrow> stop_cause option \<Rightarrow> 'w turn_world \<Rightarrow> 'w turn_world"
  le_sha256 :: "string \<Rightarrow> string"
  le_compare :: "string \<Rightarrow> string \<Rightarrow> int"
  le_parse :: "string \<Rightarrow> json option"
  le_number :: "string \<Rightarrow> js_number"
  le_block :: "content_block \<Rightarrow> json"

record turn_options =
  to_binding :: turn_binding
  to_session :: string
  to_user_message :: "nat option"
  to_messages :: "message list"
  to_turn :: "string option"
  to_allocated :: "string option"
  to_active :: "string option"
  to_limit :: "js_number option"
  to_origin :: "policy_origin option"
  to_task_manager :: bool
  to_deadline :: "rat option"

section \<open>State and actions\<close>

text \<open>What the supervisor did: the records it saved, the segments it started, the Stop hooks it called.\<close>

datatype turn_effect =
    Did_save logical_turn
  | Did_start segment_input
  | Did_stop nat "stop_cause option"

record 'w turn_state =
  sv_world :: "'w turn_world"
  sv_log :: "turn_effect list"
  sv_owner :: string
  sv_started :: rat
  sv_record :: logical_turn
  sv_used :: nat                         \<comment> \<open>\<open>modelCallBudget.used\<close>\<close>
  sv_lost :: bool
  sv_stop :: "nat option"
  sv_pending :: "pending_stop option"
  sv_messages :: "message list"
  sv_attempts :: nat
  sv_leased :: bool

datatype 'a flow = Goes 'a | Returns turn_result | Throws run_error

type_synonym ('w, 'a) turn_act = "'w turn_state \<Rightarrow> 'a flow \<times> 'w turn_state"

definition next_with :: "'a \<Rightarrow> ('w, 'a) turn_act" where "next_with x s = (Goes x, s)"

definition throw_error :: "run_error \<Rightarrow> ('w, 'a) turn_act" where "throw_error e s = (Throws e, s)"

definition give :: "turn_result \<Rightarrow> ('w, 'a) turn_act" where "give r s = (Returns r, s)"

definition then_do :: "('w, 'a) turn_act \<Rightarrow> ('a \<Rightarrow> ('w, 'b) turn_act) \<Rightarrow> ('w, 'b) turn_act" where
  "then_do m f s =
     (case m s of
        (Goes x, s') \<Rightarrow> f x s'
      | (Returns r, s') \<Rightarrow> (Returns r, s')
      | (Throws e, s') \<Rightarrow> (Throws e, s'))"

definition update_record :: "(logical_turn \<Rightarrow> logical_turn) \<Rightarrow> ('w, unit) turn_act" where
  "update_record f s = (Goes (), s\<lparr>sv_record := f (sv_record s)\<rparr>)"

definition update_counters :: "(turn_counters \<Rightarrow> turn_counters) \<Rightarrow> ('w, unit) turn_act" where
  "update_counters f = update_record (\<lambda>r. r\<lparr>tl_counters := f (tl_counters r)\<rparr>)"

definition read_clock :: "'w turn_env \<Rightarrow> ('w, rat) turn_act" where
  "read_clock e s =
     (let (t, h) = le_now e (snd (sv_world s)) in (Goes t, s\<lparr>sv_world := (fst (sv_world s), h)\<rparr>))"

definition read_random :: "'w turn_env \<Rightarrow> ('w, rat) turn_act" where
  "read_random e s =
     (let (t, h) = le_random e (snd (sv_world s)) in (Goes t, s\<lparr>sv_world := (fst (sv_world s), h)\<rparr>))"

definition read_abort :: "'w turn_env \<Rightarrow> ('w, abort_reason option) turn_act" where
  "read_abort e s = (Goes (le_abort e (snd (sv_world s))), s)"

definition call_host :: "('w, 'a) turn_call \<Rightarrow> ('w, 'a) turn_act" where
  "call_host f s =
     (let (r, w) = f (sv_world s) in
      ((case r of Inl e \<Rightarrow> Throws e | Inr x \<Rightarrow> Goes x), s\<lparr>sv_world := w\<rparr>))"

text \<open>\<open>try ... catch\<close>: returning is not caught.\<close>

definition handle :: "('w, 'a) turn_act \<Rightarrow> (run_error \<Rightarrow> ('w, 'a) turn_act) \<Rightarrow> ('w, 'a) turn_act" where
  "handle m h s = (case m s of (Throws e, s') \<Rightarrow> h e s' | r \<Rightarrow> r)"

definition get_record :: "('w, logical_turn) turn_act" where
  "get_record s = (Goes (sv_record s), s)"

definition turn_digest :: "'w turn_env \<Rightarrow> turn_binding \<Rightarrow> string" where
  "turn_digest e b = digest (le_sha256 e) (le_compare e) (binding_json b)"

section \<open>Lease, record, traces\<close>

definition renew_lease :: "'w turn_env \<Rightarrow> ('w, bool) turn_act" where
  "renew_lease e = then_do (read_clock e) (\<lambda>now s.
     let (ok, st) = renew_logical_turn_lease (tl_id (sv_record s)) (sv_owner s) (now + logical_turn_lease_ms)
           (fst (sv_world s))
     in (Goes ok, s\<lparr>sv_world := (st, snd (sv_world s))\<rparr>))"

definition require_lease :: "'w turn_env \<Rightarrow> ('w, unit) turn_act" where
  "require_lease e = then_do (renew_lease e) (\<lambda>ok. if ok then next_with () else throw_error Lease_loss)"

definition save_record :: "'w turn_env \<Rightarrow> ('w, unit) turn_act" where
  "save_record e = then_do (require_lease e) (\<lambda>_. then_do (read_clock e) (\<lambda>now s.
     let r = (sv_record s)\<lparr>tl_updated := now\<rparr> in
     case save_logical_turn r (sv_owner s) (fst (sv_world s)) of
       Inl x \<Rightarrow> (Throws (of_store_error x), s\<lparr>sv_record := r\<rparr>)
     | Inr st \<Rightarrow> (Goes (), s\<lparr>sv_record := r, sv_world := (st, snd (sv_world s)), sv_log := sv_log s @ [Did_save r]\<rparr>)))"

definition send_trace ::
  "'w turn_env \<Rightarrow> trace_kind \<Rightarrow> nat \<Rightarrow> string option \<Rightarrow> turn_status option \<Rightarrow> ('w, unit) turn_act" where
  "send_trace e kind segment cause outcome =
     (case le_trace e of
        None \<Rightarrow> next_with ()
      | Some f \<Rightarrow> then_do (read_clock e) (\<lambda>now s.
          call_host (f \<lparr>tt_kind = kind, tt_id = tl_id (sv_record s), tt_segment = segment, tt_cause = cause,
            tt_counters = tl_counters (sv_record s), tt_active = tl_active (sv_record s),
            tt_elapsed = max 0 (now - sv_started s), tt_outcome = outcome\<rparr>) s))"

definition is_deadline_terminal :: "abort_reason option \<Rightarrow> rat option \<Rightarrow> rat \<Rightarrow> bool" where
  "is_deadline_terminal abort deadline now \<longleftrightarrow>
     abort = Some (Abort_text ''deadline'') \<or> (case deadline of None \<Rightarrow> False | Some d \<Rightarrow> d \<le> now)"

definition deadline_reached :: "'w turn_env \<Rightarrow> ('w, bool) turn_act" where
  "deadline_reached e = then_do (read_clock e) (\<lambda>now. then_do (read_abort e) (\<lambda>abort s.
     (Goes (is_deadline_terminal abort (tl_deadline (sv_record s)) now), s)))"

section \<open>The end of a turn\<close>

definition arm_stop :: "stop_cause \<Rightarrow> ('w, unit) turn_act" where
  "arm_stop cause s = (Goes (), s\<lparr>sv_pending := map_option (\<lambda>i. (i, Some cause)) (sv_stop s)\<rparr>)"

text \<open>A Stop hook that fails changes nothing.\<close>

definition fire_terminal_stop :: "'w turn_env \<Rightarrow> ('w, unit) turn_act" where
  "fire_terminal_stop e s =
     (case sv_pending s of
        None \<Rightarrow> (Goes (), s)
      | Some (i, cause) \<Rightarrow> (Goes (), s\<lparr>sv_pending := None, sv_world := le_stop e i cause (sv_world s),
          sv_log := sv_log s @ [Did_stop i cause]\<rparr>))"

definition cancellation_source :: "abort_reason option \<Rightarrow> string" where
  "cancellation_source abort =
     (case abort of
        None \<Rightarrow> ''segment_interrupted''
      | Some (Abort_text t) \<Rightarrow> t
      | Some (Abort_error name m) \<Rightarrow> name @ '': '' @ m
      | Some Abort_other \<Rightarrow> ''host_signal'')"

definition closing_reply :: "turn_status \<Rightarrow> string \<Rightarrow> string" where
  "closing_reply status reason =
     (if status = Turn_stalled then
        ''Work is blocked because repeated tool results did not change after recovery. The turn is saved. Change the query or resolve the reported tool obstacle before retrying.''
      else if status = Turn_exhausted then
        ''Work is incomplete because the explicit '' @ reason @ '' policy was reached. The turn is saved.''
      else if status = Turn_cancelled then ''Stopped. The turn is saved and will not resume automatically.''
      else ''Work stopped: '' @ reason @ ''. The turn is saved.'')"

definition closed_record ::
  "abort_reason option \<Rightarrow> turn_status \<Rightarrow> string \<Rightarrow> run_result option \<Rightarrow> logical_turn \<Rightarrow> logical_turn" where
  "closed_record abort status reason final r =
     (let reply = (case final of None \<Rightarrow> tl_reply r | Some f \<Rightarrow> Some (reply_text f)) in
      r\<lparr>tl_status := status,
        tl_cancellation := (if status = Turn_cancelled then Some (cancellation_source abort) else tl_cancellation r),
        tl_finish := Some reason,
        tl_reply := (if (reply = None \<or> reply = Some []) \<and> status \<noteq> Turn_completed
                     then Some (closing_reply status reason) else reply)\<rparr>)"

definition finish_turn ::
  "'w turn_env \<Rightarrow> turn_status \<Rightarrow> string \<Rightarrow> run_result option \<Rightarrow> result_code option \<Rightarrow> ('w, 'a) turn_act" where
  "finish_turn e status reason final code =
     then_do (read_abort e) (\<lambda>abort.
     then_do (update_record (closed_record abort status reason final)) (\<lambda>_.
     then_do (save_record e) (\<lambda>_.
     then_do get_record (\<lambda>r.
     then_do (send_trace e Logical_turn_end (cn_segments (tl_counters r)) (Some reason) (Some status)) (\<lambda>_.
     then_do get_record (\<lambda>r.
     then_do (fire_terminal_stop e) (\<lambda>_.
       give \<lparr>tr_id = tl_id r, tr_status = status, tr_code = code, tr_active = tl_active r, tr_final = final,
             tr_counters = tl_counters r, tr_finish = reason, tr_reply = value_or (tl_reply r) []\<rparr>)))))))"

definition exhausted_by_deadline :: "'w turn_env \<Rightarrow> run_result option \<Rightarrow> ('w, 'a) turn_act" where
  "exhausted_by_deadline e final =
     then_do (arm_stop Stop_deadline) (\<lambda>_.
       finish_turn e Turn_exhausted ''deadline'' final (Some Continuation_exhausted))"

definition exhausted_by_limit :: "'w turn_env \<Rightarrow> ('w, 'a) turn_act" where
  "exhausted_by_limit e = finish_turn e Turn_exhausted ''model_call_limit'' None (Some Continuation_exhausted)"

definition cancelled_by_user :: "'w turn_env \<Rightarrow> run_result option \<Rightarrow> ('w, 'a) turn_act" where
  "cancelled_by_user e final =
     then_do (arm_stop Stop_interrupted) (\<lambda>_. finish_turn e Turn_cancelled ''cancelled'' final None)"

definition unsafe_effect :: "'w turn_env \<Rightarrow> run_result option \<Rightarrow> ('w, 'a) turn_act" where
  "unsafe_effect e final = finish_turn e Turn_failed ''unsafe_effect'' final (Some Recovery_unsafe)"

section \<open>Work under the heartbeat\<close>

definition remember_owned_task :: "'w turn_env \<Rightarrow> string \<Rightarrow> ('w, unit) turn_act" where
  "remember_owned_task e i s =
     (if i \<in> set (value_or (tl_owned_tasks (sv_record s)) []) then (Goes (), s)
      else then_do (update_record (\<lambda>r. r\<lparr>tl_owned_tasks := Some (value_or (tl_owned_tasks r) [] @ [i])\<rparr>))
             (\<lambda>_. save_record e) s)"

fun thrown :: "'a flow \<Rightarrow> run_error option" where
  "thrown (Throws e) = Some e"
| "thrown _ = None"

primrec drive :: "'w turn_env \<Rightarrow> ('w, 'a) work \<Rightarrow> ('w, 'a) turn_act" where
  "drive e (Work_ends a w) = (\<lambda>s.
     (if sv_lost s then Throws Lease_loss else Goes a, s\<lparr>sv_world := w\<rparr>))"
| "drive e (Work_beat w k) = (\<lambda>s.
     (case renew_lease e (s\<lparr>sv_world := w\<rparr>) of
        (Goes True, s') \<Rightarrow> drive e (k (sv_world s')) s'
      | (_, s') \<Rightarrow> (Throws Lease_loss, s'\<lparr>sv_lost := True\<rparr>)))"
| "drive e (Work_owns i w k) = (\<lambda>s.
     (case remember_owned_task e i (s\<lparr>sv_world := w\<rparr>) of
        (r, s') \<Rightarrow> drive e (k (thrown r) (sv_world s')) s'))"
| "drive e (Work_displaced w) = (\<lambda>s. (Throws Lease_loss, s\<lparr>sv_world := w, sv_lost := True\<rparr>))"

definition with_heartbeat :: "'w turn_env \<Rightarrow> ('w turn_world \<Rightarrow> ('w, 'a) work) \<Rightarrow> ('w, 'a) turn_act" where
  "with_heartbeat e start s =
     (if sv_lost s then (Throws Lease_loss, s) else drive e (start (sv_world s)) s)"

section \<open>Reading the boundary\<close>

text \<open>The lease is renewed before and after the read.\<close>

definition read_owned_boundary ::
  "'w turn_env \<Rightarrow> (string \<Rightarrow> ('w, 'w boundary) turn_call) \<Rightarrow> ('w, 'w boundary) turn_act" where
  "read_owned_boundary e read =
     then_do (require_lease e) (\<lambda>_. then_do get_record (\<lambda>r.
     then_do (call_host (read (tl_active r))) (\<lambda>b.
     then_do (require_lease e) (\<lambda>_. next_with b))))"

text \<open>The safety bit, and the messages when they are asked for.\<close>

definition read_shared_boundary ::
  "'w turn_env \<Rightarrow> (string \<Rightarrow> ('w, 'w boundary) turn_call) \<Rightarrow> bool \<Rightarrow> ('w, bool \<times> message list option) turn_act" where
  "read_shared_boundary e read include =
     then_do (read_owned_boundary e read) (\<lambda>b.
       if \<not> include then next_with (bd_safe b, None)
       else then_do (call_host (bd_messages b)) (\<lambda>ms. next_with (bd_safe b, Some ms)))"

definition set_messages :: "message list \<Rightarrow> ('w, unit) turn_act" where
  "set_messages ms s = (Goes (), s\<lparr>sv_messages := ms\<rparr>)"

definition set_attempts :: "nat \<Rightarrow> ('w, unit) turn_act" where
  "set_attempts n s = (Goes (), s\<lparr>sv_attempts := n\<rparr>)"

definition turn_at_limit :: "logical_turn \<Rightarrow> bool" where
  "turn_at_limit r \<longleftrightarrow> (case tl_limit r of None \<Rightarrow> False | Some l \<Rightarrow> l \<le> cn_model_calls (tl_counters r))"

definition set_status :: "turn_status \<Rightarrow> ('w, unit) turn_act" where
  "set_status status = update_record (\<lambda>r. r\<lparr>tl_status := status\<rparr>)"

section \<open>One segment\<close>

definition remaining_calls :: "logical_turn \<Rightarrow> nat option" where
  "remaining_calls r = map_option (\<lambda>l. l - cn_model_calls (tl_counters r)) (tl_limit r)"

definition run_one_segment :: "'w turn_env \<Rightarrow> ('w, segment_end) turn_act" where
  "run_one_segment e s =
     (let r = sv_record s;
          input = \<lparr>si_messages = sv_messages s, si_active = tl_active r,
            si_segment = Suc (cn_segments (tl_counters r)), si_continuation = 0 < cn_segments (tl_counters r),
            si_remaining = remaining_calls r\<rparr>
      in then_do (with_heartbeat e (le_segment e input))
           (\<lambda>end s. (Goes end, s\<lparr>sv_stop := se_stop end, sv_used := se_used end\<rparr>))
         (s\<lparr>sv_stop := None, sv_log := sv_log s @ [Did_start input]\<rparr>))"

text \<open>What is thrown out of a segment ends the turn as exhausted or cancelled, or is only passed on.\<close>

definition segment_failed :: "'w turn_env \<Rightarrow> run_error \<Rightarrow> ('w, 'a) turn_act" where
  "segment_failed e err =
     (if err = Lease_loss \<or> err = Storage_fault then throw_error err
      else then_do (deadline_reached e) (\<lambda>over.
        if over then exhausted_by_deadline e None
        else then_do (read_abort e) (\<lambda>abort.
          if abort \<noteq> None then (\<lambda>s.
            (case (cancelled_by_user e None :: ('w, 'a) turn_act) s of
               (Throws x, s') \<Rightarrow> (Throws x, s') | (_, s') \<Rightarrow> (Throws err, s')))
          else throw_error err)))"

definition outcome_of :: "segment_end \<Rightarrow> ('w, segment_end \<times> run_result) turn_act" where
  "outcome_of end = (case se_outcome end of Inl x \<Rightarrow> throw_error x | Inr r \<Rightarrow> next_with (end, r))"

definition logical_turn_recent_pointers :: nat where "logical_turn_recent_pointers = 64"

text \<open>A session that was replaced is kept among the recent ones.\<close>

definition note_session :: "string \<Rightarrow> logical_turn \<Rightarrow> logical_turn" where
  "note_session session r =
     (let previous = tl_active r; r = r\<lparr>tl_active := session\<rparr> in
      if previous \<noteq> session \<and> previous \<notin> set (tl_compacted r)
      then r\<lparr>tl_compacted := keep_last (tl_compacted r @ [previous]) logical_turn_recent_pointers,
             tl_counters := (tl_counters r)\<lparr>cn_context_recoveries := Suc (cn_context_recoveries (tl_counters r))\<rparr>\<rparr>
      else r)"

definition calls_after :: "nat \<Rightarrow> run_result \<Rightarrow> turn_counters \<Rightarrow> nat" where
  "calls_after used result c = max (cn_model_calls c + rn_iterations result) used"

definition count_segment :: "nat \<Rightarrow> run_result \<Rightarrow> turn_counters \<Rightarrow> turn_counters" where
  "count_segment used result c =
     add_run_usage (rn_usage result) (rn_cost result)
       (c\<lparr>cn_segments := Suc (cn_segments c), cn_model_calls := calls_after used result c,
          cn_tool_calls := cn_tool_calls c + rn_tool_calls result\<rparr>)"

definition account_segment :: "turn_options \<Rightarrow> segment_end \<Rightarrow> run_result \<Rightarrow> ('w, unit) turn_act" where
  "account_segment o' end result s =
     (let r = sv_record s;
          r = (if to_task_manager o' then r\<lparr>tl_owned_tasks := Some (se_tasks end)\<rparr> else r);
          r = note_session (rn_session result) r;
          r = r\<lparr>tl_counters := count_segment (sv_used s) result (tl_counters r),
                tl_cause := Some (reason_text (rn_reason result))\<rparr>
      in (Goes (), s\<lparr>sv_record := r, sv_used := cn_model_calls (tl_counters r),
            sv_pending := (case rn_stop result of None \<Rightarrow> sv_pending s | Some i \<Rightarrow> Some (i, None))\<rparr>))"

section \<open>Retry after a transient failure\<close>

definition retry_segment :: "'w turn_env \<Rightarrow> run_result \<Rightarrow> nat \<Rightarrow> rat \<Rightarrow> ('w, unit) turn_act" where
  "retry_segment e result segment wait =
     then_do get_record (\<lambda>r.
     if turn_at_limit r then exhausted_by_limit e
     else then_do (case le_boundary e of
          Some read \<Rightarrow> read_shared_boundary e read True
        | None \<Rightarrow> then_do (call_host (le_recovery_safe e (tl_active r))) (\<lambda>safe. next_with (safe, None)))
       (\<lambda>(safe, retry_messages).
     if \<not> safe then unsafe_effect e (Some result)
     else then_do (\<lambda>s. set_attempts (Suc (sv_attempts s)) s) (\<lambda>_.
     then_do (update_counters (\<lambda>c. c\<lparr>cn_provider_retries := Suc (cn_provider_retries c)\<rparr>)) (\<lambda>_.
     then_do (save_record e) (\<lambda>_.
     then_do (send_trace e Provider_retry segment
         (Some (case rn_error result of None \<Rightarrow> ''transient_provider'' | Some x \<Rightarrow> run_error_name x)) None) (\<lambda>_.
     then_do (with_heartbeat e (le_sleep e wait)) (\<lambda>_.
     then_do (deadline_reached e) (\<lambda>over.
     if over then exhausted_by_deadline e None
     else then_do (read_abort e) (\<lambda>abort.
     if abort \<noteq> None then cancelled_by_user e None
     else (case retry_messages of
         Some ms \<Rightarrow> set_messages ms
       | None \<Rightarrow> then_do get_record (\<lambda>r. then_do (call_host (le_rehydrate e (tl_active r))) set_messages)))))))))))"

definition after_error :: "'w turn_env \<Rightarrow> run_result \<Rightarrow> nat \<Rightarrow> ('w, unit) turn_act" where
  "after_error e result segment s =
     (case transient_base (le_number e) (rn_error result) (sv_attempts s) (has_committed_output result) of
        None \<Rightarrow> finish_turn e Turn_failed ''failed'' (Some result) None s
      | Some base \<Rightarrow>
          then_do (read_random e) (\<lambda>x s.
            if 2 \<le> sv_attempts s then finish_turn e Turn_failed ''failed'' (Some result) None s
            else retry_segment e result segment (with_jitter x base) s) s)"

section \<open>Continuation\<close>

definition continue_text :: string where
  "continue_text =
     ''Continue the interrupted answer without repeating text already saved. Do not start a new task.''"

text \<open>Whether the turn makes progress: the fingerprint of what is stored, compared with the last one.\<close>

definition note_progress :: "string \<Rightarrow> bool \<Rightarrow> logical_turn \<Rightarrow> logical_turn" where
  "note_progress fingerprint same_cause r =
     r\<lparr>tl_no_progress := (if tl_fingerprint r = Some fingerprint \<and> same_cause then Suc (tl_no_progress r) else 0),
       tl_fingerprint := Some fingerprint\<rparr>"

definition mark_output_cut :: "'w turn_env \<Rightarrow> nat \<Rightarrow> ('w, unit) turn_act" where
  "mark_output_cut e segment =
     then_do get_record (\<lambda>r.
       let i = tl_id r @ '':output:'' @ nat_to_string segment in
       if i \<in> set (tl_continuations r) then next_with ()
       else then_do (case le_persist_continuation e of
            None \<Rightarrow> next_with () | Some f \<Rightarrow> call_host (f (tl_active r) i))
          (\<lambda>_. update_record (\<lambda>r. r\<lparr>tl_continuations :=
             keep_last (tl_continuations r @ [i]) logical_turn_recent_pointers\<rparr>)))"

definition tell_continuing :: "'w turn_env \<Rightarrow> end_reason \<Rightarrow> nat \<Rightarrow> ('w, unit) turn_act" where
  "tell_continuing e cause segment =
     (case le_continuing e of
        None \<Rightarrow> next_with ()
      | Some f \<Rightarrow> then_do get_record (\<lambda>r. call_host (f
          \<lparr>cu_id = tl_id r, cu_session = tl_session r, cu_active = tl_active r, cu_cause = reason_text cause,
           cu_segment = segment, cu_counters = tl_counters r, cu_limit = tl_limit r,
           cu_deadline = tl_deadline r\<rparr>)))"

text \<open>What the boundary says: safe, progress facts, and how to get the messages.\<close>

definition continuation_boundary ::
  "'w turn_env \<Rightarrow> ('w, bool \<times> (('w, json option) turn_act) \<times> ('w, message list) turn_act) turn_act" where
  "continuation_boundary e =
     (case le_boundary e of
        Some read \<Rightarrow> then_do (read_owned_boundary e read) (\<lambda>b.
          next_with (bd_safe b, next_with (bd_progress b), call_host (bd_messages b)))
      | None \<Rightarrow> then_do (require_lease e) (\<lambda>_. then_do get_record (\<lambda>r.
          then_do (call_host (le_recovery_safe e (tl_active r))) (\<lambda>safe.
            next_with (safe,
              (case le_progress e of
                 None \<Rightarrow> next_with None | Some f \<Rightarrow> then_do get_record (\<lambda>r. call_host (f (tl_active r)))),
              then_do get_record (\<lambda>r. call_host (le_rehydrate e (tl_active r))))))))"

definition lift_sum :: "run_error + 'a \<Rightarrow> ('w, 'a) turn_act" where
  "lift_sum r = (case r of Inl x \<Rightarrow> throw_error x | Inr y \<Rightarrow> next_with y)"

definition content_json :: "'w turn_env \<Rightarrow> run_result \<Rightarrow> json" where
  "content_json e result = JArray (map (le_block e) (value_or (rn_final result) []))"

definition fingerprint_of ::
  "'w turn_env \<Rightarrow> json option \<Rightarrow> message list \<Rightarrow> run_result \<Rightarrow> run_error + string" where
  "fingerprint_of e supplied hydrated result =
     progress_fingerprint (le_sha256 e) (le_compare e) (le_parse e) (progress_facts_of supplied) hydrated
       (rn_reason result) (length (reply_text result))
       (digest (le_sha256 e) (le_compare e) (content_json e result))"

definition continue_turn :: "'w turn_env \<Rightarrow> run_result \<Rightarrow> nat \<Rightarrow> bool \<Rightarrow> ('w, unit) turn_act" where
  "continue_turn e result segment same_cause =
     then_do get_record (\<lambda>r.
     if turn_at_limit r then exhausted_by_limit e
     else then_do (set_attempts 0) (\<lambda>_.
     then_do (continuation_boundary e) (\<lambda>(safe, facts, load).
     if \<not> safe then unsafe_effect e (Some result)
     else then_do facts (\<lambda>supplied.
     then_do load (\<lambda>hydrated.
     then_do (lift_sum (fingerprint_of e supplied hydrated result)) (\<lambda>fingerprint.
     then_do (require_lease e) (\<lambda>_.
     then_do (update_record (note_progress fingerprint same_cause)) (\<lambda>_.
     then_do get_record (\<lambda>r.
     if 2 \<le> tl_no_progress r
     then finish_turn e Turn_stalled (''repeated:'' @ repeated_action result) (Some result)
            (Some Continuation_stalled)
     else then_do (if rn_reason result = End_max_tokens then mark_output_cut e segment else next_with ()) (\<lambda>_.
     then_do (set_status Turn_continuing) (\<lambda>_.
     then_do (save_record e) (\<lambda>_.
     then_do (send_trace e Recovery_start segment (Some (reason_text (rn_reason result))) None) (\<lambda>_.
     then_do (tell_continuing e (rn_reason result) segment) (\<lambda>_.
     then_do load (\<lambda>ms.
     then_do (set_messages ms) (\<lambda>_.
     then_do (set_status Turn_running) (\<lambda>_.
     then_do (save_record e) (\<lambda>_.
       send_trace e Recovery_end segment (Some (reason_text (rn_reason result))) None))))))))))))))))))"

section \<open>The loop\<close>

definition after_segment ::
  "'w turn_env \<Rightarrow> turn_options \<Rightarrow> nat \<Rightarrow> segment_end \<Rightarrow> run_result \<Rightarrow> ('w, unit) turn_act" where
  "after_segment e o' segment end result =
     then_do get_record (\<lambda>before.
     then_do (account_segment o' end result) (\<lambda>_.
     then_do (send_trace e Segment_end segment (Some (reason_text (rn_reason result))) None) (\<lambda>_.
     if rn_reason result = End_completed then finish_turn e Turn_completed ''completed'' (Some result) None
     else if rn_reason result = End_checkin then finish_turn e Turn_waiting_user ''checkin'' (Some result) None
     else then_do (deadline_reached e) (\<lambda>over.
     if over then exhausted_by_deadline e (Some result)
     else then_do (read_abort e) (\<lambda>abort.
     if rn_reason result = End_interrupted \<or> abort \<noteq> None then cancelled_by_user e (Some result)
     else if rn_reason result = End_error then after_error e result segment
     else continue_turn e result segment (tl_cause before = Some (reason_text (rn_reason result))))))))"

text \<open>One turn of the loop.\<close>

definition loop_step :: "'w turn_env \<Rightarrow> turn_options \<Rightarrow> ('w, unit) turn_act" where
  "loop_step e o' =
     then_do (deadline_reached e) (\<lambda>over.
     if over then exhausted_by_deadline e None
     else then_do (read_abort e) (\<lambda>abort.
     if abort \<noteq> None then cancelled_by_user e None
     else then_do get_record (\<lambda>r.
     if turn_at_limit r then exhausted_by_limit e
     else let segment = Suc (cn_segments (tl_counters r)) in
     then_do (require_lease e) (\<lambda>_.
     then_do (send_trace e Segment_start segment None None) (\<lambda>_.
     then_do (handle (then_do (run_one_segment e) outcome_of) (segment_failed e)) (\<lambda>(end, result).
       after_segment e o' segment end result))))))"

partial_function (option) run_loop ::
  "'w turn_env \<Rightarrow> turn_options \<Rightarrow> 'w turn_state \<Rightarrow> ((run_error + turn_result) \<times> 'w turn_state) option" where
  "run_loop e o' s =
     (case loop_step e o' s of
        (Goes _, s') \<Rightarrow> run_loop e o' s'
      | (Returns r, s') \<Rightarrow> Some (Inr r, s')
      | (Throws x, s') \<Rightarrow> Some (Inl x, s'))"

section \<open>Admission\<close>

definition new_turn :: "'w turn_env \<Rightarrow> turn_options \<Rightarrow> string \<Rightarrow> rat \<Rightarrow> logical_turn" where
  "new_turn e o' i created =
     \<lparr>tl_version = 2, tl_origin = Some (value_or (to_origin o') Origin_owner), tl_migrations = [],
      tl_cancellation = None, tl_owned_tasks = None, tl_id = i, tl_user_message = to_user_message o',
      tl_session = to_session o', tl_active = value_or (to_active o') (to_session o'), tl_compacted = [],
      tl_binding = to_binding o', tl_digest = turn_digest e (to_binding o'),
      tl_limit = map_option number_to_nat (to_limit o'), tl_deadline = to_deadline o',
      tl_status = Turn_admitted, tl_cause = None, tl_fingerprint = None, tl_no_progress = 0,
      tl_continuations = [], tl_reply = None, tl_finish = None, tl_counters = empty_counters,
      tl_created = created, tl_updated = created\<rparr>"

definition valid_call_limit :: "js_number option \<Rightarrow> bool" where
  "valid_call_limit l \<longleftrightarrow> pred_option (\<lambda>n. is_safe_integer n \<and> js_less (Num 0) n) l"

definition invalid_limit :: run_error where
  "invalid_limit = Other_error \<lparr>el_name = ''RangeError'', el_code = None,
     el_message = ''logicalModelCallLimit must be a positive safe integer or null''\<rparr> []"

definition start_state :: "'w turn_env \<Rightarrow> turn_options \<Rightarrow> 'w turn_world \<Rightarrow> 'w turn_state" where
  "start_state e o' w =
     \<lparr>sv_world = w, sv_log = [], sv_owner = [], sv_started = 0, sv_record = new_turn e o' [] 0, sv_used = 0,
      sv_lost = False, sv_stop = None, sv_pending = None, sv_messages = [], sv_attempts = 0, sv_leased = False\<rparr>"

definition fresh_id :: "'w turn_env \<Rightarrow> ('w, string) turn_act" where
  "fresh_id e s =
     (let (i, h) = le_uuid e (snd (sv_world s)) in (Goes i, s\<lparr>sv_world := (fst (sv_world s), h)\<rparr>))"

text \<open>A record that must not run gives its result; any other becomes the record of the supervisor.\<close>

definition take_record :: "'w turn_env \<Rightarrow> turn_options \<Rightarrow> logical_turn \<Rightarrow> ('w, unit) turn_act" where
  "take_record e o' r =
     (if tl_digest r \<noteq> turn_digest e (to_binding o') then give (invalid_result (tl_id r) (tl_active r))
      else case settled_result r of
        Some result \<Rightarrow> give result
      | None \<Rightarrow> update_record (\<lambda>_. r))"

definition create_turn :: "'w turn_env \<Rightarrow> turn_options \<Rightarrow> ('w, unit) turn_act" where
  "create_turn e o' =
     then_do (read_clock e) (\<lambda>created.
     then_do (case truthy_string (to_allocated o') of Some i \<Rightarrow> next_with i | None \<Rightarrow> fresh_id e) (\<lambda>i s.
       let r = new_turn e o' i created in
       case create_logical_turn r (fst (sv_world s)) of
         Inl x \<Rightarrow> (Throws (of_store_error x), s)
       | Inr st \<Rightarrow> (Goes (), s\<lparr>sv_record := r, sv_world := (st, snd (sv_world s))\<rparr>)))"

definition admit_turn :: "'w turn_env \<Rightarrow> turn_options \<Rightarrow> ('w, unit) turn_act" where
  "admit_turn e o' =
     (if \<not> valid_call_limit (to_limit o') then throw_error invalid_limit
      else then_do (read_clock e) (\<lambda>now.
      then_do (\<lambda>s. (Goes (), s\<lparr>sv_started := now\<rparr>)) (\<lambda>_.
      then_do (case truthy_string (to_turn o') of
          None \<Rightarrow> create_turn e o'
        | Some i \<Rightarrow> (\<lambda>s.
            case load_logical_turn i (fst (sv_world s)) of
              None \<Rightarrow> (Returns (invalid_result i (to_session o')), s)
            | Some r \<Rightarrow> take_record e o' r s)) (\<lambda>_.
      then_do (fresh_id e) (\<lambda>owner s.
        (Goes (), s\<lparr>sv_owner := owner, sv_used := cn_model_calls (tl_counters (sv_record s))\<rparr>))))))"

text \<open>Somebody else's lease that has not expired ends the attempt before the store is asked.\<close>

definition check_active_lease :: "'w turn_env \<Rightarrow> ('w, unit) turn_act" where
  "check_active_lease e s =
     (case read_logical_turn_lease (tl_id (sv_record s)) (fst (sv_world s)) of
        Some (Some l) \<Rightarrow>
          (if ls_owner l \<noteq> [] \<and> ls_owner l \<noteq> sv_owner s
           then then_do (read_clock e) (\<lambda>now. if now < ls_expires l then throw_error Lease_loss else next_with ()) s
           else (Goes (), s))
      | _ \<Rightarrow> (Goes (), s))"

definition acquire_lease :: "'w turn_env \<Rightarrow> ('w, unit) turn_act" where
  "acquire_lease e =
     then_do (read_clock e) (\<lambda>t. then_do (read_clock e) (\<lambda>now s.
       let (ok, st) = acquire_logical_turn_lease (tl_id (sv_record s)) (sv_owner s) (t + logical_turn_lease_ms) now
             (fst (sv_world s));
           s' = s\<lparr>sv_world := (st, snd (sv_world s))\<rparr>
       in if ok then (Goes (), s'\<lparr>sv_leased := True\<rparr>) else (Throws Lease_loss, s')))"

definition reload_record :: "'w turn_env \<Rightarrow> turn_options \<Rightarrow> ('w, unit) turn_act" where
  "reload_record e o' s =
     (case load_logical_turn (tl_id (sv_record s)) (fst (sv_world s)) of
        None \<Rightarrow> (Returns (invalid_result (tl_id (sv_record s)) (tl_active (sv_record s))), s)
      | Some r \<Rightarrow> take_record e o' r s)"

definition prepare_failed :: "'w turn_env \<Rightarrow> run_error \<Rightarrow> ('w, 'a) turn_act" where
  "prepare_failed e err =
     (if err = Lease_loss \<or> err = Storage_fault then throw_error err
      else then_do (deadline_reached e) (\<lambda>over.
        if over then exhausted_by_deadline e None else throw_error err))"

definition prepare_turn :: "'w turn_env \<Rightarrow> ('w, unit) turn_act" where
  "prepare_turn e =
     (case le_prepare e of
        None \<Rightarrow> next_with ()
      | Some start \<Rightarrow> handle (then_do (with_heartbeat e start) lift_sum) (prepare_failed e))"

text \<open>From the lease to the first segment.\<close>

definition open_turn :: "'w turn_env \<Rightarrow> turn_options \<Rightarrow> ('w, unit) turn_act" where
  "open_turn e o' =
     then_do (check_active_lease e) (\<lambda>_.
     then_do get_record (\<lambda>r.
     then_do (if to_turn o' \<noteq> None \<and> le_boundary e = None
         then call_host (le_recovery_safe e (tl_active r)) else next_with True) (\<lambda>safe_before.
     then_do (acquire_lease e) (\<lambda>_.
     then_do (reload_record e o') (\<lambda>_.
     then_do get_record (\<lambda>r.
     then_do (case (to_turn o', le_boundary e) of
         (Some _, Some read) \<Rightarrow> read_shared_boundary e read (0 < cn_segments (tl_counters r))
       | _ \<Rightarrow> next_with (safe_before, None)) (\<lambda>(safe, resumed).
     if \<not> safe then unsafe_effect e None
     else then_do (set_status Turn_running) (\<lambda>_.
     then_do (save_record e) (\<lambda>_.
     then_do (deadline_reached e) (\<lambda>over.
     if over then exhausted_by_deadline e None
     else then_do get_record (\<lambda>r.
     if turn_at_limit r then exhausted_by_limit e
     else then_do (prepare_turn e) (\<lambda>_.
     then_do get_record (\<lambda>r.
     then_do (send_trace e Logical_turn_start (cn_segments (tl_counters r)) None None) (\<lambda>_.
     then_do get_record (\<lambda>r.
     if cn_segments (tl_counters r) = 0 then set_messages (to_messages o')
     else case resumed of
       Some ms \<Rightarrow> set_messages ms
     | None \<Rightarrow> then_do (call_host (le_rehydrate e (tl_active r))) set_messages)))))))))))))))"

definition release_lease :: "'w turn_state \<Rightarrow> 'w turn_state" where
  "release_lease s =
     (if sv_leased s
      then s\<lparr>sv_world := (release_logical_turn_lease (tl_id (sv_record s)) (sv_owner s) (fst (sv_world s)),
               snd (sv_world s))\<rparr>
      else s)"

definition supervise_logical_turn ::
  "'w turn_env \<Rightarrow> turn_options \<Rightarrow> 'w turn_world \<Rightarrow> ((run_error + turn_result) \<times> 'w turn_state) option" where
  "supervise_logical_turn e o' w =
     (case then_do (admit_turn e o') (\<lambda>_. open_turn e o') (start_state e o' w) of
        (Returns r, s) \<Rightarrow> Some (Inr r, release_lease s)
      | (Throws x, s) \<Rightarrow> Some (Inl x, release_lease s)
      | (Goes _, s) \<Rightarrow> map_option (\<lambda>(r, s'). (r, release_lease s')) (run_loop e o' s))"

section \<open>Policy migration\<close>

text \<open>\<open>migrateLogicalTurnPolicy\<close>: an explicit change of the limit of a stored turn, under its lease.\<close>

definition migrated_turn :: "rat \<Rightarrow> nat option \<Rightarrow> policy_origin \<Rightarrow> string \<Rightarrow> logical_turn \<Rightarrow> logical_turn" where
  "migrated_turn at' limit origin reason r =
     r\<lparr>tl_version := 2, tl_origin := Some origin, tl_limit := limit,
       tl_migrations := tl_migrations r @ [\<lparr>mg_at = at', mg_from = tl_version r, mg_limit = tl_limit r,
         mg_deadline = tl_deadline r, mg_reason = reason\<rparr>],
       tl_updated := at'\<rparr>"

definition turn_status_text :: "turn_status \<Rightarrow> string" where
  "turn_status_text s = (case s of
       Turn_admitted \<Rightarrow> ''admitted'' | Turn_running \<Rightarrow> ''running'' | Turn_continuing \<Rightarrow> ''continuing''
     | Turn_completed \<Rightarrow> ''completed'' | Turn_waiting_user \<Rightarrow> ''waiting_user'' | Turn_cancelled \<Rightarrow> ''cancelled''
     | Turn_failed \<Rightarrow> ''failed'' | Turn_exhausted \<Rightarrow> ''exhausted'' | Turn_stalled \<Rightarrow> ''stalled'')"

definition migrate_leased ::
  "'w turn_env \<Rightarrow> string \<Rightarrow> turn_binding \<Rightarrow> nat option \<Rightarrow> policy_origin \<Rightarrow> string \<Rightarrow> rat \<Rightarrow> string
   \<Rightarrow> ('w, logical_turn) turn_call" where
  "migrate_leased e i binding limit origin reason at' owner w =
     (case load_logical_turn i (fst w) of
        None \<Rightarrow> (Inl (plain_error ''policy migration binding mismatch''), w)
      | Some r \<Rightarrow>
          (if tl_digest r \<noteq> turn_digest e binding
           then (Inl (plain_error ''policy migration binding mismatch''), w)
           else if tl_status r \<in> {Turn_cancelled, Turn_completed, Turn_waiting_user}
           then (Inl (plain_error (''policy migration cannot reopen '' @ turn_status_text (tl_status r) @ '' work'')), w)
           else case le_recovery_safe e (tl_active r) w of
             (Inl x, w') \<Rightarrow> (Inl x, w')
           | (Inr False, w') \<Rightarrow> (Inl (plain_error ''policy migration blocked by unsafe receipts or transcript''), w')
           | (Inr True, w') \<Rightarrow>
               (let m = migrated_turn at' limit origin reason r in
                case save_logical_turn m owner (fst w') of
                  Inl x \<Rightarrow> (Inl (of_store_error x), w') | Inr st \<Rightarrow> (Inr m, (st, snd w')))))"

definition migrate_logical_turn_policy ::
  "'w turn_env \<Rightarrow> string \<Rightarrow> turn_binding \<Rightarrow> js_number option \<Rightarrow> policy_origin \<Rightarrow> string
   \<Rightarrow> ('w, logical_turn) turn_call" where
  "migrate_logical_turn_policy e i binding limit origin reason w =
     (if \<not> valid_call_limit limit then (Inl invalid_limit, w)
      else if trim reason = [] then (Inl (plain_error ''policy migration requires a recorded reason''), w)
      else
        (let (at', h) = le_now e (snd w); (owner, h) = le_uuid e h;
             (ok, st) = acquire_logical_turn_lease i owner (at' + logical_turn_lease_ms) at' (fst w) in
         if \<not> ok then (Inl Lease_loss, (st, h))
         else
           (let (res, w') = migrate_leased e i binding (map_option number_to_nat limit) origin reason at' owner (st, h)
            in (res, (release_logical_turn_lease i owner (fst w'), snd w')))))"

end
