(* ===== verification/Supervisor_Proofs.thy ===== *)
theory Supervisor_Proofs
  imports Turn_Supervisor
begin

text \<open>
  What holds of every supervised turn, whatever the host and the other owners of the store do: the
  segments start within the limits that are stored, the outcome is stored before it is told, the Stop
  hook runs at most once and last, a settled turn is not run again, and a turn with a limit ends.
  The rules of a small Hoare logic with three exits are proved once, in a locale.
\<close>

section \<open>Effects in order\<close>

fun last_saved :: "logical_turn option \<Rightarrow> turn_effect list \<Rightarrow> logical_turn option" where
  "last_saved r [] = r"
| "last_saved r (Did_save r' # es) = last_saved (Some r') es"
| "last_saved r (_ # es) = last_saved r es"

text \<open>A segment starts on a record that is stored as running and not at its limit.\<close>

definition start_ok :: "logical_turn option \<Rightarrow> segment_input \<Rightarrow> bool" where
  "start_ok saved i \<longleftrightarrow>
     (case saved of
        None \<Rightarrow> False
      | Some r \<Rightarrow> tl_status r = Turn_running \<and> \<not> turn_at_limit r
          \<and> si_segment i = Suc (cn_segments (tl_counters r)) \<and> si_remaining i = remaining_calls r)"

fun runs_ok :: "logical_turn option \<Rightarrow> turn_effect list \<Rightarrow> bool" where
  "runs_ok r [] = True"
| "runs_ok r (Did_save r' # es) = runs_ok (Some r') es"
| "runs_ok r (Did_start i # es) = (start_ok r i \<and> runs_ok r es)"
| "runs_ok r (Did_stop _ _ # es) = (es = [])"

fun is_stop_effect :: "turn_effect \<Rightarrow> bool" where
  "is_stop_effect (Did_stop _ _) = True"
| "is_stop_effect _ = False"

lemma last_saved_append: "last_saved r (es @ fs) = last_saved (last_saved r es) fs"
  by (induction r es rule: last_saved.induct) simp_all

lemma runs_ok_append:
  "\<not> list_ex is_stop_effect es \<Longrightarrow> runs_ok r (es @ fs) = (runs_ok r es \<and> runs_ok (last_saved r es) fs)"
  by (induction r es rule: runs_ok.induct) simp_all

section \<open>Rules\<close>

text \<open>Two records that the limits do not tell apart.\<close>

definition alike :: "logical_turn \<Rightarrow> logical_turn \<Rightarrow> bool" where
  "alike r r' \<longleftrightarrow> tl_limit r' = tl_limit r \<and> tl_counters r' = tl_counters r \<and> tl_status r' = tl_status r"

lemma alike_refl [simp]: "alike r r"
  by (simp add: alike_def)

lemma alike_update [simp]:
  "alike r (r\<lparr>tl_updated := t\<rparr>)" "alike r (r\<lparr>tl_owned_tasks := ts\<rparr>)"
  "alike r (r\<lparr>tl_owned_tasks := ts, tl_updated := t\<rparr>)"
  by (simp_all add: alike_def)

type_synonym turn_pred = "turn_effect list \<Rightarrow> logical_turn \<Rightarrow> bool"

definition ends_ok ::
  "(turn_result \<Rightarrow> turn_effect list \<Rightarrow> bool) \<Rightarrow> (turn_effect list \<Rightarrow> bool) \<Rightarrow> ('a \<Rightarrow> turn_pred)
   \<Rightarrow> 'a flow \<times> 'w turn_state \<Rightarrow> bool" where
  "ends_ok R X q o' =
     (case o' of
        (Goes x, s') \<Rightarrow> q x (sv_log s') (sv_record s')
      | (Returns r, s') \<Rightarrow> R r (sv_log s')
      | (Throws x, s') \<Rightarrow> X (sv_log s'))"

lemma ends_ok_simps [simp]:
  "ends_ok R X q (Goes x, s) = q x (sv_log s) (sv_record s)"
  "ends_ok R X q (Returns r, s) = R r (sv_log s)" "ends_ok R X q (Throws e, s) = X (sv_log s)"
  by (simp_all add: ends_ok_def)

definition leads ::
  "(turn_result \<Rightarrow> turn_effect list \<Rightarrow> bool) \<Rightarrow> (turn_effect list \<Rightarrow> bool) \<Rightarrow> turn_pred
   \<Rightarrow> ('w, 'a) turn_act \<Rightarrow> ('a \<Rightarrow> turn_pred) \<Rightarrow> bool" where
  "leads R X p m q \<longleftrightarrow>
     (\<forall>s. p (sv_log s) (sv_record s) \<longrightarrow> ends_ok R X q (m s))"

lemma leads_bind:
  assumes m: "leads R X p m q" and f: "\<And>x. leads R X (q x) (f x) q'"
  shows "leads R X p (then_do m f) q'"
  unfolding leads_def
proof (intro allI impI)
  fix s :: "'a turn_state"
  assume "p (sv_log s) (sv_record s)"
  then have ms: "ends_ok R X q (m s)" using m by (simp add: leads_def)
  obtain a s' where a: "m s = (a, s')" by force
  show "ends_ok R X q' (then_do m f s)"
    using ms f by (cases a) (simp_all add: a then_do_def leads_def)
qed

lemma leads_weaken:
  assumes m: "leads R X p m q" and "\<And>l r. p' l r \<Longrightarrow> p l r" "\<And>x l r. q x l r \<Longrightarrow> q' x l r"
  shows "leads R X p' m q'"
  unfolding leads_def
proof (intro allI impI)
  fix s :: "'a turn_state"
  assume "p' (sv_log s) (sv_record s)"
  then have "ends_ok R X q (m s)" using m assms(2) by (simp add: leads_def)
  moreover obtain a s' where "m s = (a, s')" by force
  ultimately show "ends_ok R X q' (m s)" using assms(3) by (cases a) simp_all
qed

lemma leads_handle:
  assumes m: "leads R Y p m q" and h: "\<And>x. leads R X (\<lambda>l r. Y l) (h x) q"
  shows "leads R X p (handle m h) q"
  unfolding leads_def
proof (intro allI impI)
  fix s :: "'a turn_state"
  assume "p (sv_log s) (sv_record s)"
  then have "ends_ok R Y q (m s)" using m by (simp add: leads_def)
  moreover obtain a s' where "m s = (a, s')" by force
  ultimately show "ends_ok R X q (handle m h s)" using h by (cases a) (simp_all add: handle_def leads_def)
qed

text \<open>An action that touches neither log nor record and always goes on.\<close>

definition silent_act :: "('w, 'a) turn_act \<Rightarrow> bool" where
  "silent_act m \<longleftrightarrow> (\<forall>s. \<exists>x s'. m s = (Goes x, s') \<and> sv_log s' = sv_log s \<and> sv_record s' = sv_record s)"

lemma silentD:
  "silent_act m \<Longrightarrow> \<exists>x s'. m s = (Goes x, s') \<and> sv_log s' = sv_log s \<and> sv_record s' = sv_record s"
  unfolding silent_act_def by blast

lemma silent_leads:
  assumes "silent_act m"
  shows "leads R X p m (\<lambda>_. p)"
  unfolding leads_def
proof (intro allI impI)
  fix s :: "'a turn_state"
  assume "p (sv_log s) (sv_record s)"
  then show "ends_ok R X (\<lambda>_. p) (m s)" using silentD[OF assms, of s] by force
qed

lemma silent_bind: "silent_act m \<Longrightarrow> (\<And>x. silent_act (f x)) \<Longrightarrow> silent_act (then_do m f)"
  unfolding silent_act_def
proof
  fix s
  assume m: "\<forall>s. \<exists>x s'. m s = (Goes x, s') \<and> sv_log s' = sv_log s \<and> sv_record s' = sv_record s"
    and f: "\<And>x. \<forall>s. \<exists>y s'. f x s = (Goes y, s') \<and> sv_log s' = sv_log s \<and> sv_record s' = sv_record s"
  obtain x s1 where 1: "m s = (Goes x, s1)" "sv_log s1 = sv_log s" "sv_record s1 = sv_record s" using m by blast
  obtain y s2 where "f x s1 = (Goes y, s2)" "sv_log s2 = sv_log s1" "sv_record s2 = sv_record s1" using f by blast
  with 1 show "\<exists>y s'. then_do m f s = (Goes y, s') \<and> sv_log s' = sv_log s \<and> sv_record s' = sv_record s"
    by (simp add: then_do_def)
qed

lemma silent_acts [simp, intro]:
  "silent_act (next_with x)" "silent_act (read_clock e)" "silent_act (read_random e)" "silent_act (read_abort e)"
  "silent_act (fresh_id e)" "silent_act (set_messages ms)" "silent_act (set_attempts n)" "silent_act (arm_stop c)"
  "silent_act get_record"
  by (simp_all add: silent_act_def next_with_def read_clock_def read_random_def read_abort_def fresh_id_def
      set_messages_def set_attempts_def arm_stop_def get_record_def split: prod.split)

lemma silent_attempt [intro]: "silent_act (\<lambda>s. set_attempts (f s) s)"
  by (simp add: silent_act_def set_attempts_def)

lemma silent_renew [intro]: "silent_act (renew_lease e)"
  unfolding renew_lease_def
  by (rule silent_bind[OF silent_acts(2)]) (simp add: silent_act_def Let_def split: prod.split)

lemma silent_deadline [intro]: "silent_act (deadline_reached e)"
  unfolding deadline_reached_def by (intro silent_bind silent_acts) (simp add: silent_act_def)

lemma require_lease_cases:
  assumes "require_lease e s = (r, s')"
  shows "sv_log s' = sv_log s \<and> sv_record s' = sv_record s \<and> (r = Goes () \<or> r = Throws Lease_loss)"
proof -
  obtain b t where "renew_lease e s = (Goes b, t)" "sv_log t = sv_log s" "sv_record t = sv_record s"
    using silentD[OF silent_renew] by blast
  then show ?thesis
    using assms by (cases b) (auto simp: require_lease_def then_do_def next_with_def throw_error_def)
qed

lemma save_cases:
  assumes "save_record e s = (r, s')"
  shows "(\<exists>x. sv_log s' = sv_log s \<and> alike (sv_record s) (sv_record s') \<and> r = Throws x)
    \<or> (\<exists>t. sv_record s' = (sv_record s)\<lparr>tl_updated := t\<rparr> \<and> sv_log s' = sv_log s @ [Did_save (sv_record s')]
          \<and> r = Goes ())"
proof -
  obtain a u where a: "require_lease e s = (a, u)" by force
  note lease = require_lease_cases[OF a]
  obtain now v where now: "read_clock e u = (Goes now, v)" "sv_log v = sv_log u" "sv_record v = sv_record u"
    using silentD[OF silent_acts(2)] by blast
  show ?thesis
  proof (cases "a = Goes ()")
    case True
    then show ?thesis
      using assms a lease now by (auto simp: save_record_def then_do_def Let_def alike_def split: sum.splits)
  next
    case False
    then have "r = Throws Lease_loss \<and> s' = u" using assms a lease by (auto simp: save_record_def then_do_def)
    then show ?thesis using lease by simp
  qed
qed

lemma remember_cases:
  assumes "remember_owned_task e i s = (r, s')"
  shows "(sv_log s' = sv_log s \<or> sv_log s' = sv_log s @ [Did_save (sv_record s')])
    \<and> alike (sv_record s) (sv_record s')"
proof (cases "i \<in> set (value_or (tl_owned_tasks (sv_record s)) [])")
  case True
  then show ?thesis using assms by (simp add: remember_owned_task_def)
next
  case False
  let ?t = "s\<lparr>sv_record := (sv_record s)\<lparr>tl_owned_tasks := Some (value_or (tl_owned_tasks (sv_record s)) [] @ [i])\<rparr>\<rparr>"
  have "save_record e ?t = (r, s')"
    using assms False by (simp add: remember_owned_task_def then_do_def update_record_def)
  from save_cases[OF this] show ?thesis by (auto simp: alike_def)
qed

text \<open>A record of a turn that did not complete holds a reply to show.\<close>

definition reply_stored :: "logical_turn \<Rightarrow> bool" where
  "reply_stored r \<longleftrightarrow> tl_status r = Turn_completed \<or> value_or (tl_reply r) [] \<noteq> []"

lemma closed_record_reply: "reply_stored (closed_record abort status reason final r)"
  by (cases final) (auto simp: reply_stored_def closed_record_def closing_reply_def value_or_def Let_def
      split: option.split)

text \<open>\<open>good\<close> logs can be followed by an end of the turn.\<close>

locale turn_rules =
  fixes R :: "turn_result \<Rightarrow> turn_effect list \<Rightarrow> bool" and X good :: "turn_effect list \<Rightarrow> bool"
  assumes good_save: "good l \<Longrightarrow> good (l @ [Did_save r])"
    and good_throw: "good l \<Longrightarrow> X l"
    and good_return: "good l \<Longrightarrow> tr_status x = tl_status r \<Longrightarrow> tr_counters x = tl_counters r \<Longrightarrow>
      Some (tr_finish x) = tl_finish r \<Longrightarrow> tr_reply x = value_or (tl_reply r) [] \<Longrightarrow> reply_stored r \<Longrightarrow>
      tr_active x = tl_active r \<Longrightarrow> tr_id x = tl_id r \<Longrightarrow>
      list_all is_stop_effect fired \<Longrightarrow> length fired \<le> 1 \<Longrightarrow> R x (l @ Did_save r # fired)"
begin

abbreviation leads_to :: "turn_pred \<Rightarrow> ('w, 'a) turn_act \<Rightarrow> ('a \<Rightarrow> turn_pred) \<Rightarrow> bool" where
  "leads_to \<equiv> leads R X"

abbreviation keeps :: "turn_pred \<Rightarrow> ('w, 'a) turn_act \<Rightarrow> bool" where
  "keeps p m \<equiv> leads_to p m (\<lambda>_. p)"

definition steady :: "turn_pred \<Rightarrow> bool" where
  "steady p \<longleftrightarrow> (\<forall>l r. p l r \<longrightarrow> good l)
     \<and> (\<forall>l r r'. p l r \<longrightarrow> alike r r' \<longrightarrow> p l r' \<and> p (l @ [Did_save r']) r')"

lemma keeps_bind: "keeps p m \<Longrightarrow> (\<And>x. leads_to p (f x) q) \<Longrightarrow> leads_to p (then_do m f) q"
  by (rule leads_bind)

lemma leads_if: "(b \<Longrightarrow> leads_to p m q) \<Longrightarrow> (\<not> b \<Longrightarrow> leads_to p m' q) \<Longrightarrow> leads_to p (if b then m else m') q"
  by simp

lemma leads_option:
  "leads_to p m q \<Longrightarrow> (\<And>x. leads_to p (f x) q) \<Longrightarrow> leads_to p (case o' of None \<Rightarrow> m | Some x \<Rightarrow> f x) q"
  by (cases o') simp_all

lemma leads_pair: "(\<And>a b. leads_to p (f a b) q) \<Longrightarrow> leads_to p (case x of (a, b) \<Rightarrow> f a b) q"
  by (cases x) simp

lemma leads_at: "(\<And>s0. leads_to p (f s0) q) \<Longrightarrow> leads_to p (\<lambda>s. f s s) q"
  unfolding leads_def by blast

lemma leads_when: "(c \<Longrightarrow> leads_to p m q) \<Longrightarrow> leads_to (\<lambda>l r. p l r \<and> c) m q"
  unfolding leads_def by blast

lemma leads_pre: "leads_to p m q \<Longrightarrow> (\<And>l r. p' l r \<Longrightarrow> p l r) \<Longrightarrow> leads_to p' m q"
  by (rule leads_weaken)

lemma leads_choice: "leads_to p m q \<Longrightarrow> leads_to p m' q \<Longrightarrow> leads_to p (\<lambda>s. if b s then m s else m' s) q"
  unfolding leads_def by simp

lemma leads_next: "(\<And>l r. p l r \<Longrightarrow> q x l r) \<Longrightarrow> leads_to p (next_with x) q"
  by (simp add: leads_def next_with_def)

sublocale fault: turn_rules R good good
proof unfold_locales
  fix l fired and x :: turn_result and r :: logical_turn
  assume "good l" "tr_status x = tl_status r" "tr_counters x = tl_counters r" "Some (tr_finish x) = tl_finish r"
    "tr_reply x = value_or (tl_reply r) []" "reply_stored r" "tr_active x = tl_active r" "tr_id x = tl_id r"
    "list_all is_stop_effect fired" "length fired \<le> 1"
  then show "R x (l @ Did_save r # fired)" by (rule good_return)
qed (rule good_save)

definition harmless :: "turn_pred \<Rightarrow> bool" where
  "harmless p \<longleftrightarrow> (\<forall>l r. p l r \<longrightarrow> good l)"

lemma steady_harmless [intro]: "steady p \<Longrightarrow> harmless p"
  by (simp add: steady_def harmless_def)

lemma steady_throw [intro]: "harmless p \<Longrightarrow> leads_to p (throw_error x) q"
  by (auto simp: leads_def throw_error_def harmless_def intro: good_throw)

lemma steady_next [intro]: "keeps p (next_with x)"
  by (rule silent_leads) simp

lemma steady_call [intro]: "harmless p \<Longrightarrow> keeps p (call_host f)"
  by (auto simp: leads_def call_host_def harmless_def ends_ok_def intro: good_throw split: prod.split sum.split)

lemma steady_lease [intro]: "harmless p \<Longrightarrow> keeps p (require_lease e)"
  unfolding require_lease_def
  by (intro keeps_bind silent_leads[OF silent_renew]) (simp split: if_split add: steady_next steady_throw)

lemma steady_update: "steady p \<Longrightarrow> (\<And>r. alike r (f r)) \<Longrightarrow> keeps p (update_record f)"
  by (auto simp: leads_def update_record_def steady_def)

text \<open>A save of the record as it is, up to its time.\<close>

lemma save_leads:
  assumes p: "\<And>l r. p l r \<Longrightarrow> good l"
    and q: "\<And>l r t. p l r \<Longrightarrow> q (l @ [Did_save (r\<lparr>tl_updated := t\<rparr>)]) (r\<lparr>tl_updated := t\<rparr>)"
  shows "leads_to p (save_record e) (\<lambda>_. q)"
  unfolding leads_def
proof (intro allI impI)
  fix s :: "'a turn_state"
  assume ps: "p (sv_log s) (sv_record s)"
  obtain r s' where r: "save_record e s = (r, s')" by force
  from save_cases[OF r] show "ends_ok R X (\<lambda>_. q) (save_record e s)"
  proof (elim disjE exE conjE)
    fix x
    assume "sv_log s' = sv_log s" "r = Throws x"
    then show ?thesis using good_throw[OF p[OF ps]] r by simp
  next
    fix t
    assume "sv_record s' = (sv_record s)\<lparr>tl_updated := t\<rparr>" "sv_log s' = sv_log s @ [Did_save (sv_record s')]"
      "r = Goes ()"
    then show ?thesis using q[OF ps, of t] r by simp
  qed
qed

lemma steady_save [intro]: "steady p \<Longrightarrow> keeps p (save_record e)"
  by (rule save_leads) (auto simp: steady_def)

lemma steady_trace [intro]:
  assumes p: "harmless p"
  shows "keeps p (send_trace e kind seg cause outcome)"
proof (cases "le_trace e")
  case None
  then show ?thesis by (simp add: send_trace_def steady_next)
next
  case (Some f)
  have "keeps p (\<lambda>s. call_host (g s) s)" for g
    using steady_call[OF p] unfolding leads_def by blast
  then show ?thesis
    unfolding send_trace_def Some option.case by (intro keeps_bind[OF silent_leads[OF silent_acts(2)]])
qed

end

lemma drive_beat:
  assumes "renew_lease e (s\<lparr>sv_world := w\<rparr>) = (r, s')"
  shows "(r = Goes True \<and> drive e (Work_beat w k) s = drive e (k (sv_world s')) s'
      \<or> drive e (Work_beat w k) s = (Throws Lease_loss, s'\<lparr>sv_lost := True\<rparr>))
    \<and> sv_log s' = sv_log s \<and> sv_record s' = sv_record s"
proof -
  obtain b t where bt: "renew_lease e (s\<lparr>sv_world := w\<rparr>) = (Goes b, t)" "sv_log t = sv_log s" "sv_record t = sv_record s"
    using silentD[OF silent_renew, of e "s\<lparr>sv_world := w\<rparr>"] by force
  show ?thesis using bt assms by (cases b) simp_all
qed

context turn_rules
begin

lemma steady_drive:
  assumes p: "steady p"
  shows "keeps p (drive e t)"
proof (induction t)
  case (Work_ends a w)
  then show ?case using p by (auto simp: leads_def steady_def intro: good_throw)
next
  case (Work_beat w k)
  show ?case unfolding leads_def
  proof (intro allI impI)
    fix s :: "'a turn_state"
    assume ps: "p (sv_log s) (sv_record s)"
    obtain r s' where r: "renew_lease e (s\<lparr>sv_world := w\<rparr>) = (r, s')" by force
    note beat = drive_beat[OF r, of k]
    then have ps': "p (sv_log s') (sv_record s')" using ps by simp
    have "X (sv_log s')" using ps' p by (auto simp: steady_def intro: good_throw)
    moreover have "ends_ok R X (\<lambda>_. p) (drive e (k (sv_world s')) s')"
      using Work_beat[of "k (sv_world s')"] ps' by (simp add: leads_def)
    ultimately show "ends_ok R X (\<lambda>_. p) (drive e (Work_beat w k) s)" using beat by auto
  qed
next
  case (Work_owns i w k)
  show ?case unfolding leads_def
  proof (intro allI impI)
    fix s :: "'a turn_state"
    assume ps: "p (sv_log s) (sv_record s)"
    obtain r s' where r: "remember_owned_task e i (s\<lparr>sv_world := w\<rparr>) = (r, s')" by force
    have "p (sv_log s') (sv_record s')"
      using remember_cases[OF r] p ps unfolding steady_def by (auto simp: alike_def)
    then show "ends_ok R X (\<lambda>_. p) (drive e (Work_owns i w k) s)"
      using Work_owns[of "k (thrown r)" "k (thrown r) (sv_world s')"] r by (simp add: leads_def)
  qed
next
  case (Work_displaced w)
  then show ?case using p by (auto simp: leads_def steady_def intro: good_throw)
qed

lemma steady_heartbeat [intro]: "steady p \<Longrightarrow> keeps p (with_heartbeat e start)"
  using steady_drive[of p e] by (auto simp: leads_def with_heartbeat_def steady_def intro: good_throw)

lemma steady_owned_boundary [intro]: "harmless p \<Longrightarrow> keeps p (read_owned_boundary e read)"
  unfolding read_owned_boundary_def
  by (intro keeps_bind steady_lease steady_call steady_next silent_leads[OF silent_acts(9)])

lemma steady_shared_boundary [intro]: "harmless p \<Longrightarrow> keeps p (read_shared_boundary e read include)"
  unfolding read_shared_boundary_def
  by (intro keeps_bind steady_owned_boundary) (auto intro!: keeps_bind)

lemma get_record_leads: "leads_to p get_record (\<lambda>x l r. p l r \<and> r = x)"
  by (simp add: leads_def get_record_def)

lemma finish_leads:
  assumes p: "harmless p"
  shows "leads_to p (finish_turn e status reason final code) q"
proof -
  define p1 :: turn_pred where "p1 = (\<lambda>l r. good l \<and> tl_status r = status \<and> tl_finish r = Some reason
      \<and> reply_stored r)"
  define p2 :: turn_pred where
    "p2 = (\<lambda>l r. \<exists>l0. good l0 \<and> l = l0 @ [Did_save r] \<and> tl_status r = status \<and> tl_finish r = Some reason
      \<and> reply_stored r)"
  have p1: "leads_to p (update_record (closed_record a status reason final)) (\<lambda>_. p1)" for a
    using p closed_record_reply[of a status reason final]
    by (auto simp: leads_def update_record_def p1_def harmless_def) (simp_all add: closed_record_def Let_def)
  have p2: "leads_to p1 (save_record e) (\<lambda>_. p2)"
    by (rule save_leads) (auto simp: p1_def p2_def reply_stored_def)
  have good2: "harmless p2" by (auto simp: harmless_def p2_def intro: good_save)
  have last: "leads_to (\<lambda>l r. p2 l r \<and> r = x) (then_do (fire_terminal_stop e) (\<lambda>_. give
      \<lparr>tr_id = tl_id x, tr_status = status, tr_code = code, tr_active = tl_active x, tr_final = final,
       tr_counters = tl_counters x, tr_finish = reason, tr_reply = value_or (tl_reply x) []\<rparr>)) q" for x
    unfolding leads_def
  proof (intro allI impI, elim conjE)
    fix s :: "'a turn_state"
    assume "p2 (sv_log s) (sv_record s)" and x: "sv_record s = x"
    then obtain l0 where l0: "good l0" "sv_log s = l0 @ [Did_save x]" "tl_status x = status" "tl_finish x = Some reason"
      "reply_stored x"
      by (auto simp: p2_def)
    let ?res = "\<lparr>tr_id = tl_id x, tr_status = status, tr_code = code, tr_active = tl_active x, tr_final = final,
       tr_counters = tl_counters x, tr_finish = reason, tr_reply = value_or (tl_reply x) []\<rparr>"
    have "R ?res (l0 @ Did_save x # fired)" if "list_all is_stop_effect fired" "length fired \<le> 1" for fired
      by (rule good_return[OF l0(1)]) (use that l0 in auto)
    from this[of "[]"] this[of "[Did_stop i c]" for i c]
    show "ends_ok R X q (then_do (fire_terminal_stop e) (\<lambda>_. give ?res) s)"
      using l0 by (auto simp: fire_terminal_stop_def then_do_def give_def split: option.split)
  qed
  show ?thesis
    unfolding finish_turn_def
    by (rule keeps_bind[OF silent_leads[OF silent_acts(4)]], rule leads_bind[OF p1], rule leads_bind[OF p2],
        rule keeps_bind[OF silent_leads[OF silent_acts(9)]], rule keeps_bind[OF steady_trace[OF good2]],
        rule leads_bind[OF get_record_leads last])
qed

lemma ending_leads:
  assumes "harmless p"
  shows "leads_to p (exhausted_by_deadline e final) q" "leads_to p (exhausted_by_limit e) q"
    "leads_to p (cancelled_by_user e final) q" "leads_to p (unsafe_effect e final) q"
  unfolding exhausted_by_deadline_def exhausted_by_limit_def cancelled_by_user_def unsafe_effect_def
  using assms by (auto intro!: finish_leads keeps_bind[OF silent_leads])

end

section \<open>One turn of the loop\<close>

text \<open>Every end of the work satisfies \<open>P\<close>.\<close>

primrec work_ends_in :: "('a \<Rightarrow> bool) \<Rightarrow> ('w, 'a) work \<Rightarrow> bool" where
  "work_ends_in P (Work_ends a w) = P a"
| "work_ends_in P (Work_beat w k) = (\<forall>w'. work_ends_in P (k w'))"
| "work_ends_in P (Work_owns i w k) = (\<forall>x w'. work_ends_in P (k x w'))"
| "work_ends_in P (Work_displaced w) = True"

lemma drive_ends_in: "work_ends_in P t \<Longrightarrow> drive e t s = (Goes a, s') \<Longrightarrow> P a"
proof (induction t arbitrary: s)
  case (Work_beat w k)
  obtain r u where r: "renew_lease e (s\<lparr>sv_world := w\<rparr>) = (r, u)" by force
  from drive_beat[OF r, of k] Work_beat(3) have "drive e (k (sv_world u)) u = (Goes a, s')" by auto
  moreover have "work_ends_in P (k (sv_world u))" using Work_beat(2) by (simp only: work_ends_in.simps)
  ultimately show ?case by (rule Work_beat(1)[OF rangeI, rotated])
next
  case (Work_owns i w k)
  obtain r u where r: "remember_owned_task e i (s\<lparr>sv_world := w\<rparr>) = (r, u)" by force
  then have "drive e (k (thrown r) (sv_world u)) u = (Goes a, s')" using Work_owns(3) by simp
  moreover have "work_ends_in P (k (thrown r) (sv_world u))" using Work_owns(2) by (simp only: work_ends_in.simps)
  ultimately show ?case by (rule Work_owns(1)[OF rangeI rangeI, rotated])
qed (auto split: if_splits)

lemma with_heartbeat_ends_in:
  assumes "\<And>w. work_ends_in P (start w)" "with_heartbeat e start s = (Goes a, s')"
  shows "P a"
proof -
  have "drive e (start (sv_world s)) s = (Goes a, s')" using assms(2) by (simp add: with_heartbeat_def split: if_splits)
  then show ?thesis by (rule drive_ends_in[OF assms(1)])
qed

definition segment_yields :: "(run_result \<Rightarrow> bool) \<Rightarrow> segment_end \<Rightarrow> bool" where
  "segment_yields P x = (case se_outcome x of Inl _ \<Rightarrow> True | Inr r \<Rightarrow> P r)"

text \<open>What is said before a segment (\<open>head\<close>), while it runs (\<open>mid\<close>), once it is counted, and when the
  loop starts again.\<close>

locale supervised = turn_rules R X good for R X good +
  fixes e :: "'w turn_env" and seg_ok :: "run_result \<Rightarrow> bool" and head mid counted again :: turn_pred
  assumes return_throw: "R x l \<Longrightarrow> X l"
    and steady_preds: "steady head" "steady mid" "steady counted" "steady again"
    and segments: "work_ends_in (segment_yields seg_ok) (le_segment e i w)"
    and head_running: "head l r \<Longrightarrow> tl_status r = Turn_running"
    and started: "head l r \<Longrightarrow> \<not> turn_at_limit r \<Longrightarrow> si_segment i = Suc (cn_segments (tl_counters r)) \<Longrightarrow>
      si_remaining i = remaining_calls r \<Longrightarrow> mid (l @ [Did_start i]) r"
    and accounted: "mid l r \<Longrightarrow> seg_ok result \<Longrightarrow> tl_limit r' = tl_limit r \<Longrightarrow>
      cn_model_calls (tl_counters r') = calls_after used result (tl_counters r) \<Longrightarrow> counted l r'"
    and counted_same: "counted l r \<Longrightarrow> tl_limit r' = tl_limit r \<Longrightarrow>
      cn_model_calls (tl_counters r') = cn_model_calls (tl_counters r) \<Longrightarrow> counted l r'"
    and again_saved: "counted l r \<Longrightarrow> tl_status r = Turn_running \<Longrightarrow> again (l @ [Did_save r]) r"
begin

lemma segment_failed_leads:
  assumes p: "harmless p"
  shows "leads_to p (segment_failed e err :: ('w, 'a) turn_act) q"
proof -
  let ?cancel = "cancelled_by_user e None :: ('w, 'a) turn_act"
  have "leads_to p (\<lambda>s. case ?cancel s of (Throws x, s') \<Rightarrow> (Throws x, s') | (_, s') \<Rightarrow> (Throws err, s')) q"
    unfolding leads_def
  proof (intro allI impI)
    fix s :: "'w turn_state"
    assume "p (sv_log s) (sv_record s)"
    moreover have "leads_to p ?cancel (\<lambda>_ _ _. False)" by (rule ending_leads(3)[OF p])
    ultimately have "ends_ok R X (\<lambda>_ _ _. False) (?cancel s)" by (simp only: leads_def)
    moreover obtain a s' where "?cancel s = (a, s')" by force
    ultimately show "ends_ok R X q (case ?cancel s of (Throws x, s') \<Rightarrow> (Throws x, s') | (_, s') \<Rightarrow> (Throws err, s'))"
      by (cases a) (auto intro: return_throw)
  qed
  then show ?thesis
    unfolding segment_failed_def
    by (auto intro!: steady_throw p keeps_bind[OF silent_leads[OF silent_deadline]] ending_leads
        keeps_bind[OF silent_leads[OF silent_acts(4)]])
qed

lemmas harmless_preds = steady_preds[THEN steady_harmless]

abbreviation running :: "turn_pred \<Rightarrow> turn_pred" where
  "running p \<equiv> (\<lambda>l r. p l r \<and> tl_status r = Turn_running)"

lemma steady_running: "steady p \<Longrightarrow> steady (running p)"
  by (auto simp: steady_def alike_def)

lemma counted_update:
  assumes "\<And>r. tl_limit (f r) = tl_limit r" "\<And>r. cn_model_calls (tl_counters (f r)) = cn_model_calls (tl_counters r)"
  shows "keeps counted (update_record f)"
  using assms by (auto simp: leads_def update_record_def intro: counted_same)

lemma run_segment_leads:
  "leads R good (\<lambda>l r. head l r \<and> \<not> turn_at_limit r) (then_do (run_one_segment e) outcome_of)
     (\<lambda>x. \<lambda>l r. running mid l r \<and> seg_ok (snd x))"
  unfolding leads_def
proof (intro allI impI, elim conjE)
  fix s :: "'w turn_state"
  assume h: "head (sv_log s) (sv_record s)" "\<not> turn_at_limit (sv_record s)"
  define i where "i = \<lparr>si_messages = sv_messages s, si_active = tl_active (sv_record s),
      si_segment = Suc (cn_segments (tl_counters (sv_record s))),
      si_continuation = 0 < cn_segments (tl_counters (sv_record s)), si_remaining = remaining_calls (sv_record s)\<rparr>"
  define s1 where "s1 = s\<lparr>sv_stop := None, sv_log := sv_log s @ [Did_start i]\<rparr>"
  have "running mid (sv_log s1) (sv_record s1)"
    using started[OF h, of i] head_running[OF h(1)] by (simp add: s1_def i_def)
  then have ok: "ends_ok R good (\<lambda>_. running mid) (with_heartbeat e (le_segment e i) s1)"
    using fault.steady_heartbeat[OF steady_running[OF steady_preds(2)], of e "le_segment e i"] by (simp add: leads_def)
  obtain a s2 where a: "with_heartbeat e (le_segment e i) s1 = (a, s2)" by force
  have step: "run_one_segment e s = (case (a, s2) of (Goes x, t) \<Rightarrow> (Goes x, t\<lparr>sv_stop := se_stop x, sv_used := se_used x\<rparr>)
      | (Returns x, t) \<Rightarrow> (Returns x, t) | (Throws x, t) \<Rightarrow> (Throws x, t))"
    using a by (simp add: run_one_segment_def Let_def then_do_def i_def s1_def)
  show "ends_ok R good (\<lambda>x l r. running mid l r \<and> seg_ok (snd x)) (then_do (run_one_segment e) outcome_of s)"
  proof (cases a)
    case (Goes x)
    have "segment_yields seg_ok x" by (rule with_heartbeat_ends_in[OF segments]) (use a Goes in simp)
    moreover have "good (sv_log s2)" using ok a Goes harmless_preds(2) unfolding harmless_def by auto
    ultimately show ?thesis
      using ok a Goes step
      by (auto simp: then_do_def outcome_of_def throw_error_def next_with_def segment_yields_def split: sum.split)
  qed (use ok a step in \<open>simp_all add: then_do_def\<close>)
qed

lemma handled_segment_leads:
  "leads_to (\<lambda>l r. head l r \<and> \<not> turn_at_limit r) (handle (then_do (run_one_segment e) outcome_of) (segment_failed e))
     (\<lambda>x. \<lambda>l r. running mid l r \<and> seg_ok (snd x))"
  by (rule leads_handle[OF run_segment_leads segment_failed_leads]) (simp add: harmless_def)

lemma account_leads:
  "leads_to (\<lambda>l r. running mid l r \<and> seg_ok result) (account_segment o' end result) (\<lambda>_. running counted)"
  unfolding leads_def
proof (intro allI impI, elim conjE)
  fix s :: "'b turn_state"
  assume m: "mid (sv_log s) (sv_record s)" and ok: "seg_ok result" and st: "tl_status (sv_record s) = Turn_running"
  obtain s' where s': "account_segment o' end result s = (Goes (), s')" "sv_log s' = sv_log s"
    "tl_limit (sv_record s') = tl_limit (sv_record s)" "tl_status (sv_record s') = Turn_running"
    "cn_model_calls (tl_counters (sv_record s')) = calls_after (sv_used s) result (tl_counters (sv_record s))"
    using st by (auto simp: account_segment_def note_session_def Let_def count_segment_def add_run_usage_def
        calls_after_def)
  have "counted (sv_log s') (sv_record s')" using accounted[OF m ok s'(3,5)] s'(2) by simp
  then show "ends_ok R X (\<lambda>_. running counted) (account_segment o' end result s)" using s' by simp
qed

lemma save_again: "leads_to (running counted) (save_record e') (\<lambda>_. again)"
proof (rule save_leads)
  fix l r t
  assume c: "running counted l r"
  then show "good l" using harmless_preds(3) unfolding harmless_def by blast
  have "counted l (r\<lparr>tl_updated := t\<rparr>)" by (rule counted_same[of l r]) (use c in simp_all)
  then show "again (l @ [Did_save (r\<lparr>tl_updated := t\<rparr>)]) (r\<lparr>tl_updated := t\<rparr>)"
    by (rule again_saved) (use c in simp)
qed

lemmas silent_rules = silent_acts[THEN silent_leads] silent_attempt[THEN silent_leads] silent_renew[THEN silent_leads]
  silent_deadline[THEN silent_leads]

lemmas flow_rules = keeps_bind leads_if leads_option leads_pair steady_throw steady_call steady_lease steady_trace
  steady_heartbeat steady_owned_boundary steady_shared_boundary finish_leads ending_leads silent_rules

lemma retry_leads: "leads_to (running counted) (retry_segment e' result segment wait) (\<lambda>_. again)"
proof -
  note c = steady_running[OF steady_preds(3)] and a = steady_preds(4)
  note hc = steady_harmless[OF c] and ha = steady_harmless[OF a]
  have count: "keeps (running counted) (update_counters (\<lambda>c. c\<lparr>cn_provider_retries := Suc (cn_provider_retries c)\<rparr>))"
    by (auto simp: leads_def update_counters_def update_record_def intro: counted_same)
  show ?thesis
    unfolding retry_segment_def
    by (rule leads_bind[OF save_again] count flow_rules a hc ha)+
qed

lemma after_error_eq:
  "after_error e' result segment = (\<lambda>s. (case transient_base (le_number e') (rn_error result) (sv_attempts s)
       (has_committed_output result) of
        None \<Rightarrow> finish_turn e' Turn_failed ''failed'' (Some result) None
      | Some base \<Rightarrow> then_do (read_random e') (\<lambda>x s.
          if 2 \<le> sv_attempts s then finish_turn e' Turn_failed ''failed'' (Some result) None s
          else retry_segment e' result segment (with_jitter x base) s)) s)"
  by (auto simp: after_error_def fun_eq_iff split: option.split)

lemma after_error_leads: "leads_to (running counted) (after_error e' result segment) (\<lambda>_. again)"
proof -
  have hc: "harmless (running counted)" by (rule steady_harmless[OF steady_running[OF steady_preds(3)]])
  have again: "leads_to (running counted) (\<lambda>s. if 2 \<le> sv_attempts s then finish_turn e' Turn_failed ''failed'' (Some result) None s
      else retry_segment e' result segment w s) (\<lambda>_. again)" for w
    by (rule leads_choice[OF finish_leads[OF hc] retry_leads])
  have "leads_to (running counted) (case b of
        None \<Rightarrow> finish_turn e' Turn_failed ''failed'' (Some result) None
      | Some base \<Rightarrow> then_do (read_random e') (\<lambda>x s.
          if 2 \<le> sv_attempts s then finish_turn e' Turn_failed ''failed'' (Some result) None s
          else retry_segment e' result segment (with_jitter x base) s)) (\<lambda>_. again)" for b
    by (rule leads_option[OF finish_leads[OF hc] keeps_bind[OF silent_rules(3) again]])
  then show ?thesis unfolding after_error_eq by (rule leads_at)
qed

lemma mark_leads: "keeps counted (mark_output_cut e' segment)"
proof -
  note hc = harmless_preds(3)
  have mark: "keeps counted (update_record (\<lambda>r. r\<lparr>tl_continuations := f r\<rparr>))" for f
    by (rule counted_update) simp_all
  show ?thesis unfolding mark_output_cut_def Let_def by (rule flow_rules hc steady_next mark)+
qed

lemma boundary_leads:
  "leads_to counted (continuation_boundary e')
     (\<lambda>x. \<lambda>l r. counted l r \<and> keeps counted (fst (snd x)) \<and> keeps counted (snd (snd x)))"
proof (cases "le_boundary e'")
  case None
  have "keeps counted (case le_progress e' of None \<Rightarrow> next_with None
      | Some f \<Rightarrow> then_do get_record (\<lambda>r. call_host (f (tl_active r))))"
    "keeps counted (then_do get_record (\<lambda>r. call_host (le_rehydrate e' (tl_active r))))"
    by (rule flow_rules harmless_preds(3) steady_next)+
  then show ?thesis
    unfolding continuation_boundary_def None option.case
    by (intro keeps_bind[OF steady_lease[OF harmless_preds(3)]] keeps_bind[OF silent_rules(9)]
        keeps_bind[OF steady_call[OF harmless_preds(3)]]) (rule leads_next, simp)
next
  case (Some read)
  show ?thesis
    unfolding continuation_boundary_def Some option.case
    by (intro keeps_bind[OF steady_owned_boundary[OF harmless_preds(3)]]) (rule leads_next, simp add: steady_next steady_call[OF harmless_preds(3)])
qed

lemma leads_offer:
  assumes "\<And>a m m'. keeps c m \<Longrightarrow> keeps c m' \<Longrightarrow> leads_to c (f a m m') q"
  shows "leads_to (\<lambda>l r. c l r \<and> keeps c (fst (snd x)) \<and> keeps c (snd (snd x))) (case x of (a, m, m') \<Rightarrow> f a m m') q"
  using assms by (cases x) (auto intro!: leads_when)

lemma continue_leads: "leads_to (running counted) (continue_turn e' result segment same) (\<lambda>_. again)"
proof -
  note hc = harmless_preds(3)
  have lift: "keeps counted (lift_sum x)" for x :: "run_error + string"
    by (cases x) (simp_all add: lift_sum_def steady_next steady_throw hc)
  have progress: "keeps counted (update_record (note_progress f c))" for f c
    by (rule counted_update) (simp_all add: note_progress_def)
  have status: "keeps counted (set_status Turn_continuing)"
    unfolding set_status_def by (rule counted_update) simp_all
  have resume: "leads_to counted (set_status Turn_running) (\<lambda>_. running counted)"
    by (auto simp: leads_def set_status_def update_record_def intro: counted_same)
  have tell: "keeps counted (tell_continuing e' c segment)" for c
    unfolding tell_continuing_def by (rule flow_rules hc steady_next)+
  have save: "keeps counted (save_record e')" by (rule steady_save[OF steady_preds(3)])
  note ha = harmless_preds(4)
  have tail: "leads_to counted (then_do load (\<lambda>ms. then_do (set_messages ms) (\<lambda>_. then_do (set_status Turn_running) (\<lambda>_.
      then_do (save_record e') (\<lambda>_. send_trace e' Recovery_end segment c None))))) (\<lambda>_. again)"
    if "keeps counted load" for load c
    by (rule leads_bind[OF that], rule leads_bind[OF silent_rules(6)], rule leads_bind[OF resume],
        rule leads_bind[OF save_again], rule steady_trace[OF ha])
  have "leads_to counted (continue_turn e' result segment same) (\<lambda>_. again)"
    unfolding continue_turn_def
    by (rule keeps_bind[OF silent_rules(9)], rule leads_if, rule ending_leads[OF hc],
        rule keeps_bind[OF silent_rules(7)], rule leads_bind[OF boundary_leads], rule leads_offer,
        rule leads_if, rule ending_leads[OF hc], rule keeps_bind, assumption, rule keeps_bind, assumption,
        rule keeps_bind[OF lift], rule keeps_bind[OF steady_lease[OF hc]], rule keeps_bind[OF progress],
        rule keeps_bind[OF silent_rules(9)], rule leads_if, rule finish_leads[OF hc],
        rule keeps_bind[OF leads_if[OF mark_leads steady_next]], rule keeps_bind[OF status],
        rule keeps_bind[OF save], rule keeps_bind[OF steady_trace[OF hc]], rule keeps_bind[OF tell],
        rule tail, assumption)
  then show ?thesis by (rule leads_pre) simp
qed

lemma after_segment_leads:
  "leads_to (\<lambda>l r. running mid l r \<and> seg_ok result) (after_segment e' o' segment end result) (\<lambda>_. again)"
proof -
  have hc: "harmless (running counted)" by (rule steady_harmless[OF steady_running[OF steady_preds(3)]])
  show ?thesis
    unfolding after_segment_def
    by (rule keeps_bind[OF silent_rules(9)], rule leads_bind[OF account_leads], rule keeps_bind[OF steady_trace[OF hc]],
        (rule leads_if finish_leads[OF hc] ending_leads[OF hc] keeps_bind[OF silent_leads[OF silent_deadline]]
          keeps_bind[OF silent_rules(4)] after_error_leads continue_leads)+)
qed

lemma step_leads: "leads_to head (loop_step e o') (\<lambda>_. again)"
proof -
  note hh = harmless_preds(1)
  let ?below = "\<lambda>l r. head l r \<and> \<not> turn_at_limit r"
  have hb: "harmless ?below" using hh unfolding harmless_def by blast
  have run: "leads_to ?below (then_do (handle (then_do (run_one_segment e) outcome_of) (segment_failed e))
      (\<lambda>(end, result). after_segment e o' segment end result)) (\<lambda>_. again)" for segment
    by (rule leads_bind[OF handled_segment_leads]) (simp only: case_prod_beta after_segment_leads)
  have go: "leads_to (\<lambda>l r. head l r \<and> r = x) (if turn_at_limit x then exhausted_by_limit e
      else let segment = Suc (cn_segments (tl_counters x)) in
        then_do (require_lease e) (\<lambda>_. then_do (send_trace e Segment_start segment None None) (\<lambda>_.
          then_do (handle (then_do (run_one_segment e) outcome_of) (segment_failed e))
            (\<lambda>(end, result). after_segment e o' segment end result)))) (\<lambda>_. again)" for x
  proof (cases "turn_at_limit x")
    case True
    show ?thesis unfolding if_P[OF True] by (rule leads_pre[OF ending_leads(2)[OF hh]]) simp
  next
    case False
    show ?thesis
      unfolding if_not_P[OF False] Let_def
      by (rule leads_pre[OF keeps_bind[OF steady_lease[OF hb] keeps_bind[OF steady_trace[OF hb] run]]]) (use False in auto)
  qed
  show ?thesis
    unfolding loop_step_def
    by (rule keeps_bind[OF silent_leads[OF silent_deadline]], rule leads_if, rule ending_leads[OF hh],
        rule keeps_bind[OF silent_rules(4)], rule leads_if, rule ending_leads[OF hh],
        rule leads_bind[OF get_record_leads go])
qed

end

section \<open>Admission\<close>

context turn_rules
begin

lemma prepare_leads:
  assumes "steady p"
  shows "keeps p (prepare_turn e)"
proof -
  note h = steady_harmless[OF assms]
  have failed: "leads_to (\<lambda>l r. good l) (prepare_failed e x) (\<lambda>_. p)" for x
    unfolding prepare_failed_def
    by (auto intro!: steady_throw keeps_bind[OF silent_leads[OF silent_deadline]] ending_leads simp: harmless_def)
  have lift: "fault.keeps p (lift_sum x)" for x :: "run_error + unit"
    using fault.steady_throw fault.steady_next h
    by (cases x) (auto simp: lift_sum_def fault.harmless_def harmless_def)
  have steady': "fault.steady p" using assms by (simp add: fault.steady_def steady_def)
  show ?thesis
  proof (cases "le_prepare e")
    case None
    then show ?thesis by (simp add: prepare_turn_def steady_next)
  next
    case (Some start)
    show ?thesis
      unfolding prepare_turn_def Some option.case
      by (rule leads_handle[OF fault.keeps_bind[OF fault.steady_heartbeat[OF steady'] lift] failed])
  qed
qed

text \<open>Before the first save nothing has been done.\<close>

lemma take_leads: "(\<And>x. R x []) \<Longrightarrow> keeps (\<lambda>l r. l = []) (take_record e o' r)"
  by (auto simp: leads_def take_record_def give_def update_record_def split: option.split)

lemma create_leads: "good [] \<Longrightarrow> keeps (\<lambda>l r. l = []) (create_turn e o')"
  unfolding create_turn_def
  by (intro keeps_bind[OF silent_leads[OF silent_acts(2)]] leads_bind[where q = "\<lambda>_ l r. l = []"])
    (auto simp: leads_def Let_def next_with_def fresh_id_def good_throw split: option.split sum.split prod.split)

lemma admit_leads:
  assumes begins: "good []" "\<And>x. R x []"
  shows "keeps (\<lambda>l r. l = []) (admit_turn e o')"
proof -
  let ?p = "\<lambda>l r. l = []"
  have h: "harmless ?p" using begins by (simp add: harmless_def)
  have load: "keeps ?p (\<lambda>s. case load_logical_turn i (fst (sv_world s)) of
      None \<Rightarrow> (Returns (invalid_result i (to_session o')), s) | Some r \<Rightarrow> take_record e o' r s)" for i
    using take_leads[OF begins(2), of e o'] begins(2) by (auto simp: leads_def split: option.split)
  have find: "keeps ?p (case t of None \<Rightarrow> create_turn e o' | Some i \<Rightarrow> (\<lambda>s.
      case load_logical_turn i (fst (sv_world s)) of
        None \<Rightarrow> (Returns (invalid_result i (to_session o')), s) | Some r \<Rightarrow> take_record e o' r s))" for t
    using create_leads[OF begins(1)] load by (cases t) simp_all
  have start: "keeps ?p (\<lambda>s. (Goes (), s\<lparr>sv_started := now\<rparr>))" for now
    by (simp add: leads_def)
  have owner: "keeps ?p (\<lambda>s. (Goes (), s\<lparr>sv_owner := i, sv_used := cn_model_calls (tl_counters (sv_record s))\<rparr>))" for i
    by (simp add: leads_def)
  show ?thesis
    unfolding admit_turn_def
    by (rule leads_if, rule steady_throw[OF h], rule keeps_bind[OF silent_leads[OF silent_acts(2)]],
        rule leads_bind[OF start], rule keeps_bind[OF find], rule keeps_bind[OF silent_leads[OF silent_acts(5)]],
        rule owner)
qed

text \<open>From the lease to the first segment: the record is stored as running before anything else.\<close>

lemma open_leads:
  assumes begins: "good []" "\<And>x. R x []" and p: "steady p"
    and saved: "\<And>r. tl_status r = Turn_running \<Longrightarrow> p [Did_save r] r"
  shows "leads_to (\<lambda>l r. l = []) (open_turn e o') (\<lambda>_. p)"
proof -
  let ?p = "\<lambda>l r. l = []" and ?run = "\<lambda>l r. l = [] \<and> tl_status r = Turn_running"
  have h: "harmless ?p" and hp: "harmless p"
    using begins steady_harmless[OF p] by (simp_all add: harmless_def)
  have wait: "keeps ?p (then_do (read_clock e) (\<lambda>now. if now < t then throw_error Lease_loss else next_with ()))" for t
    by (rule keeps_bind[OF silent_leads[OF silent_acts(2)]], rule leads_if, rule steady_throw[OF h], rule steady_next)
  have active: "keeps ?p (check_active_lease e)"
    using wait by (auto simp: leads_def check_active_lease_def split: option.split)
  have acquire: "keeps ?p (acquire_lease e)"
    unfolding acquire_lease_def
    by (intro keeps_bind[OF silent_leads[OF silent_acts(2)]])
      (auto simp: leads_def Let_def begins(1) good_throw split: prod.split)
  have reload: "keeps ?p (reload_record e o')"
    using take_leads[OF begins(2), of e o'] begins(2) by (auto simp: leads_def reload_record_def split: option.split)
  have status: "leads_to ?p (set_status Turn_running) (\<lambda>_. ?run)"
    by (simp add: leads_def set_status_def update_record_def)
  have save: "leads_to ?run (save_record e) (\<lambda>_. p)"
    by (rule save_leads) (use begins(1) saved in auto)
  have shared: "keeps ?p (case (t, b) of (Some _, Some read) \<Rightarrow> read_shared_boundary e read c
      | _ \<Rightarrow> next_with (safe, None))" for t :: "string option" and b c safe
    by (cases t; cases b) (simp_all add: steady_next steady_shared_boundary h)
  show ?thesis
    unfolding open_turn_def
    by (rule keeps_bind[OF active], rule keeps_bind[OF silent_leads[OF silent_acts(9)]],
        rule keeps_bind[OF leads_if[OF steady_call[OF h] steady_next]], rule keeps_bind[OF acquire],
        rule keeps_bind[OF reload], rule keeps_bind[OF silent_leads[OF silent_acts(9)]],
        rule keeps_bind[OF shared], rule leads_pair, rule leads_if, rule ending_leads[OF h],
        rule leads_bind[OF status], rule leads_bind[OF save], rule keeps_bind[OF silent_leads[OF silent_deadline]],
        rule leads_if, rule ending_leads[OF hp], rule keeps_bind[OF silent_leads[OF silent_acts(9)]],
        rule leads_if, rule ending_leads[OF hp], rule keeps_bind[OF prepare_leads[OF p]],
        rule keeps_bind[OF silent_leads[OF silent_acts(9)]], rule keeps_bind[OF steady_trace[OF hp]],
        rule keeps_bind[OF silent_leads[OF silent_acts(9)]], rule leads_if, rule silent_leads[OF silent_acts(6)],
        rule leads_option, rule keeps_bind[OF steady_call[OF hp]], rule silent_leads[OF silent_acts(6)],
        rule silent_leads[OF silent_acts(6)])
qed

end

end
