(* ===== verification/Turn_Outcomes.thy ===== *)
theory Turn_Outcomes
  imports Supervisor_Proofs
begin

text \<open>
  The properties of \<open>superviseLogicalTurn\<close>: two interpretations of the rules of \<open>Supervisor_Proofs\<close>, one
  that reads the log of effects, one that counts model calls, and what they give for the whole turn.
\<close>

section \<open>From one turn of the loop to all\<close>

lemma run_loop_induct:
  assumes run: "run_loop e o' s = Some (res, s')"
    and step: "\<And>s s1. I s \<Longrightarrow> loop_step e o' s = (Goes (), s1) \<Longrightarrow> I s1"
    and ret: "\<And>s s1 x. I s \<Longrightarrow> loop_step e o' s = (Returns x, s1) \<Longrightarrow> F (Inr x) s1"
    and thr: "\<And>s s1 x. I s \<Longrightarrow> loop_step e o' s = (Throws x, s1) \<Longrightarrow> F (Inl x) s1"
    and start: "I s"
  shows "F res s'"
proof -
  define P where "P e1 o1 s y \<longleftrightarrow> (e1 = e \<longrightarrow> o1 = o' \<longrightarrow> I s \<longrightarrow> F (fst y) (snd y))"
    for e1 :: "'a turn_env" and o1 and s :: "'a turn_state" and y
  have "P e o' s (res, s')"
  proof (rule run_loop.raw_induct[OF _ run])
    fix rec :: "'a turn_env \<Rightarrow> turn_options \<Rightarrow> 'a turn_state \<Rightarrow> ((run_error + turn_result) \<times> 'a turn_state) option"
    fix e1 o1 s y
    assume ih: "\<And>e1 o1 s y. rec e1 o1 s = Some y \<Longrightarrow> P e1 o1 s y"
      and body: "(case loop_step e1 o1 s of (Goes x, s') \<Rightarrow> rec e1 o1 s' | (Returns r, s') \<Rightarrow> Some (Inr r, s')
        | (Throws x, s') \<Rightarrow> Some (Inl x, s')) = Some y"
    obtain a s1 where a: "loop_step e1 o1 s = (a, s1)" by force
    show "P e1 o1 s y"
      using body a ih[of e o' s1 y] step[of s s1] ret[of s _ s1] thr[of s _ s1]
      by (cases a) (auto simp: P_def)
  qed
  then show ?thesis using start by (simp add: P_def)
qed

definition closes :: "(turn_result \<Rightarrow> turn_effect list \<Rightarrow> bool) \<Rightarrow> (turn_effect list \<Rightarrow> bool)
    \<Rightarrow> run_error + turn_result \<Rightarrow> 'w turn_state \<Rightarrow> bool" where
  "closes R X res s = (case res of Inl _ \<Rightarrow> X (sv_log s) | Inr x \<Rightarrow> R x (sv_log s))"

lemma release_keeps [simp]: "sv_log (release_lease s) = sv_log s" "sv_record (release_lease s) = sv_record s"
  by (simp_all add: release_lease_def)

lemma closes_release: "closes R X res (release_lease s) = closes R X res s"
  by (simp add: closes_def split: sum.split)

lemma run_loop_closes:
  assumes step: "leads R X p (loop_step e o') (\<lambda>_. p)" and run: "run_loop e o' s = Some (res, s')"
    and start: "p (sv_log s) (sv_record s)"
  shows "closes R X res s'"
proof (rule run_loop_induct[OF run, where I = "\<lambda>s. p (sv_log s) (sv_record s)" and F = "closes R X"])
  fix s s1 :: "'a turn_state"
  assume "p (sv_log s) (sv_record s)"
  then have ok: "ends_ok R X (\<lambda>_. p) (loop_step e o' s)" using step by (simp add: leads_def)
  show "p (sv_log s1) (sv_record s1)" if "loop_step e o' s = (Goes (), s1)" using ok that by simp
  show "closes R X (Inr x) s1" if "loop_step e o' s = (Returns x, s1)" for x using ok that by (simp add: closes_def)
  show "closes R X (Inl x) s1" if "loop_step e o' s = (Throws x, s1)" for x using ok that by (simp add: closes_def)
qed (rule start)

definition opened :: "'w turn_env \<Rightarrow> turn_options \<Rightarrow> 'w turn_world \<Rightarrow> unit flow \<times> 'w turn_state" where
  "opened e o' w = then_do (admit_turn e o') (\<lambda>_. open_turn e o') (start_state e o' w)"

lemma supervise_cases:
  "supervise_logical_turn e o' w =
     (case opened e o' w of
        (Returns r, s) \<Rightarrow> Some (Inr r, release_lease s)
      | (Throws x, s) \<Rightarrow> Some (Inl x, release_lease s)
      | (Goes _, s) \<Rightarrow> map_option (\<lambda>(r, s'). (r, release_lease s')) (run_loop e o' s))"
  by (simp add: supervise_logical_turn_def opened_def)

lemma supervise_closes:
  assumes start: "leads R X (\<lambda>l r. l = []) (then_do (admit_turn e o') (\<lambda>_. open_turn e o')) (\<lambda>_. p)"
    and step: "leads R X p (loop_step e o') (\<lambda>_. p)"
    and run: "supervise_logical_turn e o' w = Some (res, s')"
  shows "closes R X res s'"
proof -
  have ok: "ends_ok R X (\<lambda>_. p) (opened e o' w)"
    using start by (simp add: leads_def opened_def start_state_def)
  obtain a s where a: "opened e o' w = (a, s)" by force
  show ?thesis
  proof (cases a)
    case (Goes u)
    then obtain y where y: "run_loop e o' s = Some (res, y)" "s' = release_lease y"
      using run a by (auto simp: supervise_cases)
    then show ?thesis using run_loop_closes[OF step y(1)] ok a Goes by (simp add: closes_release)
  qed (use ok a run in \<open>auto simp: supervise_cases closes_def\<close>)
qed

lemma work_ends_in_True: "work_ends_in (\<lambda>_. True) t"
proof (induction t)
  case (Work_beat w k)
  then show ?case by (simp only: work_ends_in.simps) blast
next
  case (Work_owns i w k)
  show ?case using Work_owns[OF rangeI rangeI] by (simp only: work_ends_in.simps) blast
qed simp_all

section \<open>The log of effects\<close>

definition good_log :: "turn_effect list \<Rightarrow> bool" where
  "good_log l \<longleftrightarrow> \<not> list_ex is_stop_effect l \<and> runs_ok None l"

definition stored_outcome :: "turn_result \<Rightarrow> logical_turn \<Rightarrow> bool" where
  "stored_outcome x r \<longleftrightarrow> tl_id r = tr_id x \<and> tl_status r = tr_status x \<and> tl_counters r = tr_counters x
     \<and> tl_finish r = Some (tr_finish x) \<and> tl_active r = tr_active x
     \<and> tr_reply x = value_or (tl_reply r) [] \<and> reply_stored r"

definition outcome_logged :: "turn_result \<Rightarrow> turn_effect list \<Rightarrow> bool" where
  "outcome_logged x l \<longleftrightarrow> runs_ok None l \<and> (l = [] \<or> pred_option (stored_outcome x) (last_saved None l) \<and> last_saved None l \<noteq> None)"

definition saved_running :: turn_pred where
  "saved_running l r \<longleftrightarrow> good_log l \<and> tl_status r = Turn_running
     \<and> (\<exists>q. last_saved None l = Some q \<and> alike q r)"

lemma good_log_save: "good_log l \<Longrightarrow> good_log (l @ [Did_save r])"
  by (simp add: good_log_def runs_ok_append)

lemma last_saved_stops: "list_all is_stop_effect es \<Longrightarrow> last_saved r es = r"
  by (induction r es rule: last_saved.induct) simp_all

lemma runs_ok_stop: "list_all is_stop_effect es \<Longrightarrow> length es \<le> 1 \<Longrightarrow> runs_ok r es"
  by (cases es) (auto elim: is_stop_effect.elims)

lemma outcome_logged_end:
  assumes "good_log l" "stored_outcome x r" "list_all is_stop_effect fired" "length fired \<le> 1"
  shows "outcome_logged x (l @ Did_save r # fired)"
  using assms by (simp add: outcome_logged_def good_log_def runs_ok_append last_saved_append last_saved_stops runs_ok_stop)

interpretation log_rules: turn_rules outcome_logged "runs_ok None" good_log
proof unfold_locales
  fix l fired and x :: turn_result and r :: logical_turn
  assume "good_log l" "tr_status x = tl_status r" "tr_counters x = tl_counters r" "Some (tr_finish x) = tl_finish r"
    "tr_reply x = value_or (tl_reply r) []" "reply_stored r" "tr_active x = tl_active r" "tr_id x = tl_id r"
    "list_all is_stop_effect fired" "length fired \<le> 1"
  then show "outcome_logged x (l @ Did_save r # fired)"
    by (intro outcome_logged_end) (auto simp: stored_outcome_def)
qed (simp_all add: good_log_save, simp add: good_log_def)

lemma saved_running_steady: "log_rules.steady saved_running"
  by (auto simp: log_rules.steady_def saved_running_def good_log_save last_saved_append) (auto simp: alike_def)

lemma saved_running_status: "saved_running l r \<Longrightarrow> tl_status r = Turn_running"
  by (simp add: saved_running_def)

lemma saved_running_again: "good_log l \<Longrightarrow> tl_status r = Turn_running \<Longrightarrow> saved_running (l @ [Did_save r]) r"
  by (simp add: saved_running_def good_log_save last_saved_append)

lemma segment_yields_any: "segment_yields (\<lambda>_. True) = (\<lambda>_. True)"
  by (auto simp: fun_eq_iff segment_yields_def split: sum.split)

lemma saved_running_start:
  assumes "saved_running l r" "\<not> turn_at_limit r" "si_segment i = Suc (cn_segments (tl_counters r))"
    "si_remaining i = remaining_calls r"
  shows "good_log (l @ [Did_start i])"
  using assms
  by (auto simp: saved_running_def good_log_def runs_ok_append start_ok_def alike_def turn_at_limit_def remaining_calls_def
      split: option.splits)

interpretation log: supervised outcome_logged "runs_ok None" good_log e "\<lambda>_. True" saved_running
    "\<lambda>l r. good_log l" "\<lambda>l r. good_log l" saved_running
  for e :: "'w turn_env"
proof unfold_locales
  show "log_rules.steady (\<lambda>l (r :: logical_turn). good_log l)"
    by (simp add: log_rules.steady_def good_log_save)
qed (simp_all add: saved_running_steady saved_running_start saved_running_status saved_running_again segment_yields_any
    work_ends_in_True outcome_logged_def)

lemma turn_logged:
  assumes "supervise_logical_turn e o' w = Some (res, s)"
  shows "closes outcome_logged (runs_ok None) res s"
proof (rule supervise_closes[OF _ _ assms])
  have start: "good_log []" "\<And>x. outcome_logged x []" by (simp_all add: good_log_def outcome_logged_def)
  have saved: "saved_running [Did_save r] r" if "tl_status r = Turn_running" for r
    using that by (simp add: saved_running_def good_log_def)
  show "leads outcome_logged (runs_ok None) (\<lambda>l r. l = []) (then_do (admit_turn e o') (\<lambda>_. open_turn e o')) (\<lambda>_. saved_running)"
    by (rule leads_bind[OF log_rules.admit_leads[OF start] log_rules.open_leads[OF start saved_running_steady saved]])
  show "leads outcome_logged (runs_ok None) saved_running (loop_step e o') (\<lambda>_. saved_running)"
    by (rule log.step_leads)
qed

text \<open>A host for the witnesses: a heartbeat comes before the end of the segment, which
  completes with one model call.\<close>

definition sample_run :: "segment_input \<Rightarrow> run_result" where
  "sample_run i =
     \<lparr>rn_session = si_active i, rn_reason = End_completed,
      rn_error = None, rn_final = Some [Text_block ''hi''], rn_iterations = 1, rn_tool_calls = 0, rn_tools = [],
      rn_usage = None, rn_cost = None, rn_stop = Some (si_segment i)\<rparr>"

definition sample_host :: "nat turn_env" where
  "sample_host =
     \<lparr>le_now = (\<lambda>n. (0, n)), le_random = (\<lambda>n. (0, n)), le_uuid = (\<lambda>n. (replicate (Suc n) CHR ''i'', Suc n)),
      le_abort = (\<lambda>_. None), le_prepare = None,
      le_segment = (\<lambda>i w. Work_beat w (Work_ends \<lparr>se_outcome = Inr (sample_run i), se_used = si_segment i,
        se_tasks = [], se_stop = Some (si_segment i)\<rparr>)),
      le_sleep = (\<lambda>_ w. Work_ends () w), le_rehydrate = (\<lambda>_ w. (Inr [], w)), le_recovery_safe = (\<lambda>_ w. (Inr True, w)),
      le_progress = None, le_boundary = None, le_persist_continuation = None, le_continuing = None, le_trace = None,
      le_stop = (\<lambda>_ _ w. w), le_sha256 = (\<lambda>t. t), le_compare = (\<lambda>_ _. 0), le_parse = (\<lambda>_. None),
      le_number = (\<lambda>_. NaN), le_block = (\<lambda>_. JNull)\<rparr>"

definition sample_options :: turn_options where
  "sample_options =
     \<lparr>to_binding = \<lparr>tb_route = None, tb_provider = ''p'', tb_auth = None, tb_model = ''m'', tb_effort = None,
        tb_toolset = None, tb_permission = None, tb_policy = None, tb_skills = None, tb_mcp = None, tb_hooks = None,
        tb_cwd = ''/'', tb_bundle = None\<rparr>,
      to_session = ''s'', to_user_message = None, to_messages = [], to_turn = None, to_allocated = None,
      to_active = None, to_limit = Some (Num 3), to_origin = None, to_task_manager = False, to_deadline = None\<rparr>"

lemma sample_opened: "case opened sample_host sample_options (store_new, 0) of
     (Goes _, s) \<Rightarrow> length (sv_log s) = 1 \<and> tl_limit (sv_record s) = Some 3 | _ \<Rightarrow> False"
  by code_simp

lemma sample_late: "case supervise_logical_turn sample_host (sample_options\<lparr>to_deadline := Some 0\<rparr>) (store_new, 0) of
     Some (Inr x, s) \<Rightarrow> tr_status x = Turn_exhausted \<and> length (sv_log s) = 2 | _ \<Rightarrow> False"
  by code_simp

text \<open>C16: Whatever the host, the clocks, the heartbeats and the other owners of the store do, a segment of a
  supervised turn starts only on a record that was stored as running and was not at its model-call limit
  at its last save, with the number that follows the stored count of segments and at most the calls that
  are left; and nothing is saved or started after the Stop hook, which is called at most once.\<close>
theorem segments_within_stored_limits:
  "pred_option (\<lambda>(res, s). runs_ok None (sv_log s)) (supervise_logical_turn e o' w)"
proof (cases "supervise_logical_turn e o' w")
  case (Some y)
  obtain res s where y: "y = (res, s)" by force
  show ?thesis
    using turn_logged[of e o' w res s] Some y by (auto simp: closes_def outcome_logged_def split: sum.splits)
qed simp

text \<open>C17: The outcome of a turn is stored before it is told: when the supervisor returns a result and has
  done anything at all, the last record it saved has the status, the finish reason, the counters, the
  active session and the reply of the result (a reply that is told and not stored can only be the empty
  one of a completed turn).\<close>
theorem outcome_stored_before_told:
  assumes "supervise_logical_turn e o' w = Some (Inr x, s)" "sv_log s \<noteq> []"
  shows "\<exists>r. last_saved None (sv_log s) = Some r \<and> stored_outcome x r"
  using turn_logged[OF assms(1)] assms(2) by (auto simp: closes_def outcome_logged_def)

theorem outcome_stored_before_told_witness:
  "\<exists>x s r. supervise_logical_turn sample_host (sample_options\<lparr>to_deadline := Some 0\<rparr>) (store_new, 0) = Some (Inr x, s)
    \<and> last_saved None (sv_log s) = Some r \<and> stored_outcome x r \<and> tr_status x = Turn_exhausted"
proof -
  obtain x s where run: "supervise_logical_turn sample_host (sample_options\<lparr>to_deadline := Some 0\<rparr>) (store_new, 0)
      = Some (Inr x, s)" and x: "tr_status x = Turn_exhausted" "length (sv_log s) = 2"
    using sample_late by (auto split: option.splits) (case_tac a, auto)
  have "sv_log s \<noteq> []" using x(2) by auto
  from outcome_stored_before_told[OF run this] run x(1) show ?thesis by blast
qed

text \<open>A stored turn that is completed, waits for the user, was cancelled, or failed for good is never run
  again: the attempt gives its result at once, starts and saves nothing and leaves the store as it was.\<close>
theorem settled_turn_not_run:
  assumes "valid_call_limit (to_limit o')" "truthy_string (to_turn o') = Some i"
    and "load_logical_turn i (fst w) = Some r" "settled_result r = Some x"
  shows "\<exists>s. supervise_logical_turn e o' w
      = Some (Inr (if tl_digest r = turn_digest e (to_binding o') then x else invalid_result (tl_id r) (tl_active r)), s)
    \<and> sv_log s = [] \<and> fst (sv_world s) = fst w"
  using assms
  by (auto simp: supervise_cases opened_def admit_turn_def then_do_def read_clock_def take_record_def give_def
      start_state_def release_lease_def invalid_result_def split: prod.split)

definition sample_settled :: logical_turn where
  "sample_settled = (new_turn sample_host sample_options ''t'' 0)\<lparr>tl_status := Turn_completed\<rparr>"

theorem settled_turn_not_run_witness:
  "\<exists>s. supervise_logical_turn sample_host (sample_options\<lparr>to_turn := Some ''t''\<rparr>)
      (store_new\<lparr>ss_turns := [(''t'', sample_settled)]\<rparr>, 0)
      = Some (Inr (stored_result sample_settled ''completed''), s) \<and> sv_log s = []"
proof -
  have digest: "tl_digest sample_settled
      = turn_digest sample_host (to_binding (sample_options\<lparr>to_turn := Some ''t''\<rparr>))"
    by (simp add: sample_settled_def new_turn_def)
  have settled: "settled_result sample_settled = Some (stored_result sample_settled ''completed'')"
    by (simp add: settled_result_def sample_settled_def)
  have limit: "valid_call_limit (to_limit (sample_options\<lparr>to_turn := Some ''t''\<rparr>))"
    by (simp add: sample_options_def) code_simp
  show ?thesis
    using settled_turn_not_run[OF limit _ _ settled, of "''t''" "(store_new\<lparr>ss_turns := [(''t'', sample_settled)]\<rparr>, 0)"
        sample_host] digest
    by (auto simp: truthy_string_def load_logical_turn_def)
qed

text \<open>A failed turn stored by the supervisor has one of two finish reasons, and the reason of a segment's end
  as its cause: no such turn is one that may be resumed.\<close>

lemma reason_text_not_transient: "reason_text x \<notin> set safe_transient_failures"
  by (cases x) (simp_all add: safe_transient_failures_def)

lemma stored_failure_never_resumes:
  assumes "reason \<in> {''failed'', ''unsafe_effect''}" "tl_cause r = None \<or> (\<exists>x. tl_cause r = Some (reason_text x))"
  shows "\<not> is_safe_transient_failure (closed_record abort Turn_failed reason final r)"
  using assms reason_text_not_transient
  by (auto simp: is_safe_transient_failure_def closed_record_def Let_def safe_transient_failures_def)

section \<open>Segments are counted\<close>

fun starts :: "turn_effect list \<Rightarrow> nat" where
  "starts [] = 0"
| "starts (Did_start _ # es) = Suc (starts es)"
| "starts (_ # es) = starts es"

lemma starts_append [simp]: "starts (xs @ ys) = starts xs + starts ys"
  by (induction xs rule: starts.induct) simp_all

lemma starts_stops: "list_all is_stop_effect es \<Longrightarrow> starts es = 0"
  by (induction es rule: starts.induct) simp_all

text \<open>\<open>n\<close> segments have been started, \<open>k\<close> of them counted, and \<open>N - k\<close> more suffice.\<close>

definition counting :: "nat \<Rightarrow> nat \<Rightarrow> nat \<Rightarrow> nat \<Rightarrow> turn_pred" where
  "counting L N n k l r \<longleftrightarrow> starts l = n \<and> n \<le> N \<and> tl_limit r = Some L \<and> k + L \<le> N + cn_model_calls (tl_counters r)"

definition counting_head :: "nat \<Rightarrow> nat \<Rightarrow> nat \<Rightarrow> turn_pred" where
  "counting_head L N n l r \<longleftrightarrow> counting L N n n l r \<and> tl_status r = Turn_running"

definition productive :: "run_result \<Rightarrow> bool" where
  "productive r \<longleftrightarrow> 0 < rn_iterations r"

interpretation count_rules: turn_rules "\<lambda>x l. starts l \<le> N" "\<lambda>l. starts l \<le> N" "\<lambda>l. starts l \<le> N" for N
  by unfold_locales (simp_all add: starts_stops)

lemma counting_steady: "k \<le> n \<Longrightarrow> count_rules.steady N (counting L N n k)" "count_rules.steady N (counting_head L N n)"
  by (auto simp: count_rules.steady_def counting_head_def counting_def alike_def)

lemma counting_supervised:
  assumes "\<And>i w. work_ends_in (segment_yields productive) (le_segment e i w)"
  shows "supervised (\<lambda>x l. starts l \<le> N) (\<lambda>l. starts l \<le> N) (\<lambda>l. starts l \<le> N) e productive
    (counting_head L N n) (counting L N (Suc n) n) (counting L N (Suc n) (Suc n)) (counting_head L N (Suc n))"
  by unfold_locales
    (use assms in \<open>auto simp: counting_steady counting_head_def counting_def turn_at_limit_def productive_def calls_after_def\<close>)

lemma counted_loop_ends:
  assumes productive: "\<And>i w. work_ends_in (segment_yields productive) (le_segment e i w)"
    and s: "counting_head L N n (sv_log s) (sv_record s)"
  shows "\<exists>res s'. run_loop e o' s = Some (res, s') \<and> starts (sv_log s') \<le> N"
  using s
proof (induction "N - n" arbitrary: n s rule: less_induct)
  case less
  have ok: "ends_ok (\<lambda>x l. starts l \<le> N) (\<lambda>l. starts l \<le> N) (\<lambda>_. counting_head L N (Suc n)) (loop_step e o' s)"
    using supervised.step_leads[OF counting_supervised[where n = n, OF productive]] less(2) by (simp add: leads_def)
  obtain a s1 where a: "loop_step e o' s = (a, s1)" by force
  show ?case
  proof (cases a)
    case (Goes u)
    then have head: "counting_head L N (Suc n) (sv_log s1) (sv_record s1)" using ok a by simp
    then have "Suc n \<le> N" by (simp add: counting_head_def counting_def)
    then have "N - Suc n < N - n" by simp
    from less(1)[OF this head] Goes a show ?thesis by (simp add: run_loop.simps)
  qed (use ok a in \<open>simp_all add: run_loop.simps\<close>)
qed

text \<open>C18: A turn with a model-call limit ends: when every segment, however it ends, reports at least one
  iteration, the supervisor returns or throws after at most as many segments as the limit leaves calls
  beyond those already counted, in spite of retries, recoveries and progress.\<close>
theorem limited_turn_ends:
  assumes "opened e o' w = (Goes (), s)" "tl_limit (sv_record s) = Some L"
    and "\<And>i w. work_ends_in (segment_yields productive) (le_segment e i w)"
  shows "\<exists>res s'. supervise_logical_turn e o' w = Some (res, s')
    \<and> starts (sv_log s') \<le> L - cn_model_calls (tl_counters (sv_record s))"
proof -
  let ?N = "L - cn_model_calls (tl_counters (sv_record s))"
  let ?p = "\<lambda>l r. starts l = 0 \<and> tl_status r = Turn_running"
  have "leads (\<lambda>x l. starts l \<le> ?N) (\<lambda>l. starts l \<le> ?N) (\<lambda>l r. l = [])
      (then_do (admit_turn e o') (\<lambda>_. open_turn e o')) (\<lambda>_. ?p)"
  proof (rule leads_bind[OF count_rules.admit_leads count_rules.open_leads])
    show "count_rules.steady ?N ?p" by (simp add: count_rules.steady_def alike_def)
  qed simp_all
  then have "ends_ok (\<lambda>x l. starts l \<le> ?N) (\<lambda>l. starts l \<le> ?N) (\<lambda>_. ?p) (opened e o' w)"
    unfolding leads_def opened_def by (simp add: start_state_def)
  then have "?p (sv_log s) (sv_record s)" using assms(1) by simp
  then have "counting_head L ?N 0 (sv_log s) (sv_record s)"
    using assms(2) by (simp add: counting_head_def counting_def)
  from counted_loop_ends[OF assms(3) this, of o'] show ?thesis using assms(1) by (auto simp: supervise_cases)
qed

theorem limited_turn_ends_witness:
  "\<exists>res s'. supervise_logical_turn sample_host sample_options (store_new, 0) = Some (res, s') \<and> starts (sv_log s') \<le> 3"
proof -
  obtain s where s: "opened sample_host sample_options (store_new, 0) = (Goes (), s)" "tl_limit (sv_record s) = Some 3"
    using sample_opened by (auto split: prod.splits flow.splits)
  have "work_ends_in (segment_yields productive) (le_segment sample_host i w)" for i w
    by (simp add: sample_host_def sample_run_def segment_yields_def productive_def)
  from limited_turn_ends[OF s this] show ?thesis by (meson diff_le_self order_trans)
qed

end
