(* ===== verification/Credential_Pool.thy ===== *)
theory Credential_Pool
  imports Child_Routing "HOL-Library.Word"
begin

text \<open>
  \<open>packages/sdk/src/providers/credentials/pool.ts\<close>: the pool of credentials of one provider. A process
  chooses a credential for every request, records failures as lockouts, and keeps the status of its
  credentials in a file that other processes write too. A record of the source is an association list in
  the order of its keys (a key that is an array index would come first). A missing or unreadable file is
  the empty one. The clock is read once for each operation; \<open>localeCompare\<close> is a parameter.
\<close>

section \<open>Data\<close>

datatype auth_type = Api_key | Oauth | Bedrock_sig_v4 | No_auth

datatype credential_status = Credential_ok | Exhausted | Auth_failed

record pooled_credential =
  cd_id :: string
  cd_provider :: string
  cd_auth :: auth_type
  cd_priority :: rat
  cd_status :: credential_status
  cd_last_error :: "string option"
  cd_last_error_at :: "rat option"
  cd_cooldown :: "rat option"
  cd_usage :: nat
  cd_hash :: "string option"

datatype credential_strategy = Round_robin | Least_used | Fill_first

record credential_input =
  cr_id :: "string option"
  cr_provider :: string
  cr_auth :: auth_type
  cr_secret :: "string option"
  cr_priority :: "rat option"

type_synonym credential_rows = "(string \<times> pooled_credential) list"

type_synonym state_file = "(string \<times> credential_rows) list"

record credential_pool =
  cp_provider :: string
  cp_memory :: bool
  cp_strategy :: credential_strategy
  cp_rows :: credential_rows
  cp_secrets :: "(string \<times> string option) list"
  cp_active :: "string list"
  cp_dirty :: "string list"

definition default_cooldown_seconds :: rat where "default_cooldown_seconds = 60 * 60"

definition default_auth_failed_cooldown_seconds :: rat where
  "default_auth_failed_cooldown_seconds = 10 * 60"

section \<open>The fingerprint of a secret\<close>

text \<open>FNV-1a on 32 bits, printed in hexadecimal.\<close>

definition fnv_step :: "32 word \<Rightarrow> char \<Rightarrow> 32 word" where
  "fnv_step h c = xor h (word_of_nat (of_char c)) * 16777619"

fun nat_to_hex :: "nat \<Rightarrow> string" where
  "nat_to_hex n = (if n < 16 then [hex_char n] else nat_to_hex (n div 16) @ [hex_char (n mod 16)])"

declare nat_to_hex.simps [simp del]

definition hash_secret :: "string \<Rightarrow> string" where
  "hash_secret secret = nat_to_hex (unat (foldl fnv_step 2166136261 secret))"

section \<open>The file\<close>

definition rows_of :: "string \<Rightarrow> state_file \<Rightarrow> credential_rows" where
  "rows_of provider f = value_or (map_of f provider) []"

text \<open>The rows that this process has changed are laid over the rows on disk.\<close>

definition overlay :: "credential_rows \<Rightarrow> string list \<Rightarrow> credential_rows \<Rightarrow> credential_rows" where
  "overlay ours dirty disk =
     foldl (\<lambda>rows i. case map_of ours i of None \<Rightarrow> rows | Some row \<Rightarrow> AList.update i row rows) disk dirty"

definition persist_pool :: "credential_pool \<Rightarrow> state_file \<Rightarrow> state_file" where
  "persist_pool p f =
     (if cp_memory p then f
      else AList.update (cp_provider p) (overlay (cp_rows p) (cp_dirty p) (rows_of (cp_provider p) f)) f)"

section \<open>Construction\<close>

definition seeded :: "credential_input \<Rightarrow> string \<Rightarrow> string \<Rightarrow> pooled_credential option \<Rightarrow> pooled_credential" where
  "seeded input i secret_hash existing =
     (let changed = (case opt_bind existing cd_hash of None \<Rightarrow> False | Some h \<Rightarrow> h \<noteq> secret_hash);
          carry = (if changed then None else existing)
      in \<lparr>cd_id = i, cd_provider = cr_provider input, cd_auth = cr_auth input,
          cd_priority = value_or (or_else (cr_priority input) (map_option cd_priority existing)) 0,
          cd_status = value_or (map_option cd_status carry) Credential_ok,
          cd_last_error = opt_bind carry cd_last_error, cd_last_error_at = opt_bind carry cd_last_error_at,
          cd_cooldown = opt_bind carry cd_cooldown, cd_usage = value_or (map_option cd_usage existing) 0,
          cd_hash = Some secret_hash\<rparr>)"

definition input_id :: "credential_input \<Rightarrow> string" where
  "input_id input = value_or (cr_id input) (cr_provider input @ ''-'' @ hash_secret (value_or (cr_secret input) []))"

definition add_input :: "credential_pool \<Rightarrow> credential_input \<Rightarrow> credential_pool" where
  "add_input p input =
     (let i = input_id input; h = hash_secret (value_or (cr_secret input) []) in
      p\<lparr>cp_active := set_add i (cp_active p), cp_dirty := set_add i (cp_dirty p),
        cp_secrets := AList.update i (cr_secret input) (cp_secrets p),
        cp_rows := AList.update i (seeded input i h (map_of (cp_rows p) i)) (cp_rows p)\<rparr>)"

definition new_pool ::
  "string \<Rightarrow> credential_input list \<Rightarrow> bool \<Rightarrow> credential_strategy option \<Rightarrow> state_file
   \<Rightarrow> credential_pool \<times> state_file" where
  "new_pool provider inputs memory strategy f =
     (let p = foldl add_input
            \<lparr>cp_provider = provider, cp_memory = memory, cp_strategy = value_or strategy Round_robin,
             cp_rows = (if memory then [] else rows_of provider f), cp_secrets = [], cp_active = [],
             cp_dirty = []\<rparr> inputs
      in (p\<lparr>cp_dirty := []\<rparr>, persist_pool p f))"

section \<open>Selection\<close>

definition is_usable :: "rat \<Rightarrow> pooled_credential \<Rightarrow> bool" where
  "is_usable now c \<longleftrightarrow>
     \<not> ((cd_status c = Exhausted \<or> cd_status c = Auth_failed) \<and> now < value_or (cd_cooldown c) 0)"

definition sign_of :: "rat \<Rightarrow> int" where
  "sign_of x = (if 0 < x then 1 else if x < 0 then - 1 else 0)"

definition compare_credentials ::
  "(string \<Rightarrow> string \<Rightarrow> int) \<Rightarrow> credential_strategy \<Rightarrow> pooled_credential \<Rightarrow> pooled_credential \<Rightarrow> int" where
  "compare_credentials locale_compare strategy a b =
     (let priority = cd_priority a - cd_priority b in
      if priority \<noteq> 0 then sign_of priority
      else if strategy = Fill_first then locale_compare (cd_id a) (cd_id b)
      else (let usage = int (cd_usage a) - int (cd_usage b) in
            if usage \<noteq> 0 then usage else locale_compare (cd_id a) (cd_id b)))"

definition candidates :: "rat \<Rightarrow> credential_pool \<Rightarrow> credential_rows" where
  "candidates now p = filter (\<lambda>(k, c). cd_id c \<in> set (cp_active p) \<and> is_usable now c) (cp_rows p)"

text \<open>The row of key \<open>k\<close> is changed in place.\<close>

definition put_row :: "string \<Rightarrow> pooled_credential \<Rightarrow> string \<Rightarrow> credential_pool \<Rightarrow> credential_pool" where
  "put_row k c i p = p\<lparr>cp_rows := AList.update k c (cp_rows p), cp_dirty := set_add i (cp_dirty p)\<rparr>"

definition taken :: "pooled_credential \<Rightarrow> pooled_credential" where
  "taken c = c\<lparr>cd_usage := Suc (cd_usage c), cd_status := Credential_ok, cd_cooldown := None\<rparr>"

definition select_credential ::
  "(string \<Rightarrow> string \<Rightarrow> int) \<Rightarrow> rat \<Rightarrow> credential_pool \<Rightarrow> state_file
   \<Rightarrow> (pooled_credential \<times> string option) option \<times> credential_pool \<times> state_file" where
  "select_credential locale_compare now p f =
     (case sort_by (\<lambda>a b. compare_credentials locale_compare (cp_strategy p) (snd a) (snd b)) (candidates now p) of
        [] \<Rightarrow> (None, p, f)
      | (k, c) # _ \<Rightarrow>
          (let c' = taken c; p' = put_row k c' (cd_id c) p in
           (Some (c', opt_bind (map_of (cp_secrets p) (cd_id c)) (\<lambda>x. x)), p', persist_pool p' f)))"

section \<open>Marks\<close>

definition mark_row ::
  "string \<Rightarrow> (pooled_credential \<Rightarrow> pooled_credential) \<Rightarrow> credential_pool \<Rightarrow> state_file
   \<Rightarrow> credential_pool \<times> state_file" where
  "mark_row i change p f =
     (case map_of (cp_rows p) i of
        None \<Rightarrow> (p, f)
      | Some c \<Rightarrow> (let p' = put_row i (change c) i p in (p', persist_pool p' f)))"

definition mark_ok :: "string \<Rightarrow> credential_pool \<Rightarrow> state_file \<Rightarrow> credential_pool \<times> state_file" where
  "mark_ok i = mark_row i (\<lambda>c. c\<lparr>cd_status := Credential_ok, cd_last_error := None, cd_last_error_at := None,
     cd_cooldown := None\<rparr>)"

definition mark_exhausted ::
  "rat \<Rightarrow> string \<Rightarrow> string \<Rightarrow> rat option \<Rightarrow> credential_pool \<Rightarrow> state_file \<Rightarrow> credential_pool \<times> state_file" where
  "mark_exhausted now i reason until =
     mark_row i (\<lambda>c. c\<lparr>cd_status := Exhausted, cd_last_error := Some reason, cd_last_error_at := Some now,
       cd_cooldown := Some (value_or until (now + default_cooldown_seconds))\<rparr>)"

definition mark_auth_failed ::
  "rat \<Rightarrow> string \<Rightarrow> string \<Rightarrow> credential_pool \<Rightarrow> state_file \<Rightarrow> credential_pool \<times> state_file" where
  "mark_auth_failed now i reason =
     mark_row i (\<lambda>c. c\<lparr>cd_status := Auth_failed, cd_last_error := Some reason, cd_last_error_at := Some now,
       cd_cooldown := Some (now + default_auth_failed_cooldown_seconds)\<rparr>)"

section \<open>What a process does\<close>

datatype pool_op =
    Pool_select rat
  | Pool_ok string
  | Pool_exhausted rat string string "rat option"
  | Pool_auth_failed rat string string

fun pool_step ::
  "(string \<Rightarrow> string \<Rightarrow> int) \<Rightarrow> credential_pool \<times> state_file \<Rightarrow> pool_op \<Rightarrow> credential_pool \<times> state_file" where
  "pool_step lc (p, f) (Pool_select now) = snd (select_credential lc now p f)"
| "pool_step lc (p, f) (Pool_ok i) = mark_ok i p f"
| "pool_step lc (p, f) (Pool_exhausted now i reason until) = mark_exhausted now i reason until p f"
| "pool_step lc (p, f) (Pool_auth_failed now i reason) = mark_auth_failed now i reason p f"

text \<open>The row of a credential on disk.\<close>

definition disk_row :: "string \<Rightarrow> string \<Rightarrow> state_file \<Rightarrow> pooled_credential option" where
  "disk_row provider i f = map_of (rows_of provider f) i"

section \<open>Selection is right\<close>

definition preferred :: "credential_strategy \<Rightarrow> pooled_credential \<Rightarrow> pooled_credential \<Rightarrow> bool" where
  "preferred strategy a b \<longleftrightarrow>
     cd_priority a < cd_priority b
     \<or> cd_priority a = cd_priority b \<and> (strategy = Fill_first \<or> cd_usage a \<le> cd_usage b)"

lemma compare_preferred:
  "compare_credentials lc strategy a b \<le> 0 \<Longrightarrow> preferred strategy a b"
  "0 < compare_credentials lc strategy a b \<Longrightarrow> preferred strategy b a"
  by (auto simp: compare_credentials_def preferred_def Let_def sign_of_def split: if_splits)

lemma preferred_trans: "preferred s a b \<Longrightarrow> preferred s b c \<Longrightarrow> preferred s a c"
  by (auto simp: preferred_def)

lemma preferred_refl: "preferred s a a"
  by (simp add: preferred_def)

lemma select_head:
  assumes "select_credential lc now p f = (Some (c', secret), p', f')"
  obtains k c where "(k, c) \<in> set (candidates now p)" "c' = taken c" "p' = put_row k c' (cd_id c) p"
    "f' = persist_pool p' f" "secret = opt_bind (map_of (cp_secrets p) (cd_id c)) (\<lambda>x. x)"
    "\<And>d. d \<in> snd ` set (candidates now p) \<Longrightarrow> preferred (cp_strategy p) c d"
proof -
  let ?cmp = "\<lambda>a b. compare_credentials lc (cp_strategy p) (snd a) (snd b)"
  obtain k c rest where s: "sort_by ?cmp (candidates now p) = (k, c) # rest"
    using assms by (auto simp: select_credential_def split: list.splits)
  have "preferred (cp_strategy p) (snd (k, c)) (snd y)" if "y \<in> set (candidates now p)" for y
    by (rule sort_by_least[OF _ _ _ _ s that])
      (erule compare_preferred, erule compare_preferred, erule (1) preferred_trans, rule preferred_refl)
  then have best: "preferred (cp_strategy p) c d" if "d \<in> snd ` set (candidates now p)" for d
    using that by auto
  have row: "(k, c) \<in> set (candidates now p)"
    using arg_cong[OF s, of set] by simp
  have eqs: "c' = taken c" "p' = put_row k c' (cd_id c) p" "f' = persist_pool p' f"
    "secret = opt_bind (map_of (cp_secrets p) (cd_id c)) (\<lambda>x. x)"
    using assms s by (auto simp: select_credential_def Let_def)
  show ?thesis by (rule that[OF row eqs best])
qed

lemma select_none: "fst (select_credential lc now p f) = None \<longleftrightarrow> candidates now p = []"
proof -
  let ?s = "sort_by (\<lambda>a b. compare_credentials lc (cp_strategy p) (snd a) (snd b)) (candidates now p)"
  have "?s = [] \<longleftrightarrow> candidates now p = []" by (metis set_empty sort_by_set)
  then show ?thesis unfolding select_credential_def by (cases ?s) (simp_all add: case_prod_beta Let_def)
qed

section \<open>The file is shared\<close>

lemma overlay_row:
  "map_of (overlay ours dirty disk) i = (if i \<in> set dirty \<and> map_of ours i \<noteq> None then map_of ours i else map_of disk i)"
proof (induction dirty arbitrary: disk)
  case (Cons j dirty)
  then show ?case by (cases "map_of ours j") (auto simp: overlay_def map_of_update)
qed (simp add: overlay_def)

lemma persisted_row:
  "disk_row provider i (persist_pool p f) =
     (if \<not> cp_memory p \<and> provider = cp_provider p \<and> i \<in> set (cp_dirty p) \<and> map_of (cp_rows p) i \<noteq> None
      then map_of (cp_rows p) i else disk_row provider i f)"
  by (auto simp: persist_pool_def disk_row_def rows_of_def map_of_update overlay_row value_or_def)

lemma put_row_fields [simp]:
  "cp_provider (put_row k c i p) = cp_provider p" "cp_memory (put_row k c i p) = cp_memory p"
  "set (cp_dirty (put_row k c i p)) = insert i (set (cp_dirty p))" "cp_active (put_row k c i p) = cp_active p"
  "cp_rows (put_row k c i p) = AList.update k c (cp_rows p)"
  by (simp_all add: put_row_def)

text \<open>C25: A credential that is locked out is not handed out: what a selection returns was one of the
  credentials of the process, usable now, of the least priority number among the usable ones and, unless
  the strategy is to fill the first, of the least use; and nothing is returned only when none is usable.\<close>
theorem selection_best_usable:
  "(case fst (select_credential lc now p f) of
      None \<Rightarrow> \<not> list_ex (\<lambda>(k, d). cd_id d \<in> set (cp_active p) \<and> is_usable now d) (cp_rows p)
    | Some (c', secret) \<Rightarrow>
        list_ex (\<lambda>(k, c). c' = taken c \<and> cd_id c \<in> set (cp_active p) \<and> is_usable now c
          \<and> list_all (\<lambda>(k, d). preferred (cp_strategy p) c d)
              (filter (\<lambda>(k, d). cd_id d \<in> set (cp_active p) \<and> is_usable now d) (cp_rows p))) (cp_rows p))"
proof (cases "fst (select_credential lc now p f)")
  case None
  then have "candidates now p = []" by (simp add: select_none)
  then show ?thesis using None by (auto simp: candidates_def list_ex_iff filter_empty_conv)
next
  case (Some x)
  obtain c' secret p' f' where sel: "select_credential lc now p f = (Some (c', secret), p', f')" "x = (c', secret)"
    using Some by (cases "select_credential lc now p f") (metis fst_conv prod.exhaust)
  obtain k c where kc: "(k, c) \<in> set (candidates now p)" "c' = taken c"
    "\<And>d. d \<in> snd ` set (candidates now p) \<Longrightarrow> preferred (cp_strategy p) c d"
    using sel(1) by (rule select_head) blast
  have "list_all (\<lambda>(k, d). preferred (cp_strategy p) c d) (candidates now p)"
    using kc(3) by (force simp: list_all_iff)
  moreover have "(k, c) \<in> set (cp_rows p)" "cd_id c \<in> set (cp_active p)" "is_usable now c"
    using kc(1) by (simp_all add: candidates_def)
  ultimately show ?thesis using Some sel(2) kc(2) by (auto simp: list_ex_iff candidates_def)
qed

text \<open>The credential whose row an operation changes.\<close>

definition row_changed :: "(string \<Rightarrow> string \<Rightarrow> int) \<Rightarrow> credential_pool \<Rightarrow> state_file \<Rightarrow> pool_op \<Rightarrow> string option" where
  "row_changed lc p f op =
     (case op of
        Pool_select now \<Rightarrow> map_option (cd_id \<circ> fst) (fst (select_credential lc now p f))
      | Pool_ok i \<Rightarrow> Some i
      | Pool_exhausted now i reason until \<Rightarrow> Some i
      | Pool_auth_failed now i reason \<Rightarrow> Some i)"

definition touches :: "string option \<Rightarrow> credential_pool \<Rightarrow> state_file \<Rightarrow> credential_pool \<times> state_file \<Rightarrow> bool" where
  "touches i p f q \<longleftrightarrow> set (cp_dirty p) \<subseteq> set (cp_dirty (fst q))
     \<and> set (cp_dirty (fst q)) \<subseteq> set (cp_dirty p) \<union> set_option i
     \<and> cp_provider (fst q) = cp_provider p \<and> cp_memory (fst q) = cp_memory p
     \<and> (snd q = f \<or> snd q = persist_pool (fst q) f)"

lemma mark_touches: "touches (Some i) p f (mark_row i change p f)"
  by (auto simp: touches_def mark_row_def Let_def split: option.split)

lemma pool_step_touches: "touches (row_changed lc p f op) p f (pool_step lc (p, f) op)"
proof (cases op)
  case (Pool_select now)
  show ?thesis
  proof (cases "fst (select_credential lc now p f)")
    case None
    then have "select_credential lc now p f = (None, p, f)"
      by (auto simp: select_credential_def Let_def split: list.splits prod.splits)
    then show ?thesis using Pool_select by (simp add: touches_def)
  next
    case (Some x)
    obtain c' secret p' f' where sel: "select_credential lc now p f = (Some (c', secret), p', f')"
      using Some by (cases "select_credential lc now p f") (metis fst_conv prod.exhaust)
    obtain k c where "c' = taken c" "p' = put_row k c' (cd_id c) p" "f' = persist_pool p' f"
      using sel by (rule select_head) blast
    then show ?thesis using Pool_select sel by (auto simp: touches_def row_changed_def taken_def)
  qed
qed (simp_all add: row_changed_def mark_ok_def mark_exhausted_def mark_auth_failed_def mark_touches)

section \<open>Several processes\<close>

text \<open>Processes that share the file: one is started, or one does something.\<close>

datatype fleet_op =
    Starts string "credential_input list" bool "credential_strategy option"
  | Does nat pool_op

fun fleet_step ::
  "(string \<Rightarrow> string \<Rightarrow> int) \<Rightarrow> credential_pool list \<times> state_file \<Rightarrow> fleet_op \<Rightarrow> credential_pool list \<times> state_file" where
  "fleet_step lc (ps, f) (Starts provider inputs memory strategy) =
     (let (p, f') = new_pool provider inputs memory strategy f in (ps @ [p], f'))"
| "fleet_step lc (ps, f) (Does n op) =
     (if n < length ps then let (p, f') = pool_step lc (ps ! n, f) op in (ps[n := p], f') else (ps, f))"

fun seeds :: "string \<Rightarrow> string \<Rightarrow> fleet_op \<Rightarrow> bool" where
  "seeds provider i (Starts provider' inputs memory strategy) = (provider' = provider \<and> i \<in> set (map input_id inputs))"
| "seeds provider i (Does n op) = False"

definition owns :: "string \<Rightarrow> string \<Rightarrow> credential_pool \<Rightarrow> bool" where
  "owns provider i p \<longleftrightarrow> cp_provider p = provider \<and> i \<in> set (cp_dirty p)"

lemma add_inputs_fields:
  "cp_provider (foldl add_input p inputs) = cp_provider p" "cp_memory (foldl add_input p inputs) = cp_memory p"
  "set (cp_dirty (foldl add_input p inputs)) = set (cp_dirty p) \<union> set (map input_id inputs)"
  by (induction inputs arbitrary: p) (simp_all add: add_input_def Let_def)

lemma new_pool_row:
  assumes "\<not> (provider' = provider \<and> i \<in> set (map input_id inputs))"
  shows "disk_row provider i (snd (new_pool provider' inputs memory strategy f)) = disk_row provider i f"
  using assms by (auto simp: new_pool_def Let_def persisted_row add_inputs_fields)

lemma fleet_step_row:
  assumes "\<not> seeds provider i op" "\<not> list_ex (owns provider i) (fst (fleet_step lc (ps, f) op))"
  shows "disk_row provider i (snd (fleet_step lc (ps, f) op)) = disk_row provider i f
    \<and> \<not> list_ex (owns provider i) ps"
proof (cases op)
  case (Starts provider' inputs memory strategy)
  then show ?thesis using assms new_pool_row[of provider' provider i inputs memory strategy f]
    by (cases "new_pool provider' inputs memory strategy f") (auto simp: list_ex_iff)
next
  case (Does n pop)
  show ?thesis
  proof (cases "n < length ps")
    case True
    define q where "q = pool_step lc (ps ! n, f) pop"
    have step: "fleet_step lc (ps, f) op = (ps[n := fst q], snd q)"
      using True Does by (simp add: q_def case_prod_beta)
    note effect = pool_step_touches[of lc "ps ! n" f pop, folded q_def, unfolded touches_def]
    have none: "\<not> owns provider i (fst q)"
      using assms(2) step set_update_memI[OF True, of "fst q"] by (auto simp: list_ex_iff)
    then have "disk_row provider i (snd q) = disk_row provider i f"
      using effect by (auto simp: persisted_row owns_def)
    moreover have "\<not> owns provider i p" if p: "p \<in> set ps" for p
    proof -
      obtain m where m: "m < length ps" "p = ps ! m" using p by (auto simp: in_set_conv_nth)
      show ?thesis
      proof (cases "m = n")
        case True
        then show ?thesis using none effect m by (auto simp: owns_def)
      next
        case False
        then have "p \<in> set (ps[n := fst q])" using m by (metis length_list_update nth_list_update_neq nth_mem)
        then show ?thesis using assms(2) step by (auto simp: list_ex_iff)
      qed
    qed
    ultimately show ?thesis using step by (auto simp: list_ex_iff)
  qed (use assms Does in simp)
qed

text \<open>C26: Processes do not overwrite what they have not touched: whatever is started and done, the row of a
  credential on disk - a lockout that another process recorded, say - is what it was, unless a process of
  the same provider was started with that credential or has itself chosen or marked it.\<close>
theorem foreign_rows_survive:
  assumes "\<not> list_ex (seeds provider i) ops"
    and "\<not> list_ex (owns provider i) (fst (foldl (fleet_step lc) (ps, f) ops))"
  shows "disk_row provider i (snd (foldl (fleet_step lc) (ps, f) ops)) = disk_row provider i f"
proof -
  have "disk_row provider i (snd (foldl (fleet_step lc) (ps, f) ops)) = disk_row provider i f
    \<and> \<not> list_ex (owns provider i) ps"
    using assms
  proof (induction ops rule: rev_induct)
    case (snoc op ops)
    obtain ps' f' where mid: "foldl (fleet_step lc) (ps, f) ops = (ps', f')" by force
    have "disk_row provider i (snd (fleet_step lc (ps', f') op)) = disk_row provider i f' \<and> \<not> list_ex (owns provider i) ps'"
      by (rule fleet_step_row) (use snoc.prems mid in simp_all)
    then show ?case using snoc mid by simp
  qed simp
  then show ?thesis by simp
qed

definition sample_row :: "string \<Rightarrow> pooled_credential" where
  "sample_row i = \<lparr>cd_id = i, cd_provider = ''p'', cd_auth = Api_key, cd_priority = 0, cd_status = Credential_ok,
     cd_last_error = None, cd_last_error_at = None, cd_cooldown = None, cd_usage = 0, cd_hash = None\<rparr>"

lemmas pool_unfold = new_pool_def add_input_def input_id_def seeded_def set_add_def
  value_or_def or_else_def opt_bind_def persist_pool_def overlay_def rows_of_def select_credential_def
  candidates_def is_usable_def sort_by_def compare_credentials_def put_row_def taken_def mark_auth_failed_def
  mark_ok_def mark_row_def disk_row_def

definition one_input :: "string \<Rightarrow> credential_input" where
  "one_input i = \<lparr>cr_id = Some i, cr_provider = ''p'', cr_auth = Api_key, cr_secret = None, cr_priority = None\<rparr>"

theorem foreign_rows_survive_witness:
  "disk_row ''p'' ''x'' (snd (foldl (fleet_step (\<lambda>_ _. 0)) ([], [(''p'', [(''x'', (sample_row ''x'')\<lparr>cd_status := Auth_failed\<rparr>)])])
     [Starts ''p'' [one_input ''y''] False None, Does 0 (Pool_select 0), Does 0 (Pool_auth_failed 5 ''y'' ''403'')]))
   = Some ((sample_row ''x'')\<lparr>cd_status := Auth_failed\<rparr>)"
proof -
  let ?ops = "[Starts ''p'' [one_input ''y''] False None, Does 0 (Pool_select 0), Does 0 (Pool_auth_failed 5 ''y'' ''403'')]"
  let ?f = "[(''p'', [(''x'', (sample_row ''x'')\<lparr>cd_status := Auth_failed\<rparr>)])]"
  have "\<not> list_ex (owns ''p'' ''x'') (fst (foldl (fleet_step (\<lambda>_ _. 0)) ([], ?f) ?ops))"
    by (simp add: pool_unfold one_input_def sample_row_def Let_def owns_def)
  from foreign_rows_survive[OF _ this] show ?thesis
    by (simp add: one_input_def input_id_def value_or_def disk_row_def rows_of_def)
qed

text \<open>A row that a process once touched is written again with every later write of that process, so it can
  undo a lockout that another process has recorded since: here the first process chooses \<open>x\<close>, the second
  records that \<open>x\<close> was refused, and a mark of the first for \<open>y\<close> makes \<open>x\<close> usable on disk again.\<close>

definition stale_ops :: "fleet_op list" where
  "stale_ops = [Starts ''p'' (map one_input [''x'', ''y'']) False None,
     Starts ''p'' (map one_input [''x'', ''y'']) False None, Does 0 (Pool_select 0),
     Does 1 (Pool_auth_failed 5 ''x'' ''403''), Does 0 (Pool_ok ''y'')]"

lemma stale_row_undoes_lockout:
  "map_option cd_status (disk_row ''p'' ''x'' (snd (foldl (fleet_step (\<lambda>_ _. 0)) ([], []) (butlast stale_ops)))) = Some Auth_failed
   \<and> map_option cd_status (disk_row ''p'' ''x'' (snd (foldl (fleet_step (\<lambda>_ _. 0)) ([], []) stale_ops))) = Some Credential_ok"
  by (simp add: stale_ops_def one_input_def pool_unfold Let_def)

section \<open>Lockouts end\<close>

definition rows_keyed :: "credential_pool \<Rightarrow> bool" where
  "rows_keyed p \<longleftrightarrow> distinct (map fst (cp_rows p)) \<and> list_all (\<lambda>(k, c). cd_id c = k) (cp_rows p)"

definition locked_until :: "rat \<Rightarrow> pooled_credential \<Rightarrow> bool" where
  "locked_until t c \<longleftrightarrow> (cd_status c = Exhausted \<or> cd_status c = Auth_failed) \<and> cd_cooldown c = Some t"

text \<open>A mark that locks the credential \<open>i\<close> out until \<open>t\<close>.\<close>

fun locks_out :: "string \<Rightarrow> rat \<Rightarrow> pool_op \<Rightarrow> bool" where
  "locks_out i t (Pool_exhausted now j reason until) = (j = i \<and> t = value_or until (now + 60 * 60))"
| "locks_out i t (Pool_auth_failed now j reason) = (j = i \<and> t = now + 10 * 60)"
| "locks_out i t _ = False"

lemma locks_out_row:
  assumes "locks_out i t op" "map_of (cp_rows p) i = Some c" "pool_step lc (p, f) op = (p', f')"
  shows "\<exists>c'. cp_rows p' = AList.update i c' (cp_rows p) \<and> cp_active p' = cp_active p \<and> cd_id c' = cd_id c \<and> locked_until t c'"
  using assms
  by (cases op)
    (auto simp: mark_exhausted_def mark_auth_failed_def mark_row_def Let_def locked_until_def put_row_def
      default_cooldown_seconds_def default_auth_failed_cooldown_seconds_def)

lemma selected_candidate:
  assumes "map_option (cd_id \<circ> fst) (fst (select_credential lc now p f)) = Some i"
  shows "\<exists>k d. (k, d) \<in> set (candidates now p) \<and> cd_id d = i"
proof -
  obtain d secret p2 f2 where "select_credential lc now p f = (Some (d, secret), p2, f2)" "cd_id d = i"
    using assms by (cases "select_credential lc now p f") auto
  moreover from this(1) obtain k d0 where "(k, d0) \<in> set (candidates now p)" "d = taken d0" by (rule select_head)
  ultimately show ?thesis by (auto simp: taken_def)
qed

lemma updated_rows:
  "distinct (map fst m) \<Longrightarrow> (k, d) \<in> set (AList.update i c m) \<longleftrightarrow> (if k = i then d = c else (k, d) \<in> set m)"
  using map_of_update[of i c m k] distinct_update[of m i c]
  by (metis (no_types, lifting) map_of_eq_Some_iff option.inject)

text \<open>C27: A lockout is bounded and heals: from the mark until the cooldown is over (ten minutes after a
  refusal; the time given, or an hour, after an exhaustion) the process does not choose the credential, and
  from then on it has a credential to choose again.\<close>
theorem lockout_holds_then_heals:
  assumes "rows_keyed p" "i \<in> set (cp_active p)" "map_of (cp_rows p) i = Some c"
    and "locks_out i t op" "pool_step lc (p, f) op = (p', f')"
  shows "if now < t then map_option (cd_id \<circ> fst) (fst (select_credential lc now p' f')) \<noteq> Some i
    else fst (select_credential lc now p' f') \<noteq> None"
proof -
  obtain c' where c': "cp_rows p' = AList.update i c' (cp_rows p)" "cp_active p' = cp_active p" "cd_id c' = cd_id c"
    "locked_until t c'" using locks_out_row[OF assms(4,3,5)] by blast
  have key: "cd_id c = i" using assms(1,3) by (auto simp: rows_keyed_def list_all_iff dest: map_of_SomeD)
  have rows: "(k, d) \<in> set (cp_rows p') \<longleftrightarrow> (if k = i then d = c' else (k, d) \<in> set (cp_rows p))" for k d
    using assms(1) by (simp add: c'(1) updated_rows rows_keyed_def)
  show ?thesis
  proof (cases "now < t")
    case True
    have "cd_id d \<noteq> i" if cand: "(k, d) \<in> set (candidates now p')" for k d
    proof -
      have kd: "(k, d) \<in> set (cp_rows p')" "is_usable now d" using cand by (simp_all add: candidates_def)
      show ?thesis
      proof (cases "k = i")
        case True
        then show ?thesis using kd rows c'(4) \<open>now < t\<close> by (auto simp: is_usable_def locked_until_def value_or_def)
      next
        case False
        then have "(k, d) \<in> set (cp_rows p)" using kd rows by simp
        with False show ?thesis using assms(1) by (auto simp: rows_keyed_def list_all_iff)
      qed
    qed
    then have "map_option (cd_id \<circ> fst) (fst (select_credential lc now p' f')) \<noteq> Some i"
      using selected_candidate[of lc now p' f' i] by blast
    then show ?thesis using True by simp
  next
    case False
    then have "(i, c') \<in> set (candidates now p')"
      using rows[of i c'] c' key assms(2) by (auto simp: candidates_def is_usable_def locked_until_def value_or_def)
    then have "candidates now p' \<noteq> []" by auto
    then show ?thesis using False select_none[of lc now p' f'] by simp
  qed
qed

theorem lockout_holds_then_heals_witness:
  "\<exists>p' f'. pool_step (\<lambda>_ _. 0) (\<lparr>cp_provider = ''p'', cp_memory = True, cp_strategy = Round_robin,
       cp_rows = [(''x'', sample_row ''x'')], cp_secrets = [], cp_active = [''x''], cp_dirty = []\<rparr>, [])
       (Pool_auth_failed 5 ''x'' ''403'') = (p', f')
     \<and> map_option (cd_id \<circ> fst) (fst (select_credential (\<lambda>_ _. 0) 600 p' f')) \<noteq> Some ''x''
     \<and> fst (select_credential (\<lambda>_ _. 0) 605 p' f') \<noteq> None"
proof -
  let ?p = "\<lparr>cp_provider = ''p'', cp_memory = True, cp_strategy = Round_robin,
       cp_rows = [(''x'', sample_row ''x'')], cp_secrets = [], cp_active = [''x''], cp_dirty = []\<rparr>"
  obtain p' f' where step: "pool_step (\<lambda>_ _. 0) (?p, []) (Pool_auth_failed 5 ''x'' ''403'') = (p', f')" by force
  have "rows_keyed ?p" "''x'' \<in> set (cp_active ?p)" "map_of (cp_rows ?p) ''x'' = Some (sample_row ''x'')"
    "locks_out ''x'' 605 (Pool_auth_failed 5 ''x'' ''403'')"
    by (simp_all add: rows_keyed_def sample_row_def)
  from lockout_holds_then_heals[OF this step, of 600] lockout_holds_then_heals[OF this step, of 605] step
  show ?thesis by auto
qed

end
