(* ===== verification/Rate_Guard.thy ===== *)
theory Rate_Guard
  imports Path_Lock Usage_Accounting
begin

text \<open>
  \<open>packages/sdk/src/providers/credentials/rateGuard.ts\<close>: after a 429 the guard of a provider writes down
  until when the provider is not to be asked, in a file all processes read (or in memory). \<open>Number\<close> and
  \<open>Date.parse\<close> are parameters; the clock is read once for each operation; a file that is missing or cannot
  be parsed is no state; both kinds of headers are a list of names with values.
\<close>

section \<open>Durations\<close>

text \<open>Go's durations: \<open>6m0s\<close>, \<open>1.5s\<close>, \<open>880ms\<close>.\<close>

definition micro_sign :: string where "micro_sign = [CHR 0xC2, CHR 0xB5]"

definition greek_mu :: string where "greek_mu = [CHR 0xCE, CHR 0xBC]"

definition go_duration_units :: "(string \<times> rat) list" where
  "go_duration_units =
     [(''ns'', 1 / 10 ^ 9), (''us'', 1 / 10 ^ 6), (micro_sign @ ''s'', 1 / 10 ^ 6), (greek_mu @ ''s'', 1 / 10 ^ 6),
      (''ms'', 1 / 10 ^ 3), (''h'', 3600), (''m'', 60), (''s'', 1)]"

definition decimal_value :: "string \<Rightarrow> rat" where
  "decimal_value ds = foldl (\<lambda>n c. 10 * n + of_nat (of_char c - 48)) 0 ds"

text \<open>The first unit, in the order of the regular expression, that the text starts with (in any case), as
  it is written.\<close>

definition leading_unit :: "string \<Rightarrow> string option" where
  "leading_unit s =
     (case filter (\<lambda>u. map to_lower_char (take (length u) s) = u) (map fst go_duration_units) of
        [] \<Rightarrow> None | u # _ \<Rightarrow> Some (take (length u) s))"

text \<open>One amount with its unit, and the rest.\<close>

definition duration_amount :: "string \<Rightarrow> (rat \<times> string) option" where
  "duration_amount s =
     (let ds = takeWhile is_digit s; rest = dropWhile is_digit s in
      if ds = [] then None
      else case rest of
        c # more' \<Rightarrow>
          (let fs = takeWhile is_digit more' in
           if c = CHR ''.'' \<and> fs \<noteq> []
           then Some (decimal_value ds + decimal_value fs / 10 ^ length fs, dropWhile is_digit more')
           else Some (decimal_value ds, rest))
      | [] \<Rightarrow> Some (decimal_value ds, rest))"

definition duration_segment :: "string \<Rightarrow> (rat \<times> string \<times> string) option" where
  "duration_segment s =
     (case duration_amount s of
        None \<Rightarrow> None
      | Some (n, rest) \<Rightarrow> map_option (\<lambda>u. (n, u, drop (length u) rest)) (leading_unit rest))"

lemma decimals_shorter: "takeWhile is_digit s \<noteq> [] \<Longrightarrow> length (dropWhile is_digit s) < length s"
  by (metis append_Nil length_append length_greater_0_conv less_add_same_cancel2 takeWhile_dropWhile_id)

lemma duration_amount_shorter:
  assumes "duration_amount s = Some (n, rest)"
  shows "length rest < length s"
proof -
  have digits: "takeWhile is_digit s \<noteq> []" using assms by (auto simp: duration_amount_def split: if_splits)
  have "length rest \<le> length (dropWhile is_digit s)"
  proof (cases "dropWhile is_digit s")
    case (Cons c cs)
    have "length (dropWhile is_digit cs) \<le> length cs" by (rule length_dropWhile_le)
    moreover have "length (dropWhile is_digit s) = Suc (length cs)" using arg_cong[OF Cons, of length] by simp
    moreover have "rest = c # cs \<or> rest = dropWhile is_digit cs"
      using assms digits unfolding duration_amount_def Let_def Cons by (auto split: if_splits)
    ultimately show ?thesis by auto
  next
    case Nil
    show ?thesis using assms digits unfolding duration_amount_def Let_def Nil by simp
  qed
  then show ?thesis using decimals_shorter[OF digits] by simp
qed

lemma duration_segment_shorter [termination_simp]:
  "duration_segment s = Some (n, u, rest) \<Longrightarrow> length rest < length s"
  using duration_amount_shorter by (fastforce simp: duration_segment_def split: option.splits)

fun go_segments :: "string \<Rightarrow> rat option" where
  "go_segments s =
     (if s = [] then Some 0
      else case duration_segment s of
        None \<Rightarrow> None
      | Some (n, u, rest) \<Rightarrow>
          (case map_of go_duration_units u of
             None \<Rightarrow> None | Some seconds \<Rightarrow> map_option (\<lambda>t. n * seconds + t) (go_segments rest)))"

declare go_segments.simps [simp del]

definition parse_go_duration_seconds :: "string \<Rightarrow> rat option" where
  "parse_go_duration_seconds s =
     (let body = (if starts_with s ''-'' \<or> starts_with s ''+'' then tl s else s) in
      if body = [] then None
      else map_option (\<lambda>t. if starts_with s ''-'' then - t else t) (go_segments body))"

section \<open>Headers\<close>

type_synonym headers = "(string \<times> string option) list"

definition get_header :: "headers \<Rightarrow> string \<Rightarrow> string option" where
  "get_header hs name =
     (case filter (\<lambda>(k, v). map to_lower_char k = map to_lower_char name) hs of
        [] \<Rightarrow> None | (k, v) # _ \<Rightarrow> v)"

text \<open>A finite result of \<open>Date.parse\<close>, in seconds.\<close>

fun date_seconds :: "js_number \<Rightarrow> rat option" where
  "date_seconds (Num ms) = Some (ms / 1000)"
| "date_seconds _ = None"

definition parse_reset_header ::
  "(string \<Rightarrow> js_number) \<Rightarrow> (string \<Rightarrow> js_number) \<Rightarrow> string option \<Rightarrow> rat \<Rightarrow> rat option" where
  "parse_reset_header number date value now =
     (case truthy_string value of
        None \<Rightarrow> None
      | Some v \<Rightarrow>
          (case number (trim v) of
             Num n \<Rightarrow> Some (if 1000000000000 < n then n / 1000 else if 1000000000 < n then n else now + max 0 n)
           | _ \<Rightarrow> (case parse_go_duration_seconds (trim v) of
               Some s \<Rightarrow> Some (now + max 0 s) | None \<Rightarrow> date_seconds (date (trim v)))))"

definition parse_retry_after ::
  "(string \<Rightarrow> js_number) \<Rightarrow> (string \<Rightarrow> js_number) \<Rightarrow> string option \<Rightarrow> rat \<Rightarrow> rat option" where
  "parse_retry_after number date value now =
     (case truthy_string value of
        None \<Rightarrow> None
      | Some v \<Rightarrow> (case number (trim v) of Num n \<Rightarrow> Some (now + max 0 n) | _ \<Rightarrow> date_seconds (date v)))"

definition reset_time_from_headers ::
  "(string \<Rightarrow> js_number) \<Rightarrow> (string \<Rightarrow> js_number) \<Rightarrow> headers option \<Rightarrow> rat \<Rightarrow> rat option" where
  "reset_time_from_headers number date headers now =
     (case headers of
        None \<Rightarrow> None
      | Some hs \<Rightarrow>
          or_else (parse_reset_header number date (get_header hs ''x-ratelimit-reset-requests-1h'') now)
         (or_else (parse_reset_header number date (get_header hs ''x-ratelimit-reset-requests'') now)
         (or_else (parse_reset_header number date (get_header hs ''x-ratelimit-reset'') now)
                  (parse_retry_after number date (get_header hs ''retry-after'') now))))"

section \<open>The guard\<close>

definition default_max_sleep_seconds :: rat where "default_max_sleep_seconds = 10 * 60"

definition no_header_base_cooldown_seconds :: rat where "no_header_base_cooldown_seconds = 60"

definition no_header_max_cooldown_seconds :: rat where "no_header_max_cooldown_seconds = 15 * 60"

definition header_max_cooldown_seconds :: rat where "header_max_cooldown_seconds = 60 * 60"

record rate_limit_state =
  rs_until :: rat
  rs_reason :: string
  rs_detected :: rat

record rate_guard =
  rg_provider :: string
  rg_memory :: bool
  rg_state :: "rate_limit_state option"      \<comment> \<open>\<open>memState\<close>\<close>
  rg_max_sleep :: rat

text \<open>The files, by provider.\<close>

type_synonym rate_files = "(string \<times> rate_limit_state) list"

definition new_guard :: "string \<Rightarrow> bool \<Rightarrow> rat option \<Rightarrow> rate_guard" where
  "new_guard provider memory max_sleep =
     \<lparr>rg_provider = provider, rg_memory = memory, rg_state = None,
      rg_max_sleep = value_or max_sleep default_max_sleep_seconds\<rparr>"

definition read_guard :: "rate_guard \<Rightarrow> rate_files \<Rightarrow> rate_limit_state option" where
  "read_guard g d = (if rg_memory g then rg_state g else map_of d (rg_provider g))"

text \<open>A request goes on, is refused, or sleeps first.\<close>

datatype request_gate = Go_ahead | Refuse string rat string | Sleep_first rat

definition before_request :: "rat \<Rightarrow> rate_guard \<Rightarrow> rate_files \<Rightarrow> request_gate" where
  "before_request now g d =
     (case read_guard g d of
        None \<Rightarrow> Go_ahead
      | Some s \<Rightarrow>
          (let remaining = rs_until s - now in
           if remaining \<le> 0 then Go_ahead
           else if rg_max_sleep g < remaining then Refuse (rg_provider g) (rs_until s) (rs_reason s)
           else Sleep_first remaining))"

text \<open>The sleep, with the time from its start after which its signal aborts, if it does.\<close>

definition sleep_seconds :: "rat \<Rightarrow> rat option \<Rightarrow> string + unit" where
  "sleep_seconds seconds abort_after =
     (if seconds \<le> 0 then Inr ()
      else case abort_after of
        None \<Rightarrow> Inr ()
      | Some t \<Rightarrow> if t < seconds then Inl ''aborted while waiting for provider rate-limit reset'' else Inr ())"

definition no_header_cooldown_seconds :: "rat \<Rightarrow> rate_guard \<Rightarrow> rate_files \<Rightarrow> rat" where
  "no_header_cooldown_seconds now g d =
     (case read_guard g d of
        None \<Rightarrow> no_header_base_cooldown_seconds
      | Some s \<Rightarrow>
          (if now < rs_until s
           then min (max ((rs_until s - rs_detected s) * 2) no_header_base_cooldown_seconds)
                  no_header_max_cooldown_seconds
           else no_header_base_cooldown_seconds))"

definition mark_rate_limited ::
  "(string \<Rightarrow> js_number) \<Rightarrow> (string \<Rightarrow> js_number) \<Rightarrow> rat \<Rightarrow> headers option \<Rightarrow> string option
   \<Rightarrow> rate_guard \<Rightarrow> rate_files \<Rightarrow> rate_limit_state \<times> rate_guard \<times> rate_files" where
  "mark_rate_limited number date now headers reason g d =
     (let capped = map_option (\<lambda>t. min t (now + header_max_cooldown_seconds))
            (reset_time_from_headers number date headers now);
          s = \<lparr>rs_until = value_or capped (now + no_header_cooldown_seconds now g d),
               rs_reason = value_or reason ''rate limited'', rs_detected = now\<rparr>
      in if rg_memory g then (s, g\<lparr>rg_state := Some s\<rparr>, d)
         else (s, g, AList.update (rg_provider g) s d))"

section \<open>What is written down\<close>

lemma no_header_bounds:
  "60 \<le> no_header_cooldown_seconds now g d" "no_header_cooldown_seconds now g d \<le> 900"
  by (auto simp: no_header_cooldown_seconds_def no_header_base_cooldown_seconds_def no_header_max_cooldown_seconds_def
      split: option.split)

definition bounded_state :: "rat \<Rightarrow> rate_limit_state \<Rightarrow> bool" where
  "bounded_state t s \<longleftrightarrow> rs_detected s \<le> t \<and> rs_until s \<le> rs_detected s + 3600"

lemma mark_bounded: "bounded_state now (fst (mark_rate_limited number date now hs reason g d))"
  using no_header_bounds(2)[of now g d]
  by (auto simp: mark_rate_limited_def Let_def bounded_state_def header_max_cooldown_seconds_def value_or_def
      split: option.split)

section \<open>Guards over one set of files\<close>

datatype guard_op =
    Mark nat rat "headers option" "string option"

fun guard_step ::
  "(string \<Rightarrow> js_number) \<Rightarrow> (string \<Rightarrow> js_number) \<Rightarrow> rate_guard list \<times> rate_files \<Rightarrow> guard_op
   \<Rightarrow> rate_guard list \<times> rate_files" where
  "guard_step number date (gs, d) (Mark n now hs reason) =
     (if n < length gs
      then let (_, g, d') = mark_rate_limited number date now hs reason (gs ! n) d in (gs[n := g], d')
      else (gs, d))"

fun marked_at :: "guard_op \<Rightarrow> rat" where "marked_at (Mark n now hs reason) = now"

definition guards_bounded :: "rat \<Rightarrow> rate_guard list \<times> rate_files \<Rightarrow> bool" where
  "guards_bounded t gd \<longleftrightarrow>
     (\<forall>g \<in> set (fst gd). pred_option (bounded_state t) (rg_state g)) \<and> (\<forall>s \<in> snd ` set (snd gd). bounded_state t s)"

lemma bounded_later: "bounded_state t s \<Longrightarrow> t \<le> t' \<Longrightarrow> bounded_state t' s"
  by (auto simp: bounded_state_def)

lemma set_update_values: "snd ` set (AList.update k v m) \<subseteq> insert v (snd ` set m)"
  by (induction m) auto

lemma guard_step_bounded:
  assumes "guards_bounded t (gs, d)" "marked_at op \<le> t"
  shows "guards_bounded t (guard_step number date (gs, d) op)"
proof (cases op)
  case (Mark n now hs reason)
  obtain s g d' where m: "mark_rate_limited number date now hs reason (gs ! n) d = (s, g, d')" by (metis prod_cases3)
  have s: "bounded_state t s"
    using mark_bounded[of now number date hs reason "gs ! n" d] m assms(2) Mark by (auto intro: bounded_later)
  have parts: "rg_state g = Some s \<and> d' = d \<or> g = gs ! n \<and> d' = AList.update (rg_provider (gs ! n)) s d"
    using m by (auto simp: mark_rate_limited_def Let_def split: if_splits)
  have "pred_option (bounded_state t) (rg_state g)" if "n < length gs"
    using parts s assms(1) that by (auto simp: guards_bounded_def)
  moreover have "bounded_state t x" if "x \<in> snd ` set d'" for x
  proof -
    have "x = s \<or> x \<in> snd ` set d"
      using parts that set_update_values[of "rg_provider (gs ! n)" s d] by blast
    then show ?thesis using s assms(1) by (auto simp: guards_bounded_def)
  qed
  moreover have "h \<in> set gs \<or> h = g" if "h \<in> set (gs[n := g])" for h
    using that set_update_subset_insert[of gs n g] by auto
  ultimately show ?thesis using assms(1) Mark m by (fastforce simp: guards_bounded_def)
qed

lemma guard_run_bounded:
  "guards_bounded t gd \<Longrightarrow> list_all (\<lambda>op. marked_at op \<le> t) ops \<Longrightarrow> guards_bounded t (foldl (guard_step number date) gd ops)"
proof (induction ops arbitrary: gd)
  case (Cons op ops)
  then show ?case using guard_step_bounded[of t "fst gd" "snd gd" op number date] by simp
qed simp

text \<open>C28: No answer of a provider shuts it out for good: whatever headers come with the 429s that any number
  of processes record up to a time, no process waits longer than its own bound before a request, and an
  hour after that time every process goes ahead.\<close>
theorem rate_limit_ends:
  assumes "list_all (\<lambda>op. marked_at op \<le> t) ops"
    and "foldl (guard_step number date) (map (\<lambda>(provider, memory, max_sleep). new_guard provider memory max_sleep) specs, []) ops = (gs, d)"
    and "g \<in> set gs"
  shows "(case before_request now g d of
      Sleep_first s \<Rightarrow> 0 < s \<and> s \<le> rg_max_sleep g \<and> now + s \<le> t + 3600
    | Refuse provider until reason \<Rightarrow> now + rg_max_sleep g < until \<and> until \<le> t + 3600
    | Go_ahead \<Rightarrow> True)
    \<and> (before_request now g d \<noteq> Go_ahead \<longrightarrow> now < t + 3600)"
proof -
  have "guards_bounded t (map (\<lambda>(provider, memory, max_sleep). new_guard provider memory max_sleep) specs, [])"
    by (auto simp: guards_bounded_def new_guard_def)
  from guard_run_bounded[OF this assms(1), of number date] have bounded: "guards_bounded t (gs, d)"
    using assms(2) by simp
  have "rs_until s \<le> t + 3600" if "read_guard g d = Some s" for s
  proof -
    have "bounded_state t s"
      using that bounded assms(3) map_of_SomeD[of d "rg_provider g" s]
      by (force simp: read_guard_def guards_bounded_def split: if_splits)
    then show ?thesis by (auto simp: bounded_state_def)
  qed
  then show ?thesis by (cases "read_guard g d") (auto simp: before_request_def Let_def)
qed

text \<open>Marks without headers while the last one still holds.\<close>

fun repeated_marks :: "rat list \<Rightarrow> rate_guard \<Rightarrow> rate_files \<Rightarrow> (rat \<times> rat) list" where
  "repeated_marks [] g d = []"
| "repeated_marks (now # ts) g d =
     (let (s, g', d') = mark_rate_limited (\<lambda>_. NaN) (\<lambda>_. NaN) now None None g d in
      (now, rs_until s) # repeated_marks ts g' d')"

fun still_holding :: "rat option \<Rightarrow> (rat \<times> rat) list \<Rightarrow> bool" where
  "still_holding u [] = True"
| "still_holding u ((now, until) # xs) =
     ((case u of None \<Rightarrow> True | Some t \<Rightarrow> now < t) \<and> still_holding (Some until) xs)"

lemma mark_without_headers:
  assumes "mark_rate_limited number date now None reason g d = (s, g', d')"
  shows "rs_until s - rs_detected s = no_header_cooldown_seconds now g d" "rs_detected s = now"
    "read_guard g' d' = Some s"
  using assms
  by (auto simp: mark_rate_limited_def Let_def reset_time_from_headers_def value_or_def read_guard_def update_conv'
      split: if_splits)

lemma repeated_from:
  "read_guard g d = Some s \<Longrightarrow> rs_until s - rs_detected s = min 900 (60 * 2 ^ k)
   \<Longrightarrow> still_holding (Some (rs_until s)) (repeated_marks ts g d)
   \<Longrightarrow> map (\<lambda>(now, until). until - now) (repeated_marks ts g d) = map (\<lambda>n. min 900 (60 * 2 ^ n)) [Suc k..<Suc k + length ts]"
proof (induction ts arbitrary: g d s k)
  case (Cons now ts)
  obtain s' g' d' where m: "mark_rate_limited (\<lambda>_. NaN) (\<lambda>_. NaN) now None None g d = (s', g', d')"
    by (metis prod_cases3)
  note m' = mark_without_headers[OF m]
  have holds: "now < rs_until s" "still_holding (Some (rs_until s')) (repeated_marks ts g' d')"
    using Cons.prems(3) m by simp_all
  have grow: "min (max (x * 2) 60) 900 = min 900 (60 * 2 ^ Suc k)" if "x = min 900 (60 * 2 ^ k)" for x :: rat
  proof -
    have "(1 :: rat) \<le> 2 ^ k" by simp
    then have "\<not> 2 * 2 ^ k \<le> (1 :: rat)" by linarith
    then show ?thesis unfolding that by (auto simp: min_def max_def)
  qed
  have delay: "rs_until s' - rs_detected s' = min 900 (60 * 2 ^ Suc k)"
    unfolding m'(1) using Cons.prems(1) holds(1) grow[OF Cons.prems(2)]
    by (simp add: no_header_cooldown_seconds_def no_header_base_cooldown_seconds_def no_header_max_cooldown_seconds_def)
  have "[Suc k..<Suc k + length (now # ts)] = Suc k # [Suc (Suc k)..<Suc (Suc k) + length ts]"
    using upt_conv_Cons[of "Suc k" "Suc k + Suc (length ts)"] by (simp del: upt_Suc)
  then show ?case using Cons.IH[OF m'(3) delay holds(2)] m m'(2) delay by simp
qed simp

text \<open>429s without headers that each come while the last one still holds double the wait every time, from
  one minute up to a quarter of an hour.\<close>
theorem repeated_marks_double:
  assumes "read_guard g d = None" "still_holding None (repeated_marks ts g d)"
  shows "map (\<lambda>(now, until). until - now) (repeated_marks ts g d) = map (\<lambda>n. min 900 (60 * 2 ^ n)) [0..<length ts]"
proof (cases ts)
  case (Cons now ts')
  obtain s' g' d' where m: "mark_rate_limited (\<lambda>_. NaN) (\<lambda>_. NaN) now None None g d = (s', g', d')"
    by (metis prod_cases3)
  note m' = mark_without_headers[OF m]
  have delay: "rs_until s' - rs_detected s' = min 900 (60 * 2 ^ 0)"
    unfolding m'(1) using assms(1) by (simp add: no_header_cooldown_seconds_def no_header_base_cooldown_seconds_def)
  have "still_holding (Some (rs_until s')) (repeated_marks ts' g' d')" using assms(2) Cons m by simp
  from repeated_from[OF m'(3) delay this] show ?thesis
    using Cons m m'(2) delay upt_conv_Cons[of 0 "Suc 0 + length ts'"] by (simp del: upt_Suc)
qed simp

theorem rate_limit_ends_witness:
  "\<exists>gs d. foldl (guard_step (\<lambda>_. Num 999999999) (\<lambda>_. NaN)) ([new_guard ''p'' False None, new_guard ''p'' False None], [])
      [Mark 0 5 (Some [(''Retry-After'', Some ''999999999'')]) None] = (gs, d)
     \<and> before_request 5 (gs ! 1) d \<noteq> Go_ahead \<and> before_request 3605 (gs ! 1) d = Go_ahead"
proof -
  let ?ops = "[Mark 0 5 (Some [(''Retry-After'', Some ''999999999'')]) None]"
  obtain gs d where run: "foldl (guard_step (\<lambda>_. Num 999999999) (\<lambda>_. NaN)) ([new_guard ''p'' False None, new_guard ''p'' False None], []) ?ops
      = (gs, d)" by force
  have locked: "case foldl (guard_step (\<lambda>_. Num 999999999) (\<lambda>_. NaN)) ([new_guard ''p'' False None, new_guard ''p'' False None], []) ?ops
      of (gs, d) \<Rightarrow> length gs = 2 \<and> before_request 5 (gs ! 1) d \<noteq> Go_ahead" by code_simp
  have mem: "gs ! 1 \<in> set gs" using locked run by simp
  have specs: "foldl (guard_step (\<lambda>_. Num 999999999) (\<lambda>_. NaN))
      (map (\<lambda>(provider, memory, max_sleep). new_guard provider memory max_sleep) [(''p'', False, None), (''p'', False, None)], []) ?ops
      = (gs, d)" using run by simp
  have "before_request 3605 (gs ! 1) d \<noteq> Go_ahead \<longrightarrow> (3605 :: rat) < 5 + 3600"
    by (rule rate_limit_ends[OF _ specs mem, THEN conjunct2]) simp
  then show ?thesis using run locked by auto
qed

theorem repeated_marks_double_witness:
  "map (\<lambda>(now, until). until - now) (repeated_marks [0, 30, 60] (new_guard ''p'' True None) []) = [60, 120, 240]"
proof -
  have "read_guard (new_guard ''p'' True None) [] = None" by (simp add: read_guard_def new_guard_def)
  moreover have "still_holding None (repeated_marks [0, 30, 60] (new_guard ''p'' True None) [])" by code_simp
  moreover have "map (\<lambda>n. min 900 (60 * 2 ^ n)) [0..<length [0 :: rat, 30, 60]] = [60, 120, 240 :: rat]" by code_simp
  ultimately show ?thesis using repeated_marks_double by metis
qed

end
