(* ===== verification/Event_Bus.thy ===== *)
theory Event_Bus
  imports Sdk_Prelude "HOL-Library.AList" "HOL-Library.Sublist"
begin

text \<open>
  The event buses of a server and the streams that read them: \<open>src/server/eventBus.ts\<close> (a bus per
  session, with a ring of the last events) and the SSE route \<open>src/server/routes/events.ts\<close>. The state
  holds every bus and every stream ever made, by index; the module's map holds the index of the bus of a
  session. A step is one synchronous run of the event loop. Subscribers are the streams, whose callback
  does not throw; publishers stamp and publish an event in one run. That a session id is valid and owned
  by the caller has been checked when a stream is opened.
\<close>

section \<open>Data\<close>

text \<open>An event: its type, the number its publisher gave it, and the rest.\<close>

record 'd server_event =
  ev_type :: string
  ev_seq :: nat
  ev_data :: 'd

definition is_terminal :: "'d server_event \<Rightarrow> bool" where
  "is_terminal ev \<longleftrightarrow> ev_type ev = ''turn_complete'' \<or> ev_type ev = ''turn_error''"

text \<open>\<open>eb_closed\<close> is also whether the abort signal of the bus has fired. A turn's abort controller is a
  number.\<close>

record 'd event_bus =
  eb_subscribers :: "nat list"
  eb_ring :: "'d server_event list"
  eb_max_ring :: nat
  eb_turn_start :: nat
  eb_turn_active :: bool
  eb_seq :: nat
  eb_closed :: bool
  eb_turn_abort :: "nat option"
  eb_last_activity :: rat

text \<open>A stream writes its first line, waits for an event, has been woken, writes an event, or is over.\<close>

datatype 'd stream_phase = Opening | Parked | Woken | Writing "'d server_event" | Ended

record 'd event_stream =
  es_bus :: nat
  es_cursor :: "nat option"       \<comment> \<open>\<open>lastEventId\<close>\<close>
  es_follow :: bool
  es_queue :: "'d server_event list"
  es_phase :: "'d stream_phase"
  es_stopped :: bool
  es_listening :: bool            \<comment> \<open>its abort listeners are registered\<close>
  es_gone :: bool                 \<comment> \<open>the signal of the request has fired\<close>
  es_sent :: "'d server_event list"

text \<open>\<open>gw_cancelled\<close> are the turn controllers that have been aborted; \<open>gw_published\<close> is the record of what
  was published on which bus, which no code reads.\<close>

record 'd gateway =
  gw_buses :: "'d event_bus list"
  gw_map :: "(string \<times> nat) list"
  gw_ring_size :: nat
  gw_streams :: "'d event_stream list"
  gw_cancelled :: "nat list"
  gw_published :: "(nat \<times> 'd server_event) list"

definition default_max_ring :: nat where "default_max_ring = 512"

definition new_gateway :: "'d gateway" where
  "new_gateway = \<lparr>gw_buses = [], gw_map = [], gw_ring_size = default_max_ring, gw_streams = [],
     gw_cancelled = [], gw_published = []\<rparr>"

definition set_bus :: "nat \<Rightarrow> ('d event_bus \<Rightarrow> 'd event_bus) \<Rightarrow> 'd gateway \<Rightarrow> 'd gateway" where
  "set_bus b f g = g\<lparr>gw_buses := (gw_buses g)[b := f (gw_buses g ! b)]\<rparr>"

definition set_stream :: "nat \<Rightarrow> ('d event_stream \<Rightarrow> 'd event_stream) \<Rightarrow> 'd gateway \<Rightarrow> 'd gateway" where
  "set_stream i f g = g\<lparr>gw_streams := (gw_streams g)[i := f (gw_streams g ! i)]\<rparr>"

section \<open>A bus\<close>

definition new_bus :: "int \<Rightarrow> rat \<Rightarrow> 'd event_bus" where
  "new_bus max_ring now =
     \<lparr>eb_subscribers = [], eb_ring = [], eb_max_ring = (if 0 < max_ring then nat max_ring else default_max_ring),
      eb_turn_start = 0, eb_turn_active = False, eb_seq = 0, eb_closed = False, eb_turn_abort = None,
      eb_last_activity = now\<rparr>"

definition mark_turn_start :: "rat \<Rightarrow> 'd event_bus \<Rightarrow> 'd event_bus" where
  "mark_turn_start now b =
     b\<lparr>eb_last_activity := now, eb_turn_start := eb_seq b + 1, eb_turn_active := True\<rparr>"

text \<open>What \<open>publish\<close> keeps; the subscribers are called in \<open>publish_event\<close>.\<close>

definition retain :: "rat \<Rightarrow> 'd server_event \<Rightarrow> 'd event_bus \<Rightarrow> 'd event_bus" where
  "retain now ev b =
     (if eb_closed b then b\<lparr>eb_last_activity := now\<rparr>
      else let r = eb_ring b @ [ev] in
        b\<lparr>eb_last_activity := now, eb_ring := (if eb_max_ring b < length r then tl r else r),
          eb_turn_active := (eb_turn_active b \<and> \<not> is_terminal ev)\<rparr>)"

definition replay :: "nat option \<Rightarrow> 'd event_bus \<Rightarrow> 'd server_event list" where
  "replay cursor b =
     (case cursor of
        Some n \<Rightarrow> filter (\<lambda>ev. n < ev_seq ev) (eb_ring b)
      | None \<Rightarrow> filter (\<lambda>ev. eb_turn_start b \<le> ev_seq ev) (eb_ring b))"

section \<open>A stream\<close>

definition wake :: "'d event_stream \<Rightarrow> 'd event_stream" where
  "wake s = (case es_phase s of Parked \<Rightarrow> s\<lparr>es_phase := Woken\<rparr> | _ \<Rightarrow> s)"

definition on_event :: "'d server_event \<Rightarrow> 'd event_stream \<Rightarrow> 'd event_stream" where
  "on_event ev s = wake (s\<lparr>es_queue := es_queue s @ [ev]\<rparr>)"

definition stop_stream :: "'d event_stream \<Rightarrow> 'd event_stream" where
  "stop_stream s = wake (s\<lparr>es_stopped := True\<rparr>)"

definition take_event :: "'d event_stream \<Rightarrow> 'd event_stream" where
  "take_event s =
     (case es_queue s of [] \<Rightarrow> s\<lparr>es_phase := Parked\<rparr> | ev # q \<Rightarrow> s\<lparr>es_queue := q, es_phase := Writing ev\<rparr>)"

text \<open>The head of the loop; and the code after the wait, which looks at the queue first.\<close>

definition loop_head :: "'d event_stream \<Rightarrow> 'd event_stream" where
  "loop_head s = (if es_stopped s then s\<lparr>es_phase := Ended, es_listening := False\<rparr> else take_event s)"

definition resume_stream :: "'d event_stream \<Rightarrow> 'd event_stream" where
  "resume_stream s = (if es_queue s = [] then loop_head s else take_event s)"

definition event_written :: "'d server_event \<Rightarrow> 'd event_stream \<Rightarrow> 'd event_stream" where
  "event_written ev s =
     loop_head (s\<lparr>es_sent := es_sent s @ [ev],
       es_stopped := (es_stopped s \<or> \<not> es_follow s \<and> is_terminal ev)\<rparr>)"

section \<open>Operations of the server\<close>

definition get_or_create_bus :: "string \<Rightarrow> int option \<Rightarrow> rat \<Rightarrow> 'd gateway \<Rightarrow> nat \<times> 'd gateway" where
  "get_or_create_bus session max_ring now g =
     (case map_of (gw_map g) session of
        Some b \<Rightarrow> (b, g)
      | None \<Rightarrow>
          (let b = length (gw_buses g) in
           (b, g\<lparr>gw_buses := gw_buses g @ [new_bus (value_or max_ring (int (gw_ring_size g))) now],
                 gw_map := gw_map g @ [(session, b)]\<rparr>)))"

definition peek_bus :: "string \<Rightarrow> 'd gateway \<Rightarrow> 'd event_bus option" where
  "peek_bus session g = map_option (\<lambda>b. gw_buses g ! b) (map_of (gw_map g) session)"

definition live_bus_session_ids :: "'d gateway \<Rightarrow> string list" where
  "live_bus_session_ids g = map fst (gw_map g)"

definition set_default_ring_size :: "js_number \<Rightarrow> 'd gateway \<Rightarrow> 'd gateway" where
  "set_default_ring_size n g =
     g\<lparr>gw_ring_size := (case n of
        Num x \<Rightarrow> if x \<in> \<int> \<and> 0 < x then nat \<lfloor>x\<rfloor> else default_max_ring
      | _ \<Rightarrow> default_max_ring)\<rparr>"

text \<open>The subscribers are called one after the other.\<close>

definition call_subscribers :: "'d server_event \<Rightarrow> nat list \<Rightarrow> 'd event_stream list \<Rightarrow> 'd event_stream list" where
  "call_subscribers ev subs ss = foldl (\<lambda>ss i. ss[i := on_event ev (ss ! i)]) ss subs"

definition publish_event :: "rat \<Rightarrow> nat \<Rightarrow> 'd server_event \<Rightarrow> 'd gateway \<Rightarrow> 'd gateway" where
  "publish_event now b ev g =
     (let bus = gw_buses g ! b; g' = set_bus b (retain now ev) g in
      if eb_closed bus then g'
      else g'\<lparr>gw_streams := call_subscribers ev (eb_subscribers bus) (gw_streams g),
              gw_published := gw_published g @ [(b, ev)]\<rparr>)"

text \<open>A publisher takes the next number and publishes.\<close>

definition emit_event :: "rat \<Rightarrow> nat \<Rightarrow> string \<Rightarrow> 'd \<Rightarrow> 'd gateway \<Rightarrow> 'd gateway" where
  "emit_event now b type data g =
     (let n = eb_seq (gw_buses g ! b) + 1 in
      publish_event now b \<lparr>ev_type = type, ev_seq = n, ev_data = data\<rparr> (set_bus b (\<lambda>bus. bus\<lparr>eb_seq := n\<rparr>) g))"

definition close_bus :: "nat \<Rightarrow> 'd gateway \<Rightarrow> 'd gateway" where
  "close_bus b g =
     (if eb_closed (gw_buses g ! b) then g
      else set_bus b (\<lambda>bus. bus\<lparr>eb_closed := True, eb_subscribers := [], eb_ring := []\<rparr>)
        (g\<lparr>gw_streams := map (\<lambda>s. if es_bus s = b \<and> es_listening s then stop_stream s else s) (gw_streams g)\<rparr>))"

definition dispose_bus :: "string \<Rightarrow> 'd gateway \<Rightarrow> 'd gateway" where
  "dispose_bus session g =
     (case map_of (gw_map g) session of
        None \<Rightarrow> g
      | Some b \<Rightarrow> (close_bus b g)\<lparr>gw_map := filter (\<lambda>(k, _). k \<noteq> session) (gw_map g)\<rparr>)"

definition abort_all_buses :: "'d gateway \<Rightarrow> 'd gateway" where
  "abort_all_buses g = foldl (\<lambda>g b. close_bus b g) g (map snd (gw_map g))"

definition clear_all_buses :: "'d gateway \<Rightarrow> 'd gateway" where
  "clear_all_buses g = (abort_all_buses g)\<lparr>gw_map := []\<rparr>"

definition cancel_current_turn :: "nat \<Rightarrow> 'd gateway \<Rightarrow> bool \<times> 'd gateway" where
  "cancel_current_turn b g =
     (case eb_turn_abort (gw_buses g ! b) of
        None \<Rightarrow> (False, g)
      | Some c \<Rightarrow> (True, g\<lparr>gw_cancelled := set_add c (gw_cancelled g)\<rparr>))"

section \<open>The route of the streams\<close>

text \<open>\<open>Number.parseInt\<close> in base ten, where it gives an integer.\<close>

definition parse_int :: "string \<Rightarrow> int option" where
  "parse_int s =
     (let t = dropWhile is_space s;
          negative = starts_with t ''-'';
          ds = takeWhile is_digit (if negative \<or> starts_with t ''+'' then tl t else t);
          n = foldl (\<lambda>n c. 10 * n + int (of_char c - 48)) 0 ds
      in if ds = [] then None else Some (if negative then - n else n))"

definition parse_last_event_id :: "string option \<Rightarrow> string option \<Rightarrow> nat option" where
  "parse_last_event_id header query =
     (case or_else header query of
        None \<Rightarrow> None
      | Some raw \<Rightarrow> if raw = [] then None
          else (case parse_int raw of None \<Rightarrow> None | Some n \<Rightarrow> if n < 0 then None else Some (nat n)))"

definition open_stream ::
  "string \<Rightarrow> string option \<Rightarrow> string option \<Rightarrow> string option \<Rightarrow> rat \<Rightarrow> 'd gateway \<Rightarrow> 'd gateway" where
  "open_stream session header query follow now g =
     (let (b, g') = get_or_create_bus session None now g in
      g'\<lparr>gw_streams := gw_streams g' @
        [\<lparr>es_bus = b, es_cursor = parse_last_event_id header query, es_follow = (follow = Some ''true''),
          es_queue = [], es_phase = Opening, es_stopped = False, es_listening = False, es_gone = False,
          es_sent = []\<rparr>]\<rparr>)"

text \<open>When a stream that is over leaves the loop it unsubscribes.\<close>

definition finish_stream :: "nat \<Rightarrow> 'd gateway \<Rightarrow> 'd gateway" where
  "finish_stream i g =
     (case es_phase (gw_streams g ! i) of
        Ended \<Rightarrow> set_bus (es_bus (gw_streams g ! i)) (\<lambda>bus. bus\<lparr>eb_subscribers := removeAll i (eb_subscribers bus)\<rparr>) g
      | _ \<Rightarrow> g)"

text \<open>After its first line a stream subscribes and enters its loop.\<close>

definition attached :: "'d event_bus \<Rightarrow> 'd event_stream \<Rightarrow> 'd event_stream" where
  "attached bus s =
     (let q = replay (es_cursor s) bus in
      s\<lparr>es_queue := q, es_listening := True,
        es_stopped := (\<not> es_follow s \<and> q = [] \<and> \<not> eb_turn_active bus \<or> eb_closed bus \<or> es_gone s)\<rparr>)"

definition subscribe_stream :: "rat \<Rightarrow> nat \<Rightarrow> 'd gateway \<Rightarrow> 'd gateway" where
  "subscribe_stream now i g =
     (let b = es_bus (gw_streams g ! i) in
      set_stream i (attached (gw_buses g ! b))
        (set_bus b (\<lambda>bus. bus\<lparr>eb_last_activity := now, eb_subscribers := set_add i (eb_subscribers bus)\<rparr>) g))"

definition connected :: "rat \<Rightarrow> nat \<Rightarrow> 'd gateway \<Rightarrow> 'd gateway" where
  "connected now i g = finish_stream i (set_stream i loop_head (subscribe_stream now i g))"

definition disconnected :: "'d event_stream \<Rightarrow> 'd event_stream" where
  "disconnected s = (let s' = s\<lparr>es_gone := True\<rparr> in if es_listening s then stop_stream s' else s')"

section \<open>The server as a machine\<close>

datatype 'd gateway_op =
    Open string "string option" "string option" "string option" rat
  | Connected nat rat
  | Resumed nat
  | Written nat
  | Write_failed nat
  | Disconnected nat
  | Bus_wanted string "int option" rat
  | Turn_started nat rat
  | Turn_abort_set nat nat
  | Turn_abort_cleared nat
  | Cancel string rat
  | Emit nat string 'd rat
  | Dispose string
  | Abort_all
  | Clear_all
  | Ring_size js_number

definition step_stream :: "nat \<Rightarrow> ('d event_stream \<Rightarrow> 'd event_stream) \<Rightarrow> 'd gateway \<Rightarrow> 'd gateway" where
  "step_stream i f g = finish_stream i (set_stream i f g)"

definition phase_of :: "nat \<Rightarrow> 'd gateway \<Rightarrow> 'd stream_phase" where
  "phase_of i g = (if i < length (gw_streams g) then es_phase (gw_streams g ! i) else Ended)"

definition on_bus :: "nat \<Rightarrow> ('d event_bus \<Rightarrow> 'd event_bus) \<Rightarrow> 'd gateway \<Rightarrow> 'd gateway" where
  "on_bus b f g = (if b < length (gw_buses g) then set_bus b f g else g)"

text \<open>A step that no code could take in a state changes nothing.\<close>

fun gateway_step :: "'d gateway \<Rightarrow> 'd gateway_op \<Rightarrow> 'd gateway" where
  "gateway_step g (Open session header query follow now) = open_stream session header query follow now g"
| "gateway_step g (Connected i now) = (case phase_of i g of Opening \<Rightarrow> connected now i g | _ \<Rightarrow> g)"
| "gateway_step g (Resumed i) = (case phase_of i g of Woken \<Rightarrow> step_stream i resume_stream g | _ \<Rightarrow> g)"
| "gateway_step g (Written i) = (case phase_of i g of Writing ev \<Rightarrow> step_stream i (event_written ev) g | _ \<Rightarrow> g)"
| "gateway_step g (Write_failed i) =
     (case phase_of i g of
        Writing ev \<Rightarrow> step_stream i (\<lambda>s. s\<lparr>es_phase := Ended, es_listening := False\<rparr>) g
      | Opening \<Rightarrow> set_stream i (\<lambda>s. s\<lparr>es_phase := Ended\<rparr>) g
      | _ \<Rightarrow> g)"
| "gateway_step g (Disconnected i) = set_stream i disconnected g"
| "gateway_step g (Bus_wanted session max_ring now) = snd (get_or_create_bus session max_ring now g)"
| "gateway_step g (Turn_started b now) = on_bus b (mark_turn_start now) g"
| "gateway_step g (Turn_abort_set b c) = on_bus b (\<lambda>bus. bus\<lparr>eb_turn_abort := Some c\<rparr>) g"
| "gateway_step g (Turn_abort_cleared b) = on_bus b (\<lambda>bus. bus\<lparr>eb_turn_abort := None\<rparr>) g"
| "gateway_step g (Cancel session now) =
     (let (b, g') = get_or_create_bus session None now g in snd (cancel_current_turn b g'))"
| "gateway_step g (Emit b type data now) = (if b < length (gw_buses g) then emit_event now b type data g else g)"
| "gateway_step g (Dispose session) = dispose_bus session g"
| "gateway_step g Abort_all = abort_all_buses g"
| "gateway_step g Clear_all = clear_all_buses g"
| "gateway_step g (Ring_size n) = set_default_ring_size n g"

definition gateway_run :: "'d gateway_op list \<Rightarrow> 'd gateway \<Rightarrow> 'd gateway" where
  "gateway_run ops g = foldl gateway_step g ops"

text \<open>What was published on a bus, and what a stream has been given: written, or about to be.\<close>

definition bus_events :: "nat \<Rightarrow> 'd gateway \<Rightarrow> 'd server_event list" where
  "bus_events b g = map snd (filter (\<lambda>(b', _). b' = b) (gw_published g))"

definition received :: "'d event_stream \<Rightarrow> 'd server_event list" where
  "received s = es_sent s @ (case es_phase s of Writing ev \<Rightarrow> ev # es_queue s | Ended \<Rightarrow> [] | _ \<Rightarrow> es_queue s)"

end
