(* ===== verification/Event_Delivery.thy ===== *)
theory Event_Delivery
  imports Event_Bus
begin

text \<open>
  What the buses and streams of \<open>Event_Bus\<close> guarantee: the invariant of the server, how a step changes what
  a stream has been given, and from these that readers miss nothing, that subscribers are the streams that
  read, and that streams end.
\<close>

lemma nth_update_if: "xs[i := x] ! j = (if j = i \<and> i < length xs then x else xs ! j)"
  by (cases "i < length xs") (auto simp: nth_list_update list_update_beyond)

section \<open>Streams\<close>

lemma wake_fields [simp]:
  "es_bus (wake s) = es_bus s" "es_cursor (wake s) = es_cursor s" "es_follow (wake s) = es_follow s"
  "es_queue (wake s) = es_queue s" "es_stopped (wake s) = es_stopped s" "es_listening (wake s) = es_listening s"
  "es_gone (wake s) = es_gone s" "es_sent (wake s) = es_sent s"
  by (simp_all add: wake_def split: stream_phase.split)

lemma wake_phase [simp]:
  "es_phase (wake s) = (case es_phase s of Parked \<Rightarrow> Woken | p \<Rightarrow> p)"
  by (simp add: wake_def split: stream_phase.split)

text \<open>What no step of a stream changes.\<close>

definition same_reader :: "'d event_stream \<Rightarrow> 'd event_stream \<Rightarrow> bool" where
  "same_reader s s' \<longleftrightarrow> es_bus s' = es_bus s \<and> es_follow s' = es_follow s \<and> es_cursor s' = es_cursor s \<and> (es_gone s \<longrightarrow> es_gone s')"

definition stream_rank :: "'d event_stream \<Rightarrow> nat" where
  "stream_rank s = (case es_phase s of Ended \<Rightarrow> 0 | Writing ev \<Rightarrow> 1 | Woken \<Rightarrow> 2 | _ \<Rightarrow> 3)"

text \<open>How a stream that has attached may change while its bus publishes \<open>new\<close>.\<close>

definition stream_evolves :: "'d server_event list \<Rightarrow> 'd event_stream \<Rightarrow> 'd event_stream \<Rightarrow> bool" where
  "stream_evolves new s s' \<longleftrightarrow>
     same_reader s s' \<and> es_phase s' \<noteq> Opening \<and> prefix (received s') (received s @ new)
     \<and> (es_phase s' \<noteq> Ended \<longrightarrow> es_phase s \<noteq> Ended \<and> received s' = received s @ new)
     \<and> (es_phase s = Ended \<longrightarrow> received s' = received s)
     \<and> (es_stopped s \<longrightarrow> es_stopped s' \<and> stream_rank s' \<le> stream_rank s)"

lemma stream_evolves_refl: "es_phase s \<noteq> Opening \<Longrightarrow> stream_evolves [] s s"
  by (simp add: stream_evolves_def same_reader_def)

lemma stream_evolves_ended: "es_phase s = Ended \<Longrightarrow> stream_evolves new s s"
  by (simp add: stream_evolves_def same_reader_def)

lemma stream_evolves_trans:
  assumes "stream_evolves new s s'" "stream_evolves new' s' s''"
  shows "stream_evolves (new @ new') s s''"
proof (cases "es_phase s' = Ended")
  case True
  then show ?thesis using assms by (auto simp: stream_evolves_def same_reader_def intro: prefix_order.trans)
next
  case False
  then show ?thesis using assms by (auto simp: stream_evolves_def same_reader_def)
qed

lemma on_event_evolves:
  "es_phase s \<noteq> Opening \<Longrightarrow> es_phase s \<noteq> Ended \<Longrightarrow> es_phase s = Parked \<longrightarrow> \<not> es_stopped s
   \<Longrightarrow> stream_evolves [ev] s (on_event ev s)"
  by (cases "es_phase s")
    (simp_all add: stream_evolves_def same_reader_def on_event_def received_def stream_rank_def)

lemma stop_evolves: "es_phase s \<noteq> Opening \<Longrightarrow> stream_evolves [] s (stop_stream s)"
  by (cases "es_phase s")
    (simp_all add: stream_evolves_def same_reader_def stop_stream_def received_def stream_rank_def)

lemma disconnected_evolves: "es_phase s \<noteq> Opening \<Longrightarrow> stream_evolves [] s (disconnected s)"
  by (cases "es_phase s")
    (simp_all add: stream_evolves_def same_reader_def disconnected_def Let_def stop_stream_def received_def stream_rank_def)

lemma loop_head_evolves:
  assumes "es_phase s = Woken"
  shows "stream_evolves [] s (loop_head s)"
  using assms
  by (cases "es_queue s")
    (simp_all add: stream_evolves_def same_reader_def loop_head_def take_event_def received_def stream_rank_def)

lemma resume_evolves: "es_phase s = Woken \<Longrightarrow> stream_evolves [] s (resume_stream s)"
  using loop_head_evolves[of s]
  by (cases "es_queue s")
    (simp_all add: resume_stream_def stream_evolves_def same_reader_def take_event_def received_def stream_rank_def)

lemma written_evolves: "es_phase s = Writing ev \<Longrightarrow> stream_evolves [] s (event_written ev s)"
  by (cases "es_queue s")
    (simp_all add: event_written_def loop_head_def take_event_def stream_evolves_def same_reader_def received_def stream_rank_def)

lemma failed_evolves:
  "es_phase s = Writing ev \<Longrightarrow> stream_evolves [] s (s\<lparr>es_phase := Ended, es_listening := False\<rparr>)"
  by (simp add: stream_evolves_def same_reader_def received_def stream_rank_def)

section \<open>The invariant\<close>

text \<open>A stream and its bus; then with its index.\<close>

definition reader_ok :: "'d event_bus \<Rightarrow> 'd event_stream \<Rightarrow> bool" where
  "reader_ok bus s \<longleftrightarrow>
     (es_listening s \<longleftrightarrow> es_phase s \<noteq> Opening \<and> es_phase s \<noteq> Ended)
     \<and> (es_listening s \<and> (eb_closed bus \<or> es_gone s) \<longrightarrow> es_stopped s)
     \<and> (es_phase s = Opening \<longrightarrow> es_queue s = [] \<and> es_sent s = [] \<and> \<not> es_stopped s)
     \<and> (es_phase s = Parked \<longrightarrow> es_queue s = [] \<and> \<not> es_stopped s)
     \<and> (\<not> es_follow s \<longrightarrow> list_all (Not \<circ> is_terminal) (if es_phase s = Ended then butlast (es_sent s) else es_sent s))"

definition stream_ok :: "nat \<Rightarrow> 'd event_bus \<Rightarrow> 'd event_stream \<Rightarrow> bool" where
  "stream_ok i bus s \<longleftrightarrow> reader_ok bus s \<and> (i \<in> set (eb_subscribers bus) \<longleftrightarrow> es_listening s \<and> \<not> eb_closed bus)"

text \<open>A bus, what was published on it, its index and the streams.\<close>

definition bus_ok :: "nat \<Rightarrow> 'd event_stream list \<Rightarrow> 'd server_event list \<Rightarrow> 'd event_bus \<Rightarrow> bool" where
  "bus_ok b ss pub bus \<longleftrightarrow>
     0 < eb_max_ring bus \<and> distinct (eb_subscribers bus)
     \<and> (\<forall>i \<in> set (eb_subscribers bus). i < length ss \<and> es_bus (ss ! i) = b)
     \<and> map ev_seq pub = [1..<Suc (length pub)] \<and> eb_turn_start bus \<le> Suc (eb_seq bus)
     \<and> (if eb_closed bus then eb_subscribers bus = [] \<and> eb_ring bus = []
        else eb_seq bus = length pub \<and> eb_ring bus = drop (length pub - eb_max_ring bus) pub)"

definition gateway_ok :: "'d gateway \<Rightarrow> bool" where
  "gateway_ok g \<longleftrightarrow>
     (\<forall>b < length (gw_buses g). bus_ok b (gw_streams g) (bus_events b g) (gw_buses g ! b))
     \<and> (\<forall>i < length (gw_streams g). es_bus (gw_streams g ! i) < length (gw_buses g)
         \<and> stream_ok i (gw_buses g ! es_bus (gw_streams g ! i)) (gw_streams g ! i))
     \<and> (\<forall>b \<in> snd ` set (gw_map g). b < length (gw_buses g))
     \<and> (\<forall>(b, ev) \<in> set (gw_published g). b < length (gw_buses g))"

text \<open>How the server may change, seen from a stream that has attached.\<close>

definition evolves :: "nat \<Rightarrow> 'd gateway \<Rightarrow> 'd gateway \<Rightarrow> bool" where
  "evolves i g g' \<longleftrightarrow> i < length (gw_streams g') \<and> length (gw_buses g) \<le> length (gw_buses g')
     \<and> (\<exists>new. bus_events (es_bus (gw_streams g ! i)) g' = bus_events (es_bus (gw_streams g ! i)) g @ new
       \<and> (eb_closed (gw_buses g ! es_bus (gw_streams g ! i)) \<longrightarrow> eb_closed (gw_buses g' ! es_bus (gw_streams g ! i)) \<and> new = [])
       \<and> stream_evolves new (gw_streams g ! i) (gw_streams g' ! i))"

lemma evolves_refl: "i < length (gw_streams g) \<Longrightarrow> es_phase (gw_streams g ! i) \<noteq> Opening \<Longrightarrow> evolves i g g"
  by (auto simp: evolves_def stream_evolves_refl intro!: exI[of _ "[]"])

lemma evolves_trans:
  assumes "evolves i g g'" "evolves i g' g''"
  shows "evolves i g g''"
proof -
  have "es_bus (gw_streams g' ! i) = es_bus (gw_streams g ! i)"
    using assms(1) by (auto simp: evolves_def stream_evolves_def same_reader_def)
  then show ?thesis using assms unfolding evolves_def
    by (force intro: stream_evolves_trans)
qed

section \<open>Steps keep the invariant\<close>

lemma bus_events_same [simp]:
  "bus_events b (g\<lparr>gw_buses := bs\<rparr>) = bus_events b g" "bus_events b (g\<lparr>gw_streams := ss\<rparr>) = bus_events b g"
  "bus_events b (g\<lparr>gw_map := m\<rparr>) = bus_events b g" "bus_events b (g\<lparr>gw_cancelled := cs\<rparr>) = bus_events b g"
  "bus_events b (set_bus c f g) = bus_events b g" "bus_events b (set_stream i h g) = bus_events b g"
  by (simp_all add: bus_events_def set_bus_def set_stream_def)

lemma set_bus_fields [simp]:
  "gw_streams (set_bus b f g) = gw_streams g" "gw_map (set_bus b f g) = gw_map g"
  "gw_published (set_bus b f g) = gw_published g"
  "gw_buses (set_bus b f g) = (gw_buses g)[b := f (gw_buses g ! b)]"
  by (simp_all add: set_bus_def)

lemma set_stream_fields [simp]:
  "gw_buses (set_stream i h g) = gw_buses g" "gw_map (set_stream i h g) = gw_map g"
  "gw_published (set_stream i h g) = gw_published g"
  "gw_streams (set_stream i h g) = (gw_streams g)[i := h (gw_streams g ! i)]"
  by (simp_all add: set_stream_def)

text \<open>A change of one bus that touches neither its events nor its subscribers.\<close>

definition quiet :: "('d event_bus \<Rightarrow> 'd event_bus) \<Rightarrow> bool" where
  "quiet f \<longleftrightarrow> (\<forall>bus. eb_subscribers (f bus) = eb_subscribers bus \<and> eb_ring (f bus) = eb_ring bus
     \<and> eb_max_ring (f bus) = eb_max_ring bus \<and> eb_seq (f bus) = eb_seq bus \<and> eb_closed (f bus) = eb_closed bus
     \<and> (eb_turn_start (f bus) = eb_turn_start bus \<or> eb_turn_start (f bus) = Suc (eb_seq bus)))"

lemma set_bus_ok:
  assumes "gateway_ok g" "bus = gw_buses g ! b"
    and "\<And>ss pub. b < length (gw_buses g) \<Longrightarrow> bus_ok b ss pub bus \<Longrightarrow> bus_ok b ss pub (f bus)"
    and "\<And>i s. b < length (gw_buses g) \<Longrightarrow> stream_ok i bus s \<Longrightarrow> stream_ok i (f bus) s"
  shows "gateway_ok (set_bus b f g)"
  using assms by (auto simp: gateway_ok_def nth_update_if)

lemma quiet_ok:
  assumes "gateway_ok g" "quiet f"
  shows "gateway_ok (set_bus b f g)"
  using assms(2)[unfolded quiet_def, rule_format, of "gw_buses g ! b"]
  by (intro set_bus_ok[OF assms(1) refl]) (auto simp: bus_ok_def stream_ok_def reader_ok_def simp del: upt_Suc)

lemma quiet_evolves:
  assumes "quiet f" "i < length (gw_streams g)" "es_phase (gw_streams g ! i) \<noteq> Opening"
  shows "evolves i g (set_bus b f g)"
  using assms by (auto simp: evolves_def quiet_def nth_update_if stream_evolves_refl intro!: exI[of _ "[]"])

text \<open>A change of one stream that keeps its side of the invariant.\<close>

lemma set_stream_ok:
  assumes "gateway_ok g" "es_bus (h s) = es_bus s" "s = gw_streams g ! i"
    and "i < length (gw_streams g) \<Longrightarrow> stream_ok i (gw_buses g ! es_bus s) (h s)"
  shows "gateway_ok (set_stream i h g)"
  using assms by (auto simp: gateway_ok_def bus_ok_def nth_update_if)

lemma set_stream_evolves:
  assumes "i < length (gw_streams g)" "es_phase (gw_streams g ! i) \<noteq> Opening"
    and "j = i \<Longrightarrow> stream_evolves [] (gw_streams g ! i) (h (gw_streams g ! i))"
  shows "evolves i g (set_stream j h g)"
  using assms by (cases "j = i") (auto simp: evolves_def stream_evolves_refl intro!: exI[of _ "[]"])

text \<open>The loop of a stream.\<close>

lemma step_stream_ok:
  assumes ok: "gateway_ok g" and i: "i < length (gw_streams g)" and s: "s = gw_streams g ! i"
    and "es_listening s" "es_bus (f s) = es_bus s" "reader_ok (gw_buses g ! es_bus s) (f s)" "es_phase (f s) \<noteq> Opening"
  shows "gateway_ok (step_stream i f g)"
proof -
  let ?b = "es_bus s" and ?g = "set_stream i f g"
  have b: "?b < length (gw_buses g)" "stream_ok i (gw_buses g ! ?b) s" using ok i s by (auto simp: gateway_ok_def)
  show ?thesis
  proof (cases "es_phase (f s) = Ended")
    case False
    then have "step_stream i f g = ?g"
      using i s by (simp add: step_stream_def finish_stream_def split: stream_phase.split)
    moreover have "stream_ok i (gw_buses g ! ?b) (f s)"
      using assms(4,6,7) b(2) False by (simp add: stream_ok_def reader_ok_def)
    ultimately show ?thesis using set_stream_ok[where h = f and s = s and i = i, OF ok assms(5) s] by simp
  next
    case True
    let ?u = "\<lambda>bus. bus\<lparr>eb_subscribers := removeAll i (eb_subscribers bus)\<rparr>"
    have step: "step_stream i f g = set_bus ?b ?u ?g"
      using i s True assms(5) by (simp add: step_stream_def finish_stream_def)
    have "bus_ok c (gw_streams ?g) (bus_events c g) (gw_buses (set_bus ?b ?u ?g) ! c)" if "c < length (gw_buses g)" for c
    proof -
      have "bus_ok c (gw_streams g) (bus_events c g) (gw_buses g ! c)" using ok that by (simp add: gateway_ok_def)
      then have "bus_ok c (gw_streams ?g) (bus_events c g) (gw_buses g ! c)"
        using s assms(5) by (simp add: bus_ok_def nth_update_if)
      moreover have "bus_ok c ss pub bus \<Longrightarrow> bus_ok c ss pub (?u bus)" for ss pub bus
        by (auto simp: bus_ok_def distinct_removeAll simp del: upt_Suc)
      ultimately show ?thesis by (auto simp: nth_update_if)
    qed
    moreover have "stream_ok j (gw_buses (set_bus ?b ?u ?g) ! es_bus (gw_streams ?g ! j)) (gw_streams ?g ! j)"
      if "j < length (gw_streams g)" for j
    proof (cases "j = i")
      case True
      then show ?thesis using assms(5,6) \<open>es_phase (f s) = Ended\<close> i s b(1) by (auto simp: stream_ok_def reader_ok_def)
    next
      case False
      have "stream_ok j (gw_buses g ! es_bus (gw_streams g ! j)) (gw_streams g ! j)" using ok that by (simp add: gateway_ok_def)
      then show ?thesis using False by (auto simp: stream_ok_def reader_ok_def nth_update_if)
    qed
    ultimately show ?thesis using ok s assms(5) unfolding step gateway_ok_def by (auto simp: nth_update_if)
  qed
qed

lemma step_stream_evolves:
  assumes "i < length (gw_streams g)" "es_phase (gw_streams g ! i) \<noteq> Opening"
    and "j = i \<Longrightarrow> stream_evolves [] (gw_streams g ! i) (f (gw_streams g ! i))"
  shows "evolves i g (step_stream j f g)"
proof -
  have "evolves i g (set_stream j f g)" using assms by (rule set_stream_evolves)
  then show ?thesis
    by (auto simp: step_stream_def finish_stream_def evolves_def nth_update_if split: stream_phase.split)
qed

text \<open>Subscribing.\<close>

lemma connected_stops:
  assumes "gateway_ok g" "i < length (gw_streams g)" "s = gw_streams g ! i" "es_phase s = Opening"
    and "es_stopped (attached (gw_buses g ! es_bus s) s)"
  shows "connected now i g
    = set_stream i (\<lambda>s. loop_head (attached (gw_buses g ! es_bus s) s)) (set_bus (es_bus s) (\<lambda>bus. bus\<lparr>eb_last_activity := now\<rparr>) g)"
proof -
  have b: "es_bus s < length (gw_buses g)" and "i \<notin> set (eb_subscribers (gw_buses g ! es_bus s))"
    using assms(1-4) by (auto simp: gateway_ok_def stream_ok_def reader_ok_def)
  then have "removeAll i (set_add i (eb_subscribers (gw_buses g ! es_bus s))) = eb_subscribers (gw_buses g ! es_bus s)"
    by (simp add: set_add_def)
  then show ?thesis using assms b
    by (simp add: connected_def subscribe_stream_def finish_stream_def set_bus_def set_stream_def Let_def loop_head_def attached_def)
qed

lemma connected_goes_on:
  assumes "i < length (gw_streams g)" "s = gw_streams g ! i" "\<not> es_stopped (attached (gw_buses g ! es_bus s) s)"
  shows "connected now i g = set_stream i (\<lambda>s. take_event (attached (gw_buses g ! es_bus s) s))
    (set_bus (es_bus s) (\<lambda>bus. bus\<lparr>eb_last_activity := now, eb_subscribers := set_add i (eb_subscribers bus)\<rparr>) g)"
  using assms
  by (simp add: connected_def subscribe_stream_def finish_stream_def set_bus_def set_stream_def Let_def loop_head_def
      take_event_def split: list.split)

lemma attached_fields [simp]:
  "es_bus (attached bus s) = es_bus s" "es_follow (attached bus s) = es_follow s"
  "es_phase (attached bus s) = es_phase s" "es_sent (attached bus s) = es_sent s" "es_gone (attached bus s) = es_gone s"
  "es_cursor (attached bus s) = es_cursor s" "es_queue (attached bus s) = replay (es_cursor s) bus"
  by (simp_all add: attached_def Let_def)

lemma replay_quiet [simp]: "replay c (bus\<lparr>eb_last_activity := t\<rparr>) = replay c bus"
  by (simp add: replay_def split: option.split)

lemma attached_quiet [simp]: "attached (bus\<lparr>eb_last_activity := t\<rparr>) s = attached bus s"
  by (simp add: attached_def)

lemma take_event_fields [simp]:
  "es_bus (take_event s) = es_bus s" "es_follow (take_event s) = es_follow s" "es_sent (take_event s) = es_sent s"
  "es_gone (take_event s) = es_gone s" "es_stopped (take_event s) = es_stopped s"
  "es_listening (take_event s) = es_listening s"
  "es_phase (take_event s) = (case es_queue s of [] \<Rightarrow> Parked | ev # q \<Rightarrow> Writing ev)"
  "es_queue (take_event s) = tl (es_queue s)"
  by (simp_all add: take_event_def split: list.split)

lemma loop_head_fields [simp]:
  "es_bus (loop_head s) = es_bus s" "es_follow (loop_head s) = es_follow s" "es_sent (loop_head s) = es_sent s"
  "es_gone (loop_head s) = es_gone s"
  by (simp_all add: loop_head_def)

lemma quiet_activity: "quiet (\<lambda>bus. bus\<lparr>eb_last_activity := now\<rparr>)"
  by (simp add: quiet_def)

lemma connected_ok:
  assumes ok: "gateway_ok g" and i: "i < length (gw_streams g)" and op: "es_phase (gw_streams g ! i) = Opening"
  shows "gateway_ok (connected now i g)"
proof -
  define s where "s = gw_streams g ! i"
  define bus where "bus = gw_buses g ! es_bus s"
  have b: "es_bus s < length (gw_buses g)" and r: "reader_ok bus s" and notin: "i \<notin> set (eb_subscribers bus)"
    using ok i op by (auto simp: gateway_ok_def stream_ok_def reader_ok_def s_def bus_def)
  show ?thesis
  proof (cases "es_stopped (attached bus s)")
    case True
    let ?g = "set_bus (es_bus s) (\<lambda>bus. bus\<lparr>eb_last_activity := now\<rparr>) g"
    have "stream_ok i bus (loop_head (attached bus s))"
      using True notin r op by (auto simp: stream_ok_def reader_ok_def loop_head_def s_def)
    then have "gateway_ok (set_stream i (\<lambda>s. loop_head (attached (gw_buses g ! es_bus s) s)) ?g)"
      by (intro set_stream_ok[where s = s] quiet_ok[OF ok quiet_activity]) (use b in \<open>auto simp: s_def bus_def stream_ok_def reader_ok_def\<close>)
    then show ?thesis using connected_stops[OF ok i _ _ True[unfolded bus_def]] op by (simp add: s_def)
  next
    case False
    let ?u = "\<lambda>bus. bus\<lparr>eb_last_activity := now, eb_subscribers := set_add i (eb_subscribers bus)\<rparr>"
    let ?s = "take_event (attached bus s)"
    have g: "connected now i g = set_stream i (\<lambda>_. ?s) (set_bus (es_bus s) ?u g)"
      using connected_goes_on[of i g s now] i False by (simp add: s_def bus_def set_stream_def)
    have open_bus: "\<not> eb_closed bus" "\<not> es_gone s" using False by (auto simp: attached_def Let_def)
    have "bus_ok c (gw_streams (connected now i g)) (bus_events c g) (gw_buses (connected now i g) ! c)"
      if "c < length (gw_buses g)" for c
    proof -
      have "bus_ok c (gw_streams g) (bus_events c g) (gw_buses g ! c)" using ok that by (simp add: gateway_ok_def)
      then have "bus_ok c (gw_streams (connected now i g)) (bus_events c g) (gw_buses g ! c)"
        using i by (simp add: g bus_ok_def nth_update_if s_def)
      moreover have "bus_ok (es_bus s) (gw_streams (connected now i g)) pub bus
          \<Longrightarrow> bus_ok (es_bus s) (gw_streams (connected now i g)) pub (?u bus)" for pub
        using i open_bus by (auto simp: bus_ok_def g nth_update_if simp del: upt_Suc)
      ultimately show ?thesis using b by (auto simp: g nth_update_if bus_def)
    qed
    moreover have "stream_ok j (gw_buses (connected now i g) ! es_bus (gw_streams (connected now i g) ! j)) (gw_streams (connected now i g) ! j)
        \<and> es_bus (gw_streams (connected now i g) ! j) < length (gw_buses g)"
      if "j < length (gw_streams g)" for j
    proof (cases "j = i")
      case True
      have "stream_ok i (?u bus) ?s" using False open_bus r op
        by (auto simp: stream_ok_def reader_ok_def attached_def Let_def s_def split: list.split)
      then show ?thesis using True i b by (simp add: g nth_update_if bus_def)
    next
      case False
      have "stream_ok j (gw_buses g ! es_bus (gw_streams g ! j)) (gw_streams g ! j)" "es_bus (gw_streams g ! j) < length (gw_buses g)"
        using ok that by (auto simp: gateway_ok_def)
      then show ?thesis using False by (auto simp: stream_ok_def reader_ok_def nth_update_if g)
    qed
    ultimately show ?thesis using ok unfolding gateway_ok_def g by auto
  qed
qed

lemma connected_evolves:
  assumes "gateway_ok g" "i < length (gw_streams g)" "es_phase (gw_streams g ! i) \<noteq> Opening"
    and "j < length (gw_streams g)" "es_phase (gw_streams g ! j) = Opening"
  shows "evolves i g (connected now j g)"
proof -
  have "i \<noteq> j" using assms by auto
  show ?thesis
  proof (cases "es_stopped (attached (gw_buses g ! es_bus (gw_streams g ! j)) (gw_streams g ! j))")
    case True
    show ?thesis
      unfolding connected_stops[OF assms(1,4) refl assms(5) True]
      by (intro evolves_trans[OF quiet_evolves[OF quiet_activity] set_stream_evolves]) (use assms \<open>i \<noteq> j\<close> in auto)
  next
    case False
    show ?thesis
      unfolding connected_goes_on[OF assms(4) refl False]
      using assms \<open>i \<noteq> j\<close> by (auto simp: evolves_def nth_update_if stream_evolves_refl intro!: exI[of _ "[]"])
  qed
qed

text \<open>Publishing.\<close>

lemma call_subscribers_nth:
  "distinct subs \<Longrightarrow> i < length ss
   \<Longrightarrow> call_subscribers ev subs ss ! i = (if i \<in> set subs then on_event ev (ss ! i) else ss ! i)"
proof (induction subs arbitrary: ss)
  case (Cons j subs)
  have "call_subscribers ev (j # subs) ss = call_subscribers ev subs (ss[j := on_event ev (ss ! j)])"
    by (simp add: call_subscribers_def)
  then show ?case using Cons by (auto simp: nth_update_if)
qed (simp add: call_subscribers_def)

lemma call_subscribers_length [simp]: "length (call_subscribers ev subs ss) = length ss"
  by (induction subs arbitrary: ss) (simp_all add: call_subscribers_def)

lemma on_event_same [simp]:
  "es_bus (on_event ev s) = es_bus s" "es_follow (on_event ev s) = es_follow s" "es_sent (on_event ev s) = es_sent s"
  "es_gone (on_event ev s) = es_gone s" "es_stopped (on_event ev s) = es_stopped s"
  "es_listening (on_event ev s) = es_listening s" "es_queue (on_event ev s) = es_queue s @ [ev]"
  "es_phase (on_event ev s) = (case es_phase s of Parked \<Rightarrow> Woken | p \<Rightarrow> p)"
  by (simp_all add: on_event_def)

lemma ring_push:
  assumes "0 < (m :: nat)" "r = drop (length xs - m) xs"
  shows "(if m < length (r @ [x]) then tl (r @ [x]) else r @ [x]) = drop (length (xs @ [x]) - m) (xs @ [x])"
proof (cases "m \<le> length xs")
  case True
  then have "length r = m" "r \<noteq> []" using assms by auto
  moreover have "tl r = drop (Suc (length xs) - m) xs"
    using True assms(1) by (simp add: assms(2) tl_drop Suc_diff_le flip: drop_Suc)
  ultimately show ?thesis using True assms(1) by (simp add: drop_append)
next
  case False
  then show ?thesis using assms by simp
qed

lemma bus_events_published:
  "bus_events c (g\<lparr>gw_published := gw_published g @ [(b, ev)]\<rparr>) = (if c = b then bus_events c g @ [ev] else bus_events c g)"
  by (simp add: bus_events_def)

text \<open>The event that is next on a bus.\<close>

definition next_event :: "nat \<Rightarrow> string \<Rightarrow> 'd \<Rightarrow> 'd gateway \<Rightarrow> 'd server_event" where
  "next_event b type data g = \<lparr>ev_type = type, ev_seq = eb_seq (gw_buses g ! b) + 1, ev_data = data\<rparr>"

lemma emit_open:
  assumes "b < length (gw_buses g)" "\<not> eb_closed (gw_buses g ! b)"
  shows "emit_event now b type data g =
    (set_bus b (\<lambda>bus. retain now (next_event b type data g) (bus\<lparr>eb_seq := eb_seq bus + 1\<rparr>)) g)
      \<lparr>gw_streams := call_subscribers (next_event b type data g) (eb_subscribers (gw_buses g ! b)) (gw_streams g),
       gw_published := gw_published g @ [(b, next_event b type data g)]\<rparr>"
  using assms by (simp add: emit_event_def publish_event_def Let_def set_bus_def next_event_def)

lemma emit_closed:
  assumes "b < length (gw_buses g)" "eb_closed (gw_buses g ! b)"
  shows "emit_event now b type data g
    = set_bus b (\<lambda>bus. bus\<lparr>eb_seq := eb_seq bus + 1, eb_last_activity := now\<rparr>) g"
  using assms by (simp add: emit_event_def publish_event_def Let_def set_bus_def retain_def)

lemma retain_fields [simp]:
  "eb_subscribers (retain now ev bus) = eb_subscribers bus" "eb_max_ring (retain now ev bus) = eb_max_ring bus"
  "eb_seq (retain now ev bus) = eb_seq bus" "eb_closed (retain now ev bus) = eb_closed bus"
  "eb_turn_start (retain now ev bus) = eb_turn_start bus"
  by (simp_all add: retain_def Let_def)

lemma bus_ok_publish:
  assumes ok: "bus_ok b ss pub bus" and "\<not> eb_closed bus" and ev: "ev_seq ev = eb_seq bus + 1"
    and ss: "length ss' = length ss" "\<And>i. i < length ss \<Longrightarrow> es_bus (ss' ! i) = es_bus (ss ! i)"
  shows "bus_ok b ss' (pub @ [ev]) (retain now ev (bus\<lparr>eb_seq := eb_seq bus + 1\<rparr>))"
proof -
  have ring: "0 < eb_max_ring bus" "eb_ring bus = drop (length pub - eb_max_ring bus) pub"
    using ok assms(2) by (simp_all add: bus_ok_def)
  have "eb_ring (retain now ev (bus\<lparr>eb_seq := eb_seq bus + 1\<rparr>)) =
      (if eb_max_ring bus < length (eb_ring bus @ [ev]) then tl (eb_ring bus @ [ev]) else eb_ring bus @ [ev])"
    using assms(2) by (simp add: retain_def Let_def)
  also have "\<dots> = drop (length (pub @ [ev]) - eb_max_ring bus) (pub @ [ev])" by (rule ring_push[OF ring])
  finally show ?thesis using assms by (auto simp: bus_ok_def)
qed

lemma on_event_ok: "stream_ok i bus s \<Longrightarrow> es_listening s \<Longrightarrow> stream_ok i bus (on_event ev s)"
  by (cases "es_phase s") (auto simp: stream_ok_def reader_ok_def)

lemma emit_ok:
  assumes ok: "gateway_ok g" and b: "b < length (gw_buses g)"
  shows "gateway_ok (emit_event now b type data g)"
proof (cases "eb_closed (gw_buses g ! b)")
  case True
  show ?thesis unfolding emit_closed[OF b True]
    by (intro set_bus_ok[OF ok refl]) (use True in \<open>auto simp: bus_ok_def stream_ok_def reader_ok_def simp del: upt_Suc\<close>)
next
  case False
  define ev where "ev = next_event b type data g"
  define g' where "g' = emit_event now b type data g"
  let ?bus = "gw_buses g ! b"
  have g': "gw_buses g' = (gw_buses g)[b := retain now ev (?bus\<lparr>eb_seq := eb_seq ?bus + 1\<rparr>)]"
    "gw_streams g' = call_subscribers ev (eb_subscribers ?bus) (gw_streams g)"
    "gw_published g' = gw_published g @ [(b, ev)]" "gw_map g' = gw_map g"
    using emit_open[OF b False, of now type data] by (simp_all add: g'_def ev_def)
  have pub: "bus_events c g' = (if c = b then bus_events c g @ [ev] else bus_events c g)" for c
    using g'(3) by (simp add: bus_events_def)
  have sub: "distinct (eb_subscribers ?bus)" "\<And>i. i \<in> set (eb_subscribers ?bus) \<Longrightarrow> i < length (gw_streams g)"
    using ok b by (auto simp: gateway_ok_def bus_ok_def)
  note nth = call_subscribers_nth[OF sub(1), of _ "gw_streams g" ev]
  have "bus_ok c (gw_streams g') (bus_events c g') (gw_buses g' ! c)" if "c < length (gw_buses g)" for c
  proof -
    have c: "bus_ok c (gw_streams g) (bus_events c g) (gw_buses g ! c)" using ok that by (simp add: gateway_ok_def)
    show ?thesis
    proof (cases "c = b")
      case True
      have "bus_ok b (gw_streams g') (bus_events b g @ [ev]) (retain now ev (?bus\<lparr>eb_seq := eb_seq ?bus + 1\<rparr>))"
      proof (rule bus_ok_publish[of b "gw_streams g"])
        show "bus_ok b (gw_streams g) (bus_events b g) ?bus" using c True by simp
        show "ev_seq ev = eb_seq ?bus + 1" by (simp add: ev_def next_event_def)
        show "es_bus (gw_streams g' ! i) = es_bus (gw_streams g ! i)" if "i < length (gw_streams g)" for i
          using that by (simp add: g'(2) nth)
      qed (use False in \<open>simp_all add: g'(2)\<close>)
      then show ?thesis using True b by (simp add: g'(1) pub)
    next
      case other: False
      then show ?thesis using c by (auto simp: g' pub bus_ok_def nth simp del: upt_Suc)
    qed
  qed
  moreover have "stream_ok i (gw_buses g' ! es_bus (gw_streams g' ! i)) (gw_streams g' ! i)
      \<and> es_bus (gw_streams g' ! i) < length (gw_buses g)"
    if i: "i < length (gw_streams g)" for i
  proof -
    define s where "s = gw_streams g ! i"
    have s: "stream_ok i (gw_buses g ! es_bus s) s" "es_bus s < length (gw_buses g)"
      using ok i by (simp_all add: gateway_ok_def s_def)
    have mem: "es_bus s = b \<and> es_listening s" if "i \<in> set (eb_subscribers ?bus)"
    proof -
      have "es_bus s = b" using that ok b by (auto simp: gateway_ok_def bus_ok_def s_def)
      then show ?thesis using s(1) that by (auto simp: stream_ok_def)
    qed
    have "stream_ok i (gw_buses g ! es_bus s) (gw_streams g' ! i)"
      using mem s(1) on_event_ok i by (auto simp: g' nth s_def)
    moreover have "stream_ok i (retain now ev (bus\<lparr>eb_seq := n\<rparr>)) t = stream_ok i bus t" for bus t n
      by (simp add: stream_ok_def reader_ok_def)
    moreover have "es_bus (gw_streams g' ! i) = es_bus s" using i by (simp add: g' nth s_def)
    ultimately show ?thesis using s(2) by (auto simp: g'(1) nth_update_if)
  qed
  ultimately show ?thesis using ok b unfolding g'_def[symmetric] by (auto simp: gateway_ok_def g')
qed

lemma emit_evolves:
  assumes ok: "gateway_ok g" and b: "b < length (gw_buses g)"
    and i: "i < length (gw_streams g)" "es_phase (gw_streams g ! i) \<noteq> Opening"
  shows "evolves i g (emit_event now b type data g)"
proof (cases "eb_closed (gw_buses g ! b)")
  case True
  show ?thesis unfolding emit_closed[OF b True]
    using i by (auto simp: evolves_def nth_update_if stream_evolves_refl intro!: exI[of _ "[]"])
next
  case False
  define ev where "ev = next_event b type data g"
  define s where "s = gw_streams g ! i"
  let ?subs = "eb_subscribers (gw_buses g ! b)"
  have sub: "distinct ?subs" and s: "stream_ok i (gw_buses g ! es_bus s) s"
    and other: "i \<in> set ?subs \<Longrightarrow> es_bus s = b"
    using ok b i by (auto simp: gateway_ok_def bus_ok_def s_def)
  let ?new = "if es_bus s = b then [ev] else []"
  have "stream_evolves ?new s (call_subscribers ev ?subs (gw_streams g) ! i)"
  proof (cases "i \<in> set ?subs")
    case True
    then have "es_bus s = b" by (rule other)
    moreover have "es_phase s \<noteq> Ended" "es_phase s = Parked \<longrightarrow> \<not> es_stopped s"
      using s True \<open>es_bus s = b\<close> by (auto simp: stream_ok_def reader_ok_def)
    ultimately show ?thesis
      using True i by (simp add: call_subscribers_nth[OF sub] s_def on_event_evolves)
  next
    case out: False
    then have "call_subscribers ev ?subs (gw_streams g) ! i = s"
      using i by (simp add: call_subscribers_nth[OF sub] s_def)
    moreover have "es_phase s = Ended" if "es_bus s = b"
      using s out False that i by (auto simp: stream_ok_def reader_ok_def s_def)
    ultimately show ?thesis using i by (auto simp: stream_evolves_ended stream_evolves_refl s_def)
  qed
  then show ?thesis
    unfolding emit_open[OF b False] evolves_def
    using i b False by (intro conjI exI[of _ ?new]) (auto simp: s_def ev_def bus_events_def nth_update_if)
qed

text \<open>Closing.\<close>

lemma stop_stream_fields [simp]:
  "es_bus (stop_stream s) = es_bus s" "es_follow (stop_stream s) = es_follow s" "es_sent (stop_stream s) = es_sent s"
  "es_gone (stop_stream s) = es_gone s" "es_stopped (stop_stream s)" "es_listening (stop_stream s) = es_listening s"
  "es_queue (stop_stream s) = es_queue s" "es_phase (stop_stream s) = (case es_phase s of Parked \<Rightarrow> Woken | p \<Rightarrow> p)"
  by (simp_all add: stop_stream_def)

definition closed_bus :: "'d event_bus \<Rightarrow> 'd event_bus" where
  "closed_bus bus = bus\<lparr>eb_closed := True, eb_subscribers := [], eb_ring := []\<rparr>"

definition stopped_for :: "nat \<Rightarrow> 'd event_stream \<Rightarrow> 'd event_stream" where
  "stopped_for b s = (if es_bus s = b \<and> es_listening s then stop_stream s else s)"

lemma close_bus_open:
  assumes "\<not> eb_closed (gw_buses g ! b)"
  shows "gw_buses (close_bus b g) = (gw_buses g)[b := closed_bus (gw_buses g ! b)]"
    "gw_streams (close_bus b g) = map (stopped_for b) (gw_streams g)"
  using assms by (simp_all add: close_bus_def closed_bus_def stopped_for_def)

lemma close_bus_same [simp]:
  "gw_map (close_bus b g) = gw_map g" "gw_published (close_bus b g) = gw_published g"
  "length (gw_buses (close_bus b g)) = length (gw_buses g)" "length (gw_streams (close_bus b g)) = length (gw_streams g)"
  by (simp_all add: close_bus_def)

lemma bus_events_close [simp]: "bus_events c (close_bus b g) = bus_events c g"
  by (simp add: bus_events_def)

lemma close_ok:
  assumes ok: "gateway_ok g" and b: "b < length (gw_buses g)"
  shows "gateway_ok (close_bus b g)"
proof (cases "eb_closed (gw_buses g ! b)")
  case True
  then show ?thesis using ok by (simp add: close_bus_def)
next
  case False
  note parts = close_bus_open[OF False]
  have "bus_ok c (gw_streams (close_bus b g)) (bus_events c g) (gw_buses (close_bus b g) ! c)" if "c < length (gw_buses g)" for c
  proof -
    have "bus_ok c (gw_streams g) (bus_events c g) (gw_buses g ! c)" using ok that by (simp add: gateway_ok_def)
    then show ?thesis using b False
      by (auto simp: parts bus_ok_def nth_update_if closed_bus_def stopped_for_def simp del: upt_Suc)
  qed
  moreover have "stream_ok i (gw_buses (close_bus b g) ! es_bus (gw_streams (close_bus b g) ! i)) (gw_streams (close_bus b g) ! i)
      \<and> es_bus (gw_streams (close_bus b g) ! i) < length (gw_buses g)"
    if i: "i < length (gw_streams g)" for i
  proof -
    define s where "s = gw_streams g ! i"
    have s: "stream_ok i (gw_buses g ! es_bus s) s" "es_bus s < length (gw_buses g)"
      using ok i by (simp_all add: gateway_ok_def s_def)
    show ?thesis
    proof (cases "es_bus s = b")
      case True
      then have "stream_ok i (closed_bus (gw_buses g ! b)) (stopped_for b s)"
        using s False by (cases "es_phase s") (auto simp: stream_ok_def reader_ok_def closed_bus_def stopped_for_def)
      then show ?thesis using True s(2) i by (auto simp: parts nth_update_if s_def stopped_for_def)
    next
      case other: False
      then have "stopped_for b s = s" by (simp add: stopped_for_def)
      then show ?thesis using other s i by (simp add: parts nth_update_if s_def)
    qed
  qed
  ultimately show ?thesis using ok by (simp add: gateway_ok_def)
qed

lemma close_evolves:
  assumes "b < length (gw_buses g)" "i < length (gw_streams g)" "es_phase (gw_streams g ! i) \<noteq> Opening"
  shows "evolves i g (close_bus b g)"
proof (cases "eb_closed (gw_buses g ! b)")
  case True
  then show ?thesis using assms by (simp add: close_bus_def evolves_refl)
next
  case False
  have "stream_evolves [] s (stopped_for b s)" if "es_phase s \<noteq> Opening" for s :: "'a event_stream"
    using that by (simp add: stopped_for_def stop_evolves stream_evolves_refl)
  moreover have "eb_closed (gw_buses g ! c) \<longrightarrow> eb_closed (gw_buses (close_bus b g) ! c)" for c
    using False by (auto simp: close_bus_open nth_update_if closed_bus_def)
  ultimately show ?thesis using assms False
    by (auto simp: evolves_def close_bus_open intro!: exI[of _ "[]"])
qed

lemma close_all:
  assumes "gateway_ok g" "list_all (\<lambda>b. b < length (gw_buses g)) bs"
  shows "gateway_ok (foldl (\<lambda>g b. close_bus b g) g bs)
    \<and> (i < length (gw_streams g) \<longrightarrow> es_phase (gw_streams g ! i) \<noteq> Opening \<longrightarrow> evolves i g (foldl (\<lambda>g b. close_bus b g) g bs))"
  using assms
proof (induction bs arbitrary: g)
  case (Cons b bs)
  have next_state: "gateway_ok (close_bus b g)" "list_all (\<lambda>c. c < length (gw_buses (close_bus b g))) bs"
    using Cons.prems close_ok by (auto simp: list_all_iff)
  have "evolves i g (foldl (\<lambda>g b. close_bus b g) g (b # bs))"
    if i: "i < length (gw_streams g)" "es_phase (gw_streams g ! i) \<noteq> Opening"
  proof -
    have first: "evolves i g (close_bus b g)" using close_evolves i Cons.prems(2) by auto
    then have "es_phase (gw_streams (close_bus b g) ! i) \<noteq> Opening" by (auto simp: evolves_def stream_evolves_def)
    then show ?thesis using first evolves_trans Cons.IH[OF next_state] i by auto
  qed
  then show ?case using Cons.IH[OF next_state] by simp
qed (simp add: evolves_refl)

lemma forget_map_ok:
  "gateway_ok g \<Longrightarrow> set m \<subseteq> set (gw_map g) \<Longrightarrow> gateway_ok (g\<lparr>gw_map := m\<rparr>)"
  unfolding gateway_ok_def by auto

lemma evolves_fields:
  assumes "gw_buses g'' = gw_buses g'" "gw_streams g'' = gw_streams g'" "gw_published g'' = gw_published g'"
  shows "evolves i g g'' = evolves i g g'"
  using assms by (simp add: evolves_def bus_events_def)

text \<open>New buses and streams.\<close>

lemma create_ok:
  assumes ok: "gateway_ok g" and made: "get_or_create_bus session m now g = (b, g')"
  shows "gateway_ok g' \<and> b < length (gw_buses g') \<and> gw_streams g' = gw_streams g
    \<and> (i < length (gw_streams g) \<longrightarrow> es_phase (gw_streams g ! i) \<noteq> Opening \<longrightarrow> evolves i g g')"
proof (cases "map_of (gw_map g) session")
  case (Some c)
  then show ?thesis using made ok by (auto simp: get_or_create_bus_def gateway_ok_def evolves_refl dest!: map_of_SomeD)
next
  case None
  let ?n = "length (gw_buses g)"
  have none: "bus_events ?n g = []"
    using ok by (auto simp: gateway_ok_def bus_events_def filter_empty_conv)
  have g': "b = ?n" "gw_buses g' = gw_buses g @ [new_bus (value_or m (int (gw_ring_size g))) now]"
    "gw_streams g' = gw_streams g" "gw_map g' = gw_map g @ [(session, ?n)]" "gw_published g' = gw_published g"
    using made None by (auto simp: get_or_create_bus_def Let_def)
  have events: "bus_events c g' = bus_events c g" for c using g'(5) by (simp add: bus_events_def)
  have fresh: "bus_ok ?n ss [] (new_bus k now)" for ss :: "'a event_stream list" and k
    by (auto simp: bus_ok_def new_bus_def default_max_ring_def)
  have "bus_ok c (gw_streams g') (bus_events c g') (gw_buses g' ! c)" if "c < length (gw_buses g')" for c
    using that ok fresh none by (cases "c = ?n") (simp_all add: gateway_ok_def g' events nth_append)
  moreover have "es_bus (gw_streams g' ! j) < length (gw_buses g')
      \<and> stream_ok j (gw_buses g' ! es_bus (gw_streams g' ! j)) (gw_streams g' ! j)" if "j < length (gw_streams g')" for j
    using that ok by (simp add: gateway_ok_def g' nth_append less_SucI)
  moreover have "\<forall>b \<in> snd ` set (gw_map g'). b < length (gw_buses g')" "\<forall>(b, ev) \<in> set (gw_published g'). b < length (gw_buses g')"
    using ok by (auto simp: gateway_ok_def g' less_SucI)
  ultimately have "gateway_ok g'" unfolding gateway_ok_def by blast
  moreover have "evolves i g g'" if i: "i < length (gw_streams g)" "es_phase (gw_streams g ! i) \<noteq> Opening"
  proof -
    have "es_bus (gw_streams g ! i) < ?n" using ok i by (simp add: gateway_ok_def)
    then show ?thesis using i
      by (auto simp: evolves_def g' events nth_append stream_evolves_refl intro!: exI[of _ "[]"])
  qed
  ultimately show ?thesis using g' by simp
qed

lemma add_stream_ok:
  assumes ok: "gateway_ok g" and "es_bus s < length (gw_buses g)" "es_phase s = Opening" "es_queue s = []" "es_sent s = []"
    "\<not> es_stopped s" "\<not> es_listening s"
  shows "gateway_ok (g\<lparr>gw_streams := gw_streams g @ [s]\<rparr>)"
proof -
  have "length (gw_streams g) \<notin> set (eb_subscribers (gw_buses g ! b))" if "b < length (gw_buses g)" for b
    using ok that by (auto simp: gateway_ok_def bus_ok_def)
  then have "stream_ok (length (gw_streams g)) (gw_buses g ! es_bus s) s"
    using assms by (simp add: stream_ok_def reader_ok_def)
  moreover have "bus_ok c ss pub bus \<Longrightarrow> bus_ok c (ss @ [s]) pub bus" for c ss pub bus
    by (auto simp: bus_ok_def nth_append simp del: upt_Suc)
  ultimately show ?thesis
    using ok assms(2) unfolding gateway_ok_def by (auto simp: nth_append less_Suc_eq)
qed

lemma add_stream_evolves:
  "i < length (gw_streams g) \<Longrightarrow> es_phase (gw_streams g ! i) \<noteq> Opening \<Longrightarrow> evolves i g (g\<lparr>gw_streams := gw_streams g @ [s]\<rparr>)"
  by (auto simp: evolves_def nth_append stream_evolves_refl intro!: exI[of _ "[]"])

section \<open>Every step\<close>

lemma phase_of_index: "phase_of i g \<noteq> Ended \<Longrightarrow> i < length (gw_streams g) \<and> phase_of i g = es_phase (gw_streams g ! i)"
  by (simp add: phase_of_def split: if_splits)

lemma reader_ok_resume: "reader_ok bus s \<Longrightarrow> es_phase s = Woken \<Longrightarrow> reader_ok bus (resume_stream s) \<and> es_phase (resume_stream s) \<noteq> Opening"
  by (cases "es_queue s")
    (auto simp: reader_ok_def resume_stream_def loop_head_def dest: in_set_butlastD simp: list_all_iff)

lemma reader_ok_written:
  "reader_ok bus s \<Longrightarrow> es_phase s = Writing ev \<Longrightarrow> reader_ok bus (event_written ev s) \<and> es_phase (event_written ev s) \<noteq> Opening"
  by (cases "es_queue s") (auto simp: reader_ok_def event_written_def loop_head_def list_all_iff)

lemma reader_ok_failed: "reader_ok bus s \<Longrightarrow> es_phase s = Writing ev \<Longrightarrow> reader_ok bus (s\<lparr>es_phase := Ended, es_listening := False\<rparr>)"
  by (auto simp: reader_ok_def list_all_iff dest: in_set_butlastD)

lemma disconnected_fields [simp]:
  "es_bus (disconnected s) = es_bus s" "es_listening (disconnected s) = es_listening s"
  by (simp_all add: disconnected_def Let_def)

lemma disconnected_ok: "stream_ok i bus s \<Longrightarrow> stream_ok i bus (disconnected s)"
  by (cases "es_phase s") (auto simp: stream_ok_def reader_ok_def disconnected_def Let_def)

text \<open>A step keeps the invariant, and a stream that has attached evolves.\<close>

definition fair_step :: "'d gateway \<Rightarrow> 'd gateway \<Rightarrow> bool" where
  "fair_step g g' \<longleftrightarrow> gateway_ok g' \<and> (\<forall>i < length (gw_streams g). es_phase (gw_streams g ! i) \<noteq> Opening \<longrightarrow> evolves i g g')"

lemma fair_stutter: "gateway_ok g \<Longrightarrow> fair_step g g"
  by (simp add: fair_step_def evolves_refl)

lemma stream_of:
  assumes "gateway_ok g" "i < length (gw_streams g)"
  shows "stream_ok i (gw_buses g ! es_bus (gw_streams g ! i)) (gw_streams g ! i)"
    "reader_ok (gw_buses g ! es_bus (gw_streams g ! i)) (gw_streams g ! i)"
  using assms by (auto simp: gateway_ok_def stream_ok_def)

lemma reader_listening: "reader_ok bus s \<Longrightarrow> es_listening s \<longleftrightarrow> es_phase s \<noteq> Opening \<and> es_phase s \<noteq> Ended"
  by (simp add: reader_ok_def)

lemma fair_quiet: "gateway_ok g \<Longrightarrow> quiet f \<Longrightarrow> fair_step g (on_bus b f g)"
  by (auto simp: fair_step_def on_bus_def quiet_ok quiet_evolves evolves_refl)

lemma fair_loop:
  assumes ok: "gateway_ok g" and i: "i < length (gw_streams g)" and "es_listening (gw_streams g ! i)"
    and "es_bus (f (gw_streams g ! i)) = es_bus (gw_streams g ! i)"
    and "reader_ok (gw_buses g ! es_bus (gw_streams g ! i)) (f (gw_streams g ! i))"
    and "stream_evolves [] (gw_streams g ! i) (f (gw_streams g ! i))"
  shows "fair_step g (step_stream i f g)"
proof -
  have "es_phase (f (gw_streams g ! i)) \<noteq> Opening" using assms(6) by (simp add: stream_evolves_def)
  then show ?thesis unfolding fair_step_def
    using step_stream_ok[where f = f, OF ok i refl assms(3,4,5)] assms(6) by (auto intro!: step_stream_evolves)
qed

lemma close_all_map [simp]: "gw_map (foldl (\<lambda>g b. close_bus b g) g bs) = gw_map g"
  by (induction bs arbitrary: g) simp_all

lemma fair_close:
  assumes "gateway_ok g" "list_all (\<lambda>b. b < length (gw_buses g)) bs" "set m \<subseteq> set (gw_map g)"
  shows "fair_step g ((foldl (\<lambda>g b. close_bus b g) g bs)\<lparr>gw_map := m\<rparr>)"
proof -
  let ?g = "foldl (\<lambda>g b. close_bus b g) g bs"
  have same: "evolves i g (?g\<lparr>gw_map := m\<rparr>) = evolves i g ?g" for i by (rule evolves_fields) simp_all
  have "gateway_ok ?g" using close_all[OF assms(1,2)] by blast
  then have "gateway_ok (?g\<lparr>gw_map := m\<rparr>)" using assms(3) by (intro forget_map_ok) simp_all
  then show ?thesis unfolding fair_step_def same using close_all[OF assms(1,2)] by blast
qed

lemma fair_create:
  assumes "gateway_ok g" "get_or_create_bus session m now g = (b, g')"
  shows "fair_step g g'"
  using create_ok[OF assms] by (simp add: fair_step_def)

lemma map_in_range: "gateway_ok g \<Longrightarrow> list_all (\<lambda>b. b < length (gw_buses g)) (map snd (gw_map g))"
  by (auto simp: gateway_ok_def list_all_iff)

lemma fair_fields:
  assumes "fair_step g g'" "gw_buses g'' = gw_buses g'" "gw_streams g'' = gw_streams g'"
    "gw_published g'' = gw_published g'" "gw_map g'' = gw_map g'"
  shows "fair_step g g''"
  using assms by (simp add: fair_step_def evolves_fields[of g'' g'] gateway_ok_def bus_events_def)

lemma fair_open:
  assumes ok: "gateway_ok g"
  shows "fair_step g (open_stream session header query follow now g)"
proof -
  obtain b g' where made: "get_or_create_bus session None now g = (b, g')" by force
  have g': "gateway_ok g'" "b < length (gw_buses g')" "gw_streams g' = gw_streams g" using create_ok[OF ok made] by auto
  have "evolves i g (open_stream session header query follow now g)"
    if i: "i < length (gw_streams g)" "es_phase (gw_streams g ! i) \<noteq> Opening" for i
    unfolding open_stream_def made Let_def prod.case
    by (rule evolves_trans[OF _ add_stream_evolves]) (use i g' create_ok[OF ok made, of i] in auto)
  moreover have "gateway_ok (open_stream session header query follow now g)"
    unfolding open_stream_def made Let_def prod.case by (rule add_stream_ok[OF g'(1)]) (simp_all add: g')
  ultimately show ?thesis by (simp add: fair_step_def)
qed

lemma fair_connected:
  assumes "gateway_ok g" "phase_of i g = Opening"
  shows "fair_step g (connected now i g)"
proof -
  have i: "i < length (gw_streams g)" "es_phase (gw_streams g ! i) = Opening"
    using assms(2) phase_of_index[of i g] by auto
  show ?thesis unfolding fair_step_def
    using connected_ok[OF assms(1) i] connected_evolves[OF assms(1) _ _ i] by blast
qed

lemma fair_disconnected: "gateway_ok g \<Longrightarrow> fair_step g (set_stream i disconnected g)"
  using set_stream_ok[of g disconnected "gw_streams g ! i" i] stream_of(1)[of g i] disconnected_evolves
  by (auto simp: fair_step_def disconnected_ok intro!: set_stream_evolves)

lemma fair_failed:
  assumes ok: "gateway_ok g"
  shows "fair_step g (gateway_step g (Write_failed i))"
proof (cases "phase_of i g")
  case Opening
  then have i: "i < length (gw_streams g)" "es_phase (gw_streams g ! i) = Opening" using phase_of_index[of i g] by auto
  then have "stream_ok i (gw_buses g ! es_bus (gw_streams g ! i)) ((gw_streams g ! i)\<lparr>es_phase := Ended\<rparr>)"
    using stream_of(1)[OF ok i(1)] by (auto simp: stream_ok_def reader_ok_def)
  then have "gateway_ok (set_stream i (\<lambda>s. s\<lparr>es_phase := Ended\<rparr>) g)"
    using set_stream_ok[OF ok _ refl] by simp
  moreover have "evolves j g (set_stream i (\<lambda>s. s\<lparr>es_phase := Ended\<rparr>) g)"
    if "j < length (gw_streams g)" "es_phase (gw_streams g ! j) \<noteq> Opening" for j
    using that i by (intro set_stream_evolves) auto
  ultimately show ?thesis using Opening by (simp add: fair_step_def)
next
  case (Writing ev)
  then have i: "i < length (gw_streams g)" "es_phase (gw_streams g ! i) = Writing ev" using phase_of_index[of i g] by auto
  have "fair_step g (step_stream i (\<lambda>s. s\<lparr>es_phase := Ended, es_listening := False\<rparr>) g)"
    using stream_of(2)[OF ok i(1)] i by (intro fair_loop[OF ok i(1)] reader_ok_failed failed_evolves) (auto simp: reader_ok_def)
  then show ?thesis using Writing by simp
qed (use ok in \<open>simp_all add: fair_stutter\<close>)

lemma fair_dispose: "gateway_ok g \<Longrightarrow> fair_step g (dispose_bus session g)"
  using fair_close[of g "[b]" "filter (\<lambda>(k, _). k \<noteq> session) (gw_map g)" for b] fair_stutter[of g]
  by (auto simp: dispose_bus_def gateway_ok_def split: option.split dest!: map_of_SomeD)

lemma resume_fields [simp]: "es_bus (resume_stream s) = es_bus s"
  by (simp add: resume_stream_def)

lemma written_fields [simp]: "es_bus (event_written ev s) = es_bus s"
  by (simp add: event_written_def)

lemma fair_gateway_step:
  assumes ok: "gateway_ok g"
  shows "fair_step g (gateway_step g op)"
proof (cases op)
  case (Connected i now)
  then show ?thesis using fair_connected[OF ok] fair_stutter[OF ok] by (simp split: stream_phase.split)
next
  case (Resumed i)
  show ?thesis
  proof (cases "phase_of i g")
    case Woken
    then have i: "i < length (gw_streams g)" "es_phase (gw_streams g ! i) = Woken" using phase_of_index[of i g] by auto
    then have r: "reader_ok (gw_buses g ! es_bus (gw_streams g ! i)) (resume_stream (gw_streams g ! i))"
      "es_listening (gw_streams g ! i)"
      using reader_ok_resume[OF stream_of(2)[OF ok i(1)] i(2)] reader_listening[OF stream_of(2)[OF ok i(1)]] i(2) by simp_all
    have "fair_step g (step_stream i resume_stream g)"
      using i r by (intro fair_loop[OF ok i(1)] resume_evolves) simp_all
    then show ?thesis using Resumed Woken by simp
  qed (use Resumed fair_stutter[OF ok] in simp_all)
next
  case (Written i)
  show ?thesis
  proof (cases "phase_of i g")
    case (Writing ev)
    then have i: "i < length (gw_streams g)" "es_phase (gw_streams g ! i) = Writing ev" using phase_of_index[of i g] by auto
    then have r: "reader_ok (gw_buses g ! es_bus (gw_streams g ! i)) (event_written ev (gw_streams g ! i))"
      "es_listening (gw_streams g ! i)"
      using reader_ok_written[OF stream_of(2)[OF ok i(1)] i(2)] reader_listening[OF stream_of(2)[OF ok i(1)]] i(2) by simp_all
    have "fair_step g (step_stream i (event_written ev) g)"
      using i r by (intro fair_loop[OF ok i(1)] written_evolves) simp_all
    then show ?thesis using Written Writing by simp
  qed (use Written fair_stutter[OF ok] in simp_all)
next
  case (Cancel session now)
  obtain b g' where made: "get_or_create_bus session None now g = (b, g')" by force
  show ?thesis
    by (rule fair_fields[OF fair_create[OF ok made]]) (simp_all add: Cancel made cancel_current_turn_def split: option.split)
next
  case (Emit b type data now)
  then show ?thesis using ok by (simp add: fair_step_def emit_ok emit_evolves evolves_refl)
next
  case Abort_all
  have "fair_step g ((foldl (\<lambda>g b. close_bus b g) g (map snd (gw_map g)))\<lparr>gw_map := gw_map g\<rparr>)"
    by (rule fair_close[OF ok map_in_range[OF ok] subset_refl])
  then show ?thesis by (rule fair_fields) (simp_all add: Abort_all abort_all_buses_def)
next
  case Clear_all
  then show ?thesis using fair_close[OF ok map_in_range[OF ok], of "[]"] by (simp add: clear_all_buses_def abort_all_buses_def)
next
  case (Bus_wanted session m now)
  then show ?thesis using fair_create[OF ok] by (simp add: prod_eq_iff)
next
  case (Ring_size n)
  show ?thesis by (rule fair_fields[OF fair_stutter[OF ok]]) (simp_all add: Ring_size set_default_ring_size_def)
next
  case (Write_failed i)
  then show ?thesis using fair_failed[OF ok] by blast
qed (use fair_open[OF ok] fair_disconnected[OF ok] fair_dispose[OF ok] fair_quiet[OF ok] in
      \<open>auto simp: quiet_def mark_turn_start_def\<close>)

lemma new_gateway_ok: "gateway_ok new_gateway"
  by (simp add: gateway_ok_def new_gateway_def)

lemma gateway_run_ok: "gateway_ok g \<Longrightarrow> gateway_ok (gateway_run ops g)"
  unfolding gateway_run_def
  by (induction ops arbitrary: g) (use fair_gateway_step in \<open>auto simp: fair_step_def\<close>)

lemma gateway_run_evolves:
  "gateway_ok g \<Longrightarrow> i < length (gw_streams g) \<Longrightarrow> es_phase (gw_streams g ! i) \<noteq> Opening \<Longrightarrow> evolves i g (gateway_run ops g)"
proof (induction ops arbitrary: g)
  case (Cons op ops)
  have first: "evolves i g (gateway_step g op)" "gateway_ok (gateway_step g op)"
    using fair_gateway_step[OF Cons.prems(1), of op] Cons.prems by (auto simp: fair_step_def)
  then have "evolves i (gateway_step g op) (gateway_run ops (gateway_step g op))"
    by (intro Cons.IH) (auto simp: evolves_def stream_evolves_def)
  then show ?case using first(1) evolves_trans by (auto simp: gateway_run_def)
qed (simp add: gateway_run_def evolves_refl)

section \<open>Readers miss nothing\<close>

text \<open>The first number a stream wants when it attaches.\<close>

definition first_wanted :: "'d event_stream \<Rightarrow> 'd event_bus \<Rightarrow> nat" where
  "first_wanted s bus = (case es_cursor s of Some n \<Rightarrow> n + 1 | None \<Rightarrow> eb_turn_start bus)"

lemma replay_wanted: "replay (es_cursor s) bus = filter (\<lambda>ev. first_wanted s bus \<le> ev_seq ev) (eb_ring bus)"
  by (simp add: replay_def first_wanted_def Suc_le_eq split: option.split)

lemma seq_of_nth: "map ev_seq pub = [1..<Suc (length pub)] \<Longrightarrow> k < length pub \<Longrightarrow> ev_seq (pub ! k) = Suc k"
  by (metis add.left_neutral length_map nth_map nth_upt One_nat_def Suc_less_eq plus_1_eq_Suc)

lemma bus_seqs:
  assumes "gateway_ok g" "i < length (gw_streams g)" "b = es_bus (gw_streams g ! i)"
  shows "map ev_seq (bus_events b g) = [1..<Suc (length (bus_events b g))]"
proof -
  have "bus_ok b (gw_streams g) (bus_events b g) (gw_buses g ! b)" using assms by (simp add: gateway_ok_def)
  then show ?thesis unfolding bus_ok_def by blast
qed

lemma ring_holds_wanted:
  assumes "bus_ok b ss pub bus" "\<not> eb_closed bus" "eb_seq bus < w + eb_max_ring bus"
  shows "filter (\<lambda>ev. w \<le> ev_seq ev) (eb_ring bus) = filter (\<lambda>ev. w \<le> ev_seq ev) pub"
proof -
  let ?k = "length pub - eb_max_ring bus"
  have ok: "map ev_seq pub = [1..<Suc (length pub)]" "eb_seq bus = length pub" "eb_ring bus = drop ?k pub"
    using assms(1,2) by (simp_all add: bus_ok_def del: upt_Suc)
  have "\<not> w \<le> ev_seq ev" if "ev \<in> set (take ?k pub)" for ev
  proof -
    have "map ev_seq (take ?k pub) = [1..<1 + ?k]" unfolding take_map[symmetric] ok(1) by (rule take_upt) simp
    then have "ev_seq ev \<in> set [1..<1 + ?k]" using that by (metis image_eqI list.set_map)
    then have "1 \<le> ev_seq ev \<and> ev_seq ev < 1 + ?k" by auto
    then show ?thesis using assms(3) ok(2) by auto
  qed
  then have "filter (\<lambda>ev. w \<le> ev_seq ev) (take ?k pub) = []" by (simp add: filter_empty_conv)
  moreover have "filter (\<lambda>ev. w \<le> ev_seq ev) pub
      = filter (\<lambda>ev. w \<le> ev_seq ev) (take ?k pub) @ filter (\<lambda>ev. w \<le> ev_seq ev) (drop ?k pub)"
    by (metis append_take_drop_id filter_append)
  ultimately show ?thesis using ok(3) by simp
qed

text \<open>The reader is over, or has been given what it wants.\<close>

definition fed :: "nat \<Rightarrow> nat \<Rightarrow> 'd gateway \<Rightarrow> bool" where
  "fed w i g \<longleftrightarrow>
     (let s = gw_streams g ! i; wanted = filter (\<lambda>ev. w \<le> ev_seq ev) (bus_events (es_bus s) g) in
      prefix (received s) wanted \<and> (es_phase s \<noteq> Ended \<longrightarrow> received s = wanted)
      \<and> w \<le> Suc (length (bus_events (es_bus s) g)))"

text \<open>The stream right after it attached.\<close>

lemma attach_result:
  assumes "gateway_ok g" "i < length (gw_streams g)" "es_phase (gw_streams g ! i) = Opening"
  shows "gw_streams (connected now i g) ! i = loop_head (attached (gw_buses g ! es_bus (gw_streams g ! i)) (gw_streams g ! i))"
    "length (gw_streams (connected now i g)) = length (gw_streams g)"
  using connected_stops[OF assms(1,2) refl assms(3)] connected_goes_on[OF assms(2) refl] assms(2)
  by (cases "es_stopped (attached (gw_buses g ! es_bus (gw_streams g ! i)) (gw_streams g ! i))"; simp add: loop_head_def)+

lemma connected_fed:
  assumes ok: "gateway_ok g" and i: "i < length (gw_streams g)" "es_phase (gw_streams g ! i) = Opening"
    and s: "s = gw_streams g ! i" and bus: "bus = gw_buses g ! es_bus s" and w: "w = first_wanted s bus" "w \<le> eb_seq bus + 1"
    "eb_seq bus < w + eb_max_ring bus" and "\<not> eb_closed bus"
  shows "fed w i (connected now i g)"
proof -
  have b: "bus_ok (es_bus s) (gw_streams g) (bus_events (es_bus s) g) bus" and fresh: "es_sent s = []"
    using ok i by (auto simp: gateway_ok_def s bus stream_ok_def reader_ok_def)
  have "replay (es_cursor s) bus = filter (\<lambda>ev. w \<le> ev_seq ev) (bus_events (es_bus s) g)"
    unfolding replay_wanted w(1)[symmetric] using ring_holds_wanted[OF b assms(9) w(3)] .
  moreover have "w \<le> Suc (length (bus_events (es_bus s) g))" using b w(2) assms(9) by (simp add: bus_ok_def)
  moreover have "bus_events c (connected now i g) = bus_events c g" for c
    using connected_stops[OF ok i(1) s] connected_goes_on[OF i(1) s] i s bus
    by (cases "es_stopped (attached bus s)"; simp)
  ultimately show ?thesis using fresh attach_result[OF ok i] s bus
    by (auto simp: fed_def Let_def loop_head_def take_event_def received_def split: list.split)
qed

lemma fed_evolves:
  assumes ok: "gateway_ok g'" "i < length (gw_streams g')" and "fed w i g" "evolves i g g'"
  shows "fed w i g'"
proof -
  define s where "s = gw_streams g ! i"
  define s' where "s' = gw_streams g' ! i"
  let ?b = "es_bus s"
  let ?f = "filter (\<lambda>ev. w \<le> ev_seq ev)"
  obtain new where new: "bus_events ?b g' = bus_events ?b g @ new" "stream_evolves new s s'"
    using assms(4) by (auto simp: evolves_def s_def s'_def)
  have same: "es_bus s' = ?b" using new(2) by (simp add: stream_evolves_def same_reader_def)
  have fed: "prefix (received s) (?f (bus_events ?b g))" "es_phase s \<noteq> Ended \<longrightarrow> received s = ?f (bus_events ?b g)"
    "w \<le> Suc (length (bus_events ?b g))"
    using assms(3) by (simp_all add: fed_def Let_def s_def)
  have seqs: "map ev_seq (bus_events ?b g') = [1..<Suc (length (bus_events ?b g'))]"
    by (rule bus_seqs[OF ok]) (simp add: same flip: s'_def)
  have "w \<le> ev_seq ev" if ev: "ev \<in> set new" for ev
  proof -
    obtain j where "j < length new" "ev = new ! j" using ev by (auto simp: in_set_conv_nth)
    then have "bus_events ?b g' ! (length (bus_events ?b g) + j) = ev"
      "length (bus_events ?b g) + j < length (bus_events ?b g')" using new(1) by (simp_all add: nth_append)
    then have "ev_seq ev = Suc (length (bus_events ?b g) + j)" using seq_of_nth[OF seqs] by metis
    then show ?thesis using fed(3) by simp
  qed
  then have all: "?f (bus_events ?b g') = ?f (bus_events ?b g) @ new" by (simp add: new(1) filter_id_conv)
  have "prefix (received s') (?f (bus_events ?b g'))" "es_phase s' \<noteq> Ended \<longrightarrow> received s' = ?f (bus_events ?b g')"
    using new(2) fed(1,2) unfolding all by (cases "es_phase s = Ended"; auto simp: stream_evolves_def)+
  then show ?thesis using fed(3) new(1) same by (simp add: fed_def Let_def s'_def[symmetric])
qed

lemma received_sent: "prefix (es_sent s) (received s)"
  by (simp add: received_def)

lemma attached_to_closed:
  assumes "gateway_ok g" "i < length (gw_streams g)" "es_phase (gw_streams g ! i) = Opening"
    and "eb_closed (gw_buses g ! es_bus (gw_streams g ! i))"
  shows "es_phase (gw_streams (connected now i g) ! i) = Ended \<and> received (gw_streams (connected now i g) ! i) = []"
proof -
  have "es_sent (gw_streams g ! i) = []" using stream_of(2)[OF assms(1,2)] assms(3) by (simp add: reader_ok_def)
  moreover have "es_stopped (attached (gw_buses g ! es_bus (gw_streams g ! i)) (gw_streams g ! i))"
    using assms(4) by (simp add: attached_def Let_def)
  ultimately show ?thesis by (simp add: attach_result[OF assms(1-3)] loop_head_def received_def)
qed

text \<open>C29: A reader that reconnects with the number of the last event it has (or a fresh one, from the start of
  the turn) is written every later event of the bus once and in order: nothing is lost between replay
  and live delivery, and when it waits it has been written them all; provided the ring still holds the
  first one it wants when it attaches.\<close>
theorem reader_misses_nothing:
  assumes "g = gateway_run earlier new_gateway" "phase_of i g = Opening"
    and "bus = gw_buses g ! es_bus (gw_streams g ! i)" "w = first_wanted (gw_streams g ! i) bus"
    and "w \<le> eb_seq bus + 1" "eb_seq bus < w + eb_max_ring bus"
    and "g' = gateway_run (Connected i now # later) g" "s = gw_streams g' ! i"
    and "wanted = filter (\<lambda>ev. w \<le> ev_seq ev) (bus_events (es_bus s) g')"
  shows "prefix (es_sent s) wanted \<and> (es_phase s = Parked \<longrightarrow> es_sent s = wanted) \<and> sorted_wrt (<) (map ev_seq wanted)"
proof -
  have ok: "gateway_ok g" unfolding assms(1) by (rule gateway_run_ok[OF new_gateway_ok])
  have i: "i < length (gw_streams g)" "es_phase (gw_streams g ! i) = Opening" using assms(2) phase_of_index[of i g] by auto
  define h where "h = connected now i g"
  have g': "g' = gateway_run later h" using assms(2,7) by (simp add: gateway_run_def h_def)
  have h: "gateway_ok h" unfolding h_def by (rule connected_ok[OF ok i])
  have attached_now: "i < length (gw_streams h)" "es_phase (gw_streams h ! i) \<noteq> Opening"
    using i attach_result[OF ok i] by (simp_all add: h_def loop_head_def split: list.split)
  have run: "evolves i h g'" unfolding g' by (rule gateway_run_evolves[OF h attached_now])
  have ok': "gateway_ok g'" "i < length (gw_streams g')"
    using run gateway_run_ok[OF h] by (auto simp: evolves_def g')
  have "prefix (received s) wanted \<and> (es_phase s \<noteq> Ended \<longrightarrow> received s = wanted)"
  proof (cases "eb_closed bus")
    case True
    then have "es_phase (gw_streams h ! i) = Ended \<and> received (gw_streams h ! i) = []"
      unfolding h_def assms(3) by (rule attached_to_closed[OF ok i])
    then show ?thesis using run by (auto simp: evolves_def stream_evolves_def assms(8))
  next
    case False
    then have "fed w i h" unfolding h_def using connected_fed[OF ok i refl assms(3,4,5,6)] by blast
    then have "fed w i g'" by (rule fed_evolves[OF ok' _ run])
    then show ?thesis by (simp add: fed_def Let_def assms(8,9))
  qed
  moreover have "received s = es_sent s" if "es_phase s = Parked"
    using that stream_of(2)[OF ok'] by (simp add: assms(8) received_def reader_ok_def)
  moreover have "sorted_wrt (<) (map ev_seq wanted)"
  proof -
    have "map ev_seq (bus_events (es_bus s) g') = [1..<Suc (length (bus_events (es_bus s) g'))]"
      by (rule bus_seqs[OF ok']) (simp add: assms(8))
    then have "sorted_wrt (<) (map ev_seq (bus_events (es_bus s) g'))" by (metis sorted_wrt_upt)
    then show ?thesis unfolding assms(9) by (simp add: sorted_wrt_map sorted_wrt_filter)
  qed
  ultimately show ?thesis using received_sent[of s] by (auto intro: prefix_order.trans)
qed

text \<open>A cursor that comes from an earlier bus of the session is no number of this one: numbers start again
  when a session's bus is disposed, and the events of the running turn whose numbers are not above the
  cursor are not replayed. Here the reader is not written the first event of the turn.\<close>

definition stale_cursor_ops :: "unit gateway_op list" where
  "stale_cursor_ops =
     [Bus_wanted ''s'' None 0, Turn_started 0 0, Emit 0 ''text_delta'' () 0, Emit 0 ''turn_complete'' () 0,
      Dispose ''s'', Bus_wanted ''s'' None 1, Turn_started 1 1, Emit 1 ''text_delta'' () 1,
      Open ''s'' (Some ''2'') None None 1, Connected 0 1, Emit 1 ''turn_complete'' () 1, Resumed 0, Written 0]"

lemma stale_cursor_hides_events:
  "map ev_type (es_sent (gw_streams (gateway_run stale_cursor_ops new_gateway) ! 0)) = [''turn_complete'']
   \<and> map ev_type (bus_events 1 (gateway_run stale_cursor_ops new_gateway)) = [''text_delta'', ''turn_complete'']"
  by code_simp

section \<open>Subscribers\<close>

text \<open>C30: The subscribers of a bus are the streams on it that read: a stream that has ended or has not attached is
  none, nobody is subscribed to a closed bus, and nobody waits on one.\<close>
theorem subscribers_are_readers:
  assumes "b < length (gw_buses (gateway_run ops new_gateway))"
  shows "let g = gateway_run ops new_gateway; bus = gw_buses g ! b in
    set (eb_subscribers bus) = {i. i < length (gw_streams g) \<and> es_bus (gw_streams g ! i) = b \<and> \<not> eb_closed bus
      \<and> phase_of i g \<noteq> Opening \<and> phase_of i g \<noteq> Ended}
    \<and> distinct (eb_subscribers bus)
    \<and> {i. phase_of i g = Parked \<and> es_bus (gw_streams g ! i) = b \<and> (eb_closed bus \<or> es_gone (gw_streams g ! i))} = {}"
proof -
  define g where "g = gateway_run ops new_gateway"
  have ok: "gateway_ok g" unfolding g_def by (rule gateway_run_ok[OF new_gateway_ok])
  have b: "bus_ok b (gw_streams g) (bus_events b g) (gw_buses g ! b)" using ok assms by (simp add: gateway_ok_def g_def)
  have member: "i \<in> set (eb_subscribers (gw_buses g ! b)) \<longleftrightarrow> \<not> eb_closed (gw_buses g ! b) \<and> phase_of i g \<noteq> Opening \<and> phase_of i g \<noteq> Ended"
    if "i < length (gw_streams g)" "es_bus (gw_streams g ! i) = b" for i
    using stream_of[OF ok that(1)] that by (auto simp: stream_ok_def reader_ok_def phase_of_def)
  have range: "i < length (gw_streams g) \<and> es_bus (gw_streams g ! i) = b" if "i \<in> set (eb_subscribers (gw_buses g ! b))" for i
    using b that by (simp add: bus_ok_def)
  have parked: "\<not> (eb_closed (gw_buses g ! es_bus (gw_streams g ! i)) \<or> es_gone (gw_streams g ! i))" if "phase_of i g = Parked" for i
  proof -
    have i: "i < length (gw_streams g)" "es_phase (gw_streams g ! i) = Parked" using that phase_of_index[of i g] by auto
    show ?thesis using stream_of(2)[OF ok i(1)] i(2) by (auto simp: reader_ok_def)
  qed
  have "distinct (eb_subscribers (gw_buses g ! b))" using b by (simp add: bus_ok_def)
  moreover have "set (eb_subscribers (gw_buses g ! b)) = {i. i < length (gw_streams g) \<and> es_bus (gw_streams g ! i) = b
      \<and> \<not> eb_closed (gw_buses g ! b) \<and> phase_of i g \<noteq> Opening \<and> phase_of i g \<noteq> Ended}"
    using member range by blast
  ultimately show ?thesis unfolding g_def[symmetric] Let_def using parked by auto
qed

section \<open>Streams end\<close>

text \<open>A stream that is not asked to follow ends with the turn: what it is written contains no end of a turn
  except as the last event, and it is over once it has been written one.\<close>
theorem stream_ends_with_turn:
  assumes "s \<in> set (gw_streams (gateway_run ops new_gateway))" "\<not> es_follow s"
  shows "list_all (Not \<circ> is_terminal) (if es_phase s = Ended then butlast (es_sent s) else es_sent s)"
proof -
  have ok: "gateway_ok (gateway_run ops new_gateway)" by (rule gateway_run_ok[OF new_gateway_ok])
  obtain i where "i < length (gw_streams (gateway_run ops new_gateway))" "s = gw_streams (gateway_run ops new_gateway) ! i"
    using assms(1) by (auto simp: in_set_conv_nth)
  then show ?thesis using stream_of(2)[OF ok] assms(2) unfolding reader_ok_def by metis
qed

text \<open>The client has gone or the bus is closed.\<close>

definition to_end :: "nat \<Rightarrow> 'd gateway \<Rightarrow> bool" where
  "to_end i g \<longleftrightarrow> i < length (gw_streams g) \<and> (es_gone (gw_streams g ! i) \<or> eb_closed (gw_buses g ! es_bus (gw_streams g ! i)))"

text \<open>It is to stop, or is over; and its rank.\<close>

definition winds_down :: "nat \<Rightarrow> nat \<Rightarrow> 'd gateway \<Rightarrow> bool" where
  "winds_down n i g \<longleftrightarrow> gateway_ok g \<and> i < length (gw_streams g) \<and> es_phase (gw_streams g ! i) \<noteq> Opening
     \<and> (es_phase (gw_streams g ! i) = Ended \<or> es_stopped (gw_streams g ! i)) \<and> stream_rank (gw_streams g ! i) \<le> n"

lemma winds_down_evolves: "winds_down n i g \<Longrightarrow> gateway_ok g' \<Longrightarrow> evolves i g g' \<Longrightarrow> winds_down n i g'"
  by (auto simp: winds_down_def evolves_def stream_evolves_def stream_rank_def)

lemma winds_down_run: "winds_down n i g \<Longrightarrow> winds_down n i (gateway_run ops g)"
  by (rule winds_down_evolves) (auto simp: winds_down_def intro: gateway_run_ok gateway_run_evolves)

lemma winds_down_step: "winds_down n i g \<Longrightarrow> winds_down n i (gateway_step g op)"
  using winds_down_run[of n i g "[op]"] by (simp add: gateway_run_def)

lemma step_stream_nth:
  "i < length (gw_streams g) \<Longrightarrow> gw_streams (step_stream i f g) ! i = f (gw_streams g ! i)"
  by (simp add: step_stream_def finish_stream_def split: stream_phase.split)

lemma winds_down_resumed:
  assumes "winds_down n i g"
  shows "winds_down 1 i (gateway_step g (Resumed i))"
proof -
  have g: "gateway_ok g" "i < length (gw_streams g)" using assms by (auto simp: winds_down_def)
  have "stream_rank (gw_streams (gateway_step g (Resumed i)) ! i) \<le> 1"
  proof (cases "es_phase (gw_streams g ! i) = Woken")
    case True
    then have "gw_streams (gateway_step g (Resumed i)) ! i = resume_stream (gw_streams g ! i)"
      using g by (simp add: phase_of_def step_stream_nth)
    then show ?thesis using True assms
      by (cases "es_queue (gw_streams g ! i)")
        (simp_all add: winds_down_def stream_rank_def resume_stream_def loop_head_def take_event_def)
  next
    case False
    then have "gateway_step g (Resumed i) = g" using g by (simp add: phase_of_def split: stream_phase.split)
    moreover have "es_phase (gw_streams g ! i) \<noteq> Parked"
      using stream_of(2)[OF g] assms by (auto simp: reader_ok_def winds_down_def)
    ultimately show ?thesis using False assms
      by (cases "es_phase (gw_streams g ! i)") (simp_all add: winds_down_def stream_rank_def)
  qed
  then show ?thesis using winds_down_step[OF assms, of "Resumed i"] by (simp add: winds_down_def)
qed

lemma winds_down_written:
  assumes "winds_down 1 i g"
  shows "winds_down 0 i (gateway_step g (Written i))"
proof -
  have "stream_rank (gw_streams (gateway_step g (Written i)) ! i) \<le> 0"
    using assms by (cases "es_phase (gw_streams g ! i)")
      (auto simp: winds_down_def phase_of_def step_stream_nth stream_rank_def event_written_def loop_head_def)
  then show ?thesis using winds_down_step[OF assms, of "Written i"] by (simp add: winds_down_def)
qed

lemma winds_down_ended: "winds_down 0 i g \<Longrightarrow> phase_of i g = Ended"
  by (cases "es_phase (gw_streams g ! i)") (simp_all add: winds_down_def stream_rank_def phase_of_def)

lemma attach_to_end:
  assumes "gateway_ok g" "to_end i g" "phase_of i g = Opening"
  shows "phase_of i (gateway_step g (Connected i now)) = Ended"
proof -
  have i: "i < length (gw_streams g)" "es_phase (gw_streams g ! i) = Opening" using assms(3) phase_of_index[of i g] by auto
  have "es_stopped (attached (gw_buses g ! es_bus (gw_streams g ! i)) (gw_streams g ! i))"
    using assms(2) by (auto simp: to_end_def attached_def Let_def)
  then show ?thesis using attach_result[OF assms(1) i] assms(3) i(1) by (simp add: phase_of_def loop_head_def)
qed

text \<open>C31: No stream hangs: when its client has gone or its bus has been closed, a stream that attaches ends at
  once, and any other is over when its pending wait and its pending write have come back, whatever else
  happens in between.\<close>
theorem stopped_stream_ends:
  assumes "g = gateway_run earlier new_gateway" "to_end i g"
    and "later = ops1 @ Resumed i # ops2 @ Written i # ops3"
  shows "phase_of i (if phase_of i g = Opening then gateway_step g (Connected i now) else gateway_run later g) = Ended"
proof -
  have ok: "gateway_ok g" unfolding assms(1) by (rule gateway_run_ok[OF new_gateway_ok])
  have i: "i < length (gw_streams g)" using assms(2) by (simp add: to_end_def)
  show ?thesis
  proof (cases "phase_of i g = Opening")
    case True
    then show ?thesis using attach_to_end[OF ok assms(2)] by simp
  next
    case False
    then have "winds_down 3 i g"
      using stream_of(2)[OF ok i] assms(2) ok i
      by (auto simp: winds_down_def phase_of_def to_end_def reader_ok_def stream_rank_def split: stream_phase.split)
    then have "winds_down 1 i (gateway_run (ops1 @ [Resumed i]) g)"
      using winds_down_resumed[OF winds_down_run] by (simp add: gateway_run_def)
    then have "winds_down 0 i (gateway_run ((ops1 @ [Resumed i]) @ ops2 @ [Written i]) g)"
      using winds_down_written[OF winds_down_run] by (simp add: gateway_run_def)
    then have "winds_down 0 i (gateway_run later g)"
      using winds_down_run[of 0 i _ ops3] by (simp add: gateway_run_def assms(3))
    then show ?thesis using False winds_down_ended by simp
  qed
qed

section \<open>Witnesses\<close>

text \<open>A reader drops after the first of three events and comes back with its number.\<close>

definition first_ops :: "unit gateway_op list" where
  "first_ops = [Bus_wanted ''s'' None 0, Turn_started 0 0, Emit 0 ''text_delta'' () 0, Emit 0 ''text_delta'' () 0,
     Open ''s'' (Some ''1'') None None 0]"

definition later_ops :: "unit gateway_op list" where
  "later_ops = [Emit 0 ''text_delta'' () 0, Written 0, Written 0]"

theorem reader_misses_nothing_witness:
  "map ev_seq (es_sent (gw_streams (gateway_run (Connected 0 0 # later_ops) (gateway_run first_ops new_gateway)) ! 0)) = [2, 3]"
proof -
  let ?g = "gateway_run first_ops new_gateway" and ?g' = "gateway_run (Connected 0 0 # later_ops) (gateway_run first_ops new_gateway)"
  have at: "phase_of 0 ?g = Opening \<and> first_wanted (gw_streams ?g ! 0) (gw_buses ?g ! es_bus (gw_streams ?g ! 0)) = 2
    \<and> eb_seq (gw_buses ?g ! es_bus (gw_streams ?g ! 0)) = 2 \<and> eb_max_ring (gw_buses ?g ! es_bus (gw_streams ?g ! 0)) = 512"
    by code_simp
  have now: "es_phase (gw_streams ?g' ! 0) = Parked
    \<and> map ev_seq (filter (\<lambda>ev. 2 \<le> ev_seq ev) (bus_events (es_bus (gw_streams ?g' ! 0)) ?g')) = [2, 3]"
    by code_simp
  from reader_misses_nothing[OF refl _ refl refl _ _ refl refl refl, of 0 first_ops 0 later_ops] at now
  show ?thesis by simp
qed

definition follow_ops :: "unit gateway_op list" where
  "follow_ops = [Open ''s'' None None (Some ''true'') 0, Connected 0 0]"

theorem subscribers_are_readers_witness:
  "set (eb_subscribers (gw_buses (gateway_run follow_ops new_gateway) ! 0)) = {0}"
proof -
  let ?g = "gateway_run follow_ops new_gateway"
  have "length (gw_buses ?g) = 1 \<and> length (gw_streams ?g) = 1 \<and> es_bus (gw_streams ?g ! 0) = 0 \<and> phase_of 0 ?g = Parked
    \<and> \<not> eb_closed (gw_buses ?g ! 0)"
    by code_simp
  then show ?thesis using subscribers_are_readers[of 0 follow_ops] by (auto simp: Let_def)
qed

theorem stream_ends_with_turn_witness:
  "\<exists>s. s \<in> set (gw_streams (gateway_run stale_cursor_ops new_gateway)) \<and> es_sent s \<noteq> []
    \<and> list_all (Not \<circ> is_terminal) (if es_phase s = Ended then butlast (es_sent s) else es_sent s)"
proof -
  let ?s = "gw_streams (gateway_run stale_cursor_ops new_gateway) ! 0"
  have facts: "length (gw_streams (gateway_run stale_cursor_ops new_gateway)) = 1 \<and> \<not> es_follow ?s \<and> es_sent ?s \<noteq> []" by code_simp
  then have "?s \<in> set (gw_streams (gateway_run stale_cursor_ops new_gateway))" by (intro nth_mem) simp
  then show ?thesis using stream_ends_with_turn[of ?s] facts by blast
qed

theorem stopped_stream_ends_witness:
  "phase_of 0 (gateway_run [Resumed 0, Written 0] (gateway_run (follow_ops @ [Emit 0 ''x'' () 0, Disconnected 0]) new_gateway)) = Ended"
proof -
  let ?g = "gateway_run (follow_ops @ [Emit 0 ''x'' () 0, Disconnected 0]) new_gateway"
  have "length (gw_streams ?g) = 1 \<and> es_gone (gw_streams ?g ! 0) \<and> phase_of 0 ?g = Woken" by code_simp
  then have "to_end 0 ?g" "phase_of 0 ?g \<noteq> Opening" by (simp_all add: to_end_def)
  then show ?thesis
    using stopped_stream_ends[OF refl, of 0 "follow_ops @ [Emit 0 ''x'' () 0, Disconnected 0]" "[Resumed 0, Written 0]" "[]" "[]" "[]"]
    by simp
qed

end
