(* ===== verification/Approvals.thy ===== *)
theory Approvals
  imports Permission_Decision
begin

text \<open>
  How a server asks its user: \<open>src/server/approvalQueue.ts\<close> (requests that wait for an answer, each with a
  timer), \<open>createServerAsk\<close> in \<open>src/server/runtime.ts\<close> (the question of a turn) and the route
  \<open>src/server/routes/approvals.ts\<close> (the answer of a client, checked, then its body read). A request is
  its index; what its promise has been settled with is part of the state. A step is one synchronous run.
\<close>

section \<open>Data\<close>

record approval_response =
  rp_approved :: bool
  rp_always :: "bool option"
  rp_updated :: "json option"
  rp_timeout :: bool

datatype settlement = Settled_with approval_response | Cancelled_with string

record approval_request =
  aq_id :: string
  aq_timer :: bool                 \<comment> \<open>the timer is set\<close>
  aq_outcome :: "settlement option"

record approval_queue =
  aq_pending :: "(string \<times> nat) list"
  aq_requests :: "approval_request list"

definition new_approval_queue :: approval_queue where
  "new_approval_queue = \<lparr>aq_pending = [], aq_requests = []\<rparr>"

section \<open>The queue\<close>

text \<open>A promise is settled once.\<close>

definition settle_request :: "nat \<Rightarrow> settlement \<Rightarrow> approval_queue \<Rightarrow> approval_queue" where
  "settle_request k x q =
     q\<lparr>aq_requests := (aq_requests q)[k := (aq_requests q ! k)
        \<lparr>aq_timer := False, aq_outcome := or_else (aq_outcome (aq_requests q ! k)) (Some x)\<rparr>]\<rparr>"

definition create_pending :: "string \<Rightarrow> approval_queue \<Rightarrow> approval_queue" where
  "create_pending i q =
     \<lparr>aq_pending = AList.update i (length (aq_requests q)) (aq_pending q),
      aq_requests = aq_requests q @ [\<lparr>aq_id = i, aq_timer = True, aq_outcome = None\<rparr>]\<rparr>"

definition timed_out :: approval_response where
  "timed_out = \<lparr>rp_approved = False, rp_always = None, rp_updated = None, rp_timeout = True\<rparr>"

definition timer_fires :: "nat \<Rightarrow> approval_queue \<Rightarrow> approval_queue" where
  "timer_fires k q =
     (if k < length (aq_requests q) \<and> aq_timer (aq_requests q ! k)
      then (let i = aq_id (aq_requests q ! k) in
        if map_of (aq_pending q) i \<noteq> None
        then settle_request k (Settled_with timed_out) (q\<lparr>aq_pending := AList.delete i (aq_pending q)\<rparr>)
        else q\<lparr>aq_requests := (aq_requests q)[k := (aq_requests q ! k)\<lparr>aq_timer := False\<rparr>]\<rparr>)
      else q)"

text \<open>\<open>resolve\<close> and \<open>cancel\<close>.\<close>

definition settle_pending :: "string \<Rightarrow> settlement \<Rightarrow> approval_queue \<Rightarrow> approval_queue" where
  "settle_pending i x q =
     (case map_of (aq_pending q) i of
        None \<Rightarrow> q
      | Some k \<Rightarrow> settle_request k x (q\<lparr>aq_pending := AList.delete i (aq_pending q)\<rparr>))"

definition resolve_approval :: "string \<Rightarrow> approval_response \<Rightarrow> approval_queue \<Rightarrow> approval_queue" where
  "resolve_approval i response = settle_pending i (Settled_with response)"

definition cancel_approval :: "string \<Rightarrow> approval_queue \<Rightarrow> approval_queue" where
  "cancel_approval i = settle_pending i (Cancelled_with (''approval request '' @ i @ '' cancelled''))"

definition has_pending :: "string \<Rightarrow> approval_queue \<Rightarrow> bool" where
  "has_pending i q \<longleftrightarrow> map_of (aq_pending q) i \<noteq> None"

definition dispose_approvals :: "approval_queue \<Rightarrow> approval_queue" where
  "dispose_approvals q = foldl (\<lambda>q i. cancel_approval i q) q (map fst (aq_pending q))"

section \<open>The question\<close>

text \<open>What the permission decision is told, once the promise is settled.\<close>

fun server_answer :: "settlement \<Rightarrow> ask_response outcome" where
  "server_answer (Settled_with r) =
     Returned (if \<not> rp_approved r then Ask_deny else if rp_always r = Some True then Ask_always else Ask_allow)"
| "server_answer (Cancelled_with message) = Threw message"

section \<open>The answer of a client\<close>

definition is_valid_session_id :: "string \<Rightarrow> bool" where
  "is_valid_session_id s \<longleftrightarrow>
     s \<noteq> [] \<and> list_all (\<lambda>c. is_letter c \<or> is_digit c \<or> c = CHR ''_'' \<or> c = CHR ''-'') s"

text \<open>The rows of sessions with their owners, and whether one is visible to a principal.\<close>

type_synonym session_owners = "(string \<times> string option) list"

definition owns_session :: "session_owners \<Rightarrow> string option \<Rightarrow> string \<Rightarrow> bool" where
  "owns_session rows who session \<longleftrightarrow>
     (case map_of rows session of
        None \<Rightarrow> False
      | Some owner \<Rightarrow> (case who of None \<Rightarrow> True | Some p \<Rightarrow> owner = Some p))"

datatype http_reply = Reply_ok | Reply_error nat string | Reply_threw

record approval_post =
  po_session :: string
  po_principal :: "string option"
  po_request :: string
  po_body :: "json option"         \<comment> \<open>once it has been read\<close>
  po_reply :: "http_reply option"

record approval_server =
  as_queue :: approval_queue
  as_owners :: session_owners
  as_posts :: "approval_post list"

definition check_post :: "string \<Rightarrow> string option \<Rightarrow> string \<Rightarrow> approval_server \<Rightarrow> http_reply option" where
  "check_post session who request s =
     (if \<not> is_valid_session_id session then Some (Reply_error 400 ''invalid session id'')
      else if \<not> is_valid_session_id request then Some (Reply_error 400 ''invalid request id'')
      else if \<not> owns_session (as_owners s) who session then Some (Reply_error 404 ''not found'')
      else if \<not> has_pending request (as_queue s) then Some (Reply_error 404 ''unknown or expired requestId'')
      else None)"

definition post_approval :: "string \<Rightarrow> string option \<Rightarrow> string \<Rightarrow> approval_server \<Rightarrow> approval_server" where
  "post_approval session who request s =
     s\<lparr>as_posts := as_posts s @
       [\<lparr>po_session = session, po_principal = who, po_request = request, po_body = None,
         po_reply = check_post session who request s\<rparr>]\<rparr>"

text \<open>The body, if it can be parsed: an answer for the queue, or a reply. A property of \<open>null\<close> throws.\<close>

definition read_fields :: "json \<Rightarrow> http_reply + approval_response" where
  "read_fields v =
     (case json_field v ''approved'' of
        Some (JBool approved) \<Rightarrow>
          (let answer = \<lambda>always. Inr \<lparr>rp_approved = approved, rp_always = always, rp_updated = json_field v ''updatedInput'',
                 rp_timeout = False\<rparr> in
           case json_field v ''always'' of
             None \<Rightarrow> answer None
           | Some (JBool always) \<Rightarrow> answer (if always then Some True else None)
           | _ \<Rightarrow> Inl (Reply_error 400 (back_quote @ ''always'' @ back_quote @ '' must be a boolean when provided'')))
      | _ \<Rightarrow> Inl (Reply_error 400 (back_quote @ ''approved'' @ back_quote @ '' is required (boolean)'')))"

definition read_approval :: "json option \<Rightarrow> http_reply + approval_response" where
  "read_approval body =
     (case body of
        None \<Rightarrow> Inl (Reply_error 400 ''invalid JSON body'')
      | Some v \<Rightarrow> if v = JNull then Inl Reply_threw else read_fields v)"

definition body_arrives :: "nat \<Rightarrow> json option \<Rightarrow> approval_server \<Rightarrow> approval_server" where
  "body_arrives n body s =
     (if n < length (as_posts s) \<and> po_reply (as_posts s ! n) = None
      then (let p = (as_posts s ! n)\<lparr>po_body := body\<rparr> in
        case read_approval body of
          Inl reply \<Rightarrow> s\<lparr>as_posts := (as_posts s)[n := p\<lparr>po_reply := Some reply\<rparr>]\<rparr>
        | Inr response \<Rightarrow>
            s\<lparr>as_posts := (as_posts s)[n := p\<lparr>po_reply := Some Reply_ok\<rparr>],
              as_queue := resolve_approval (po_request p) response (as_queue s)\<rparr>)
      else s)"

section \<open>The server as a machine\<close>

datatype approval_op =
    Session_made string "string option"
  | Asked string
  | Timer_fired nat
  | Posted string "string option" string
  | Body_arrived nat "json option"
  | Approval_cancelled string
  | Approvals_disposed

fun approval_step :: "approval_server \<Rightarrow> approval_op \<Rightarrow> approval_server" where
  "approval_step s (Session_made session owner) = s\<lparr>as_owners := AList.update session owner (as_owners s)\<rparr>"
| "approval_step s (Asked i) = s\<lparr>as_queue := create_pending i (as_queue s)\<rparr>"
| "approval_step s (Timer_fired k) = s\<lparr>as_queue := timer_fires k (as_queue s)\<rparr>"
| "approval_step s (Posted session who request) = post_approval session who request s"
| "approval_step s (Body_arrived n body) = body_arrives n body s"
| "approval_step s (Approval_cancelled i) = s\<lparr>as_queue := cancel_approval i (as_queue s)\<rparr>"
| "approval_step s Approvals_disposed = s\<lparr>as_queue := dispose_approvals (as_queue s)\<rparr>"

definition approval_run :: "approval_op list \<Rightarrow> approval_server" where
  "approval_run ops = foldl approval_step \<lparr>as_queue = new_approval_queue, as_owners = [], as_posts = []\<rparr> ops"

text \<open>The identities that were made up for requests.\<close>

fun minted :: "approval_op \<Rightarrow> string list" where
  "minted (Asked i) = [i]"
| "minted _ = []"

section \<open>Nobody waits for ever\<close>

definition queue_ok :: "approval_queue \<Rightarrow> bool" where
  "queue_ok q \<longleftrightarrow>
     distinct (map fst (aq_pending q)) \<and> distinct (map aq_id (aq_requests q))
     \<and> (\<forall>(i, k) \<in> set (aq_pending q). k < length (aq_requests q) \<and> aq_id (aq_requests q ! k) = i)
     \<and> (\<forall>k < length (aq_requests q). aq_outcome (aq_requests q ! k) = None
          \<longrightarrow> aq_timer (aq_requests q ! k) \<and> map_of (aq_pending q) (aq_id (aq_requests q ! k)) = Some k)"

lemma queue_okD:
  assumes "queue_ok q"
  shows "distinct (map fst (aq_pending q))" "distinct (map aq_id (aq_requests q))"
    "map_of (aq_pending q) i = Some k \<Longrightarrow> k < length (aq_requests q) \<and> aq_id (aq_requests q ! k) = i"
    "k < length (aq_requests q) \<Longrightarrow> aq_outcome (aq_requests q ! k) = None
      \<Longrightarrow> aq_timer (aq_requests q ! k) \<and> map_of (aq_pending q) (aq_id (aq_requests q ! k)) = Some k"
  using assms by (auto simp: queue_ok_def dest!: map_of_SomeD)

lemma settle_entry_requests:
  "k < length (aq_requests q) \<Longrightarrow> aq_requests (settle_request k x (q\<lparr>aq_pending := m\<rparr>)) ! j =
     (if j = k then (aq_requests q ! k)\<lparr>aq_timer := False, aq_outcome := or_else (aq_outcome (aq_requests q ! k)) (Some x)\<rparr>
      else aq_requests q ! j)"
  "length (aq_requests (settle_request k x (q\<lparr>aq_pending := m\<rparr>))) = length (aq_requests q)"
  "aq_pending (settle_request k x (q\<lparr>aq_pending := m\<rparr>)) = m"
  by (auto simp: settle_request_def)

lemma settle_request_ids [simp]: "map aq_id (aq_requests (settle_request k x q)) = map aq_id (aq_requests q)"
  by (cases "k < length (aq_requests q)") (auto simp: settle_request_def map_update list_update_beyond intro!: nth_equalityI simp: nth_list_update)

lemma settle_entry_ok:
  assumes ok: "queue_ok q" and k: "map_of (aq_pending q) i = Some k"
  shows "queue_ok (settle_request k x (q\<lparr>aq_pending := AList.delete i (aq_pending q)\<rparr>))" (is "queue_ok ?q")
proof -
  have entry: "k < length (aq_requests q)" "aq_id (aq_requests q ! k) = i" using queue_okD(3)[OF ok k] by simp_all
  note reqs = settle_entry_requests(1)[OF entry(1), of x "AList.delete i (aq_pending q)"]
    settle_entry_requests(2,3)[where k = k and x = x and q = q and m = "AList.delete i (aq_pending q)"]
  have "aq_timer (aq_requests ?q ! j) \<and> map_of (aq_pending ?q) (aq_id (aq_requests ?q ! j)) = Some j"
    if j: "j < length (aq_requests q)" "aq_outcome (aq_requests ?q ! j) = None" for j
  proof -
    have "j \<noteq> k" using j(2) by (auto simp: reqs or_else_def split: option.splits)
    then have "aq_timer (aq_requests q ! j) \<and> map_of (aq_pending q) (aq_id (aq_requests q ! j)) = Some j"
      using queue_okD(4)[OF ok j(1)] j(2) by (simp add: reqs)
    moreover have "aq_id (aq_requests q ! j) \<noteq> i" using calculation k \<open>j \<noteq> k\<close> by auto
    ultimately show ?thesis using \<open>j \<noteq> k\<close> by (simp add: reqs delete_conv')
  qed
  moreover have "b < length (aq_requests q) \<and> aq_id (aq_requests ?q ! b) = a" if "(a, b) \<in> set (AList.delete i (aq_pending q))" for a b
  proof -
    have "(a, b) \<in> set (aq_pending q)" using that set_delete_subset[of i "aq_pending q"] by blast
    then have "b < length (aq_requests q) \<and> aq_id (aq_requests q ! b) = a" using ok unfolding queue_ok_def by blast
    then show ?thesis using reqs(1)[of b] by auto
  qed
  ultimately show ?thesis
    using queue_okD(1,2)[OF ok] by (auto simp: queue_ok_def reqs(2,3) distinct_delete)
qed

lemma settle_pending_ok: "queue_ok q \<Longrightarrow> queue_ok (settle_pending i x q)"
  by (auto simp: settle_pending_def settle_entry_ok split: option.split)

lemma timer_fires_ok:
  assumes ok: "queue_ok q"
  shows "queue_ok (timer_fires k q)"
proof (cases "k < length (aq_requests q) \<and> aq_timer (aq_requests q ! k)")
  case True
  let ?i = "aq_id (aq_requests q ! k)"
  show ?thesis
  proof (cases "map_of (aq_pending q) ?i")
    case (Some j)
    then have "j = k" using queue_okD(2,3)[OF ok] True by (auto simp: distinct_conv_nth)
    then show ?thesis using True Some settle_entry_ok[OF ok, of ?i k] by (simp add: timer_fires_def Let_def)
  next
    case None
    let ?r = "(aq_requests q)[k := (aq_requests q ! k)\<lparr>aq_timer := False\<rparr>]"
    have out: "aq_outcome (aq_requests q ! k) \<noteq> None" using queue_okD(4)[OF ok, of k] True None by auto
    have "map aq_id ?r = map aq_id (aq_requests q)" using True by (intro nth_equalityI) (auto simp: nth_list_update)
    then have "queue_ok (q\<lparr>aq_requests := ?r\<rparr>)"
      using ok out True by (auto simp: queue_ok_def nth_list_update split: if_splits)
    then show ?thesis using True None by (simp add: timer_fires_def Let_def)
  qed
qed (use ok in \<open>auto simp: timer_fires_def\<close>)

lemma ids_same [simp]:
  "map aq_id (aq_requests (settle_pending i x q)) = map aq_id (aq_requests q)"
  "map aq_id (aq_requests (timer_fires k q)) = map aq_id (aq_requests q)"
  by (auto simp: settle_pending_def timer_fires_def Let_def nth_list_update intro!: nth_equalityI split: option.split)

lemma dispose_same:
  "map aq_id (aq_requests (dispose_approvals q)) = map aq_id (aq_requests q) \<and> (queue_ok q \<longrightarrow> queue_ok (dispose_approvals q))"
proof -
  have "map aq_id (aq_requests (foldl (\<lambda>q i. cancel_approval i q) q is)) = map aq_id (aq_requests q)
      \<and> (queue_ok q \<longrightarrow> queue_ok (foldl (\<lambda>q i. cancel_approval i q) q is))" for "is"
    by (induction "is" arbitrary: q) (simp_all add: cancel_approval_def settle_pending_ok)
  then show ?thesis by (simp add: dispose_approvals_def)
qed

lemma create_pending_ok:
  assumes ok: "queue_ok q" and new: "i \<notin> set (map aq_id (aq_requests q))"
  shows "queue_ok (create_pending i q)"
proof -
  have "i \<notin> fst ` set (aq_pending q)" using ok new by (force simp: queue_ok_def)
  then have "aq_pending (create_pending i q) = aq_pending q @ [(i, length (aq_requests q))]"
    by (simp add: create_pending_def update_new)
  moreover have "map_of (aq_pending (create_pending i q)) j = (if j = i then Some (length (aq_requests q)) else map_of (aq_pending q) j)" for j
    by (simp add: create_pending_def map_of_update)
  moreover have "aq_id (aq_requests q ! k) \<noteq> i" if "k < length (aq_requests q)" for k using new that by auto
  moreover have "aq_requests (create_pending i q) = aq_requests q @ [\<lparr>aq_id = i, aq_timer = True, aq_outcome = None\<rparr>]"
    by (simp add: create_pending_def)
  ultimately show ?thesis using ok new \<open>i \<notin> fst ` set (aq_pending q)\<close>
    unfolding queue_ok_def by (auto simp: nth_append less_Suc_eq)
qed

lemma approval_step_ids:
  "map aq_id (aq_requests (as_queue (approval_step s op))) = map aq_id (aq_requests (as_queue s)) @ minted op"
  by (cases op)
    (auto simp: create_pending_def post_approval_def body_arrives_def Let_def resolve_approval_def cancel_approval_def
      dispose_same split: sum.split)

lemma approval_run_snoc: "approval_run (ops @ [op]) = approval_step (approval_run ops) op"
  by (simp add: approval_run_def)

lemma approval_run_ids: "map aq_id (aq_requests (as_queue (approval_run ops))) = concat (map minted ops)"
  by (induction ops rule: rev_induct)
    (simp_all add: approval_run_snoc approval_step_ids, simp add: approval_run_def new_approval_queue_def)

lemma approval_step_ok:
  assumes "queue_ok (as_queue s)" "distinct (map aq_id (aq_requests (as_queue s)) @ minted op)"
  shows "queue_ok (as_queue (approval_step s op))"
  using assms dispose_same
  by (cases op)
    (auto simp: create_pending_ok post_approval_def body_arrives_def Let_def resolve_approval_def cancel_approval_def
      settle_pending_ok timer_fires_ok split: sum.split)

lemma approval_run_ok: "distinct (concat (map minted ops)) \<Longrightarrow> queue_ok (as_queue (approval_run ops))"
proof (induction ops rule: rev_induct)
  case (snoc op ops)
  then show ?case
    unfolding approval_run_snoc by (intro approval_step_ok) (simp_all add: approval_run_ids)
qed (simp add: approval_run_def new_approval_queue_def queue_ok_def)

text \<open>C33: No turn waits for its user for ever: when the identities of requests differ, every request that was
  made is settled, or it can still be answered and its timer is set; and a timer that fires denies it.\<close>
theorem approvals_settle:
  assumes "distinct (concat (map minted ops))" "q = as_queue (approval_run ops)" "k < length (aq_requests q)"
    and "aq_outcome (aq_requests q ! k) = None"
  shows "aq_timer (aq_requests q ! k) \<and> has_pending (aq_id (aq_requests q ! k)) q
    \<and> map_option server_answer (aq_outcome (aq_requests (timer_fires k q) ! k)) = Some (Returned Ask_deny)"
proof -
  have "queue_ok q" using approval_run_ok[OF assms(1)] assms(2) by simp
  from queue_okD(4)[OF this assms(3,4)]
  have now: "aq_timer (aq_requests q ! k)" "map_of (aq_pending q) (aq_id (aq_requests q ! k)) = Some k" by simp_all
  then have "aq_outcome (aq_requests (timer_fires k q) ! k) = Some (Settled_with timed_out)"
    using assms(3,4) by (simp add: timer_fires_def Let_def settle_entry_requests or_else_def)
  then show ?thesis using now by (simp add: has_pending_def timed_out_def)
qed

section \<open>Nothing is allowed without an answer\<close>

text \<open>The answer \<open>r\<close> is what some client sent for the request \<open>i\<close>.\<close>

definition answered :: "approval_post list \<Rightarrow> string \<Rightarrow> approval_response \<Rightarrow> bool" where
  "answered posts i r \<longleftrightarrow>
     list_ex (\<lambda>p. po_request p = i \<and> po_reply p = Some Reply_ok \<and> read_approval (po_body p) = Inr r) posts"

definition outcomes_ok :: "approval_post list \<Rightarrow> approval_queue \<Rightarrow> bool" where
  "outcomes_ok posts q \<longleftrightarrow>
     (\<forall>k < length (aq_requests q). \<forall>r. aq_outcome (aq_requests q ! k) = Some (Settled_with r)
        \<longrightarrow> r = timed_out \<or> answered posts (aq_id (aq_requests q ! k)) r)"

definition pending_ok :: "approval_queue \<Rightarrow> bool" where
  "pending_ok q \<longleftrightarrow>
     (\<forall>i k. map_of (aq_pending q) i = Some k \<longrightarrow> k < length (aq_requests q) \<and> aq_id (aq_requests q ! k) = i)"

definition explained :: "approval_post list \<Rightarrow> approval_queue \<Rightarrow> bool" where
  "explained posts q \<longleftrightarrow> outcomes_ok posts q \<and> pending_ok q"

definition explains :: "approval_post list \<Rightarrow> string \<Rightarrow> settlement \<Rightarrow> bool" where
  "explains posts i x \<longleftrightarrow> (\<forall>r. x = Settled_with r \<longrightarrow> r = timed_out \<or> answered posts i r)"

lemma settle_explained:
  assumes "explained posts q" "k < length (aq_requests q)" "explains posts (aq_id (aq_requests q ! k)) x"
  shows "explained posts (settle_request k x (q\<lparr>aq_pending := AList.delete i (aq_pending q)\<rparr>))"
proof -
  note reqs = settle_entry_requests(1)[OF assms(2), of x "AList.delete i (aq_pending q)"]
    settle_entry_requests(2,3)[where k = k and x = x and q = q and m = "AList.delete i (aq_pending q)"]
  have "outcomes_ok posts (settle_request k x (q\<lparr>aq_pending := AList.delete i (aq_pending q)\<rparr>))"
    using assms unfolding explained_def outcomes_ok_def explains_def
    by (auto simp: reqs or_else_def split: option.splits)
  moreover have "pending_ok (settle_request k x (q\<lparr>aq_pending := AList.delete i (aq_pending q)\<rparr>))"
    using assms(1) unfolding explained_def pending_ok_def by (auto simp: reqs delete_conv' split: if_splits)
  ultimately show ?thesis by (simp add: explained_def)
qed

lemma settle_pending_explained:
  assumes "explained posts q" "explains posts i x"
  shows "explained posts (settle_pending i x q)"
proof (cases "map_of (aq_pending q) i")
  case (Some k)
  then have "k < length (aq_requests q)" "aq_id (aq_requests q ! k) = i" using assms(1) by (auto simp: explained_def pending_ok_def)
  then show ?thesis using Some settle_explained[OF assms(1), of k x i] assms(2) by (simp add: settle_pending_def)
qed (use assms in \<open>simp add: settle_pending_def\<close>)

lemma cancelled_explained: "explained posts q \<Longrightarrow> explained posts (cancel_approval i q)"
  by (simp add: cancel_approval_def settle_pending_explained explains_def)

lemma timer_explained:
  assumes "explained posts q"
  shows "explained posts (timer_fires k q)"
proof (cases "k < length (aq_requests q) \<and> aq_timer (aq_requests q ! k) \<and> map_of (aq_pending q) (aq_id (aq_requests q ! k)) = None")
  case True
  then show ?thesis
    using assms unfolding explained_def outcomes_ok_def pending_ok_def
    by (auto simp: timer_fires_def Let_def nth_list_update)
next
  case False
  then show ?thesis using assms settle_explained[OF assms, of k "Settled_with timed_out"]
    by (auto simp: timer_fires_def Let_def explains_def)
qed

lemma dispose_explained: "explained posts q \<Longrightarrow> explained posts (dispose_approvals q)"
proof -
  have "explained posts q \<Longrightarrow> explained posts (foldl (\<lambda>q i. cancel_approval i q) q is)" for "is"
    by (induction "is" arbitrary: q) (simp_all add: cancelled_explained)
  then show "explained posts q \<Longrightarrow> explained posts (dispose_approvals q)" by (simp add: dispose_approvals_def)
qed

lemma create_explained: "explained posts q \<Longrightarrow> explained posts (create_pending i q)"
  unfolding explained_def outcomes_ok_def pending_ok_def
  by (auto simp: create_pending_def map_of_update nth_append less_Suc_eq split: if_splits)

lemma explained_more:
  assumes "explained posts q" "\<And>i r. answered posts i r \<Longrightarrow> answered posts' i r"
  shows "explained posts' q"
  using assms unfolding explained_def outcomes_ok_def by blast

lemma answered_update:
  assumes "answered posts i r" "po_reply (posts ! n) = None"
  shows "answered (posts[n := p]) i r"
proof -
  obtain m where m: "m < length posts" "po_request (posts ! m) = i" "po_reply (posts ! m) = Some Reply_ok"
    "read_approval (po_body (posts ! m)) = Inr r"
    using assms(1) by (auto simp: answered_def list_ex_iff in_set_conv_nth)
  then have "posts[n := p] ! m = posts ! m" using assms(2) by (cases "m = n") auto
  then show ?thesis using m unfolding answered_def list_ex_iff by (metis length_list_update nth_mem)
qed

lemma body_explained:
  assumes "explained (as_posts s) (as_queue s)"
  shows "explained (as_posts (body_arrives n body s)) (as_queue (body_arrives n body s))"
proof (cases "n < length (as_posts s) \<and> po_reply (as_posts s ! n) = None")
  case True
  show ?thesis
  proof (cases "read_approval body")
    case (Inl reply)
    then show ?thesis using True assms answered_update
      by (auto simp: body_arrives_def Let_def intro: explained_more)
  next
    case (Inr r)
    let ?p = "(as_posts s ! n)\<lparr>po_body := body, po_reply := Some Reply_ok\<rparr>"
    have "answered ((as_posts s)[n := ?p]) (po_request ?p) r"
      unfolding answered_def list_ex_iff using True Inr set_update_memI[of n "as_posts s" ?p] by (intro bexI[of _ ?p]) simp_all
    then have "explains ((as_posts s)[n := ?p]) (po_request (as_posts s ! n)) (Settled_with r)" by (simp add: explains_def)
    moreover have "explained ((as_posts s)[n := ?p]) (as_queue s)"
      using True assms answered_update by (auto intro: explained_more)
    ultimately show ?thesis using True Inr
      by (simp add: body_arrives_def Let_def resolve_approval_def settle_pending_explained)
  qed
qed (use assms in \<open>auto simp: body_arrives_def\<close>)

lemma approval_run_explained: "explained (as_posts (approval_run ops)) (as_queue (approval_run ops))"
proof (induction ops rule: rev_induct)
  case (snoc op ops)
  have more: "answered posts i r \<Longrightarrow> answered (posts @ [p]) i r" for posts p i r by (simp add: answered_def)
  show ?case
    unfolding approval_run_snoc using snoc
    by (cases op)
      (auto simp: create_explained timer_explained cancelled_explained dispose_explained body_explained post_approval_def
        intro: explained_more more)
qed (simp add: approval_run_def new_approval_queue_def explained_def outcomes_ok_def pending_ok_def)

lemma read_fields_approved:
  assumes "read_fields v = Inr r" "rp_approved r"
  shows "json_field v ''approved'' = Some (JBool True)
    \<and> (rp_always r = Some True \<longrightarrow> json_field v ''always'' = Some (JBool True))"
  using assms by (auto simp: read_fields_def Let_def split: option.splits json.splits if_splits)

text \<open>C32: A tool is allowed only on an explicit answer: whatever happens to a request - timers, cancellations,
  malformed bodies, any number of answers - it is answered with a permission only if some client's answer
  to this very request was accepted whose body says \<open>approved: true\<close>, and it becomes a rule only if that
  body says \<open>always: true\<close>.\<close>
theorem approval_is_explicit:
  assumes "rq \<in> set (aq_requests (as_queue (approval_run ops)))" "aq_outcome rq = Some x"
    and "server_answer x = Returned answer" "answer \<noteq> Ask_deny"
  shows "list_ex (\<lambda>p. po_request p = aq_id rq \<and> po_reply p = Some Reply_ok
      \<and> (case po_body p of None \<Rightarrow> False
         | Some v \<Rightarrow> json_field v ''approved'' = Some (JBool True)
             \<and> (if answer = Ask_always then json_field v ''always'' = Some (JBool True) else True)))
    (as_posts (approval_run ops))"
proof -
  obtain r where x: "x = Settled_with r" using assms(3) by (cases x) simp_all
  then have r: "rp_approved r" "answer = Ask_always \<longrightarrow> rp_always r = Some True"
    using assms(3,4) by (auto split: if_splits)
  have "r \<noteq> timed_out" using r(1) by (auto simp: timed_out_def)
  moreover obtain k where "k < length (aq_requests (as_queue (approval_run ops)))" "rq = aq_requests (as_queue (approval_run ops)) ! k"
    using assms(1) by (auto simp: in_set_conv_nth)
  ultimately have "answered (as_posts (approval_run ops)) (aq_id rq) r"
    using approval_run_explained[of ops] assms(2) x unfolding explained_def outcomes_ok_def by blast
  then obtain p where p: "p \<in> set (as_posts (approval_run ops))" "po_request p = aq_id rq" "po_reply p = Some Reply_ok"
    "read_approval (po_body p) = Inr r" by (auto simp: answered_def list_ex_iff)
  then obtain v where v: "po_body p = Some v" "read_fields v = Inr r"
    by (cases "po_body p") (auto simp: read_approval_def split: if_splits)
  show ?thesis using p(1-3) v(1) read_fields_approved[OF v(2) r(1)] r(2) by (auto simp: list_ex_iff)
qed

section \<open>What the answers do not do\<close>

definition both_sessions :: "approval_op list" where
  "both_sessions = [Session_made ''a'' (Some ''alice''), Session_made ''b'' (Some ''bob''), Asked ''r'']"

text \<open>The owner of a session may answer the request of another session: only the session in the path is
  checked.\<close>

lemma answer_through_other_session:
  "aq_outcome (aq_requests (as_queue (approval_run (both_sessions @
      [Posted ''b'' (Some ''bob'') ''r'', Body_arrived 0 (Some (JObject [(''approved'', JBool True)]))]))) ! 0)
   = Some (Settled_with \<lparr>rp_approved = True, rp_always = None, rp_updated = None, rp_timeout = False\<rparr>)"
  by code_simp

text \<open>An answer is reported as accepted when the request expired while the body was read.\<close>

lemma expired_answer_accepted:
  "let s = approval_run (both_sessions @ [Posted ''a'' (Some ''alice'') ''r'', Timer_fired 0,
       Body_arrived 0 (Some (JObject [(''approved'', JBool True)]))]) in
   map po_reply (as_posts s) = [Some Reply_ok]
   \<and> map_option server_answer (aq_outcome (aq_requests (as_queue s) ! 0)) = Some (Returned Ask_deny)"
  by code_simp

text \<open>The input that an answer puts in place of the tool's is not used.\<close>

lemma updated_input_ignored: "server_answer (Settled_with (r\<lparr>rp_updated := u\<rparr>)) = server_answer (Settled_with r)"
  by simp

text \<open>A body \<open>null\<close> is no structured error.\<close>

lemma null_body_throws: "read_approval (Some JNull) = Inl Reply_threw"
  by (simp add: read_approval_def)

section \<open>Witnesses\<close>

theorem approvals_settle_witness:
  "let q = as_queue (approval_run (both_sessions @ [Asked ''t'', Approval_cancelled ''r''])) in
   aq_timer (aq_requests q ! 1) \<and> has_pending ''t'' q
   \<and> map_option server_answer (aq_outcome (aq_requests (timer_fires 1 q) ! 1)) = Some (Returned Ask_deny)"
proof -
  let ?ops = "both_sessions @ [Asked ''t'', Approval_cancelled ''r'']"
  have d: "distinct (concat (map minted ?ops))" by code_simp
  have f: "length (aq_requests (as_queue (approval_run ?ops))) = 2 \<and> aq_outcome (aq_requests (as_queue (approval_run ?ops)) ! 1) = None
    \<and> aq_id (aq_requests (as_queue (approval_run ?ops)) ! 1) = ''t''" by code_simp
  then show ?thesis using approvals_settle[OF d refl, of 1] by (simp add: Let_def)
qed

theorem approval_is_explicit_witness:
  "list_ex (\<lambda>p. po_request p = ''r'' \<and> po_reply p = Some Reply_ok
      \<and> (case po_body p of None \<Rightarrow> False | Some v \<Rightarrow> json_field v ''approved'' = Some (JBool True)))
    (as_posts (approval_run (both_sessions @ [Posted ''a'' (Some ''alice'') ''r'',
       Body_arrived 0 (Some (JObject [(''approved'', JBool True)]))])))"
proof -
  let ?ops = "both_sessions @ [Posted ''a'' (Some ''alice'') ''r'', Body_arrived 0 (Some (JObject [(''approved'', JBool True)]))]"
  define rq where "rq = aq_requests (as_queue (approval_run ?ops)) ! 0"
  have f: "length (aq_requests (as_queue (approval_run ?ops))) = 1 \<and> aq_id rq = ''r''
    \<and> aq_outcome rq = Some (Settled_with \<lparr>rp_approved = True, rp_always = None, rp_updated = None, rp_timeout = False\<rparr>)"
    unfolding rq_def by code_simp
  then have "rq \<in> set (aq_requests (as_queue (approval_run ?ops)))" unfolding rq_def by (intro nth_mem) simp
  from approval_is_explicit[OF this conjunct2[OF conjunct2[OF f]], of Ask_allow] f
  show ?thesis by (simp cong: option.case_cong)
qed

end
