(* ===== verification/Session_Sweep.thy ===== *)
theory Session_Sweep
  imports Event_Delivery
begin

text \<open>
  The life of idle sessions: \<open>src/server/sessionSupervisor.ts\<close> (the sweep that reclaims them, the count of live
  ones), \<open>disposeSession\<close> and \<open>getSessionContext\<close> in \<open>src/server/runtime.ts\<close>, and the admission of a new
  session in \<open>src/server/routes/sessions.ts\<close>, on top of the buses of \<open>Event_Bus\<close>. The interval that starts a
  sweep and \<open>stop\<close> are left out: a sweep may start whenever none is running.
\<close>

section \<open>Data\<close>

text \<open>The sweep waits for the disposal of a session, or for its own continuation after it.\<close>

datatype sweep_phase = Disposing | Reclaimed

record sweep =
  sw_at :: rat
  sw_todo :: "string list"
  sw_current :: string
  sw_phase :: sweep_phase
  sw_evicted :: "string list"
  sw_skipped :: nat

text \<open>\<open>sv_updated\<close> is \<open>lastUpdated\<close> of the rows, in seconds. \<open>sv_waiting\<close> are the posts that wait for a sweep.\<close>

record 'd server_state =
  sv_gateway :: "'d gateway"
  sv_contexts :: "string list"
  sv_updated :: "(string \<times> rat) list"
  sv_idle_timeout :: rat
  sv_max_sessions :: nat
  sv_sweep :: "sweep option"
  sv_results :: "(string list \<times> nat) list"
  sv_waiting :: nat
  sv_created :: nat
  sv_refused :: nat

definition new_server :: "rat \<Rightarrow> nat \<Rightarrow> 'd server_state" where
  "new_server timeout max_sessions =
     \<lparr>sv_gateway = new_gateway, sv_contexts = [], sv_updated = [], sv_idle_timeout = timeout,
      sv_max_sessions = max_sessions, sv_sweep = None, sv_results = [], sv_waiting = 0, sv_created = 0, sv_refused = 0\<rparr>"

definition default_idle_timeout_ms :: rat where "default_idle_timeout_ms = 1800000"

section \<open>The sweep\<close>

definition live_sessions :: "'d server_state \<Rightarrow> string list" where
  "live_sessions s = foldl (\<lambda>ids i. set_add i ids) [] (live_bus_session_ids (sv_gateway s) @ sv_contexts s)"

definition live_session_count :: "'d server_state \<Rightarrow> nat" where
  "live_session_count s = length (live_sessions s)"

definition pinned :: "string \<Rightarrow> 'd server_state \<Rightarrow> bool" where
  "pinned i s \<longleftrightarrow>
     (case peek_bus i (sv_gateway s) of
        None \<Rightarrow> False | Some bus \<Rightarrow> eb_turn_active bus \<or> eb_subscribers bus \<noteq> [])"

definition last_activity :: "string \<Rightarrow> 'd server_state \<Rightarrow> rat" where
  "last_activity i s =
     (case peek_bus i (sv_gateway s) of
        Some bus \<Rightarrow> eb_last_activity bus | None \<Rightarrow> value_or (map_of (sv_updated s) i) 0 * 1000)"

text \<open>From one candidate to the next, up to one that is reclaimed. The part of \<open>disposeSession\<close> before it waits
  drops the context.\<close>

fun sweep_on :: "rat \<Rightarrow> string list \<Rightarrow> string list \<Rightarrow> nat \<Rightarrow> 'd server_state \<Rightarrow> 'd server_state" where
  "sweep_on begun [] evicted skipped s = s\<lparr>sv_sweep := None, sv_results := sv_results s @ [(evicted, skipped)]\<rparr>"
| "sweep_on begun (i # ids) evicted skipped s =
     (if pinned i s \<or> begun - last_activity i s \<le> sv_idle_timeout s then sweep_on begun ids evicted (skipped + 1) s
      else s\<lparr>sv_contexts := removeAll i (sv_contexts s),
             sv_sweep := Some \<lparr>sw_at = begun, sw_todo = ids, sw_current = i, sw_phase = Disposing,
               sw_evicted = evicted, sw_skipped = skipped\<rparr>\<rparr>)"

definition sweep_start :: "rat \<Rightarrow> 'd server_state \<Rightarrow> 'd server_state" where
  "sweep_start now s = (case sv_sweep s of None \<Rightarrow> sweep_on now (live_sessions s) [] 0 s | Some _ \<Rightarrow> s)"

definition reclaim_bus :: "string \<Rightarrow> 'd server_state \<Rightarrow> 'd server_state" where
  "reclaim_bus i s = s\<lparr>sv_gateway := dispose_bus i (sv_gateway s)\<rparr>"

text \<open>The disposal comes back, having reclaimed the bus, or throws.\<close>

definition disposal_done :: "bool \<Rightarrow> 'd server_state \<Rightarrow> 'd server_state" where
  "disposal_done ok s =
     (case sv_sweep s of
        Some w \<Rightarrow>
          (if sw_phase w = Disposing
           then if ok then (reclaim_bus (sw_current w) s)\<lparr>sv_sweep := Some (w\<lparr>sw_phase := Reclaimed\<rparr>)\<rparr>
             else sweep_on (sw_at w) (sw_todo w) (sw_evicted w) (sw_skipped w + 1) s
           else s)
      | None \<Rightarrow> s)"

definition sweep_resumes :: "'d server_state \<Rightarrow> 'd server_state" where
  "sweep_resumes s =
     (case sv_sweep s of
        Some w \<Rightarrow>
          (if sw_phase w = Reclaimed
           then sweep_on (sw_at w) (sw_todo w) (sw_evicted w @ [sw_current w]) (sw_skipped w) (reclaim_bus (sw_current w) s)
           else s)
      | None \<Rightarrow> s)"

text \<open>The live, turn-active and subscribed sessions.\<close>

definition server_stats :: "'d server_state \<Rightarrow> nat \<times> nat \<times> nat" where
  "server_stats s =
     (let buses = map (\<lambda>i. peek_bus i (sv_gateway s)) (live_bus_session_ids (sv_gateway s)) in
      (live_session_count s,
       length (filter (\<lambda>x. case x of None \<Rightarrow> False | Some bus \<Rightarrow> eb_turn_active bus) buses),
       length (filter (\<lambda>x. case x of None \<Rightarrow> False | Some bus \<Rightarrow> 0 < length (eb_subscribers bus)) buses)))"

section \<open>Admission\<close>

definition at_capacity :: "'d server_state \<Rightarrow> bool" where
  "at_capacity s \<longleftrightarrow> 0 < sv_max_sessions s \<and> sv_max_sessions s \<le> live_session_count s"

definition post_session :: "rat \<Rightarrow> 'd server_state \<Rightarrow> 'd server_state" where
  "post_session now s =
     (if at_capacity s then (sweep_start now s)\<lparr>sv_waiting := sv_waiting s + 1\<rparr> else s\<lparr>sv_created := sv_created s + 1\<rparr>)"

definition admission_resumes :: "'d server_state \<Rightarrow> 'd server_state" where
  "admission_resumes s =
     (if sv_waiting s = 0 then s
      else let s' = s\<lparr>sv_waiting := sv_waiting s - 1\<rparr> in
        if at_capacity s' then s'\<lparr>sv_refused := sv_refused s + 1\<rparr> else s'\<lparr>sv_created := sv_created s + 1\<rparr>)"

section \<open>The server as a machine\<close>

datatype 'd server_op =
    Bus_op "'d gateway_op"
  | Context_wanted string
  | Row_updated string rat
  | Sweep_starts rat
  | Disposal_done bool
  | Sweep_resumes
  | Session_posted rat
  | Admission_resumes

fun server_step :: "'d server_state \<Rightarrow> 'd server_op \<Rightarrow> 'd server_state" where
  "server_step s (Bus_op op) = s\<lparr>sv_gateway := gateway_step (sv_gateway s) op\<rparr>"
| "server_step s (Context_wanted i) = s\<lparr>sv_contexts := set_add i (sv_contexts s)\<rparr>"
| "server_step s (Row_updated i t) = s\<lparr>sv_updated := AList.update i t (sv_updated s)\<rparr>"
| "server_step s (Sweep_starts now) = sweep_start now s"
| "server_step s (Disposal_done ok) = disposal_done ok s"
| "server_step s Sweep_resumes = sweep_resumes s"
| "server_step s (Session_posted now) = post_session now s"
| "server_step s Admission_resumes = admission_resumes s"

definition server_run :: "'d server_op list \<Rightarrow> 'd server_state \<Rightarrow> 'd server_state" where
  "server_run ops s = foldl server_step s ops"

text \<open>The states before each step and the last one.\<close>

fun server_states :: "'d server_op list \<Rightarrow> 'd server_state \<Rightarrow> 'd server_state list" where
  "server_states [] s = [s]"
| "server_states (op # ops) s = s # server_states ops (server_step s op)"

section \<open>A session in use is kept\<close>

text \<open>The bus of a session has an index of its own.\<close>

definition map_ok :: "'d gateway \<Rightarrow> bool" where
  "map_ok g \<longleftrightarrow> distinct (map snd (gw_map g)) \<and> distinct (map fst (gw_map g)) \<and> list_all (\<lambda>b. b < length (gw_buses g)) (map snd (gw_map g))"

text \<open>What tears the session \<open>i\<close> down without a sweep.\<close>

fun tears_down :: "string \<Rightarrow> 'd server_op \<Rightarrow> bool" where
  "tears_down i (Bus_op (Dispose j)) = (i = j)"
| "tears_down i (Bus_op Abort_all) = True"
| "tears_down i (Bus_op Clear_all) = True"
| "tears_down i _ = False"

text \<open>The session keeps its bus \<open>b\<close>, which is open.\<close>

definition keeps_bus :: "string \<Rightarrow> nat \<Rightarrow> 'd gateway \<Rightarrow> bool" where
  "keeps_bus i b g \<longleftrightarrow> map_ok g \<and> map_of (gw_map g) i = Some b \<and> \<not> eb_closed (gw_buses g ! b)"

lemma map_ok_other:
  assumes "map_ok g" "map_of (gw_map g) i = Some b" "map_of (gw_map g) j = Some c" "i \<noteq> j"
  shows "b \<noteq> c"
proof
  assume "b = c"
  then have "(i, b) \<in> set (gw_map g)" "(j, b) \<in> set (gw_map g)" using assms(2,3) by (auto dest: map_of_SomeD)
  moreover have "inj_on snd (set (gw_map g))" using assms(1) by (simp add: map_ok_def distinct_map)
  ultimately show False using assms(4) inj_onD[of snd "set (gw_map g)" "(i, b)" "(j, b)"] by simp
qed

lemma keeps_range: "map_ok g \<Longrightarrow> map_of (gw_map g) i = Some b \<Longrightarrow> b < length (gw_buses g)"
  by (force simp: map_ok_def list_all_iff dest: map_of_SomeD)

lemma close_other_bus: "b \<noteq> c \<Longrightarrow> gw_buses (close_bus c g) ! b = gw_buses g ! b"
  by (simp add: close_bus_def nth_update_if)

lemma dispose_other:
  assumes "keeps_bus i b g" "i \<noteq> j"
  shows "keeps_bus i b (dispose_bus j g) \<and> gw_buses (dispose_bus j g) ! b = gw_buses g ! b"
proof (cases "map_of (gw_map g) j")
  case (Some c)
  have "b \<noteq> c" using assms map_ok_other[of g i b j c] Some by (simp add: keeps_bus_def)
  moreover have "map_ok (dispose_bus j g)"
    using assms(1) Some
    by (auto simp: keeps_bus_def map_ok_def dispose_bus_def list_all_iff intro: distinct_map_filter)
  moreover have "map_of (gw_map (dispose_bus j g)) i = Some b"
    using assms Some map_of_filter_in[of "gw_map g" i b "\<lambda>k _. k \<noteq> j"]
    by (simp add: keeps_bus_def dispose_bus_def case_prod_beta')
  ultimately show ?thesis using assms Some by (simp add: keeps_bus_def dispose_bus_def close_other_bus)
qed (use assms in \<open>simp add: dispose_bus_def\<close>)

lemma keeps_fields: "gw_map g'' = gw_map g' \<Longrightarrow> gw_buses g'' = gw_buses g' \<Longrightarrow> keeps_bus i b g'' = keeps_bus i b g'"
  by (simp add: keeps_bus_def map_ok_def)

lemma create_keeps:
  assumes made: "get_or_create_bus j m now g = (c, g')" and ok: "map_ok g"
  shows "map_ok g'" "keeps_bus i b g \<Longrightarrow> keeps_bus i b g' \<and> gw_buses g' ! b = gw_buses g ! b"
proof -
  show "map_ok g'"
  proof (cases "map_of (gw_map g) j")
    case None
    then have "j \<notin> fst ` set (gw_map g)" by (simp add: map_of_eq_None_iff)
    moreover have "length (gw_buses g) \<notin> set (map snd (gw_map g))" using ok by (auto simp: map_ok_def list_all_iff)
    moreover have "list_all (\<lambda>b. b < Suc (length (gw_buses g))) (map snd (gw_map g))"
      using ok by (auto simp: map_ok_def list_all_iff intro: less_SucI)
    moreover have "distinct (map snd (gw_map g))" "distinct (map fst (gw_map g))" using ok by (simp_all add: map_ok_def)
    ultimately show ?thesis using made None
      by (auto simp: get_or_create_bus_def Let_def map_ok_def)
  qed (use made ok in \<open>simp add: get_or_create_bus_def\<close>)
  then show "keeps_bus i b g \<Longrightarrow> keeps_bus i b g' \<and> gw_buses g' ! b = gw_buses g ! b"
    using made keeps_range[of g i b]
    by (auto simp: keeps_bus_def get_or_create_bus_def Let_def nth_append map_add_def split: option.splits)
qed

text \<open>A step that keeps the map and closes no bus.\<close>

definition same_map :: "'d gateway \<Rightarrow> 'd gateway \<Rightarrow> bool" where
  "same_map g g' \<longleftrightarrow> gw_map g' = gw_map g \<and> length (gw_buses g') = length (gw_buses g)
     \<and> (\<forall>b. eb_closed (gw_buses g' ! b) = eb_closed (gw_buses g ! b))"

lemma same_map_keeps: "same_map g g' \<Longrightarrow> map_ok g' = map_ok g \<and> keeps_bus i b g' = keeps_bus i b g"
  by (simp add: same_map_def keeps_bus_def map_ok_def)

lemma same_map_refl: "same_map g g"
  by (simp add: same_map_def)

lemma same_map_trans: "same_map g g' \<Longrightarrow> same_map g' g'' \<Longrightarrow> same_map g g''"
  by (simp add: same_map_def)

lemma set_bus_same: "(\<And>bus. eb_closed (f bus) = eb_closed bus) \<Longrightarrow> same_map g (set_bus b f g)"
  by (simp add: same_map_def nth_update_if)

lemma finish_same: "same_map g (finish_stream i g)"
  by (auto simp: finish_stream_def same_map_refl set_bus_same split: stream_phase.split)

lemma set_stream_same: "same_map g (set_stream i f g)"
  by (simp add: same_map_def)

lemma step_stream_same: "same_map g (step_stream i f g)"
  unfolding step_stream_def by (rule same_map_trans[OF set_stream_same finish_same])

lemma connected_same: "same_map g (connected now i g)"
  unfolding connected_def subscribe_stream_def Let_def
  by (rule same_map_trans[OF same_map_trans[OF same_map_trans[OF set_bus_same set_stream_same] set_stream_same] finish_same]) simp

lemma on_bus_same: "(\<And>bus. eb_closed (f bus) = eb_closed bus) \<Longrightarrow> same_map g (on_bus b f g)"
  by (simp add: on_bus_def same_map_refl set_bus_same)

lemma emit_same: "same_map g (emit_event now b type data g)"
  by (simp add: same_map_def emit_event_def publish_event_def Let_def nth_update_if)

lemma stream_keeps:
  "keeps_bus i b (set_stream k f g) = keeps_bus i b g" "keeps_bus i b (step_stream k f g) = keeps_bus i b g"
  "keeps_bus i b (connected now k g) = keeps_bus i b g" "keeps_bus i b (emit_event now c type data g) = keeps_bus i b g"
  using same_map_keeps[OF set_stream_same[of g k f], of i b] same_map_keeps[OF step_stream_same[of g k f], of i b]
    same_map_keeps[OF connected_same[of g now k], of i b] same_map_keeps[OF emit_same[of g now c type data], of i b]
  by simp_all

lemma on_bus_keeps: "(\<And>bus. eb_closed (f bus) = eb_closed bus) \<Longrightarrow> keeps_bus i b (on_bus c f g) = keeps_bus i b g"
  using same_map_keeps[OF on_bus_same[of f g c], of i b] by simp

lemma gateway_step_keeps:
  assumes "keeps_bus i b g" "\<not> tears_down i (Bus_op op)"
  shows "keeps_bus i b (gateway_step g op)"
proof (cases op)
  case (Open session header query follow now)
  obtain c g' where made: "get_or_create_bus session None now g = (c, g')" by force
  have "map_ok g" using assms(1) by (simp add: keeps_bus_def)
  then have "keeps_bus i b g'" using create_keeps(2)[OF made] assms(1) by blast
  then show ?thesis using keeps_fields[of "open_stream session header query follow now g" g'] made Open
    by (simp add: open_stream_def)
next
  case (Cancel session now)
  obtain c g' where made: "get_or_create_bus session None now g = (c, g')" by force
  have "map_ok g" using assms(1) by (simp add: keeps_bus_def)
  then have "keeps_bus i b g'" using create_keeps(2)[OF made] assms(1) by blast
  then show ?thesis using keeps_fields[of "snd (cancel_current_turn c g')" g'] made Cancel
    by (simp add: cancel_current_turn_def split: option.split)
next
  case (Bus_wanted session m now)
  obtain c g' where made: "get_or_create_bus session m now g = (c, g')" by force
  have "map_ok g" using assms(1) by (simp add: keeps_bus_def)
  then show ?thesis using create_keeps(2)[OF made] assms(1) made Bus_wanted by simp
next
  case (Dispose session)
  then show ?thesis using dispose_other[OF assms(1)] assms(2) by simp
next
  case (Write_failed k)
  then show ?thesis using assms(1) by (simp add: stream_keeps split: stream_phase.split)
next
  case (Connected k now)
  then show ?thesis using assms(1) by (simp add: stream_keeps split: stream_phase.split)
next
  case (Resumed k)
  then show ?thesis using assms(1) by (simp add: stream_keeps split: stream_phase.split)
next
  case (Written k)
  then show ?thesis using assms(1) by (simp add: stream_keeps split: stream_phase.split)
next
  case (Emit c type data now)
  then show ?thesis using assms(1) by (simp add: stream_keeps)
next
  case (Ring_size n)
  then show ?thesis using assms by (simp add: set_default_ring_size_def keeps_bus_def map_ok_def)
qed (use assms in \<open>simp_all add: stream_keeps on_bus_keeps mark_turn_start_def\<close>)

text \<open>The sweep has picked the session.\<close>

definition picked :: "string \<Rightarrow> 'd server_state \<Rightarrow> bool" where
  "picked i s \<longleftrightarrow> (case sv_sweep s of None \<Rightarrow> False | Some w \<Rightarrow> sw_current w = i)"

lemma sweep_on_gateway [simp]: "sv_gateway (sweep_on begun ids evicted skipped s) = sv_gateway s"
  by (induction begun ids evicted skipped s rule: sweep_on.induct) simp_all

lemma sweep_on_spares: "pinned i s \<Longrightarrow> \<not> picked i (sweep_on begun ids evicted skipped s)"
  by (induction begun ids evicted skipped s rule: sweep_on.induct) (auto simp: picked_def)

lemma reclaim_spares:
  assumes "keeps_bus i b (sv_gateway s)" "i \<noteq> j"
  shows "keeps_bus i b (sv_gateway (reclaim_bus j s)) \<and> (pinned i s \<longrightarrow> pinned i (reclaim_bus j s))"
  using dispose_other[OF assms] assms(1) by (auto simp: reclaim_bus_def pinned_def peek_bus_def keeps_bus_def)

lemma server_step_keeps:
  assumes keeps: "keeps_bus i b (sv_gateway s)" and "\<not> picked i s" "pinned i s" "\<not> tears_down i op"
  shows "keeps_bus i b (sv_gateway (server_step s op)) \<and> \<not> picked i (server_step s op)"
proof (cases op)
  case (Bus_op gop)
  then show ?thesis using assms gateway_step_keeps[OF keeps, of gop] by (simp add: picked_def)
next
  case (Sweep_starts now)
  then show ?thesis using assms sweep_on_spares[OF assms(3)] by (auto simp: sweep_start_def split: option.split)
next
  case (Disposal_done ok)
  show ?thesis
  proof (cases "sv_sweep s")
    case (Some w)
    then have "i \<noteq> sw_current w" using assms(2) by (auto simp: picked_def)
    then show ?thesis using Some Disposal_done assms reclaim_spares[OF keeps, of "sw_current w"] sweep_on_spares[OF assms(3)]
      by (auto simp: disposal_done_def picked_def)
  qed (use Disposal_done assms in \<open>simp add: disposal_done_def\<close>)
next
  case Sweep_resumes
  show ?thesis
  proof (cases "sv_sweep s")
    case (Some w)
    then have "i \<noteq> sw_current w" using assms(2) by (auto simp: picked_def)
    then have kept: "keeps_bus i b (sv_gateway (reclaim_bus (sw_current w) s))" "pinned i (reclaim_bus (sw_current w) s)"
      using reclaim_spares[OF keeps, of "sw_current w"] assms(3) by auto
    show ?thesis using Some Sweep_resumes assms(1,2) kept(1) sweep_on_spares[OF kept(2)] by (simp add: sweep_resumes_def)
  qed (use Sweep_resumes assms in \<open>simp add: sweep_resumes_def\<close>)
next
  case (Session_posted now)
  have "picked i (x\<lparr>sv_waiting := n\<rparr>) = picked i x" for x :: "'a server_state" and n by (simp add: picked_def)
  moreover have "picked i (x\<lparr>sv_created := n\<rparr>) = picked i x" for x :: "'a server_state" and n by (simp add: picked_def)
  ultimately show ?thesis using Session_posted assms sweep_on_spares[OF assms(3)]
    by (auto simp: post_session_def sweep_start_def split: option.split)
qed (use assms in \<open>simp_all add: picked_def admission_resumes_def Let_def\<close>)

lemma server_run_keeps:
  "keeps_bus i b (sv_gateway s) \<Longrightarrow> \<not> picked i s \<Longrightarrow> list_all (pinned i) (server_states ops s)
   \<Longrightarrow> list_all (\<lambda>op. \<not> tears_down i op) ops \<Longrightarrow> keeps_bus i b (sv_gateway (server_run ops s))"
proof (induction ops arbitrary: s)
  case (Cons op ops)
  then show ?case using server_step_keeps[of i b s op] by (simp add: server_run_def)
qed (simp add: server_run_def)

lemma gateway_step_map_ok:
  assumes ok: "map_ok g"
  shows "map_ok (gateway_step g op)"
proof (cases op)
  case (Open session header query follow now)
  obtain c g' where made: "get_or_create_bus session None now g = (c, g')" by force
  then show ?thesis using create_keeps(1)[OF made ok] Open by (simp add: open_stream_def map_ok_def)
next
  case (Cancel session now)
  obtain c g' where made: "get_or_create_bus session None now g = (c, g')" by force
  then show ?thesis using create_keeps(1)[OF made ok] Cancel
    by (simp add: cancel_current_turn_def map_ok_def split: option.split)
next
  case (Bus_wanted session m now)
  obtain c g' where made: "get_or_create_bus session m now g = (c, g')" by force
  then show ?thesis using create_keeps(1)[OF made ok] Bus_wanted by simp
next
  case (Dispose session)
  then show ?thesis using ok by (auto simp: dispose_bus_def map_ok_def list_all_iff intro: distinct_map_filter split: option.split)
next
  case Abort_all
  have "length (gw_buses (foldl (\<lambda>g b. close_bus b g) g bs)) = length (gw_buses g)" for bs
    by (induction bs arbitrary: g) simp_all
  then show ?thesis using ok Abort_all by (simp add: abort_all_buses_def map_ok_def)
next
  case Clear_all
  then show ?thesis by (simp add: clear_all_buses_def map_ok_def)
qed (use ok same_map_keeps[OF set_stream_same[of g]] same_map_keeps[OF step_stream_same[of g]] same_map_keeps[OF connected_same[of g]]
      same_map_keeps[OF emit_same[of g]] same_map_keeps[OF on_bus_same[of _ g]] in
      \<open>auto simp: mark_turn_start_def set_default_ring_size_def map_ok_def split: stream_phase.split\<close>)

lemma server_run_map_ok: "map_ok (sv_gateway (server_run ops (new_server timeout m)))"
proof (induction ops rule: rev_induct)
  case (snoc op ops)
  let ?s = "server_run ops (new_server timeout m)"
  have reclaim: "map_ok (sv_gateway (reclaim_bus i t))" if "map_ok (sv_gateway t)" for i and t :: "'a server_state"
    using gateway_step_map_ok[OF that, of "Dispose i"] by (simp add: reclaim_bus_def)
  have "map_ok (sv_gateway (server_step ?s op))"
    using snoc reclaim gateway_step_map_ok[OF snoc]
    by (cases op)
      (auto simp: sweep_start_def disposal_done_def sweep_resumes_def post_session_def admission_resumes_def Let_def
        split: option.split)
  then show ?case by (simp add: server_run_def)
qed (simp add: server_run_def new_server_def new_gateway_def map_ok_def)

text \<open>C34: The sweep takes nothing away that is in use: a session whose bus is open and which, from some state on
  that a sweep has not picked it in, always has a turn in progress or a reader, keeps that bus, open, through
  any number of sweeps, disposals and admissions, unless it is torn down explicitly.\<close>
theorem sweep_spares_sessions_in_use:
  assumes "s = server_run earlier (new_server timeout m)"
    and "map_of (gw_map (sv_gateway s)) i = Some b" "\<not> eb_closed (gw_buses (sv_gateway s) ! b)" "\<not> picked i s"
    and "list_all (pinned i) (server_states ops s)" "\<not> list_ex (tears_down i) ops"
  shows "map_of (gw_map (sv_gateway (server_run ops s))) i = Some b
    \<and> \<not> eb_closed (gw_buses (sv_gateway (server_run ops s)) ! b)"
proof -
  have "keeps_bus i b (sv_gateway s)" using assms(2,3) server_run_map_ok by (simp add: keeps_bus_def assms(1))
  moreover have "list_all (\<lambda>op. \<not> tears_down i op) ops" using assms(6) by (simp add: list_all_iff list_ex_iff)
  ultimately show ?thesis using server_run_keeps assms(4,5) by (auto simp: keeps_bus_def)
qed

text \<open>The sweep does not look again after it has picked a session: a turn that starts while the session's
  context is disposed of has its bus closed, and the events it publishes reach nobody.\<close>

definition turn_during_disposal :: "unit server_op list" where
  "turn_during_disposal =
     [Bus_op (Bus_wanted ''s'' None 0), Context_wanted ''s'', Sweep_starts 2000000,
      Bus_op (Bus_wanted ''s'' None 2000000), Bus_op (Turn_started 0 2000000), Bus_op (Open ''s'' None None None 2000000),
      Bus_op (Connected 0 2000000), Disposal_done True, Bus_op (Emit 0 ''turn_complete'' () 2000000)]"

lemma sweep_closes_started_turn:
  "let s = server_run turn_during_disposal (new_server default_idle_timeout_ms 0) in
   eb_closed (gw_buses (sv_gateway s) ! 0) \<and> eb_turn_active (gw_buses (sv_gateway s) ! 0) \<and> bus_events 0 (sv_gateway s) = []"
  by code_simp

text \<open>The cap counts sessions that have a bus or a context, which a new session gets with its first turn: any
  number of sessions can be made below the cap, and all of them can then run.\<close>

definition many_sessions :: "unit server_op list" where
  "many_sessions =
     [Session_posted 0, Session_posted 0, Session_posted 0, Bus_op (Bus_wanted ''a'' None 0), Bus_op (Bus_wanted ''b'' None 0),
      Bus_op (Bus_wanted ''c'' None 0), Bus_op (Turn_started 0 0), Bus_op (Turn_started 1 0), Bus_op (Turn_started 2 0)]"

lemma cap_admits_more:
  "let s = server_run many_sessions (new_server default_idle_timeout_ms 1) in
   sv_created s = 3 \<and> live_session_count s = 3 \<and> list_all eb_turn_active (gw_buses (sv_gateway s))"
  by code_simp

definition watched_ops :: "unit server_op list" where
  "watched_ops = [Bus_op (Open ''s'' None None (Some ''true'') 0), Bus_op (Connected 0 0)]"

definition sweep_ops :: "unit server_op list" where
  "sweep_ops = [Context_wanted ''s'', Bus_op (Bus_wanted ''t'' None 0), Sweep_starts 2000000, Disposal_done True, Sweep_resumes]"

theorem sweep_spares_sessions_in_use_witness:
  "map_of (gw_map (sv_gateway (server_run sweep_ops (server_run watched_ops (new_server default_idle_timeout_ms 0))))) ''s'' = Some 0
   \<and> sv_results (server_run sweep_ops (server_run watched_ops (new_server default_idle_timeout_ms 0))) = [([''t''], 1)]"
proof -
  let ?s = "server_run watched_ops (new_server default_idle_timeout_ms 0)"
  have now: "map_of (gw_map (sv_gateway ?s)) ''s'' = Some 0 \<and> \<not> eb_closed (gw_buses (sv_gateway ?s) ! 0) \<and> \<not> picked ''s'' ?s"
    by code_simp
  have states: "list_all (pinned ''s'') (server_states sweep_ops ?s)" by code_simp
  have "\<not> list_ex (tears_down ''s'') sweep_ops" "sv_results (server_run sweep_ops ?s) = [([''t''], 1)]" by code_simp+
  then show ?thesis using sweep_spares_sessions_in_use[OF refl _ _ _ states] now by blast
qed

end
