(* ===== verification/Spec2Isabelle.thy ===== *)
theory Spec2Isabelle
  imports Sdk_Prelude Work_Queue Lock_Interface Semaphores Path_Lock Messages Usage_Accounting
    Tree_Budget Loop_Guard Transcript_Repair Microcompact Context_Management Tool_Dispatch
    Tool_Schedule Posix_Paths Shell_Syntax Shell_Semantics Shell_Mutations Bash_Permissions
    Permission_Rules Permission_Decision Write_Scope Model_Calls Model_Limits Query_State
    Turn_Loop Turn_Proofs Child_Policy Child_Routing Lock_Ownership Delegation
    Delegation_Invariant Delegation_Proofs Workflow_Template Workflow_Engine Workflow_Proofs
    Session_Store Logical_Turn Turn_Supervisor Supervisor_Proofs Turn_Outcomes Credential_Pool
    Rate_Guard Event_Bus Event_Delivery Approvals Session_Sweep
begin

text \<open>
  A verification development for the core of the sovereign AI SDK
  (\<open>packages/sdk/src\<close> in the repository), and parts of the server around it (\<open>src\<close>): the library that runs a language model as an agent,
  calls its tools, guards what they may do and accounts for what they cost.

  \<^bold>\<open>The program and the theories.\<close> Each theory models one part and names its source files in its
  own opening text; a definition has the name of the function it models, in snake case.

  \<^item> \<open>Sdk_Prelude\<close>: results of calls into host code (\<open>outcome\<close>: returned or threw), string and list
    helpers that stand for JavaScript's (\<open>trim\<close>, \<open>startsWith\<close>, \<open>join\<close>, a \<open>Set\<close> as a duplicate-free
    list), and the lemmas the components share.
  \<^item> \<open>Messages\<close>, \<open>Usage_Accounting\<close>: the data of a conversation (\<open>core/types.ts\<close>), the token
    estimates and the usage and price arithmetic (\<open>core/tokenEstimate.ts\<close>,
    \<open>core/usageAccumulator.ts\<close>, \<open>providers/pricing.ts\<close>).
  \<^item> \<open>Transcript_Repair\<close>, \<open>Microcompact\<close>, \<open>Context_Management\<close>: what happens to a history before it is
    sent: missing tool results are supplied, old results are cleared, a host's reduction is checked
    (\<open>core/transcriptRepair.ts\<close>, \<open>compact/microcompact.ts\<close>, \<open>compact/contextManagement.ts\<close>).
  \<^item> \<open>Tool_Dispatch\<close>, \<open>Tool_Schedule\<close>: one tool call, gate by gate, and the calls of one turn,
    partitioned into serial and concurrent batches (\<open>core/orchestrator.ts\<close>).
  \<^item> \<open>Shell_Syntax\<close>, \<open>Shell_Semantics\<close>, \<open>Shell_Mutations\<close>, \<open>Bash_Permissions\<close>: the analysis of a shell
    command (\<open>permissions/shellSemantics.ts\<close>), the uses of commands that change something, described
    apart from the code, and the gates of the Bash tool built on the analysis (\<open>tools/BashTool.ts\<close>).
  \<^item> \<open>Permission_Rules\<close>, \<open>Permission_Decision\<close>, \<open>Write_Scope\<close>: the rule language, the decision from
    rules, mode, tool and user, and the write scope of a delegated task (\<open>config/rules.ts\<close>,
    \<open>permissions/canUseTool.ts\<close>, \<open>tool/toolScope.ts\<close>, \<open>permissions/writeScope.ts\<close>).
  \<^item> \<open>Lock_Interface\<close>, \<open>Semaphores\<close>, \<open>Path_Lock\<close>, \<open>Tree_Budget\<close>, \<open>Work_Queue\<close>: the shared state that
    concurrent agents go through: permits with abortable waiters, locks on path scopes, the budget of
    a tree of agents, the queue of a session (\<open>runtime/semaphore.ts\<close>, \<open>runtime/laneSemaphores.ts\<close>,
    \<open>runtime/pathLock.ts\<close>, \<open>runtime/treeBudget.ts\<close>, \<open>host/sessionWorkQueue.ts\<close>).
  \<^item> \<open>Model_Calls\<close>, \<open>Model_Limits\<close>: the ceiling on model requests that delegated queries share, and the
    token limits of a model with the output reservation of a request (\<open>core/query.ts\<close>,
    \<open>providers/modelLimits.ts\<close>).
  \<^item> \<open>Query_State\<close>, \<open>Turn_Loop\<close>, \<open>Turn_Proofs\<close>: the loop that runs a query (\<open>core/query.ts\<close>). Its state
    and its host, then the loop itself (request, overflow recovery, loop guard, tools, steering,
    check-in, owned tasks, Stop hook), built on the parts above, then what is proved of it.
  \<^item> \<open>Child_Policy\<close>, \<open>Child_Routing\<close>: delegation to a sub-agent (\<open>runtime/scheduler.ts\<close>): the tools and
    the permission a child gets, the model it runs on, its deadline and its report.
  \<^item> \<open>Lock_Ownership\<close>, \<open>Delegation\<close>, \<open>Delegation_Invariant\<close>, \<open>Delegation_Proofs\<close>: the scheduler
    itself (\<open>SubagentScheduler.delegate\<close>), a machine over the lanes, the write lock and the tree
    budgets; who owns which of their handles; that every step keeps this, and what follows from it.
  \<^item> \<open>Workflow_Template\<close>, \<open>Workflow_Engine\<close>, \<open>Workflow_Proofs\<close>: declarative workflows of delegations
    (\<open>src/workflows\<close>): references in prompts and the check of a definition, the run as a machine of
    settling delegations, and that it terminates, does not depend on their order and delegates only
    what was checked.
  \<^item> \<open>Session_Store\<close>: the in-memory session store (\<open>persistence/inMemoryStore.ts\<close>): rows, transcripts,
    the journal of tool executions, turn records and leases, and all writes as one machine.
  \<^item> \<open>Logical_Turn\<close>, \<open>Turn_Supervisor\<close>, \<open>Supervisor_Proofs\<close>, \<open>Turn_Outcomes\<close>: one user turn over several
    segments (\<open>agent/logicalTurn.ts\<close>): its record, errors, retries and progress; the supervisor as
    actions with three exits (goes on, returns, throws) over the store; a Hoare logic for these
    exits, proved once in a locale; what follows when it is interpreted.
  \<^item> \<open>Credential_Pool\<close>, \<open>Rate_Guard\<close>: which credential of a provider a request uses, lockouts and how
    they end, the file that processes share (\<open>providers/credentials\<close>); until when a provider that
    answered 429 is left alone.
  \<^item> \<open>Event_Bus\<close>, \<open>Event_Delivery\<close>: the event buses of the server and the streams that read them
    (\<open>src/server/eventBus.ts\<close>, \<open>routes/events.ts\<close>) as one machine; that readers miss nothing, that
    subscribers are the streams that read, that streams end.
  \<^item> \<open>Approvals\<close>: how the server asks its user (\<open>src/server/approvalQueue.ts\<close>, \<open>routes/approvals.ts\<close>).
  \<^item> \<open>Session_Sweep\<close>: the reclaiming of idle sessions and the admission of new ones
    (\<open>src/server/sessionSupervisor.ts\<close>), over the buses.
  \<^item> \<open>Loop_Guard\<close>: the detector of repeating and unproductive calls (\<open>loop/detector.ts\<close>).
  \<^item> \<open>Posix_Paths\<close>: the functions of \<open>node:path\<close> the code calls.

  \<^bold>\<open>How state and effects are modelled.\<close> A class with private fields is a record, a method a function
  from the record (and what it is called with) to the new record and the result. Promises that wait
  are entries of a queue in the record; the events that resume them (a release, an abort, a job that
  settles) are operations, and the order of events is explicit as a list or as a reachability
  relation. Host callbacks (tools, users, hooks, providers) are parameters that may throw; where what
  they answer may depend on earlier effects they take the log of those effects. Errors are values. In the turn loop everything outside the generator
  is one world: a callback maps it to an answer and the next world, every effect of the generator is
  told to it, and a provider stream is a tree that goes on from the world its consumer left.

  \<^bold>\<open>What the lemmas show.\<close> For each part: its invariant and that every operation keeps it
  (budgets stay within their limits, locks held at one time cover disjoint paths, permits never exceed
  the capacity, one job runs at a time); what each operation answers on every branch; that nobody
  waits for ever when the others release; that a repaired transcript is a valid one, and that repairing
  and validating agree with declarative definitions; that a call reaches its tool only through every
  gate; that the segments of a command classified as read-only are commands of the read tables used in
  no form that writes or runs another command, the scripts of \<open>sed\<close> and the subcommands of \<open>git\<close>
  included, wherever separators stand; that a permission is granted only for one of the listed
  reasons; that a write admitted by a write scope lies under a directory the scope's path lock
  covers; that a query never sends a transcript with an unanswered tool call and never ends with one,
  that its requests stay below its ceiling, and that it ends when it has one; that a turn starts its
  segments within the stored limits, stores its outcome before it tells it, and has one writer at a time. Interfaces that several parts rely on are locales (\<open>Lock_Interface\<close>, the wave runner of
  \<open>Tool_Schedule\<close>), interpreted on the models of the code.

  \<^bold>\<open>Bounds and termination.\<close> No definition uses fuel: every loop of the source is structural
  recursion or has a measure, so it returns on every input. The exceptions are the turn loop and the
  supervisor: \<open>run_query\<close> and \<open>run_loop\<close> are partial functions, because a query without a ceiling and
  a turn without a limit may run for ever; \<open>query_terminates\<close> and \<open>limited_turn_ends\<close> show that they
  return when there is one. The scanners of \<open>Shell_Syntax\<close> and
  \<open>Shell_Semantics\<close> consume their text. Numbers of the source that are counts or indices are natural
  numbers or integers; amounts of tokens, money and time are exact rationals (the code computes them in binary64,
  whose rounding is not modelled; \<open>NaN\<close> and infinities are rejected by the code's own checks, which
  are modelled).

  \<^bold>\<open>Conventions.\<close> A string is a list of bytes; white space is the ASCII white space. Regular
  expressions of the source are written out as functions on the string.

  \<^bold>\<open>Not modelled.\<close> Third-party code is a parameter of the definitions: picomatch, SHA-256, the
  encoder of one message, the host's tools, hooks and providers. Process spawning, file system,
  network, SQL and terminal I/O are left out, and with them the provider adapters, the MCP transport,
  the skill loader, most of the server and the command-line front ends. Of \<open>core/query.ts\<close> the
  handling of skills and what precedes the loop (injected memory and lessons, the prompt hook, the
  conduct gates) are left out.
\<close>

end
